(* ===== verification/Prelude.thy ===== *)
theory Prelude
  imports Main "HOL-Library.Word" "HOL-Library.Multiset"
begin

text \<open>
  Shared ground of the development: the machine words of the kernels with the
  \<open>ap_uint\<close> range operations, the 32-bit lanes of a 512-bit burst, and the reading
  loops that every streaming kernel is made of.  A kernel that reads a FIFO with
  blocking reads is a function from the tokens that arrive to the tokens it writes,
  the tokens it leaves unread, and whether it returned or waits on an empty FIFO.
  The collection \<open>lane_simps\<close> rewrites reads of lanes after writes of lanes, the
  collection \<open>stream_simps\<close> rewrites the reading loops.
\<close>

unbundle bit_operations_syntax

named_theorems lane_simps \<open>reads of lanes and ranges after writes\<close>
named_theorems stream_simps \<open>reading loops on concrete shapes of input\<close>

section \<open>Words and ranges\<close>

type_synonym u8 = "8 word"
type_synonym u16 = "16 word"
type_synonym u32 = "32 word"
type_synonym u64 = "64 word"
type_synonym burst = "512 word"
type_synonym half = "256 word"

text \<open>
  \<open>x.range(hi, lo)\<close> of an \<open>ap_uint\<close>: reading returns the bits from \<open>lo\<close> upwards, as
  many as the result type holds; assigning replaces exactly these bits.
\<close>

definition rng :: "nat \<Rightarrow> 'a::len word \<Rightarrow> 'b::len word" where
  "rng lo x = ucast (drop_bit lo x)"

definition set_rng :: "nat \<Rightarrow> 'b::len word \<Rightarrow> 'a::len word \<Rightarrow> 'a word" where
  "set_rng lo v x = (x AND NOT (push_bit lo (mask LENGTH('b)))) OR push_bit lo (ucast v)"

lemma bit_rng: "bit (rng lo x :: 'b::len word) n \<longleftrightarrow> n < LENGTH('b) \<and> bit x (lo + n)"
  by (simp add: rng_def bit_simps)

lemma bit_set_rng:
  fixes x :: "'a::len word" and v :: "'b::len word"
  shows "bit (set_rng lo v x) n \<longleftrightarrow>
     (if lo \<le> n \<and> n < lo + LENGTH('b) then n < LENGTH('a) \<and> bit v (n - lo) else bit x n)"
  by (auto simp add: set_rng_def bit_simps dest: bit_imp_le_length)

lemma rng_set_rng_same [lane_simps]:
  fixes x :: "'a::len word" and v :: "'b::len word"
  assumes "lo + LENGTH('b) \<le> LENGTH('a)"
  shows "rng lo (set_rng lo v x) = v"
  using assms by (intro bit_word_eqI) (auto simp add: bit_rng bit_set_rng)

lemma rng_set_rng_other:
  fixes x :: "'a::len word" and v :: "'b::len word"
  assumes "hi + LENGTH('c) \<le> lo \<or> lo + LENGTH('b) \<le> hi"
  shows "(rng hi (set_rng lo v x) :: 'c::len word) = rng hi x"
  using assms by (intro bit_word_eqI) (auto simp add: bit_rng bit_set_rng)

lemma rng_0_full: "rng 0 (x :: 'a::len word) = x"
  by (simp add: rng_def)

text \<open>Lane \<open>i\<close> of a wide word: its 32 bits from \<open>32 * i\<close> upwards.\<close>

definition lane :: "nat \<Rightarrow> 'a::len word \<Rightarrow> u32" where
  "lane i x = rng (32 * i) x"

definition set_lane :: "nat \<Rightarrow> u32 \<Rightarrow> 'a::len word \<Rightarrow> 'a word" where
  "set_lane i v x = set_rng (32 * i) v x"

lemma lane_set_lane [lane_simps]:
  fixes x :: "'a::len word"
  assumes "32 * i + 32 \<le> LENGTH('a)"
  shows "lane j (set_lane i v x) = (if i = j then v else lane j x)"
proof (cases "i = j")
  case True
  with assms show ?thesis by (simp add: lane_def set_lane_def rng_set_rng_same)
next
  case False
  then have "32 * j + 32 \<le> 32 * i \<or> 32 * i + 32 \<le> 32 * j" by arith
  then show ?thesis
    using False by (simp add: lane_def set_lane_def rng_set_rng_other)
qed

lemma lane_zero [simp]: "lane i 0 = 0"
  by (simp add: lane_def rng_def)

text \<open>A loop that assigns the lanes listed in \<open>is\<close>, one after the other.\<close>

definition set_lanes :: "nat list \<Rightarrow> (nat \<Rightarrow> u32) \<Rightarrow> 'a::len word \<Rightarrow> 'a word" where
  "set_lanes is f x = fold (\<lambda>i w. set_lane i (f i) w) is x"

lemma set_lanes_Nil [simp]: "set_lanes [] f x = x"
  by (simp add: set_lanes_def)

lemma set_lanes_Cons: "set_lanes (i # is) f x = set_lanes is f (set_lane i (f i) x)"
  by (simp add: set_lanes_def)

lemma lane_set_lanes [lane_simps]:
  fixes x :: "'a::len word"
  assumes "\<forall>i \<in> set is. 32 * i + 32 \<le> LENGTH('a)"
  shows "lane j (set_lanes is f x) = (if j \<in> set is then f j else lane j x)"
  using assms
  by (induction "is" arbitrary: x) (auto simp: set_lanes_Cons lane_set_lane)

lemma burst_eqI:
  fixes x y :: burst
  assumes "\<And>i. i < 16 \<Longrightarrow> lane i x = lane i y"
  shows "x = y"
proof (rule bit_word_eqI)
  fix n assume "n < LENGTH(512)"
  then have n: "n div 32 < 16" "n mod 32 < 32" "32 * (n div 32) + n mod 32 = n"
    by auto
  from assms [OF n(1)] have "bit (lane (n div 32) x) (n mod 32) = bit (lane (n div 32) y) (n mod 32)"
    by simp
  with n show "bit x n = bit y n"
    by (simp add: lane_def bit_rng)
qed

text \<open>A burst built from sixteen lanes.\<close>

definition burst_of :: "(nat \<Rightarrow> u32) \<Rightarrow> burst" where
  "burst_of f = set_lanes [0..<16] f 0"

lemma lane_burst_of [lane_simps]: "i < 16 \<Longrightarrow> lane i (burst_of f) = f i"
  by (simp add: burst_of_def lane_set_lanes)

lemma burst_of_lane: "burst_of (\<lambda>i. lane i x) = x"
  by (rule burst_eqI) (simp add: lane_burst_of)

lemma burst_of_eq_iff: "burst_of f = burst_of g \<longleftrightarrow> (\<forall>i<16. f i = g i)"
  by (metis lane_burst_of burst_eqI)

lemma set_lanes_burst_of:
  fixes x :: burst
  shows "set_lanes [0..<16] f x = burst_of f"
  by (rule burst_eqI) (simp add: lane_set_lanes lane_burst_of)

lemma unat_of_nat_small: "n < 2 ^ LENGTH('a) \<Longrightarrow> unat (word_of_nat n :: 'a::len word) = n"
  by (simp add: unsigned_of_nat take_bit_nat_eq_self)

text \<open>
  \<open>((e - 1) >> k) + 1\<close> on an \<open>ap_uint<32>\<close>: the library widens the operands, so the
  subtraction is exact and the shift rounds towards minus infinity.  The result is
  stored in an \<open>unsigned int\<close>.
\<close>

definition ap_ceil :: "u32 \<Rightarrow> nat \<Rightarrow> u32" where
  "ap_ceil e k = word_of_int ((int (unat e) - 1) div 2 ^ k + 1)"

lemma ap_ceil_pos:
  assumes "0 < e"
  shows "unat (ap_ceil e k) = (unat e - 1) div 2 ^ k + 1"
proof -
  have p: "0 < unat e" using assms by (simp add: word_less_nat_alt)
  have b: "unat e < 2 ^ 32" using unsigned_less [of e] by simp
  have "(unat e - 1) div 2 ^ k \<le> unat e - 1" by (rule div_le_dividend)
  with p b have s: "(unat e - 1) div 2 ^ k + 1 < 2 ^ 32" by linarith
  have "(int (unat e) - 1) div 2 ^ k + 1 = int ((unat e - 1) div 2 ^ k + 1)"
    using p by (simp add: zdiv_int of_nat_diff)
  then have "ap_ceil e k = word_of_nat ((unat e - 1) div 2 ^ k + 1)"
    by (simp add: ap_ceil_def)
  also have "unat \<dots> = (unat e - 1) div 2 ^ k + 1"
    by (rule unat_of_nat_small) (use s in simp)
  finally show ?thesis .
qed

lemma ap_ceil_zero: "k < 32 \<Longrightarrow> ap_ceil 0 k = 0"
  by (simp add: ap_ceil_def div_eq_minus1)

section \<open>Reading loops\<close>

datatype status = Returned | Blocked

text \<open>
  \<open>while (true) { x = in.read(); ...; if (...) break; }\<close>: the body takes the state and
  the token and gives the new state, the tokens it writes and whether it leaves the loop.
\<close>

fun read_loop :: "('s \<Rightarrow> 'i \<Rightarrow> 's \<times> 'o list \<times> bool) \<Rightarrow> 's \<Rightarrow> 'i list \<Rightarrow> 's \<times> 'o list \<times> 'i list \<times> status"
where
  "read_loop f s [] = (s, [], [], Blocked)"
| "read_loop f s (x # xs) =
     (case f s x of (s', os, stop) \<Rightarrow>
        if stop then (s', os, xs, Returned)
        else (case read_loop f s' xs of (s'', os', rest, st) \<Rightarrow> (s'', os @ os', rest, st)))"

text \<open>The same loop for a body without state.\<close>

fun token_loop :: "('i \<Rightarrow> 'o list \<times> bool) \<Rightarrow> 'i list \<Rightarrow> 'o list \<times> 'i list \<times> status" where
  "token_loop f [] = ([], [], Blocked)"
| "token_loop f (x # xs) =
     (case f x of (os, stop) \<Rightarrow>
        if stop then (os, xs, Returned)
        else (case token_loop f xs of (os', rest, st) \<Rightarrow> (os @ os', rest, st)))"

lemma read_loop_fold:
  assumes "\<And>s x. x \<in> set xs \<Longrightarrow> f s x = (g x s, h s x, False)" and "\<And>s x. x \<in> set xs \<Longrightarrow> h s x = []"
  shows "read_loop f s (xs @ ys) = read_loop f (fold g xs s) ys"
  using assms by (induction xs arbitrary: s) (auto split: prod.splits)

lemma read_loop_append_Blocked:
  assumes "read_loop f s xs = (s', os, rest, Blocked)"
  shows "read_loop f s (xs @ ys) =
     (case read_loop f s' ys of (s'', os', r, st) \<Rightarrow> (s'', os @ os', r, st))"
  using assms
  by (induction xs arbitrary: s os) (auto split: prod.splits if_splits)

lemma read_loop_append_Returned:
  assumes "read_loop f s xs = (s', os, rest, Returned)"
  shows "read_loop f s (xs @ ys) = (s', os, rest @ ys, Returned)"
  using assms
  by (induction xs arbitrary: s os) (auto split: prod.splits if_splits)

text \<open>
  More input never takes back output: the tokens written on a prefix of the input are a
  prefix of the tokens written on the whole input (the kernels are Kahn processes, so
  composing them as functions does not depend on the schedule).
\<close>

lemma read_loop_prefix:
  "\<exists>more. fst (snd (read_loop f s (xs @ ys))) = fst (snd (read_loop f s xs)) @ more"
proof -
  obtain s' os rest st where e: "read_loop f s xs = (s', os, rest, st)"
    by (metis prod_cases4)
  then show ?thesis
    by (cases st) (auto simp: read_loop_append_Blocked read_loop_append_Returned split: prod.splits)
qed

section \<open>Kernels that forward tokens up to an end marker\<close>

text \<open>
  The interface of the stateless kernels: what one token makes them write
  (\<open>out\<close>) and which token ends the call (\<open>last\<close>).  The laws are the three ways a call
  can go on; the lemmas are proved once for every such kernel.
\<close>

locale token_kernel =
  fixes kernel :: "'i list \<Rightarrow> 'o list \<times> 'i list \<times> status"
    and out :: "'i \<Rightarrow> 'o list"
    and last_tok :: "'i \<Rightarrow> bool"
  assumes kernel_Nil: "kernel [] = ([], [], Blocked)"
    and kernel_last: "last_tok x \<Longrightarrow> kernel (x # xs) = (out x, xs, Returned)"
    and kernel_go: "\<not> last_tok x \<Longrightarrow> kernel (x # xs) =
      (out x @ fst (kernel xs), fst (snd (kernel xs)), snd (snd (kernel xs)))"
begin

lemma kernel_go_on:
  assumes "\<forall>x \<in> set xs. \<not> last_tok x"
  shows "kernel (xs @ ys) =
    (concat (map out xs) @ fst (kernel ys), fst (snd (kernel ys)), snd (snd (kernel ys)))"
  using assms by (induction xs) (simp_all add: kernel_go)

lemma kernel_packet:
  assumes "\<forall>x \<in> set xs. \<not> last_tok x" and "last_tok e"
  shows "kernel (xs @ e # rest) = (concat (map out xs) @ out e, rest, Returned)"
  using assms by (simp add: kernel_go_on kernel_last)

lemma kernel_waits:
  assumes "\<forall>x \<in> set xs. \<not> last_tok x"
  shows "kernel xs = (concat (map out xs), [], Blocked)"
  using kernel_go_on [OF assms, of "[]"] by (simp add: kernel_Nil)

lemma kernel_returns_iff: "snd (snd (kernel xs)) = Returned \<longleftrightarrow> (\<exists>x \<in> set xs. last_tok x)"
proof (induction xs)
  case Nil
  then show ?case by (simp add: kernel_Nil)
next
  case (Cons x xs)
  then show ?case by (cases "last_tok x") (simp_all add: kernel_last kernel_go)
qed

lemma kernel_consumes: "\<exists>ys. xs = ys @ fst (snd (kernel xs))"
proof (induction xs)
  case Nil
  then show ?case by (simp add: kernel_Nil)
next
  case (Cons x xs)
  then obtain ys where "xs = ys @ fst (snd (kernel xs))" by blast
  then have "\<not> last_tok x \<Longrightarrow> x # xs = (x # ys) @ fst (snd (kernel (x # xs)))"
    by (simp add: kernel_go)
  moreover have "last_tok x \<Longrightarrow> x # xs = [x] @ fst (snd (kernel (x # xs)))"
    by (simp add: kernel_last)
  ultimately show ?case by blast
qed

end

lemma token_kernel_token_loop:
  "token_kernel (token_loop f) (\<lambda>x. fst (f x)) (\<lambda>x. snd (f x))"
  by unfold_locales (auto split: prod.splits)

text \<open>A kernel that never stops reading writes, on the tokens so far, one piece for each.\<close>

lemma token_loop_free_run: "(\<And>x. \<not> snd (f x)) \<Longrightarrow> token_loop f xs = (concat (map (\<lambda>x. fst (f x)) xs), [], Blocked)"
  using token_kernel.kernel_waits [OF token_kernel_token_loop, of xs f] by simp

section \<open>Output ports\<close>

text \<open>
  A body with several output streams tags each write with its port.  The content of one
  stream is the projection to its tag.
\<close>

definition port :: "nat \<Rightarrow> (nat \<times> 'a) list \<Rightarrow> 'a list" where
  "port k os = map snd (filter (\<lambda>p. fst p = k) os)"

lemma port_append [stream_simps]: "port k (xs @ ys) = port k xs @ port k ys"
  by (simp add: port_def)

lemma port_Nil [stream_simps]: "port k [] = []"
  by (simp add: port_def)

lemma port_Cons [stream_simps]: "port k (p # ps) = (if fst p = k then snd p # port k ps else port k ps)"
  by (simp add: port_def)

definition lefts :: "('a + 'b) list \<Rightarrow> 'a list" where
  "lefts os = concat (map (\<lambda>s. case s of Inl a \<Rightarrow> [a] | Inr _ \<Rightarrow> []) os)"

definition rights :: "('a + 'b) list \<Rightarrow> 'b list" where
  "rights os = concat (map (\<lambda>s. case s of Inl _ \<Rightarrow> [] | Inr b \<Rightarrow> [b]) os)"

lemma lefts_simps [stream_simps]:
  "lefts [] = []" "lefts (Inl a # os) = a # lefts os" "lefts (Inr b # os) = lefts os"
  "lefts (os @ os') = lefts os @ lefts os'"
  by (simp_all add: lefts_def)

lemma rights_simps [stream_simps]:
  "rights [] = []" "rights (Inl a # os) = rights os" "rights (Inr b # os) = b # rights os"
  "rights (os @ os') = rights os @ rights os'"
  by (simp_all add: rights_def)

lemma lefts_concat_map: "lefts (concat (map f xs)) = concat (map (\<lambda>x. lefts (f x)) xs)"
  by (induction xs) (simp_all add: lefts_simps)

lemma rights_concat_map: "rights (concat (map f xs)) = concat (map (\<lambda>x. rights (f x)) xs)"
  by (induction xs) (simp_all add: rights_simps)

section \<open>Lists\<close>

lemma concat_map_single: "concat (map (\<lambda>x. [f x]) xs) = map f xs"
  by (induction xs) simp_all

lemma concat_map_filter: "concat (map (\<lambda>x. if p x then [f x] else []) xs) = map f (filter p xs)"
  by (induction xs) simp_all

text \<open>Groups of \<open>n\<close>: \<open>xs\<close> cut into \<open>m\<close> pieces of length \<open>n\<close>, laid end to end again.\<close>

lemma concat_nth_chunks:
  assumes "length xs = n * m"
  shows "concat (map (\<lambda>t. map (\<lambda>k. xs ! (n * t + k)) [0..<n]) [0..<m]) = xs"
  using assms
proof (induction m arbitrary: xs)
  case 0
  then show ?case by simp
next
  case (Suc m)
  let ?ys = "take (n * m) xs"
  have l: "length ?ys = n * m" using Suc.prems by simp
  have "concat (map (\<lambda>t. map (\<lambda>k. xs ! (n * t + k)) [0..<n]) [0..<m]) =
        concat (map (\<lambda>t. map (\<lambda>k. ?ys ! (n * t + k)) [0..<n]) [0..<m])"
  proof (rule arg_cong [where f = concat], rule map_cong [OF refl], rule map_cong [OF refl])
    fix t k assume "t \<in> set [0..<m]" "k \<in> set [0..<n]"
    then have "n * t + k < n * t + n" "Suc t \<le> m" by auto
    then have "n * t + k < n * m" using mult_le_mono2 [of "Suc t" m n] by simp
    then show "xs ! (n * t + k) = ?ys ! (n * t + k)" by simp
  qed
  also have "\<dots> = ?ys" by (rule Suc.IH [OF l])
  finally have 1: "concat (map (\<lambda>t. map (\<lambda>k. xs ! (n * t + k)) [0..<n]) [0..<m]) = ?ys" .
  have 2: "map (\<lambda>k. xs ! (n * m + k)) [0..<n] = drop (n * m) xs"
    by (rule nth_equalityI) (use Suc.prems in simp_all)
  show ?case by (simp add: 1 2)
qed

lemma filter_concat_map: "filter p (concat (map f xs)) = concat (map (\<lambda>x. filter p (f x)) xs)"
  by (induction xs) simp_all

text \<open>Without equal neighbours an ascending list ascends strictly.\<close>

lemma strict_remdups_adj: "sorted (xs :: 'a::linorder list) \<Longrightarrow> sorted_wrt (<) (remdups_adj xs)"
  by (induction xs rule: remdups_adj.induct) (auto simp: le_less dest: less_le_trans)

end
