(* ===== verification/Input_Partition.thy ===== *)
theory Input_Partition
  imports Prelude "HOL-Library.Signed_Division"
begin

text \<open>
  The input-aware partitioner (\<open>partition_schedule/input_aware.cpp\<close>): the edge list
  is divided by destination range, each interval is sorted by source and cut into blocks,
  the blocks are spread over the memory channels, and each channel's edges are written out
  with padding.  A vertex is an \<open>int\<close> that fits 32 bits, the largest at most \<open>2 ^ 31 - 2 ^ 20\<close>
  so that the rounding to intervals does not overflow.  \<open>std::sort\<close> does not fix the
  order of equal elements: the sort functions are arguments, and the locale
  \<open>std_sort\<close> states what the library promises of them.  \<open>None\<close> is an access outside a
  vector (undefined behaviour).
\<close>

type_synonym vedge = "int \<times> int"

definition TARGET_RANGE :: int where "TARGET_RANGE = 1024 * 1024"
definition numThreads :: nat where "numThreads = 32"
definition numSLRs :: nat where "numSLRs = 4"
definition blockSize :: int where "blockSize = 512"

section \<open>The library's sort\<close>

locale std_sort =
  fixes srt :: "'a list \<Rightarrow> 'a list" and key :: "'a \<Rightarrow> 'k::linorder"
  assumes srt_mset: "mset (srt xs) = mset xs"
    and srt_sorted: "sorted (map key (srt xs))"
begin

lemma srt_set: "set (srt xs) = set xs"
  using srt_mset by (rule mset_eq_setD)

lemma srt_length: "length (srt xs) = length xs"
  using srt_mset by (rule mset_eq_length)

lemma srt_le: "i < j \<Longrightarrow> j < length xs \<Longrightarrow> key (srt xs ! i) \<le> key (srt xs ! j)"
  using srt_sorted [of xs] by (auto simp: sorted_iff_nth_mono srt_length)

end

interpretation edge_sort: std_sort "sort_key fst :: vedge list \<Rightarrow> vedge list" fst
  by unfold_locales simp_all

interpretation block_sort: std_sort "sort_key (\<lambda>b. - int (length b)) :: 'b list list \<Rightarrow> 'b list list" "\<lambda>b. - int (length b)"
  by unfold_locales simp_all

section \<open>Reading the edge list\<close>

text \<open>\<open>iss >> n\<close> for an \<open>int\<close>: white space, a sign, digits; no digit or a value that does not fit fails.\<close>

definition is_space :: "char \<Rightarrow> bool" where
  "is_space c \<longleftrightarrow> c = CHR '' '' \<or> c = CHR 0x09 \<or> c = CHR 0x0D"

definition is_digit :: "char \<Rightarrow> bool" where
  "is_digit c \<longleftrightarrow> 48 \<le> (of_char c :: nat) \<and> (of_char c :: nat) \<le> 57"

fun digits_value :: "nat \<Rightarrow> string \<Rightarrow> nat" where
  "digits_value acc [] = acc"
| "digits_value acc (c # cs) = digits_value (10 * acc + (of_char c - 48)) cs"

definition read_int :: "string \<Rightarrow> (int \<times> string) option" where
  "read_int s =
     (let s1 = dropWhile is_space s;
          neg = (s1 \<noteq> [] \<and> hd s1 = CHR ''-'');
          s2 = (if s1 \<noteq> [] \<and> hd s1 \<in> {CHR ''-'', CHR ''+''} then tl s1 else s1);
          ds = takeWhile is_digit s2;
          v = (if neg then - int (digits_value 0 ds) else int (digits_value 0 ds))
      in if ds = [] \<or> v < - (2 ^ 31) \<or> 2 ^ 31 \<le> v then None else Some (v, dropWhile is_digit s2))"

definition parse_line :: "string \<Rightarrow> vedge option" where
  "parse_line line =
     (case read_int line of None \<Rightarrow> None
      | Some (source, rest) \<Rightarrow>
          (case read_int rest of None \<Rightarrow> None | Some (target, _) \<Rightarrow> Some (source, target)))"

definition parseEdgeList :: "string list \<Rightarrow> vedge list" where
  "parseEdgeList ls = concat (map (\<lambda>line. case parse_line line of Some e \<Rightarrow> [e] | None \<Rightarrow> []) ls)"

section \<open>Intervals of destinations\<close>

definition push_at :: "nat \<Rightarrow> 'a \<Rightarrow> 'a list list \<Rightarrow> 'a list list" where
  "push_at i x xss = xss[i := xss ! i @ [x]]"

definition intervalIndex :: "vedge \<Rightarrow> int" where
  "intervalIndex e = snd e sdiv TARGET_RANGE"

fun divide_loop :: "vedge list \<Rightarrow> vedge list list \<Rightarrow> vedge list list option" where
  "divide_loop [] intervals = Some intervals"
| "divide_loop (e # es) intervals =
     (if 0 \<le> intervalIndex e \<and> nat (intervalIndex e) < length intervals
      then divide_loop es (push_at (nat (intervalIndex e)) e intervals)
      else None)"

definition divideSublist :: "vedge list \<Rightarrow> nat \<Rightarrow> vedge list list option" where
  "divideSublist sublist numIntervals = divide_loop sublist (replicate numIntervals [])"

text \<open>The piece of thread number \<open>index\<close> of \<open>n\<close>: the last one takes the remainder.\<close>

definition thread_slice :: "vedge list \<Rightarrow> nat \<Rightarrow> nat \<Rightarrow> vedge list" where
  "thread_slice edgeList n index =
     (let edgesPerThread = length edgeList div n;
          start = index * edgesPerThread;
          stop = (if index = n - 1 then length edgeList else start + edgesPerThread)
      in take (stop - start) (drop start edgeList))"

text \<open>
  One turn of a thread: it takes the next index from the atomic counter and fills the
  sublist of that index, or stops.
\<close>

definition divide_turn :: "vedge list \<Rightarrow> nat \<Rightarrow> nat \<times> (nat \<Rightarrow> vedge list list option) \<Rightarrow> nat \<times> (nat \<Rightarrow> vedge list list option)" where
  "divide_turn edgeList intervalNum s =
     (case s of (nextSublist, sublists) \<Rightarrow>
        (nextSublist + 1,
         if nextSublist < numThreads
         then sublists(nextSublist := divideSublist (thread_slice edgeList numThreads nextSublist) intervalNum)
         else sublists))"

definition divideEdgeListThread :: "vedge list \<Rightarrow> nat \<Rightarrow> nat \<Rightarrow> nat \<Rightarrow> vedge list list option" where
  "divideEdgeListThread edgeList intervalNum turns =
     snd ((divide_turn edgeList intervalNum ^^ turns) (0, \<lambda>_. Some []))"

text \<open>The merge of the threads' intervals in \<open>main\<close>.\<close>

definition merge_sublists :: "nat \<Rightarrow> vedge list list list \<Rightarrow> vedge list list" where
  "merge_sublists intervalNum sublists =
     map (\<lambda>group. concat (map (\<lambda>threadList. if group < length threadList then threadList ! group else []) sublists))
       [0..<intervalNum]"

definition maxVertexId :: "vedge list \<Rightarrow> int" where
  "maxVertexId edgeList = fold (\<lambda>e m. max m (max (fst e) (snd e))) edgeList 0"

definition intervalNum :: "vedge list \<Rightarrow> nat" where
  "intervalNum edgeList = nat ((maxVertexId edgeList + TARGET_RANGE - 1) sdiv TARGET_RANGE)"

definition divide_all :: "vedge list \<Rightarrow> vedge list list option" where
  "divide_all edgeList =
     (let subs = map (divideEdgeListThread edgeList (intervalNum edgeList) (2 * numThreads)) [0..<numThreads]
      in if None \<in> set subs then None else Some (merge_sublists (intervalNum edgeList) (map the subs)))"

subsection \<open>What the division does\<close>

lemma sdiv_range: "0 \<le> x \<Longrightarrow> x sdiv TARGET_RANGE = x div TARGET_RANGE"
  by (cases "x = 0") (simp_all add: signed_divide_int_def TARGET_RANGE_def)

lemma divide_loop_spec:
  assumes "\<forall>e \<in> set es. 0 \<le> snd e \<and> snd e < int (length iv) * TARGET_RANGE"
  shows "divide_loop es iv = Some (map (\<lambda>i. iv ! i @ filter (\<lambda>e. snd e div TARGET_RANGE = int i) es) [0..<length iv])"
  using assms
proof (induction es arbitrary: iv)
  case Nil
  then show ?case by (simp add: map_nth)
next
  case (Cons e es)
  have i: "intervalIndex e = snd e div TARGET_RANGE" using Cons.prems by (simp add: intervalIndex_def sdiv_range)
  have r: "0 \<le> snd e div TARGET_RANGE" "nat (snd e div TARGET_RANGE) < length iv"
  proof -
    show "0 \<le> snd e div TARGET_RANGE" using Cons.prems by (simp add: TARGET_RANGE_def pos_imp_zdiv_nonneg_iff)
    have "snd e div TARGET_RANGE < int (length iv)"
    proof -
      have "snd e = snd e div 1048576 * 1048576 + snd e mod 1048576" "0 \<le> snd e mod 1048576" by simp_all
      moreover have "snd e < int (length iv) * 1048576" using Cons.prems by (simp add: TARGET_RANGE_def)
      ultimately have "snd e div 1048576 < int (length iv)" by linarith
      then show ?thesis by (simp add: TARGET_RANGE_def)
    qed
    with \<open>0 \<le> snd e div TARGET_RANGE\<close> show "nat (snd e div TARGET_RANGE) < length iv" by linarith
  qed
  let ?k = "nat (snd e div TARGET_RANGE)"
  have "divide_loop es (push_at ?k e iv) =
      Some (map (\<lambda>i. push_at ?k e iv ! i @ filter (\<lambda>e. snd e div TARGET_RANGE = int i) es) [0..<length (push_at ?k e iv)])"
    using Cons.prems by (intro Cons.IH) (simp add: push_at_def)
  also have "map (\<lambda>i. push_at ?k e iv ! i @ filter (\<lambda>e. snd e div TARGET_RANGE = int i) es) [0..<length (push_at ?k e iv)] =
      map (\<lambda>i. iv ! i @ filter (\<lambda>e. snd e div TARGET_RANGE = int i) (e # es)) [0..<length iv]"
    using r by (auto simp: push_at_def nth_list_update)
  finally show ?case using r by (simp add: i)
qed

lemma divideSublist_spec:
  assumes "\<forall>e \<in> set es. 0 \<le> snd e \<and> snd e < int n * TARGET_RANGE"
  shows "divideSublist es n = Some (map (\<lambda>i. filter (\<lambda>e. snd e div TARGET_RANGE = int i) es) [0..<n])"
  using divide_loop_spec [of es "replicate n []"] assms by (simp add: divideSublist_def cong: map_cong)

lemma slices_upto:
  assumes "k < n"
  shows "concat (map (thread_slice es n) [0..<k]) = take (k * (length es div n)) es"
  using assms
proof (induction k)
  case (Suc k)
  have "k \<noteq> n - 1" using Suc.prems by simp
  then have "thread_slice es n k = take (length es div n) (drop (k * (length es div n)) es)"
    by (simp add: thread_slice_def Let_def)
  with Suc show ?case by (simp add: take_add [symmetric] add.commute)
qed simp

lemma concat_slices:
  assumes "0 < n"
  shows "concat (map (thread_slice es n) [0..<n]) = es"
proof -
  obtain k where n: "n = Suc k" using assms by (cases n) auto
  have "thread_slice es n k = drop (k * (length es div n)) es"
    by (simp add: thread_slice_def Let_def n)
  with slices_upto [of k n es] n show ?thesis by simp
qed

lemma divide_turns:
  "(divide_turn es n ^^ k) (0, f) =
    (k, \<lambda>i. if i < k \<and> i < numThreads then divideSublist (thread_slice es numThreads i) n else f i)"
  by (induction k) (auto simp: divide_turn_def fun_eq_iff less_Suc_eq)

text \<open>Whatever thread takes an index: after enough turns every sublist is there.\<close>

lemma divideEdgeListThread_done:
  assumes "numThreads \<le> turns" "i < numThreads"
  shows "divideEdgeListThread es n turns i = divideSublist (thread_slice es numThreads i) n"
  using assms by (simp add: divideEdgeListThread_def divide_turns)

lemma in_thread_slice: "e \<in> set (thread_slice es n i) \<Longrightarrow> e \<in> set es"
  by (auto simp: thread_slice_def Let_def dest: in_set_takeD in_set_dropD)

lemma divide_all_spec:
  assumes "\<forall>e \<in> set es. 0 \<le> snd e \<and> snd e < int (intervalNum es) * TARGET_RANGE"
  shows "divide_all es = Some (map (\<lambda>i. filter (\<lambda>e. snd e div TARGET_RANGE = int i) es) [0..<intervalNum es])"
proof -
  let ?n = "intervalNum es"
  let ?g = "\<lambda>t. map (\<lambda>i. filter (\<lambda>e. snd e div TARGET_RANGE = int i) (thread_slice es numThreads t)) [0..<?n]"
  have s: "divideEdgeListThread es ?n (2 * numThreads) t = Some (?g t)" if "t < numThreads" for t
    using that assms by (subst divideEdgeListThread_done) (auto intro!: divideSublist_spec dest: in_thread_slice)
  then have subs: "map (divideEdgeListThread es ?n (2 * numThreads)) [0..<numThreads] = map (\<lambda>t. Some (?g t)) [0..<numThreads]"
    by simp
  have "merge_sublists ?n (map ?g [0..<numThreads]) = map (\<lambda>i. filter (\<lambda>e. snd e div TARGET_RANGE = int i) es) [0..<?n]"
  proof (rule nth_equalityI)
    fix i assume "i < length (merge_sublists ?n (map ?g [0..<numThreads]))"
    then have i: "i < ?n" by (simp add: merge_sublists_def)
    have "merge_sublists ?n (map ?g [0..<numThreads]) ! i =
        concat (map (\<lambda>t. filter (\<lambda>e. snd e div TARGET_RANGE = int i) (thread_slice es numThreads t)) [0..<numThreads])"
      using i by (simp add: merge_sublists_def comp_def)
    also have "\<dots> = filter (\<lambda>e. snd e div TARGET_RANGE = int i) (concat (map (thread_slice es numThreads) [0..<numThreads]))"
      by (simp only: filter_concat_map)
    finally show "merge_sublists ?n (map ?g [0..<numThreads]) ! i = map (\<lambda>i. filter (\<lambda>e. snd e div TARGET_RANGE = int i) es) [0..<?n] ! i"
      using i concat_slices [of numThreads es] by (simp add: numThreads_def)
  qed (simp add: merge_sublists_def)
  then show ?thesis by (auto simp: divide_all_def Let_def subs comp_def simp del: upt_Suc)
qed

text \<open>
  \<open>intervalNum\<close> is one too small when the largest vertex number is a multiple of the
  range: an edge that points to it has no interval.
\<close>

lemma intervalNum_exact:
  assumes "maxVertexId es = int k * TARGET_RANGE" "0 < k"
  shows "intervalNum es = k"
proof -
  have "(int k * TARGET_RANGE + TARGET_RANGE - 1) div TARGET_RANGE = int k"
    by (rule int_div_pos_eq [where r = "TARGET_RANGE - 1"]) (simp_all add: TARGET_RANGE_def)
  moreover have "(int k * TARGET_RANGE + TARGET_RANGE - 1) sdiv TARGET_RANGE = (int k * TARGET_RANGE + TARGET_RANGE - 1) div TARGET_RANGE"
    by (rule sdiv_range) (simp add: TARGET_RANGE_def)
  ultimately show ?thesis by (simp add: intervalNum_def assms(1))
qed

section \<open>Blocks of sources\<close>

text \<open>
  \<open>blocks.resize(index + 1)\<close> when the block is not there yet.  A negative source makes the
  index a huge unsigned number: \<open>None\<close>.
\<close>

definition grow_to :: "nat \<Rightarrow> 'a list list \<Rightarrow> 'a list list" where
  "grow_to n xss = xss @ replicate (n - length xss) []"

fun block_loop :: "vedge list \<Rightarrow> vedge list list \<Rightarrow> vedge list list option" where
  "block_loop [] blocks = Some blocks"
| "block_loop (e # es) blocks =
     (let index = fst e sdiv blockSize
      in if index < 0 then None
         else block_loop es (push_at (nat index) e (grow_to (nat index + 1) blocks)))"

text \<open>\<open>numSLRs\<close> pieces of a block; the first \<open>remainder\<close> pieces have one edge more.\<close>

definition split_start :: "nat \<Rightarrow> nat \<Rightarrow> nat" where
  "split_start n j = j * (n div numSLRs) + min j (n mod numSLRs)"

definition split_block :: "'a list \<Rightarrow> 'a list list" where
  "split_block block =
     map (\<lambda>j. let startIdx = split_start (length block) j;
                  endIdx = startIdx + length block div numSLRs + (if j < length block mod numSLRs then 1 else 0)
              in take (endIdx - startIdx) (drop startIdx block)) [0..<numSLRs]"

text \<open>Sizes with positions, largest first; equal pairs do not occur, so the order is fixed.\<close>

definition block_sizes :: "'a list list \<Rightarrow> (nat \<times> nat) list" where
  "block_sizes blocks = rev (sort_key (\<lambda>p. fst p) (map (\<lambda>i. (length (blocks ! i), i)) [0..<length blocks]))"

text \<open>
  The replacement loop: the block at a recorded position is erased and its pieces go to
  the end.  The positions are those from before the loop.
\<close>

fun replace_blocks :: "nat list \<Rightarrow> 'a list list \<Rightarrow> 'a list list option" where
  "replace_blocks [] blocks = Some blocks"
| "replace_blocks (i # is) blocks =
     (if i < length blocks
      then replace_blocks is (take i blocks @ drop (i + 1) blocks @ split_block (blocks ! i))
      else None)"

text \<open>\<open>numSplit n\<close> stands for \<open>ceil(n * alpha)\<close> in \<open>float\<close>.\<close>

definition processBlocks :: "(nat \<Rightarrow> nat) \<Rightarrow> vedge list \<Rightarrow> vedge list list option" where
  "processBlocks numSplit sortedEdges =
     (case block_loop sortedEdges [] of None \<Rightarrow> None
      | Some blocks0 \<Rightarrow>
          (let blocks = filter (\<lambda>b. b \<noteq> []) blocks0;
               sizes = block_sizes blocks;
               numBlocksToSplit = numSplit (length sizes)
           in if numBlocksToSplit \<le> length sizes
              then replace_blocks (map snd (take numBlocksToSplit sizes)) blocks
              else None))"

subsection \<open>No edge is lost\<close>

lemma mset_push_at: "i < length xss \<Longrightarrow> mset (concat (push_at i x xss)) = add_mset x (mset (concat xss))"
proof -
  assume i: "i < length xss"
  then have "xss = take i xss @ xss ! i # drop (Suc i) xss" by (rule id_take_nth_drop)
  then have "mset (concat xss) = mset (concat (take i xss)) + mset (xss ! i) + mset (concat (drop (Suc i) xss))"
    by (metis concat.simps(2) concat_append mset_append add.assoc)
  with i show ?thesis by (simp add: push_at_def upd_conv_take_nth_drop)
qed

lemma concat_grow_to: "concat (grow_to n xss) = concat xss"
proof -
  have "concat (replicate k []) = []" for k by (induction k) simp_all
  then show ?thesis by (simp add: grow_to_def)
qed

lemma length_grow_to: "n \<le> length (grow_to n xss)"
  by (simp add: grow_to_def)

lemma block_loop_mset:
  "block_loop es blocks = Some bs \<Longrightarrow> mset (concat bs) = mset (concat blocks) + mset es"
proof (induction es blocks rule: block_loop.induct)
  case (2 e es blocks)
  then have n: "\<not> fst e sdiv blockSize < 0" by (auto simp: Let_def split: if_splits)
  have "nat (fst e sdiv blockSize) < length (grow_to (nat (fst e sdiv blockSize) + 1) blocks)"
    using length_grow_to [of "nat (fst e sdiv blockSize) + 1" blocks] by simp
  with 2 n show ?case by (simp add: Let_def mset_push_at concat_grow_to)
qed simp

lemma concat_filter_nonempty: "concat (filter (\<lambda>b. b \<noteq> []) bs) = concat bs"
  by (induction bs) auto

lemma upt_numSLRs: "[0..<numSLRs] = [0, 1, 2, 3]"
  by (simp add: numSLRs_def upt_rec)

lemma concat_cuts:
  assumes "a \<le> b" "b \<le> length xs"
  shows "take a xs @ take (b - a) (drop a xs) = take b xs"
  using assms by (metis le_add_diff_inverse take_add)

lemma split_start_next:
  "split_start n j + n div numSLRs + (if j < n mod numSLRs then 1 else 0) = split_start n (Suc j)"
  by (auto simp: split_start_def min_def)

lemma split_start_mono: "split_start n j \<le> split_start n (Suc j)"
  using split_start_next [of n j] by linarith

lemma split_start_end: "split_start n numSLRs = n"
proof -
  have "n mod numSLRs \<le> numSLRs" by (simp add: numSLRs_def less_imp_le)
  then show ?thesis using div_mult_mod_eq [of n numSLRs] by (simp add: split_start_def mult.commute)
qed

lemma split_pieces:
  assumes "k \<le> numSLRs"
  shows "concat (map (\<lambda>j. take (split_start (length block) (Suc j) - split_start (length block) j)
      (drop (split_start (length block) j) block)) [0..<k]) = take (split_start (length block) k) block"
  using assms
proof (induction k)
  case 0
  then show ?case by (simp add: split_start_def)
next
  case (Suc k)
  have "split_start (length block) i \<le> split_start (length block) j" if "i \<le> j" for i j
    using that by (rule lift_Suc_mono_le [of "split_start (length block)", OF split_start_mono])
  then have "split_start (length block) (Suc k) \<le> length block"
    using Suc.prems split_start_end [of "length block"] by metis
  with Suc concat_cuts [OF split_start_mono] show ?case by simp
qed

lemma split_block_eq:
  "split_block block = map (\<lambda>j. take (split_start (length block) (Suc j) - split_start (length block) j)
      (drop (split_start (length block) j) block)) [0..<numSLRs]"
  by (simp add: split_block_def Let_def flip: split_start_next)

lemma concat_split_block: "concat (split_block block) = block"
  using split_pieces [of numSLRs block] by (simp add: split_block_eq split_start_end)

text \<open>The pieces differ by at most one edge.\<close>

lemma split_block_sizes:
  assumes "b \<in> set (split_block block)"
  shows "length block div numSLRs \<le> length b \<and> length b \<le> length block div numSLRs + 1"
proof -
  obtain j where j: "j < numSLRs" "b = take (split_start (length block) (Suc j) - split_start (length block) j)
      (drop (split_start (length block) j) block)"
    using assms by (auto simp: split_block_eq)
  have "split_start (length block) i \<le> split_start (length block) j" if "i \<le> j" for i j
    using that by (rule lift_Suc_mono_le [of "split_start (length block)", OF split_start_mono])
  then have "split_start (length block) (Suc j) \<le> length block"
    using j(1) split_start_end [of "length block"] by (metis Suc_leI)
  with j(2) have "length b = split_start (length block) (Suc j) - split_start (length block) j" by simp
  then show ?thesis using split_start_next [of "length block" j] by (auto split: if_splits)
qed

lemma replace_blocks_mset:
  "replace_blocks is blocks = Some bs \<Longrightarrow> mset (concat bs) = mset (concat blocks)"
proof (induction "is" blocks rule: replace_blocks.induct)
  case (2 i "is" blocks)
  then have i: "i < length blocks" by (auto split: if_splits)
  then have "blocks = take i blocks @ blocks ! i # drop (i + 1) blocks" using id_take_nth_drop [OF i] by simp
  then have "mset (concat blocks) = mset (concat (take i blocks)) + mset (blocks ! i) + mset (concat (drop (i + 1) blocks))"
    by (metis concat.simps(2) concat_append mset_append add.assoc)
  with 2 i show ?case by (simp add: concat_split_block)
qed simp

text \<open>The replacement never leaves the vector: every round adds three blocks.\<close>

lemma length_split_block: "length (split_block b) = 4"
  by (simp add: split_block_def numSLRs_def)

lemma replace_blocks_total:
  "\<forall>i \<in> set is. i < length blocks \<Longrightarrow> \<exists>bs. replace_blocks is blocks = Some bs \<and> length bs = length blocks + 3 * length is"
proof (induction "is" arbitrary: blocks)
  case (Cons i "is")
  let ?b = "take i blocks @ drop (i + 1) blocks @ split_block (blocks ! i)"
  have l: "length ?b = length blocks + 3" using Cons.prems by (simp add: length_split_block)
  then have "\<forall>j \<in> set is. j < length ?b" using Cons.prems by auto
  from Cons.IH [OF this] l Cons.prems show ?case by auto
qed simp

lemma block_sizes_set: "set (map snd (block_sizes blocks)) = {0..<length blocks}"
  by (auto simp: block_sizes_def image_iff)

lemma length_block_sizes: "length (block_sizes blocks) = length blocks"
  by (simp add: block_sizes_def)

lemma processBlocks_mset:
  assumes "processBlocks f es = Some bs"
  shows "mset (concat bs) = mset es"
proof -
  obtain bs0 "is" where b: "block_loop es [] = Some bs0"
      "replace_blocks is (filter (\<lambda>b. b \<noteq> []) bs0) = Some bs"
    using assms by (auto simp: processBlocks_def Let_def split: option.splits if_splits)
  show ?thesis
    using replace_blocks_mset [OF b(2)] block_loop_mset [OF b(1)] by (simp add: concat_filter_nonempty)
qed

lemma block_loop_total:
  "\<forall>e \<in> set es. 0 \<le> fst e \<Longrightarrow> \<exists>bs. block_loop es blocks = Some bs"
proof (induction es arbitrary: blocks)
  case (Cons e es)
  have "0 \<le> fst e sdiv blockSize"
    using Cons.prems by (cases "fst e = 0") (simp_all add: signed_divide_int_def blockSize_def pos_imp_zdiv_nonneg_iff)
  with Cons show ?case by (simp add: Let_def)
qed simp

lemma processBlocks_total:
  assumes "\<forall>e \<in> set es. 0 \<le> fst e" "\<forall>n. numSplit n \<le> n"
  shows "\<exists>bs. processBlocks numSplit es = Some bs"
proof -
  obtain bs0 where b: "block_loop es [] = Some bs0" using block_loop_total [OF assms(1)] by blast
  let ?b = "filter (\<lambda>b. b \<noteq> []) bs0"
  have "\<forall>i \<in> set (map snd (take k (block_sizes ?b))). i < length ?b" for k
  proof
    fix i assume "i \<in> set (map snd (take k (block_sizes ?b)))"
    then have "i \<in> set (map snd (block_sizes ?b))" by (metis take_map in_set_takeD)
    then show "i < length ?b" by (simp only: block_sizes_set atLeastLessThan_iff)
  qed
  from replace_blocks_total [OF this] show ?thesis
    using assms(2) b by (auto simp: processBlocks_def Let_def length_block_sizes)
qed

section \<open>Allocation of blocks to memory channels\<close>

text \<open>\<open>std::min_element\<close>: the position of the first smallest element.\<close>

fun first_min :: "'a::linorder list \<Rightarrow> nat" where
  "first_min [] = 0"
| "first_min [x] = 0"
| "first_min (x # y # ys) = (let i = first_min (y # ys) in if x \<le> (y # ys) ! i then 0 else Suc i)"

type_synonym block_lists = "vedge list list list"

definition place :: "vedge list list \<Rightarrow> nat \<times> nat \<Rightarrow> block_lists \<times> nat list \<Rightarrow> block_lists \<times> nat list" where
  "place subblocks entry s =
     (case entry of (index, edgeCount) \<Rightarrow> case s of (ls, listEdgeCounts) \<Rightarrow>
        let minIndex = first_min listEdgeCounts
        in (push_at minIndex (subblocks ! index) ls,
            listEdgeCounts[minIndex := listEdgeCounts ! minIndex + edgeCount]))"

function place_batches :: "((nat \<times> nat) list \<Rightarrow> (nat \<times> nat) list) \<Rightarrow> vedge list list \<Rightarrow> nat \<Rightarrow>
  block_lists \<times> nat list \<Rightarrow> block_lists \<times> nat list" where
  "place_batches batchSort subblocks i s =
     (if i < length subblocks
      then let batch = map (\<lambda>j. (j, length (subblocks ! j))) [i..<min (i + numSLRs) (length subblocks)]
           in place_batches batchSort subblocks (i + numSLRs) (fold (place subblocks) (batchSort batch) s)
      else s)"
  by pat_completeness auto
termination by (relation "measure (\<lambda>(_, subblocks, i, _). length subblocks - i)") (auto simp: numSLRs_def)

declare place_batches.simps [simp del]

definition allocateBlocksToLists :: "(vedge list list \<Rightarrow> vedge list list) \<Rightarrow> ((nat \<times> nat) list \<Rightarrow> (nat \<times> nat) list) \<Rightarrow>
  vedge list list \<Rightarrow> block_lists" where
  "allocateBlocksToLists blockSort batchSort subblocks =
     fst (place_batches batchSort (blockSort subblocks) 0 (replicate numSLRs [], replicate numSLRs 0))"

text \<open>The edges of a list of blocks.\<close>

definition load :: "vedge list list \<Rightarrow> nat" where
  "load bs = sum_list (map length bs)"

text \<open>
  The invariant of the greedy allocation: the counters are the loads, and no list exceeds
  another by more than the largest block.
\<close>

definition balanced :: "nat \<Rightarrow> block_lists \<times> nat list \<Rightarrow> bool" where
  "balanced M s \<longleftrightarrow> length (fst s) = numSLRs \<and> snd s = map load (fst s) \<and>
     (\<forall>x \<in> set (snd s). \<forall>y \<in> set (snd s). x \<le> y + M)"

lemma first_min_less: "xs \<noteq> [] \<Longrightarrow> first_min xs < length xs"
  by (induction xs rule: first_min.induct) (auto simp: Let_def)

lemma first_min_le: "y \<in> set xs \<Longrightarrow> xs ! first_min xs \<le> y"
  by (induction xs arbitrary: y rule: first_min.induct) (auto simp: Let_def dest: order_trans)

lemma load_push: "i < length xss \<Longrightarrow> map load (push_at i b xss) = (map load xss)[i := load (xss ! i) + length b]"
  by (simp add: push_at_def map_update load_def)

lemma place_balanced:
  assumes "balanced M s" "snd e \<le> M" "snd e = length (subblocks ! fst e)"
  shows "balanced M (place subblocks e s)"
proof -
  obtain ls cs where s: "s = (ls, cs)" by (cases s)
  obtain i c where e: "e = (i, c)" by (cases e)
  have l: "length ls = 4" "cs = map load ls" and b: "\<forall>x \<in> set cs. \<forall>y \<in> set cs. x \<le> y + M"
    using assms(1) by (simp_all add: balanced_def s numSLRs_def)
  have ne: "cs \<noteq> []" using l by auto
  let ?m = "first_min cs"
  have m: "?m < length cs" "\<forall>y \<in> set cs. cs ! ?m \<le> y" using ne by (simp_all add: first_min_less first_min_le)
  let ?cs = "cs[?m := cs ! ?m + c]"
  have "x \<le> y + M" if "x \<in> set ?cs" "y \<in> set ?cs" for x y
  proof -
    have c: "c \<le> M" using assms(2) e by simp
    have x: "x = cs ! ?m + c \<or> x \<in> set cs" and y: "y = cs ! ?m + c \<or> y \<in> set cs"
      using that set_update_subset_insert [of cs ?m "cs ! ?m + c"] by auto
    have "cs ! ?m \<in> set cs" using m(1) by simp
    with x y b m(2) c show ?thesis
      by (metis add_le_mono add_mono le_add1 le_add2 le_trans order_refl trans_le_add1)
  qed
  moreover have "?cs = map load (push_at ?m (subblocks ! i) ls)"
    using m(1) l assms(3) e by (simp add: load_push)
  ultimately show ?thesis
    using l by (simp add: s e place_def Let_def balanced_def push_at_def numSLRs_def)
qed

lemma length_place: "length (fst (place sb e s)) = length (fst s)" "length (snd (place sb e s)) = length (snd s)"
  by (auto simp: place_def push_at_def Let_def split: prod.splits)

lemma place_mset:
  assumes "length (fst s) = length (snd s)" "snd s \<noteq> []"
  shows "mset (concat (fst (place sb e s))) = add_mset (sb ! fst e) (mset (concat (fst s)))"
  using assms first_min_less [OF assms(2)]
  by (auto simp: place_def Let_def mset_push_at split: prod.splits)

lemma fold_place:
  assumes "balanced M s" "\<forall>e \<in> set es. snd e \<le> M \<and> snd e = length (sb ! fst e)"
  shows "balanced M (fold (place sb) es s) \<and>
    mset (concat (fst (fold (place sb) es s))) = mset (concat (fst s)) + mset (map (\<lambda>e. sb ! fst e) es)"
  using assms
proof (induction es arbitrary: s)
  case (Cons e es)
  have b: "balanced M (place sb e s)" using Cons.prems by (intro place_balanced) auto
  have l: "length (fst s) = length (snd s)" "snd s \<noteq> []"
    using Cons.prems(1) by (auto simp: balanced_def numSLRs_def)
  from Cons.prems(2) have es: "\<And>d. d \<in> set es \<Longrightarrow> snd d \<le> M \<and> snd d = length (sb ! fst d)"
    by (meson list.set_intros(2))
  from Cons.IH [OF b ballI, OF es] show ?case by (simp add: place_mset [OF l])
qed simp

text \<open>Every list is one of the vector of lists; the two sorts are those of the library.\<close>

locale block_allocator =
  blocks: std_sort blockSort "\<lambda>b. - int (length b)" +
  batch: std_sort batchSort "\<lambda>p. - int (snd p)"
  for blockSort :: "vedge list list \<Rightarrow> vedge list list" and batchSort :: "(nat \<times> nat) list \<Rightarrow> (nat \<times> nat) list"
begin

lemma place_batches_inv:
  assumes "balanced M s" "\<forall>b \<in> set sb. length b \<le> M"
  shows "balanced M (place_batches batchSort sb i s) \<and>
    mset (concat (fst (place_batches batchSort sb i s))) = mset (concat (fst s)) + mset (drop i sb)"
  using assms(1)
proof (induction "length sb - i" arbitrary: i s rule: less_induct)
  case less
  let ?k = "min (i + numSLRs) (length sb)"
  let ?batch = "map (\<lambda>j. (j, length (sb ! j))) [i..<?k]"
  show ?case
  proof (cases "i < length sb")
    case True
    have m: "mset (batchSort ?batch) = mset ?batch" by (rule batch.srt_mset)
    have "\<forall>e \<in> set (batchSort ?batch). snd e \<le> M \<and> snd e = length (sb ! fst e)"
      using assms(2) by (auto simp: batch.srt_set)
    note f = fold_place [OF less.prems this]
    let ?s = "fold (place sb) (batchSort ?batch) s"
    have "mset (map (\<lambda>e. sb ! fst e) (batchSort ?batch)) = mset (map (\<lambda>e. sb ! fst e) ?batch)"
      using m by (metis mset_map)
    also have "map (\<lambda>e. sb ! fst e) ?batch = map ((!) sb) [i..<?k]" by simp
    also have "map ((!) sb) [i..<?k] = take (?k - i) (drop i sb)"
      by (rule nth_equalityI) (auto simp: less_diff_conv)
    finally have b: "mset (map (\<lambda>e. sb ! fst e) (batchSort ?batch)) = mset (take (?k - i) (drop i sb))" .
    have "drop (?k - i) (drop i sb) = drop (i + numSLRs) sb" using True by (auto simp: min_def)
    then have d: "mset (drop i sb) = mset (take (?k - i) (drop i sb)) + mset (drop (i + numSLRs) sb)"
      by (metis append_take_drop_id mset_append)
    have "length sb - (i + numSLRs) < length sb - i" using True by (simp add: numSLRs_def)
    from less.hyps [OF this, of ?s] f have
      "balanced M (place_batches batchSort sb (i + numSLRs) ?s) \<and>
       mset (concat (fst (place_batches batchSort sb (i + numSLRs) ?s))) = mset (concat (fst s)) + mset (drop i sb)"
      unfolding b d by (simp only: add.assoc simp_thms)
    with True show ?thesis by (simp only: place_batches.simps [of batchSort sb i s] Let_def if_True)
  qed (use less in \<open>simp add: place_batches.simps [of batchSort sb i]\<close>)
qed

lemma allocate_spec:
  assumes "\<forall>b \<in> set sb. length b \<le> M"
  shows "length (allocateBlocksToLists blockSort batchSort sb) = numSLRs"
    and "mset (concat (allocateBlocksToLists blockSort batchSort sb)) = mset sb"
    and "\<forall>x \<in> set (allocateBlocksToLists blockSort batchSort sb). \<forall>y \<in> set (allocateBlocksToLists blockSort batchSort sb).
      load x \<le> load y + M"
proof -
  let ?s = "place_batches batchSort (blockSort sb) 0 (replicate numSLRs [], replicate numSLRs 0)"
  have "balanced M (replicate numSLRs [], replicate numSLRs 0)"
    by (simp add: balanced_def numSLRs_def load_def eval_nat_numeral)
  moreover have "\<forall>b \<in> set (blockSort sb). length b \<le> M" using assms by (simp add: blocks.srt_set)
  ultimately have b: "balanced M ?s" and m: "mset (concat (fst ?s)) = mset (concat (replicate numSLRs [])) + mset (drop 0 (blockSort sb))"
    using place_batches_inv [of M "(replicate numSLRs [], replicate numSLRs 0)" "blockSort sb" 0] by simp_all
  have "concat (replicate numSLRs []) = []" by (simp add: numSLRs_def eval_nat_numeral)
  with m show "mset (concat (allocateBlocksToLists blockSort batchSort sb)) = mset sb"
    by (simp add: allocateBlocksToLists_def blocks.srt_mset)
  from b show "length (allocateBlocksToLists blockSort batchSort sb) = numSLRs"
      "\<forall>x \<in> set (allocateBlocksToLists blockSort batchSort sb). \<forall>y \<in> set (allocateBlocksToLists blockSort batchSort sb).
        load x \<le> load y + M"
    by (simp_all add: allocateBlocksToLists_def balanced_def)
qed

end

section \<open>The performance model\<close>

text \<open>
  The costs are \<open>float\<close>s whose values are integers: \<open>flt\<close> is the rounding of an integer to
  \<open>float\<close>.  The accumulator of \<open>std::accumulate\<close> is an \<open>int\<close>.  The final comparison
  \<open>x < average * 0.05\<close> is in \<open>double\<close>; for integers of 24 significant bits the rounded
  product equals the quotient whenever that is an integer, and the comparison is
  \<open>20 * x < average\<close>.  The products are those of the integers: the code computes them in
  \<open>int\<close>, which is the same up to about twenty million edges in a list and undefined beyond.
\<close>

definition perf_cost :: "(int \<Rightarrow> int) \<Rightarrow> vedge list list \<Rightarrow> int" where
  "perf_cost flt bs = flt (int (load bs) * 100 + int (length bs) * 20)"

definition perfmodel :: "(int \<Rightarrow> int) \<Rightarrow> block_lists \<Rightarrow> bool" where
  "perfmodel flt ls =
     (let perfCost = map (perf_cost flt) ls;
          average = flt (fold (\<lambda>c acc. flt (flt acc + c)) perfCost 0 div int (length perfCost));
          maxCost = Max (set perfCost);
          minCost = Min (set perfCost)
      in 20 * flt (maxCost - minCost) < average)"

section \<open>The files\<close>

definition padding_dst :: int where "padding_dst = - 2"

text \<open>The content of the file of one list: the number of edges twice, the edges by source, the padding.\<close>

definition save_edges :: "(vedge list \<Rightarrow> vedge list) \<Rightarrow> vedge list list \<Rightarrow> vedge list" where
  "save_edges edgeSort subblocks =
     (let mergedSubblock = edgeSort (concat subblocks);
          a = (if mergedSubblock = [] then 0 else fst (last mergedSubblock));
          num = (16 - length mergedSubblock mod 16) + 16;
          paddedSubblock = mergedSubblock @ replicate num (a, padding_dst);
          c = length paddedSubblock
      in (signed_take_bit 31 (int c), signed_take_bit 31 (int c)) # paddedSubblock)"

definition saveFile :: "(vedge list \<Rightarrow> vedge list) \<Rightarrow> block_lists \<Rightarrow> vedge list list" where
  "saveFile edgeSort ls = map (save_edges edgeSort) ls"

text \<open>
  The work on one interval: \<open>splits k\<close> is \<open>n \<mapsto> ceil(n * alpha)\<close> with the \<open>alpha\<close> of round
  \<open>k\<close>.  \<open>None\<close> is a round that leaves the vector or a loop that does not end.
\<close>

partial_function (option) interval_loop :: "(nat \<Rightarrow> nat \<Rightarrow> nat) \<Rightarrow> (vedge list list \<Rightarrow> vedge list list) \<Rightarrow>
  ((nat \<times> nat) list \<Rightarrow> (nat \<times> nat) list) \<Rightarrow> (int \<Rightarrow> int) \<Rightarrow> vedge list \<Rightarrow> nat \<Rightarrow> block_lists option" where
  "interval_loop splits blockSort batchSort flt es k =
     (case processBlocks (splits k) es of None \<Rightarrow> None
      | Some blocks \<Rightarrow>
          (let ls = allocateBlocksToLists blockSort batchSort blocks
           in if perfmodel flt ls then Some ls else interval_loop splits blockSort batchSort flt es (k + 1)))"

declare interval_loop.simps [code]

definition partition_interval :: "(vedge list \<Rightarrow> vedge list) \<Rightarrow> (nat \<Rightarrow> nat \<Rightarrow> nat) \<Rightarrow>
  (vedge list list \<Rightarrow> vedge list list) \<Rightarrow> ((nat \<times> nat) list \<Rightarrow> (nat \<times> nat) list) \<Rightarrow> (int \<Rightarrow> int) \<Rightarrow>
  vedge list \<Rightarrow> vedge list list option" where
  "partition_interval edgeSort splits blockSort batchSort flt es =
     map_option (saveFile edgeSort) (interval_loop splits blockSort batchSort flt (edgeSort es) 0)"

text \<open>The edges of a file: all but the header and the padding.\<close>

definition file_edges :: "vedge list \<Rightarrow> vedge list" where
  "file_edges f = filter (\<lambda>e. snd e \<noteq> padding_dst) (tl f)"

lemma padded_mod: "(n + ((16 - n mod 16) + 16)) mod 16 = (0::nat)"
proof -
  define q r where "q = n div 16" and "r = n mod 16"
  have n: "n = 16 * q + r" and r: "r < 16" by (simp_all add: q_def r_def)
  have "n + ((16 - r) + 16) = 16 * (q + 2)" using n r by simp
  then show ?thesis by (simp only: r_def mod_mult_self1_is_0)
qed

lemma save_edges_shape:
  assumes "mset (edgeSort (concat bs)) = mset (concat bs)" "length (concat bs) + 32 < 2 ^ 31"
  shows "\<exists>k a. let n = length (concat bs); c = n + k in
      save_edges edgeSort bs = (int c, int c) # edgeSort (concat bs) @ replicate k (a, padding_dst) \<and>
      c mod 16 = 0 \<and> 17 \<le> k \<and> k \<le> 32"
proof -
  let ?n = "length (concat bs)" and ?k = "(16 - length (concat bs) mod 16) + 16"
  have l: "length (edgeSort (concat bs)) = ?n" using assms(1) by (rule mset_eq_length)
  have r: "?n mod 16 < 16" by simp
  have m: "(?n + ?k) mod 16 = 0" by (rule padded_mod)
  have s: "signed_take_bit 31 (int (?n + ?k)) = int (?n + ?k)"
  proof (rule signed_take_bit_int_eq_self)
    have "?n + ?k < 2 ^ 31" using assms(2) r by linarith
    then have "int (?n + ?k) < int (2 ^ 31)" by (simp only: of_nat_less_iff)
    then show "int (?n + ?k) < 2 ^ 31" by (simp only: of_nat_power of_nat_numeral)
  qed simp
  have "save_edges edgeSort bs = (int (?n + ?k), int (?n + ?k)) # edgeSort (concat bs) @
      replicate ?k (if edgeSort (concat bs) = [] then 0 else fst (last (edgeSort (concat bs))), padding_dst)"
    by (simp only: save_edges_def Let_def l length_append length_replicate s)
  moreover have "17 \<le> ?k" "?k \<le> 32" using r by linarith+
  ultimately show ?thesis
    unfolding Let_def
    by (intro exI [of _ ?k] exI [of _ "if edgeSort (concat bs) = [] then 0 else fst (last (edgeSort (concat bs)))"] conjI m)
qed

lemma file_edges_save:
  assumes "mset (edgeSort (concat bs)) = mset (concat bs)" "\<forall>e \<in> set (concat bs). 0 \<le> snd e"
  shows "file_edges (save_edges edgeSort bs) = edgeSort (concat bs)"
proof -
  have "\<forall>e \<in> set (edgeSort (concat bs)). snd e \<noteq> padding_dst"
    using assms(2) mset_eq_setD [OF assms(1)] by (force simp: padding_dst_def)
  then show ?thesis by (simp add: file_edges_def save_edges_def Let_def)
qed

context block_allocator
begin

lemma mset_concat_cong: "mset xss = mset yss \<Longrightarrow> mset (concat xss) = mset (concat yss)"
  by (simp add: mset_concat flip: sum_mset_sum_list)

lemma round_mset:
  assumes "processBlocks f es = Some bs"
  shows "length (allocateBlocksToLists blockSort batchSort bs) = numSLRs"
    and "mset (concat (concat (allocateBlocksToLists blockSort batchSort bs))) = mset es"
proof -
  obtain M where "\<forall>b \<in> set bs. length b \<le> M"
    using finite_set [of bs] by (metis finite_nat_set_iff_bounded_le finite_imageI image_eqI)
  note a = allocate_spec [OF this]
  show "length (allocateBlocksToLists blockSort batchSort bs) = numSLRs" by (rule a(1))
  show "mset (concat (concat (allocateBlocksToLists blockSort batchSort bs))) = mset es"
    using mset_concat_cong [OF a(2)] processBlocks_mset [OF assms] by simp
qed

lemma interval_loop_result:
  assumes "interval_loop splits blockSort batchSort flt es k = Some ls"
  shows "length ls = numSLRs \<and> mset (concat (concat ls)) = mset es \<and> perfmodel flt ls"
proof -
  let ?P = "\<lambda>sp bs bt fl xs i r. bs = blockSort \<longrightarrow> bt = batchSort \<longrightarrow>
    length r = numSLRs \<and> mset (concat (concat r)) = mset xs \<and> perfmodel fl r"
  have "?P splits blockSort batchSort flt es k ls"
    by (rule interval_loop.raw_induct [of ?P, OF _ assms])
      (auto simp: Let_def round_mset split: option.splits if_splits)
  with assms show ?thesis by blast
qed

end

section \<open>The program\<close>

text \<open>\<open>main\<close> after the file is read: one list of files for every interval.\<close>

definition partition_main :: "(vedge list \<Rightarrow> vedge list) \<Rightarrow> (nat \<Rightarrow> nat \<Rightarrow> nat) \<Rightarrow>
  (vedge list list \<Rightarrow> vedge list list) \<Rightarrow> ((nat \<times> nat) list \<Rightarrow> (nat \<times> nat) list) \<Rightarrow> (int \<Rightarrow> int) \<Rightarrow>
  vedge list \<Rightarrow> vedge list list list option" where
  "partition_main edgeSort splits blockSort batchSort flt edgeList =
     (case divide_all edgeList of None \<Rightarrow> None
      | Some intervals \<Rightarrow> those (map (partition_interval edgeSort splits blockSort batchSort flt) intervals))"

definition in_range :: "vedge list \<Rightarrow> bool" where
  "in_range es \<longleftrightarrow> (\<forall>e \<in> set es. 0 \<le> snd e \<and> snd e < int (intervalNum es) * TARGET_RANGE)"

lemma those_map: "those (map f xs) = Some ys \<longleftrightarrow> length ys = length xs \<and> (\<forall>i < length xs. f (xs ! i) = Some (ys ! i))"
proof (induction xs arbitrary: ys)
  case (Cons x xs)
  show ?case
  proof (cases ys)
    case Nil
    then show ?thesis by (auto split: option.split)
  next
    case (Cons y ys')
    with Cons.IH [of ys'] show ?thesis by (auto simp: All_less_Suc2 split: option.split)
  qed
qed auto

lemma mset_filter_ranges:
  assumes "\<forall>e \<in> set es. 0 \<le> snd e \<and> snd e < int n * TARGET_RANGE"
  shows "mset (concat (map (\<lambda>i. filter (\<lambda>e. snd e div TARGET_RANGE = int i) es) [0..<n])) = mset es"
  using assms
proof (induction n arbitrary: es)
  case 0
  then show ?case by (cases es) auto
next
  case (Suc n)
  let ?lo = "filter (\<lambda>e. snd e < int n * TARGET_RANGE) es"
  let ?hi = "filter (\<lambda>e. \<not> snd e < int n * TARGET_RANGE) es"
  have low: "filter (\<lambda>e. snd e div TARGET_RANGE = int i) es = filter (\<lambda>e. snd e div TARGET_RANGE = int i) ?lo" if "i < n" for i
  proof -
    have "snd e < int n * TARGET_RANGE" if "snd e div TARGET_RANGE = int i" for e :: vedge
    proof -
      have "snd e div TARGET_RANGE < int n" using that \<open>i < n\<close> by simp
      then show ?thesis by (simp add: TARGET_RANGE_def)
    qed
    then show ?thesis by (auto simp: filter_filter intro!: filter_cong)
  qed
  have hi: "filter (\<lambda>e. snd e div TARGET_RANGE = int n) es = ?hi"
  proof (rule filter_cong [OF refl])
    fix e assume "e \<in> set es"
    with Suc.prems have "0 \<le> snd e" "snd e < (int n + 1) * TARGET_RANGE" by (auto simp: algebra_simps)
    then show "snd e div TARGET_RANGE = int n \<longleftrightarrow> \<not> snd e < int n * TARGET_RANGE"
      unfolding TARGET_RANGE_def by (simp add: algebra_simps) linarith
  qed
  have l1: "mset (concat (map (\<lambda>i. filter (\<lambda>e. snd e div TARGET_RANGE = int i) ?lo) [0..<n])) = mset ?lo"
    by (rule Suc.IH) (use Suc.prems in auto)
  have l2: "map (\<lambda>i. filter (\<lambda>e. snd e div TARGET_RANGE = int i) es) [0..<n] =
      map (\<lambda>i. filter (\<lambda>e. snd e div TARGET_RANGE = int i) ?lo) [0..<n]"
    by (intro map_cong refl low) simp
  have "mset (concat (map (\<lambda>i. filter (\<lambda>e. snd e div TARGET_RANGE = int i) es) [0..<n])) = mset ?lo"
    by (subst l2) (rule l1)
  moreover have "mset es = mset ?lo + mset ?hi" unfolding mset_filter by (rule multiset_partition)
  ultimately show ?case
    by (simp only: upt_Suc_append zero_order map_append concat_append list.map concat.simps append_Nil2 mset_append hi)
qed

locale partitioner = block_allocator +
  edges: std_sort edgeSort fst for edgeSort :: "vedge list \<Rightarrow> vedge list"
begin

lemma partition_interval_edges:
  assumes "partition_interval edgeSort splits blockSort batchSort flt es = Some fs" "\<forall>e \<in> set es. 0 \<le> snd e"
  shows "length fs = numSLRs \<and> mset (concat (map file_edges fs)) = mset es \<and>
    (\<forall>f \<in> set fs. sorted (map fst (file_edges f)))"
proof -
  obtain ls where l: "interval_loop splits blockSort batchSort flt (edgeSort es) 0 = Some ls" "fs = map (save_edges edgeSort) ls"
    using assms(1) by (auto simp: partition_interval_def saveFile_def)
  have m: "length ls = numSLRs" "mset (concat (concat ls)) = mset es"
    using interval_loop_result [OF l(1)] by (simp_all add: edges.srt_mset)
  have d: "\<forall>e \<in> set (concat bs). 0 \<le> snd e" if "bs \<in> set ls" for bs
    using that assms(2) mset_eq_setD [OF m(2)] by fastforce
  have f: "map file_edges fs = map (\<lambda>bs. edgeSort (concat bs)) ls"
    by (simp add: l(2) file_edges_save edges.srt_mset d)
  have "mset (concat (map (\<lambda>bs. edgeSort (concat bs)) xs)) = mset (concat (concat xs))" for xs
    by (induction xs) (simp_all add: edges.srt_mset)
  moreover have "sorted (map fst (file_edges f'))" if "f' \<in> set fs" for f'
  proof -
    have "file_edges f' \<in> set (map (\<lambda>bs. edgeSort (concat bs)) ls)" using that f by (metis image_eqI list.set_map)
    then show ?thesis using edges.srt_sorted by auto
  qed
  moreover have "length fs = numSLRs" by (simp add: l(2) m(1))
  ultimately show ?thesis using m(2) unfolding f by simp
qed

lemma partition_main_edges:
  assumes "partition_main edgeSort splits blockSort batchSort flt es = Some fss" "in_range es"
  shows "mset (concat (map file_edges (concat fss))) = mset es \<and> length fss = intervalNum es \<and>
    (\<forall>i < length fss. length (fss ! i) = numSLRs \<and>
      (\<forall>f \<in> set (fss ! i). sorted (map fst (file_edges f)) \<and> (\<forall>e \<in> set (file_edges f). snd e div TARGET_RANGE = int i)))"
proof -
  let ?iv = "\<lambda>i. filter (\<lambda>e. snd e div TARGET_RANGE = int i) es"
  have r: "\<forall>e \<in> set es. 0 \<le> snd e \<and> snd e < int (intervalNum es) * TARGET_RANGE"
    using assms(2) by (simp add: in_range_def)
  have f: "length fss = intervalNum es"
      "\<forall>i < intervalNum es. partition_interval edgeSort splits blockSort batchSort flt (?iv i) = Some (fss ! i)"
    using assms(1) by (simp_all add: partition_main_def divide_all_spec [OF r] those_map del: map_map)
  have p: "length (fss ! i) = numSLRs \<and> mset (concat (map file_edges (fss ! i))) = mset (?iv i) \<and>
    (\<forall>f \<in> set (fss ! i). sorted (map fst (file_edges f)))" if "i < intervalNum es" for i
    by (rule partition_interval_edges) (use f(2) that r in auto)
  have "mset (concat (map file_edges (concat fss))) = mset (concat (map (\<lambda>fs. concat (map file_edges fs)) fss))"
    by (induction fss) simp_all
  also have "map (\<lambda>fs. concat (map file_edges fs)) fss = map (\<lambda>i. concat (map file_edges (fss ! i))) [0..<intervalNum es]"
    by (rule nth_equalityI) (simp_all add: f(1))
  also have "mset (concat \<dots>) = mset (concat (map ?iv [0..<intervalNum es]))"
    unfolding mset_concat map_map by (intro arg_cong [where f = sum_list] map_cong refl) (simp add: p)
  finally have "mset (concat (map file_edges (concat fss))) = mset es" using mset_filter_ranges [OF r] by simp
  moreover have "snd e div TARGET_RANGE = int i" if "i < intervalNum es" "f' \<in> set (fss ! i)" "e \<in> set (file_edges f')" for i f' e
  proof -
    have "e \<in> set (concat (map file_edges (fss ! i)))" using that by auto
    then have "e \<in> set (?iv i)" using p [OF that(1)] mset_eq_setD by blast
    then show ?thesis by simp
  qed
  ultimately show ?thesis using f(1) p by simp
qed

end

interpretation std_partitioner: partitioner "sort_key (\<lambda>b. - int (length b))" "sort_key (\<lambda>p. - int (snd p))" "sort_key fst"
  by unfold_locales simp_all

end
