(* ===== verification/Kernel_Types.thy ===== *)
theory Kernel_Types
  imports Prelude
begin

text \<open>
  The data that travels between the kernels (\<open>src/graph_fpga.h\<close>,
  \<open>src/data_struct/gp_data_struct.h\<close>) and the packing of C structs into stream words
  (\<open>src/stream_type.h\<close>).  An \<open>ap_uint<1>\<close> flag is a \<open>bool\<close>, an \<open>int\<close> or
  \<open>uint_raw\<close> field is a 32-bit word that the operations read as signed or unsigned.
  Of an AXI beat \<open>ap_axiu\<close> the side channels that some kernel reads or writes are kept.
\<close>

section \<open>Constants\<close>

definition PE_NUM :: nat where "PE_NUM = 16"
definition LOG2_PE_NUM :: nat where "LOG2_PE_NUM = 4"
definition EDGE_NUM :: nat where "EDGE_NUM = 8"
definition HASH_MASK :: u32 where "HASH_MASK = word_of_nat (PE_NUM - 1)"
definition LOG2_SIZE_BY_INT :: nat where "LOG2_SIZE_BY_INT = 4"
definition LOG_BURSTBUFFERSIZE :: nat where "LOG_BURSTBUFFERSIZE = 7"
definition BURSTBUFFERSIZE :: nat where "BURSTBUFFERSIZE = 2 ^ 7"
definition ENDFLAG :: u32 where "ENDFLAG = 0xffffffff"

lemmas kernel_consts = PE_NUM_def LOG2_PE_NUM_def EDGE_NUM_def LOG2_SIZE_BY_INT_def
  LOG_BURSTBUFFERSIZE_def BURSTBUFFERSIZE_def

section \<open>Tokens\<close>

record int2 =
  ix :: u32
  iy :: u32

record int2_token =
  it_data :: int2
  it_flag :: bool

record burst_token =
  bt_data :: burst
  bt_flag :: bool

record edge_tuples =
  et_data :: "int2 list"  \<comment> \<open>\<open>data[EDGE_NUM]\<close>\<close>
  et_flag :: bool

record shuffled =
  sh_num :: u32
  sh_idx :: u32

record filter_type =
  ft_end :: bool
  ft_num :: u8
  ft_idx :: u32
  ft_data :: "int2 list"  \<comment> \<open>\<open>data[EDGE_NUM]\<close>\<close>

text \<open>\<open>burst_dest\<close>: \<open>ap_axiu<512, 1, 1, 16>\<close>, the beat that also travels on the network.\<close>

record burst_dest =
  bd_data :: burst
  bd_keep :: u64
  bd_last :: bool
  bd_dest :: u16

text \<open>
  \<open>name_pkg_t\<close>: \<open>ap_axiu<W, 0, 0, 0>\<close>, of which the kernels use the data and the \<open>last\<close>
  bit; \<open>source_vertex_pkg_t\<close> carries a burst of sixteen vertices.
\<close>

record 'd axis =
  ax_data :: 'd
  ax_last :: bool

type_synonym sv_pkg = "burst axis"

text \<open>\<open>name_frp_item_t\<close>: the data of a struct with the \<open>last\<close> bit on top of it.\<close>

record 'd frp =
  frp_data :: 'd
  frp_last :: bool

record cache_command =  \<comment> \<open>\<open>cache_command_t\<close>\<close>
  cc_idx :: u32
  cc_size :: u32

record cache_line =  \<comment> \<open>\<open>cache_line_t\<close>\<close>
  cl_data :: burst
  cl_addr :: u32

section \<open>Packed structs as stream words\<close>

text \<open>
  A packed struct is the sequence of its members; a member is an array of \<open>m_dim\<close>
  elements of \<open>m_unit\<close> bytes (a plain member has one element).  \<open>offset_of\<close> is \<open>None\<close>
  for a name that is no member, which the C compiler rejects.
\<close>

record memb =
  m_name :: string
  m_unit :: nat
  m_dim :: nat

type_synonym layout = "memb list"

definition memb_bytes :: "memb \<Rightarrow> nat" where
  "memb_bytes m = m_unit m * m_dim m"

fun sizeof :: "layout \<Rightarrow> nat" where
  "sizeof [] = 0"
| "sizeof (m # ms) = memb_bytes m + sizeof ms"

fun offset_of :: "layout \<Rightarrow> string \<Rightarrow> nat option" where
  "offset_of [] n = None"
| "offset_of (m # ms) n =
     (if m_name m = n then Some 0 else map_option (\<lambda>o'. memb_bytes m + o') (offset_of ms n))"

fun find_memb :: "layout \<Rightarrow> string \<Rightarrow> memb option" where
  "find_memb [] n = None"
| "find_memb (m # ms) n = (if m_name m = n then Some m else find_memb ms n)"

definition member_size :: "layout \<Rightarrow> string \<Rightarrow> nat option" where
  "member_size st n = map_option memb_bytes (find_memb st n)"

definition member_start_bit :: "layout \<Rightarrow> string \<Rightarrow> nat option" where
  "member_start_bit st n = map_option (\<lambda>o'. o' * 8) (offset_of st n)"

definition member_end_bit :: "layout \<Rightarrow> string \<Rightarrow> nat option" where
  "member_end_bit st n =
     (case (offset_of st n, member_size st n) of
        (Some o', Some s) \<Rightarrow> Some ((o' + s) * 8 - 1) | _ \<Rightarrow> None)"

definition member_unit_size :: "layout \<Rightarrow> string \<Rightarrow> nat option" where
  "member_unit_size st n = map_option (\<lambda>m. memb_bytes m div m_dim m) (find_memb st n)"

definition member_array_start_bit :: "layout \<Rightarrow> string \<Rightarrow> nat \<Rightarrow> nat option" where
  "member_array_start_bit st n i =
     (case (member_start_bit st n, member_unit_size st n) of
        (Some b, Some u) \<Rightarrow> Some (b + u * i * 8) | _ \<Rightarrow> None)"

definition member_array_end_bit :: "layout \<Rightarrow> string \<Rightarrow> nat \<Rightarrow> nat option" where
  "member_array_end_bit st n i =
     (case (member_start_bit st n, member_unit_size st n) of
        (Some b, Some u) \<Rightarrow> Some (b + u * (i + 1) * 8 - 1) | _ \<Rightarrow> None)"

definition source_vertex_t :: layout where
  "source_vertex_t = [\<lparr>m_name = ''data'', m_unit = 4, m_dim = 16\<rparr>]"

definition single_source_vertex_t :: layout where
  "single_source_vertex_t = [\<lparr>m_name = ''data'', m_unit = 4, m_dim = 1\<rparr>]"

definition cache_command_t :: layout where
  "cache_command_t = [\<lparr>m_name = ''idx'', m_unit = 4, m_dim = 1\<rparr>, \<lparr>m_name = ''size'', m_unit = 4, m_dim = 1\<rparr>]"

definition cache_line_t :: layout where
  "cache_line_t = [\<lparr>m_name = ''data'', m_unit = 4, m_dim = 16\<rparr>, \<lparr>m_name = ''addr'', m_unit = 4, m_dim = 1\<rparr>]"

lemmas layouts = source_vertex_t_def single_source_vertex_t_def cache_command_t_def cache_line_t_def

lemma offset_of_dom: "offset_of st n \<noteq> None \<longleftrightarrow> find_memb st n \<noteq> None"
  by (induction st n rule: offset_of.induct) auto

lemma offset_of_sizeof:
  "offset_of st n = Some b \<Longrightarrow> find_memb st n = Some m \<Longrightarrow> b + memb_bytes m \<le> sizeof st"
  by (induction st arbitrary: b) (auto split: if_splits)

lemma offset_of_disjoint:
  assumes "offset_of st n = Some b" "find_memb st n = Some m"
    and "offset_of st n' = Some b'" "find_memb st n' = Some m'" and "n \<noteq> n'"
  shows "b + memb_bytes m \<le> b' \<or> b' + memb_bytes m' \<le> b"
  using assms by (induction st arbitrary: b b') (auto split: if_splits)

text \<open>Reading and assigning a range of a stream word by the struct's member.\<close>

definition ap_get :: "layout \<Rightarrow> string \<Rightarrow> nat \<Rightarrow> 'a::len word \<Rightarrow> 'b::len word" where
  "ap_get st n i w = (case member_array_start_bit st n i of Some b \<Rightarrow> rng b w | None \<Rightarrow> 0)"

definition ap_put :: "layout \<Rightarrow> string \<Rightarrow> nat \<Rightarrow> 'b::len word \<Rightarrow> 'a::len word \<Rightarrow> 'a word" where
  "ap_put st n i v w = (case member_array_start_bit st n i of Some b \<Rightarrow> set_rng b v w | None \<Rightarrow> w)"

lemma member_array_start_bit_eq:
  "find_memb st n = Some m \<Longrightarrow> offset_of st n = Some b \<Longrightarrow> 0 < m_dim m \<Longrightarrow>
   member_array_start_bit st n i = Some (8 * (b + m_unit m * i))"
  by (simp add: member_array_start_bit_def member_start_bit_def member_unit_size_def memb_bytes_def
      algebra_simps)

lemma unit_step: "i < d \<Longrightarrow> u * i + u \<le> u * (d::nat)"
  by (metis Suc_leI add.commute mult_Suc_right mult_le_mono2)

lemma elems_apart: "i \<noteq> j \<Longrightarrow> u * i + u \<le> u * j \<or> u * j + u \<le> u * (i::nat)"
  by (metis linorder_neqE_nat unit_step)

lemma ap_get_put_same:
  fixes v :: "'b::len word" and w :: "'a::len word"
  assumes "find_memb st n = Some m" and "i < m_dim m"
    and "LENGTH('b) = 8 * m_unit m" and "8 * sizeof st \<le> LENGTH('a)"
  shows "ap_get st n i (ap_put st n i v w) = v"
proof -
  obtain b where b: "offset_of st n = Some b"
    using assms(1) offset_of_dom [of st n] by auto
  from offset_of_sizeof [OF b assms(1)] unit_step [OF assms(2), of "m_unit m"] assms(3,4)
  have "8 * (b + m_unit m * i) + LENGTH('b) \<le> LENGTH('a)"
    by (simp add: memb_bytes_def)
  with b assms(1,2) show ?thesis
    by (simp add: ap_get_def ap_put_def member_array_start_bit_eq rng_set_rng_same)
qed

lemma ap_get_put_other:
  fixes v :: "'b::len word" and w :: "'a::len word"
  assumes "find_memb st n = Some m" "find_memb st n' = Some m'"
    and "i < m_dim m" "i' < m_dim m'" and "n \<noteq> n' \<or> i \<noteq> i'"
    and "LENGTH('b) = 8 * m_unit m" "LENGTH('c) = 8 * m_unit m'"
  shows "(ap_get st n' i' (ap_put st n i v w) :: 'c::len word) = ap_get st n' i' w"
proof -
  obtain b b' where b: "offset_of st n = Some b" "offset_of st n' = Some b'"
    using assms(1,2) offset_of_dom [of st n] offset_of_dom [of st n'] by auto
  have d: "8 * (b' + m_unit m' * i') + LENGTH('c) \<le> 8 * (b + m_unit m * i) \<or>
           8 * (b + m_unit m * i) + LENGTH('b) \<le> 8 * (b' + m_unit m' * i')"
  proof (cases "n = n'")
    case True
    with assms b have "m = m'" "b = b'" "i \<noteq> i'" by auto
    then show ?thesis using elems_apart [of i i' "m_unit m"] assms(6,7) by auto
  next
    case False
    from offset_of_disjoint [OF b(1) assms(1) b(2) assms(2) False]
      unit_step [OF assms(3), of "m_unit m"] unit_step [OF assms(4), of "m_unit m'"] assms(6,7)
    show ?thesis by (auto simp: memb_bytes_def)
  qed
  with b assms show ?thesis
    by (simp add: ap_get_def ap_put_def member_array_start_bit_eq rng_set_rng_other)
qed

lemma ap_get_source_vertex [lane_simps]:
  "i < 16 \<Longrightarrow> ap_get source_vertex_t ''data'' i (w :: burst) = lane i w"
  by (simp add: ap_get_def member_array_start_bit_def member_start_bit_def member_unit_size_def
      source_vertex_t_def memb_bytes_def lane_def mult.commute)

text \<open>The 544-bit item of a cache line: the struct's members at their offsets.\<close>

definition cache_line_pack :: "cache_line \<Rightarrow> 544 word" where
  "cache_line_pack c =
     set_rng (the (member_start_bit cache_line_t ''data'')) (cl_data c)
       (set_rng (the (member_start_bit cache_line_t ''addr'')) (cl_addr c) 0)"

definition cache_line_unpack :: "544 word \<Rightarrow> cache_line" where
  "cache_line_unpack w =
     \<lparr>cl_data = rng (the (member_start_bit cache_line_t ''data'')) w,
      cl_addr = rng (the (member_start_bit cache_line_t ''addr'')) w\<rparr>"

text \<open>\<open>ap_frp_data\<close> and \<open>ap_frp_last\<close>: the struct below, the last bit above it.\<close>

definition frp_pack :: "'d::len word frp \<Rightarrow> 'f::len word" where
  "frp_pack x = set_rng LENGTH('d) (of_bool (frp_last x) :: 1 word) (set_rng 0 (frp_data x) 0)"

definition frp_unpack :: "'f::len word \<Rightarrow> 'd::len word frp" where
  "frp_unpack w = \<lparr>frp_data = rng 0 w, frp_last = ((rng LENGTH('d) w :: 1 word) = 1)\<rparr>"

lemma frp_unpack_pack:
  fixes x :: "'d::len word frp"
  assumes "LENGTH('f) = LENGTH('d) + 1"
  shows "frp_unpack (frp_pack x :: 'f::len word) = x"
proof -
  have "rng 0 (frp_pack x :: 'f word) = frp_data x"
    using assms by (simp add: frp_pack_def rng_set_rng_other rng_set_rng_same)
  moreover have "(rng LENGTH('d) (frp_pack x :: 'f word) :: 1 word) = of_bool (frp_last x)"
    using assms by (simp add: frp_pack_def rng_set_rng_same)
  ultimately show ?thesis by (simp add: frp_unpack_def)
qed

lemma cache_line_unpack_pack: "cache_line_unpack (cache_line_pack c) = c"
  by (simp add: cache_line_unpack_def cache_line_pack_def member_start_bit_def cache_line_t_def
      memb_bytes_def rng_set_rng_same rng_set_rng_other)

end
