(* ===== verification/Edge_Reader.thy ===== *)
theory Edge_Reader
  imports Kernel_Types
begin

text \<open>
  The readers and writers of global memory (\<open>src/header/fpga_global_mem.h\<close>) and the
  forwarding of the source vertices (\<open>src_stream_out\<close> of \<open>src/clementi/gs.cpp\<close>).  Memory
  is a function from the index of a 512-bit word to the word.  A word of the edge array
  holds eight edges, the source of edge \<open>i\<close> in lane \<open>2 * i\<close>, its destination in lane
  \<open>2 * i + 1\<close>.  A local variable that the code does not initialise is a parameter.
\<close>

type_synonym mem = "nat \<Rightarrow> burst"

text \<open>Source and destination of edge \<open>e\<close> of the edge array.\<close>

definition edge_src :: "mem \<Rightarrow> nat \<Rightarrow> u32" where
  "edge_src input e = lane (2 * (e mod 8)) (input (e div 8))"

definition edge_dst :: "mem \<Rightarrow> nat \<Rightarrow> u32" where
  "edge_dst input e = lane (2 * (e mod 8) + 1) (input (e div 8))"

section \<open>The edge reader\<close>

text \<open>
  The inner loop: the eight sources (or destinations, \<open>off = 1\<close>) of the word go to the
  half \<open>j & 1\<close> of the token.
\<close>

definition take_half :: "nat \<Rightarrow> nat \<Rightarrow> burst \<Rightarrow> burst \<Rightarrow> burst" where
  "take_half j off word tok = set_lanes [8 * (j mod 2)..<8 * (j mod 2) + 8]
     (\<lambda>l. lane (2 * (l - 8 * (j mod 2)) + off) word) tok"

text \<open>The state is the data of the tokens \<open>src_token\<close> and \<open>dst_token\<close>.\<close>

fun burstRead_loop :: "mem \<Rightarrow> nat list \<Rightarrow> burst \<times> burst \<Rightarrow>
  (burst_token \<times> burst_token) list \<times> (burst \<times> burst)" where
  "burstRead_loop input [] st = ([], st)"
| "burstRead_loop input (j # js) (s, d) =
     (let s' = take_half j 0 (input j) s;
          d' = take_half j 1 (input j) d;
          out = (if j mod 2 = 1 then [(\<lparr>bt_data = s', bt_flag = False\<rparr>, \<lparr>bt_data = d', bt_flag = False\<rparr>)]
                 else [])
      in case burstRead_loop input js (s', d') of (os, st) \<Rightarrow> (out @ os, st))"

definition burstRead :: "burst \<times> burst \<Rightarrow> u32 \<Rightarrow> mem \<Rightarrow> burst_token list \<times> burst_token list" where
  "burstRead uninit edge_end input =
     (case burstRead_loop input [0..<unat (ap_ceil edge_end LOG2_SIZE_BY_INT)] uninit of
        (os, s, d) \<Rightarrow> (map fst os @ [\<lparr>bt_data = s, bt_flag = True\<rparr>],
                      map snd os @ [\<lparr>bt_data = d, bt_flag = True\<rparr>]))"

text \<open>The variant that first tells the performance counter that it starts.\<close>

definition burstReadPerf :: "burst \<times> burst \<Rightarrow> u32 \<Rightarrow> mem \<Rightarrow>
  burst_token list \<times> burst_token list \<times> u32 list" where
  "burstReadPerf uninit edge_end input =
     (case burstRead_loop input [0..<unat (ap_ceil edge_end LOG2_SIZE_BY_INT)] uninit of
        (os, s, d) \<Rightarrow> (map fst os @ [\<lparr>bt_data = s, bt_flag = True\<rparr>],
                      map snd os @ [\<lparr>bt_data = d, bt_flag = True\<rparr>], [0]))"

lemma lane_take_half:
  "lane l (take_half j off word tok) =
     (if 8 * (j mod 2) \<le> l \<and> l < 8 * (j mod 2) + 8 then lane (2 * (l - 8 * (j mod 2)) + off) word
      else lane l tok)"
  unfolding take_half_def by (subst lane_set_lanes) auto

lemma take_half_pair:
  "take_half (Suc (2 * k)) off w1 (take_half (2 * k) off w0 tok) =
     burst_of (\<lambda>l. if l < 8 then lane (2 * l + off) w0 else lane (2 * (l - 8) + off) w1)"
  by (rule burst_eqI) (auto simp: lane_take_half lane_burst_of)

text \<open>Token \<open>k\<close> of a stream that carries the endpoint \<open>f e\<close> of the edges \<open>e\<close>.\<close>

definition group_of :: "(nat \<Rightarrow> u32) \<Rightarrow> nat \<Rightarrow> burst" where
  "group_of f k = burst_of (\<lambda>l. f (16 * k + l))"

lemma lane_group_of [lane_simps]: "l < 16 \<Longrightarrow> lane l (group_of f k) = f (16 * k + l)"
  by (simp add: group_of_def lane_burst_of)

lemma burst_of_half_words:
  "burst_of (\<lambda>l. if l < 8 then lane (2 * l + off) (input (2 * k))
                 else lane (2 * (l - 8) + off) (input (Suc (2 * k)))) =
   group_of (\<lambda>e. lane (2 * (e mod 8) + off) (input (e div 8))) k"
proof (rule burst_eqI)
  fix l :: nat assume l: "l < 16"
  show "lane l (burst_of (\<lambda>l. if l < 8 then lane (2 * l + off) (input (2 * k))
          else lane (2 * (l - 8) + off) (input (Suc (2 * k))))) =
        lane l (group_of (\<lambda>e. lane (2 * (e mod 8) + off) (input (e div 8))) k)"
  proof (cases "l < 8")
    case True
    then have q: "(16 * k + l) div 8 = 2 * k" by (intro div_nat_eqI) simp_all
    have "(16 * k + l) mod 8 = l" using True q div_mult_mod_eq [of "16 * k + l" 8] by simp
    with q l True show ?thesis by (simp add: lane_simps)
  next
    case False
    with l have q: "(16 * k + l) div 8 = Suc (2 * k)" by (intro div_nat_eqI) simp_all
    have "(16 * k + l) mod 8 = l - 8" using False q div_mult_mod_eq [of "16 * k + l" 8] by simp
    with q l False show ?thesis by (simp add: lane_simps)
  qed
qed

lemma burstRead_loop_append:
  "burstRead_loop input (js @ ks) st =
     (case burstRead_loop input js st of (os, st') \<Rightarrow>
        (case burstRead_loop input ks st' of (os', st'') \<Rightarrow> (os @ os', st'')))"
  by (induction input js st rule: burstRead_loop.induct) (auto simp: Let_def split: prod.splits)

lemma burstRead_loop_even:
  "fst (burstRead_loop input [0..<2 * m] st) =
     map (\<lambda>k. (\<lparr>bt_data = group_of (edge_src input) k, bt_flag = False\<rparr>,
               \<lparr>bt_data = group_of (edge_dst input) k, bt_flag = False\<rparr>)) [0..<m]"
proof (induction m)
  case 0
  then show ?case by (cases st) simp
next
  case (Suc m)
  obtain os s d where e: "burstRead_loop input [0..<2 * m] st = (os, s, d)"
    by (metis prod_cases3)
  have "[0..<2 * Suc m] = [0..<2 * m] @ [2 * m, Suc (2 * m)]" by simp
  with e Suc show ?case
    by (simp add: burstRead_loop_append Let_def take_half_pair burst_of_half_words
          edge_src_def [abs_def] edge_dst_def [abs_def] burst_of_half_words [of 0, simplified]
          split: prod.splits)
qed

lemma fst_snd_burstRead:
  "fst (burstRead u ee input) = map fst (fst (burstRead_loop input [0..<unat (ap_ceil ee LOG2_SIZE_BY_INT)] u)) @
     [\<lparr>bt_data = fst (snd (burstRead_loop input [0..<unat (ap_ceil ee LOG2_SIZE_BY_INT)] u)), bt_flag = True\<rparr>]"
  "snd (burstRead u ee input) = map snd (fst (burstRead_loop input [0..<unat (ap_ceil ee LOG2_SIZE_BY_INT)] u)) @
     [\<lparr>bt_data = snd (snd (burstRead_loop input [0..<unat (ap_ceil ee LOG2_SIZE_BY_INT)] u)), bt_flag = True\<rparr>]"
  by (simp_all add: burstRead_def split: prod.splits)

text \<open>
  An edge array of \<open>16 * m\<close> edges is \<open>32 * m\<close> integers.
\<close>

lemma ap_ceil_edges:
  assumes "0 < m" "32 * m < 2 ^ 32"
  shows "unat (ap_ceil (word_of_nat (32 * m)) LOG2_SIZE_BY_INT) = 2 * m"
proof -
  have u: "unat (word_of_nat (32 * m) :: u32) = 32 * m"
    by (rule unat_of_nat_small) (use assms in simp)
  then have "0 < (word_of_nat (32 * m) :: u32)"
    using assms by (simp add: word_less_nat_alt)
  from ap_ceil_pos [OF this, of LOG2_SIZE_BY_INT]
  have "unat (ap_ceil (word_of_nat (32 * m)) LOG2_SIZE_BY_INT) = (32 * m - 1) div 16 + 1"
    by (simp only: u LOG2_SIZE_BY_INT_def) simp
  also have "(32 * m - 1) div 16 = 2 * m - 1"
    by (cases m) (use assms(1) in \<open>auto intro: div_nat_eqI\<close>)
  also have "2 * m - 1 + 1 = 2 * m"
    using assms(1) by simp
  finally show ?thesis .
qed

lemma burstRead_edges:
  assumes "0 < m" "32 * m < 2 ^ 32"
  shows "\<exists>s d. burstRead uninit (word_of_nat (32 * m)) input =
    (map (\<lambda>k. \<lparr>bt_data = group_of (edge_src input) k, bt_flag = False\<rparr>) [0..<m] @ [\<lparr>bt_data = s, bt_flag = True\<rparr>],
     map (\<lambda>k. \<lparr>bt_data = group_of (edge_dst input) k, bt_flag = False\<rparr>) [0..<m] @ [\<lparr>bt_data = d, bt_flag = True\<rparr>])"
  using burstRead_loop_even [of input m uninit] ap_ceil_edges [OF assms]
  by (auto simp: burstRead_def split: prod.splits)

section \<open>The source vertices on their way to the cache\<close>

text \<open>
  \<open>src_stream_out\<close> copies the data of each token and, after the token that ends the
  packet, sends one beat of invalid vertices with \<open>last\<close> set.
\<close>

definition src_stream_out_body :: "burst_token \<Rightarrow> sv_pkg list \<times> bool" where
  "src_stream_out_body m =
     (if bt_flag m then ([\<lparr>ax_data = burst_of (\<lambda>i. 0xFFFFFFFF), ax_last = True\<rparr>], True)
      else ([\<lparr>ax_data = bt_data m, ax_last = False\<rparr>], False))"

definition src_stream_out :: "burst_token list \<Rightarrow> sv_pkg list \<times> burst_token list \<times> status" where
  "src_stream_out = token_loop src_stream_out_body"

interpretation sso: token_kernel src_stream_out "\<lambda>m. fst (src_stream_out_body m)" bt_flag
  by unfold_locales (auto simp: src_stream_out_def src_stream_out_body_def split: prod.splits)

lemma src_stream_out_packet:
  assumes "\<forall>t \<in> set ts. \<not> bt_flag t" "bt_flag e"
  shows "src_stream_out (ts @ e # rest) =
    (map (\<lambda>t. \<lparr>ax_data = bt_data t, ax_last = False\<rparr>) ts @
       [\<lparr>ax_data = burst_of (\<lambda>i. 0xFFFFFFFF), ax_last = True\<rparr>], rest, Returned)"
proof -
  have "map (\<lambda>m. fst (src_stream_out_body m)) ts =
      map (\<lambda>t. [\<lparr>ax_data = bt_data t, ax_last = False\<rparr>]) ts"
    using assms(1) by (simp add: src_stream_out_body_def)
  then have "concat (map (\<lambda>m. fst (src_stream_out_body m)) ts) =
      map (\<lambda>t. \<lparr>ax_data = bt_data t, ax_last = False\<rparr>) ts"
    by (simp only: concat_map_single)
  with sso.kernel_packet [OF assms, of rest] assms(2) show ?thesis
    by (simp only:) (simp add: src_stream_out_body_def)
qed

section \<open>The other readers\<close>

text \<open>\<open>edge_end / 2\<close> and the subtraction are exact on the widened operands.\<close>

definition burstReadProp :: "burst \<Rightarrow> u32 \<Rightarrow> mem \<Rightarrow> burst_token list" where
  "burstReadProp uninit edge_end input =
     concat (map (\<lambda>i. map (\<lambda>inner_idx. \<lparr>bt_data = input (unat (push_bit LOG_BURSTBUFFERSIZE (word_of_nat i :: u32)) + inner_idx),
                                       bt_flag = False\<rparr>) [0..<BURSTBUFFERSIZE])
       [0..<unat (ap_ceil (word_of_nat (unat edge_end div 2)) (LOG2_SIZE_BY_INT + LOG_BURSTBUFFERSIZE))])
     @ [\<lparr>bt_data = uninit, bt_flag = True\<rparr>]"

definition burst_read_size :: nat where "burst_read_size = 64"

definition burstReadLiteRaw :: "u32 \<Rightarrow> u32 \<Rightarrow> mem \<Rightarrow> burst list" where
  "burstReadLiteRaw edge_offset edge_end input =
     (let offset = drop_bit LOG2_SIZE_BY_INT edge_offset;
          n_end = ap_ceil edge_end (LOG2_SIZE_BY_INT + 6)
      in concat (map (\<lambda>i. map (\<lambda>j. input (unat (word_of_nat j + word_of_nat i * word_of_nat burst_read_size + offset)))
                               [0..<burst_read_size])
           [0..<unat n_end]))"

text \<open>
  Here the loop counter starts at \<open>offset\<close>; both bounds are below \<open>2^29\<close>, so the sum
  does not wrap.  \<open>keep\<close>, \<open>last\<close> and \<open>dest\<close> of the beat stay as they are found.
\<close>

definition burstReadLite :: "burst_dest \<Rightarrow> u32 \<Rightarrow> u32 \<Rightarrow> mem \<Rightarrow> burst_dest list" where
  "burstReadLite uninit edge_offset edge_end input =
     (let offset = unat (drop_bit LOG2_SIZE_BY_INT edge_offset);
          n_end = unat (ap_ceil edge_end LOG2_SIZE_BY_INT)
      in concat (map (\<lambda>i. map (\<lambda>j. uninit\<lparr>bd_data := input (unat (word_of_nat j + word_of_nat i * word_of_nat burst_read_size :: u32))\<rparr>)
                               [0..<burst_read_size])
           [offset..<offset + n_end div burst_read_size]))"

definition dummyStream :: "u32 \<Rightarrow> burst list" where
  "dummyStream edge_end =
     concat (map (\<lambda>i. replicate BURSTBUFFERSIZE 0)
       [0..<unat (ap_ceil edge_end (LOG2_SIZE_BY_INT + LOG_BURSTBUFFERSIZE))])"

lemma concat_rows: "concat (map (\<lambda>i. map (\<lambda>j. f (i * n + j)) [0..<n]) [0..<k]) = map f [0..<k * n]"
proof (induction k)
  case (Suc k)
  have "map (\<lambda>j. f (k * n + j)) [0..<n] = map f [k * n..<k * n + n]"
    by (rule nth_equalityI) simp_all
  moreover have "[0..<Suc k * n] = [0..<k * n] @ [k * n..<k * n + n]"
    using upt_add_eq_append [of 0 "k * n" n] by (simp add: add.commute)
  ultimately show ?case using Suc by simp
qed simp

text \<open>
  \<open>burstReadLiteRaw\<close> delivers whole rows of 64 words: as many as the integers need,
  rounded up.
\<close>

lemma burstReadLiteRaw_words:
  assumes "0 < n" "off + n + 64 < 2 ^ 28"
  shows "burstReadLiteRaw (word_of_nat (16 * off)) (word_of_nat (16 * n)) input =
     map (\<lambda>t. input (off + t)) [0..<((n - 1) div 64 + 1) * 64]"
proof -
  have u: "unat (word_of_nat (16 * n) :: u32) = 16 * n"
    by (rule unat_of_nat_small) (use assms in simp)
  have uo: "unat (word_of_nat (16 * off) :: u32) = 16 * off"
    by (rule unat_of_nat_small) (use assms in simp)
  have n0: "0 < (word_of_nat (16 * n) :: u32)" using u assms by (simp add: word_less_nat_alt)
  have "(16 * n - 1) div 2 ^ (LOG2_SIZE_BY_INT + 6) + 1 = (16 * n - 1) div 1024 + 1"
    by (simp add: LOG2_SIZE_BY_INT_def)
  also have "(16 * n - 1) div 1024 = (16 * n - 1) div 16 div 64" by (simp add: div_mult2_eq)
  also have "(16 * n - 1) div 16 = n - 1" by (cases n) (use assms in \<open>auto intro: div_nat_eqI\<close>)
  finally have e: "unat (ap_ceil (word_of_nat (16 * n) :: u32) (LOG2_SIZE_BY_INT + 6)) = (n - 1) div 64 + 1"
    using ap_ceil_pos [OF n0, of "LOG2_SIZE_BY_INT + 6"] u by simp
  have "unat (drop_bit LOG2_SIZE_BY_INT (word_of_nat (16 * off) :: u32)) = off"
    by (subst unat_drop_bit_eq, subst uo) (simp add: LOG2_SIZE_BY_INT_def drop_bit_eq_div)
  from this have o: "drop_bit LOG2_SIZE_BY_INT (word_of_nat (16 * off) :: u32) = word_of_nat off"
  proof -
    assume "unat (drop_bit LOG2_SIZE_BY_INT (word_of_nat (16 * off) :: u32)) = off"
    moreover have "unat (word_of_nat off :: u32) = off"
      by (rule unat_of_nat_small) (use assms in simp)
    ultimately show "drop_bit LOG2_SIZE_BY_INT (word_of_nat (16 * off) :: u32) = word_of_nat off"
      by (simp only: word_unat_eq_iff)
  qed
  have a: "unat (word_of_nat j + word_of_nat i * word_of_nat burst_read_size + word_of_nat off :: u32) =
      off + (i * 64 + j)" if "i < (n - 1) div 64 + 1" "j < 64" for i j
  proof -
    have "i * 64 \<le> n" using that assms by (metis Suc_eq_plus1 div_times_less_eq_dividend less_Suc_eq_le
          le_trans mult_le_mono1 diff_le_self)
    then have "j + i * 64 + off < 2 ^ 32" using that assms by simp
    then have "unat (word_of_nat (j + i * 64 + off) :: u32) = j + i * 64 + off"
      by (intro unat_of_nat_small) simp
    then show ?thesis by (simp add: burst_read_size_def)
  qed
  have "burstReadLiteRaw (word_of_nat (16 * off)) (word_of_nat (16 * n)) input =
     concat (map (\<lambda>i. map (\<lambda>j. input (off + (i * 64 + j))) [0..<64]) [0..<(n - 1) div 64 + 1])"
    unfolding burstReadLiteRaw_def Let_def e o burst_read_size_def
  proof (intro arg_cong [where f = concat] map_cong refl)
    fix i j assume "i \<in> set [0..<(n - 1) div 64 + 1]" "j \<in> set [0..<64]"
    then have "i < (n - 1) div 64 + 1" "j < 64" by (simp_all only: set_upt atLeastLessThan_iff)
    from a [OF this] show "input (unat (word_of_nat j + word_of_nat i * word_of_nat 64 + word_of_nat off :: u32)) =
        input (off + (i * 64 + j))"
      by (simp only: burst_read_size_def)
  qed
  also have "\<dots> = map (\<lambda>t. input (off + t)) [0..<((n - 1) div 64 + 1) * 64]"
    by (rule concat_rows)
  finally show ?thesis .
qed

section \<open>Writing back\<close>

text \<open>
  \<open>writeBack\<close> collects 64 words and writes them in one burst; the word with the end flag
  in its top lane ends the call, an incomplete group is not written.
\<close>

definition WRITE_BACK_BURST_LENGTH :: nat where "WRITE_BACK_BURST_LENGTH = 64"
definition LOG_WRITE_BURST_LEN :: nat where "LOG_WRITE_BURST_LEN = 6"

definition store_row :: "u32 \<Rightarrow> burst list \<Rightarrow> mem \<Rightarrow> mem" where
  "store_row counter ram addr =
     fold (\<lambda>j a. a(unat (push_bit LOG_WRITE_BURST_LEN counter + word_of_nat j) := ram ! j))
       [0..<WRITE_BACK_BURST_LENGTH] addr"

fun writeBack_loop :: "u32 \<Rightarrow> burst list \<Rightarrow> mem \<Rightarrow> burst list \<Rightarrow> mem \<times> burst list \<times> status" where
  "writeBack_loop counter ram addr [] = (addr, [], Blocked)"
| "writeBack_loop counter ram addr (tmp # xs) =
     (if lane 15 tmp = ENDFLAG then (addr, xs, Returned)
      else let ram' = ram @ [tmp] in
        if length ram' = WRITE_BACK_BURST_LENGTH
        then writeBack_loop (counter + 1) [] (store_row counter ram' addr) xs
        else writeBack_loop counter ram' addr xs)"

definition writeBack :: "mem \<Rightarrow> burst list \<Rightarrow> mem \<times> burst list \<times> status" where
  "writeBack addr xs = writeBack_loop 0 [] addr xs"

fun writeBackLite_loop :: "nat \<Rightarrow> nat \<Rightarrow> mem \<Rightarrow> burst list \<Rightarrow> mem \<times> burst list \<times> status" where
  "writeBackLite_loop k 0 addr xs = (addr, xs, Returned)"
| "writeBackLite_loop k (Suc n) addr [] = (addr, [], Blocked)"
| "writeBackLite_loop k (Suc n) addr (tmp # xs) =
     writeBackLite_loop (k + 1) n
       (addr(unat (push_bit LOG_WRITE_BURST_LEN (word_of_nat (k div 64)) + word_of_nat (k mod 64) :: u32) := tmp)) xs"

text \<open>Word \<open>k\<close> of the call is \<open>i = k mod 64\<close> of row \<open>k div 64\<close>; \<open>/\<close> truncates.\<close>

definition writeBackLite :: "u32 \<Rightarrow> mem \<Rightarrow> burst list \<Rightarrow> mem \<times> burst list \<times> status" where
  "writeBackLite totalSize addr xs =
     (let loops = nat (sint totalSize div int WRITE_BACK_BURST_LENGTH div 16)
      in writeBackLite_loop 0 (loops * WRITE_BACK_BURST_LENGTH) addr xs)"

lemma fold_upd_row:
  assumes "n \<le> length ram"
  shows "fold (\<lambda>j a. a(base + j := ram ! j)) [0..<n] addr =
     (\<lambda>t. if base \<le> t \<and> t < base + n then ram ! (t - base) else addr t)"
  using assms by (induction n) (auto simp: fun_eq_iff)

lemma store_row_eq:
  assumes "c < 2 ^ 26" "length ram = 64"
  shows "store_row (word_of_nat c) ram addr =
     (\<lambda>t. if 64 * c \<le> t \<and> t < 64 * c + 64 then ram ! (t - 64 * c) else addr t)"
proof -
  have "unat (push_bit 6 (word_of_nat c :: u32) + word_of_nat j) = 64 * c + j" if "j < 64" for j
  proof -
    have "push_bit 6 (word_of_nat c :: u32) + word_of_nat j = word_of_nat (64 * c + j)"
      by (simp add: push_bit_eq_mult mult.commute)
    with that assms(1) show ?thesis by (simp only:, intro unat_of_nat_small) simp
  qed
  then have "fold (\<lambda>j a. a(unat (push_bit 6 (word_of_nat c :: u32) + word_of_nat j) := ram ! j)) [0..<64] addr =
      fold (\<lambda>j a. a(64 * c + j := ram ! j)) [0..<64] addr"
    by (intro fold_cong) simp_all
  with fold_upd_row [of 64 ram "64 * c" addr] assms(2) show ?thesis
    by (simp only: store_row_def LOG_WRITE_BURST_LEN_def WRITE_BACK_BURST_LENGTH_def)
qed

lemma writeBack_loop_row:
  assumes "\<forall>x \<in> set xs. lane 15 x \<noteq> ENDFLAG" "length ram + length xs = 64" "xs \<noteq> []"
  shows "writeBack_loop c ram addr (xs @ ys) = writeBack_loop (c + 1) [] (store_row c (ram @ xs) addr) ys"
  using assms
proof (induction xs arbitrary: ram)
  case (Cons x xs)
  show ?case
  proof (cases "xs = []")
    case True
    with Cons.prems show ?thesis by (simp add: Let_def WRITE_BACK_BURST_LENGTH_def)
  next
    case False
    with Cons.prems have "length (ram @ [x]) \<noteq> 64" by (cases xs) auto
    with Cons.IH [of "ram @ [x]"] Cons.prems False show ?thesis
      by (simp add: Let_def WRITE_BACK_BURST_LENGTH_def)
  qed
qed simp

lemma writeBack_loop_partial:
  assumes "\<forall>x \<in> set xs. lane 15 x \<noteq> ENDFLAG" "length ram + length xs < 64" "lane 15 e = ENDFLAG"
  shows "writeBack_loop c ram addr (xs @ e # ys) = (addr, ys, Returned)"
  using assms by (induction xs arbitrary: ram) (auto simp: Let_def WRITE_BACK_BURST_LENGTH_def)

lemma writeBack_loop_rows:
  assumes "\<forall>x \<in> set xs. lane 15 x \<noteq> ENDFLAG" "length xs = 64 * n + r" "r < 64"
    and "c + n \<le> 2 ^ 26" "lane 15 e = ENDFLAG"
  shows "writeBack_loop (word_of_nat c) [] addr (xs @ e # ys) =
     (\<lambda>t. if 64 * c \<le> t \<and> t < 64 * (c + n) then xs ! (t - 64 * c) else addr t, ys, Returned)"
  using assms
proof (induction n arbitrary: c xs addr)
  case 0
  then show ?case using writeBack_loop_partial [of xs "[]" e _ addr ys] by (auto simp: fun_eq_iff)
next
  case (Suc n)
  have split: "take 64 xs @ drop 64 xs = xs" by simp
  have "\<forall>x \<in> set (take 64 xs). lane 15 x \<noteq> ENDFLAG" "take 64 xs \<noteq> []"
    using Suc.prems by (auto dest: in_set_takeD)
  moreover have l: "length (take 64 xs) = 64" using Suc.prems by simp
  ultimately have "writeBack_loop (word_of_nat c) [] addr (take 64 xs @ drop 64 xs @ e # ys) =
      writeBack_loop (word_of_nat (Suc c)) [] (store_row (word_of_nat c) (take 64 xs) addr) (drop 64 xs @ e # ys)"
    by (subst writeBack_loop_row) (simp_all add: add.commute)
  also have "\<dots> = (\<lambda>t. if 64 * Suc c \<le> t \<and> t < 64 * (Suc c + n) then drop 64 xs ! (t - 64 * Suc c)
        else store_row (word_of_nat c) (take 64 xs) addr t, ys, Returned)"
    using Suc.prems by (intro Suc.IH) (auto dest: in_set_dropD)
  also have "\<dots> = (\<lambda>t. if 64 * c \<le> t \<and> t < 64 * (c + Suc n) then xs ! (t - 64 * c) else addr t, ys, Returned)"
  proof (intro arg_cong2 [where f = Pair] ext refl)
    fix t
    have s: "store_row (word_of_nat c) (take 64 xs) addr t =
        (if 64 * c \<le> t \<and> t < 64 * c + 64 then take 64 xs ! (t - 64 * c) else addr t)"
      using store_row_eq [of c "take 64 xs" addr] l Suc.prems by simp
    show "(if 64 * Suc c \<le> t \<and> t < 64 * (Suc c + n) then drop 64 xs ! (t - 64 * Suc c)
        else store_row (word_of_nat c) (take 64 xs) addr t) =
      (if 64 * c \<le> t \<and> t < 64 * (c + Suc n) then xs ! (t - 64 * c) else addr t)"
    proof (cases "64 * Suc c \<le> t")
      case True
      then obtain d where "t = 64 * Suc c + d" using le_Suc_ex by blast
      then have e: "t - 64 * c = 64 + (t - 64 * Suc c)" "\<not> t < 64 * c + 64" by simp_all
      have "64 \<le> length xs" using Suc.prems by simp
      then have "drop 64 xs ! (t - 64 * Suc c) = xs ! (t - 64 * c)" by (simp only: nth_drop e(1))
      with True e s show ?thesis by simp
    next
      case False
      with s show ?thesis by (simp add: nth_take)
    qed
  qed
  finally show ?case by (simp only: split append_assoc [symmetric])
qed

text \<open>\<open>writeBack\<close> stores the whole rows of the packet and nothing else.\<close>

lemma writeBack_packet:
  assumes "\<forall>x \<in> set xs. lane 15 x \<noteq> ENDFLAG" "length xs < 2 ^ 32" "lane 15 e = ENDFLAG"
  shows "writeBack addr (xs @ e # ys) =
     (\<lambda>t. if t < 64 * (length xs div 64) then xs ! t else addr t, ys, Returned)"
proof -
  have "length xs div 64 \<le> 2 ^ 26" using assms(2) by simp
  with writeBack_loop_rows [of xs "length xs div 64" "length xs mod 64" 0 e addr ys] assms
  have "writeBack_loop 0 [] addr (xs @ e # ys) =
     (\<lambda>t. if t < 64 * (length xs div 64) then xs ! (t - 64 * 0) else addr t, ys, Returned)"
    by simp
  then show ?thesis by (simp only: writeBack_def mult_0_right diff_zero)
qed

end
