(* ===== verification/Decoder.thy ===== *)
theory Decoder
  imports Kernel_Types
begin

text \<open>
  The shuffle decoder (\<open>src/header/fpga_decoder.h\<close>): for an 8-bit opcode, one bit for
  each valid lane, the number of valid lanes and their positions, three bits each, from
  two tables.  The tables hold what the positions of the set bits prescribe.
\<close>

definition lutIdx :: "nat list" where
  "lutIdx = [
    0, 0, 1, 8, 2, 16, 17, 136, 3, 24, 25, 200, 26, 208, 209, 1672, 4, 32, 33, 264, 34, 272,
    273, 2184, 35, 280, 281, 2248, 282, 2256, 2257, 18056, 5, 40, 41, 328, 42, 336, 337, 2696,
    43, 344, 345, 2760, 346, 2768, 2769, 22152, 44, 352, 353, 2824, 354, 2832, 2833, 22664,
    355, 2840, 2841, 22728, 2842, 22736, 22737, 181896, 6, 48, 49, 392, 50, 400, 401, 3208, 51,
    408, 409, 3272, 410, 3280, 3281, 26248, 52, 416, 417, 3336, 418, 3344, 3345, 26760, 419,
    3352, 3353, 26824, 3354, 26832, 26833, 214664, 53, 424, 425, 3400, 426, 3408, 3409, 27272,
    427, 3416, 3417, 27336, 3418, 27344, 27345, 218760, 428, 3424, 3425, 27400, 3426, 27408,
    27409, 219272, 3427, 27416, 27417, 219336, 27418, 219344, 219345, 1754760, 7, 56, 57, 456,
    58, 464, 465, 3720, 59, 472, 473, 3784, 474, 3792, 3793, 30344, 60, 480, 481, 3848, 482,
    3856, 3857, 30856, 483, 3864, 3865, 30920, 3866, 30928, 30929, 247432, 61, 488, 489, 3912,
    490, 3920, 3921, 31368, 491, 3928, 3929, 31432, 3930, 31440, 31441, 251528, 492, 3936,
    3937, 31496, 3938, 31504, 31505, 252040, 3939, 31512, 31513, 252104, 31514, 252112, 252113,
    2016904, 62, 496, 497, 3976, 498, 3984, 3985, 31880, 499, 3992, 3993, 31944, 3994, 31952,
    31953, 255624, 500, 4000, 4001, 32008, 4002, 32016, 32017, 256136, 4003, 32024, 32025,
    256200, 32026, 256208, 256209, 2049672, 501, 4008, 4009, 32072, 4010, 32080, 32081, 256648,
    4011, 32088, 32089, 256712, 32090, 256720, 256721, 2053768, 4012, 32096, 32097, 256776,
    32098, 256784, 256785, 2054280, 32099, 256792, 256793, 2054344, 256794, 2054352, 2054353,
    16434824]"

definition lutNum :: "nat list" where
  "lutNum = [
    0, 1, 1, 2, 1, 2, 2, 3, 1, 2, 2, 3, 2, 3, 3, 4, 1, 2, 2, 3, 2, 3, 3, 4, 2, 3, 3, 4, 3, 4,
    4, 5, 1, 2, 2, 3, 2, 3, 3, 4, 2, 3, 3, 4, 3, 4, 4, 5, 2, 3, 3, 4, 3, 4, 4, 5, 3, 4, 4, 5,
    4, 5, 5, 6, 1, 2, 2, 3, 2, 3, 3, 4, 2, 3, 3, 4, 3, 4, 4, 5, 2, 3, 3, 4, 3, 4, 4, 5, 3, 4,
    4, 5, 4, 5, 5, 6, 2, 3, 3, 4, 3, 4, 4, 5, 3, 4, 4, 5, 4, 5, 5, 6, 3, 4, 4, 5, 4, 5, 5, 6,
    4, 5, 5, 6, 5, 6, 6, 7, 1, 2, 2, 3, 2, 3, 3, 4, 2, 3, 3, 4, 3, 4, 4, 5, 2, 3, 3, 4, 3, 4,
    4, 5, 3, 4, 4, 5, 4, 5, 5, 6, 2, 3, 3, 4, 3, 4, 4, 5, 3, 4, 4, 5, 4, 5, 5, 6, 3, 4, 4, 5,
    4, 5, 5, 6, 4, 5, 5, 6, 5, 6, 6, 7, 2, 3, 3, 4, 3, 4, 4, 5, 3, 4, 4, 5, 4, 5, 5, 6, 3, 4,
    4, 5, 4, 5, 5, 6, 4, 5, 5, 6, 5, 6, 6, 7, 3, 4, 4, 5, 4, 5, 5, 6, 4, 5, 5, 6, 5, 6, 6, 7,
    4, 5, 5, 6, 5, 6, 6, 7, 5, 6, 6, 7, 6, 7, 7, 8]"
definition shuffleDecoder :: "u8 \<Rightarrow> shuffled" where
  "shuffleDecoder opcode =
     \<lparr>sh_num = word_of_nat (lutNum ! unat opcode), sh_idx = word_of_nat (lutIdx ! unat opcode)\<rparr>"

section \<open>What the tables mean\<close>

text \<open>The positions of the set bits, and their packing in three bits each.\<close>

definition positions :: "nat \<Rightarrow> nat list" where
  "positions k = filter (\<lambda>j. odd (k div 2 ^ j)) [0..<8]"

fun pack3 :: "nat list \<Rightarrow> nat" where
  "pack3 [] = 0"
| "pack3 (p # ps) = p + 8 * pack3 ps"

lemma upt8: "[0..<8] = [0, 1, 2, 3, 4, 5, 6, 7::nat]"
  by (simp add: upt_rec)

text \<open>Running along a table with its index.\<close>

fun table_ok :: "(nat \<Rightarrow> nat) \<Rightarrow> nat \<Rightarrow> nat list \<Rightarrow> bool" where
  "table_ok f k [] \<longleftrightarrow> True"
| "table_ok f k (x # xs) \<longleftrightarrow> x = f k \<and> table_ok f (k + 1) xs"

lemma table_ok_nth: "table_ok f k xs \<Longrightarrow> n < length xs \<Longrightarrow> xs ! n = f (k + n)"
  by (induction xs arbitrary: k n) (auto simp: nth_Cons split: nat.splits)

lemma positions_eval:
  "positions k = (if odd k then [0] else []) @ (if odd (k div 2) then [1] else []) @
     (if odd (k div 4) then [2] else []) @ (if odd (k div 8) then [3] else []) @
     (if odd (k div 16) then [4] else []) @ (if odd (k div 32) then [5] else []) @
     (if odd (k div 64) then [6] else []) @ (if odd (k div 128) then [7] else [])"
  by (simp add: positions_def upt8)

lemma lutNum_table: "table_ok (\<lambda>k. length (positions k)) 0 lutNum"
  by (simp add: lutNum_def positions_eval)

lemma lutIdx_table: "table_ok (\<lambda>k. pack3 (positions k)) 0 lutIdx"
  by (simp add: lutIdx_def positions_eval)

lemma lut_length: "length lutNum = 256" "length lutIdx = 256"
  by (simp_all add: lutNum_def lutIdx_def)

lemma lutNum_positions: "k < 256 \<Longrightarrow> lutNum ! k = length (positions k)"
  using table_ok_nth [OF lutNum_table, of k] by (simp add: lut_length)

lemma lutIdx_positions: "k < 256 \<Longrightarrow> lutIdx ! k = pack3 (positions k)"
  using table_ok_nth [OF lutIdx_table, of k] by (simp add: lut_length)

lemma pack3_digit: "\<forall>p \<in> set ps. p < 8 \<Longrightarrow> j < length ps \<Longrightarrow> pack3 ps div 8 ^ j mod 8 = ps ! j"
proof (induction ps arbitrary: j)
  case (Cons p ps)
  show ?case
  proof (cases j)
    case 0
    with Cons.prems show ?thesis by simp
  next
    case (Suc i)
    have "(p + 8 * pack3 ps) div 8 = pack3 ps" using Cons.prems by simp
    then have "(p + 8 * pack3 ps) div 8 ^ Suc i = pack3 ps div 8 ^ i"
      by (simp only: power_Suc div_mult2_eq)
    with Cons Suc show ?thesis by simp
  qed
qed simp

lemma pack3_less: "\<forall>p \<in> set ps. p < 8 \<Longrightarrow> pack3 ps < 8 ^ length ps"
  by (induction ps) auto

lemma positions_less: "p \<in> set (positions k) \<Longrightarrow> p < 8"
  by (simp add: positions_def)

lemma length_positions: "length (positions k) \<le> 8"
  unfolding positions_def using length_filter_le [of _ "[0..<8]"] by (simp add: upt8)

text \<open>The decoder on an opcode: how many lanes, and the lane in each three-bit field.\<close>

lemma shuffleDecoder_num: "unat (sh_num (shuffleDecoder opc)) = length (positions (unat opc))"
proof -
  have "unat opc < 256" using unsigned_less [of opc] by simp
  then have "sh_num (shuffleDecoder opc) = word_of_nat (length (positions (unat opc)))"
    by (simp add: shuffleDecoder_def lutNum_positions)
  with length_positions [of "unat opc"] show ?thesis by (simp only:, intro unat_of_nat_small) simp
qed

lemma shuffleDecoder_idx:
  assumes "j < length (positions (unat opc))"
  shows "unat (rng (3 * j) (sh_idx (shuffleDecoder opc)) :: 3 word) = positions (unat opc) ! j"
proof -
  let ?ps = "positions (unat opc)"
  have o: "unat opc < 256" using unsigned_less [of opc] by simp
  have "pack3 ?ps < 8 ^ length ?ps" by (simp add: pack3_less positions_less)
  also have "\<dots> \<le> 8 ^ 8" by (intro power_increasing length_positions) simp
  finally have s: "pack3 ?ps < 2 ^ 32" by simp
  have u: "unat (sh_idx (shuffleDecoder opc)) = pack3 ?ps"
  proof -
    have "unat (word_of_nat (pack3 ?ps) :: u32) = pack3 ?ps"
      by (rule unat_of_nat_small) (use s in simp)
    with o show ?thesis by (simp add: shuffleDecoder_def lutIdx_positions)
  qed
  have "unat (rng (3 * j) (sh_idx (shuffleDecoder opc)) :: 3 word) =
      take_bit 3 (drop_bit (3 * j) (pack3 ?ps))"
    by (simp only: rng_def unsigned_ucast_eq unat_drop_bit_eq u) simp
  also have "\<dots> = pack3 ?ps div 8 ^ j mod 8"
    by (simp add: take_bit_eq_mod drop_bit_eq_div power_mult)
  also have "\<dots> = ?ps ! j"
    using assms by (intro pack3_digit) (simp_all add: positions_less)
  finally show ?thesis .
qed

end
