(* ===== verification/Streams.thy ===== *)
theory Streams
  imports Kernel_Types
begin

text \<open>
  The kernels that only move tokens: \<open>src/stream_operation.h\<close>, the slices and
  duplicators of \<open>src/header/fpga_slice.h\<close>, the fork \<open>test_duplicate_512\<close>, and the
  draining loops of \<open>src/graph_fpga.h\<close>.  Each is an instance of the interface
  \<open>token_kernel\<close>.  Loops that poll with \<open>read_nb\<close> take the outcomes of the polls; they
  are shown to do what the blocking loop does.
\<close>

section \<open>Polling loops\<close>

text \<open>
  One element per poll: \<open>None\<close> when the FIFO was empty, \<open>Some x\<close> when a token was read.
\<close>

fun poll_loop :: "('s \<Rightarrow> 'i \<Rightarrow> 's \<times> 'o list \<times> bool) \<Rightarrow> 's \<Rightarrow> 'i option list \<Rightarrow>
  's \<times> 'o list \<times> 'i option list \<times> status" where
  "poll_loop f s [] = (s, [], [], Blocked)"
| "poll_loop f s (None # ps) = poll_loop f s ps"
| "poll_loop f s (Some x # ps) =
     (case f s x of (s', os, stop) \<Rightarrow>
        if stop then (s', os, ps, Returned)
        else (case poll_loop f s' ps of (s'', os', rest, st) \<Rightarrow> (s'', os @ os', rest, st)))"

definition arrived :: "'i option list \<Rightarrow> 'i list" where
  "arrived ps = map the (filter (\<lambda>p. p \<noteq> None) ps)"

lemma arrived_simps [simp]:
  "arrived [] = []" "arrived (None # ps) = arrived ps" "arrived (Some x # ps) = x # arrived ps"
  by (simp_all add: arrived_def)

lemma arrived_Some [simp]: "arrived (map Some xs) = xs"
  by (induction xs) simp_all

lemma arrived_append [simp]: "arrived (ps @ qs) = arrived ps @ arrived qs"
  by (simp add: arrived_def)

lemma arrived_Nones [simp]: "arrived (replicate n None) = []"
  by (simp add: arrived_def)

text \<open>The moments at which tokens arrive do not matter to a polling loop.\<close>

lemma poll_loop_read_loop:
  "read_loop f s (arrived ps) =
     (case poll_loop f s ps of (s', os, rest, st) \<Rightarrow> (s', os, arrived rest, st))"
  by (induction f s ps rule: poll_loop.induct) (auto split: prod.splits)

section \<open>Draining a stream\<close>

definition CLEAR_CYCLE :: nat where "CLEAR_CYCLE = 256"

text \<open>The result: the tokens thrown away, the polls that follow, and whether it returned.\<close>

fun clear_stream_loop :: "nat \<Rightarrow> 'a option list \<Rightarrow> 'a list \<times> 'a option list \<times> status" where
  "clear_stream_loop c [] = ([], [], Blocked)"
| "clear_stream_loop c (p # ps) =
     (let c' = (case p of None \<Rightarrow> c + 1 | Some _ \<Rightarrow> c);
          d = (case p of None \<Rightarrow> [] | Some x \<Rightarrow> [x])
      in if CLEAR_CYCLE < c' then (d, ps, Returned)
         else (case clear_stream_loop c' ps of (ds, rest, st) \<Rightarrow> (d @ ds, rest, st)))"

definition clear_stream :: "'a option list \<Rightarrow> 'a list \<times> 'a option list \<times> status" where
  "clear_stream ps = clear_stream_loop 0 ps"

fun empty_stream_loop :: "nat \<Rightarrow> 'a option list \<Rightarrow> 'a list \<times> 'a option list \<times> status" where
  "empty_stream_loop c [] = ([], [], Blocked)"
| "empty_stream_loop c (p # ps) =
     (let c' = (case p of None \<Rightarrow> c + 1 | Some _ \<Rightarrow> 0);
          d = (case p of None \<Rightarrow> [] | Some x \<Rightarrow> [x])
      in if 4096 < c' then (d, ps, Returned)
         else (case empty_stream_loop c' ps of (ds, rest, st) \<Rightarrow> (d @ ds, rest, st)))"

definition empty_stream :: "'a option list \<Rightarrow> 'a list \<times> 'a option list \<times> status" where
  "empty_stream ps = empty_stream_loop 0 ps"

lemma clear_stream_loop_spec:
  assumes "c \<le> CLEAR_CYCLE"
  shows "case clear_stream_loop c ps of (ds, rest, st) \<Rightarrow>
    (\<exists>seen. ps = seen @ rest \<and> ds = arrived seen \<and>
       (st = Returned \<longrightarrow> count_list seen None = CLEAR_CYCLE + 1 - c \<and> last seen = None) \<and>
       (st = Blocked \<longrightarrow> rest = [] \<and> count_list seen None \<le> CLEAR_CYCLE - c))"
  using assms
proof (induction c ps rule: clear_stream_loop.induct)
  case (1 c)
  then show ?case by simp
next
  case (2 c p ps)
  let ?c = "case p of None \<Rightarrow> c + 1 | Some _ \<Rightarrow> c"
  obtain ds rest st where e: "clear_stream_loop ?c ps = (ds, rest, st)"
    by (metis prod_cases3)
  show ?case
  proof (cases "CLEAR_CYCLE < ?c")
    case True
    with "2.prems" have "p = None" "c = CLEAR_CYCLE" by (auto split: option.splits)
    then show ?thesis by (auto simp: Let_def intro: exI [of _ "[None]"])
  next
    case False
    with "2.IH" [OF refl refl] e obtain seen where seen: "ps = seen @ rest" "ds = arrived seen"
      "st = Returned \<longrightarrow> count_list seen None = CLEAR_CYCLE + 1 - ?c \<and> last seen = None"
      "st = Blocked \<longrightarrow> rest = [] \<and> count_list seen None \<le> CLEAR_CYCLE - ?c"
      by auto
    have "st = Returned \<longrightarrow> seen \<noteq> []"
      using seen(3) False by auto
    with seen False e 2 show ?thesis
      by (auto simp: Let_def split: option.splits intro!: exI [of _ "p # seen"])
  qed
qed

text \<open>All that is in the FIFO when the draining starts, and stays empty after, is thrown away.\<close>

lemma clear_stream_loop_idle:
  assumes "c + n = CLEAR_CYCLE + 1" "0 < n"
  shows "clear_stream_loop c (replicate n None @ rest) = ([], rest, Returned)"
  using assms
proof (induction n arbitrary: c)
  case 0
  then show ?case by simp
next
  case (Suc n)
  then show ?case by (cases n) simp_all
qed

lemma clear_stream_drains:
  "clear_stream (map Some xs @ replicate (CLEAR_CYCLE + 1) None @ rest) = (xs, rest, Returned)"
proof -
  have "c \<le> CLEAR_CYCLE \<Longrightarrow> clear_stream_loop c (map Some xs @ ps) =
      (xs @ fst (clear_stream_loop c ps), snd (clear_stream_loop c ps))" for c ps
    by (induction xs) (auto split: prod.splits)
  then have "clear_stream_loop 0 (map Some xs @ ps) =
      (xs @ fst (clear_stream_loop 0 ps), snd (clear_stream_loop 0 ps))" for ps
    by simp
  with clear_stream_loop_idle [of 0 "CLEAR_CYCLE + 1" rest] show ?thesis
    by (simp add: clear_stream_def)
qed

text \<open>
  The drain at the end of a kernel: the tokens left over are in the FIFO, nothing follows.
  What is left over is gone afterwards.
\<close>

definition clear_rest :: "'a list \<Rightarrow> 'a list" where
  "clear_rest xs = arrived (fst (snd (clear_stream (map Some xs @ replicate (CLEAR_CYCLE + 1) None))))"

lemma clear_rest_Nil [simp]: "clear_rest xs = []"
  using clear_stream_drains [of xs "[]"] by (simp add: clear_rest_def)

section \<open>Kernels of \<open>stream_operation.h\<close>\<close>

definition sink_stream :: "'t list \<Rightarrow> 't list \<times> 't list \<times> status" where
  "sink_stream = token_loop (\<lambda>data. ([], False))"

definition pad :: "'t list \<Rightarrow> 't list \<times> 't list \<times> status" where
  "pad = token_loop (\<lambda>data. ([data], False))"

definition stream_duplicator :: "'t list \<Rightarrow> (nat \<times> 't) list \<times> 't list \<times> status" where
  "stream_duplicator = token_loop (\<lambda>data. ([(1, data), (2, data)], False))"

definition axis_to_hls_stream :: "'d axis list \<Rightarrow> 'd list \<times> 'd axis list \<times> status" where
  "axis_to_hls_stream = token_loop (\<lambda>sdata. ([ax_data sdata], False))"

text \<open>Only \<open>data\<close> is assigned; the other fields keep what the fresh \<open>pkg\<close> holds.\<close>

definition hls_to_axis_stream :: "'d axis \<Rightarrow> 'd list \<Rightarrow> 'd axis list \<times> 'd list \<times> status" where
  "hls_to_axis_stream fresh = token_loop (\<lambda>data. ([fresh\<lparr>ax_data := data\<rparr>], False))"

definition frp_sink_stream :: "'d frp option list \<Rightarrow> unit \<times> unit list \<times> 'd frp option list \<times> status" where
  "frp_sink_stream = poll_loop (\<lambda>_ data. ((), [], frp_last data)) ()"

definition frp_pad_stream :: "'d frp option list \<Rightarrow> unit \<times> 'd frp list \<times> 'd frp option list \<times> status" where
  "frp_pad_stream = poll_loop (\<lambda>_ data. ((), [data], frp_last data)) ()"

definition axis_to_frp_stream :: "'d axis list \<Rightarrow> 'd frp list \<times> 'd axis list \<times> status" where
  "axis_to_frp_stream = token_loop (\<lambda>pkg.
     ([\<lparr>frp_data = ax_data pkg, frp_last = ax_last pkg\<rparr>], ax_last pkg))"

definition frp_to_axis_stream :: "'d frp list \<Rightarrow> 'd axis list \<times> 'd frp list \<times> status" where
  "frp_to_axis_stream = token_loop (\<lambda>item.
     ([\<lparr>ax_data = frp_data item, ax_last = frp_last item\<rparr>], frp_last item))"

definition free_run_axis_to_frp_stream :: "'d axis list \<Rightarrow> 'd frp list \<times> 'd axis list \<times> status" where
  "free_run_axis_to_frp_stream = token_loop (\<lambda>pkg.
     ([\<lparr>frp_data = ax_data pkg, frp_last = ax_last pkg\<rparr>], False))"

definition free_run_frp_to_axis_stream :: "'d frp list \<Rightarrow> 'd axis list \<times> 'd frp list \<times> status" where
  "free_run_frp_to_axis_stream = token_loop (\<lambda>item.
     ([\<lparr>ax_data = frp_data item, ax_last = frp_last item\<rparr>], False))"

definition free_run_frp_sink_stream :: "'d frp list \<Rightarrow> 'd frp list \<times> 'd frp list \<times> status" where
  "free_run_frp_sink_stream = token_loop (\<lambda>data. ([], False))"

definition free_run_frp_pad_stream :: "'d frp list \<Rightarrow> 'd frp list \<times> 'd frp list \<times> status" where
  "free_run_frp_pad_stream = token_loop (\<lambda>data. ([data], False))"

interpretation a2f: token_kernel axis_to_frp_stream
  "\<lambda>pkg. [\<lparr>frp_data = ax_data pkg, frp_last = ax_last pkg\<rparr>]" ax_last
  by unfold_locales (auto simp: axis_to_frp_stream_def split: prod.splits)

interpretation f2a: token_kernel frp_to_axis_stream
  "\<lambda>item. [\<lparr>ax_data = frp_data item, ax_last = frp_last item\<rparr>]" frp_last
  by unfold_locales (auto simp: frp_to_axis_stream_def split: prod.splits)

section \<open>Slices and duplicators\<close>

text \<open>The template parameter \<open>T\<close> has a field \<open>flag\<close>: the selector is an argument.\<close>

definition sliceStream :: "('t \<Rightarrow> bool) \<Rightarrow> 't list \<Rightarrow> 't list \<times> 't list \<times> status" where
  "sliceStream flag = token_loop (\<lambda>unit. ([unit], flag unit))"

definition duplicateStream2 :: "'w::len word list \<Rightarrow> (nat \<times> 'w word) list \<times> 'w word list \<times> status" where
  "duplicateStream2 = token_loop (\<lambda>unit. ([(1, unit), (2, unit)], (rng 0 unit :: u32) = ENDFLAG))"

definition duplicateStream4 :: "('t \<Rightarrow> bool) \<Rightarrow> 't list \<Rightarrow> (nat \<times> 't) list \<times> 't list \<times> status" where
  "duplicateStream4 flag = token_loop (\<lambda>unit. ([(1, unit), (2, unit), (3, unit), (4, unit)], flag unit))"

definition duplicateStream4WithClear :: "('t \<Rightarrow> bool) \<Rightarrow> 't list \<Rightarrow> (nat \<times> 't) list \<times> 't list \<times> status" where
  "duplicateStream4WithClear flag =
     token_loop (\<lambda>unit. ([(1, unit), (2, unit), (3, unit), (4, unit)], flag unit))"

definition processEdgesBuildSlice :: "int2_token list \<Rightarrow> int2_token list \<times> int2_token list \<times> status" where
  "processEdgesBuildSlice = token_loop (\<lambda>tmp_data. ([tmp_data], it_flag tmp_data))"

definition filterSlice :: "filter_type list \<Rightarrow> filter_type list \<times> filter_type list \<times> status" where
  "filterSlice = token_loop (\<lambda>tmp. ([tmp], ft_end tmp))"

text \<open>A counted copy: \<open>MAX_VERTICES_IN_ONE_PARTITION >> (LOG2_PE_NUM + 1)\<close> words.\<close>

fun copy_count :: "nat \<Rightarrow> 't list \<Rightarrow> 't list \<times> 't list \<times> status" where
  "copy_count 0 xs = ([], xs, Returned)"
| "copy_count (Suc n) [] = ([], [], Blocked)"
| "copy_count (Suc n) (x # xs) = (case copy_count n xs of (os, rest, st) \<Rightarrow> (x # os, rest, st))"

definition processEdgesSlice :: "nat \<Rightarrow> u64 list \<Rightarrow> u64 list \<times> u64 list \<times> status" where
  "processEdgesSlice N = copy_count (N div 2 ^ (LOG2_PE_NUM + 1))"

lemma copy_count_enough: "n \<le> length xs \<Longrightarrow> copy_count n xs = (take n xs, drop n xs, Returned)"
  by (induction n xs rule: copy_count.induct) auto

interpretation sl: token_kernel "sliceStream flag" "\<lambda>u. [u]" flag for flag
  by unfold_locales (auto simp: sliceStream_def split: prod.splits)

interpretation pebs: token_kernel processEdgesBuildSlice "\<lambda>u. [u]" it_flag
  by unfold_locales (auto simp: processEdgesBuildSlice_def split: prod.splits)

interpretation fsl: token_kernel filterSlice "\<lambda>u. [u]" ft_end
  by unfold_locales (auto simp: filterSlice_def split: prod.splits)

interpretation d4: token_kernel "duplicateStream4 flag" "\<lambda>u. [(1, u), (2, u), (3, u), (4, u)]" flag for flag
  by unfold_locales (auto simp: duplicateStream4_def split: prod.splits)

interpretation d2: token_kernel duplicateStream2 "\<lambda>u. [(1, u), (2, u)]" "\<lambda>u. (rng 0 u :: u32) = ENDFLAG"
  by unfold_locales (auto simp: duplicateStream2_def split: prod.splits)

text \<open>A slice hands a packet on as it is and leaves what follows the packet in the FIFO.\<close>

lemma filterSlice_packet:
  "\<forall>x \<in> set xs. \<not> ft_end x \<Longrightarrow> ft_end e \<Longrightarrow> filterSlice (xs @ e # rest) = (xs @ [e], rest, Returned)"
  by (simp add: fsl.kernel_packet)

lemma processEdgesBuildSlice_packet:
  "\<forall>x \<in> set xs. \<not> it_flag x \<Longrightarrow> it_flag e \<Longrightarrow>
   processEdgesBuildSlice (xs @ e # rest) = (xs @ [e], rest, Returned)"
  by (simp add: pebs.kernel_packet)

section \<open>The fork between a gather-scatter kernel and its cache\<close>

definition test_duplicate_512 :: "sv_pkg option list \<Rightarrow> unit \<times> (nat \<times> sv_pkg) list \<times> sv_pkg option list \<times> status" where
  "test_duplicate_512 = poll_loop (\<lambda>_ pkg. ((), [(1, pkg), (2, pkg)], False)) ()"

lemma test_duplicate_512_ports:
  "port 1 (fst (snd (test_duplicate_512 ps))) = arrived ps \<and>
   port 2 (fst (snd (test_duplicate_512 ps))) = arrived ps"
proof -
  have "port 1 (fst (snd (poll_loop (\<lambda>_ pkg. ((), [(1, pkg), (2, pkg)], False)) () ps))) = arrived ps \<and>
      port 2 (fst (snd (poll_loop (\<lambda>_ pkg. ((), [(1, pkg), (2, pkg)], False)) () ps))) = arrived ps"
  proof (induction ps)
    case (Cons p ps)
    then show ?case by (cases p) (auto simp: stream_simps split: prod.splits)
  qed (simp add: stream_simps)
  then show ?thesis by (simp add: test_duplicate_512_def)
qed

end
