(* ===== verification/Apps.thy ===== *)
theory Apps
  imports Prelude "HOL-Library.Signed_Division"
begin

text \<open>
  The user functions of the three applications (\<open>src/pr/l2.h\<close>, \<open>src/wcc/l2.h\<close>,
  \<open>src/bfs/l2.h\<close>) and the header that picks one (\<open>src/header/fpga_application.h\<close>).
  The kernels are parameterised by an \<open>app\<close>, the record of these functions.  The locale
  \<open>gather_algebra\<close> states what the framework needs of \<open>gatherFunc\<close> so that the order in
  which edges arrive, and the way partial results of the gather kernels are merged, do
  not matter; each application's \<open>gatherFunc\<close> is an interpretation of it.
\<close>

text \<open>
  \<open>prop_t\<close> is \<open>int\<close>: a 32-bit word read with \<open>sint\<close>; \<open>>>\<close> on it is the arithmetic
  shift \<open>signed_drop_bit\<close>.  \<open>applyFunc\<close> gets the array \<open>extra\<close> (one element) by
  reference: its content before the call is an argument, its content after it a result.
\<close>

record app =
  preprocessProperty :: "u32 \<Rightarrow> u32"
  scatterFunc :: "u32 \<Rightarrow> u32 \<Rightarrow> u32"
  gatherFunc :: "u32 \<Rightarrow> u32 \<Rightarrow> u32"
  applyFunc :: "u32 \<Rightarrow> u32 \<Rightarrow> u32 \<Rightarrow> u32 \<Rightarrow> u32 \<Rightarrow> u32 \<times> u32"
  is_active :: "u32 \<Rightarrow> bool"

section \<open>PageRank\<close>

definition kDampFixPoint :: u32 where "kDampFixPoint = 108"

definition pr_gather :: "u32 \<Rightarrow> u32 \<Rightarrow> u32" where
  "pr_gather ori update = ori + update"

definition pr_apply :: "u32 \<Rightarrow> u32 \<Rightarrow> u32 \<Rightarrow> u32 \<Rightarrow> u32 \<Rightarrow> u32 \<times> u32" where
  "pr_apply tProp source outDeg extra arg =
     (let old_score = source;
          new_score = arg + signed_drop_bit 7 (kDampFixPoint * tProp);
          tmp = (if outDeg \<noteq> 0 then word_of_int ((2 ^ 16) sdiv (sint outDeg)) else 0);
          update = signed_drop_bit 16 (new_score * tmp);
          extra' = (if 0 < sint (new_score - old_score) then new_score - old_score
                    else old_score - new_score)
      in (update, extra'))"

definition pr_app :: app where
  "pr_app = \<lparr>preprocessProperty = (\<lambda>srcProp. srcProp), scatterFunc = (\<lambda>srcProp edgeProp. srcProp),
     gatherFunc = pr_gather, applyFunc = pr_apply, is_active = (\<lambda>_. True)\<rparr>"

section \<open>Weakly connected components\<close>

definition wcc_gather :: "u32 \<Rightarrow> u32 \<Rightarrow> u32" where
  "wcc_gather ori update = (if sint update > sint ori then update else ori)"

definition wcc_apply :: "u32 \<Rightarrow> u32 \<Rightarrow> u32 \<Rightarrow> u32 \<Rightarrow> u32 \<Rightarrow> u32 \<times> u32" where
  "wcc_apply tProp source outDeg extra arg = (tProp, extra)"

definition wcc_app :: app where
  "wcc_app = \<lparr>preprocessProperty = (\<lambda>srcProp. srcProp), scatterFunc = (\<lambda>srcProp edgeProp. srcProp),
     gatherFunc = wcc_gather, applyFunc = wcc_apply, is_active = (\<lambda>_. True)\<rparr>"

section \<open>Breadth-first search\<close>

definition VERTEX_ACTIVE_BIT_MASK :: u32 where "VERTEX_ACTIVE_BIT_MASK = 0x80000000"
definition MAX_PROP :: u32 where "MAX_PROP = 0x7ffffffe"

definition bfs_is_active :: "u32 \<Rightarrow> bool" where
  "bfs_is_active a = (a AND VERTEX_ACTIVE_BIT_MASK = VERTEX_ACTIVE_BIT_MASK)"

definition bfs_preprocess :: "u32 \<Rightarrow> u32" where
  "bfs_preprocess srcProp = srcProp + 1"

text \<open>The mask is an \<open>unsigned int\<close>, so the comparison of the masked values is unsigned.\<close>

definition bfs_gather :: "u32 \<Rightarrow> u32 \<Rightarrow> u32" where
  "bfs_gather ori update =
     (if (ori AND NOT VERTEX_ACTIVE_BIT_MASK > update AND NOT VERTEX_ACTIVE_BIT_MASK \<and> update \<noteq> 0)
         \<or> ori = 0
      then update else ori)"

definition bfs_apply :: "u32 \<Rightarrow> u32 \<Rightarrow> u32 \<Rightarrow> u32 \<Rightarrow> u32 \<Rightarrow> u32 \<times> u32" where
  "bfs_apply tProp source outDeg extra arg =
     (let uProp = source
      in if tProp AND VERTEX_ACTIVE_BIT_MASK = VERTEX_ACTIVE_BIT_MASK \<and> uProp = MAX_PROP
         then (tProp, 1)
         else (uProp AND 0x7fffffff, 0))"

definition bfs_app :: app where
  "bfs_app = \<lparr>preprocessProperty = bfs_preprocess, scatterFunc = (\<lambda>srcProp edgeProp. srcProp),
     gatherFunc = bfs_gather, applyFunc = bfs_apply, is_active = bfs_is_active\<rparr>"

section \<open>Choosing the application\<close>

text \<open>
  \<open>#if TYPE == bfs\<close> compares preprocessing numbers: a macro is expanded, and an
  identifier that is no macro is 0.
\<close>

datatype pp_tok = Ident string | Num int

definition pp_eval :: "(string \<Rightarrow> pp_tok option) \<Rightarrow> string \<Rightarrow> int" where
  "pp_eval defs s =
     (case defs s of
        None \<Rightarrow> 0
      | Some (Num n) \<Rightarrow> n
      | Some (Ident t) \<Rightarrow>
          (case defs t of Some (Num n) \<Rightarrow> n | _ \<Rightarrow> 0))"

definition fpga_application :: "(string \<Rightarrow> pp_tok option) \<Rightarrow> app" where
  "fpga_application defs =
     (if pp_eval defs ''TYPE'' = pp_eval defs ''bfs'' then bfs_app
      else if pp_eval defs ''TYPE'' = pp_eval defs ''wcc'' then wcc_app
      else pr_app)"

text \<open>The stages of \<open>fpga_application.h\<close> in terms of the user functions.\<close>

definition PROP_COMPUTE_STAGE0 :: "app \<Rightarrow> u32 \<Rightarrow> u32" where
  "PROP_COMPUTE_STAGE0 a srcProp = preprocessProperty a srcProp"

definition PROP_COMPUTE_STAGE1 :: "app \<Rightarrow> u32 \<Rightarrow> u32 \<Rightarrow> u32" where
  "PROP_COMPUTE_STAGE1 a srcProp edgeProp = scatterFunc a srcProp edgeProp"

definition PROP_COMPUTE_STAGE2 :: "app \<Rightarrow> u32 \<Rightarrow> u32 \<Rightarrow> u32" where
  "PROP_COMPUTE_STAGE2 a ori update = gatherFunc a ori update"

definition PROP_COMPUTE_STAGE3 :: "app \<Rightarrow> u32 \<Rightarrow> u32 \<Rightarrow> u32" where
  "PROP_COMPUTE_STAGE3 a ori update = gatherFunc a ori update"

definition PROP_COMPUTE_STAGE4 :: "app \<Rightarrow> u32 \<Rightarrow> u32 \<Rightarrow> u32" where
  "PROP_COMPUTE_STAGE4 a ori update = gatherFunc a ori update"

lemmas stage_defs = PROP_COMPUTE_STAGE0_def PROP_COMPUTE_STAGE1_def PROP_COMPUTE_STAGE2_def
  PROP_COMPUTE_STAGE3_def PROP_COMPUTE_STAGE4_def

section \<open>What the framework needs of \<open>gatherFunc\<close>\<close>

text \<open>
  A destination cell starts at 0 and takes in its updates one by one, in arrival order.
\<close>

definition gather_all :: "(u32 \<Rightarrow> u32 \<Rightarrow> u32) \<Rightarrow> u32 list \<Rightarrow> u32" where
  "gather_all g us = foldl g 0 us"

lemma gather_all_Nil [simp]: "gather_all g [] = 0"
  by (simp add: gather_all_def)

lemma gather_all_snoc: "gather_all g (us @ [u]) = g (gather_all g us) u"
  by (simp add: gather_all_def)

locale gather_algebra =
  fixes g :: "u32 \<Rightarrow> u32 \<Rightarrow> u32" and ok :: "u32 \<Rightarrow> bool"
  assumes ok_zero: "ok 0"
    and ok_g: "ok a \<Longrightarrow> ok b \<Longrightarrow> ok (g a b)"
    and g_zero: "ok b \<Longrightarrow> g 0 b = b"
    and g_comm: "ok a \<Longrightarrow> ok b \<Longrightarrow> g a b = g b a"
    and g_assoc: "ok a \<Longrightarrow> ok b \<Longrightarrow> ok c \<Longrightarrow> g (g a b) c = g a (g b c)"
begin

lemma ok_foldl: "ok a \<Longrightarrow> \<forall>u \<in> set us. ok u \<Longrightarrow> ok (foldl g a us)"
  by (induction us arbitrary: a) (auto intro: ok_g)

lemma ok_gather_all: "\<forall>u \<in> set us. ok u \<Longrightarrow> ok (gather_all g us)"
  by (simp add: gather_all_def ok_foldl ok_zero)

lemma foldl_pull:
  "ok a \<Longrightarrow> ok b \<Longrightarrow> \<forall>u \<in> set us. ok u \<Longrightarrow> foldl g (g a b) us = g a (foldl g b us)"
  by (induction us arbitrary: b) (auto simp: g_assoc ok_g)

lemma foldl_start: "ok a \<Longrightarrow> \<forall>u \<in> set us. ok u \<Longrightarrow> foldl g a us = g a (gather_all g us)"
  using foldl_pull [of a 0 us] by (simp add: gather_all_def ok_zero g_zero g_comm [of a 0])

lemma gather_append:
  assumes "\<forall>u \<in> set us. ok u" "\<forall>v \<in> set vs. ok v"
  shows "gather_all g (us @ vs) = g (gather_all g us) (gather_all g vs)"
proof -
  have "gather_all g (us @ vs) = foldl g (gather_all g us) vs"
    by (simp add: gather_all_def)
  with foldl_start [OF ok_gather_all [OF assms(1)] assms(2)] show ?thesis by simp
qed

lemma gather_insert:
  assumes "ok u" "\<forall>v \<in> set vs. ok v"
  shows "gather_all g (u # vs) = g u (gather_all g vs)"
  using assms foldl_start [of u vs] by (simp add: gather_all_def g_zero)

lemma gather_remove1:
  assumes "u \<in> set vs" "\<forall>v \<in> set vs. ok v"
  shows "gather_all g vs = g u (gather_all g (remove1 u vs))"
  using assms
proof (induction vs)
  case Nil
  then show ?case by simp
next
  case (Cons v vs)
  have okr: "\<forall>w \<in> set (remove1 u vs). ok w"
    using Cons.prems(2) by (auto dest: notin_set_remove1 [rotated] set_remove1_subset [THEN subsetD])
  show ?case
  proof (cases "u = v")
    case True
    with Cons.prems show ?thesis by (simp add: gather_insert)
  next
    case False
    with Cons.prems Cons.IH have e: "gather_all g vs = g u (gather_all g (remove1 u vs))"
      by simp
    have o: "ok u" "ok v" "ok (gather_all g (remove1 u vs))"
      using Cons.prems okr by (auto intro: ok_gather_all)
    have "gather_all g (v # vs) = g v (g u (gather_all g (remove1 u vs)))"
      using Cons.prems e by (simp add: gather_insert)
    also have "\<dots> = g u (g v (gather_all g (remove1 u vs)))"
      using o by (metis g_assoc g_comm)
    also have "\<dots> = g u (gather_all g (v # remove1 u vs))"
      using o okr by (simp add: gather_insert)
    finally show ?thesis using False by simp
  qed
qed

lemma gather_perm:
  assumes "mset us = mset vs" "\<forall>u \<in> set us. ok u"
  shows "gather_all g us = gather_all g vs"
  using assms
proof (induction us arbitrary: vs)
  case Nil
  then show ?case by simp
next
  case (Cons u us)
  have u: "u \<in> set vs" using Cons.prems(1) by (metis list.set_intros(1) mset_eq_setD)
  have vs: "\<forall>v \<in> set vs. ok v" using Cons.prems by (metis mset_eq_setD)
  have "mset us = mset (remove1 u vs)"
    using Cons.prems(1) by (metis add_mset_remove_trivial mset.simps(2) mset_remove1)
  with Cons have "gather_all g us = gather_all g (remove1 u vs)" by simp
  with Cons.prems(2) gather_remove1 [OF u vs] show ?case by (simp add: gather_insert)
qed

end

subsection \<open>The three applications satisfy the laws\<close>

interpretation pr_alg: gather_algebra pr_gather "\<lambda>_. True"
  by unfold_locales (auto simp: pr_gather_def algebra_simps)

text \<open>WCC gathers the maximum; 0 is neutral for labels that are not negative.\<close>

definition wcc_ok :: "u32 \<Rightarrow> bool" where
  "wcc_ok u \<longleftrightarrow> 0 \<le> sint u"

interpretation wcc_alg: gather_algebra wcc_gather wcc_ok
proof unfold_locales
  show "wcc_gather a b = wcc_gather b a" for a b
    by (cases "sint a" "sint b" rule: linorder_cases) (auto simp: wcc_gather_def intro: signed_word_eqI)
  show "wcc_gather 0 b = b" if "wcc_ok b" for b
    using that signed_word_eqI [of 0 b] by (auto simp: wcc_gather_def wcc_ok_def)
qed (auto simp: wcc_gather_def wcc_ok_def)

text \<open>BFS gathers the least level of the active updates; 0 is \<open>nothing received\<close>.\<close>

definition bfs_ok :: "u32 \<Rightarrow> bool" where
  "bfs_ok u \<longleftrightarrow> u = 0 \<or> bit u 31"

lemma not_mask_active: "NOT VERTEX_ACTIVE_BIT_MASK = mask 31"
  by (simp add: VERTEX_ACTIVE_BIT_MASK_def mask_eq_exp_minus_1)

lemma level_inj:
  fixes a b :: u32
  assumes "bit a 31" "bit b 31" "a AND mask 31 = b AND mask 31"
  shows "a = b"
proof (rule bit_word_eqI)
  fix n assume n: "n < LENGTH(32)"
  show "bit a n = bit b n"
  proof (cases "n = 31")
    case False
    with n have "n < 31" by simp
    moreover from assms(3) have "bit (a AND mask 31) n = bit (b AND mask 31) n" by simp
    ultimately show ?thesis by (simp add: bit_simps)
  qed (use assms in simp)
qed

lemma bfs_gather_ok:
  assumes "bfs_ok a" "bfs_ok b"
  shows "bfs_gather a b = (if a = 0 then b else if b = 0 then a
           else if b AND mask 31 < a AND mask 31 then b else a)"
  using assms by (auto simp: bfs_gather_def not_mask_active bfs_ok_def)

interpretation bfs_alg: gather_algebra bfs_gather bfs_ok
proof unfold_locales
  have pos: "bfs_ok x \<Longrightarrow> x \<noteq> 0 \<Longrightarrow> bit x 31" for x by (simp add: bfs_ok_def)
  show ok: "bfs_ok (bfs_gather a b)" if "bfs_ok a" "bfs_ok b" for a b
    using that by (simp add: bfs_gather_ok)
  show "bfs_gather a b = bfs_gather b a" if "bfs_ok a" "bfs_ok b" for a b
    using that level_inj [of a b] pos [of a] pos [of b]
    by (auto simp: bfs_gather_ok not_less intro: antisym)
  show "bfs_gather (bfs_gather a b) c = bfs_gather a (bfs_gather b c)"
    if "bfs_ok a" "bfs_ok b" "bfs_ok c" for a b c
    using that ok [of a b] ok [of b c] by (auto simp: bfs_gather_ok)
qed (auto simp: bfs_ok_def bfs_gather_def)

subsection \<open>What the applications gather\<close>

lemma pr_gather_all: "gather_all pr_gather us = sum_list us"
  by (induction us rule: rev_induct) (simp_all add: gather_all_snoc pr_gather_def)

lemma wcc_gather_all:
  assumes "\<forall>u \<in> set us. wcc_ok u"
  shows "sint (gather_all wcc_gather us) = Max (insert 0 (sint ` set us))"
  using assms
proof (induction us rule: rev_induct)
  case (snoc u us)
  then have IH: "sint (gather_all wcc_gather us) = Max (insert 0 (sint ` set us))" by simp
  have "sint (gather_all wcc_gather (us @ [u])) = max (sint u) (sint (gather_all wcc_gather us))"
    by (simp add: gather_all_snoc wcc_gather_def)
  also have "\<dots> = max (sint u) (Max (insert 0 (sint ` set us)))" by (simp only: IH)
  also have "\<dots> = Max (insert (sint u) (insert 0 (sint ` set us)))"
    by (rule Max_insert [symmetric]) simp_all
  finally show ?case by (simp add: insert_commute)
qed simp

lemma bfs_gather_all:
  assumes "us \<noteq> []" "\<forall>u \<in> set us. bfs_is_active u"
  shows "gather_all bfs_gather us \<in> set us \<and>
    (\<forall>u \<in> set us. gather_all bfs_gather us AND mask 31 \<le> u AND mask 31)"
  using assms
proof (induction us rule: rev_induct)
  case (snoc u us)
  have act: "bit x 31 \<and> bfs_ok x \<and> x \<noteq> 0" if "bfs_is_active x" for x
  proof -
    have "bit (x AND VERTEX_ACTIVE_BIT_MASK) 31 = bit VERTEX_ACTIVE_BIT_MASK 31"
      using that by (simp only: bfs_is_active_def)
    then show ?thesis by (auto simp: bfs_ok_def VERTEX_ACTIVE_BIT_MASK_def bit_simps)
  qed
  show ?case
  proof (cases "us = []")
    case True
    with snoc.prems act [of u] show ?thesis
      by (simp add: gather_all_def bfs_gather_ok bfs_alg.ok_zero)
  next
    case False
    let ?g = "gather_all bfs_gather us"
    have IH: "?g \<in> set us" "\<forall>v \<in> set us. ?g AND mask 31 \<le> v AND mask 31"
      using snoc False by auto
    then have "bfs_is_active ?g" "bfs_is_active u" using snoc.prems by auto
    then have "bfs_gather ?g u = (if u AND mask 31 < ?g AND mask 31 then u else ?g)"
      using act [of ?g] act [of u] by (simp add: bfs_gather_ok)
    with IH show ?thesis by (auto simp: gather_all_snoc intro: order_trans less_imp_le)
  qed
qed simp

end
