(* ===== verification/Shuffle.thy ===== *)
theory Shuffle
  imports Decoder Streams Apps
begin

text \<open>
  From source properties and destinations to the updates of one processing element: the
  coupling of edges with properties (\<open>src/header/fpga_cache.h\<close>), the scatter stage
  (\<open>src/header/fpga_edge_prop.h\<close>), the shuffle that hands to processing element \<open>i\<close> the
  edges whose destination is \<open>i\<close> modulo 16 (\<open>src/header/fpga_gather.h\<close>) and the filter
  that puts them out one by one (\<open>src/header/fpga_filter.h\<close>).
\<close>

section \<open>Edges meet source properties\<close>

text \<open>Half \<open>j\<close> of a group of sixteen edges.\<close>

definition out_tuple :: "burst \<Rightarrow> burst \<Rightarrow> bool \<Rightarrow> nat \<Rightarrow> edge_tuples" where
  "out_tuple last_dest prop flag j =
     \<lparr>et_data = map (\<lambda>i. \<lparr>ix = lane (i + j * 8) last_dest, iy = lane (i + j * 8) prop\<rparr>) [0..<8],
      et_flag = flag\<rparr>"

text \<open>
  The loop holds back one token: the edges of \<open>last_dest\<close> carry the flag of the token
  after it.  The result: the tuples, what is left in the two FIFOs, the status.
\<close>

fun srcPropertyProcess_loop :: "burst_token \<Rightarrow> burst_token list \<Rightarrow> sv_pkg list \<Rightarrow>
  edge_tuples list \<times> burst_token list \<times> sv_pkg list \<times> status" where
  "srcPropertyProcess_loop last_dest [] props = ([], [], props, Blocked)"
| "srcPropertyProcess_loop last_dest (dest_vertices # ds) [] = ([], ds, [], Blocked)"
| "srcPropertyProcess_loop last_dest (dest_vertices # ds) (prop # props) =
     (let out = map (out_tuple (bt_data last_dest) (ax_data prop) (bt_flag dest_vertices)) [0, 1]
      in if bt_flag dest_vertices then (out, ds, clear_rest props, Returned)
         else (case srcPropertyProcess_loop dest_vertices ds props of
                 (os, ds', props', st) \<Rightarrow> (out @ os, ds', props', st)))"

definition srcPropertyProcess :: "burst_token list \<Rightarrow> sv_pkg list \<Rightarrow>
  edge_tuples list \<times> burst_token list \<times> sv_pkg list \<times> status" where
  "srcPropertyProcess dests props =
     (case dests of [] \<Rightarrow> ([], [], props, Blocked)
      | last_dest # ds \<Rightarrow> srcPropertyProcess_loop last_dest ds props)"

lemma srcPropertyProcess_loop_packet:
  assumes "\<forall>t \<in> set (last_dest # ds). \<not> bt_flag t" "bt_flag e" "length props = Suc (length ds)"
  shows "srcPropertyProcess_loop last_dest (ds @ e # rest) (props @ qs) =
    (concat (map (\<lambda>(d, p). map (out_tuple (bt_data d) (ax_data p) False) [0, 1])
        (zip (butlast (last_dest # ds)) (butlast props))) @
       map (out_tuple (bt_data (last (last_dest # ds))) (ax_data (last props)) True) [0, 1],
     rest, [], Returned)"
  using assms
proof (induction ds arbitrary: last_dest props)
  case Nil
  then obtain p where "props = [p]" by (cases props) auto
  with Nil show ?case by (simp add: Let_def)
next
  case (Cons d ds)
  from Cons.prems(3) obtain p ps where "props = p # ps" "length ps = Suc (length ds)"
    by (cases props) auto
  then have p: "props = p # ps" "ps \<noteq> []" by auto
  with Cons.prems have "\<forall>t \<in> set (d # ds). \<not> bt_flag t" "length ps = Suc (length ds)" by auto
  from Cons.IH [OF this(1) \<open>bt_flag e\<close> this(2)] p Cons.prems show ?case
    by (simp add: Let_def)
qed

section \<open>The scatter stage\<close>

definition scatter_self :: "app \<Rightarrow> edge_tuples \<Rightarrow> edge_tuples" where
  "scatter_self a t = t\<lparr>et_data := map (\<lambda>d. d\<lparr>iy := PROP_COMPUTE_STAGE0 a (iy d)\<rparr>) (et_data t)\<rparr>"

definition propProcessSelf :: "app \<Rightarrow> edge_tuples list \<Rightarrow> edge_tuples list \<times> edge_tuples list \<times> status" where
  "propProcessSelf a xs =
     (case token_loop (\<lambda>t. ([scatter_self a t], et_flag t)) xs of
        (os, rest, Returned) \<Rightarrow> (os, clear_rest rest, Returned)
      | (os, rest, Blocked) \<Rightarrow> (os, rest, Blocked))"

definition halfEdgeProp :: "burst_token list \<Rightarrow> half list \<times> burst_token list \<times> status" where
  "halfEdgeProp = token_loop (\<lambda>tmp. ([rng 0 (bt_data tmp), rng 256 (bt_data tmp)], bt_flag tmp))"

definition scatter_edge :: "app \<Rightarrow> edge_tuples \<Rightarrow> half \<Rightarrow> edge_tuples" where
  "scatter_edge a t prop =
     t\<lparr>et_data := map (\<lambda>i. (et_data t ! i)\<lparr>iy := PROP_COMPUTE_STAGE1 a (iy (et_data t ! i)) (lane i prop)\<rparr>)
        [0..<EDGE_NUM]\<rparr>"

fun edgePropCouple :: "app \<Rightarrow> edge_tuples list \<Rightarrow> half list \<Rightarrow>
  edge_tuples list \<times> edge_tuples list \<times> half list \<times> status" where
  "edgePropCouple a [] props = ([], [], props, Blocked)"
| "edgePropCouple a (t # ts) [] = ([], ts, [], Blocked)"
| "edgePropCouple a (t # ts) (p # props) =
     (if et_flag t then ([scatter_edge a t p], clear_rest ts, clear_rest props, Returned)
      else (case edgePropCouple a ts props of
              (os, ts', props', st) \<Rightarrow> (scatter_edge a t p # os, ts', props', st)))"

text \<open>The two processes of \<open>propProcess\<close> run as a dataflow.\<close>

definition propProcess :: "app \<Rightarrow> burst_token list \<Rightarrow> edge_tuples list \<Rightarrow>
  edge_tuples list \<times> edge_tuples list \<times> half list \<times> status" where
  "propProcess a props tuples = edgePropCouple a tuples (fst (halfEdgeProp props))"

lemma propProcessSelf_packet:
  assumes "\<forall>t \<in> set ts. \<not> et_flag t" "et_flag e"
  shows "propProcessSelf a (ts @ e # rest) = (map (scatter_self a) (ts @ [e]), [], Returned)"
  using token_kernel.kernel_packet [OF token_kernel_token_loop, of ts "\<lambda>t. ([scatter_self a t], et_flag t)" e rest] assms
  by (simp add: propProcessSelf_def concat_map_single)

section \<open>The shuffle\<close>

text \<open>\<open>valid_r[j]\<close>: lane \<open>j\<close> has an active update for processing element \<open>i\<close>.\<close>

definition valid :: "app \<Rightarrow> nat \<Rightarrow> int2 \<Rightarrow> bool" where
  "valid a i d \<longleftrightarrow> ix d AND HASH_MASK = word_of_nat i \<and> is_active a (iy d)"

text \<open>The sum of the shifted valid bits, assigned to an \<open>uchar\<close>.\<close>

definition opcode_of :: "app \<Rightarrow> nat \<Rightarrow> edge_tuples \<Rightarrow> u8" where
  "opcode_of a i t =
     word_of_nat (\<Sum>j\<leftarrow>[0..<8]. if valid a i (et_data t ! j) then 2 ^ j else 0)"

text \<open>\<open>filter\<close> after the body: on the last tuple \<open>num\<close> is forced to one.\<close>

definition shuffle_filter :: "app \<Rightarrow> nat \<Rightarrow> edge_tuples \<Rightarrow> filter_type" where
  "shuffle_filter a i t =
     (let shuff_ifo = shuffleDecoder (opcode_of a i t)
      in \<lparr>ft_end = et_flag t,
          ft_num = (if et_flag t then 1 else ucast (sh_num shuff_ifo)),
          ft_idx = sh_idx shuff_ifo,
          ft_data = map (\<lambda>j. et_data t ! j) [0..<EDGE_NUM]\<rparr>)"

definition shuffleDispatcher :: "u8 \<Rightarrow> filter_type \<Rightarrow> filter_type list" where
  "shuffleDispatcher opcode f = (if opcode \<noteq> 0 \<or> ft_end f then [f] else [])"

text \<open>The tokens are \<open>Inl\<close> on \<open>toNextShuffle\<close>, \<open>Inr\<close> on \<open>toFilterArray\<close>.\<close>

definition shuffleEntry_body :: "app \<Rightarrow> nat \<Rightarrow> edge_tuples \<Rightarrow> (edge_tuples + filter_type) list \<times> bool" where
  "shuffleEntry_body a i t =
     (let f = shuffle_filter a i t
      in (Inl t # (if opcode_of a i t \<noteq> 0 \<or> ft_end f then [Inr f] else []), ft_end f))"

definition shuffleEntry :: "app \<Rightarrow> nat \<Rightarrow> edge_tuples list \<Rightarrow>
  (edge_tuples + filter_type) list \<times> edge_tuples list \<times> status" where
  "shuffleEntry a i = token_loop (shuffleEntry_body a i)"

definition theLastShuffleEntry :: "app \<Rightarrow> nat \<Rightarrow> edge_tuples list \<Rightarrow>
  filter_type list \<times> edge_tuples list \<times> status" where
  "theLastShuffleEntry a i = token_loop (\<lambda>t.
     let f = shuffle_filter a i t
     in (if opcode_of a i t \<noteq> 0 \<or> ft_end f then [f] else [], ft_end f))"

text \<open>
  The chain: entry \<open>i\<close> reads what entry \<open>i - 1\<close> passes on; the filter array of each.
\<close>

fun shuffle_chain :: "app \<Rightarrow> nat \<Rightarrow> nat \<Rightarrow> edge_tuples list \<Rightarrow> filter_type list list" where
  "shuffle_chain a i 0 ts = [fst (theLastShuffleEntry a i ts)]"
| "shuffle_chain a i (Suc n) ts =
     (case shuffleEntry a i ts of (os, _, _) \<Rightarrow> rights os # shuffle_chain a (i + 1) n (lefts os))"

definition shuffle :: "app \<Rightarrow> edge_tuples list \<Rightarrow> filter_type list list" where
  "shuffle a ts = shuffle_chain a 0 (PE_NUM - 1) ts"

section \<open>The filter\<close>

text \<open>The eight three-bit fields of \<open>idx\<close>.\<close>

definition filter_lanes :: "filter_type \<Rightarrow> nat list" where
  "filter_lanes f = map (\<lambda>j. unat (rng (3 * j) (ft_idx f) :: 3 word)) [0..<8]"

definition tupleFilter_body :: "filter_type \<Rightarrow> int2_token list \<times> bool" where
  "tupleFilter_body f =
     (map (\<lambda>j. \<lparr>it_data = ft_data f ! (filter_lanes f ! j),
                 it_flag = (if j = unat (ft_num f) - 1 then ft_end f else False)\<rparr>)
        [0..<unat (ft_num f)], ft_end f)"

definition tupleFilter :: "filter_type list \<Rightarrow> int2_token list \<times> filter_type list \<times> status" where
  "tupleFilter = token_loop tupleFilter_body"

interpretation she: token_kernel "shuffleEntry a i" "\<lambda>t. fst (shuffleEntry_body a i t)" et_flag for a i
  by unfold_locales
     (auto simp: shuffleEntry_def shuffleEntry_body_def shuffle_filter_def Let_def split: prod.splits)

interpretation lse: token_kernel "theLastShuffleEntry a i" "\<lambda>t. rights (fst (shuffleEntry_body a i t))" et_flag for a i
  by unfold_locales
     (auto simp: theLastShuffleEntry_def shuffleEntry_body_def shuffle_filter_def Let_def rights_simps
       split: prod.splits)

interpretation tf: token_kernel tupleFilter "\<lambda>f. fst (tupleFilter_body f)" ft_end
  by unfold_locales (auto simp: tupleFilter_def tupleFilter_body_def split: prod.splits)

section \<open>What a processing element receives\<close>

lemma opcode_of_bits:
  "unat (opcode_of a i t) = horner_sum of_bool 2 (map (\<lambda>j. valid a i (et_data t ! j)) [0..<8])"
proof -
  let ?v = "\<lambda>j. valid a i (et_data t ! j)"
  have s: "(\<Sum>j\<leftarrow>[0..<8]. if ?v j then 2 ^ j else 0) = (horner_sum of_bool 2 (map ?v [0..<8]) :: nat)"
    by (simp add: upt8)
  have "horner_sum of_bool 2 (map ?v [0..<8]) < (2 ^ 8 :: nat)"
    using horner_sum_of_bool_2_less [of "map ?v [0..<8]", where 'a = nat] by simp
  then show ?thesis
    unfolding opcode_of_def s by (intro unat_of_nat_small) simp
qed

lemma positions_opcode:
  "positions (unat (opcode_of a i t)) = filter (\<lambda>j. valid a i (et_data t ! j)) [0..<8]"
proof -
  have "odd (unat (opcode_of a i t) div 2 ^ j) \<longleftrightarrow> valid a i (et_data t ! j)" if "j < 8" for j
    using that by (simp add: opcode_of_bits bit_iff_odd [symmetric] bit_horner_sum_bit_iff)
  then show ?thesis
    unfolding positions_def by (intro filter_cong) simp_all
qed

lemma opcode_zero_iff: "opcode_of a i t = 0 \<longleftrightarrow> positions (unat (opcode_of a i t)) = []"
proof
  assume "positions (unat (opcode_of a i t)) = []"
  then have "\<forall>j<8. \<not> valid a i (et_data t ! j)"
    by (simp add: positions_opcode filter_empty_conv)
  then show "opcode_of a i t = 0" by (simp add: opcode_of_def upt8)
qed (simp add: positions_def)

lemma unat_num: "unat (ucast (sh_num (shuffleDecoder opc)) :: u8) = length (positions (unat opc))"
proof -
  have "unat (ucast (sh_num (shuffleDecoder opc)) :: u8) =
      take_bit 8 (unat (sh_num (shuffleDecoder opc)))"
    by (simp add: unsigned_ucast_eq)
  also have "\<dots> = length (positions (unat opc))"
    using length_positions [of "unat opc"] by (simp add: shuffleDecoder_num take_bit_nat_eq_self)
  finally show ?thesis .
qed

text \<open>An ordinary tuple: the filter emits its valid lanes in order, none marked as last.\<close>

lemma filter_of_shuffle:
  assumes "\<not> et_flag t" "length (et_data t) = 8"
  shows "fst (tupleFilter_body (shuffle_filter a i t)) =
    map (\<lambda>d. \<lparr>it_data = d, it_flag = False\<rparr>) (filter (valid a i) (et_data t))"
proof -
  let ?ps = "positions (unat (opcode_of a i t))" and ?f = "shuffle_filter a i t"
  have n: "unat (ft_num ?f) = length ?ps"
    using assms(1) by (simp add: shuffle_filter_def Let_def unat_num)
  have d: "ft_data ?f = et_data t"
    using assms(2) map_nth [of "et_data t"] by (simp add: shuffle_filter_def Let_def EDGE_NUM_def)
  have l: "filter_lanes ?f ! j = ?ps ! j" if "j < length ?ps" for j
    using that length_positions [of "unat (opcode_of a i t)"]
    by (simp add: filter_lanes_def shuffle_filter_def Let_def shuffleDecoder_idx)
  have "fst (tupleFilter_body ?f) =
      map (\<lambda>j. \<lparr>it_data = et_data t ! (?ps ! j), it_flag = False\<rparr>) [0..<length ?ps]"
    using assms(1) by (simp add: tupleFilter_body_def n d l) (simp add: shuffle_filter_def Let_def)
  also have "\<dots> = map (\<lambda>d. \<lparr>it_data = d, it_flag = False\<rparr>) (map (\<lambda>j. et_data t ! j) ?ps)"
    by (rule nth_equalityI) simp_all
  also have "map (\<lambda>j. et_data t ! j) ?ps = filter (valid a i) (et_data t)"
    unfolding positions_opcode using assms(2)
    by (metis (no_types, lifting) filter_map map_nth comp_def filter_cong)
  finally show ?thesis .
qed

lemma emitted_of_tuple:
  assumes "\<not> et_flag t" "length (et_data t) = 8"
  shows "concat (map (\<lambda>f. fst (tupleFilter_body f)) (rights (fst (shuffleEntry_body a i t)))) =
    map (\<lambda>d. \<lparr>it_data = d, it_flag = False\<rparr>) (filter (valid a i) (et_data t))"
proof (cases "opcode_of a i t = 0")
  case True
  then have "filter (\<lambda>j. valid a i (et_data t ! j)) [0..<8] = []"
    by (simp add: opcode_zero_iff positions_opcode)
  then have "filter (valid a i) (et_data t) = []"
    using assms(2) by (auto simp: filter_empty_conv in_set_conv_nth)
  with True assms show ?thesis
    by (simp add: shuffleEntry_body_def Let_def rights_simps shuffle_filter_def)
next
  case False
  with filter_of_shuffle [OF assms] show ?thesis
    by (simp add: shuffleEntry_body_def Let_def rights_simps)
qed

text \<open>The last tuple: one token, marked as last.\<close>

lemma tupleFilter_last:
  assumes "et_flag e"
  shows "\<exists>d. fst (tupleFilter_body (shuffle_filter a i e)) = [\<lparr>it_data = d, it_flag = True\<rparr>]"
  using assms by (simp add: tupleFilter_body_def shuffle_filter_def Let_def)

text \<open>The filter array of entry \<open>i\<close> on a packet.\<close>

definition to_filter :: "app \<Rightarrow> nat \<Rightarrow> edge_tuples list \<Rightarrow> edge_tuples \<Rightarrow> filter_type list" where
  "to_filter a i ts e = concat (map (\<lambda>t. rights (fst (shuffleEntry_body a i t))) ts) @ [shuffle_filter a i e]"

lemma shuffleEntry_body_ports:
  "lefts (fst (shuffleEntry_body a i t)) = [t]"
  "et_flag t \<Longrightarrow> rights (fst (shuffleEntry_body a i t)) = [shuffle_filter a i t]"
  by (simp_all add: shuffleEntry_body_def shuffle_filter_def Let_def lefts_simps rights_simps)

lemma shuffleEntry_packet:
  assumes "\<forall>t \<in> set ts. \<not> et_flag t" "et_flag e"
  shows "rights (fst (shuffleEntry a i (ts @ e # rest))) = to_filter a i ts e"
    and "lefts (fst (shuffleEntry a i (ts @ e # rest))) = ts @ [e]"
  using assms by (simp_all add: she.kernel_packet rights_simps lefts_simps rights_concat_map lefts_concat_map
      to_filter_def shuffleEntry_body_ports concat_map_single)

lemma theLastShuffleEntry_packet:
  assumes "\<forall>t \<in> set ts. \<not> et_flag t" "et_flag e"
  shows "fst (theLastShuffleEntry a i (ts @ e # rest)) = to_filter a i ts e"
  using assms by (simp add: lse.kernel_packet to_filter_def shuffleEntry_body_def shuffle_filter_def
      Let_def rights_simps)

lemma shuffle_chain_packet:
  assumes "\<forall>t \<in> set ts. \<not> et_flag t" "et_flag e"
  shows "shuffle_chain a i n (ts @ e # rest) = map (\<lambda>k. to_filter a k ts e) [i..<i + n + 1]"
proof (induction n arbitrary: i rest)
  case 0
  then show ?case using theLastShuffleEntry_packet [OF assms] by simp
next
  case (Suc n)
  have "shuffle_chain a i (Suc n) (ts @ e # rest) =
      to_filter a i ts e # shuffle_chain a (i + 1) n (ts @ [e])"
    using shuffleEntry_packet [OF assms, of a i rest] by (auto split: prod.splits)
  also have "\<dots> = to_filter a i ts e # map (\<lambda>k. to_filter a k ts e) [i + 1..<i + 1 + n + 1]"
    using Suc [of "i + 1" "[]"] by simp
  also have "\<dots> = map (\<lambda>k. to_filter a k ts e) [i..<i + Suc n + 1]"
    using upt_conv_Cons [of i "i + Suc n + 1"] by (simp del: upt_Suc)
  finally show ?case .
qed

lemma shuffle_packet:
  assumes "\<forall>t \<in> set ts. \<not> et_flag t" "et_flag e" "i < 16"
  shows "shuffle a (ts @ e # rest) ! i = to_filter a i ts e" and "length (shuffle a (ts @ e # rest)) = 16"
  using shuffle_chain_packet [OF assms(1,2), of a 0 15 rest] assms(3)
  by (simp_all add: shuffle_def PE_NUM_def)

lemma to_filter_ends:
  assumes "\<forall>t \<in> set ts. \<not> et_flag t" "et_flag e"
  shows "\<exists>fs f. to_filter a i ts e = fs @ [f] \<and> (\<forall>g \<in> set fs. \<not> ft_end g) \<and> ft_end f"
proof -
  have "\<forall>g \<in> set (concat (map (\<lambda>t. rights (fst (shuffleEntry_body a i t))) ts)). \<not> ft_end g"
    using assms(1) by (auto simp: shuffleEntry_body_def shuffle_filter_def Let_def rights_simps split: if_splits)
  moreover have "ft_end (shuffle_filter a i e)"
    using assms(2) by (simp add: shuffle_filter_def Let_def)
  ultimately show ?thesis unfolding to_filter_def by blast
qed

text \<open>
  Shuffle and filter: element \<open>i\<close> gets the active edges with destination \<open>i\<close> modulo 16,
  in the order of the edge stream, and one token that ends the packet.
\<close>

lemma shuffle_filter_stream:
  assumes "\<forall>t \<in> set ts. \<not> et_flag t \<and> length (et_data t) = 8" "et_flag e" "i < 16"
  shows "\<exists>d. tupleFilter (shuffle a (ts @ e # rest) ! i) =
    (map (\<lambda>d. \<lparr>it_data = d, it_flag = False\<rparr>) (filter (valid a i) (concat (map et_data ts))) @
       [\<lparr>it_data = d, it_flag = True\<rparr>], [], Returned)"
proof -
  have f: "\<forall>t \<in> set ts. \<not> et_flag t" using assms(1) by simp
  have c: "concat (map (\<lambda>f. fst (tupleFilter_body f)) (concat (map (\<lambda>t. rights (fst (shuffleEntry_body a i t))) ts))) =
      map (\<lambda>d. \<lparr>it_data = d, it_flag = False\<rparr>) (filter (valid a i) (concat (map et_data ts)))"
    using assms(1) by (induction ts) (simp_all add: emitted_of_tuple)
  obtain d where d: "fst (tupleFilter_body (shuffle_filter a i e)) = [\<lparr>it_data = d, it_flag = True\<rparr>]"
    using tupleFilter_last [OF assms(2)] by blast
  have "\<forall>g \<in> set (concat (map (\<lambda>t. rights (fst (shuffleEntry_body a i t))) ts)). \<not> ft_end g"
    using f by (auto simp: shuffleEntry_body_def shuffle_filter_def Let_def rights_simps split: if_splits)
  moreover have "ft_end (shuffle_filter a i e)"
    using assms(2) by (simp add: shuffle_filter_def Let_def)
  ultimately have "tupleFilter (to_filter a i ts e) =
      (map (\<lambda>d. \<lparr>it_data = d, it_flag = False\<rparr>) (filter (valid a i) (concat (map et_data ts))) @
       [\<lparr>it_data = d, it_flag = True\<rparr>], [], Returned)"
    unfolding to_filter_def by (subst tf.kernel_packet) (simp_all only: c d)
  then show ?thesis using shuffle_packet(1) [OF f assms(2,3)] by auto
qed

text \<open>Every active edge goes to exactly one processing element.\<close>

lemma one_valid_element:
  assumes "is_active a (iy d)"
  shows "valid a i d \<and> i < 16 \<longleftrightarrow> i = unat (ix d AND 15)"
proof -
  have "ix d AND 15 = take_bit 4 (ix d)" by (simp add: take_bit_eq_mask mask_eq_exp_minus_1)
  then have "unat (ix d AND 15) < 16"
    using take_bit_nat_less_exp [of 4 "unat (ix d)"] by (simp add: unsigned_take_bit_eq)
  moreover have "ix d AND 15 = word_of_nat i \<longleftrightarrow> unat (ix d AND 15) = i" if "i < 16"
    using that unat_of_nat_small [of i, where 'a = 32] by (auto simp: word_unat_eq_iff)
  ultimately show ?thesis
    using assms by (auto simp: valid_def HASH_MASK_def PE_NUM_def)
qed

end
