(* ===== verification/Dst_Process.thy ===== *)
theory Dst_Process
  imports Streams Apps
begin

text \<open>
  The destination side of a gather-scatter kernel (\<open>src/header/fpga_process_edge.h\<close>): each
  processing element accumulates its updates in a buffer of 64-bit words, two vertices in
  each, with registers that forward the last four writes; at the end of the packet the
  buffer is streamed out and reset, and \<open>processEdgeWrite\<close> puts the sixteen streams
  together.  The parameter \<open>N\<close> is \<open>MAX_VERTICES_IN_ONE_PARTITION\<close>.
\<close>

section \<open>The update of a buffer cell\<close>

definition L :: nat where "L = 3"

record dst_state =
  vbuf :: "nat \<Rightarrow> u64"      \<comment> \<open>\<open>tmpVPropBuffer\<close>\<close>
  lastValue :: "u64 list"
  lastIndex :: "u32 list"

definition dst_init :: "(nat \<Rightarrow> u64) \<Rightarrow> dst_state" where
  "dst_init buf = \<lparr>vbuf = buf, lastValue = replicate (L + 1) 0, lastIndex = replicate (L + 1) 0\<rparr>"

definition dst_idx :: "nat \<Rightarrow> u32 \<Rightarrow> u32" where
  "dst_idx N dstVidx = drop_bit LOG2_PE_NUM dstVidx AND (word_of_nat (N div 2 ^ LOG2_PE_NUM) - 1)"

text \<open>The forwarding loop: a later register with the address overrides an earlier one.\<close>

definition forward :: "dst_state \<Rightarrow> u32 \<Rightarrow> u64 \<Rightarrow> u64" where
  "forward st addr v =
     fold (\<lambda>i v. if lastIndex st ! i = addr then lastValue st ! i else v) [0..<L + 1] v"

definition shift_in :: "'a \<Rightarrow> 'a list \<Rightarrow> 'a list" where
  "shift_in x xs = (map (\<lambda>i. xs ! (i + 1)) [0..<L]) @ [x]"

definition accumulate :: "app \<Rightarrow> u32 \<Rightarrow> u32 \<Rightarrow> u64 \<Rightarrow> u64" where
  "accumulate a idx y updated_value =
     (if idx AND 1 \<noteq> 0
      then set_rng 32 (PROP_COMPUTE_STAGE3 a (rng 32 updated_value) y) updated_value
      else set_rng 0 (PROP_COMPUTE_STAGE3 a (rng 0 updated_value) y) updated_value)"

text \<open>
  The body for an update.  The word that the buffer memory delivers is an argument: the
  pragma \<open>dependence inter false\<close> lets the hardware read it before the writes of the
  preceding iterations are in.
\<close>

definition dst_update_read :: "app \<Rightarrow> nat \<Rightarrow> u64 \<Rightarrow> dst_state \<Rightarrow> int2 \<Rightarrow> dst_state" where
  "dst_update_read a N rd st d =
     (if bit (ix d) 31 then st
      else let idx = dst_idx N (ix d);
               addr = drop_bit 1 idx;
               v = accumulate a idx (iy d) (forward st addr rd)
           in \<lparr>vbuf = (vbuf st)(unat addr := v),
               lastValue = shift_in v (lastValue st),
               lastIndex = shift_in addr (lastIndex st)\<rparr>)"

text \<open>The C program reads what the buffer holds.\<close>

definition dst_update :: "app \<Rightarrow> nat \<Rightarrow> dst_state \<Rightarrow> int2 \<Rightarrow> dst_state" where
  "dst_update a N st d =
     dst_update_read a N (vbuf st (unat (drop_bit 1 (dst_idx N (ix d)) :: u32))) st d"

definition dst_body :: "app \<Rightarrow> nat \<Rightarrow> dst_state \<Rightarrow> int2_token \<Rightarrow> dst_state \<times> u64 list \<times> bool" where
  "dst_body a N st tok = (if it_flag tok then (st, [], True) else (dst_update a N st (it_data tok), [], False))"

text \<open>Streaming the buffer out, each word reset one iteration after it was read.\<close>

definition dst_flush_step :: "nat \<Rightarrow> (nat \<Rightarrow> u64) \<times> u64 list \<Rightarrow> (nat \<Rightarrow> u64) \<times> u64 list" where
  "dst_flush_step i s =
     (case s of (buf, os) \<Rightarrow> (if 0 < i then buf(i - 1 := 0) else buf, os @ [buf i]))"

definition dst_flush :: "nat \<Rightarrow> (nat \<Rightarrow> u64) \<Rightarrow> (nat \<Rightarrow> u64) \<times> u64 list" where
  "dst_flush N buf =
     (case fold dst_flush_step [0..<N div 2 ^ (LOG2_PE_NUM + 1)] (buf, []) of
        (buf', os) \<Rightarrow> (buf'(N div 2 ^ (LOG2_PE_NUM + 1) - 1 := 0), os))"

definition dstPropertyProcess :: "app \<Rightarrow> nat \<Rightarrow> (nat \<Rightarrow> u64) \<Rightarrow> int2_token list \<Rightarrow>
  (nat \<Rightarrow> u64) \<times> u64 list \<times> int2_token list \<times> status" where
  "dstPropertyProcess a N buf xs =
     (case read_loop (dst_body a N) (dst_init buf) xs of
        (st, _, rest, Returned) \<Rightarrow>
          (case dst_flush N (vbuf st) of (buf', os) \<Rightarrow> (buf', os, rest, Returned))
      | (st, _, rest, Blocked) \<Rightarrow> (vbuf st, [], rest, Blocked))"

section \<open>Forwarding\<close>

text \<open>Well-formed registers that agree with the buffer.\<close>

definition fwd_inv :: "dst_state \<Rightarrow> bool" where
  "fwd_inv st \<longleftrightarrow> length (lastValue st) = L + 1 \<and> length (lastIndex st) = L + 1 \<and>
     (\<forall>addr. forward st addr (vbuf st (unat addr)) = vbuf st (unat addr))"

lemma upt_L: "[0..<L + 1] = [0, 1, 2, 3]" "[0..<L] = [0, 1, 2]"
  by (simp_all add: L_def numeral_eq_Suc)

lemma forward_eval:
  "forward st addr v =
     (if lastIndex st ! 3 = addr then lastValue st ! 3
      else if lastIndex st ! 2 = addr then lastValue st ! 2
      else if lastIndex st ! 1 = addr then lastValue st ! 1
      else if lastIndex st ! 0 = addr then lastValue st ! 0 else v)"
  unfolding forward_def upt_L by simp

lemma shift_in_nth:
  "shift_in x xs ! 0 = xs ! 1" "shift_in x xs ! Suc 0 = xs ! 2" "shift_in x xs ! 2 = xs ! 3" "shift_in x xs ! 3 = x"
  "length (shift_in x xs) = L + 1"
  by (simp_all add: shift_in_def upt_L) (simp_all add: L_def numeral_eq_Suc)

text \<open>A register that holds the address holds the buffer's word.\<close>

lemma fwd_inv_init: "buf 0 = 0 \<Longrightarrow> fwd_inv (dst_init buf)"
  by (simp add: fwd_inv_def dst_init_def forward_eval L_def upt_rec nth_Cons')

lemma fwd_inv_step:
  assumes "fwd_inv st"
  shows "fwd_inv (dst_update a N st d)"
proof (cases "bit (ix d) 31")
  case True
  with assms show ?thesis by (simp add: dst_update_def dst_update_read_def)
next
  case False
  let ?addr = "drop_bit 1 (dst_idx N (ix d)) :: u32"
  define v where "v = accumulate a (dst_idx N (ix d)) (iy d) (forward st ?addr (vbuf st (unat ?addr)))"
  have e: "dst_update a N st d = \<lparr>vbuf = (vbuf st)(unat ?addr := v),
      lastValue = shift_in v (lastValue st), lastIndex = shift_in ?addr (lastIndex st)\<rparr>"
    using False by (simp add: dst_update_def dst_update_read_def v_def Let_def)
  have "forward (dst_update a N st d) b (vbuf (dst_update a N st d) (unat b)) = vbuf (dst_update a N st d) (unat b)"
    for b
  proof (cases "b = ?addr")
    case True
    then show ?thesis by (simp add: e forward_eval shift_in_nth)
  next
    case False
    then have "unat b \<noteq> unat ?addr" by (simp add: word_unat_eq_iff)
    moreover have "forward st b (vbuf st (unat b)) = vbuf st (unat b)"
      using assms by (simp add: fwd_inv_def)
    ultimately show ?thesis
      using False by (auto simp add: e forward_eval shift_in_nth split: if_splits)
  qed
  then show ?thesis by (simp add: fwd_inv_def e shift_in_nth)
qed

text \<open>
  A memory that is behind by up to four writes: \<open>old\<close> agrees with the buffer except at
  addresses that a register holds.
\<close>

definition stale :: "dst_state \<Rightarrow> (nat \<Rightarrow> u64) \<Rightarrow> bool" where
  "stale st old \<longleftrightarrow> (\<forall>addr. addr \<notin> set (lastIndex st) \<longrightarrow> old (unat addr) = vbuf st (unat addr))"

lemma forward_stale:
  assumes "fwd_inv st" "stale st old"
  shows "forward st addr (old (unat addr)) = vbuf st (unat addr)"
proof (cases "addr \<in> set (lastIndex st)")
  case True
  have "length (lastIndex st) = 4" using assms(1) by (simp add: fwd_inv_def L_def)
  with True obtain i where "i < 4" "lastIndex st ! i = addr" by (metis in_set_conv_nth)
  then have "lastIndex st ! 0 = addr \<or> lastIndex st ! 1 = addr \<or> lastIndex st ! 2 = addr \<or> lastIndex st ! 3 = addr"
    by (auto simp: less_Suc_eq numeral_eq_Suc)
  then have "forward st addr (old (unat addr)) = forward st addr (vbuf st (unat addr))"
    by (auto simp: forward_eval)
  with assms(1) show ?thesis by (simp add: fwd_inv_def)
next
  case False
  with assms show ?thesis by (simp add: fwd_inv_def stale_def)
qed

lemma dst_update_stale:
  assumes "fwd_inv st" "stale st old"
  shows "dst_update_read a N (old (unat (drop_bit 1 (dst_idx N (ix d)) :: u32))) st d = dst_update a N st d"
proof -
  have "forward st (drop_bit 1 (dst_idx N (ix d))) (vbuf st (unat (drop_bit 1 (dst_idx N (ix d)) :: u32))) =
      vbuf st (unat (drop_bit 1 (dst_idx N (ix d)) :: u32))"
    using assms(1) by (simp add: fwd_inv_def)
  with forward_stale [OF assms] show ?thesis
    by (simp add: dst_update_def dst_update_read_def)
qed


section \<open>The buffer as a map from vertices to properties\<close>

text \<open>The 32-bit cell of the vertex with index \<open>k\<close> in a processing element.\<close>

definition cell :: "(nat \<Rightarrow> u64) \<Rightarrow> nat \<Rightarrow> u32" where
  "cell buf k = (if odd k then rng 32 (buf (k div 2)) else rng 0 (buf (k div 2)))"

lemma word_of_cells: "buf t = set_rng 32 (cell buf (2 * t + 1)) (ucast (cell buf (2 * t)))"
proof -
  have "buf t = set_rng 32 (rng 32 (buf t) :: u32) (ucast (rng 0 (buf t) :: u32))"
    by (intro bit_word_eqI) (auto simp: bit_set_rng bit_rng bit_simps)
  then show ?thesis by (simp add: cell_def)
qed

lemma cell_accumulate:
  assumes "unat idx = k"
  shows "cell (buf(k div 2 := accumulate a idx y (buf (k div 2)))) j =
    (if j = k then PROP_COMPUTE_STAGE3 a (cell buf k) y else cell buf j)"
proof -
  have o: "idx AND 1 \<noteq> 0 \<longleftrightarrow> odd k"
  proof -
    have "bit idx 0 = bit (unat idx) 0" by (simp add: bit_unsigned_iff del: bit_0)
    with assms and_exp_eq_0_iff_not_bit [of idx 0] show ?thesis by (simp add: bit_0)
  qed
  have d: "j div 2 = k div 2 \<Longrightarrow> odd j = odd k \<Longrightarrow> j = k" by presburger
  have r: "(rng 0 (set_rng 32 v x :: u64) :: u32) = rng 0 x" "(rng 32 (set_rng 0 v x :: u64) :: u32) = rng 32 x"
      "(rng 0 (set_rng 0 v x :: u64) :: u32) = v" "(rng 32 (set_rng 32 v x :: u64) :: u32) = v"
    for v :: u32 and x :: u64
    by (simp_all add: rng_set_rng_other rng_set_rng_same)
  show ?thesis
    using d by (auto simp: cell_def accumulate_def o r)
qed

lemma idx_word:
  assumes "N = 2 ^ n" "4 \<le> n" "n < 32"
  shows "unat (dst_idx N x) = unat x div 16 mod (N div 16)"
proof -
  have q: "N div 2 ^ LOG2_PE_NUM = 2 ^ (n - 4)"
    using assms(2) le_Suc_ex [of 4 n] by (auto simp: assms(1) LOG2_PE_NUM_def power_add)
  then have "word_of_nat (N div 2 ^ LOG2_PE_NUM) - 1 = (mask (n - 4) :: u32)"
    by (simp add: mask_eq_exp_minus_1)
  then have "unat (dst_idx N x) = take_bit (n - 4) (unat (drop_bit 4 x))"
    by (simp add: dst_idx_def LOG2_PE_NUM_def take_bit_eq_mask [symmetric] unsigned_take_bit_eq)
  also have "\<dots> = unat x div 16 mod 2 ^ (n - 4)"
    by (simp only: unat_drop_bit_eq) (simp add: take_bit_eq_mod drop_bit_eq_div)
  finally show ?thesis using q by (simp add: LOG2_PE_NUM_def)
qed

text \<open>The abstract step: a cell takes in the update of its vertex.\<close>

definition local_idx :: "nat \<Rightarrow> u32 \<Rightarrow> nat" where
  "local_idx N x = unat x div 16 mod (N div 16)"

lemma cell_dst_update:
  assumes "fwd_inv st" "N = 2 ^ n" "4 \<le> n" "n < 32"
  shows "cell (vbuf (dst_update a N st d)) k =
    (if \<not> bit (ix d) 31 \<and> local_idx N (ix d) = k then PROP_COMPUTE_STAGE3 a (cell (vbuf st) k) (iy d)
     else cell (vbuf st) k)"
proof (cases "bit (ix d) 31")
  case True
  then show ?thesis by (simp add: dst_update_def dst_update_read_def)
next
  case False
  let ?i = "dst_idx N (ix d)"
  have u: "unat ?i = local_idx N (ix d)" by (simp add: idx_word [OF assms(2-4)] local_idx_def)
  have a: "unat (drop_bit 1 ?i :: u32) = local_idx N (ix d) div 2"
    by (simp only: unat_drop_bit_eq u) (simp add: drop_bit_eq_div)
  have f: "forward st (drop_bit 1 ?i) (vbuf st (local_idx N (ix d) div 2)) = vbuf st (local_idx N (ix d) div 2)"
    using assms(1) by (simp add: fwd_inv_def flip: a)
  have "vbuf (dst_update a N st d) = (vbuf st)(local_idx N (ix d) div 2 :=
      accumulate a ?i (iy d) (vbuf st (local_idx N (ix d) div 2)))"
    using False by (simp only: dst_update_def dst_update_read_def Let_def if_False dst_state.select_convs a f)
  with False show ?thesis by (simp add: cell_accumulate [OF u])
qed

lemma fwd_inv_fold: "fwd_inv st \<Longrightarrow> fwd_inv (fold (\<lambda>d s. dst_update a N s d) ds st)"
  by (induction ds arbitrary: st) (simp_all add: fwd_inv_step)

text \<open>The updates for cell \<open>k\<close>.\<close>

definition updates_for :: "nat \<Rightarrow> nat \<Rightarrow> int2 list \<Rightarrow> u32 list" where
  "updates_for N k ds = map iy (filter (\<lambda>d. \<not> bit (ix d) 31 \<and> local_idx N (ix d) = k) ds)"

lemma updates_for_append: "updates_for N k (ds @ es) = updates_for N k ds @ updates_for N k es"
  by (simp add: updates_for_def)

lemma cell_fold:
  assumes "fwd_inv st" "N = 2 ^ n" "4 \<le> n" "n < 32"
  shows "cell (vbuf (fold (\<lambda>d s. dst_update a N s d) ds st)) k =
    foldl (gatherFunc a) (cell (vbuf st) k) (updates_for N k ds)"
  using assms(1)
proof (induction ds arbitrary: st)
  case Nil
  then show ?case by (simp add: updates_for_def)
next
  case (Cons d ds)
  have "cell (vbuf (dst_update a N st d)) k =
      foldl (gatherFunc a) (cell (vbuf st) k) (updates_for N k [d])"
    by (simp add: cell_dst_update [OF Cons.prems assms(2-4)] updates_for_def PROP_COMPUTE_STAGE3_def)
  moreover have "updates_for N k (d # ds) = updates_for N k [d] @ updates_for N k ds"
    by (simp add: updates_for_def)
  ultimately show ?case using Cons.IH [OF fwd_inv_step [OF Cons.prems]] by simp
qed

lemma dst_body_loop:
  "read_loop (dst_body a N) st (map (\<lambda>d. \<lparr>it_data = d, it_flag = False\<rparr>) ds @ xs) =
   read_loop (dst_body a N) (fold (\<lambda>d s. dst_update a N s d) ds st) xs"
  by (induction ds arbitrary: st) (simp_all add: dst_body_def split: prod.splits)

lemma dst_flush_spec:
  "fold dst_flush_step [0..<n] (buf, []) =
     ((\<lambda>t. if t + 1 < n then 0 else buf t), map buf [0..<n])"
  by (induction n) (auto simp: dst_flush_step_def fun_eq_iff)

lemma dst_flush_eq:
  assumes "32 \<le> N"
  shows "dst_flush N buf = ((\<lambda>t. if t < N div 32 then 0 else buf t), map buf [0..<N div 32])"
proof -
  have "0 < N div 32" using assms by (simp add: div_greater_zero_iff)
  then show ?thesis
    by (auto simp: dst_flush_def LOG2_PE_NUM_def dst_flush_spec fun_eq_iff)
qed

lemma half_index:
  fixes N :: nat
  assumes "N = 2 ^ n" "5 \<le> n" "k < N div 16"
  shows "k div 2 < N div 32"
proof -
  from assms(2) obtain m where "n = 5 + m" using le_Suc_ex by blast
  with assms(1,3) show ?thesis by (simp add: power_add less_mult_imp_div_less)
qed

text \<open>
  A packet: the words streamed out hold in each cell the gathered updates; the buffer is
  all zero again.
\<close>

lemma dstPropertyProcess_packet:
  assumes "N = 2 ^ n" "5 \<le> n" "n < 32" "\<forall>t < N div 32. buf t = 0"
  shows "\<exists>buf' os. dstPropertyProcess a N buf (map (\<lambda>d. \<lparr>it_data = d, it_flag = False\<rparr>) ds @
            \<lparr>it_data = e, it_flag = True\<rparr> # rest) = (buf', os, rest, Returned) \<and>
     (\<forall>t < N div 32. buf' t = 0) \<and> length os = N div 32 \<and>
     (\<forall>k < N div 16. cell ((!) os) k = gather_all (gatherFunc a) (updates_for N k ds))"
proof -
  let ?st = "fold (\<lambda>d s. dst_update a N s d) ds (dst_init buf)"
  have n32: "32 \<le> N" using assms(1,2) power_increasing [of 5 n "2::nat"] by simp
  then have "0 < N div 32" by (simp add: div_greater_zero_iff)
  with assms(4) have "buf 0 = 0" by simp
  then have inv: "fwd_inv (dst_init buf)" by (rule fwd_inv_init)
  have c0: "cell buf k = 0" if "k < N div 16" for k
  proof -
    from half_index [OF assms(1,2) that] assms(4) show ?thesis by (simp add: cell_def rng_def)
  qed
  have "dstPropertyProcess a N buf (map (\<lambda>d. \<lparr>it_data = d, it_flag = False\<rparr>) ds @
      \<lparr>it_data = e, it_flag = True\<rparr> # rest) =
      ((\<lambda>t. if t < N div 32 then 0 else vbuf ?st t), map (vbuf ?st) [0..<N div 32], rest, Returned)"
    by (simp add: dstPropertyProcess_def dst_body_loop dst_body_def [of a N _ "\<lparr>it_data = e, it_flag = True\<rparr>"] dst_flush_eq [OF n32])
  moreover have "cell ((!) (map (vbuf ?st) [0..<N div 32])) k = gather_all (gatherFunc a) (updates_for N k ds)"
    if "k < N div 16" for k
  proof -
    have "k div 2 < N div 32" using half_index [OF assms(1,2) that] .
    then have "cell ((!) (map (vbuf ?st) [0..<N div 32])) k = cell (vbuf ?st) k"
      by (simp add: cell_def)
    with cell_fold [OF inv assms(1) _ assms(3), of a ds k] assms(2) c0 [OF that] show ?thesis
      by (simp add: gather_all_def dst_init_def)
  qed
  ultimately show ?thesis by auto
qed


section \<open>Putting the streams together\<close>

definition BURST_WRITE_SIZE :: nat where "BURST_WRITE_SIZE = 64"
definition TOTAL_STEAM_READ_NUM :: nat where
  "TOTAL_STEAM_READ_NUM = BURST_WRITE_SIZE * 16 div 2 div 2 ^ LOG2_PE_NUM"

text \<open>One word of each stream; \<open>None\<close> when a stream is empty and the read waits.\<close>

definition read_all :: "'a list list \<Rightarrow> ('a list \<times> 'a list list) option" where
  "read_all ss = (if [] \<in> set ss then None else Some (map hd ss, map tl ss))"

text \<open>The two bursts of one word of each stream: low halves, then high halves.\<close>

definition two_bursts :: "u64 list \<Rightarrow> burst list" where
  "two_bursts ws = [burst_of (\<lambda>pe. rng 0 (ws ! pe)), burst_of (\<lambda>pe. rng 32 (ws ! pe))]"

fun fill_writeBuffer :: "nat \<Rightarrow> u64 list list \<Rightarrow> (burst list \<times> u64 list list) option" where
  "fill_writeBuffer 0 ss = Some ([], ss)"
| "fill_writeBuffer (Suc n) ss =
     (case read_all ss of None \<Rightarrow> None
      | Some (ws, ss') \<Rightarrow>
          (case fill_writeBuffer n ss' of None \<Rightarrow> None
           | Some (bs, ss'') \<Rightarrow> Some (two_bursts ws @ bs, ss'')))"

fun processEdgeWrite_loop :: "burst_dest \<Rightarrow> nat \<Rightarrow> u64 list list \<Rightarrow> burst_dest list \<times> status" where
  "processEdgeWrite_loop uninit 0 ss = ([], Returned)"
| "processEdgeWrite_loop uninit (Suc n) ss =
     (case fill_writeBuffer TOTAL_STEAM_READ_NUM ss of None \<Rightarrow> ([], Blocked)
      | Some (writeBuffer, ss') \<Rightarrow>
          (case processEdgeWrite_loop uninit n ss' of (os, st) \<Rightarrow>
             (map (\<lambda>b. uninit\<lparr>bd_data := b\<rparr>) writeBuffer @ os, st)))"

definition processEdgeWrite :: "burst_dest \<Rightarrow> nat \<Rightarrow> u64 list list \<Rightarrow> burst_dest list \<times> status" where
  "processEdgeWrite uninit N ss = processEdgeWrite_loop uninit (N div 2 ^ (6 + LOG2_SIZE_BY_INT)) ss"

text \<open>The variant that reports its end to the performance counter.\<close>

definition processEdgeWritePerf :: "burst_dest \<Rightarrow> nat \<Rightarrow> u64 list list \<Rightarrow> burst_dest list \<times> u32 list \<times> status" where
  "processEdgeWritePerf uninit N ss =
     (case processEdgeWrite_loop uninit (N div 2 ^ (6 + LOG2_SIZE_BY_INT)) ss of
        (os, Returned) \<Rightarrow> (os, [0], Returned)
      | (os, Blocked) \<Rightarrow> (os, [], Blocked))"

text \<open>Burst \<open>b\<close> of the output, taken from the streams.\<close>

definition out_burst :: "u64 list list \<Rightarrow> nat \<Rightarrow> burst" where
  "out_burst ss b = burst_of (\<lambda>pe. cell ((!) (ss ! pe)) b)"

lemma fill_writeBuffer_enough:
  assumes "\<forall>s \<in> set ss. n \<le> length s" "length ss = 16"
  shows "fill_writeBuffer n ss = Some (map (out_burst ss) [0..<2 * n], map (drop n) ss)"
  using assms
proof (induction n arbitrary: ss)
  case 0
  then show ?case by simp
next
  case (Suc n)
  have ne: "[] \<notin> set ss" using Suc.prems(1) by fastforce
  have "fill_writeBuffer n (map tl ss) = Some (map (out_burst (map tl ss)) [0..<2 * n], map (drop n) (map tl ss))"
    using Suc.prems by (intro Suc.IH) auto
  then have "fill_writeBuffer (Suc n) ss =
      Some (two_bursts (map hd ss) @ map (out_burst (map tl ss)) [0..<2 * n], map (drop (Suc n)) ss)"
    using ne by (simp add: read_all_def drop_Suc comp_def)
  moreover have "two_bursts (map hd ss) = map (out_burst ss) [0, 1]"
  proof -
    have "hd (ss ! pe) = ss ! pe ! 0" if "pe < 16" for pe
    proof -
      have "ss ! pe \<in> set ss" using that Suc.prems(2) by simp
      with ne show ?thesis by (metis hd_conv_nth)
    qed
    with Suc.prems(2) show ?thesis
      by (simp add: two_bursts_def out_burst_def cell_def burst_of_eq_iff)
  qed
  moreover have "map (out_burst (map tl ss)) [0..<2 * n] = map (out_burst ss) [2..<2 * Suc n]"
  proof -
    have "out_burst (map tl ss) b = out_burst ss (b + 2)" if "b < 2 * n" for b
    proof -
      have "tl (ss ! pe) ! (b div 2) = ss ! pe ! Suc (b div 2)" if "pe < 16" for pe
      proof -
        have "ss ! pe \<in> set ss" using that Suc.prems(2) by simp
        with Suc.prems(1) ne \<open>b < 2 * n\<close> show ?thesis by (intro nth_tl) fastforce
      qed
      with Suc.prems(2) show ?thesis by (simp add: out_burst_def cell_def burst_of_eq_iff)
    qed
    then show ?thesis by (intro nth_equalityI) (simp_all del: upt_Suc)
  qed
  moreover have "[0..<2 * Suc n] = [0, 1] @ [2..<2 * Suc n]"
    using upt_conv_Cons [of 0 "2 * Suc n"] upt_conv_Cons [of 1 "2 * Suc n"] by (simp del: upt_Suc add: numeral_2_eq_2)
  ultimately show ?case by (simp del: upt_Suc)
qed

lemma out_burst_drop:
  assumes "length ss = 16" "\<forall>s \<in> set ss. n + b div 2 < length s"
  shows "out_burst (map (drop n) ss) b = out_burst ss (2 * n + b)"
proof -
  have "drop n (ss ! pe) ! (b div 2) = ss ! pe ! (n + b div 2)" if "pe < 16" for pe
  proof -
    have "ss ! pe \<in> set ss" using that assms(1) by simp
    with assms(2) have "n + b div 2 < length (ss ! pe)" by blast
    then show ?thesis by (intro nth_drop) simp
  qed
  with assms(1) show ?thesis by (simp add: out_burst_def cell_def burst_of_eq_iff)
qed

lemma processEdgeWrite_loop_enough:
  assumes "\<forall>s \<in> set ss. 32 * n \<le> length s" "length ss = 16"
  shows "processEdgeWrite_loop uninit n ss =
    (map (\<lambda>b. uninit\<lparr>bd_data := out_burst ss b\<rparr>) [0..<64 * n], Returned)"
  using assms
proof (induction n arbitrary: ss)
  case 0
  then show ?case by simp
next
  case (Suc n)
  let ?ss = "map (drop 32) ss"
  have t: "TOTAL_STEAM_READ_NUM = 32" by (simp add: TOTAL_STEAM_READ_NUM_def BURST_WRITE_SIZE_def LOG2_PE_NUM_def)
  have "\<forall>s \<in> set ss. 32 \<le> length s" using Suc.prems(1) by fastforce
  from fill_writeBuffer_enough [OF this Suc.prems(2)]
  have f: "fill_writeBuffer TOTAL_STEAM_READ_NUM ss = Some (map (out_burst ss) [0..<64], ?ss)"
    by (simp add: t del: upt_Suc)
  have "processEdgeWrite_loop uninit n ?ss =
      (map (\<lambda>b. uninit\<lparr>bd_data := out_burst ?ss b\<rparr>) [0..<64 * n], Returned)"
    using Suc.prems by (intro Suc.IH) auto
  moreover have "map (\<lambda>b. uninit\<lparr>bd_data := out_burst ?ss b\<rparr>) [0..<64 * n] =
      map (\<lambda>b. uninit\<lparr>bd_data := out_burst ss b\<rparr>) [64..<64 * Suc n]"
  proof -
    have "out_burst ?ss b = out_burst ss (64 + b)" if "b < 64 * n" for b
    proof -
      have "32 + b div 2 < 32 * Suc n" using that by (simp add: less_mult_imp_div_less)
      with Suc.prems show ?thesis by (subst out_burst_drop) (auto intro: less_le_trans)
    qed
    then show ?thesis by (intro nth_equalityI) simp_all
  qed
  moreover have "[0..<64 * Suc n] = [0..<64] @ [64..<64 * Suc n]"
    using upt_add_eq_append [of 0 64 "64 * n"] by (simp only: mult_Suc_right add_0)
  ultimately show ?case using f by (simp del: upt_Suc add: comp_def)
qed

end
