(* ===== verification/Gs_Kernel.thy ===== *)
theory Gs_Kernel
  imports Edge_Reader Shuffle Dst_Process
begin

text \<open>
  The gather-scatter kernel \<open>gs\<close> (\<open>src/clementi/gs.cpp\<close>, \<open>src/gather_scatter/gs.cpp\<close>,
  \<open>src/single_gas/gs.cpp\<close>): its processes composed by their streams, and the theorem that
  a call computes, for every vertex of the partition, the gathered updates of its edges.
  The processes are Kahn processes, so the composition is that of their functions.
\<close>

section \<open>The kernel\<close>

definition all_returned :: "status list \<Rightarrow> status" where
  "all_returned sts = (if \<forall>s \<in> set sts. s = Returned then Returned else Blocked)"

record gs_result =
  gs_out :: "burst_dest list"     \<comment> \<open>\<open>tmpVertexProp\<close>\<close>
  gs_src :: "sv_pkg list"         \<comment> \<open>\<open>srcOut\<close>\<close>
  gs_bufs :: "nat \<Rightarrow> nat \<Rightarrow> u64"   \<comment> \<open>\<open>tmpVPropBuffer\<close>, one for each element\<close>
  gs_status :: status

text \<open>
  What follows \<open>edgeTuplesArray[0]\<close>: the shuffle, two slices, filter, slice, destination
  process, slice and the writer.  An entry of the shuffle has returned exactly when the
  slice behind it has seen the end of the packet.
\<close>

definition gs_build :: "app \<Rightarrow> edge_tuples list \<Rightarrow> nat \<Rightarrow> int2_token list" where
  "gs_build a tuples i =
     fst (processEdgesBuildSlice (fst (tupleFilter (fst (filterSlice (fst (filterSlice (shuffle a tuples ! i))))))))"

definition gs_dst :: "app \<Rightarrow> nat \<Rightarrow> (nat \<Rightarrow> nat \<Rightarrow> u64) \<Rightarrow> edge_tuples list \<Rightarrow> nat \<Rightarrow>
  (nat \<Rightarrow> u64) \<times> u64 list \<times> int2_token list \<times> status" where
  "gs_dst a N bufs tuples i = dstPropertyProcess a N (bufs i) (gs_build a tuples i)"

definition gs_tail :: "app \<Rightarrow> nat \<Rightarrow> burst_dest \<Rightarrow> (nat \<Rightarrow> nat \<Rightarrow> u64) \<Rightarrow> edge_tuples list \<Rightarrow>
  burst_dest list \<times> (nat \<Rightarrow> nat \<Rightarrow> u64) \<times> status" where
  "gs_tail a N uninit bufs tuples =
     (let dst = map (gs_dst a N bufs tuples) [0..<PE_NUM];
          write = processEdgeWrite uninit N (map (\<lambda>d. fst (processEdgesSlice N (fst (snd d)))) dst)
      in (fst write,
          (\<lambda>i. if i < PE_NUM then fst (dst ! i) else bufs i),
          all_returned (snd write # map (\<lambda>d. snd (snd (snd d))) dst)))"

text \<open>The kernel without edge properties.\<close>

definition gs :: "app \<Rightarrow> nat \<Rightarrow> burst \<times> burst \<Rightarrow> burst_dest \<Rightarrow> (nat \<Rightarrow> nat \<Rightarrow> u64) \<Rightarrow>
  mem \<Rightarrow> u32 \<Rightarrow> sv_pkg list \<Rightarrow> gs_result" where
  "gs a N tok0 out0 bufs edgesHeadArray edge_end propIn =
     (let rd = burstRead tok0 edge_end edgesHeadArray;
          so = src_stream_out (fst rd);
          sp = srcPropertyProcess (snd rd) propIn;
          pp = propProcessSelf a (fst sp);
          tl = gs_tail a N out0 bufs (fst pp)
      in \<lparr>gs_out = fst tl, gs_src = fst so, gs_bufs = fst (snd tl),
          gs_status = all_returned [snd (snd so), snd (snd (snd sp)), snd (snd pp), snd (snd tl)]\<rparr>)"

text \<open>The kernel with edge properties (\<open>HAVE_EDGE_PROP\<close>).\<close>

definition gs_edge_prop :: "app \<Rightarrow> nat \<Rightarrow> burst \<times> burst \<Rightarrow> burst \<Rightarrow> burst_dest \<Rightarrow> (nat \<Rightarrow> nat \<Rightarrow> u64) \<Rightarrow>
  mem \<Rightarrow> mem \<Rightarrow> u32 \<Rightarrow> sv_pkg list \<Rightarrow> gs_result" where
  "gs_edge_prop a N tok0 prop0 out0 bufs edgesHeadArray edgeProp edge_end propIn =
     (let rd = burstRead tok0 edge_end edgesHeadArray;
          so = src_stream_out (fst rd);
          ep = fst (sliceStream bt_flag (fst (sliceStream bt_flag (burstReadProp prop0 edge_end edgeProp))));
          sp = srcPropertyProcess (snd rd) propIn;
          pp = propProcess a ep (fst sp);
          tl = gs_tail a N out0 bufs (fst pp)
      in \<lparr>gs_out = fst tl, gs_src = fst so, gs_bufs = fst (snd tl),
          gs_status = all_returned [snd (snd so), snd (snd (snd sp)), snd (snd (snd pp)), snd (snd tl)]\<rparr>)"

text \<open>The kernels that also signal their start to the performance counter.\<close>

definition gather_scatter_gs :: "app \<Rightarrow> nat \<Rightarrow> burst \<times> burst \<Rightarrow> burst_dest \<Rightarrow> (nat \<Rightarrow> nat \<Rightarrow> u64) \<Rightarrow>
  mem \<Rightarrow> u32 \<Rightarrow> sv_pkg list \<Rightarrow> u32 list \<times> gs_result" where
  "gather_scatter_gs a N tok0 out0 bufs edgesHeadArray edge_end propIn =
     ([0], gs a N tok0 out0 bufs edgesHeadArray edge_end propIn)"

definition single_gas_gs :: "app \<Rightarrow> nat \<Rightarrow> burst \<times> burst \<Rightarrow> burst_dest \<Rightarrow> (nat \<Rightarrow> nat \<Rightarrow> u64) \<Rightarrow>
  mem \<Rightarrow> u32 \<Rightarrow> sv_pkg list \<Rightarrow> u32 list \<times> gs_result" where
  "single_gas_gs a N tok0 out0 bufs edgesHeadArray edge_end propIn =
     ([0], gs a N tok0 out0 bufs edgesHeadArray edge_end propIn)"

section \<open>What a call computes\<close>

text \<open>The property that arrived for edge \<open>e\<close>.\<close>

definition edge_prop_in :: "sv_pkg list \<Rightarrow> nat \<Rightarrow> u32" where
  "edge_prop_in props e = lane (e mod 16) (ax_data (props ! (e div 16)))"

text \<open>
  The specification: the updates of vertex \<open>v\<close> from the edges \<open>e < k\<close>, in edge order.
  Edges with the top bit of the destination set are padding.
\<close>

definition update_of :: "app \<Rightarrow> mem \<Rightarrow> sv_pkg list \<Rightarrow> nat \<Rightarrow> int2" where
  "update_of a edges props e = \<lparr>ix = edge_dst edges e, iy = preprocessProperty a (edge_prop_in props e)\<rparr>"

definition vertex_updates :: "app \<Rightarrow> nat \<Rightarrow> mem \<Rightarrow> sv_pkg list \<Rightarrow> nat \<Rightarrow> nat \<Rightarrow> u32 list" where
  "vertex_updates a N edges props k v =
     map iy (filter (\<lambda>d. \<not> bit (ix d) 31 \<and> is_active a (iy d) \<and> unat (ix d) mod N = v)
       (map (update_of a edges props) [0..<k]))"

definition vertex_result :: "app \<Rightarrow> nat \<Rightarrow> mem \<Rightarrow> sv_pkg list \<Rightarrow> nat \<Rightarrow> nat \<Rightarrow> u32" where
  "vertex_result a N edges props k v = gather_all (gatherFunc a) (vertex_updates a N edges props k v)"

subsection \<open>The edge stream up to the shuffle\<close>

lemma tuples_of_groups:
  assumes "0 < m" "length props = m"
  shows "srcPropertyProcess (map (\<lambda>k. \<lparr>bt_data = group_of dst k, bt_flag = False\<rparr>) [0..<m] @
        [\<lparr>bt_data = d, bt_flag = True\<rparr>]) (props @ qs) =
    (concat (map (\<lambda>k. map (out_tuple (group_of dst k) (ax_data (props ! k)) False) [0, 1]) [0..<m - 1]) @
      map (out_tuple (group_of dst (m - 1)) (ax_data (props ! (m - 1))) True) [0, 1], [], [], Returned)"
proof -
  let ?T = "\<lambda>k. \<lparr>bt_data = group_of dst k, bt_flag = False\<rparr>"
  have m: "[0..<m] = 0 # [1..<m]" using assms(1) by (simp add: upt_conv_Cons)
  then have l: "?T 0 # map ?T [1..<m] = map ?T [0..<m]" by simp
  have b: "butlast (map ?T [0..<m]) = map ?T [0..<m - 1]" "last (map ?T [0..<m]) = ?T (m - 1)"
    using assms(1) by (cases m, simp_all)+
  have z: "zip (map ?T [0..<m - 1]) (butlast props) = map (\<lambda>k. (?T k, props ! k)) [0..<m - 1]"
    using assms(2) by (intro nth_equalityI) (simp_all add: nth_butlast)
  have p: "last props = props ! (m - 1)" using assms last_conv_nth [of props] by auto
  have "srcPropertyProcess_loop (?T 0) (map ?T [1..<m] @ \<lparr>bt_data = d, bt_flag = True\<rparr> # []) (props @ qs) =
    (concat (map (\<lambda>(d, p). map (out_tuple (bt_data d) (ax_data p) False) [0, 1])
        (zip (butlast (?T 0 # map ?T [1..<m])) (butlast props))) @
       map (out_tuple (bt_data (last (?T 0 # map ?T [1..<m]))) (ax_data (last props)) True) [0, 1],
     [], [], Returned)"
    by (rule srcPropertyProcess_loop_packet) (use assms in auto)
  then have "srcPropertyProcess_loop (?T 0) (map ?T [1..<m] @ \<lparr>bt_data = d, bt_flag = True\<rparr> # []) (props @ qs) =
    (concat (map (\<lambda>k. map (out_tuple (group_of dst k) (ax_data (props ! k)) False) [0, 1]) [0..<m - 1]) @
      map (out_tuple (group_of dst (m - 1)) (ax_data (props ! (m - 1))) True) [0, 1], [], [], Returned)"
    unfolding l b z p by (simp add: comp_def)
  moreover have "map ?T [0..<m] @ [\<lparr>bt_data = d, bt_flag = True\<rparr>] =
      ?T 0 # map ?T [1..<m] @ \<lparr>bt_data = d, bt_flag = True\<rparr> # []"
    by (simp add: m)
  ultimately show ?thesis by (simp only: srcPropertyProcess_def list.case)
qed

lemma et_data_group:
  "concat (map et_data (map (scatter_self a) (map (out_tuple (group_of (edge_dst edges) k) (ax_data (props ! k)) False) [0, 1]))) =
   map (update_of a edges props) [16 * k..<16 * k + 16]"
proof -
  have "[16 * k..<16 * k + 16] = map (\<lambda>l. 16 * k + l) ([0..<8] @ map (\<lambda>l. l + 8) [0..<8])"
    by (rule nth_equalityI) (auto simp: nth_append)
  moreover have "(16 * k + l) mod 16 = l" "(16 * k + l) div 16 = k" if "l < 16" for l
    using that by simp_all
  ultimately show ?thesis
    by (simp add: scatter_self_def out_tuple_def update_of_def edge_prop_in_def lane_group_of
        PROP_COMPUTE_STAGE0_def)
qed

lemma concat_map_concat: "concat (map h (concat (map F ks))) = concat (map (\<lambda>k. concat (map h (F k))) ks)"
  by (induction ks) simp_all

lemma concat_groups: "concat (map (\<lambda>k. map f [16 * k..<16 * k + 16]) [0..<n]) = map f [0..<16 * n]"
proof (induction n)
  case (Suc n)
  have "[0..<16 * Suc n] = [0..<16 * n] @ [16 * n..<16 * n + 16]"
    using upt_add_eq_append [of 0 "16 * n" 16] by (simp only: mult_Suc_right add.commute)
  with Suc show ?case by simp
qed simp

subsection \<open>From the shuffle to the writer\<close>

lemma filterSlice_shuffle:
  assumes "\<forall>t \<in> set ts. \<not> et_flag t" "et_flag e" "i < 16"
  shows "filterSlice (shuffle a (ts @ [e]) ! i) = (shuffle a (ts @ [e]) ! i, [], Returned)"
proof -
  obtain fs f where "to_filter a i ts e = fs @ [f]" "\<forall>g \<in> set fs. \<not> ft_end g" "ft_end f"
    using to_filter_ends [OF assms(1,2)] by blast
  then show ?thesis using shuffle_packet(1) [OF assms, of a "[]"] by (simp add: filterSlice_packet)
qed

lemma gs_build_packet:
  assumes "\<forall>t \<in> set ts. \<not> et_flag t \<and> length (et_data t) = 8" "et_flag e" "i < 16"
  shows "\<exists>d. gs_build a (ts @ [e]) i =
    map (\<lambda>d. \<lparr>it_data = d, it_flag = False\<rparr>) (filter (valid a i) (concat (map et_data ts))) @
      [\<lparr>it_data = d, it_flag = True\<rparr>]"
proof -
  have f: "\<forall>t \<in> set ts. \<not> et_flag t" using assms(1) by simp
  obtain d where t: "tupleFilter (shuffle a (ts @ [e]) ! i) =
    (map (\<lambda>d. \<lparr>it_data = d, it_flag = False\<rparr>) (filter (valid a i) (concat (map et_data ts))) @
       [\<lparr>it_data = d, it_flag = True\<rparr>], [], Returned)"
    using shuffle_filter_stream [OF assms, of a "[]"] by auto
  have "processEdgesBuildSlice
      (map (\<lambda>d. \<lparr>it_data = d, it_flag = False\<rparr>) (filter (valid a i) (concat (map et_data ts))) @
        [\<lparr>it_data = d, it_flag = True\<rparr>]) =
     (map (\<lambda>d. \<lparr>it_data = d, it_flag = False\<rparr>) (filter (valid a i) (concat (map et_data ts))) @
       [\<lparr>it_data = d, it_flag = True\<rparr>], [], Returned)"
    by (rule processEdgesBuildSlice_packet) auto
  then show ?thesis
    by (simp add: gs_build_def filterSlice_shuffle [OF f assms(2,3)] t)
qed

text \<open>The updates that reach cell \<open>k\<close> of element \<open>i\<close> are those of vertex \<open>16 * k + i\<close>.\<close>

lemma updates_of_vertex:
  assumes "N = 2 ^ n" "4 \<le> n" "i < 16" "k < N div 16"
  shows "updates_for N k (filter (valid a i) (map (update_of a edges props) es)) =
    map iy (filter (\<lambda>d. \<not> bit (ix d) 31 \<and> is_active a (iy d) \<and> unat (ix d) mod N = 16 * k + i)
      (map (update_of a edges props) es))"
proof -
  obtain q where N: "N = 16 * q" using assms(1,2) le_Suc_ex [of 4 n] by (auto simp: power_add)
  have v: "ix d AND HASH_MASK = word_of_nat i \<longleftrightarrow> unat (ix d) mod 16 = i" for d :: int2
  proof -
    have "unat (ix d AND HASH_MASK) = unat (ix d) mod 16"
    proof -
      have "ix d AND HASH_MASK = take_bit 4 (ix d)"
        by (simp add: HASH_MASK_def PE_NUM_def take_bit_eq_mask mask_eq_exp_minus_1)
      then have "unat (ix d AND HASH_MASK) = take_bit 4 (unat (ix d))" by (simp only: unsigned_take_bit_eq)
      then show ?thesis by (simp add: take_bit_eq_mod)
    qed
    moreover have "unat (word_of_nat i :: u32) = i"
      by (rule unat_of_nat_small) (use assms(3) in simp)
    ultimately show ?thesis by (simp add: word_unat_eq_iff)
  qed
  have m: "x mod 16 = i \<and> x div 16 mod (N div 16) = k \<longleftrightarrow> x mod N = 16 * k + i" for x
  proof -
    have "x mod N = 16 * (x div 16 mod q) + x mod 16" by (simp add: N mod_mult2_eq)
    moreover have "16 * A + r = 16 * k + i \<longleftrightarrow> r = i \<and> A = k" if "r < 16" for A r
    proof
      assume e: "16 * A + r = 16 * k + i"
      from that have "(16 * A + r) mod 16 = r" by simp
      moreover from assms(3) have "(16 * k + i) mod 16 = i" by simp
      ultimately show "r = i \<and> A = k" using e by simp
    qed simp
    ultimately show ?thesis using N by simp
  qed
  show ?thesis
    unfolding updates_for_def filter_filter
    by (intro arg_cong [where f = "map iy"] filter_cong refl)
      (auto simp: valid_def v local_idx_def simp flip: m)
qed

lemma processEdgesSlice_all: "length os = N div 32 \<Longrightarrow> processEdgesSlice N os = (os, [], Returned)"
  by (simp add: processEdgesSlice_def LOG2_PE_NUM_def copy_count_enough)

text \<open>The tail of the kernel on a packet of tuples.\<close>

lemma gs_dst_packet:
  assumes "\<forall>t \<in> set ts. \<not> et_flag t \<and> length (et_data t) = 8" "et_flag e" "i < 16"
    and "N = 2 ^ n" "10 \<le> n" "n < 32" "\<forall>t < N div 32. bufs i t = 0"
  shows "snd (snd (snd (gs_dst a N bufs (ts @ [e]) i))) = Returned \<and>
    (\<forall>t < N div 32. fst (gs_dst a N bufs (ts @ [e]) i) t = 0) \<and>
    length (fst (snd (gs_dst a N bufs (ts @ [e]) i))) = N div 32 \<and>
    (\<forall>k < N div 16. cell ((!) (fst (snd (gs_dst a N bufs (ts @ [e]) i)))) k =
       gather_all (gatherFunc a) (updates_for N k (filter (valid a i) (concat (map et_data ts)))))"
proof -
  obtain d where d: "gs_build a (ts @ [e]) i =
      map (\<lambda>d. \<lparr>it_data = d, it_flag = False\<rparr>) (filter (valid a i) (concat (map et_data ts))) @
      \<lparr>it_data = d, it_flag = True\<rparr> # []"
    using gs_build_packet [OF assms(1-3)] by auto
  have "5 \<le> n" using assms(5) by simp
  from dstPropertyProcess_packet [OF assms(4) this assms(6,7), of a "filter (valid a i) (concat (map et_data ts))" d "[]"]
  show ?thesis unfolding gs_dst_def d by auto
qed

lemma gs_tail_packet:
  assumes "\<forall>t \<in> set ts. \<not> et_flag t \<and> length (et_data t) = 8" "et_flag e"
    and "N = 2 ^ n" "10 \<le> n" "n < 32" "\<forall>i<16. \<forall>t < N div 32. bufs i t = 0"
  shows "fst (gs_tail a N uninit bufs (ts @ [e])) =
      map (\<lambda>b. uninit\<lparr>bd_data := burst_of (\<lambda>i. gather_all (gatherFunc a)
        (updates_for N b (filter (valid a i) (concat (map et_data ts)))))\<rparr>) [0..<N div 16]"
    and "\<forall>i<16. \<forall>t < N div 32. fst (snd (gs_tail a N uninit bufs (ts @ [e]))) i t = 0"
    and "snd (snd (gs_tail a N uninit bufs (ts @ [e]))) = Returned"
proof -
  let ?d = "gs_dst a N bufs (ts @ [e])"
  note dst = gs_dst_packet [OF assms(1,2) _ assms(3-5), of _ bufs a]
  have sl: "fst (processEdgesSlice N (fst (snd (?d i)))) = fst (snd (?d i))" if "i < 16" for i
    using dst [OF that] assms(6) that by (simp add: processEdgesSlice_all)
  let ?ss = "map (\<lambda>i. fst (snd (?d i))) [0..<16]"
  have ss: "map (\<lambda>d. fst (processEdgesSlice N (fst (snd d)))) (map ?d [0..<16]) = ?ss"
    by (rule nth_equalityI) (simp_all add: sl)
  from assms(3,4) obtain q where q: "N = 1024 * q" using le_Suc_ex [of 10 n] by (auto simp: power_add)
  have "processEdgeWrite_loop uninit q ?ss =
      (map (\<lambda>b. uninit\<lparr>bd_data := out_burst ?ss b\<rparr>) [0..<64 * q], Returned)"
    by (rule processEdgeWrite_loop_enough) (use dst assms(6) q in auto)
  then have w: "processEdgeWrite uninit N ?ss =
      (map (\<lambda>b. uninit\<lparr>bd_data := out_burst ?ss b\<rparr>) [0..<N div 16], Returned)"
    by (simp add: processEdgeWrite_def LOG2_SIZE_BY_INT_def q)
  have "out_burst ?ss b = burst_of (\<lambda>i. gather_all (gatherFunc a)
        (updates_for N b (filter (valid a i) (concat (map et_data ts)))))" if "b < N div 16" for b
    using dst assms(6) that by (simp add: out_burst_def burst_of_eq_iff)
  with w show "fst (gs_tail a N uninit bufs (ts @ [e])) =
      map (\<lambda>b. uninit\<lparr>bd_data := burst_of (\<lambda>i. gather_all (gatherFunc a)
        (updates_for N b (filter (valid a i) (concat (map et_data ts)))))\<rparr>) [0..<N div 16]"
    unfolding gs_tail_def Let_def PE_NUM_def ss w by simp
  show "\<forall>i<16. \<forall>t < N div 32. fst (snd (gs_tail a N uninit bufs (ts @ [e]))) i t = 0"
    using dst assms(6) by (simp add: gs_tail_def Let_def PE_NUM_def)
  show "snd (snd (gs_tail a N uninit bufs (ts @ [e]))) = Returned"
    unfolding gs_tail_def Let_def PE_NUM_def ss w using dst assms(6) by (auto simp: all_returned_def)
qed

subsection \<open>A call of the kernel\<close>

lemma gs_call:
  assumes "N = 2 ^ n" "10 \<le> n" "n < 32" "0 < m" "32 * m < 2 ^ 32" "length props = m"
    and "\<forall>i<16. \<forall>t < N div 32. bufs i t = 0"
  shows "gs_out (gs a N tok0 out0 bufs edges (word_of_nat (32 * m)) (props @ qs)) =
      map (\<lambda>b. out0\<lparr>bd_data := burst_of (\<lambda>i. vertex_result a N edges props (16 * (m - 1)) (16 * b + i))\<rparr>)
        [0..<N div 16]" (is ?out)
    and "gs_src (gs a N tok0 out0 bufs edges (word_of_nat (32 * m)) (props @ qs)) =
      map (\<lambda>k. \<lparr>ax_data = group_of (edge_src edges) k, ax_last = False\<rparr>) [0..<m] @
        [\<lparr>ax_data = burst_of (\<lambda>i. 0xFFFFFFFF), ax_last = True\<rparr>]" (is ?src)
    and "\<forall>i<16. \<forall>t < N div 32. gs_bufs (gs a N tok0 out0 bufs edges (word_of_nat (32 * m)) (props @ qs)) i t = 0" (is ?bufs)
    and "gs_status (gs a N tok0 out0 bufs edges (word_of_nat (32 * m)) (props @ qs)) = Returned" (is ?status)
proof -
  obtain s d where rd: "burstRead tok0 (word_of_nat (32 * m)) edges =
    (map (\<lambda>k. \<lparr>bt_data = group_of (edge_src edges) k, bt_flag = False\<rparr>) [0..<m] @ [\<lparr>bt_data = s, bt_flag = True\<rparr>],
     map (\<lambda>k. \<lparr>bt_data = group_of (edge_dst edges) k, bt_flag = False\<rparr>) [0..<m] @ [\<lparr>bt_data = d, bt_flag = True\<rparr>])"
    using burstRead_edges [OF assms(4,5)] by blast
  let ?ts = "concat (map (\<lambda>k. map (out_tuple (group_of (edge_dst edges) k) (ax_data (props ! k)) False) [0, 1]) [0..<m - 1])"
  let ?e = "out_tuple (group_of (edge_dst edges) (m - 1)) (ax_data (props ! (m - 1))) True 0"
  let ?e1 = "out_tuple (group_of (edge_dst edges) (m - 1)) (ax_data (props ! (m - 1))) True 1"
  have sp: "srcPropertyProcess (snd (burstRead tok0 (word_of_nat (32 * m)) edges)) (props @ qs) =
      (?ts @ ?e # [?e1], [], [], Returned)"
    unfolding rd snd_conv using tuples_of_groups [OF assms(4,6), of "edge_dst edges" d qs] by simp
  have ts: "\<forall>t \<in> set ?ts. \<not> et_flag t \<and> length (et_data t) = 8" "et_flag ?e"
    by (auto simp: out_tuple_def)
  have pp: "propProcessSelf a (?ts @ ?e # [?e1]) = (map (scatter_self a) ?ts @ [scatter_self a ?e], [], Returned)"
    using propProcessSelf_packet [of ?ts ?e a "[?e1]"] ts by simp
  have ts': "\<forall>t \<in> set (map (scatter_self a) ?ts). \<not> et_flag t \<and> length (et_data t) = 8"
      "et_flag (scatter_self a ?e)"
    using ts by (auto simp: scatter_self_def)
  have cd: "concat (map et_data (map (scatter_self a) ?ts)) = map (update_of a edges props) [0..<16 * (m - 1)]"
  proof -
    have "concat (map et_data (map (scatter_self a) ?ts)) =
        concat (map (\<lambda>k. concat (map et_data (map (scatter_self a)
          (map (out_tuple (group_of (edge_dst edges) k) (ax_data (props ! k)) False) [0, 1])))) [0..<m - 1])"
      using concat_map_concat [of "\<lambda>t. et_data (scatter_self a t)"
          "\<lambda>k. map (out_tuple (group_of (edge_dst edges) k) (ax_data (props ! k)) False) [0, 1]" "[0..<m - 1]"]
      by (simp only: map_map comp_def)
    then show ?thesis by (simp only: et_data_group concat_groups)
  qed
  note tl = gs_tail_packet [OF ts' assms(1-3,7), of a out0, unfolded cd]
  have "4 \<le> n" using assms(2) by simp
  note upd = updates_of_vertex [OF assms(1) this, of _ _ a edges props]
  have so: "src_stream_out (fst (burstRead tok0 (word_of_nat (32 * m)) edges)) =
      (map (\<lambda>k. \<lparr>ax_data = group_of (edge_src edges) k, ax_last = False\<rparr>) [0..<m] @
        [\<lparr>ax_data = burst_of (\<lambda>i. 0xFFFFFFFF), ax_last = True\<rparr>], [], Returned)"
    unfolding rd fst_conv
    by (subst src_stream_out_packet) (auto simp: comp_def)
  let ?t = "gs_tail a N out0 bufs (map (scatter_self a) ?ts @ [scatter_self a ?e])"
  have g: "gs a N tok0 out0 bufs edges (word_of_nat (32 * m)) (props @ qs) =
    \<lparr>gs_out = fst ?t,
     gs_src = map (\<lambda>k. \<lparr>ax_data = group_of (edge_src edges) k, ax_last = False\<rparr>) [0..<m] @
        [\<lparr>ax_data = burst_of (\<lambda>i. 0xFFFFFFFF), ax_last = True\<rparr>],
     gs_bufs = fst (snd ?t), gs_status = all_returned [Returned, Returned, Returned, snd (snd ?t)]\<rparr>"
    unfolding gs_def Let_def sp so fst_conv snd_conv pp by (rule refl)
  have "fst ?t = map (\<lambda>b. out0\<lparr>bd_data := burst_of (\<lambda>i. vertex_result a N edges props (16 * (m - 1)) (16 * b + i))\<rparr>)
        [0..<N div 16]"
    unfolding tl(1) by (intro map_cong refl) (simp add: vertex_result_def vertex_updates_def burst_of_eq_iff upd)
  then show ?out by (simp only: g gs_result.select_convs)
  show ?src by (simp only: g gs_result.select_convs)
  show ?bufs using tl(2) by (simp only: g gs_result.select_convs)
  show ?status using tl(3) by (simp only: g gs_result.select_convs) (simp add: all_returned_def)
qed

end
