(* ===== verification/Edge_File.thy ===== *)
theory Edge_File
  imports Input_Partition Gs_Kernel
begin

text \<open>
  From the partitioner to the kernel: the words of a partition file
  (\<open>partition_schedule/input_aware.cpp\<close>), how the host reads them
  (\<open>host/clementi/mpi_graph_partition.cpp\<close>) and what the kernel then gathers.
\<close>

section \<open>File and device buffer\<close>

text \<open>The binary file: two 32-bit words for every pair.\<close>

definition file_words :: "vedge list \<Rightarrow> u32 list" where
  "file_words f = concat (map (\<lambda>e. [word_of_int (fst e), word_of_int (snd e)]) f)"

text \<open>The host reads the first word as the number of edges, and the edges behind the second.\<close>

definition edgeNumChunk :: "u32 list \<Rightarrow> int" where
  "edgeNumChunk ws = sint (ws ! 0)"

definition chunkEdgeData :: "u32 list \<Rightarrow> u32 list" where
  "chunkEdgeData ws =
     (let read_size = sint (ws ! 1)
      in take (nat (read_size * 2)) (drop 2 ws))"

text \<open>The edge buffer as the kernel sees it, sixteen words in a burst.\<close>

definition buffer_mem :: "u32 list \<Rightarrow> mem" where
  "buffer_mem ws w = burst_of (\<lambda>l. if 16 * w + l < length ws then ws ! (16 * w + l) else 0)"

text \<open>The argument \<open>edge_end\<close> of the kernel.\<close>

definition edge_end_arg :: "u32 list \<Rightarrow> u32" where
  "edge_end_arg ws = word_of_int (edgeNumChunk ws * 2)"

subsection \<open>The round trip\<close>

lemma length_file_words: "length (file_words f) = 2 * length f"
  by (induction f) (simp_all add: file_words_def)

lemma file_words_Cons: "file_words (e # f) = word_of_int (fst e) # word_of_int (snd e) # file_words f"
  by (simp add: file_words_def)

lemma file_words_nth:
  "e < length f \<Longrightarrow> file_words f ! (2 * e) = word_of_int (fst (f ! e)) \<and> file_words f ! (2 * e + 1) = word_of_int (snd (f ! e))"
proof (induction f arbitrary: e)
  case (Cons x f)
  then show ?case by (cases e) (simp_all add: file_words_Cons)
qed simp

lemma sint_of_count: "c < 2 ^ 31 \<Longrightarrow> sint (word_of_int (int c) :: u32) = int c"
proof -
  assume "c < 2 ^ 31"
  then have "int c < int (2 ^ 31)" by (simp only: of_nat_less_iff)
  then have "int c < 2 ^ 31" by (simp only: of_nat_power of_nat_numeral)
  then have "signed_take_bit 31 (int c) = int c" by (intro signed_take_bit_int_eq_self) simp_all
  moreover have "sint (word_of_int (int c) :: u32) = signed_take_bit 31 (int c)"
    by (subst signed_of_int) simp
  ultimately show ?thesis by simp
qed

lemma file_loads:
  assumes "length es < 2 ^ 31"
  shows "edgeNumChunk (file_words ((int (length es), int (length es)) # es)) = int (length es)"
    and "chunkEdgeData (file_words ((int (length es), int (length es)) # es)) = file_words es"
proof -
  have s: "sint (word_of_int (int (length es)) :: u32) = int (length es)" using assms by (rule sint_of_count)
  show "edgeNumChunk (file_words ((int (length es), int (length es)) # es)) = int (length es)"
    by (simp only: edgeNumChunk_def file_words_Cons fst_conv nth_Cons_0 s)
  have "chunkEdgeData (file_words ((int (length es), int (length es)) # es)) = take (nat (int (length es) * 2)) (file_words es)"
    by (simp only: chunkEdgeData_def Let_def file_words_Cons fst_conv snd_conv nth_Cons_0 nth_Cons_Suc One_nat_def s
        numeral_2_eq_2 drop_Suc_Cons drop_0)
  moreover have "nat (int (length es) * 2) = length (file_words es)" by (simp add: length_file_words)
  ultimately show "chunkEdgeData (file_words ((int (length es), int (length es)) # es)) = file_words es" by simp
qed

lemma buffer_mem_edges:
  assumes "e < length es"
  shows "edge_src (buffer_mem (file_words es)) e = word_of_int (fst (es ! e))"
    and "edge_dst (buffer_mem (file_words es)) e = word_of_int (snd (es ! e))"
proof -
  have "16 * (e div 8) + 2 * (e mod 8) = 2 * e" using div_mult_mod_eq [of e 8] by linarith
  moreover have "2 * (e mod 8) < 16" "2 * (e mod 8) + 1 < 16" by simp_all
  ultimately show "edge_src (buffer_mem (file_words es)) e = word_of_int (fst (es ! e))"
      "edge_dst (buffer_mem (file_words es)) e = word_of_int (snd (es ! e))"
    using assms file_words_nth [OF assms]
    by (simp_all add: edge_src_def edge_dst_def buffer_mem_def lane_burst_of length_file_words flip: add.assoc)
qed

section \<open>What the kernel gathers from a file\<close>

text \<open>
  The updates of vertex \<open>v\<close> from the edges of a list, where edge \<open>e\<close> brings the property
  that the cache sent for it.
\<close>

definition list_updates :: "app \<Rightarrow> nat \<Rightarrow> vedge list \<Rightarrow> sv_pkg list \<Rightarrow> nat \<Rightarrow> u32 list" where
  "list_updates a N es props v =
     map snd (filter (\<lambda>(e, p). nat (snd e) mod N = v \<and> is_active a p)
       (zip es (map (\<lambda>k. preprocessProperty a (edge_prop_in props k)) [0..<length es])))"

lemma vertex_updates_list:
  assumes "\<And>k. k < length es \<Longrightarrow> edge_dst edges k = word_of_int (snd (es ! k))"
    and "\<And>k. length es \<le> k \<Longrightarrow> k < n \<Longrightarrow> bit (edge_dst edges k) 31"
    and "\<forall>e \<in> set es. 0 \<le> snd e \<and> snd e < 2 ^ 31" "length es \<le> n"
  shows "vertex_updates a N edges props n v = list_updates a N es props v"
proof -
  let ?P = "\<lambda>d. \<not> bit (ix d) 31 \<and> is_active a (iy d) \<and> unat (ix d) mod N = v"
  have split: "[0..<n] = [0..<length es] @ [length es..<n]"
    using upt_add_eq_append [of 0 "length es" "n - length es"] assms(4) by simp
  have pad: "filter ?P (map (update_of a edges props) [length es..<n]) = []"
    using assms(2) by (auto simp: filter_empty_conv update_of_def)
  have dst: "\<not> bit (edge_dst edges k) 31 \<and> unat (edge_dst edges k) = nat (snd (es ! k))" if "k < length es" for k
  proof -
    have r: "0 \<le> snd (es ! k)" "snd (es ! k) < 2 ^ 31" using assms(3) that by auto
    then have "take_bit 32 (snd (es ! k)) = snd (es ! k)" by (simp add: take_bit_int_eq_self)
    then have "unat (word_of_int (snd (es ! k)) :: u32) = nat (snd (es ! k))"
      by (simp add: unsigned_of_int)
    moreover have "\<not> bit (word_of_int (snd (es ! k)) :: u32) 31"
    proof -
      have "\<not> bit (snd (es ! k)) 31" using r by (simp add: bit_iff_odd div_pos_pos_trivial)
      then show ?thesis by (simp add: bit_simps)
    qed
    ultimately show ?thesis by (simp add: assms(1) [OF that])
  qed
  have "filter ?P (map (update_of a edges props) [0..<length es]) =
      map (update_of a edges props) (filter (\<lambda>k. is_active a (preprocessProperty a (edge_prop_in props k)) \<and> nat (snd (es ! k)) mod N = v) [0..<length es])"
    unfolding filter_map by (intro arg_cong [where f = "map (update_of a edges props)"] filter_cong refl)
      (auto simp: update_of_def dst)
  moreover have "zip es (map g [0..<length es]) = map (\<lambda>k. (es ! k, g k)) [0..<length es]" for g :: "nat \<Rightarrow> u32"
    by (rule nth_equalityI) simp_all
  moreover have "filter ?P (map (update_of a edges props) [0..<n]) = filter ?P (map (update_of a edges props) [0..<length es])"
    by (simp only: split map_append filter_append pad append_Nil2)
  ultimately show ?thesis
    by (simp only: vertex_updates_def list_updates_def) (simp add: filter_map comp_def update_of_def conj_commute)
qed

lemma save_edges_parts:
  assumes "mset (edgeSort (concat bs)) = mset (concat bs)" "length (concat bs) + 32 < 2 ^ 31"
  obtains k m x where "save_edges edgeSort bs = (int (16 * m), int (16 * m)) # edgeSort (concat bs) @ replicate k (x, padding_dst)"
    "length (edgeSort (concat bs)) + k = 16 * m" "17 \<le> k" "k \<le> 32"
proof -
  obtain k x where k: "save_edges edgeSort bs = (int (length (concat bs) + k), int (length (concat bs) + k)) #
      edgeSort (concat bs) @ replicate k (x, padding_dst)" "(length (concat bs) + k) mod 16 = 0" "17 \<le> k" "k \<le> 32"
    using save_edges_shape [of edgeSort bs, OF assms, unfolded Let_def] by (elim exE conjE) (rule that)
  moreover have "length (concat bs) + k = 16 * ((length (concat bs) + k) div 16)"
    using k(2) div_mult_mod_eq [of "length (concat bs) + k" 16] by linarith
  moreover have "length (edgeSort (concat bs)) = length (concat bs)" using assms(1) by (rule mset_eq_length)
  ultimately show ?thesis using that by metis
qed

lemma gs_gathers_file:
  assumes "mset (edgeSort (concat bs)) = mset (concat bs)" "length (concat bs) + 32 < 2 ^ 27"
    and "\<forall>e \<in> set (concat bs). 0 \<le> snd e \<and> snd e < 2 ^ 31"
    and "N = 2 ^ n" "10 \<le> n" "n < 32" "\<forall>i<16. \<forall>t < N div 32. bufs i t = 0"
    and "ws = file_words (save_edges edgeSort bs)"
    and "int (16 * length props) = edgeNumChunk ws"
  shows "gs_out (gs a N tok0 out0 bufs (buffer_mem (chunkEdgeData ws)) (edge_end_arg ws) (props @ qs)) =
    map (\<lambda>b. out0\<lparr>bd_data := burst_of (\<lambda>i.
        gather_all (gatherFunc a) (list_updates a N (edgeSort (concat bs)) props (16 * b + i)))\<rparr>) [0..<N div 16]"
proof -
  let ?es = "edgeSort (concat bs)"
  have l: "length (concat bs) + 32 < 2 ^ 31" using assms(2) by simp
  obtain k m x where f: "save_edges edgeSort bs = (int (16 * m), int (16 * m)) # ?es @ replicate k (x, padding_dst)"
    "length ?es + k = 16 * m" "17 \<le> k" "k \<le> 32"
    using save_edges_parts [of edgeSort bs, OF assms(1) l] that by metis
  let ?all = "?es @ replicate k (x, padding_dst)"
  have c: "length ?all = 16 * m" using f(2) by simp
  have le: "length ?es = length (concat bs)" using assms(1) by (rule mset_eq_length)
  have small: "16 * m < 2 ^ 27" using assms(2) f(2,4) le by linarith
  then have "length ?all < 2 ^ 31" unfolding c by simp
  note ld = file_loads [OF this, unfolded c]
  have ws: "edgeNumChunk ws = int (16 * m)" "chunkEdgeData ws = file_words ?all"
    using ld by (simp_all only: assms(8) f(1))
  have m: "length props = m" using assms(9) ws(1) by simp
  have e: "edge_end_arg ws = word_of_nat (32 * m)"
    by (simp add: edge_end_arg_def ws(1))
  have "0 < m" "32 * m < 2 ^ 32" using f(2,3) small by auto
  note g = gs_call(1) [OF assms(4-6) this m assms(7), of a tok0 out0 "buffer_mem (file_words ?all)" qs]
  have "vertex_updates a N (buffer_mem (file_words ?all)) props (16 * (m - 1)) v = list_updates a N ?es props v" for v
  proof (rule vertex_updates_list)
    fix j assume "j < length ?es"
    then show "edge_dst (buffer_mem (file_words ?all)) j = word_of_int (snd (?es ! j))"
      using buffer_mem_edges(2) [of j ?all] by (simp add: nth_append)
  next
    fix j assume j: "length ?es \<le> j" "j < 16 * (m - 1)"
    then have "j < length ?all" using c by linarith
    then have "edge_dst (buffer_mem (file_words ?all)) j = word_of_int padding_dst"
      using buffer_mem_edges(2) [of j ?all] j(1) f(2) c by (simp add: nth_append)
    then show "bit (edge_dst (buffer_mem (file_words ?all)) j) 31"
      by (simp add: padding_dst_def bit_simps)
  next
    show "\<forall>e \<in> set ?es. 0 \<le> snd e \<and> snd e < 2 ^ 31"
      using assms(3) mset_eq_setD [OF assms(1)] by blast
    show "length ?es \<le> 16 * (m - 1)" using f(2,3) by linarith
  qed
  then show ?thesis by (simp only: ws(2) e g vertex_result_def)
qed

end
