(* ===== verification/Apply_Merge.thy ===== *)
theory Apply_Merge
  imports Edge_Reader Streams Apps
begin

text \<open>
  What happens to the bursts after the gather-scatter kernels: merging the partial results
  (\<open>cuMerge\<close>, \<open>streamMerge\<close>), the apply stage (\<open>applyFunction\<close>, \<open>streamApply\<close>), forwarding
  (\<open>cuDuplicate_two\<close>, \<open>streamForward\<close>), writing the new properties to memory (\<open>streamWrite\<close>)
  and the flow control of the networked variant (\<open>streamSync\<close>), from
  \<open>src/header/fpga_apply.h\<close>, \<open>src/clementi\<close>, \<open>src/single_gas\<close> and \<open>src/gather_scatter\<close>.
  Fields of a beat that the code does not assign keep the value of the argument \<open>uninit\<close>.
\<close>

section \<open>Merging\<close>

text \<open>The unrolled loop over the sixteen lanes.\<close>

definition merge_burst :: "app \<Rightarrow> burst \<Rightarrow> burst \<Rightarrow> burst" where
  "merge_burst a x y = burst_of (\<lambda>inner. PROP_COMPUTE_STAGE4 a (lane inner x) (lane inner y))"

fun cuMerge :: "app \<Rightarrow> nat \<Rightarrow> burst list \<Rightarrow> burst list \<Rightarrow> burst list \<times> burst list \<times> burst list \<times> status" where
  "cuMerge a 0 xs ys = ([], xs, ys, Returned)"
| "cuMerge a (Suc n) [] ys = ([], [], ys, Blocked)"
| "cuMerge a (Suc n) (x # xs) [] = ([], xs, [], Blocked)"
| "cuMerge a (Suc n) (x # xs) (y # ys) =
     (case cuMerge a n xs ys of (os, xs', ys', st) \<Rightarrow> (merge_burst a x y # os, xs', ys', st))"

fun cuDuplicate_two :: "nat \<Rightarrow> 't list \<Rightarrow> 't list \<times> 't list \<times> 't list \<times> status" where
  "cuDuplicate_two 0 xs = ([], [], xs, Returned)"
| "cuDuplicate_two (Suc n) [] = ([], [], [], Blocked)"
| "cuDuplicate_two (Suc n) (x # xs) =
     (case cuDuplicate_two n xs of (os, os', rest, st) \<Rightarrow> (x # os, x # os', rest, st))"

text \<open>The free-running kernel: it never returns, its output is a function of its inputs.\<close>

fun streamMerge :: "app \<Rightarrow> burst_dest \<Rightarrow> burst_dest list \<Rightarrow> burst_dest list \<Rightarrow> burst_dest list" where
  "streamMerge a uninit (x # xs) (y # ys) =
     uninit\<lparr>bd_data := merge_burst a (bd_data x) (bd_data y)\<rparr> # streamMerge a uninit xs ys"
| "streamMerge a uninit _ _ = []"

definition streamForward :: "burst_dest list \<Rightarrow> (nat \<times> burst_dest) list \<times> burst_dest list \<times> status" where
  "streamForward = token_loop (\<lambda>unit. ([(1, unit), (2, unit)], False))"

text \<open>
  The variants of \<open>src/single_gas\<close> cut the stream into frames of at most 22 beats; \<open>i\<close> is
  the position in the partition, which starts anew after \<open>loopNum\<close> beats.
\<close>

definition frame_last :: "nat \<Rightarrow> nat \<Rightarrow> bool" where
  "frame_last loopNum i \<longleftrightarrow> loopNum - 1 = i \<or> (i + 1) mod 22 = 0"

definition net_beat :: "nat \<Rightarrow> nat \<Rightarrow> burst \<Rightarrow> burst_dest" where
  "net_beat loopNum i d = \<lparr>bd_data = d, bd_keep = - 1, bd_last = frame_last loopNum i, bd_dest = 1\<rparr>"

definition next_beat :: "nat \<Rightarrow> nat \<Rightarrow> nat" where
  "next_beat loopNum i = (if i + 1 < loopNum then i + 1 else 0)"

fun gas_streamMerge :: "app \<Rightarrow> nat \<Rightarrow> nat \<Rightarrow> burst_dest list \<Rightarrow> burst_dest list \<Rightarrow> burst_dest list" where
  "gas_streamMerge a loopNum i (x # xs) (y # ys) =
     net_beat loopNum i (merge_burst a (bd_data x) (bd_data y)) #
       gas_streamMerge a loopNum (next_beat loopNum i) xs ys"
| "gas_streamMerge a loopNum i _ _ = []"

fun gas_streamForward :: "nat \<Rightarrow> nat \<Rightarrow> burst_dest list \<Rightarrow> (nat \<times> burst_dest) list" where
  "gas_streamForward loopNum i [] = []"
| "gas_streamForward loopNum i (x # xs) =
     (let unit = net_beat loopNum i (bd_data x)
      in (1, unit) # (2, unit) # gas_streamForward loopNum (next_beat loopNum i) xs)"

lemma lane_merge_burst [lane_simps]:
  "i < 16 \<Longrightarrow> lane i (merge_burst a x y) = gatherFunc a (lane i x) (lane i y)"
  by (simp add: merge_burst_def lane_burst_of PROP_COMPUTE_STAGE4_def)

lemma streamMerge_zip:
  "streamMerge a uninit xs ys = map (\<lambda>(x, y). uninit\<lparr>bd_data := merge_burst a (bd_data x) (bd_data y)\<rparr>) (zip xs ys)"
  by (induction a uninit xs ys rule: streamMerge.induct) auto

lemma cuMerge_enough:
  assumes "n \<le> length xs" "n \<le> length ys"
  shows "cuMerge a n xs ys = (map (\<lambda>(x, y). merge_burst a x y) (zip (take n xs) (take n ys)), drop n xs, drop n ys, Returned)"
  using assms by (induction a n xs ys rule: cuMerge.induct) auto

lemma cuDuplicate_two_enough:
  "n \<le> length xs \<Longrightarrow> cuDuplicate_two n xs = (take n xs, take n xs, drop n xs, Returned)"
  by (induction n xs rule: cuDuplicate_two.induct) auto

lemma streamForward_ports:
  "port 1 (fst (streamForward xs)) = xs \<and> port 2 (fst (streamForward xs)) = xs"
  unfolding streamForward_def
  by (subst token_loop_free_run, simp, subst token_loop_free_run, simp)
    (induction xs, simp_all add: stream_simps)

lemma next_beat_iter: "i < n \<Longrightarrow> next_beat n i = (i + 1) mod n"
  by (cases "i + 1 < n") (auto simp: next_beat_def not_less Suc_le_eq dest: le_antisym)

lemma gas_streamMerge_nth:
  assumes "i < n" "t < length xs" "length ys = length xs"
  shows "gas_streamMerge a n i xs ys ! t =
    net_beat n ((i + t) mod n) (merge_burst a (bd_data (xs ! t)) (bd_data (ys ! t)))"
  using assms
proof (induction a n i xs ys arbitrary: t rule: gas_streamMerge.induct)
  case (1 a n i x xs y ys)
  show ?case
  proof (cases t)
    case 0
    with 1 show ?thesis by simp
  next
    case (Suc s)
    have "next_beat n i < n" using "1.prems" by (simp add: next_beat_iter)
    with 1 Suc show ?thesis by (simp add: next_beat_iter mod_simps)
  qed
qed simp_all

section \<open>The apply stage\<close>

text \<open>
  \<open>infoArray\<close> has one counter for each lane (\<open>APPLY_REF_ARRAY_SIZE\<close> is 1 in all three
  applications).  \<open>tmpInfoArray\<close> is a local array that nothing initialises: the arguments
  \<open>junk\<close> stand for its contents.
\<close>

definition apply_lane :: "app \<Rightarrow> u32 \<Rightarrow> (nat \<Rightarrow> u32) \<Rightarrow> burst \<Rightarrow> burst \<Rightarrow> burst option \<Rightarrow> nat \<Rightarrow> u32 \<times> u32" where
  "apply_lane a argReg junk vertexProp tmpVertexProp outDeg i =
     applyFunc a (lane i tmpVertexProp) (lane i vertexProp)
       (case outDeg of Some d \<Rightarrow> lane i d | None \<Rightarrow> 0) (junk i) argReg"

fun applyFunction_loop :: "app \<Rightarrow> burst_dest \<Rightarrow> u32 \<Rightarrow> (nat \<Rightarrow> nat \<Rightarrow> u32) \<Rightarrow> nat \<Rightarrow> nat \<Rightarrow> (nat \<Rightarrow> u32) \<Rightarrow>
  burst list option \<Rightarrow> burst list \<Rightarrow> burst_dest list \<Rightarrow>
  burst_dest list \<times> (nat \<Rightarrow> u32) \<times> burst list option \<times> burst list \<times> burst_dest list \<times> status" where
  "applyFunction_loop a uninit arg junk c 0 info degs props tmps = ([], info, degs, props, tmps, Returned)"
| "applyFunction_loop a uninit arg junk c (Suc n) info degs [] tmps = ([], info, degs, [], tmps, Blocked)"
| "applyFunction_loop a uninit arg junk c (Suc n) info degs (p # props) [] = ([], info, degs, props, [], Blocked)"
| "applyFunction_loop a uninit arg junk c (Suc n) info degs (p # props) (t # tmps) =
     (if degs = Some [] then ([], info, degs, props, tmps, Blocked)
      else let deg = map_option hd degs;
               r = apply_lane a arg (junk c) p (bd_data t) deg;
               out = uninit\<lparr>bd_data := burst_of (\<lambda>i. fst (r i))\<rparr>
           in (case applyFunction_loop a uninit arg junk (c + 1) n (\<lambda>i. info i + snd (r i))
                   (map_option tl degs) props tmps of
                 (os, info', degs', props', tmps', st) \<Rightarrow> (out # os, info', degs', props', tmps', st)))"

definition infoAggregate :: "(nat \<Rightarrow> u32) \<Rightarrow> u32" where
  "infoAggregate info = (\<Sum>i\<leftarrow>[0..<16]. info i)"

text \<open>
  The result: the bursts written, \<open>outReg[0]\<close> (\<open>None\<close> when the call did not get there),
  and what is left in the three FIFOs.
\<close>

definition applyFunction :: "app \<Rightarrow> burst_dest \<Rightarrow> (nat \<Rightarrow> nat \<Rightarrow> u32) \<Rightarrow> nat \<Rightarrow>
  burst list option \<Rightarrow> burst list \<Rightarrow> burst_dest list \<Rightarrow> u32 \<Rightarrow>
  burst_dest list \<times> u32 option \<times> burst list option \<times> burst list \<times> burst_dest list \<times> status" where
  "applyFunction a uninit junk loopNum degs props tmps argReg =
     (case applyFunction_loop a uninit argReg junk 0 loopNum (\<lambda>_. 0) degs props tmps of
        (os, info, degs', props', tmps', Returned) \<Rightarrow> (os, Some (infoAggregate info), degs', props', tmps', Returned)
      | (os, info, degs', props', tmps', Blocked) \<Rightarrow> (os, None, degs', props', tmps', Blocked))"

text \<open>
  \<open>streamApply\<close>: the two memory streams are \<open>static\<close>, so a call starts with what the
  call before has left in them.  \<open>loopNum\<close> is \<open>vertexNum >> 4\<close>.
\<close>

definition streamApply :: "app \<Rightarrow> burst_dest \<Rightarrow> (nat \<Rightarrow> nat \<Rightarrow> u32) \<Rightarrow> mem \<Rightarrow> mem option \<Rightarrow>
  burst list \<Rightarrow> burst list \<Rightarrow> burst_dest list \<Rightarrow> u32 \<Rightarrow> u32 \<Rightarrow> u32 \<Rightarrow>
  burst_dest list \<times> u32 option \<times> burst list option \<times> burst list \<times> burst_dest list \<times> status" where
  "streamApply a uninit junk vertexProp outDegree left_deg left_prop input_from_merge addrOffset vertexNum argReg =
     applyFunction a uninit junk (unat (drop_bit 4 vertexNum))
       (map_option (\<lambda>d. left_deg @ burstReadLiteRaw addrOffset vertexNum d) outDegree)
       (left_prop @ burstReadLiteRaw addrOffset vertexNum vertexProp) input_from_merge argReg"

lemma applyFunction_loop_enough:
  assumes "n \<le> length props" "n \<le> length tmps" "case degs of Some d \<Rightarrow> n \<le> length d | None \<Rightarrow> True"
  shows "applyFunction_loop a uninit arg junk c n info degs props tmps =
    (map (\<lambda>t. uninit\<lparr>bd_data := burst_of (\<lambda>i. fst (apply_lane a arg (junk (c + t)) (props ! t) (bd_data (tmps ! t))
        (map_option (\<lambda>d. d ! t) degs) i))\<rparr>) [0..<n],
     (\<lambda>i. info i + (\<Sum>t\<leftarrow>[0..<n]. snd (apply_lane a arg (junk (c + t)) (props ! t) (bd_data (tmps ! t))
        (map_option (\<lambda>d. d ! t) degs) i))),
     map_option (drop n) degs, drop n props, drop n tmps, Returned)"
  using assms
proof (induction n arbitrary: c info degs props tmps)
  case 0
  then show ?case by (cases degs) simp_all
next
  case (Suc n)
  obtain p ps where p: "props = p # ps" using Suc.prems(1) by (cases props) auto
  obtain t ts where t: "tmps = t # ts" using Suc.prems(2) by (cases tmps) auto
  have d: "degs \<noteq> Some []" using Suc.prems(3) by auto
  have l: "n \<le> length ps" "n \<le> length ts" "case map_option tl degs of Some d \<Rightarrow> n \<le> length d | None \<Rightarrow> True"
    using Suc.prems p t by (auto split: option.splits)
  have tl_nth: "map_option (\<lambda>d. d ! s) (map_option tl degs) = map_option (\<lambda>d. d ! Suc s) degs" if "s < n" for s
    using Suc.prems(3) that by (cases degs) (auto simp: nth_tl)
  have hd0: "map_option hd degs = map_option (\<lambda>d. d ! 0) degs"
    using Suc.prems(3) by (cases degs) (auto intro!: hd_conv_nth)
  have dr: "map_option (drop n) (map_option tl degs) = map_option (drop (Suc n)) degs"
    by (cases degs) (simp_all add: drop_Suc)
  have u: "[0..<Suc n] = 0 # map Suc [0..<n]" by (simp add: upt_conv_Cons map_Suc_upt del: upt_Suc)
  have IH: "applyFunction_loop a uninit arg junk (Suc c) n info' (map_option tl degs) ps ts =
    (map (\<lambda>s. uninit\<lparr>bd_data := burst_of (\<lambda>i. fst (apply_lane a arg (junk (Suc c + s)) (ps ! s) (bd_data (ts ! s))
        (map_option (\<lambda>d. d ! Suc s) degs) i))\<rparr>) [0..<n],
     (\<lambda>i. info' i + (\<Sum>s\<leftarrow>[0..<n]. snd (apply_lane a arg (junk (Suc c + s)) (ps ! s) (bd_data (ts ! s))
        (map_option (\<lambda>d. d ! Suc s) degs) i))),
     map_option (drop (Suc n)) degs, drop n ps, drop n ts, Returned)" for info'
    unfolding Suc.IH [OF l] dr
    by (intro arg_cong2 [where f = Pair] map_cong ext arg_cong [where f = sum_list] arg_cong2 [where f = plus] refl)
       (simp_all add: tl_nth del: option.map_comp)
  show ?case
    unfolding u using d by (simp add: p t IH Let_def comp_def hd0 add.assoc del: upt_Suc)
qed

text \<open>
  A call on a whole number of 64-word rows: every burst is the lane-wise apply, the report
  is the sum over all lanes and bursts, and nothing stays in the static streams.
\<close>

lemma streamApply_rows:
  assumes "0 < k" "off + 64 * k + 64 < 2 ^ 28" "64 * k \<le> length tmps"
  shows "streamApply a uninit junk vertexProp outDegree [] [] tmps
      (word_of_nat (16 * off)) (word_of_nat (16 * (64 * k))) arg =
    (map (\<lambda>t. uninit\<lparr>bd_data := burst_of (\<lambda>i. fst (apply_lane a arg (junk t) (vertexProp (off + t)) (bd_data (tmps ! t))
        (map_option (\<lambda>d. d (off + t)) outDegree) i))\<rparr>) [0..<64 * k],
     Some (\<Sum>i\<leftarrow>[0..<16]. \<Sum>t\<leftarrow>[0..<64 * k]. snd (apply_lane a arg (junk t) (vertexProp (off + t)) (bd_data (tmps ! t))
        (map_option (\<lambda>d. d (off + t)) outDegree) i)),
     map_option (\<lambda>_. []) outDegree, [], drop (64 * k) tmps, Returned)"
proof -
  let ?n = "64 * k"
  have r: "((?n - 1) div 64 + 1) * 64 = ?n"
  proof -
    have "(?n - 1) div 64 = k - 1" using assms(1) by (cases k) (auto intro: div_nat_eqI)
    with assms(1) show ?thesis by simp
  qed
  have rd: "burstReadLiteRaw (word_of_nat (16 * off)) (word_of_nat (16 * ?n)) m = map (\<lambda>t. m (off + t)) [0..<?n]" for m
    using burstReadLiteRaw_words [of ?n off m] assms unfolding r by simp
  have "unat (word_of_nat (16 * ?n) :: u32) = 16 * ?n"
    by (rule unat_of_nat_small) (use assms in simp)
  then have l: "unat (drop_bit 4 (word_of_nat (16 * ?n) :: u32)) = ?n"
    by (simp only: unat_drop_bit_eq) (simp add: drop_bit_eq_div)
  define degs where "degs = map_option (\<lambda>d. map (\<lambda>t. d (off + t)) [0..<?n]) outDegree"
  have dl: "case degs of Some d \<Rightarrow> ?n \<le> length d | None \<Rightarrow> True"
    by (cases outDegree) (simp_all add: degs_def)
  have dn: "map_option (\<lambda>d. d ! t) degs = map_option (\<lambda>d. d (off + t)) outDegree" if "t < ?n" for t
    using that by (cases outDegree) (simp_all add: degs_def)
  have dd: "map_option (drop ?n) degs = map_option (\<lambda>_. []) outDegree"
    by (cases outDegree) (simp_all add: degs_def)
  have e: "streamApply a uninit junk vertexProp outDegree [] [] tmps
      (word_of_nat (16 * off)) (word_of_nat (16 * ?n)) arg =
    applyFunction a uninit junk ?n degs (map (\<lambda>t. vertexProp (off + t)) [0..<?n]) tmps arg"
    unfolding streamApply_def l rd degs_def append_Nil by (rule refl)
  have sm: "(\<Sum>t\<leftarrow>[0..<?n]. snd (apply_lane a arg (junk t) (map (\<lambda>t. vertexProp (off + t)) [0..<?n] ! t)
        (bd_data (tmps ! t)) (map_option (\<lambda>d. d ! t) degs) i)) =
      (\<Sum>t\<leftarrow>[0..<?n]. snd (apply_lane a arg (junk t) (vertexProp (off + t)) (bd_data (tmps ! t))
        (map_option (\<lambda>d. d (off + t)) outDegree) i))" for i
    by (intro arg_cong [where f = sum_list] map_cong refl) (simp add: dn)
  show ?thesis
    unfolding e applyFunction_def
    using applyFunction_loop_enough [of ?n "map (\<lambda>t. vertexProp (off + t)) [0..<?n]" tmps degs a uninit arg junk 0 "\<lambda>_. 0"]
      dl assms(3)
    by (simp add: dd infoAggregate_def sm) (simp add: dn cong: map_cong)
qed

text \<open>
  A number of vertices that is not a multiple of 1024 leaves words of this call in the
  static streams, for the next call to take as its own.
\<close>

lemma streamApply_left_over:
  assumes "0 < n" "off + n + 64 < 2 ^ 28" "n \<le> length tmps"
  shows "fst (snd (snd (snd (streamApply a uninit junk vertexProp None [] [] tmps
      (word_of_nat (16 * off)) (word_of_nat (16 * n)) arg)))) =
    map (\<lambda>t. vertexProp (off + t)) [n..<((n - 1) div 64 + 1) * 64]"
proof -
  let ?m = "((n - 1) div 64 + 1) * 64"
  have m: "n \<le> ?m"
  proof -
    have "n - 1 < 64 * ((n - 1) div 64) + 64"
      using div_mult_mod_eq [of "n - 1" 64] mod_less_divisor [of 64 "n - 1"] by simp
    then show ?thesis by simp
  qed
  have "unat (word_of_nat (16 * n) :: u32) = 16 * n"
    by (rule unat_of_nat_small) (use assms in simp)
  then have l: "unat (drop_bit 4 (word_of_nat (16 * n) :: u32)) = n"
    by (simp only: unat_drop_bit_eq) (simp add: drop_bit_eq_div)
  have "streamApply a uninit junk vertexProp None [] [] tmps (word_of_nat (16 * off)) (word_of_nat (16 * n)) arg =
    applyFunction a uninit junk n None (map (\<lambda>t. vertexProp (off + t)) [0..<?m]) tmps arg"
    unfolding streamApply_def l burstReadLiteRaw_words [OF assms(1,2)] append_Nil by simp
  then show ?thesis
    using applyFunction_loop_enough [of n "map (\<lambda>t. vertexProp (off + t)) [0..<?m]" tmps None a uninit arg junk 0 "\<lambda>_. 0"]
      m assms(3) by (simp add: applyFunction_def drop_map)
qed

section \<open>Writing to memory\<close>

text \<open>Word \<open>k\<close> of the call is \<open>i = k mod 64\<close> of \<open>loopCount = k div 64\<close>.\<close>

fun streamWrite_loop :: "u32 \<Rightarrow> nat \<Rightarrow> nat \<Rightarrow> mem \<Rightarrow> burst_dest list \<Rightarrow> mem \<times> burst_dest list \<times> status" where
  "streamWrite_loop start_idx k 0 vertexPropMem xs = (vertexPropMem, xs, Returned)"
| "streamWrite_loop start_idx k (Suc n) vertexPropMem [] = (vertexPropMem, [], Blocked)"
| "streamWrite_loop start_idx k (Suc n) vertexPropMem (tmp # xs) =
     streamWrite_loop start_idx (k + 1) n
       (vertexPropMem(unat (push_bit LOG_WRITE_BURST_LEN (word_of_nat (k div 64)) + word_of_nat (k mod 64) + start_idx)
          := bd_data tmp)) xs"

definition streamWrite :: "mem \<Rightarrow> burst_dest list \<Rightarrow> u32 \<Rightarrow> u32 \<Rightarrow> mem \<times> burst_dest list \<times> status" where
  "streamWrite vertexPropMem vertexPropIn vertexOffset vertexNum =
     (let start_idx = drop_bit LOG2_SIZE_BY_INT vertexOffset;
          burst_num = unat (drop_bit (LOG_WRITE_BURST_LEN + LOG2_SIZE_BY_INT) vertexNum)
      in streamWrite_loop start_idx 0 (burst_num * WRITE_BACK_BURST_LENGTH) vertexPropMem vertexPropIn)"

text \<open>The variant with a performance counter: the end flag is sent when the loop is done.\<close>

definition writeToArray :: "mem \<Rightarrow> burst_dest list \<Rightarrow> u32 \<Rightarrow> u32 \<Rightarrow> mem \<times> burst_dest list \<times> u32 list \<times> status" where
  "writeToArray vertexPropMem vertexPropIn vertexOffset vertexNum =
     (let start_idx = drop_bit LOG2_SIZE_BY_INT vertexOffset;
          burst_num = unat (drop_bit (LOG_WRITE_BURST_LEN + LOG2_SIZE_BY_INT) vertexNum)
      in case streamWrite_loop start_idx 0 (burst_num * WRITE_BACK_BURST_LENGTH) vertexPropMem vertexPropIn of
           (m, rest, Returned) \<Rightarrow> (m, rest, [0], Returned)
         | (m, rest, Blocked) \<Rightarrow> (m, rest, [], Blocked))"

text \<open>The polls of \<open>cmd_end\<close> after the start signal; an \<open>int\<close> counts those that fail.\<close>

fun perfCounter_loop :: "u32 \<Rightarrow> u32 option list \<Rightarrow> u32 option" where
  "perfCounter_loop cnt [] = None"
| "perfCounter_loop cnt (None # ps) = perfCounter_loop (cnt + 1) ps"
| "perfCounter_loop cnt (Some v # ps) = Some cnt"

definition perfCounterProc :: "u32 list \<Rightarrow> u32 option list \<Rightarrow> u32 option" where
  "perfCounterProc cmd_start polls = (if cmd_start = [] then None else perfCounter_loop 0 polls)"

text \<open>
  The kernel with its two processes: the polls of \<open>cmd_end\<close> fail until the writer has
  sent its end flag, \<open>wait\<close> of them.
\<close>

definition gas_streamWrite :: "mem \<Rightarrow> burst_dest list \<Rightarrow> u32 \<Rightarrow> u32 \<Rightarrow> u32 list \<Rightarrow> nat \<Rightarrow> mem \<times> u32 option" where
  "gas_streamWrite vertexPropMem vertexPropIn vertexOffset vertexNum perfStartStrm wait =
     (case writeToArray vertexPropMem vertexPropIn vertexOffset vertexNum of
        (m, _, perfEndStrm, _) \<Rightarrow>
          (m, perfCounterProc perfStartStrm (replicate wait None @ map Some perfEndStrm)))"

lemma streamWrite_address:
  assumes "k < 2 ^ 30" "st < 2 ^ 30"
  shows "unat (push_bit LOG_WRITE_BURST_LEN (word_of_nat (k div 64)) + word_of_nat (k mod 64) + word_of_nat st :: u32) = st + k"
proof -
  have "push_bit LOG_WRITE_BURST_LEN (word_of_nat (k div 64)) + word_of_nat (k mod 64) + word_of_nat st =
      (word_of_nat (64 * (k div 64) + k mod 64 + st) :: u32)"
    by (simp only: LOG_WRITE_BURST_LEN_def push_bit_eq_mult of_nat_add of_nat_mult mult.commute) simp
  also have "64 * (k div 64) + k mod 64 + st = st + k" by simp
  finally show ?thesis using assms by (simp only:, intro unat_of_nat_small) simp
qed

lemma streamWrite_loop_spec:
  assumes "n \<le> length xs" "k + n \<le> 2 ^ 30" "st < 2 ^ 30"
  shows "streamWrite_loop (word_of_nat st) k n m xs =
    (\<lambda>t. if st + k \<le> t \<and> t < st + k + n then bd_data (xs ! (t - (st + k))) else m t, drop n xs, Returned)"
  using assms
proof (induction n arbitrary: k m xs)
  case 0
  then show ?case by (cases xs) (auto simp: fun_eq_iff)
next
  case (Suc n)
  then obtain x ys where x: "xs = x # ys" by (cases xs) auto
  have a: "unat (push_bit LOG_WRITE_BURST_LEN (word_of_nat (k div 64)) + word_of_nat (k mod 64) + word_of_nat st :: u32) = st + k"
    by (rule streamWrite_address) (use Suc.prems in simp_all)
  have "streamWrite_loop (word_of_nat st) (k + 1) n (m(st + k := bd_data x)) ys =
    (\<lambda>t. if st + (k + 1) \<le> t \<and> t < st + (k + 1) + n then bd_data (ys ! (t - (st + (k + 1))))
         else (m(st + k := bd_data x)) t, drop n ys, Returned)"
    using Suc.prems x by (intro Suc.IH) simp_all
  also have "(\<lambda>t. if st + (k + 1) \<le> t \<and> t < st + (k + 1) + n then bd_data (ys ! (t - (st + (k + 1))))
         else (m(st + k := bd_data x)) t) =
      (\<lambda>t. if st + k \<le> t \<and> t < st + k + Suc n then bd_data (xs ! (t - (st + k))) else m t)"
    by (auto simp: fun_eq_iff x nth_Cons')
  finally show ?case by (simp only: x a streamWrite_loop.simps drop_Suc_Cons)
qed

lemma streamWrite_rows:
  assumes "64 * k \<le> length xs" "off + 64 * k < 2 ^ 28"
  shows "streamWrite m xs (word_of_nat (16 * off)) (word_of_nat (1024 * k)) =
    (\<lambda>t. if off \<le> t \<and> t < off + 64 * k then bd_data (xs ! (t - off)) else m t, drop (64 * k) xs, Returned)"
proof -
  have u: "unat (word_of_nat (1024 * k) :: u32) = 1024 * k" "unat (word_of_nat (16 * off) :: u32) = 16 * off"
    by (rule unat_of_nat_small, use assms in simp)+
  have bn: "unat (drop_bit (LOG_WRITE_BURST_LEN + LOG2_SIZE_BY_INT) (word_of_nat (1024 * k) :: u32)) = k"
    by (simp only: unat_drop_bit_eq u LOG_WRITE_BURST_LEN_def LOG2_SIZE_BY_INT_def) (simp add: drop_bit_eq_div)
  have "unat (drop_bit LOG2_SIZE_BY_INT (word_of_nat (16 * off) :: u32)) = off"
    by (simp only: unat_drop_bit_eq u LOG2_SIZE_BY_INT_def) (simp add: drop_bit_eq_div)
  moreover have "unat (word_of_nat off :: u32) = off"
    by (rule unat_of_nat_small) (use assms in simp)
  ultimately have so: "drop_bit LOG2_SIZE_BY_INT (word_of_nat (16 * off) :: u32) = word_of_nat off"
    by (simp only: word_unat_eq_iff)
  have "streamWrite_loop (word_of_nat off) 0 (k * 64) m xs =
    (\<lambda>t. if off + 0 \<le> t \<and> t < off + 0 + k * 64 then bd_data (xs ! (t - (off + 0))) else m t, drop (k * 64) xs, Returned)"
    by (rule streamWrite_loop_spec) (use assms in simp_all)
  then show ?thesis
    unfolding streamWrite_def Let_def bn so WRITE_BACK_BURST_LENGTH_def
    by (simp only: add_0_right mult.commute [of k 64])
qed

lemma perfCounter_loop_count:
  "perfCounter_loop cnt (replicate n None @ Some v # ps) = Some (cnt + word_of_nat n)"
  by (induction n arbitrary: cnt) (simp_all add: algebra_simps)

section \<open>Flow control\<close>

text \<open>
  \<open>streamSync\<close> sends empty beats but is never more than \<open>FIFO_length\<close> beats ahead of what
  came back.  The list says, for each iteration of the loop, whether the input shows a
  beat; the loop ends when both counters have reached \<open>loopNum\<close>.
\<close>

definition sync_beat :: "u16 \<Rightarrow> int \<Rightarrow> int \<Rightarrow> burst_dest" where
  "sync_beat dest loopNum write_count =
     \<lparr>bd_data = 0, bd_keep = - 1, bd_last = (loopNum - 1 = write_count \<or> (write_count + 1) mod 22 = 0), bd_dest = dest\<rparr>"

fun streamSync_loop :: "u16 \<Rightarrow> int \<Rightarrow> int \<Rightarrow> int \<Rightarrow> int \<Rightarrow> bool list \<Rightarrow> burst_dest list \<times> int \<times> int \<times> status" where
  "streamSync_loop dest fifo loopNum w r [] =
     ([], w, r, if w < loopNum \<or> r < loopNum then Blocked else Returned)"
| "streamSync_loop dest fifo loopNum w r (v # vs) =
     (if w < loopNum \<or> r < loopNum
      then let send = w - r < fifo \<and> w < loopNum;
               w' = (if send then w + 1 else w);
               r' = (if v \<and> r < loopNum then r + 1 else r)
           in (case streamSync_loop dest fifo loopNum w' r' vs of
                 (os, wr) \<Rightarrow> ((if send then [sync_beat dest loopNum w] else []) @ os, wr))
      else ([], w, r, Returned))"

definition streamSync :: "u32 \<Rightarrow> u32 \<Rightarrow> u32 \<Rightarrow> bool list \<Rightarrow> burst_dest list \<times> int \<times> int \<times> status" where
  "streamSync dest FIFO_length vertexNum vs =
     streamSync_loop (ucast dest) (sint FIFO_length) (sint (signed_drop_bit 4 vertexNum)) 0 0 vs"

text \<open>The window, and the beats that are out.\<close>

lemma streamSync_loop_window:
  assumes "w - r \<le> fifo" "w \<le> loopNum" "r \<le> loopNum"
  shows "case streamSync_loop dest fifo loopNum w r vs of (os, w', r', st) \<Rightarrow>
    w' - r' \<le> fifo \<and> w \<le> w' \<and> w' \<le> loopNum \<and> r' \<le> loopNum \<and>
    (st = Returned \<longrightarrow> w' = loopNum \<and> r' = loopNum) \<and>
    os = map (\<lambda>i. sync_beat dest loopNum (w + int i)) [0..<nat (w' - w)]"
  using assms
proof (induction vs arbitrary: w r)
  case Nil
  then show ?case by auto
next
  case (Cons v vs)
  show ?case
  proof (cases "w < loopNum \<or> r < loopNum")
    case False
    with Cons.prems show ?thesis by simp
  next
    case True
    define send where "send = (w - r < fifo \<and> w < loopNum)"
    define w' where "w' = (if send then w + 1 else w)"
    define r' where "r' = (if v \<and> r < loopNum then r + 1 else r)"
    obtain os w2 r2 st where e: "streamSync_loop dest fifo loopNum w' r' vs = (os, w2, r2, st)"
      by (metis prod_cases4)
    have p: "w' - r' \<le> fifo" "w' \<le> loopNum" "r' \<le> loopNum"
      using Cons.prems by (auto simp: w'_def r'_def send_def)
    from Cons.IH [OF p] e have IH: "w2 - r2 \<le> fifo" "w' \<le> w2" "w2 \<le> loopNum" "r2 \<le> loopNum"
      "st = Returned \<longrightarrow> w2 = loopNum \<and> r2 = loopNum"
      "os = map (\<lambda>i. sync_beat dest loopNum (w' + int i)) [0..<nat (w2 - w')]" by auto
    have step: "streamSync_loop dest fifo loopNum w r (v # vs) =
        ((if send then [sync_beat dest loopNum w] else []) @ os, w2, r2, st)"
      using True e by (simp add: Let_def send_def [symmetric] w'_def [symmetric] r'_def [symmetric])
    have "(if send then [sync_beat dest loopNum w] else []) @ os =
        map (\<lambda>i. sync_beat dest loopNum (w + int i)) [0..<nat (w2 - w)]"
    proof (cases send)
      case True
      then have "nat (w2 - w) = Suc (nat (w2 - w'))" using IH(2) by (simp add: w'_def)
      with True show ?thesis
        by (simp add: IH(6) w'_def upt_conv_Cons map_Suc_upt [symmetric] comp_def algebra_simps del: upt_Suc)
    qed (simp add: IH(6) w'_def)
    with step IH show ?thesis by (auto simp: w'_def split: if_splits)
  qed
qed

text \<open>The call returns when enough beats come back and the window is open.\<close>

lemma streamSync_loop_returns:
  assumes "0 < fifo" "0 \<le> w" "w \<le> loopNum" "0 \<le> r" "r \<le> loopNum" "w - r \<le> fifo"
    and "2 * nat loopNum \<le> nat w + nat r + length vs" "\<forall>v \<in> set vs. v"
  shows "snd (snd (snd (streamSync_loop dest fifo loopNum w r vs))) = Returned"
  using assms
proof (induction vs arbitrary: w r)
  case Nil
  then have "w = loopNum" "r = loopNum" by auto
  then show ?case by simp
next
  case (Cons v vs)
  show ?case
  proof (cases "w < loopNum \<or> r < loopNum")
    case False
    then show ?thesis by simp
  next
    case True
    define send where "send = (w - r < fifo \<and> w < loopNum)"
    define w' where "w' = (if send then w + 1 else w)"
    define r' where "r' = (if v \<and> r < loopNum then r + 1 else r)"
    have "v" using Cons.prems by simp
    then have "nat w' + nat r' \<ge> Suc (nat w + nat r)"
      using Cons.prems True by (auto simp: w'_def r'_def send_def)
    with Cons.prems have "snd (snd (snd (streamSync_loop dest fifo loopNum w' r' vs))) = Returned"
      by (intro Cons.IH) (auto simp: w'_def r'_def send_def)
    with True show ?thesis
      by (auto simp add: Let_def send_def [symmetric] w'_def [symmetric] r'_def [symmetric] split: prod.splits)
  qed
qed

end
