(* ===== verification/Node.thy ===== *)
theory Node
  imports Edge_File Apply_Merge
begin

text \<open>
  The work of a node on one partition, as \<open>acceleratorExecute\<close> of
  \<open>host/clementi/mpi_graph_dataflow.cpp\<close> starts it and \<open>app/clementi/kernel.cfg\<close>
  connects it: four gather-scatter kernels, three merges, apply and write.  The answers of
  the source caches are an argument; \<open>cache_answers\<close> states what is relied on.
\<close>

section \<open>The four kernels and the merges\<close>

definition channel :: "app \<Rightarrow> nat \<Rightarrow> burst \<times> burst \<Rightarrow> burst_dest \<Rightarrow> (nat \<Rightarrow> nat \<Rightarrow> u64) \<Rightarrow> vedge list \<Rightarrow>
  sv_pkg list \<Rightarrow> burst_dest list" where
  "channel a N tok0 out0 bufs f propIn =
     gs_out (gs a N tok0 out0 bufs (buffer_mem (chunkEdgeData (file_words f))) (edge_end_arg (file_words f)) propIn)"

definition merge_chain :: "app \<Rightarrow> burst_dest \<Rightarrow> (nat \<Rightarrow> burst_dest list) \<Rightarrow> burst_dest list" where
  "merge_chain a u tmp = streamMerge a u (streamMerge a u (streamMerge a u (tmp 0) (tmp 1)) (tmp 2)) (tmp 3)"

definition node_partition :: "app \<Rightarrow> nat \<Rightarrow> burst_dest \<Rightarrow> (nat \<Rightarrow> burst \<times> burst) \<Rightarrow> (nat \<Rightarrow> nat \<Rightarrow> nat \<Rightarrow> u64) \<Rightarrow>
  (nat \<Rightarrow> nat \<Rightarrow> u32) \<Rightarrow> vedge list list \<Rightarrow> (nat \<Rightarrow> sv_pkg list) \<Rightarrow> mem \<Rightarrow> mem option \<Rightarrow> mem \<Rightarrow> u32 \<Rightarrow> u32 \<Rightarrow> u32 \<Rightarrow>
  mem \<times> u32 option" where
  "node_partition a N u tok0 bufs junk fs propIn vertexProp outDegree propTemp offset vertexNum arg =
     (let merged = merge_chain a u (\<lambda>j. channel a N (tok0 j) u (bufs j) (fs ! j) (propIn j));
          ap = streamApply a u junk vertexProp outDegree [] [] merged offset vertexNum arg
      in (fst (streamWrite propTemp (fst ap) offset vertexNum), fst (snd ap)))"

section \<open>The specification\<close>

text \<open>The cache answers every edge with the property of its source.\<close>

definition cache_answers :: "(nat \<Rightarrow> u32) \<Rightarrow> vedge list \<Rightarrow> sv_pkg list \<Rightarrow> bool" where
  "cache_answers vprop es props \<longleftrightarrow> (\<forall>k < length es. edge_prop_in props k = vprop (nat (fst (es ! k))))"

text \<open>The updates of vertex \<open>v\<close> of a partition from its edges.\<close>

definition edge_updates :: "app \<Rightarrow> nat \<Rightarrow> (nat \<Rightarrow> u32) \<Rightarrow> vedge list \<Rightarrow> nat \<Rightarrow> u32 list" where
  "edge_updates a N vprop es v =
     filter (is_active a) (map (\<lambda>e. preprocessProperty a (vprop (nat (fst e)))) (filter (\<lambda>e. nat (snd e) mod N = v) es))"

text \<open>What the vertex becomes, from its old property and the gathered updates.\<close>

definition new_property :: "app \<Rightarrow> nat \<Rightarrow> (nat \<Rightarrow> u32) \<Rightarrow> vedge list \<Rightarrow> u32 \<Rightarrow> u32 \<Rightarrow> u32 \<Rightarrow> u32 \<Rightarrow> nat \<Rightarrow> u32" where
  "new_property a N vprop es old deg junk arg v =
     fst (applyFunc a (gather_all (gatherFunc a) (edge_updates a N vprop es v)) old deg junk arg)"

lemma list_updates_answers:
  assumes "cache_answers vprop es props"
  shows "list_updates a N es props v = edge_updates a N vprop es v"
proof -
  let ?g = "\<lambda>e. preprocessProperty a (vprop (nat (fst e)))"
  have "map (\<lambda>k. preprocessProperty a (edge_prop_in props k)) [0..<length es] = map ?g es"
    by (rule nth_equalityI) (use assms in \<open>simp_all add: cache_answers_def\<close>)
  moreover have "map snd (filter (\<lambda>(e, p). P e \<and> Q p) (zip xs (map f xs))) = filter Q (map f (filter P xs))"
    for P Q and f :: "vedge \<Rightarrow> u32" and xs
    by (induction xs) auto
  ultimately show ?thesis by (simp add: list_updates_def edge_updates_def)
qed

lemma edge_updates_append: "edge_updates a N vprop (xs @ ys) v = edge_updates a N vprop xs v @ edge_updates a N vprop ys v"
  by (simp add: edge_updates_def)

lemma edge_updates_mset: "mset xs = mset ys \<Longrightarrow> mset (edge_updates a N vprop xs v) = mset (edge_updates a N vprop ys v)"
  by (simp add: edge_updates_def)

section \<open>Merging the shards\<close>

definition gathered :: "app \<Rightarrow> burst_dest \<Rightarrow> nat \<Rightarrow> (nat \<Rightarrow> u32 list) \<Rightarrow> burst_dest list" where
  "gathered a u n U = map (\<lambda>b. u\<lparr>bd_data := burst_of (\<lambda>i. gather_all (gatherFunc a) (U (16 * b + i)))\<rparr>) [0..<n]"

lemma streamMerge_gathered:
  assumes "gather_algebra (gatherFunc a) ok" "\<forall>v. \<forall>x \<in> set (U v @ V v). ok x"
  shows "streamMerge a u (gathered a u n U) (gathered a u n V) = gathered a u n (\<lambda>v. U v @ V v)"
proof -
  have g: "gatherFunc a (gather_all (gatherFunc a) (U v)) (gather_all (gatherFunc a) (V v)) =
      gather_all (gatherFunc a) (U v @ V v)" for v
    by (rule gather_algebra.gather_append [OF assms(1), symmetric]) (use assms(2) in auto)
  have "zip (map f [0..<n]) (map f' [0..<n]) = map (\<lambda>b. (f b, f' b)) [0..<n]" for f f' :: "nat \<Rightarrow> burst_dest"
    by (rule nth_equalityI) simp_all
  then show ?thesis
    by (simp add: streamMerge_zip gathered_def burst_eqI lane_merge_burst lane_burst_of g merge_burst_def
        burst_of_eq_iff PROP_COMPUTE_STAGE4_def)
qed

lemma merge_chain_gathered:
  assumes "gather_algebra (gatherFunc a) ok" "\<And>j v. j < 4 \<Longrightarrow> \<forall>x \<in> set (U j v). ok x"
    and "\<And>j. j < 4 \<Longrightarrow> tmp j = gathered a u n (U j)"
  shows "merge_chain a u tmp = gathered a u n (\<lambda>v. U 0 v @ U 1 v @ U 2 v @ U 3 v)"
proof -
  have o: "\<forall>x \<in> set (U 0 v). ok x" "\<forall>x \<in> set (U 1 v). ok x" "\<forall>x \<in> set (U 2 v). ok x" "\<forall>x \<in> set (U 3 v). ok x" for v
    by (rule assms(2); simp)+
  have "streamMerge a u (tmp 0) (tmp 1) = gathered a u n (\<lambda>v. U 0 v @ U 1 v)"
    using o by (simp add: assms(3) streamMerge_gathered [OF assms(1)] ball_Un)
  then have "streamMerge a u (streamMerge a u (tmp 0) (tmp 1)) (tmp 2) = gathered a u n (\<lambda>v. (U 0 v @ U 1 v) @ U 2 v)"
    using o by (simp add: assms(3) streamMerge_gathered [OF assms(1)] ball_Un del: append_assoc)
  then have "merge_chain a u tmp = gathered a u n (\<lambda>v. ((U 0 v @ U 1 v) @ U 2 v) @ U 3 v)"
    using o by (simp add: merge_chain_def assms(3) streamMerge_gathered [OF assms(1)] ball_Un del: append_assoc)
  then show ?thesis by (simp only: append_assoc)
qed

section \<open>One partition\<close>

text \<open>The four files of an interval.\<close>

lemma partition_interval_files:
  assumes "partition_interval edgeSort splits blockSort batchSort flt es = Some fs"
  obtains ls where "interval_loop splits blockSort batchSort flt (edgeSort es) 0 = Some ls" "fs = map (save_edges edgeSort) ls"
  using assms by (auto simp: partition_interval_def saveFile_def)

lemma channel_gathered:
  assumes "mset (edgeSort (concat bs)) = mset (concat bs)" "length (concat bs) + 32 < 2 ^ 27"
    and "\<forall>e \<in> set (concat bs). 0 \<le> snd e \<and> snd e < 2 ^ 31"
    and "N = 2 ^ n" "10 \<le> n" "n < 32" "\<forall>i<16. \<forall>t < N div 32. bufs i t = 0"
    and "int (16 * length props) = edgeNumChunk (file_words (save_edges edgeSort bs))"
    and "cache_answers vprop (edgeSort (concat bs)) props"
  shows "channel a N tok0 u bufs (save_edges edgeSort bs) (props @ qs) =
    gathered a u (N div 16) (edge_updates a N vprop (edgeSort (concat bs)))"
  unfolding channel_def gathered_def
    gs_gathers_file [OF assms(1-7) refl assms(8)] list_updates_answers [OF assms(9)]
  by (rule refl)

text \<open>The words that the partition writes.\<close>

definition partition_words :: "app \<Rightarrow> nat \<Rightarrow> (nat \<Rightarrow> u32) \<Rightarrow> vedge list \<Rightarrow> mem \<Rightarrow> mem option \<Rightarrow> (nat \<Rightarrow> nat \<Rightarrow> u32) \<Rightarrow> u32 \<Rightarrow>
  nat \<Rightarrow> nat \<Rightarrow> burst" where
  "partition_words a N vprop es vertexProp outDegree junk arg off t =
     burst_of (\<lambda>i. new_property a N vprop es (lane i (vertexProp (off + t)))
       (case outDegree of Some d \<Rightarrow> lane i (d (off + t)) | None \<Rightarrow> 0) (junk t i) arg (16 * t + i))"

lemma apply_write_gathered:
  assumes "N = 1024 * k" "0 < k" "off + 64 * k + 64 < 2 ^ 28"
    and "\<And>v. gather_all (gatherFunc a) (U v) = gather_all (gatherFunc a) (edge_updates a N vprop es v)"
  shows "fst (streamWrite propTemp (fst (streamApply a u junk vertexProp outDegree [] [] (gathered a u (64 * k) U)
      (word_of_nat (16 * off)) (word_of_nat N) arg)) (word_of_nat (16 * off)) (word_of_nat N)) =
    (\<lambda>t. if off \<le> t \<and> t < off + 64 * k then partition_words a N vprop es vertexProp outDegree junk arg off (t - off)
         else propTemp t)"
proof -
  have N: "N = 16 * (64 * k)" "N = 1024 * k" using assms(1) by simp_all
  let ?os = "fst (streamApply a u junk vertexProp outDegree [] [] (gathered a u (64 * k) U)
      (word_of_nat (16 * off)) (word_of_nat N) arg)"
  have l: "64 * k \<le> length (gathered a u (64 * k) U)" by (simp add: gathered_def)
  have os: "?os = map (\<lambda>t. u\<lparr>bd_data := burst_of (\<lambda>i. fst (apply_lane a arg (junk t) (vertexProp (off + t))
      (bd_data (gathered a u (64 * k) U ! t)) (map_option (\<lambda>d. d (off + t)) outDegree) i))\<rparr>) [0..<64 * k]"
    unfolding N(1) streamApply_rows [OF assms(2,3) l] fst_conv by (rule refl)
  have d: "bd_data (?os ! t) = partition_words a N vprop es vertexProp outDegree junk arg off t" if "t < 64 * k" for t
  proof -
    have "bd_data (gathered a u (64 * k) U ! t) = burst_of (\<lambda>i. gather_all (gatherFunc a) (U (16 * t + i)))"
      using that by (simp add: gathered_def)
    then show ?thesis
      unfolding os using that
      by (cases outDegree)
        (simp_all add: partition_words_def burst_of_eq_iff apply_lane_def lane_burst_of new_property_def assms(4))
  qed
  have "64 * k \<le> length ?os" "off + 64 * k < 2 ^ 28" unfolding os using assms(3) by simp_all
  from streamWrite_rows [OF this, of propTemp] show ?thesis
    unfolding N(2) [symmetric] using d by (auto simp: fun_eq_iff)
qed

context partitioner
begin

text \<open>The four lists of an interval, and what their files hold.\<close>

lemma interval_parts:
  assumes "partition_interval edgeSort splits blockSort batchSort flt es = Some fs"
    and "\<forall>e \<in> set es. 0 \<le> snd e"
  obtains ls where "length ls = 4" "fs = map (save_edges edgeSort) ls" "mset (concat (concat ls)) = mset es"
    "\<And>j. j < 4 \<Longrightarrow> set (concat (ls ! j)) \<subseteq> set es \<and> length (concat (ls ! j)) \<le> length es \<and>
      file_edges (fs ! j) = edgeSort (concat (ls ! j))"
proof -
  obtain ls where l: "interval_loop splits blockSort batchSort flt (edgeSort es) 0 = Some ls" "fs = map (save_edges edgeSort) ls"
    using partition_interval_files [OF assms(1)] by metis
  have m: "length ls = 4" "mset (concat (concat ls)) = mset es"
    using interval_loop_result [OF l(1)] by (simp_all add: edges.srt_mset numSLRs_def)
  have p: "set (concat (ls ! j)) \<subseteq> set es \<and> length (concat (ls ! j)) \<le> length es" if "j < 4" for j
  proof -
    have j: "j < length ls" using that m(1) by simp
    have e: "concat (concat ls) = concat (concat (take j ls)) @ concat (ls ! j) @ concat (concat (drop (Suc j) ls))"
      by (subst id_take_nth_drop [OF j]) simp
    show ?thesis
      using mset_eq_setD [OF m(2)] mset_eq_length [OF m(2)] unfolding e by auto
  qed
  moreover have "file_edges (fs ! j) = edgeSort (concat (ls ! j))" if "j < 4" for j
    using file_edges_save [of edgeSort "ls ! j"] p [OF that] assms(2) that m(1) by (auto simp: l(2) edges.srt_mset)
  ultimately show ?thesis using that l(2) m by metis
qed

text \<open>
  What the four kernels send: the partial results of their parts of the edges of the
  interval, however the partitioner spread them.
\<close>

lemma partition_channels:
  assumes files: "partition_interval edgeSort splits blockSort batchSort flt es = Some fs"
    and es: "length es + 32 < 2 ^ 27" "\<forall>e \<in> set es. 0 \<le> snd e \<and> snd e < 2 ^ 31"
    and N: "N = 2 ^ n" "10 \<le> n" "n < 32"
    and bufs: "\<forall>j<4. \<forall>i<16. \<forall>t < N div 32. bufs j i t = 0"
    and props: "\<forall>j<4. int (16 * length (props j)) = edgeNumChunk (file_words (fs ! j)) \<and>
      cache_answers vprop (file_edges (fs ! j)) (props j)"
  obtains U where "\<And>j. j < 4 \<Longrightarrow> channel a N (tok0 j) u (bufs j) (fs ! j) (props j @ qs j) = gathered a u (N div 16) (U j)"
    and "\<And>j v. j < 4 \<Longrightarrow> set (U j v) \<subseteq> set (edge_updates a N vprop es v)"
    and "\<And>v. mset (U 0 v @ U 1 v @ U 2 v @ U 3 v) = mset (edge_updates a N vprop es v)"
proof -
  have "\<forall>e \<in> set es. 0 \<le> snd e" using es(2) by blast
  from interval_parts [OF files this] obtain ls where ls: "length ls = 4" "fs = map (save_edges edgeSort) ls"
    "mset (concat (concat ls)) = mset es"
    and parts: "\<And>j. j < 4 \<Longrightarrow> set (concat (ls ! j)) \<subseteq> set es \<and> length (concat (ls ! j)) \<le> length es \<and>
      file_edges (fs ! j) = edgeSort (concat (ls ! j))"
    by metis
  let ?E = "\<lambda>j. edgeSort (concat (ls ! j))"
  let ?U = "\<lambda>j. edge_updates a N vprop (?E j)"
  have ch: "channel a N (tok0 j) u (bufs j) (fs ! j) (props j @ qs j) = gathered a u (N div 16) (?U j)" if j: "j < 4" for j
  proof -
    have f: "fs ! j = save_edges edgeSort (ls ! j)" using j ls(1,2) by simp
    show ?thesis
      unfolding f
    proof (rule channel_gathered [of edgeSort, OF edges.srt_mset])
      show "length (concat (ls ! j)) + 32 < 2 ^ 27" "\<forall>e \<in> set (concat (ls ! j)). 0 \<le> snd e \<and> snd e < 2 ^ 31"
        using parts [OF j] es by auto
      show "int (16 * length (props j)) = edgeNumChunk (file_words (save_edges edgeSort (ls ! j)))"
        "cache_answers vprop (edgeSort (concat (ls ! j))) (props j)"
        using props j parts [OF j] unfolding f [symmetric] by (metis, metis)
    qed (use N bufs j in simp_all)
  qed
  have sub: "set (?U j v) \<subseteq> set (edge_updates a N vprop es v)" if "j < 4" for j v
  proof -
    have "set (?E j) \<subseteq> set es" using parts [OF that] by (simp add: edges.srt_set)
    then show ?thesis by (auto simp: edge_updates_def)
  qed
  have four: "ls = [ls ! 0, ls ! 1, ls ! 2, ls ! 3]"
  proof -
    from ls(1) obtain b0 b1 b2 b3 where "ls = [b0, b1, b2, b3]" by (auto simp: eval_nat_numeral length_Suc_conv)
    then show ?thesis by simp
  qed
  have "mset (concat (concat [ls ! 0, ls ! 1, ls ! 2, ls ! 3])) = mset es" unfolding four [symmetric] by (rule ls(3))
  then have "mset (?E 0 @ ?E 1 @ ?E 2 @ ?E 3) = mset es" by (simp add: edges.srt_mset del: mset_concat)
  from edge_updates_mset [OF this] have "mset (?U 0 v @ ?U 1 v @ ?U 2 v @ ?U 3 v) = mset (edge_updates a N vprop es v)" for v
    by (simp only: edge_updates_append)
  with ch sub that [of ?U] show thesis by blast
qed

text \<open>
  The work on one partition computes the new property of each of its vertices from all the
  edges of the interval.
\<close>

lemma node_partition_computes:
  assumes files: "partition_interval edgeSort splits blockSort batchSort flt es = Some fs"
    and es: "length es + 32 < 2 ^ 27" "\<forall>e \<in> set es. 0 \<le> snd e \<and> snd e < 2 ^ 31"
    and N: "N = 2 ^ n" "10 \<le> n" "n < 32" "off + N div 16 + 64 < 2 ^ 28"
    and bufs: "\<forall>j<4. \<forall>i<16. \<forall>t < N div 32. bufs j i t = 0"
    and props: "\<forall>j<4. int (16 * length (props j)) = edgeNumChunk (file_words (fs ! j)) \<and>
      cache_answers vprop (file_edges (fs ! j)) (props j)"
    and alg: "gather_algebra (gatherFunc a) ok" "\<forall>v. \<forall>x \<in> set (edge_updates a N vprop es v). ok x"
  shows "fst (node_partition a N u tok0 bufs junk fs (\<lambda>j. props j @ qs j) vertexProp outDegree propTemp
      (word_of_nat (16 * off)) (word_of_nat N) arg) =
    (\<lambda>t. if off \<le> t \<and> t < off + N div 16 then partition_words a N vprop es vertexProp outDegree junk arg off (t - off)
         else propTemp t)"
proof -
  obtain U where ch: "\<And>j. j < 4 \<Longrightarrow> channel a N (tok0 j) u (bufs j) (fs ! j) (props j @ qs j) = gathered a u (N div 16) (U j)"
    and sub: "\<And>j v. j < 4 \<Longrightarrow> set (U j v) \<subseteq> set (edge_updates a N vprop es v)"
    and all: "\<And>v. mset (U 0 v @ U 1 v @ U 2 v @ U 3 v) = mset (edge_updates a N vprop es v)"
    using partition_channels [OF files es N(1-3) bufs props, of a tok0 u qs] by metis
  have ok: "\<forall>x \<in> set (U j v). ok x" if "j < 4" for j v using sub [OF that] alg(2) by blast
  let ?all = "\<lambda>v. U 0 v @ U 1 v @ U 2 v @ U 3 v"
  have mg: "merge_chain a u (\<lambda>j. channel a N (tok0 j) u (bufs j) (fs ! j) (props j @ qs j)) = gathered a u (N div 16) ?all"
    by (rule merge_chain_gathered [OF alg(1) ok ch])
  have g: "gather_all (gatherFunc a) (?all v) = gather_all (gatherFunc a) (edge_updates a N vprop es v)" for v
    using alg(2) all by (intro gather_algebra.gather_perm [OF alg(1)]) (metis mset_eq_setD)+
  obtain k where k: "N = 1024 * k" "0 < k" "N div 16 = 64 * k"
  proof
    show "N = 1024 * 2 ^ (n - 10)" using N(1,2) le_Suc_ex [of 10 n] by (auto simp: power_add)
    then show "N div 16 = 64 * 2 ^ (n - 10)" by simp
  qed simp
  have "off + 64 * k + 64 < 2 ^ 28" using N(4) k(3) by simp
  from apply_write_gathered [OF k(1,2) this g, of propTemp u junk vertexProp outDegree arg] show ?thesis
    unfolding node_partition_def Let_def fst_conv mg k(3) .
qed

end

end
