(* ===== verification/Coalesce.thy ===== *)
theory Coalesce
  imports Streams
begin

text \<open>
  The coalescing kernel (\<open>src/coalesce/coalesce.cpp\<close>): the sixteen source vertices of
  each beat become block numbers, a chain of fifteen two-way mergers drops equal
  neighbours inside a beat, a filter drops equal neighbours across beats, and what is
  left goes to the cache's read engine as commands.  \<open>B\<close> is
  \<open>LOG_CACHEUPDATEBURST\<close>, which the makefiles set.
\<close>

section \<open>Vertices to block numbers\<close>

definition src_to_address_body :: "nat \<Rightarrow> burst \<Rightarrow> (nat \<times> u32 frp) list \<times> bool" where
  "src_to_address_body B src_item =
     (map (\<lambda>i. (i, \<lparr>frp_data = drop_bit (B + LOG2_SIZE_BY_INT) (ap_get source_vertex_t ''data'' i src_item),
                   frp_last = True\<rparr>)) [0..<16], False)"

definition src_to_address :: "nat \<Rightarrow> burst list \<Rightarrow> (nat \<times> u32 frp) list \<times> burst list \<times> status" where
  "src_to_address B = token_loop (src_to_address_body B)"

definition single_to_cmd :: "u32 frp list \<Rightarrow> cache_command list \<times> u32 frp list \<times> status" where
  "single_to_cmd = token_loop (\<lambda>src_frp. ([\<lparr>cc_idx = frp_data src_frp, cc_size = 1\<rparr>], False))"

section \<open>Merging two streams\<close>

datatype coal_state = ST_SRC1 | ST_SRC2

record merge_state =
  src1_data :: u32
  src2_data :: u32
  src1_valid :: bool
  src2_valid :: bool
  src1_last :: bool
  curr_state :: coal_state

text \<open>The two polls: a free register takes the next token of its stream.\<close>

definition poll1 :: "merge_state \<Rightarrow> u32 frp list \<Rightarrow> merge_state \<times> u32 frp list" where
  "poll1 st in1 =
     (if src1_valid st then (st, in1)
      else (case in1 of [] \<Rightarrow> (st, in1)
            | src1 # rest \<Rightarrow> (st\<lparr>src1_data := frp_data src1, src1_last := frp_last src1, src1_valid := True\<rparr>, rest)))"

definition poll2 :: "merge_state \<Rightarrow> u32 frp list \<Rightarrow> merge_state \<times> u32 frp list" where
  "poll2 st in2 =
     (if src2_valid st then (st, in2)
      else (case in2 of [] \<Rightarrow> (st, in2)
            | src2 # rest \<Rightarrow> (st\<lparr>src2_data := frp_data src2, src2_valid := True\<rparr>, rest)))"

definition merge_switch :: "merge_state \<Rightarrow> merge_state \<times> u32 frp list" where
  "merge_switch st =
     (case curr_state st of
        ST_SRC1 \<Rightarrow>
          if src1_valid st \<and> src2_valid st then
            (if \<not> src1_last st then
               (st\<lparr>curr_state := ST_SRC1, src1_valid := False, src1_last := False\<rparr>,
                [\<lparr>frp_data = src1_data st, frp_last = False\<rparr>])
             else if src1_data st = src2_data st then
               (st\<lparr>curr_state := ST_SRC1, src2_valid := False, src1_valid := False, src1_last := False\<rparr>,
                [\<lparr>frp_data = src1_data st, frp_last = True\<rparr>])
             else
               (st\<lparr>curr_state := ST_SRC2, src1_valid := False, src1_last := False\<rparr>,
                [\<lparr>frp_data = src1_data st, frp_last = False\<rparr>]))
          else (st, [])
      | ST_SRC2 \<Rightarrow>
          if src2_valid st then
            (st\<lparr>curr_state := ST_SRC1, src2_valid := False\<rparr>, [\<lparr>frp_data = src2_data st, frp_last = True\<rparr>])
          else (st, []))"

text \<open>One iteration of the loop.\<close>

definition merge_iter :: "merge_state \<Rightarrow> u32 frp list \<Rightarrow> u32 frp list \<Rightarrow>
  merge_state \<times> u32 frp list \<times> u32 frp list \<times> u32 frp list" where
  "merge_iter st in1 in2 =
     (case poll1 st in1 of (st1, r1) \<Rightarrow>
       (case poll2 st1 in2 of (st2, r2) \<Rightarrow>
         (case merge_switch st2 of (st3, out) \<Rightarrow> (st3, r1, r2, out))))"

text \<open>The loop for \<open>n\<close> iterations on what is in the two FIFOs.\<close>

fun merge_iters :: "nat \<Rightarrow> merge_state \<Rightarrow> u32 frp list \<Rightarrow> u32 frp list \<Rightarrow> u32 frp list" where
  "merge_iters 0 st in1 in2 = []"
| "merge_iters (Suc n) st in1 in2 =
     (case merge_iter st in1 in2 of (st', r1, r2, out) \<Rightarrow> out @ merge_iters n st' r1 r2)"

text \<open>The registers without an initialiser are arguments.\<close>

definition merge_init :: "u32 \<Rightarrow> u32 \<Rightarrow> bool \<Rightarrow> merge_state" where
  "merge_init d1 d2 l1 = \<lparr>src1_data = d1, src2_data = d2, src1_valid = False, src2_valid = False,
     src1_last = l1, curr_state = ST_SRC1\<rparr>"

definition merge_same_item :: "u32 \<Rightarrow> u32 \<Rightarrow> bool \<Rightarrow> u32 frp list \<Rightarrow> u32 frp list \<Rightarrow> u32 frp list" where
  "merge_same_item d1 d2 l1 in1 in2 = merge_iters (length in1 + length in2) (merge_init d1 d2 l1) in1 in2"

subsection \<open>What the merger computes\<close>

text \<open>
  The first stream carries groups, each ended by a token with \<open>last\<close>; the second one token
  for each group, which is appended to its group unless it equals the group's last item.
\<close>

fun merge_same :: "u32 frp list \<Rightarrow> u32 frp list \<Rightarrow> u32 frp list" where
  "merge_same (x # xs) (y # ys) =
     (if \<not> frp_last x then \<lparr>frp_data = frp_data x, frp_last = False\<rparr> # merge_same xs (y # ys)
      else if frp_data x = frp_data y then \<lparr>frp_data = frp_data x, frp_last = True\<rparr> # merge_same xs ys
      else \<lparr>frp_data = frp_data x, frp_last = False\<rparr> # \<lparr>frp_data = frp_data y, frp_last = True\<rparr> # merge_same xs ys)"
| "merge_same [] ys = []"
| "merge_same xs [] = []"

text \<open>What a state of the merger still has to write, given the tokens to come.\<close>

definition pend1 :: "merge_state \<Rightarrow> u32 frp list" where
  "pend1 st = (if src1_valid st then [\<lparr>frp_data = src1_data st, frp_last = src1_last st\<rparr>] else [])"

definition pend2 :: "merge_state \<Rightarrow> u32 frp list" where
  "pend2 st = (if src2_valid st then [\<lparr>frp_data = src2_data st, frp_last = True\<rparr>] else [])"

definition merge_rest :: "merge_state \<Rightarrow> u32 frp list \<Rightarrow> u32 frp list \<Rightarrow> u32 frp list" where
  "merge_rest st in1 in2 =
     (case curr_state st of
        ST_SRC1 \<Rightarrow> merge_same (pend1 st @ in1) (pend2 st @ in2)
      | ST_SRC2 \<Rightarrow> \<lparr>frp_data = src2_data st, frp_last = True\<rparr> # merge_same (pend1 st @ in1) in2)"

definition merge_ok :: "merge_state \<Rightarrow> bool" where
  "merge_ok st \<longleftrightarrow> (curr_state st = ST_SRC2 \<longrightarrow> src2_valid st)"

lemma frp_eta [simp]: "\<lparr>frp_data = frp_data x, frp_last = frp_last x\<rparr> = x"
  by (cases x) simp

lemma merge_same_Nil2 [simp]: "merge_same xs [] = []"
  by (cases xs) simp_all

lemma merge_same_swap: "merge_same xs (\<lparr>frp_data = frp_data y, frp_last = True\<rparr> # ys) = merge_same xs (y # ys)"
  by (induction xs) auto

lemma poll1_rest:
  assumes "poll1 st in1 = (st', r1)"
  shows "merge_rest st' (r1 @ z1) in2 = merge_rest st (in1 @ z1) in2" "merge_ok st' = merge_ok st"
    "in1 \<noteq> [] \<or> src1_valid st \<Longrightarrow> src1_valid st'" "src2_valid st' = src2_valid st"
    "curr_state st' = curr_state st" "src2_data st' = src2_data st"
proof -
  consider "st' = st" "r1 = in1" "src1_valid st \<or> in1 = []"
    | x where "in1 = x # r1" "\<not> src1_valid st"
        "st' = st\<lparr>src1_data := frp_data x, src1_last := frp_last x, src1_valid := True\<rparr>"
    using assms by (cases "src1_valid st"; cases in1) (auto simp: poll1_def)
  then have "merge_rest st' (r1 @ z1) in2 = merge_rest st (in1 @ z1) in2 \<and> merge_ok st' = merge_ok st \<and>
      (in1 \<noteq> [] \<or> src1_valid st \<longrightarrow> src1_valid st') \<and> src2_valid st' = src2_valid st \<and>
      curr_state st' = curr_state st \<and> src2_data st' = src2_data st"
  proof cases
    case 1
    then show ?thesis by auto
  next
    case 2
    then show ?thesis
      by (cases "curr_state st") (simp_all add: merge_rest_def merge_ok_def pend1_def pend2_def del: merge_same.simps)
  qed
  then show "merge_rest st' (r1 @ z1) in2 = merge_rest st (in1 @ z1) in2" "merge_ok st' = merge_ok st"
    "in1 \<noteq> [] \<or> src1_valid st \<Longrightarrow> src1_valid st'" "src2_valid st' = src2_valid st"
    "curr_state st' = curr_state st" "src2_data st' = src2_data st"
    by blast+
qed

lemma poll2_rest:
  assumes "poll2 st in2 = (st', r2)" "merge_ok st"
  shows "merge_rest st' in1 (r2 @ z2) = merge_rest st in1 (in2 @ z2)" "merge_ok st'"
    "in2 \<noteq> [] \<or> src2_valid st \<Longrightarrow> src2_valid st'" "src1_valid st' = src1_valid st"
    "curr_state st' = curr_state st"
proof -
  consider "st' = st" "r2 = in2" "src2_valid st \<or> in2 = []"
    | y where "in2 = y # r2" "\<not> src2_valid st" "curr_state st = ST_SRC1"
        "st' = st\<lparr>src2_data := frp_data y, src2_valid := True\<rparr>"
    using assms by (cases "src2_valid st"; cases in2; cases "curr_state st") (auto simp: poll2_def merge_ok_def)
  then have "merge_rest st' in1 (r2 @ z2) = merge_rest st in1 (in2 @ z2) \<and> merge_ok st' \<and>
      (in2 \<noteq> [] \<or> src2_valid st \<longrightarrow> src2_valid st') \<and> src1_valid st' = src1_valid st \<and>
      curr_state st' = curr_state st"
  proof cases
    case 1
    with assms(2) show ?thesis by auto
  next
    case 2
    then show ?thesis
      by (simp add: merge_rest_def merge_ok_def pend1_def pend2_def merge_same_swap del: merge_same.simps)
  qed
  then show "merge_rest st' in1 (r2 @ z2) = merge_rest st in1 (in2 @ z2)" "merge_ok st'"
    "in2 \<noteq> [] \<or> src2_valid st \<Longrightarrow> src2_valid st'" "src1_valid st' = src1_valid st"
    "curr_state st' = curr_state st"
    by blast+
qed

lemma merge_switch_ok: "merge_ok st \<Longrightarrow> merge_ok (fst (merge_switch st))"
  by (cases "curr_state st") (auto simp: merge_switch_def merge_ok_def)

lemma merge_switch_writes:
  "src2_valid st \<Longrightarrow> src1_valid st \<or> curr_state st = ST_SRC2 \<Longrightarrow> snd (merge_switch st) \<noteq> []"
  by (cases "curr_state st") (auto simp: merge_switch_def)

lemma merge_switch_rest:
  assumes "merge_ok st"
  shows "merge_rest st in1 in2 = snd (merge_switch st) @ merge_rest (fst (merge_switch st)) in1 in2"
  using assms by (cases "curr_state st")
    (auto simp: merge_switch_def merge_rest_def merge_ok_def pend1_def pend2_def)

text \<open>
  One iteration writes the first part of what is left to write, whatever tokens are still
  to come, and it writes something as long as the tokens that have come allow it.
\<close>

lemma merge_iter_rest:
  assumes "merge_iter st in1 in2 = (st', r1, r2, out)" "merge_ok st"
  shows "merge_rest st (in1 @ z1) (in2 @ z2) = out @ merge_rest st' (r1 @ z1) (r2 @ z2)" "merge_ok st'"
    "merge_rest st in1 in2 \<noteq> [] \<Longrightarrow> out \<noteq> []"
proof -
  obtain s1 s2 where p1: "poll1 st in1 = (s1, r1)" and p2: "poll2 s1 in2 = (s2, r2)"
    and sw: "merge_switch s2 = (st', out)"
    using assms(1) by (auto simp: merge_iter_def split: prod.splits)
  have ok1: "merge_ok s1" using poll1_rest(2) [OF p1] assms(2) by simp
  note ok2 = poll2_rest(2) [OF p2 ok1]
  show "merge_ok st'" using merge_switch_ok [OF ok2] sw by simp
  have "merge_rest st (in1 @ z1) (in2 @ z2) = merge_rest s2 (r1 @ z1) (r2 @ z2)"
    using poll1_rest(1) [OF p1, of z1 "in2 @ z2"] poll2_rest(1) [OF p2 ok1, of "r1 @ z1" z2] by simp
  also have "\<dots> = out @ merge_rest st' (r1 @ z1) (r2 @ z2)"
    using merge_switch_rest [OF ok2, of "r1 @ z1" "r2 @ z2"] sw by simp
  finally show "merge_rest st (in1 @ z1) (in2 @ z2) = out @ merge_rest st' (r1 @ z1) (r2 @ z2)" .
  assume ne: "merge_rest st in1 in2 \<noteq> []"
  have "src2_valid s2 \<and> (src1_valid s2 \<or> curr_state s2 = ST_SRC2)"
  proof (cases "curr_state st")
    case ST_SRC1
    with ne have "in1 \<noteq> [] \<or> src1_valid st" "in2 \<noteq> [] \<or> src2_valid st"
      by (auto simp: merge_rest_def pend1_def pend2_def split: if_splits)
    then show ?thesis
      using poll1_rest(3,4) [OF p1] poll2_rest(3,4) [OF p2 ok1] by simp
  next
    case ST_SRC2
    then show ?thesis
      using poll1_rest(5) [OF p1] poll2_rest(5) [OF p2 ok1] ok2 by (simp add: merge_ok_def)
  qed
  then show "out \<noteq> []" using merge_switch_writes [of s2] sw by auto
qed

lemma merge_iters_rest:
  assumes "merge_ok st" "length (merge_rest st in1 in2) \<le> n"
  shows "merge_iters n st in1 in2 = merge_rest st in1 in2"
  using assms
proof (induction n arbitrary: st in1 in2)
  case 0
  then show ?case by simp
next
  case (Suc n)
  obtain st' r1 r2 out where i: "merge_iter st in1 in2 = (st', r1, r2, out)"
    by (metis prod_cases4)
  from merge_iter_rest(1) [OF i Suc.prems(1), of "[]" "[]"]
  have r: "merge_rest st in1 in2 = out @ merge_rest st' r1 r2" by simp
  have "length (merge_rest st' r1 r2) \<le> n"
  proof (cases "merge_rest st in1 in2 = []")
    case True
    then show ?thesis unfolding r by simp
  next
    case False
    from merge_iter_rest(3) [OF i Suc.prems(1) False] Suc.prems(2) show ?thesis
      unfolding r by (cases out) auto
  qed
  with Suc.IH [OF merge_iter_rest(2) [OF i Suc.prems(1)]] i r show ?case by simp
qed

lemma length_merge_same: "length (merge_same xs ys) \<le> length xs + length ys"
  by (induction xs ys rule: merge_same.induct) auto

lemma merge_init_rest: "merge_rest (merge_init d1 d2 l1) in1 in2 = merge_same in1 in2" "merge_ok (merge_init d1 d2 l1)"
  by (simp_all add: merge_rest_def merge_init_def pend1_def pend2_def merge_ok_def)

text \<open>As many iterations as there are tokens are enough, and more change nothing.\<close>

lemma merge_same_item_eq: "merge_same_item d1 d2 l1 in1 in2 = merge_same in1 in2"
  using merge_iters_rest [of "merge_init d1 d2 l1" in1 in2 "length in1 + length in2"] length_merge_same [of in1 in2]
  by (simp add: merge_same_item_def merge_init_rest)

subsection \<open>Tokens that arrive while the merger runs\<close>

text \<open>
  The merger as a step relation: a token arrives on one of the streams, or the loop runs
  one iteration.  A configuration is the state, the two FIFOs, what was written, and what
  has arrived so far on each stream.
\<close>

record merge_config =
  mc_state :: merge_state
  mc_in1 :: "u32 frp list"
  mc_in2 :: "u32 frp list"
  mc_out :: "u32 frp list"
  mc_seen1 :: "u32 frp list"
  mc_seen2 :: "u32 frp list"

inductive merge_step :: "merge_config \<Rightarrow> merge_config \<Rightarrow> bool" where
  arrive1: "merge_step c (c\<lparr>mc_in1 := mc_in1 c @ [x], mc_seen1 := mc_seen1 c @ [x]\<rparr>)"
| arrive2: "merge_step c (c\<lparr>mc_in2 := mc_in2 c @ [x], mc_seen2 := mc_seen2 c @ [x]\<rparr>)"
| iterate: "merge_iter (mc_state c) (mc_in1 c) (mc_in2 c) = (st, r1, r2, out) \<Longrightarrow>
    merge_step c (c\<lparr>mc_state := st, mc_in1 := r1, mc_in2 := r2, mc_out := mc_out c @ out\<rparr>)"

definition merge_start :: "merge_state \<Rightarrow> merge_config" where
  "merge_start st = \<lparr>mc_state = st, mc_in1 = [], mc_in2 = [], mc_out = [], mc_seen1 = [], mc_seen2 = []\<rparr>"

text \<open>
  At every moment what was written, and what the state still has to write, make up the
  merge of everything that arrives, now and later.
\<close>

definition merge_inv :: "merge_config \<Rightarrow> bool" where
  "merge_inv c \<longleftrightarrow> merge_ok (mc_state c) \<and>
     (\<forall>z1 z2. mc_out c @ merge_rest (mc_state c) (mc_in1 c @ z1) (mc_in2 c @ z2) =
              merge_same (mc_seen1 c @ z1) (mc_seen2 c @ z2))"

lemma merge_inv_start: "merge_inv (merge_start (merge_init d1 d2 l1))"
  by (simp add: merge_inv_def merge_start_def merge_init_rest)

lemma merge_inv_step: "merge_step c c' \<Longrightarrow> merge_inv c \<Longrightarrow> merge_inv c'"
proof (induction rule: merge_step.induct)
  case (iterate c st r1 r2 out)
  then have ok: "merge_ok (mc_state c)" by (simp add: merge_inv_def)
  show ?case
    using iterate.prems merge_iter_rest(2) [OF iterate.hyps ok] merge_iter_rest(1) [OF iterate.hyps ok]
    by (simp add: merge_inv_def)
qed (auto simp: merge_inv_def)

lemma merge_inv_reachable: "merge_step\<^sup>*\<^sup>* c c' \<Longrightarrow> merge_inv c \<Longrightarrow> merge_inv c'"
  by (induction rule: rtranclp_induct) (auto intro: merge_inv_step)

text \<open>
  Whatever the order of arrivals and iterations: the output is a prefix of the merge of
  what has arrived, and an iteration that writes nothing shows that it is complete.
\<close>

lemma merge_output:
  assumes "merge_step\<^sup>*\<^sup>* (merge_start (merge_init d1 d2 l1)) c"
  shows "\<exists>more. merge_same (mc_seen1 c) (mc_seen2 c) = mc_out c @ more"
    and "snd (snd (snd (merge_iter (mc_state c) (mc_in1 c) (mc_in2 c)))) = [] \<Longrightarrow>
      mc_out c = merge_same (mc_seen1 c) (mc_seen2 c)"
proof -
  from merge_inv_reachable [OF assms merge_inv_start] have inv: "merge_inv c" .
  then have "mc_out c @ merge_rest (mc_state c) (mc_in1 c @ []) (mc_in2 c @ []) =
      merge_same (mc_seen1 c @ []) (mc_seen2 c @ [])"
    unfolding merge_inv_def by blast
  then have e: "mc_out c @ merge_rest (mc_state c) (mc_in1 c) (mc_in2 c) = merge_same (mc_seen1 c) (mc_seen2 c)"
    by simp
  then show "\<exists>more. merge_same (mc_seen1 c) (mc_seen2 c) = mc_out c @ more" by metis
  assume n: "snd (snd (snd (merge_iter (mc_state c) (mc_in1 c) (mc_in2 c)))) = []"
  obtain st r1 r2 out where i: "merge_iter (mc_state c) (mc_in1 c) (mc_in2 c) = (st, r1, r2, out)"
    by (metis prod_cases4)
  have "merge_ok (mc_state c)" using inv by (simp add: merge_inv_def)
  from merge_iter_rest(3) [OF i this] n i have "merge_rest (mc_state c) (mc_in1 c) (mc_in2 c) = []" by auto
  with e show "mc_out c = merge_same (mc_seen1 c) (mc_seen2 c)" by simp
qed

section \<open>Dropping equal neighbours across beats\<close>

datatype flush_state = ST_INIT | ST_RUNNING

fun filter_same_item_body :: "flush_state \<times> u32 \<Rightarrow> u32 frp \<Rightarrow> (flush_state \<times> u32) \<times> u32 frp list \<times> bool" where
  "filter_same_item_body (ST_INIT, last_item) lst = ((ST_RUNNING, frp_data lst), [lst], False)"
| "filter_same_item_body (ST_RUNNING, last_item) cur =
     (if frp_data cur \<noteq> last_item then ((ST_RUNNING, frp_data cur), [cur], False)
      else ((ST_RUNNING, last_item), [], False))"

definition filter_same_item :: "u32 \<Rightarrow> u32 frp option list \<Rightarrow>
  (flush_state \<times> u32) \<times> u32 frp list \<times> u32 frp option list \<times> status" where
  "filter_same_item uninit = poll_loop filter_same_item_body (ST_INIT, uninit)"

lemma filter_running:
  "map frp_data (fst (snd (read_loop filter_same_item_body (ST_RUNNING, d) xs))) =
     tl (remdups_adj (d # map frp_data xs))"
proof (induction xs arbitrary: d)
  case Nil
  then show ?case by simp
next
  case (Cons x xs)
  have "\<exists>ys. remdups_adj (frp_data x # map frp_data xs) = frp_data x # ys"
    by (metis remdups_adj_Cons')
  with Cons [of "frp_data x"] Cons [of d] show ?case by (auto split: prod.splits)
qed

lemma filter_same_item_read:
  "map frp_data (fst (snd (read_loop filter_same_item_body (ST_INIT, u) xs))) = remdups_adj (map frp_data xs)"
proof (cases xs)
  case (Cons x ys)
  have "\<exists>zs. remdups_adj (frp_data x # map frp_data ys) = frp_data x # zs"
    by (metis remdups_adj_Cons')
  with filter_running [of "frp_data x" ys] Cons show ?thesis by (auto split: prod.splits)
qed simp

lemma filter_same_item_eq:
  "map frp_data (fst (snd (filter_same_item u ps))) = remdups_adj (map frp_data (arrived ps))"
  using filter_same_item_read [of u "arrived ps"] poll_loop_read_loop [of filter_same_item_body "(ST_INIT, u)" ps]
  by (auto simp: filter_same_item_def split: prod.splits)

section \<open>The kernel\<close>

text \<open>
  The fifteen mergers: the first on \<open>single[0]\<close> and \<open>single[1]\<close>, number \<open>i + 1\<close> on the
  output of number \<open>i\<close> and \<open>single[i + 2]\<close>.
\<close>

definition merge_tree :: "(nat \<Rightarrow> merge_state) \<Rightarrow> (nat \<Rightarrow> u32 frp list) \<Rightarrow> u32 frp list" where
  "merge_tree ini single =
     fold (\<lambda>i inner. merge_same_item (src1_data (ini i)) (src2_data (ini i)) (src1_last (ini i)) inner (single (i + 1)))
       [0..<15] (single 0)"

definition coalesce :: "nat \<Rightarrow> (nat \<Rightarrow> merge_state) \<Rightarrow> u32 \<Rightarrow> cache_command axis \<Rightarrow> burst axis list \<Rightarrow>
  cache_command axis list" where
  "coalesce B ini uninit fresh src_in =
     (let src_inner = fst (axis_to_hls_stream src_in);
          single = fst (src_to_address B src_inner);
          inner = merge_tree ini (\<lambda>i. port i single);
          out2 = fst (snd (filter_same_item uninit (map Some inner)));
          cmd_inner = fst (single_to_cmd out2)
      in fst (hls_to_axis_stream fresh cmd_inner))"

text \<open>The tokens of a list of groups, each ended by a token with \<open>last\<close>.\<close>

definition group_tokens :: "u32 list \<Rightarrow> u32 frp list" where
  "group_tokens g = map (\<lambda>d. \<lparr>frp_data = d, frp_last = False\<rparr>) (butlast g) @ [\<lparr>frp_data = last g, frp_last = True\<rparr>]"

definition group_add :: "u32 list \<Rightarrow> u32 \<Rightarrow> u32 list" where
  "group_add g d = (if last g = d then g else g @ [d])"

lemma map_data_group_tokens: "g \<noteq> [] \<Longrightarrow> map frp_data (group_tokens g) = g"
  by (simp add: group_tokens_def o_def)

lemma merge_same_group:
  assumes "g \<noteq> []"
  shows "merge_same (group_tokens g @ xs) (y # ys) = group_tokens (group_add g (frp_data y)) @ merge_same xs ys"
proof -
  have "merge_same (map (\<lambda>d. \<lparr>frp_data = d, frp_last = False\<rparr>) b @ \<lparr>frp_data = l, frp_last = True\<rparr> # xs) (y # ys) =
      map (\<lambda>d. \<lparr>frp_data = d, frp_last = False\<rparr>) b @
      (if l = frp_data y then [\<lparr>frp_data = l, frp_last = True\<rparr>]
       else [\<lparr>frp_data = l, frp_last = False\<rparr>, \<lparr>frp_data = frp_data y, frp_last = True\<rparr>]) @ merge_same xs ys" for b l
    by (induction b) auto
  moreover obtain b l where "g = b @ [l]" using assms by (cases g rule: rev_cases) auto
  ultimately show ?thesis by (simp add: group_tokens_def group_add_def butlast_append)
qed

lemma merge_same_groups:
  assumes "\<forall>w \<in> set ws. G w \<noteq> []"
  shows "merge_same (concat (map (\<lambda>w. group_tokens (G w)) ws)) (map (\<lambda>w. \<lparr>frp_data = f w, frp_last = True\<rparr>) ws) =
    concat (map (\<lambda>w. group_tokens (group_add (G w) (f w))) ws)"
  using assms by (induction ws) (simp_all add: merge_same_group)

lemma remdups_adj_snoc: "xs \<noteq> [] \<Longrightarrow> remdups_adj (xs @ [y]) = group_add (remdups_adj xs) y"
  by (induction xs rule: remdups_adj.induct) (auto simp: group_add_def last_remdups_adj)

text \<open>The lanes of a beat without equal neighbours.\<close>

lemma merge_tree_groups:
  assumes "\<And>i. i < 16 \<Longrightarrow> single i = map (\<lambda>w. \<lparr>frp_data = f i w, frp_last = True\<rparr>) ws"
  shows "merge_tree ini single = concat (map (\<lambda>w. group_tokens (remdups_adj (map (\<lambda>i. f i w) [0..<16]))) ws)"
proof -
  have "fold (\<lambda>i inner. merge_same_item (src1_data (ini i)) (src2_data (ini i)) (src1_last (ini i)) inner (single (i + 1)))
      [0..<n] (single 0) = concat (map (\<lambda>w. group_tokens (remdups_adj (map (\<lambda>i. f i w) [0..<Suc n]))) ws)"
    if "n \<le> 15" for n
    using that
  proof (induction n)
    case 0
    have "single 0 = concat (map (\<lambda>w. [\<lparr>frp_data = f 0 w, frp_last = True\<rparr>]) ws)"
      using assms [of 0] by (simp add: concat_map_single)
    then show ?case by (simp add: group_tokens_def)
  next
    case (Suc n)
    have "remdups_adj (map (\<lambda>i. f i w) [0..<Suc (Suc n)]) = group_add (remdups_adj (map (\<lambda>i. f i w) [0..<Suc n])) (f (Suc n) w)" for w
      using remdups_adj_snoc [of "map (\<lambda>i. f i w) [0..<Suc n]" "f (Suc n) w"] by simp
    moreover have "merge_same (concat (map (\<lambda>w. group_tokens (remdups_adj (map (\<lambda>i. f i w) [0..<Suc n]))) ws)) (single (Suc n)) =
        concat (map (\<lambda>w. group_tokens (group_add (remdups_adj (map (\<lambda>i. f i w) [0..<Suc n])) (f (Suc n) w))) ws)"
      using assms [of "Suc n"] Suc.prems merge_same_groups [of ws "\<lambda>w. remdups_adj (map (\<lambda>i. f i w) [0..<Suc n])" "f (Suc n)"]
      by (simp del: upt_Suc)
    ultimately show ?case
      using Suc by (simp add: merge_same_item_eq del: upt_Suc add: upt_Suc_append [of 0 n])
  qed
  from this [of 15] show ?thesis by (simp add: merge_tree_def)
qed

lemma remdups_adj_cong_append: "remdups_adj (remdups_adj xs @ ys) = remdups_adj (xs @ ys)"
proof (induction xs rule: remdups_adj.induct)
  case (3 x y xs)
  obtain zs where "remdups_adj (y # xs) = y # zs" by (metis remdups_adj_Cons')
  with 3 show ?case by auto
qed simp_all

lemma remdups_adj_cong_append2: "remdups_adj (xs @ remdups_adj ys) = remdups_adj (xs @ ys)"
proof -
  have "remdups_adj (rev (remdups_adj ys) @ rev xs) = remdups_adj (rev ys @ rev xs)"
    by (metis remdups_adj_cong_append remdups_adj_rev)
  then show ?thesis by (metis remdups_adj_rev rev_append rev_rev_ident)
qed

lemma remdups_adj_concat: "remdups_adj (concat (map remdups_adj gs)) = remdups_adj (concat gs)"
proof (induction gs)
  case (Cons g gs)
  have "remdups_adj (concat (map remdups_adj (g # gs))) = remdups_adj (g @ remdups_adj (concat (map remdups_adj gs)))"
    by (simp add: remdups_adj_cong_append remdups_adj_cong_append2)
  also have "\<dots> = remdups_adj (g @ concat gs)" by (simp only: Cons remdups_adj_cong_append2)
  finally show ?case by simp
qed simp

text \<open>The block number of a vertex.\<close>

definition block_of :: "nat \<Rightarrow> u32 \<Rightarrow> u32" where
  "block_of B v = drop_bit (B + LOG2_SIZE_BY_INT) v"

lemma src_to_address_port:
  assumes "i < 16"
  shows "port i (fst (src_to_address B ws)) = map (\<lambda>w. \<lparr>frp_data = block_of B (lane i w), frp_last = True\<rparr>) ws"
proof -
  have "port i (map (\<lambda>k. (k, g k)) [0..<n]) = (if i < n then [g i] else [])" for g :: "nat \<Rightarrow> u32 frp" and n
    by (induction n) (auto simp: stream_simps)
  then have b: "port i (fst (src_to_address_body B w)) = [\<lparr>frp_data = block_of B (lane i w), frp_last = True\<rparr>]" for w
    using assms by (simp add: src_to_address_body_def block_of_def lane_simps)
  have "fst (src_to_address B ws) = concat (map (\<lambda>w. fst (src_to_address_body B w)) ws)"
    by (simp add: src_to_address_def token_loop_free_run src_to_address_body_def)
  moreover have "port i (concat (map g ws)) = concat (map (\<lambda>w. port i (g w)) ws)" for g :: "burst \<Rightarrow> (nat \<times> u32 frp) list"
    by (induction ws) (simp_all add: stream_simps)
  ultimately show ?thesis by (simp add: b concat_map_single)
qed

text \<open>
  The commands are the block numbers of the vertices in order, without equal neighbours.
\<close>

definition vertex_blocks :: "nat \<Rightarrow> burst axis list \<Rightarrow> u32 list" where
  "vertex_blocks B beats = concat (map (\<lambda>b. map (\<lambda>i. block_of B (lane i (ax_data b))) [0..<16]) beats)"

lemma coalesce_commands:
  "map ax_data (coalesce B ini u fresh beats) =
     map (\<lambda>d. \<lparr>cc_idx = d, cc_size = 1\<rparr>) (remdups_adj (vertex_blocks B beats))"
proof -
  let ?ws = "map ax_data beats"
  let ?g = "\<lambda>w. map (\<lambda>i. block_of B (lane i w)) [0..<16]"
  let ?inner = "merge_tree ini (\<lambda>i. port i (fst (src_to_address B ?ws)))"
  have a: "fst (axis_to_hls_stream beats) = ?ws"
    by (simp add: axis_to_hls_stream_def token_loop_free_run concat_map_single)
  have "?inner = concat (map (\<lambda>w. group_tokens (remdups_adj (?g w))) ?ws)"
    by (rule merge_tree_groups) (rule src_to_address_port)
  then have "map frp_data ?inner = concat (map remdups_adj (map ?g ?ws))"
    by (simp add: map_concat o_def map_data_group_tokens)
  moreover define out2 where "out2 = fst (snd (filter_same_item u (map Some ?inner)))"
  ultimately have "map frp_data out2 = remdups_adj (concat (map ?g ?ws))"
    by (simp add: filter_same_item_eq remdups_adj_concat del: map_map)
  moreover have "map ax_data (coalesce B ini u fresh beats) = map (\<lambda>d. \<lparr>cc_idx = d, cc_size = 1\<rparr>) (map frp_data out2)"
    unfolding coalesce_def Let_def a out2_def [symmetric]
    by (simp add: single_to_cmd_def hls_to_axis_stream_def token_loop_free_run concat_map_single o_def)
  ultimately show ?thesis by (simp add: vertex_blocks_def o_def)
qed

end
