(* ===== verification/Read_Engine.thy ===== *)
theory Read_Engine
  imports Coalesce Edge_Reader
begin

text \<open>
  The read engine of the source cache (\<open>src/src_cache/src_cache_read_engine.cpp\<close>): each
  command names a block of \<open>2 ^ B\<close> lines of the property array, which it reads and sends
  to the cache with their vertex address; the command that ends the packet becomes two
  lines of zeros, the second with \<open>last\<close> set.
\<close>

record engine_command =  \<comment> \<open>\<open>cache_command\<close> of the read engine\<close>
  ec_idx :: u32
  ec_size :: u32
  ec_flag :: bool

definition end_block :: "nat \<Rightarrow> u32" where
  "end_block B = drop_bit (B + LOG2_SIZE_BY_INT) 0xFFFFFFFF"

definition command_convert_body :: "nat \<Rightarrow> u32 \<Rightarrow> cache_command axis \<Rightarrow> u32 \<times> engine_command list \<times> bool" where
  "command_convert_body B last_idx pkg =
     (if cc_idx (ax_data pkg) = end_block B then
        (last_idx, [\<lparr>ec_idx = last_idx, ec_size = cc_size (ax_data pkg), ec_flag = True\<rparr>], True)
      else
        (cc_idx (ax_data pkg),
         [\<lparr>ec_idx = cc_idx (ax_data pkg), ec_size = cc_size (ax_data pkg), ec_flag = False\<rparr>], False))"

definition command_convert :: "nat \<Rightarrow> cache_command axis option list \<Rightarrow>
  u32 \<times> engine_command list \<times> cache_command axis option list \<times> status" where
  "command_convert B = poll_loop (command_convert_body B) 0"

text \<open>
  The mask of the block number, \<open>((2 * 1024 * 1024 * 1024) >> B) - 1\<close>: the product of
  \<open>int\<close>s overflows to the smallest integer, which the shift keeps negative.
\<close>

definition read_mask :: "nat \<Rightarrow> u32" where
  "read_mask B = signed_drop_bit B 0x80000000 - 1"

text \<open>The inner loop for one command.\<close>

definition burst_lines :: "nat \<Rightarrow> mem \<Rightarrow> u32 \<Rightarrow> cache_line axis list" where
  "burst_lines B input outer_idx =
     map (\<lambda>inner_idx. \<lparr>ax_data = \<lparr>cl_data = input (unat (push_bit B outer_idx) + inner_idx),
                                cl_addr = push_bit (B + LOG2_SIZE_BY_INT) outer_idx + push_bit 4 (word_of_nat inner_idx)\<rparr>,
                      ax_last = False\<rparr>) [0..<2 ^ B]"

text \<open>The state of the loop is \<open>last_addr\<close>.\<close>

definition read_with_request_body :: "nat \<Rightarrow> mem \<Rightarrow> u32 \<Rightarrow> engine_command \<Rightarrow> u32 \<times> cache_line axis list \<times> bool" where
  "read_with_request_body B input last_addr cmd =
     (if ec_flag cmd then (last_addr, [], True)
      else (let outer_idx = ec_idx cmd AND read_mask B
            in (push_bit (B + LOG2_SIZE_BY_INT) outer_idx + push_bit 4 (word_of_nat (2 ^ B - 1)),
                burst_lines B input outer_idx, False)))"

definition read_with_request :: "nat \<Rightarrow> mem \<Rightarrow> engine_command option list \<Rightarrow> cache_line axis list \<times> status" where
  "read_with_request B input cmd_in =
     (case poll_loop (read_with_request_body B input) 0 cmd_in of (last_addr, out, rest, st) \<Rightarrow>
        (out @
         (if st = Returned then
            [\<lparr>ax_data = \<lparr>cl_data = 0, cl_addr = last_addr + push_bit 4 1\<rparr>, ax_last = False\<rparr>,
             \<lparr>ax_data = \<lparr>cl_data = 0, cl_addr = last_addr + push_bit 4 2\<rparr>, ax_last = True\<rparr>]
          else []), st))"

text \<open>The kernel: its lines, the commands it leaves for the next call, and whether it returned.\<close>

definition src_cache_read_engine :: "nat \<Rightarrow> mem \<Rightarrow> cache_command axis option list \<Rightarrow>
  cache_line axis list \<times> cache_command axis option list \<times> status" where
  "src_cache_read_engine B input cmd_in =
     (case command_convert B cmd_in of (last_idx, cmd_stream, rest, st) \<Rightarrow>
        (case read_with_request B input (map Some cmd_stream) of (out, st') \<Rightarrow> (out, rest, st')))"

section \<open>One packet of commands\<close>

lemma command_convert_packet:
  assumes "\<forall>c \<in> set cs. cc_idx (ax_data c) \<noteq> end_block B" "cc_idx (ax_data e) = end_block B"
  shows "\<exists>l. command_convert B (map Some (cs @ e # rest)) =
    (l, map (\<lambda>c. \<lparr>ec_idx = cc_idx (ax_data c), ec_size = cc_size (ax_data c), ec_flag = False\<rparr>) cs @
        [\<lparr>ec_idx = l, ec_size = cc_size (ax_data e), ec_flag = True\<rparr>], map Some rest, Returned)"
proof -
  have "\<exists>l. poll_loop (command_convert_body B) s (map Some (cs @ e # rest)) =
    (l, map (\<lambda>c. \<lparr>ec_idx = cc_idx (ax_data c), ec_size = cc_size (ax_data c), ec_flag = False\<rparr>) cs @
        [\<lparr>ec_idx = l, ec_size = cc_size (ax_data e), ec_flag = True\<rparr>], map Some rest, Returned)" for s
    using assms
  proof (induction cs arbitrary: s)
    case (Cons c cs)
    from Cons.IH [OF _ Cons.prems(2)] Cons.prems(1) obtain l
      where "poll_loop (command_convert_body B) (cc_idx (ax_data c)) (map Some (cs @ e # rest)) =
      (l, map (\<lambda>c. \<lparr>ec_idx = cc_idx (ax_data c), ec_size = cc_size (ax_data c), ec_flag = False\<rparr>) cs @
        [\<lparr>ec_idx = l, ec_size = cc_size (ax_data e), ec_flag = True\<rparr>], map Some rest, Returned)"
      by fastforce
    moreover have "command_convert_body B s c = (cc_idx (ax_data c),
        [\<lparr>ec_idx = cc_idx (ax_data c), ec_size = cc_size (ax_data c), ec_flag = False\<rparr>], False)"
      using Cons.prems(1) by (simp add: command_convert_body_def)
    ultimately show ?case by simp
  qed (simp add: command_convert_body_def)
  then show ?thesis by (simp add: command_convert_def)
qed

text \<open>
  Block numbers below \<open>2 ^ (27 - B)\<close> (vertices below \<open>2 ^ 31\<close>) pass the mask unchanged.
\<close>

lemma read_mask_eq:
  assumes "B \<le> 31"
  shows "read_mask B = NOT (push_bit (31 - B) 1)"
proof -
  have "sint (signed_drop_bit B (0x80000000 :: u32)) = drop_bit B (- (2 ^ 31))"
    by (simp add: sint_signed_drop_bit_eq)
  also have "\<dots> = - (2 ^ (31 - B))"
  proof -
    have "(2 :: int) ^ 31 = 2 ^ (31 - B) * 2 ^ B" using assms by (simp flip: power_add)
    then have "- (2 ^ 31 :: int) = - (2 ^ (31 - B)) * 2 ^ B" by linarith
    then have "- (2 ^ 31 :: int) div 2 ^ B = - (2 ^ (31 - B))"
      by (simp only: nonzero_mult_div_cancel_right power_not_zero zero_neq_numeral [symmetric] not_False_eq_True)
    then show ?thesis by (simp only: drop_bit_eq_div)
  qed
  finally have i: "sint (signed_drop_bit B (0x80000000 :: u32)) = - (2 ^ (31 - B))" .
  have "signed_drop_bit B (0x80000000 :: u32) = word_of_int (sint (signed_drop_bit B (0x80000000 :: u32)))"
    by simp
  then have "signed_drop_bit B (0x80000000 :: u32) = word_of_int (- (2 ^ (31 - B)))"
    by (simp only: i)
  then have "signed_drop_bit B (0x80000000 :: u32) = - push_bit (31 - B) 1"
    by (simp add: push_bit_eq_mult)
  then show ?thesis by (simp add: read_mask_def not_eq_complement)
qed

lemma read_mask_small:
  assumes "b < 2 ^ (27 - B)" "B \<le> 27"
  shows "word_of_nat b AND read_mask B = (word_of_nat b :: u32)"
proof (rule bit_word_eqI)
  fix n assume "n < LENGTH(32)"
  have "b < 2 ^ (31 - B)" by (rule less_le_trans [OF assms(1)]) (rule power_increasing, simp_all)
  then have "\<not> bit b (31 - B)"
    by (simp add: bit_iff_odd)
  then show "bit (word_of_nat b AND read_mask B) n = bit (word_of_nat b :: u32) n"
    using \<open>n < LENGTH(32)\<close> assms(2) by (auto simp: read_mask_eq bit_simps)
qed

text \<open>The lines of a list of line numbers: sixteen vertices each.\<close>

definition lines_of :: "mem \<Rightarrow> nat list \<Rightarrow> cache_line list" where
  "lines_of input ls = map (\<lambda>l. \<lparr>cl_data = input l, cl_addr = word_of_nat (16 * l)\<rparr>) ls"

definition block_lines :: "nat \<Rightarrow> nat list \<Rightarrow> nat list" where
  "block_lines B bs = concat (map (\<lambda>b. [2 ^ B * b..<2 ^ B * b + 2 ^ B]) bs)"

definition tail_lines :: "nat \<Rightarrow> nat list \<Rightarrow> cache_line list" where
  "tail_lines B bs =
     (let l = (if bs = [] then 0 else last (block_lines B bs))
      in [\<lparr>cl_data = 0, cl_addr = word_of_nat (16 * (l + 1))\<rparr>, \<lparr>cl_data = 0, cl_addr = word_of_nat (16 * (l + 2))\<rparr>])"

lemma burst_lines_block:
  assumes "b < 2 ^ (27 - B)" "B \<le> 27"
  shows "map ax_data (burst_lines B input (word_of_nat b)) = lines_of input [2 ^ B * b..<2 ^ B * b + 2 ^ B]"
    "\<forall>p \<in> set (burst_lines B input (word_of_nat b)). \<not> ax_last p"
proof -
  have "2 ^ B * b < 2 ^ B * 2 ^ (27 - B)" using assms(1) by simp
  also have "(2 ^ B * 2 ^ (27 - B) :: nat) = 2 ^ 27" using assms(2) by (simp flip: power_add)
  finally have "2 ^ B * b < 2 ^ 32" by simp
  then have u: "unat (word_of_nat b * 2 ^ B :: u32) = b * 2 ^ B"
    using unat_of_nat_small [of "2 ^ B * b", where 'a = 32] by (simp add: mult.commute)
  show "map ax_data (burst_lines B input (word_of_nat b)) = lines_of input [2 ^ B * b..<2 ^ B * b + 2 ^ B]"
    by (rule nth_equalityI) (simp_all add: burst_lines_def lines_of_def u push_bit_eq_mult LOG2_SIZE_BY_INT_def power_add algebra_simps)
qed (auto simp: burst_lines_def)

lemma last_block_lines: "bs \<noteq> [] \<Longrightarrow> last (block_lines B bs) = 2 ^ B * last bs + 2 ^ B - 1"
  by (cases bs rule: rev_cases) (simp_all add: block_lines_def)

lemma read_with_request_blocks:
  assumes "\<forall>b \<in> set bs. b < 2 ^ (27 - B)" "B \<le> 27"
  shows "\<exists>os l. read_loop (read_with_request_body B input) s (map (\<lambda>b. \<lparr>ec_idx = word_of_nat b, ec_size = 1, ec_flag = False\<rparr>) bs
      @ \<lparr>ec_idx = i, ec_size = sz, ec_flag = True\<rparr> # rest) = (l, os, rest, Returned) \<and>
    map ax_data os = lines_of input (block_lines B bs) \<and> (\<forall>p \<in> set os. \<not> ax_last p) \<and>
    l = (if bs = [] then s else word_of_nat (16 * (2 ^ B * last bs + 2 ^ B - 1)))"
  using assms(1)
proof (induction bs arbitrary: s)
  case Nil
  then show ?case by (simp add: read_with_request_body_def block_lines_def lines_of_def)
next
  case (Cons b bs)
  let ?s = "push_bit (B + LOG2_SIZE_BY_INT) (word_of_nat b) + push_bit 4 (word_of_nat (2 ^ B - 1)) :: u32"
  have s: "?s = word_of_nat (16 * (2 ^ B * b + 2 ^ B - 1))"
  proof -
    have "16 * (2 ^ B * b + 2 ^ B - 1) = 2 ^ (B + 4) * b + 2 ^ 4 * (2 ^ B - 1 :: nat)"
      by (simp add: power_add algebra_simps)
    then show ?thesis by (simp add: push_bit_eq_mult LOG2_SIZE_BY_INT_def mult.commute)
  qed
  from Cons.IH [of ?s] Cons.prems obtain os l where
    r: "read_loop (read_with_request_body B input) ?s (map (\<lambda>b. \<lparr>ec_idx = word_of_nat b, ec_size = 1, ec_flag = False\<rparr>) bs
      @ \<lparr>ec_idx = i, ec_size = sz, ec_flag = True\<rparr> # rest) = (l, os, rest, Returned)"
    and o: "map ax_data os = lines_of input (block_lines B bs)" "\<forall>p \<in> set os. \<not> ax_last p"
    and l: "l = (if bs = [] then ?s else word_of_nat (16 * (2 ^ B * last bs + 2 ^ B - 1)))"
    by auto
  have b: "b < 2 ^ (27 - B)" using Cons.prems by simp
  have "read_with_request_body B input s \<lparr>ec_idx = word_of_nat b, ec_size = 1, ec_flag = False\<rparr> =
      (?s, burst_lines B input (word_of_nat b), False)"
    by (simp add: read_with_request_body_def Let_def read_mask_small [OF b assms(2)])
  then have "read_loop (read_with_request_body B input) s (map (\<lambda>b. \<lparr>ec_idx = word_of_nat b, ec_size = 1, ec_flag = False\<rparr>) (b # bs)
      @ \<lparr>ec_idx = i, ec_size = sz, ec_flag = True\<rparr> # rest) = (l, burst_lines B input (word_of_nat b) @ os, rest, Returned)"
    by (simp only: list.map append_Cons read_loop.simps r prod.case if_False simp_thms)
  moreover have "map ax_data (burst_lines B input (word_of_nat b) @ os) = lines_of input (block_lines B (b # bs))"
    using burst_lines_block(1) [OF b assms(2), of input] o(1) by (simp add: block_lines_def lines_of_def)
  moreover have "\<forall>p \<in> set (burst_lines B input (word_of_nat b) @ os). \<not> ax_last p"
    using burst_lines_block(2) [OF b assms(2), of input] o(2) by auto
  moreover have "l = word_of_nat (16 * (2 ^ B * last (b # bs) + 2 ^ B - 1))"
    using l by (cases "bs = []") (simp_all only: s last.simps if_True if_False simp_thms)
  ultimately show ?case by (metis list.distinct(1))
qed

lemma src_cache_read_engine_packet:
  assumes "\<forall>b \<in> set bs. b < 2 ^ (27 - B)" "B < 27"
    and "map ax_data cs = map (\<lambda>b. \<lparr>cc_idx = word_of_nat b, cc_size = 1\<rparr>) bs"
    and "cc_idx (ax_data e) = end_block B"
  shows "\<exists>os. src_cache_read_engine B input (map Some (cs @ e # rest)) = (os, map Some rest, Returned) \<and>
    map ax_data os = lines_of input (block_lines B bs) @ tail_lines B bs \<and>
    map ax_last os = replicate (length os - 1) False @ [True]"
proof -
  have d: "\<forall>c \<in> set cs. \<exists>b \<in> set bs. ax_data c = \<lparr>cc_idx = word_of_nat b, cc_size = 1\<rparr>"
    using assms(3) by (metis (mono_tags, lifting) imageE image_eqI list.set_map)
  have ne: "word_of_nat b \<noteq> end_block B" if "b < 2 ^ (27 - B)" for b
  proof -
    have "2 ^ (27 - B) * 2 ^ (B + 4) = (2 ^ 31 :: nat)" using assms(2) by (simp flip: power_add)
    then have "2 ^ (27 - B) \<le> unat (0xFFFFFFFF :: u32) div 2 ^ (B + 4)"
      by (subst less_eq_div_iff_mult_less_eq) simp_all
    then have "2 ^ (27 - B) \<le> unat (end_block B)"
      by (simp only: end_block_def LOG2_SIZE_BY_INT_def unat_drop_bit_eq) (simp only: drop_bit_eq_div)
    moreover have "b < 2 ^ LENGTH(32)"
      by (rule less_le_trans [OF that]) (rule power_increasing, simp_all)
    ultimately show ?thesis using unat_of_nat_small [of b, where 'a = 32] that by auto
  qed
  have "\<forall>c \<in> set cs. cc_idx (ax_data c) \<noteq> end_block B"
    using d ne assms(1) by fastforce
  from command_convert_packet [OF this assms(4), of rest] obtain l where
    l: "command_convert B (map Some (cs @ e # rest)) =
      (l, map (\<lambda>c. \<lparr>ec_idx = cc_idx (ax_data c), ec_size = cc_size (ax_data c), ec_flag = False\<rparr>) cs @
        [\<lparr>ec_idx = l, ec_size = cc_size (ax_data e), ec_flag = True\<rparr>], map Some rest, Returned)"
    by blast
  have "map (\<lambda>c. \<lparr>ec_idx = cc_idx (ax_data c), ec_size = cc_size (ax_data c), ec_flag = False\<rparr>) cs =
      map (\<lambda>d. \<lparr>ec_idx = cc_idx d, ec_size = cc_size d, ec_flag = False\<rparr>) (map ax_data cs)" by simp
  then have c: "map (\<lambda>c. \<lparr>ec_idx = cc_idx (ax_data c), ec_size = cc_size (ax_data c), ec_flag = False\<rparr>) cs =
      map (\<lambda>b. \<lparr>ec_idx = word_of_nat b, ec_size = 1, ec_flag = False\<rparr>) bs"
    by (simp only: assms(3)) simp
  from read_with_request_blocks [of bs B input 0 l "cc_size (ax_data e)" "[]"] assms(1,2) obtain os a where
    r: "read_loop (read_with_request_body B input) 0 (map (\<lambda>b. \<lparr>ec_idx = word_of_nat b, ec_size = 1, ec_flag = False\<rparr>) bs
      @ [\<lparr>ec_idx = l, ec_size = cc_size (ax_data e), ec_flag = True\<rparr>]) = (a, os, [], Returned)"
    and o: "map ax_data os = lines_of input (block_lines B bs)" "\<forall>p \<in> set os. \<not> ax_last p"
    and a: "a = (if bs = [] then 0 else word_of_nat (16 * (2 ^ B * last bs + 2 ^ B - 1)))"
    by auto
  have p: "poll_loop f s (map Some xs) = (case read_loop f s xs of (s', os, rest, st) \<Rightarrow> (s', os, map Some rest, st))"
    for f :: "u32 \<Rightarrow> engine_command \<Rightarrow> u32 \<times> cache_line axis list \<times> bool" and s xs
    by (induction xs arbitrary: s) (auto split: prod.splits)
  have t: "[\<lparr>cl_data = 0, cl_addr = a + push_bit 4 1\<rparr>, \<lparr>cl_data = 0, cl_addr = a + push_bit 4 2\<rparr>] = tail_lines B bs"
  proof -
    define L where "L = (if bs = [] then 0 else last (block_lines B bs))"
    then have "a = word_of_nat (16 * L)"
    proof (cases "bs = []")
      case False
      with L_def a last_block_lines [OF False, of B] show ?thesis by (simp only: if_False simp_thms)
    qed (simp add: L_def a)
    then show ?thesis by (simp add: tail_lines_def Let_def L_def [symmetric] push_bit_eq_mult algebra_simps)
  qed
  have m: "map ax_last os = replicate (length os) False"
    using o(2) by (simp add: map_replicate_const [symmetric])
  show ?thesis
    unfolding src_cache_read_engine_def l prod.case c read_with_request_def p r
    using o t m by (simp add: replicate_append_same)
qed

end
