(* ===== verification/Src_Cache.thy ===== *)
theory Src_Cache
  imports Read_Engine
begin

text \<open>
  The cache of source properties (\<open>src/src_cache/src_cache_access.cpp\<close>): \<open>src_buffer\<close> and
  \<open>src_dispatch\<close> spread the vertices of each beat over eight processing elements,
  \<open>src_cache_pe_frp\<close> keeps a window of the property array in on-chip memory and answers
  the requests from it while the lines stream past, \<open>src_merge\<close> puts the answers back
  into beats.
\<close>

definition URAM_DEPTH :: nat where "URAM_DEPTH = 4096"
definition NUM_OF_URAM :: nat where "NUM_OF_URAM = 8"
definition CACHE_SIZE :: nat where "CACHE_SIZE = URAM_DEPTH * NUM_OF_URAM * 2"
definition CACHE_ADDRESS_MASK :: u32 where "CACHE_ADDRESS_MASK = word_of_nat (CACHE_SIZE - 1)"
definition NUM_OF_PE :: nat where "NUM_OF_PE = 8"

lemmas cache_consts = URAM_DEPTH_def NUM_OF_URAM_def CACHE_SIZE_def CACHE_ADDRESS_MASK_def NUM_OF_PE_def

section \<open>The memory of a processing element\<close>

type_synonym uram = "nat \<Rightarrow> nat \<Rightarrow> u64"  \<comment> \<open>\<open>prop[NUM_OF_URAM][URAM_DEPTH]\<close>\<close>

definition cache_address :: "u32 \<Rightarrow> nat" where
  "cache_address src = unat (drop_bit 4 (src AND CACHE_ADDRESS_MASK))"

definition cache_bank :: "u32 \<Rightarrow> nat" where
  "cache_bank src = unat (drop_bit 1 (src AND CACHE_ADDRESS_MASK) AND (word_of_nat NUM_OF_URAM - 1))"

text \<open>\<open>CACHE_ACCESS_FRP\<close>.\<close>

definition cache_access :: "uram \<Rightarrow> u32 \<Rightarrow> u32" where
  "cache_access prop src =
     (let tmp = prop (cache_bank src) (cache_address src)
      in if src AND 1 \<noteq> 0 then rng 32 tmp else rng 0 tmp)"

text \<open>The eight banks of a line, and the loop that writes them under one tag.\<close>

definition line_banks :: "burst \<Rightarrow> nat \<Rightarrow> u64" where
  "line_banks buffer k = rng (64 * k) buffer"

definition store_line :: "uram \<Rightarrow> u32 \<Rightarrow> (nat \<Rightarrow> u64) \<Rightarrow> uram" where
  "store_line prop tb_index temp_buffer =
     (\<lambda>k a. if k < NUM_OF_URAM \<and> a = cache_address tb_index then temp_buffer k else prop k a)"

lemma unat_and_mask: "unat (x AND mask n :: u32) = unat x mod 2 ^ n"
  unfolding take_bit_eq_mask [symmetric] unsigned_take_bit_eq by (simp add: take_bit_eq_mod)

lemma unat_and_consts:
  "unat (x AND 0xFFFF :: u32) = unat x mod 65536" "unat (x AND 7 :: u32) = unat x mod 8"
  "unat (x AND 1 :: u32) = unat x mod 2"
  using unat_and_mask [of x 16] unat_and_mask [of x 3] unat_and_mask [of x 1]
  by (simp_all add: mask_eq_exp_minus_1)

lemma cache_address_eq: "cache_address src = unat src mod 65536 div 16"
  unfolding cache_address_def cache_consts unat_drop_bit_eq
  by (simp add: unat_and_consts drop_bit_eq_div [where 'a = nat])

lemma cache_bank_eq: "cache_bank src = unat src mod 16 div 2"
proof -
  have "cache_bank src = unat (drop_bit 1 (src AND 0xFFFF) AND 7)"
    by (simp add: cache_bank_def cache_consts)
  also have "\<dots> = unat src mod 65536 div 2 mod 8"
    unfolding unat_and_consts unat_drop_bit_eq by (simp add: drop_bit_eq_div [where 'a = nat])
  also have "\<dots> = unat src mod 65536 mod 16 div 2"
    using mod_mult2_eq [of "unat src mod 65536" 2 8] by simp
  finally show ?thesis by (simp add: mod_mod_cancel)
qed

lemma rng_rng: "hi + LENGTH('c) \<le> LENGTH('b) \<Longrightarrow>
    rng hi (rng lo (x :: 'a::len word) :: 'b::len word) = (rng (lo + hi) x :: 'c::len word)"
  by (rule bit_word_eqI) (auto simp: bit_rng add.assoc)

text \<open>A vertex whose line was stored under its tag reads its lane of the line.\<close>

lemma cache_access_store:
  "cache_access (store_line prop a (line_banks d)) v =
     (if cache_address v = cache_address a then lane (unat v mod 16) d else cache_access prop v)"
proof -
  have b: "cache_bank v < NUM_OF_URAM" by (simp add: cache_bank_eq cache_consts)
  have p: "(v AND 1 \<noteq> 0) = odd (unat v)"
    using unat_and_consts(3) [of v] by (simp add: word_unat_eq_iff odd_iff_mod_2_eq_one)
  have r: "rng 32 (line_banks d (cache_bank v)) = (rng (64 * cache_bank v + 32) d :: u32)"
    "rng 0 (line_banks d (cache_bank v)) = (rng (64 * cache_bank v) d :: u32)"
    by (simp_all add: line_banks_def rng_rng)
  have o: "64 * cache_bank v + 32 = 32 * (unat v mod 16)" if "odd (unat v)"
  proof -
    have "odd (unat v mod 16)" using that mod_mod_cancel [of 2 16 "unat v"] by (simp add: odd_iff_mod_2_eq_one)
    then have "2 * (unat v mod 16 div 2) + 1 = unat v mod 16" by (rule odd_two_times_div_two_succ)
    then show ?thesis unfolding cache_bank_eq by arith
  qed
  have e: "64 * cache_bank v = 32 * (unat v mod 16)" if "even (unat v)"
  proof -
    have "even (unat v mod 16)" using that mod_mod_cancel [of 2 16 "unat v"] by (simp add: even_iff_mod_2_eq_zero)
    then have "2 * (unat v mod 16 div 2) = unat v mod 16" by simp
    then show ?thesis unfolding cache_bank_eq by arith
  qed
  show ?thesis
  proof (cases "odd (unat v)")
    case True
    then show ?thesis using b p by (simp add: cache_access_def store_line_def Let_def lane_def r o)
  next
    case False
    then show ?thesis using b p by (simp add: cache_access_def store_line_def Let_def lane_def r e)
  qed
qed

section \<open>A processing element\<close>

record pe_state =
  prop_ram :: uram
  temp_buffer :: "nat \<Rightarrow> u64"
  sv :: u32
  tb_valid :: bool
  tb_index :: u32
  sv_ready :: bool
  min_vertex_index :: u32
  max_vertex_index_cp :: u32
  max_vertex_index_buffer_sv :: u32
  max_vertex_index_buffer_cu :: u32
  required_min_vertex_index :: u32
  frp_flag :: bool
  ca_updated :: bool
  end_of_sv :: bool
  end_of_ca :: bool
  prop_value :: u32
  tb_index_buffer :: u32
  max_vertex_index :: u32
  ca_need_update :: bool

text \<open>
  The registers at the start of a packet: what survives from the last packet are the
  memories and \<open>sv\<close>; \<open>prop_value\<close> has no initialiser.
\<close>

definition pe_start :: "uram \<Rightarrow> (nat \<Rightarrow> u64) \<Rightarrow> u32 \<Rightarrow> u32 \<Rightarrow> pe_state" where
  "pe_start prop0 temp0 sv0 pv =
     \<lparr>prop_ram = prop0, temp_buffer = temp0, sv = sv0, tb_valid = False, tb_index = 0, sv_ready = False,
      min_vertex_index = 0, max_vertex_index_cp = 0, max_vertex_index_buffer_sv = 0,
      max_vertex_index_buffer_cu = 0, required_min_vertex_index = 0, frp_flag = False,
      ca_updated = False, end_of_sv = False, end_of_ca = False, prop_value = pv, tb_index_buffer = 0,
      max_vertex_index = 0, ca_need_update = False\<rparr>"

definition in_window :: "pe_state \<Rightarrow> bool" where
  "in_window st \<longleftrightarrow> min_vertex_index st \<le> sv st \<and> sv st < max_vertex_index_buffer_sv st"

text \<open>The first part of an iteration: a request, new or waiting; the flag is \<open>ready_to_send\<close>.\<close>

definition pe_request :: "pe_state \<Rightarrow> u32 frp list \<Rightarrow> pe_state \<times> bool \<times> u32 frp list" where
  "pe_request st inq =
     (if \<not> sv_ready st then
        (case inq of
           [] \<Rightarrow> (st, False, [])
         | src_frp # rest \<Rightarrow>
             (let st1 = st\<lparr>sv := frp_data src_frp, frp_flag := frp_last src_frp,
                           required_min_vertex_index := frp_data src_frp AND NOT 15\<rparr>
              in if in_window st1 then (st1\<lparr>prop_value := cache_access (prop_ram st1) (sv st1)\<rparr>, True, rest)
                 else (st1\<lparr>sv_ready := True\<rparr>, False, rest)))
      else if in_window st then (st\<lparr>prop_value := cache_access (prop_ram st) (sv st)\<rparr>, True, inq)
      else (st, False, inq))"

text \<open>The second part: a line is taken into the buffer, or the buffer is stored.\<close>

definition pe_line :: "pe_state \<Rightarrow> cache_line frp list \<Rightarrow> pe_state \<times> cache_line frp list \<times> cache_line frp list" where
  "pe_line st lineq =
     (if \<not> tb_valid st \<or> end_of_sv st then
        (case lineq of
           [] \<Rightarrow> (st, [], [])
         | cl_pkg # rest \<Rightarrow>
             (st\<lparr>tb_index := cl_addr (frp_data cl_pkg),
                 end_of_ca := (if frp_last cl_pkg then True else end_of_ca st),
                 tb_valid := True,
                 temp_buffer := line_banks (cl_data (frp_data cl_pkg))\<rparr>, rest, [cl_pkg]))
      else if ca_need_update st then
        (st\<lparr>prop_ram := store_line (prop_ram st) (tb_index st) (temp_buffer st), ca_updated := True,
            tb_valid := False, ca_need_update := False\<rparr>, lineq, [])
      else (st, lineq, []))"

text \<open>\<open>CACHE_SEND_OUT\<close>.\<close>

definition pe_send :: "pe_state \<Rightarrow> bool \<Rightarrow> pe_state \<times> u32 frp list" where
  "pe_send st ready_to_send =
     (if ready_to_send then
        (st\<lparr>end_of_sv := (if frp_flag st then True else end_of_sv st), sv_ready := False\<rparr>,
         [\<lparr>frp_data = prop_value st, frp_last = frp_flag st\<rparr>])
      else (st, []))"

text \<open>The tags after a store, and the test whether the next line may be stored.\<close>

definition pe_tags :: "pe_state \<Rightarrow> pe_state" where
  "pe_tags st =
     (let t = (tb_index_buffer st AND NOT 0xf) + 16;
          st1 = (if ca_updated st then
                   st\<lparr>max_vertex_index := (if max_vertex_index st < t then t else max_vertex_index st),
                      max_vertex_index_cp := (if max_vertex_index st < t then t else max_vertex_index_cp st),
                      min_vertex_index := (if tb_index_buffer st = required_min_vertex_index st
                                           then tb_index_buffer st else min_vertex_index st),
                      ca_updated := False\<rparr>
                 else st);
          st2 = st1\<lparr>max_vertex_index_buffer_sv := max_vertex_index st1,
                    max_vertex_index_buffer_cu := max_vertex_index_cp st1\<rparr>
      in if max_vertex_index_buffer_cu st2 < required_min_vertex_index st2 + word_of_nat CACHE_SIZE
         then st2\<lparr>ca_need_update := True\<rparr> else st2)"

text \<open>
  One iteration: the new state, what is left in the two FIFOs, the answer, the line handed
  on to the next element, and whether the loop is left.
\<close>

definition pe_iter :: "pe_state \<Rightarrow> u32 frp list \<Rightarrow> cache_line frp list \<Rightarrow>
  pe_state \<times> u32 frp list \<times> cache_line frp list \<times> u32 frp list \<times> cache_line frp list \<times> bool" where
  "pe_iter st inq lineq =
     (case pe_request st inq of (st1, ready_to_send, inq') \<Rightarrow>
       (case pe_line st1 lineq of (st2, lineq', fwd) \<Rightarrow>
         (case pe_send (st2\<lparr>tb_index_buffer := tb_index st2\<rparr>) ready_to_send of (st3, out) \<Rightarrow>
           (let st4 = pe_tags st3
            in (st4, inq', lineq', out, fwd, end_of_ca st4 \<and> end_of_sv st4)))))"

text \<open>
  The loop for at most \<open>n\<close> iterations on what is in the FIFOs: answers, lines handed on,
  what is left, and whether it was left by its \<open>break\<close>.
\<close>

fun pe_loop :: "nat \<Rightarrow> pe_state \<Rightarrow> u32 frp list \<Rightarrow> cache_line frp list \<Rightarrow>
  u32 frp list \<times> cache_line frp list \<times> pe_state \<times> u32 frp list \<times> cache_line frp list \<times> status" where
  "pe_loop 0 st inq lineq = ([], [], st, inq, lineq, Blocked)"
| "pe_loop (Suc n) st inq lineq =
     (case pe_iter st inq lineq of (st', inq', lineq', out, fwd, stop) \<Rightarrow>
        if stop then (out, fwd, st', inq', lineq', Returned)
        else (case pe_loop n st' inq' lineq' of (outs, fwds, r) \<Rightarrow> (out @ outs, fwd @ fwds, r)))"

end
