(* ===== verification/Cache_Packet.thy ===== *)
theory Cache_Packet
  imports Src_Cache
begin

text \<open>
  One packet through a processing element of the source cache: the requests come sorted,
  the lines in strictly ascending order, every requested line among them.  The answers are
  the requested lanes provided that a line stored ahead of the requests never takes the
  place of one that is still needed (\<open>no_alias\<close>); the element leaves the packet's loop.
\<close>

section \<open>A packet\<close>

text \<open>A line is its number (its address is sixteen times that) and its data.\<close>

type_synonym nline = "nat \<times> burst"

definition line_tokens :: "nline list \<Rightarrow> cache_line frp list" where
  "line_tokens L = map (\<lambda>i. \<lparr>frp_data = \<lparr>cl_data = snd (L ! i), cl_addr = word_of_nat (16 * fst (L ! i))\<rparr>,
     frp_last = (Suc i = length L)\<rparr>) [0..<length L]"

definition req_tokens :: "nat list \<Rightarrow> u32 frp list" where
  "req_tokens vs = map (\<lambda>i. \<lparr>frp_data = word_of_nat (vs ! i), frp_last = (Suc i = length vs)\<rparr>) [0..<length vs]"

text \<open>
  Line \<open>i + 1\<close> may be stored once the requests are within \<open>CACHE_SIZE\<close> of the end of line
  \<open>i\<close>; then it must not share its place with a line \<open>j\<close> that may still be requested.
\<close>

definition no_alias :: "nat list \<Rightarrow> bool" where
  "no_alias ls \<longleftrightarrow> (\<forall>i < length ls - 1. \<forall>j \<le> i. ls ! i + 1 < ls ! j + 4096 \<longrightarrow>
     ls ! Suc i mod 4096 \<noteq> ls ! j mod 4096)"

definition packet_ok :: "nat list \<Rightarrow> nline list \<Rightarrow> bool" where
  "packet_ok vs L \<longleftrightarrow> vs \<noteq> [] \<and> L \<noteq> [] \<and> sorted vs \<and> sorted_wrt (<) (map fst L) \<and>
     (\<forall>v \<in> set vs. v < 2 ^ 31 \<and> v div 16 \<in> set (map fst L)) \<and>
     (\<forall>l \<in> set (map fst L). l < 2 ^ 27 + 2) \<and> no_alias (map fst L)"

definition line_lookup :: "nline list \<Rightarrow> nat \<Rightarrow> u32" where
  "line_lookup L v = lane (v mod 16) (the (map_of L (v div 16)))"

definition answers :: "nat list \<Rightarrow> nline list \<Rightarrow> u32 frp list" where
  "answers vs L = map (\<lambda>i. \<lparr>frp_data = line_lookup L (vs ! i), frp_last = (Suc i = length vs)\<rparr>) [0..<length vs]"

text \<open>The line of the last request taken, and the end of the lines that are tagged.\<close>

definition req_line :: "nat list \<Rightarrow> nat \<Rightarrow> nat" where
  "req_line vs m = (if m = 0 then 0 else vs ! (m - 1) div 16)"

definition end_line :: "nline list \<Rightarrow> nat \<Rightarrow> nat" where
  "end_line L s = (if s = 0 then 0 else fst (L ! (s - 1)) + 1)"

text \<open>
  The registers that describe the window, with \<open>m\<close> requests taken and \<open>s\<close> lines tagged;
  \<open>u\<close> tells that one more line is stored but not tagged yet.
\<close>

definition window_ok :: "nat list \<Rightarrow> nline list \<Rightarrow> nat \<Rightarrow> nat \<Rightarrow> bool \<Rightarrow> pe_state \<Rightarrow> bool" where
  "window_ok vs L m s u st \<longleftrightarrow>
     m \<le> length vs \<and> s + of_bool u + of_bool (tb_valid st) \<le> length L \<and>
     required_min_vertex_index st = word_of_nat (16 * req_line vs m) \<and>
     unat (min_vertex_index st) \<le> 16 * req_line vs m \<and>
     max_vertex_index st = word_of_nat (16 * end_line L s) \<and>
     max_vertex_index_cp st = max_vertex_index st \<and>
     max_vertex_index_buffer_sv st = max_vertex_index st \<and>
     ca_updated st = u \<and>
     (u \<longrightarrow> \<not> tb_valid st \<and> \<not> ca_need_update st \<and> tb_index st = word_of_nat (16 * fst (L ! s))) \<and>
     (tb_valid st \<longrightarrow> tb_index st = word_of_nat (16 * fst (L ! s)) \<and> temp_buffer st = line_banks (snd (L ! s))) \<and>
     (ca_need_update st \<longrightarrow> end_line L s < req_line vs m + 4096) \<and>
     (\<forall>j < s + of_bool u. req_line vs m \<le> fst (L ! j) \<longrightarrow>
        (\<forall>v. unat v div 16 = fst (L ! j) \<longrightarrow> cache_access (prop_ram st) v = lane (unat v mod 16) (snd (L ! j))))"

lemma no_alias_stores:
  assumes "packet_ok vs L" "s < length L" "end_line L s < r + 4096" "j < s" "r \<le> fst (L ! j)"
  shows "fst (L ! s) mod 4096 \<noteq> fst (L ! j) mod 4096"
proof -
  from assms(4) obtain i where i: "s = Suc i" by (cases s) auto
  have "no_alias (map fst L)" using assms(1) by (simp add: packet_ok_def)
  moreover have "i < length (map fst L) - 1" "j \<le> i" using assms(2,4) i by auto
  ultimately have "map fst L ! i + 1 < map fst L ! j + 4096 \<Longrightarrow> map fst L ! Suc i mod 4096 \<noteq> map fst L ! j mod 4096"
    unfolding no_alias_def by blast
  then show ?thesis using assms(2-5) i by (simp add: end_line_def)
qed

lemma req_line_mono:
  assumes "packet_ok vs L" "m \<le> m'" "m' \<le> length vs"
  shows "req_line vs m \<le> req_line vs m'"
proof (cases "m = 0")
  case False
  then have "vs ! (m - 1) \<le> vs ! (m' - 1)"
    using assms by (intro sorted_nth_mono) (auto simp: packet_ok_def)
  then show ?thesis using False assms by (simp add: req_line_def div_le_mono)
qed (simp add: req_line_def)

lemma packet_bounds:
  assumes "packet_ok vs L"
  shows "i < length vs \<Longrightarrow> vs ! i < 2 ^ 31" "i < length L \<Longrightarrow> fst (L ! i) < 2 ^ 27 + 2"
    "m \<le> length vs \<Longrightarrow> req_line vs m < 2 ^ 27" "s \<le> length L \<Longrightarrow> end_line L s < 2 ^ 27 + 3"
proof -
  show v: "vs ! i < 2 ^ 31" if "i < length vs" for i using assms that by (auto simp: packet_ok_def)
  show l: "fst (L ! i) < 2 ^ 27 + 2" if "i < length L" for i
    using assms that by (auto simp: packet_ok_def)
  show "m \<le> length vs \<Longrightarrow> req_line vs m < 2 ^ 27"
    using v [of "m - 1"] by (cases m) (auto simp: req_line_def intro: less_mult_imp_div_less)
  show "s \<le> length L \<Longrightarrow> end_line L s < 2 ^ 27 + 3"
    using l [of "s - 1"] by (auto simp: end_line_def)
qed

lemma unat_addr: "l < 2 ^ 28 \<Longrightarrow> unat (word_of_nat (16 * l) :: u32) = 16 * l"
  by (rule unat_of_nat_small) simp

lemma cache_address_line: "l < 2 ^ 28 \<Longrightarrow> cache_address (word_of_nat (16 * l)) = l mod 4096"
  unfolding cache_address_eq unat_addr using mult_mod_right [of 16 l 4096] by simp

lemma cache_address_vertex: "cache_address v = unat v div 16 mod 4096"
  unfolding cache_address_eq using mod_mult2_eq [of "unat v" 16 4096] by simp

lemma requested_line:
  assumes "packet_ok vs L" "n < length vs"
  obtains j where "j < length L" "fst (L ! j) = vs ! n div 16" "line_lookup L (vs ! n) = lane (vs ! n mod 16) (snd (L ! j))"
proof -
  from assms have "vs ! n div 16 \<in> set (map fst L)" by (auto simp: packet_ok_def)
  then obtain j where "j < length (map fst L)" "map fst L ! j = vs ! n div 16"
    unfolding in_set_conv_nth by blast
  then have j: "j < length L" "fst (L ! j) = vs ! n div 16" by simp_all
  have "distinct (map fst L)" using assms(1) strict_sorted_iff [of "map fst L"] by (simp add: packet_ok_def)
  then have "map_of L (fst (L ! j)) = Some (snd (L ! j))" using j(1) by simp
  then show ?thesis using that j by (simp add: line_lookup_def)
qed

lemma line_order:
  assumes "packet_ok vs L" "i < length L" "j < length L"
  shows "fst (L ! i) < fst (L ! j) \<longleftrightarrow> i < j"
proof -
  have s: "sorted_wrt (<) (map fst L)" using assms(1) by (simp add: packet_ok_def)
  have lt: "fst (L ! a) < fst (L ! b)" if "a < b" "b < length L" for a b
    using sorted_wrt_nth_less [OF s, of a b] that by simp
  show ?thesis
  proof (cases i j rule: linorder_cases)
    case less
    with lt [OF this assms(3)] show ?thesis by simp
  next
    case greater
    with lt [OF this assms(2)] show ?thesis by simp
  qed simp
qed

text \<open>A request inside the window is answered with its lane.\<close>

lemma window_hit:
  assumes "packet_ok vs L" "window_ok vs L m s False st" "n < length vs" "m = Suc n"
    and "vs ! n < 16 * end_line L s"
  shows "cache_access (prop_ram st) (word_of_nat (vs ! n)) = line_lookup L (vs ! n)"
proof -
  obtain j where j: "j < length L" "fst (L ! j) = vs ! n div 16"
    "line_lookup L (vs ! n) = lane (vs ! n mod 16) (snd (L ! j))"
    by (rule requested_line [OF assms(1,3)])
  have u: "unat (word_of_nat (vs ! n) :: u32) = vs ! n"
    using packet_bounds(1) [OF assms(1,3)] by (intro unat_of_nat_small) simp
  have "s \<noteq> 0" using assms(5) by (cases s) (simp_all add: end_line_def)
  moreover have "s \<le> length L" using assms(2) by (simp add: window_ok_def)
  ultimately have "fst (L ! j) < fst (L ! (s - 1)) + 1"
    using assms(5) unfolding j(2) end_line_def by (simp add: less_mult_imp_div_less mult.commute)
  then have "\<not> s - 1 < j"
    using line_order [OF assms(1), of "s - 1" j] j(1) \<open>s \<le> length L\<close> \<open>s \<noteq> 0\<close> by simp
  then have "j < s + of_bool False" using \<open>s \<noteq> 0\<close> by simp
  moreover have "req_line vs m \<le> fst (L ! j)" using j(2) assms(4) by (simp add: req_line_def)
  moreover have "unat (word_of_nat (vs ! n) :: u32) div 16 = fst (L ! j)" by (simp only: u j(2))
  ultimately show ?thesis using assms(2) u unfolding window_ok_def j(3) by metis
qed

section \<open>The parts of an iteration\<close>

lemma align_line:
  assumes "v < 2 ^ 32"
  shows "(word_of_nat v AND NOT 15 :: u32) = word_of_nat (16 * (v div 16))"
proof -
  have "(word_of_nat v AND NOT 15 :: u32) = push_bit 4 (drop_bit 4 (word_of_nat v))"
  proof (rule bit_word_eqI)
    fix n assume "n < LENGTH(32)"
    then show "bit (word_of_nat v AND NOT 15 :: u32) n = bit (push_bit 4 (drop_bit 4 (word_of_nat v :: u32))) n"
      using bit_mask_iff [of 4 n, where 'a = "32 word"] by (auto simp: bit_simps mask_eq_exp_minus_1)
  qed
  also have "drop_bit 4 (word_of_nat v :: u32) = word_of_nat (v div 16)"
  proof -
    have "v div 16 < 2 ^ LENGTH(32)" using assms by (simp add: less_mult_imp_div_less)
    then have "unat (word_of_nat (v div 16) :: u32) = v div 16" by (rule unat_of_nat_small)
    moreover have "unat (drop_bit 4 (word_of_nat v :: u32)) = v div 16"
      unfolding unat_drop_bit_eq using unat_of_nat_small [of v, where 'a = 32] assms by (simp add: drop_bit_eq_div)
    ultimately show ?thesis by (simp only: word_unat_eq_iff)
  qed
  finally show ?thesis by (simp add: push_bit_eq_mult mult.commute)
qed

text \<open>The register of the requests, with \<open>n\<close> requests answered and \<open>m\<close> taken.\<close>

definition request_ok :: "nat list \<Rightarrow> nat \<Rightarrow> nat \<Rightarrow> pe_state \<Rightarrow> bool" where
  "request_ok vs m n st \<longleftrightarrow> m = n + of_bool (sv_ready st) \<and>
     (sv_ready st \<longrightarrow> sv st = word_of_nat (vs ! n) \<and> frp_flag st = (Suc n = length vs))"

lemma window_take:
  assumes "packet_ok vs L" "window_ok vs L m s u st" "m < length vs"
  shows "window_ok vs L (Suc m) s u (st\<lparr>sv := x, frp_flag := b, required_min_vertex_index := word_of_nat (vs ! m) AND NOT 15\<rparr>)"
proof -
  have "vs ! m < 2 ^ 32" using packet_bounds(1) [OF assms(1,3)] by simp
  from align_line [OF this]
  have "word_of_nat (vs ! m) AND NOT 15 = (word_of_nat (16 * req_line vs (Suc m)) :: u32)"
    by (simp only: req_line_def) simp
  moreover have "req_line vs m \<le> req_line vs (Suc m)"
    using req_line_mono [OF assms(1), of m "Suc m"] assms(3) by simp
  ultimately show ?thesis
    using assms(2,3) unfolding window_ok_def by auto
qed

lemma window_other:
  "window_ok vs L m s u (st\<lparr>sv_ready := b\<rparr>) = window_ok vs L m s u st"
  "window_ok vs L m s u (st\<lparr>prop_value := x\<rparr>) = window_ok vs L m s u st"
  "window_ok vs L m s u (st\<lparr>end_of_sv := c, sv_ready := b\<rparr>) = window_ok vs L m s u st"
  "window_ok vs L m s u (st\<lparr>tb_index_buffer := y\<rparr>) = window_ok vs L m s u st"
  by (simp_all add: window_ok_def)

lemma in_window_iff:
  assumes "packet_ok vs L" "window_ok vs L (Suc n) s False st" "n < length vs" "sv st = word_of_nat (vs ! n)"
  shows "in_window st \<longleftrightarrow> vs ! n < 16 * end_line L s"
proof -
  have u: "unat (word_of_nat (vs ! n) :: u32) = vs ! n"
    using packet_bounds(1) [OF assms(1,3)] by (intro unat_of_nat_small) simp
  have "s \<le> length L" using assms(2) by (simp add: window_ok_def)
  then have e: "unat (word_of_nat (16 * end_line L s) :: u32) = 16 * end_line L s"
    using packet_bounds(4) [OF assms(1), of s] by (intro unat_addr) simp
  have "unat (min_vertex_index st) \<le> 16 * req_line vs (Suc n)" using assms(2) by (simp add: window_ok_def)
  also have "\<dots> \<le> vs ! n" by (simp add: req_line_def)
  finally have "min_vertex_index st \<le> sv st" using u by (simp add: word_le_nat_alt assms(4))
  moreover have "max_vertex_index_buffer_sv st = word_of_nat (16 * end_line L s)"
    using assms(2) unfolding window_ok_def by metis
  ultimately show ?thesis using u e unfolding in_window_def assms(4) word_less_nat_alt by metis
qed

lemma nth_drop_Cons: "drop m xs = y # ys \<Longrightarrow> m < length xs \<and> xs ! m = y \<and> drop (Suc m) xs = ys"
  by (metis Cons_nth_drop_Suc drop_all list.distinct(1) list.inject not_le)

text \<open>The request part: it takes a request when none is waiting, and answers it inside the window.\<close>

lemma pe_request_step:
  assumes "packet_ok vs L" "window_ok vs L m s False st" "request_ok vs m n st"
    and "inq @ later = drop m (req_tokens vs)" "pe_request st inq = (st1, ready, inq')"
  obtains m' where "window_ok vs L m' s False st1" "inq' @ later = drop m' (req_tokens vs)" "m \<le> m'"
    "m' = Suc n \<or> m' = m \<and> \<not> ready \<and> inq = [] \<and> \<not> sv_ready st"
    "ready \<Longrightarrow> n < length vs \<and> prop_value st1 = line_lookup L (vs ! n) \<and> frp_flag st1 = (Suc n = length vs)"
    "\<not> ready \<Longrightarrow> request_ok vs m' n st1"
    "\<not> ready \<Longrightarrow> sv_ready st \<Longrightarrow> 16 * end_line L s \<le> vs ! n"
    "tb_valid st1 = tb_valid st" "end_of_sv st1 = end_of_sv st" "end_of_ca st1 = end_of_ca st"
    "ca_need_update st1 = ca_need_update st" "length inq' + m' = length inq + m"
proof (cases "sv_ready st")
  case True
  then have m: "m = Suc n" and svn: "sv st = word_of_nat (vs ! n)" "frp_flag st = (Suc n = length vs)"
    using assms(3) by (simp_all add: request_ok_def)
  then have n: "n < length vs" using assms(2) by (simp add: window_ok_def)
  note iw = in_window_iff [OF assms(1) assms(2) [unfolded m] n svn(1)]
  show ?thesis
  proof (cases "in_window st")
    case True
    with \<open>sv_ready st\<close> assms(5) have "st1 = st\<lparr>prop_value := cache_access (prop_ram st) (sv st)\<rparr>" "ready" "inq' = inq"
      by (simp_all add: pe_request_def)
    with that [of m] window_hit [OF assms(1,2) n m] iw True assms(2,4) m n svn show ?thesis
      by (simp add: window_other)
  next
    case False
    with \<open>sv_ready st\<close> assms(5) have "st1 = st" "\<not> ready" "inq' = inq"
      by (simp_all add: pe_request_def)
    with that [of m] iw False assms(2,3,4) m show ?thesis by simp
  qed
next
  case False
  then have m: "m = n" using assms(3) by (simp add: request_ok_def)
  show ?thesis
  proof (cases inq)
    case Nil
    with False assms(5) have "st1 = st" "\<not> ready" "inq' = []" by (simp_all add: pe_request_def)
    with that [of m] Nil False assms(2,3,4) m show ?thesis by simp
  next
    case (Cons x rest)
    with assms(4) have d: "n < length (req_tokens vs)" "req_tokens vs ! n = x" "drop (Suc n) (req_tokens vs) = rest @ later"
      using nth_drop_Cons [of m "req_tokens vs" x "rest @ later"] m by auto
    then have n: "n < length vs" and x: "x = \<lparr>frp_data = word_of_nat (vs ! n), frp_last = (Suc n = length vs)\<rparr>"
      by (auto simp: req_tokens_def)
    let ?st = "st\<lparr>sv := word_of_nat (vs ! n), frp_flag := (Suc n = length vs),
      required_min_vertex_index := word_of_nat (vs ! n) AND NOT 15\<rparr>"
    have w: "window_ok vs L (Suc n) s False ?st"
      using window_take [OF assms(1,2)] n m by simp
    have iw: "in_window ?st \<longleftrightarrow> vs ! n < 16 * end_line L s"
      by (rule in_window_iff [OF assms(1) w n]) simp
    show ?thesis
    proof (cases "in_window ?st")
      case True
      with False Cons x assms(5) have "st1 = ?st\<lparr>prop_value := cache_access (prop_ram st) (word_of_nat (vs ! n))\<rparr>" "ready" "inq' = rest"
        by (simp_all add: pe_request_def Let_def)
      with that [of "Suc n"] window_hit [OF assms(1) w n refl] iw True w d m n Cons False show ?thesis
        by (simp add: window_other)
    next
      case False': False
      with False Cons x assms(5) have "st1 = ?st\<lparr>sv_ready := True\<rparr>" "\<not> ready" "inq' = rest"
        by (simp_all add: pe_request_def Let_def)
      with that [of "Suc n"] w d m n Cons False show ?thesis
        by (simp add: window_other request_ok_def)
    qed
  qed
qed

text \<open>The line part: a line is taken, or stored, or the next one has to wait.\<close>

lemma window_store:
  assumes "packet_ok vs L" "window_ok vs L m s False st" "tb_valid st" "ca_need_update st"
  shows "window_ok vs L m s True (st\<lparr>prop_ram := store_line (prop_ram st) (tb_index st) (temp_buffer st),
    ca_updated := True, tb_valid := False, ca_need_update := False\<rparr>)"
proof -
  have s: "s < length L" and tb: "tb_index st = word_of_nat (16 * fst (L ! s))" "temp_buffer st = line_banks (snd (L ! s))"
    and need: "end_line L s < req_line vs m + 4096"
    using assms(2-4) by (auto simp: window_ok_def)
  have b: "fst (L ! j) < 2 ^ 28" if "j < length L" for j using packet_bounds(2) [OF assms(1) that] by simp
  have a: "cache_address (tb_index st) = fst (L ! s) mod 4096"
    unfolding tb(1) by (rule cache_address_line [OF b [OF s]])
  have "cache_access (store_line (prop_ram st) (tb_index st) (temp_buffer st)) v = lane (unat v mod 16) (snd (L ! j))"
    if j: "j < Suc s" "req_line vs m \<le> fst (L ! j)" "unat v div 16 = fst (L ! j)" for j v
  proof -
    have v: "cache_address v = fst (L ! j) mod 4096" by (simp add: cache_address_vertex j(3))
    show ?thesis
    proof (cases "j = s")
      case True
      with v show ?thesis by (simp add: tb(2) cache_access_store a)
    next
      case False
      with j have js: "j < s" by simp
      have "cache_address v \<noteq> cache_address (tb_index st)"
        using no_alias_stores [OF assms(1) s need js j(2)] by (simp add: a v)
      with js j assms(2) show ?thesis by (simp add: tb(2) cache_access_store window_ok_def)
    qed
  qed
  with assms(2) s tb(1) show ?thesis by (simp add: window_ok_def del: of_nat_mult)
qed

lemma window_read:
  assumes "window_ok vs L m s False st" "\<not> tb_valid st" "s < length L" "p = line_tokens L ! s"
  shows "window_ok vs L m s False (st\<lparr>tb_index := cl_addr (frp_data p), end_of_ca := b, tb_valid := True,
    temp_buffer := line_banks (cl_data (frp_data p))\<rparr>)"
  using assms by (simp add: window_ok_def line_tokens_def)

lemma length_line_tokens [simp]: "length (line_tokens L) = length L"
  by (simp add: line_tokens_def)

lemma length_req_tokens [simp]: "length (req_tokens vs) = length vs"
  by (simp add: req_tokens_def)

lemma line_tokens_last: "i < length L \<Longrightarrow> frp_last (line_tokens L ! i) \<longleftrightarrow> Suc i = length L"
  by (simp add: line_tokens_def)

definition same_request :: "pe_state \<Rightarrow> pe_state \<Rightarrow> bool" where
  "same_request st st' \<longleftrightarrow> sv_ready st' = sv_ready st \<and> sv st' = sv st \<and> frp_flag st' = frp_flag st \<and>
     prop_value st' = prop_value st \<and> end_of_sv st' = end_of_sv st"

lemma pe_line_step:
  assumes "packet_ok vs L" "window_ok vs L m s False st" "\<not> end_of_sv st"
    and "lineq @ later = drop (s + of_bool (tb_valid st)) (line_tokens L)"
    and "end_of_ca st = (s + of_bool (tb_valid st) = length L)" "pe_line st lineq = (st2, lineq', fwd)"
  obtains u where "window_ok vs L m s u st2" "same_request st st2" "lineq = fwd @ lineq'"
    "s + of_bool u + of_bool (tb_valid st2) = s + of_bool (tb_valid st) + length fwd"
    "end_of_ca st2 = (s + of_bool (tb_valid st) + length fwd = length L)"
    "\<not> tb_valid st \<Longrightarrow> fwd = [] \<Longrightarrow> lineq = []" "\<not> tb_valid st \<Longrightarrow> fwd \<noteq> [] \<Longrightarrow> tb_valid st2 \<and> length fwd = 1"
    "tb_valid st \<Longrightarrow> fwd = []" "tb_valid st \<Longrightarrow> ca_need_update st \<Longrightarrow> u"
    "\<not> u \<Longrightarrow> ca_need_update st2 = ca_need_update st" "u \<Longrightarrow> tb_valid st"
    "tb_valid st \<Longrightarrow> \<not> u \<Longrightarrow> tb_valid st2"
proof (cases "tb_valid st")
  case False
  show ?thesis
  proof (cases lineq)
    case Nil
    with False assms(3,6) have "st2 = st" "lineq' = []" "fwd = []" by (simp_all add: pe_line_def)
    with that [of False] Nil False assms(2,5) show ?thesis by (simp add: same_request_def)
  next
    case (Cons p rest)
    with assms(4) False have d: "s < length L" "line_tokens L ! s = p"
      using nth_drop_Cons [of s "line_tokens L" p "rest @ later"] by auto
    let ?st = "st\<lparr>tb_index := cl_addr (frp_data p), end_of_ca := (if frp_last p then True else end_of_ca st),
        tb_valid := True, temp_buffer := line_banks (cl_data (frp_data p))\<rparr>"
    from Cons False assms(3,6) have st2: "st2 = ?st" "lineq' = rest" "fwd = [p]"
      by (simp_all add: pe_line_def)
    have "window_ok vs L m s False ?st"
      by (rule window_read [OF assms(2) False d(1)]) (simp add: d)
    with that [of False] st2 Cons False assms(5) d line_tokens_last [OF d(1)] show ?thesis
      by (auto simp: same_request_def)
  qed
next
  case True
  show ?thesis
  proof (cases "ca_need_update st")
    case need: True
    with True assms(3,6) have st2: "st2 = st\<lparr>prop_ram := store_line (prop_ram st) (tb_index st) (temp_buffer st),
        ca_updated := True, tb_valid := False, ca_need_update := False\<rparr>" "lineq' = lineq" "fwd = []"
      by (simp_all add: pe_line_def)
    with that [of True] window_store [OF assms(1,2) True need] True assms(5) show ?thesis
      by (simp add: same_request_def)
  next
    case False
    with True assms(3,6) have "st2 = st" "lineq' = lineq" "fwd = []" by (simp_all add: pe_line_def)
    with that [of False] True False assms(2,5) show ?thesis by (simp add: same_request_def)
  qed
qed

text \<open>The tags.\<close>

lemma pe_tags_window:
  assumes "packet_ok vs L" "window_ok vs L m s u st" "tb_index_buffer st = tb_index st"
  shows "window_ok vs L m (s + of_bool u) False (pe_tags st)"
    "ca_need_update (pe_tags st) \<longleftrightarrow> ca_need_update st \<or> end_line L (s + of_bool u) < req_line vs m + 4096"
    "same_request st (pe_tags st)" "tb_valid (pe_tags st) = tb_valid st" "end_of_ca (pe_tags st) = end_of_ca st"
proof -
  have m: "m \<le> length vs" and s: "s + of_bool u \<le> length L" using assms(2) by (auto simp: window_ok_def)
  have e: "unat (word_of_nat (16 * end_line L t) :: u32) = 16 * end_line L t" if "t \<le> length L" for t
    using packet_bounds(4) [OF assms(1) that] by (intro unat_addr) simp
  have req: "required_min_vertex_index st = word_of_nat (16 * req_line vs m)" using assms(2) by (simp add: window_ok_def)
  have "unat (word_of_nat (16 * req_line vs m + 65536) :: u32) = 16 * req_line vs m + 65536"
    using packet_bounds(3) [OF assms(1) m] by (intro unat_of_nat_small) simp
  then have rs: "unat (required_min_vertex_index st + word_of_nat CACHE_SIZE) = 16 * req_line vs m + 65536"
    unfolding req by (simp add: cache_consts del: of_nat_mult)
  have t: "(tb_index_buffer st AND NOT 0xf) + 16 = word_of_nat (16 * end_line L (Suc s))" if u
  proof -
    have "s < length L" using s that by simp
    then have "16 * fst (L ! s) < 2 ^ 32" using packet_bounds(2) [OF assms(1)] by fastforce
    from align_line [OF this] assms(2,3) that show ?thesis
      by (simp add: window_ok_def end_line_def)
  qed
  have lt: "end_line L s < end_line L (Suc s)" if u
  proof (cases s)
    case (Suc i)
    then show ?thesis using that s line_order [OF assms(1), of i s] by (simp add: end_line_def)
  qed (simp add: end_line_def)
  have max: "max_vertex_index st = word_of_nat (16 * end_line L s)" using assms(2) unfolding window_ok_def by metis
  have less: "max_vertex_index st < word_of_nat (16 * end_line L (Suc s))" if u
    unfolding max word_less_nat_alt using e [of s] e [of "Suc s"] s lt [OF that] that by simp
  let ?T = "word_of_nat (16 * end_line L (s + of_bool u)) :: u32"
  have T: "?T < required_min_vertex_index st + word_of_nat CACHE_SIZE \<longleftrightarrow>
      end_line L (s + of_bool u) < req_line vs m + 4096"
    unfolding word_less_nat_alt rs e [OF s] by presburger
  have tags: "\<exists>mn. pe_tags st = st\<lparr>max_vertex_index := ?T, max_vertex_index_cp := ?T, min_vertex_index := mn,
      ca_updated := False, max_vertex_index_buffer_sv := ?T, max_vertex_index_buffer_cu := ?T,
      ca_need_update := (ca_need_update st \<or> end_line L (s + of_bool u) < req_line vs m + 4096)\<rparr> \<and>
      unat mn \<le> 16 * req_line vs m"
  proof (cases u)
    case True
    have tw: "?T = word_of_nat (16 * end_line L (Suc s))" using True by simp
    let ?mn = "if tb_index_buffer st = required_min_vertex_index st then tb_index_buffer st else min_vertex_index st"
    have "unat ?mn \<le> 16 * req_line vs m"
    proof -
      have "unat (required_min_vertex_index st) = 16 * req_line vs m"
        unfolding req by (rule unat_addr) (use packet_bounds(3) [OF assms(1) m] in simp)
      then show ?thesis using assms(2) by (simp add: window_ok_def)
    qed
    moreover have "pe_tags st = st\<lparr>max_vertex_index := ?T, max_vertex_index_cp := ?T, min_vertex_index := ?mn,
      ca_updated := False, max_vertex_index_buffer_sv := ?T, max_vertex_index_buffer_cu := ?T,
      ca_need_update := (ca_need_update st \<or> end_line L (s + of_bool u) < req_line vs m + 4096)\<rparr>"
    proof -
      have "ca_updated st" using assms(2) True by (simp add: window_ok_def)
      then show ?thesis
        using T less [OF True] unfolding pe_tags_def Let_def t [OF True] tw by simp
    qed
    ultimately show ?thesis by blast
  next
    case False
    have tw: "?T = word_of_nat (16 * end_line L s)" using False by simp
    have cp: "max_vertex_index_cp st = ?T" "\<not> ca_updated st" "unat (min_vertex_index st) \<le> 16 * req_line vs m"
      using assms(2) False max unfolding window_ok_def tw by metis+
    then have "pe_tags st = st\<lparr>max_vertex_index := ?T, max_vertex_index_cp := ?T, min_vertex_index := min_vertex_index st,
      ca_updated := False, max_vertex_index_buffer_sv := ?T, max_vertex_index_buffer_cu := ?T,
      ca_need_update := (ca_need_update st \<or> end_line L (s + of_bool u) < req_line vs m + 4096)\<rparr>"
      using T max unfolding pe_tags_def Let_def tw by simp
    with cp(3) show ?thesis by blast
  qed
  then obtain mn where p: "pe_tags st = st\<lparr>max_vertex_index := ?T, max_vertex_index_cp := ?T, min_vertex_index := mn,
      ca_updated := False, max_vertex_index_buffer_sv := ?T, max_vertex_index_buffer_cu := ?T,
      ca_need_update := (ca_need_update st \<or> end_line L (s + of_bool u) < req_line vs m + 4096)\<rparr>"
    and mn: "unat mn \<le> 16 * req_line vs m" by blast
  show "window_ok vs L m (s + of_bool u) False (pe_tags st)"
    using assms(2) mn unfolding p by (cases u) (simp_all add: window_ok_def del: of_nat_mult)
  show "ca_need_update (pe_tags st) \<longleftrightarrow> ca_need_update st \<or> end_line L (s + of_bool u) < req_line vs m + 4096"
    unfolding p by simp
  show "same_request st (pe_tags st)" "tb_valid (pe_tags st) = tb_valid st" "end_of_ca (pe_tags st) = end_of_ca st"
    by (simp_all add: pe_tags_def Let_def same_request_def)
qed

section \<open>The invariant of the loop\<close>

text \<open>
  At the start of an iteration, with \<open>n\<close> requests answered and \<open>r\<close> lines handed on; \<open>li\<close>
  and \<open>ll\<close> are the tokens of the packet that have not arrived yet.  Before the last answer
  the registers describe the window; after it the element only drains the lines.
\<close>

definition pe_busy :: "nat list \<Rightarrow> nline list \<Rightarrow> nat \<Rightarrow> nat \<Rightarrow> nat \<Rightarrow> pe_state \<Rightarrow> bool" where
  "pe_busy vs L n m r st \<longleftrightarrow> \<not> end_of_sv st \<and> request_ok vs m n st \<and>
     (\<exists>s. r = s + of_bool (tb_valid st) \<and> window_ok vs L m s False st \<and>
        (0 < m \<longrightarrow> end_line L s < req_line vs m + 4096 \<longrightarrow> ca_need_update st))"

definition pe_draining :: "nat list \<Rightarrow> nat \<Rightarrow> pe_state \<Rightarrow> bool" where
  "pe_draining vs m st \<longleftrightarrow> end_of_sv st \<and> \<not> sv_ready st \<and> m = length vs"

definition pe_inv :: "nat list \<Rightarrow> nline list \<Rightarrow> nat \<Rightarrow> nat \<Rightarrow> u32 frp list \<Rightarrow> cache_line frp list \<Rightarrow> pe_state \<Rightarrow> bool" where
  "pe_inv vs L n r inq lineq st \<longleftrightarrow> n \<le> length vs \<and> r \<le> length L \<and>
     end_of_ca st = (r = length L) \<and> lineq = drop r (line_tokens L) \<and>
     (\<exists>m. inq = drop m (req_tokens vs) \<and>
        (if n < length vs then pe_busy vs L n m r st else pe_draining vs m st))"

lemma pe_inv_start:
  assumes "packet_ok vs L"
  shows "pe_inv vs L 0 0 (req_tokens vs) (line_tokens L) (pe_start p t v q)"
proof -
  have ne: "vs \<noteq> []" "L \<noteq> []" using assms by (simp_all add: packet_ok_def)
  have "window_ok vs L 0 0 False (pe_start p t v q)"
    by (simp add: window_ok_def pe_start_def req_line_def end_line_def)
  then have "pe_busy vs L 0 0 0 (pe_start p t v q)"
    by (simp add: pe_busy_def request_ok_def pe_start_def)
  then have "\<exists>m. req_tokens vs = drop m (req_tokens vs) \<and> pe_busy vs L 0 m 0 (pe_start p t v q)"
    by (intro exI [of _ 0]) simp
  with ne show ?thesis by (simp add: pe_inv_def pe_start_def)
qed

definition pe_work :: "pe_state \<Rightarrow> u32 frp list \<Rightarrow> cache_line frp list \<Rightarrow> nat" where
  "pe_work st inq lineq = 2 * length inq + of_bool (sv_ready st) + 2 * length lineq +
     of_bool (tb_valid st \<and> \<not> end_of_sv st)"

text \<open>An iteration while requests are left.\<close>

lemma pe_iter_busy:
  assumes "packet_ok vs L" "n < length vs" "pe_inv vs L n r (inq @ li) (lineq @ ll) st"
    and "pe_iter st inq lineq = (st', inq', lineq', out, fwd, stop)"
  shows "pe_inv vs L (n + length out) (r + length fwd) (inq' @ li) (lineq' @ ll) st'" (is ?inv)
    and "out = take (length out) (drop n (answers vs L))" (is ?out) and "lineq = fwd @ lineq'" (is ?fwd)
    and "stop \<longleftrightarrow> n + length out = length vs \<and> r + length fwd = length L" (is ?stop)
    and "li = [] \<Longrightarrow> ll = [] \<Longrightarrow> pe_work st' inq' lineq' < pe_work st inq lineq" (is "_ \<Longrightarrow> _ \<Longrightarrow> ?work")
proof -
  obtain st1 ready st2 st3 where it: "pe_request st inq = (st1, ready, inq')" "pe_line st1 lineq = (st2, lineq', fwd)"
    "pe_send (st2\<lparr>tb_index_buffer := tb_index st2\<rparr>) ready = (st3, out)" "st' = pe_tags st3"
    "stop = (end_of_ca st' \<and> end_of_sv st')"
    using assms(4) by (auto simp: pe_iter_def Let_def split: prod.splits)
  from assms(2,3) obtain m s where inv: "inq @ li = drop m (req_tokens vs)" "\<not> end_of_sv st" "request_ok vs m n st"
    "r = s + of_bool (tb_valid st)" "window_ok vs L m s False st"
    "0 < m \<Longrightarrow> end_line L s < req_line vs m + 4096 \<Longrightarrow> ca_need_update st"
    "r \<le> length L" "end_of_ca st = (r = length L)" "lineq @ ll = drop r (line_tokens L)"
    unfolding pe_inv_def pe_busy_def by auto
  obtain m' where rq: "window_ok vs L m' s False st1" "inq' @ li = drop m' (req_tokens vs)" "m \<le> m'"
    "m' = Suc n \<or> m' = m \<and> \<not> ready \<and> inq = [] \<and> \<not> sv_ready st"
    "ready \<Longrightarrow> n < length vs \<and> prop_value st1 = line_lookup L (vs ! n) \<and> frp_flag st1 = (Suc n = length vs)"
    "\<not> ready \<Longrightarrow> request_ok vs m' n st1"
    "\<not> ready \<Longrightarrow> sv_ready st \<Longrightarrow> 16 * end_line L s \<le> vs ! n"
    "tb_valid st1 = tb_valid st" "end_of_sv st1 = end_of_sv st" "end_of_ca st1 = end_of_ca st"
    "ca_need_update st1 = ca_need_update st" "length inq' + m' = length inq + m"
    by (rule pe_request_step [OF assms(1) inv(5,3,1) it(1)]) blast
  have "\<not> end_of_sv st1" "lineq @ ll = drop (s + of_bool (tb_valid st1)) (line_tokens L)"
    "end_of_ca st1 = (s + of_bool (tb_valid st1) = length L)"
    using inv rq by simp_all
  from pe_line_step [OF assms(1) rq(1) this it(2)] obtain u where ln: "window_ok vs L m' s u st2" "same_request st1 st2"
    "lineq = fwd @ lineq'"
    "s + of_bool u + of_bool (tb_valid st2) = s + of_bool (tb_valid st1) + length fwd"
    "end_of_ca st2 = (s + of_bool (tb_valid st1) + length fwd = length L)"
    "\<not> tb_valid st1 \<Longrightarrow> fwd = [] \<Longrightarrow> lineq = []" "\<not> tb_valid st1 \<Longrightarrow> fwd \<noteq> [] \<Longrightarrow> tb_valid st2 \<and> length fwd = 1"
    "tb_valid st1 \<Longrightarrow> fwd = []" "tb_valid st1 \<Longrightarrow> ca_need_update st1 \<Longrightarrow> u"
    "\<not> u \<Longrightarrow> ca_need_update st2 = ca_need_update st1" "u \<Longrightarrow> tb_valid st1"
    "tb_valid st1 \<Longrightarrow> \<not> u \<Longrightarrow> tb_valid st2"
    by metis
  show ?fwd by (rule ln(3))
  have st3: "st3 = (if ready then st2\<lparr>tb_index_buffer := tb_index st2,
        end_of_sv := (if frp_flag st2 then True else end_of_sv st2), sv_ready := False\<rparr>
      else st2\<lparr>tb_index_buffer := tb_index st2\<rparr>)"
    "out = (if ready then [\<lparr>frp_data = prop_value st2, frp_last = frp_flag st2\<rparr>] else [])"
    using it(3) by (auto simp: pe_send_def)
  have "window_ok vs L m' s u st3" "tb_index_buffer st3 = tb_index st3"
    using ln(1) by (simp_all add: st3(1) window_ok_def)
  note tg = pe_tags_window [OF assms(1) this, folded it(4)]
  have r': "r + length fwd = s + of_bool u + of_bool (tb_valid st')"
    using ln(4) rq(8) inv(4) by (simp add: tg(4) st3(1))
  have rL: "r + length fwd \<le> length L" using tg(1) unfolding r' by (simp add: window_ok_def)
  have ca: "end_of_ca st' = (r + length fwd = length L)"
    using ln(5) rq(8) inv(4) by (simp add: tg(5) st3(1))
  have sent: "ready \<Longrightarrow> m' = Suc n \<and> prop_value st2 = line_lookup L (vs ! n) \<and> frp_flag st2 = (Suc n = length vs)"
    using rq(4,5) ln(2) by (auto simp: same_request_def)
  have eos: "end_of_sv st' \<longleftrightarrow> n + length out = length vs" and sr: "sv_ready st' = (\<not> ready \<and> sv_ready st1)"
    using tg(3) ln(2) sent rq(9) inv(2) assms(2) by (auto simp: st3 same_request_def)
  show ?stop using it(5) ca eos by blast
  show ?out using sent assms(2) by (auto simp: st3(2) answers_def drop_map take_map upt_conv_Cons)
  have "lineq' @ ll = drop (r + length fwd) (line_tokens L)"
    using inv(9) unfolding ln(3) by (simp add: append_eq_conv_conj drop_drop add.commute)
  moreover have "if n + length out < length vs then pe_busy vs L (n + length out) m' (r + length fwd) st'
      else pe_draining vs m' st'"
  proof (cases "n + length out < length vs")
    case True
    have "request_ok vs m' (n + length out) st'"
      using sent rq(6) ln(2) tg(3) by (cases ready) (simp_all add: request_ok_def st3 same_request_def)
    moreover have "0 < m' \<longrightarrow> end_line L (s + of_bool u) < req_line vs m' + 4096 \<longrightarrow> ca_need_update st'"
      using tg(2) by blast
    ultimately show ?thesis
      using True eos tg(1) r' unfolding pe_busy_def by auto
  next
    case False
    then have "ready" using assms(2) by (auto simp: st3(2) split: if_splits)
    then show ?thesis using False sent eos assms(2) sr by (simp add: pe_draining_def st3(2))
  qed
  moreover have "n + length out \<le> length vs" using assms(2) by (simp add: st3(2))
  ultimately show ?inv using rL ca rq(2) unfolding pe_inv_def by blast
  assume e: "li = []" "ll = []"
  have "inq \<noteq> [] \<or> sv_ready st"
    using inv(1,3) assms(2) e by (auto simp: request_ok_def)
  then have m': "m' = Suc n" using rq(4) by auto
  have lines: "2 * length lineq' + of_bool (tb_valid st') + length fwd + of_bool u = 2 * length lineq + of_bool (tb_valid st)"
    using r' inv(4) unfolding ln(3) by simp
  have "of_bool (tb_valid st' \<and> \<not> end_of_sv st') \<le> (of_bool (tb_valid st') :: nat)" by simp
  moreover have "2 * length inq' + of_bool (sv_ready st') < 2 * length inq + of_bool (sv_ready st) \<or>
      2 * length inq' + of_bool (sv_ready st') = 2 * length inq + of_bool (sv_ready st) \<and> (fwd \<noteq> [] \<or> u)"
  proof (cases "sv_ready st \<and> \<not> ready")
    case True
    then have late: "16 * end_line L s \<le> vs ! n" using rq(7) by blast
    have m: "m = Suc n" using inv(3) True by (simp add: request_ok_def)
    have "fwd \<noteq> [] \<or> u"
    proof (cases "tb_valid st")
      case tb: True
      have "end_line L s \<le> req_line vs m" using late m by (simp add: req_line_def)
      then have "ca_need_update st" using inv(6) m by simp
      then show ?thesis using ln(9) rq(8,11) tb by simp
    next
      case False
      obtain j where j: "j < length L" "fst (L ! j) = vs ! n div 16"
        by (rule requested_line [OF assms(1,2)])
      have "r < length L"
      proof (rule ccontr)
        assume "\<not> r < length L"
        then have s: "s = length L" using inv(4,7) False by simp
        then have "\<not> s - 1 < j" "s \<noteq> 0" "s - 1 < length L" using j(1) by auto
        then have "fst (L ! j) < end_line L s"
          using line_order [OF assms(1) _ j(1), of "s - 1"] by (simp add: end_line_def)
        moreover have "end_line L s \<le> vs ! n div 16"
          using late by (simp add: less_eq_div_iff_mult_less_eq mult.commute)
        ultimately show False using j(2) by simp
      qed
      then have "lineq \<noteq> []" using inv(9) e by auto
      then show ?thesis using ln(6) rq(8) False by blast
    qed
    moreover have "sv_ready st1" using rq(6) m' True by (cases "sv_ready st1") (simp_all add: request_ok_def)
    ultimately show ?thesis using True rq(12) m m' sr by simp
  next
    case False
    then show ?thesis
      using rq(12) m' inv(3) sr by (auto simp: request_ok_def)
  qed
  moreover have "fwd \<noteq> [] \<or> u \<Longrightarrow> 0 < length fwd + of_bool u" by auto
  ultimately have "2 * length inq' + of_bool (sv_ready st') + (2 * length lineq' + of_bool (tb_valid st' \<and> \<not> end_of_sv st'))
      < 2 * length inq + of_bool (sv_ready st) + (2 * length lineq + of_bool (tb_valid st))"
    using lines by linarith
  then show ?work using inv(2) by (simp add: pe_work_def)
qed

text \<open>An iteration after the last answer.\<close>

lemma pe_iter_draining:
  assumes "packet_ok vs L" "r < length L" "pe_inv vs L (length vs) r (inq @ li) (lineq @ ll) st"
    and "pe_iter st inq lineq = (st', inq', lineq', out, fwd, stop)"
  shows "pe_inv vs L (length vs) (r + length fwd) (inq' @ li) (lineq' @ ll) st'" (is ?inv)
    and "out = []" (is ?out) and "lineq = fwd @ lineq'" (is ?fwd)
    and "stop \<longleftrightarrow> r + length fwd = length L" (is ?stop)
    and "ll = [] \<Longrightarrow> pe_work st' inq' lineq' < pe_work st inq lineq" (is "_ \<Longrightarrow> ?work")
proof -
  from assms(2,3) have inv: "end_of_sv st" "\<not> sv_ready st" "inq = []" "li = []" "\<not> end_of_ca st"
    "lineq @ ll = drop r (line_tokens L)"
    by (auto simp: pe_inv_def pe_draining_def)
  have pt: "sv_ready (pe_tags x) = sv_ready x" "end_of_sv (pe_tags x) = end_of_sv x" "end_of_ca (pe_tags x) = end_of_ca x" for x
    by (simp_all add: pe_tags_def Let_def)
  have "pe_request st inq = (st, False, [])" using inv by (simp add: pe_request_def)
  with assms(4) have it: "inq' = []" "out = []" "(case pe_line st lineq of (st2, q, f) \<Rightarrow> (pe_tags (st2\<lparr>tb_index_buffer := tb_index st2\<rparr>), q, f)) = (st', lineq', fwd)"
    "stop = (end_of_ca st' \<and> end_of_sv st')"
    by (auto simp: pe_iter_def pe_send_def Let_def split: prod.splits)
  show ?out by (rule it(2))
  have "lineq' @ ll = drop (r + length fwd) (line_tokens L) \<and> lineq = fwd @ lineq' \<and>
    end_of_sv st' \<and> \<not> sv_ready st' \<and> end_of_ca st' = (r + length fwd = length L) \<and> r + length fwd \<le> length L \<and>
    (lineq \<noteq> [] \<longrightarrow> fwd \<noteq> [])"
  proof (cases lineq)
    case Nil
    with it(3) inv assms(2) show ?thesis by (auto simp: pe_line_def pt)
  next
    case (Cons p rest)
    from nth_drop_Cons [of r "line_tokens L" p "rest @ ll"] inv(6) Cons
    have d: "line_tokens L ! r = p" "drop (Suc r) (line_tokens L) = rest @ ll" by auto
    with line_tokens_last [OF assms(2)] have "frp_last p \<longleftrightarrow> Suc r = length L" by simp
    with it(3) inv assms(2) Cons d show ?thesis by (auto simp: pe_line_def pt)
  qed
  then have res: "lineq' @ ll = drop (r + length fwd) (line_tokens L)" "lineq = fwd @ lineq'"
    "end_of_sv st'" "\<not> sv_ready st'" "end_of_ca st' = (r + length fwd = length L)" "r + length fwd \<le> length L"
    "lineq \<noteq> [] \<Longrightarrow> fwd \<noteq> []"
    by blast+
  show ?fwd by (rule res(2))
  show ?stop using it(4) res(3,5) by blast
  have "pe_draining vs (length vs) st'" using res(3,4) by (simp add: pe_draining_def)
  moreover have "inq' @ li = drop (length vs) (req_tokens vs)" using it(1) inv(4) by simp
  ultimately have "\<exists>m. inq' @ li = drop m (req_tokens vs) \<and> pe_draining vs m st'" by blast
  then show ?inv using res unfolding pe_inv_def by simp
  assume "ll = []"
  then have "lineq \<noteq> []" using inv(6) assms(2) by auto
  then have "fwd \<noteq> []" by (rule res(7))
  then have "length lineq' < length lineq" unfolding res(2) by simp
  then show ?work using inv(1,2) res(3,4) it(1) by (simp add: pe_work_def)
qed

text \<open>Both together: an iteration of a loop that has not been left.\<close>

lemma pe_iter_inv:
  assumes "packet_ok vs L" "pe_inv vs L n r (inq @ li) (lineq @ ll) st" "n < length vs \<or> r < length L"
    and "pe_iter st inq lineq = (st', inq', lineq', out, fwd, stop)"
  shows "pe_inv vs L (n + length out) (r + length fwd) (inq' @ li) (lineq' @ ll) st'"
    and "out = take (length out) (drop n (answers vs L))" and "lineq = fwd @ lineq'"
    and "stop \<longleftrightarrow> n + length out = length vs \<and> r + length fwd = length L"
    and "li = [] \<Longrightarrow> ll = [] \<Longrightarrow> pe_work st' inq' lineq' < pe_work st inq lineq"
proof -
  have "pe_inv vs L (n + length out) (r + length fwd) (inq' @ li) (lineq' @ ll) st' \<and>
    out = take (length out) (drop n (answers vs L)) \<and> lineq = fwd @ lineq' \<and>
    stop = (n + length out = length vs \<and> r + length fwd = length L) \<and>
    (li = [] \<longrightarrow> ll = [] \<longrightarrow> pe_work st' inq' lineq' < pe_work st inq lineq)"
  proof (cases "n < length vs")
    case True
    from pe_iter_busy [OF assms(1) True assms(2,4)] show ?thesis by blast
  next
    case False
    with assms(2,3) have n: "n = length vs" "r < length L" by (auto simp: pe_inv_def)
    note d = pe_iter_draining [OF assms(1) n(2) assms(2) [unfolded n(1)] assms(4)]
    show ?thesis
      unfolding n(1) d(2) list.size add_0_right using d(1,3-5) by simp
  qed
  then show "pe_inv vs L (n + length out) (r + length fwd) (inq' @ li) (lineq' @ ll) st'"
    and "out = take (length out) (drop n (answers vs L))" and "lineq = fwd @ lineq'"
    and "stop \<longleftrightarrow> n + length out = length vs \<and> r + length fwd = length L"
    and "li = [] \<Longrightarrow> ll = [] \<Longrightarrow> pe_work st' inq' lineq' < pe_work st inq lineq"
    by blast+
qed

section \<open>The loop returns with all answers\<close>

lemma pe_loop_inv:
  assumes "packet_ok vs L" "pe_inv vs L n r inq lineq st" "n < length vs \<or> r < length L" "pe_work st inq lineq < k"
  shows "\<exists>st'. pe_loop k st inq lineq = (drop n (answers vs L), lineq, st', [], [], Returned)"
  using assms(2-4)
proof (induction k arbitrary: n r inq lineq st)
  case 0
  then show ?case by simp
next
  case (Suc k)
  obtain st' inq' lineq' out fwd stop where i: "pe_iter st inq lineq = (st', inq', lineq', out, fwd, stop)"
    by (metis prod_cases6)
  have "pe_inv vs L n r (inq @ []) (lineq @ []) st" using Suc.prems(1) by simp
  note st = pe_iter_inv [OF assms(1) this Suc.prems(2) i]
  have inv: "pe_inv vs L (n + length out) (r + length fwd) inq' lineq' st'" using st(1) by simp
  have o: "drop n (answers vs L) = out @ drop (n + length out) (answers vs L)"
    by (metis st(2) append_take_drop_id drop_drop add.commute)
  show ?case
  proof (cases stop)
    case True
    with st(4) have e: "n + length out = length vs" "r + length fwd = length L" by simp_all
    then have "inq' = []" "lineq' = []" "drop (n + length out) (answers vs L) = []"
      using inv by (auto simp: pe_inv_def pe_draining_def answers_def)
    with True i o st(3) show ?thesis by simp
  next
    case False
    with st(4) inv have "n + length out < length vs \<or> r + length fwd < length L" by (auto simp: pe_inv_def)
    from Suc.IH [OF inv this] st(5) Suc.prems(3) obtain st''
      where "pe_loop k st' inq' lineq' = (drop (n + length out) (answers vs L), lineq', st'', [], [], Returned)" by auto
    with False i o st(3) show ?thesis by simp
  qed
qed

text \<open>The number of iterations that a packet needs at most.\<close>

definition pe_fuel :: "'a list \<Rightarrow> 'b list \<Rightarrow> nat" where
  "pe_fuel inq lineq = 2 * length inq + 2 * length lineq + 1"

lemma pe_packet:
  assumes "packet_ok vs L" "pe_fuel (req_tokens vs) (line_tokens L) \<le> k"
  shows "\<exists>st'. pe_loop k (pe_start p t v q) (req_tokens vs) (line_tokens L) =
    (answers vs L, line_tokens L, st', [], [], Returned)"
proof -
  have w: "pe_work (pe_start p t v q) (req_tokens vs) (line_tokens L) < k"
    using assms(2) by (simp add: pe_work_def pe_start_def pe_fuel_def)
  have "0 < length vs \<or> 0 < length L" using assms(1) by (simp add: packet_ok_def)
  from pe_loop_inv [OF assms(1) pe_inv_start [OF assms(1)] this w] show ?thesis by simp
qed

section \<open>Tokens that arrive while the loop runs\<close>

text \<open>
  The element as a step relation: a request or a line of the packet arrives, or the loop
  runs one iteration.
\<close>

record pe_config =
  pc_state :: pe_state
  pc_in :: "u32 frp list"
  pc_lines :: "cache_line frp list"
  pc_todo_in :: "u32 frp list"
  pc_todo_lines :: "cache_line frp list"
  pc_out :: "u32 frp list"
  pc_fwd :: "cache_line frp list"
  pc_left :: bool

inductive pe_step :: "pe_config \<Rightarrow> pe_config \<Rightarrow> bool" where
  request_arrives: "pc_todo_in c = x # xs \<Longrightarrow>
    pe_step c (c\<lparr>pc_in := pc_in c @ [x], pc_todo_in := xs\<rparr>)"
| line_arrives: "pc_todo_lines c = x # xs \<Longrightarrow>
    pe_step c (c\<lparr>pc_lines := pc_lines c @ [x], pc_todo_lines := xs\<rparr>)"
| iterate: "\<not> pc_left c \<Longrightarrow> pe_iter (pc_state c) (pc_in c) (pc_lines c) = (st, inq, lineq, out, fwd, stop) \<Longrightarrow>
    pe_step c (c\<lparr>pc_state := st, pc_in := inq, pc_lines := lineq, pc_out := pc_out c @ out,
      pc_fwd := pc_fwd c @ fwd, pc_left := stop\<rparr>)"

definition pe_config_start :: "pe_state \<Rightarrow> u32 frp list \<Rightarrow> cache_line frp list \<Rightarrow> pe_config" where
  "pe_config_start st rs ls = \<lparr>pc_state = st, pc_in = [], pc_lines = [], pc_todo_in = rs, pc_todo_lines = ls,
     pc_out = [], pc_fwd = [], pc_left = False\<rparr>"

definition config_ok :: "nat list \<Rightarrow> nline list \<Rightarrow> pe_config \<Rightarrow> bool" where
  "config_ok vs L c \<longleftrightarrow>
     pe_inv vs L (length (pc_out c)) (length (pc_fwd c)) (pc_in c @ pc_todo_in c) (pc_lines c @ pc_todo_lines c) (pc_state c) \<and>
     (\<exists>later. answers vs L = pc_out c @ later) \<and> pc_fwd c @ pc_lines c @ pc_todo_lines c = line_tokens L \<and>
     pc_left c = (length (pc_out c) = length vs \<and> length (pc_fwd c) = length L)"

lemma config_ok_start:
  "packet_ok vs L \<Longrightarrow> config_ok vs L (pe_config_start (pe_start p t v q) (req_tokens vs) (line_tokens L))"
  by (simp add: config_ok_def pe_config_start_def pe_inv_start) (simp add: packet_ok_def)

lemma config_ok_step:
  assumes "pe_step c c'" "packet_ok vs L" "config_ok vs L c"
  shows "config_ok vs L c'"
  using assms(1)
proof cases
  case (iterate st inq lineq out fwd stop)
  let ?n = "length (pc_out c)" and ?r = "length (pc_fwd c)"
  have ok: "pe_inv vs L ?n ?r (pc_in c @ pc_todo_in c) (pc_lines c @ pc_todo_lines c) (pc_state c)"
    "\<exists>later. answers vs L = pc_out c @ later" "pc_fwd c @ pc_lines c @ pc_todo_lines c = line_tokens L"
    using assms(3) by (simp_all add: config_ok_def)
  have "?n < length vs \<or> ?r < length L" using iterate(2) assms(3) ok(1) by (auto simp: config_ok_def pe_inv_def)
  note it = pe_iter_inv [OF assms(2) ok(1) this iterate(3)]
  from ok(2) obtain later where "answers vs L = pc_out c @ later" by blast
  moreover from this it(2) have "out = take (length out) later" by simp
  then have "out @ drop (length out) later = later" by (metis append_take_drop_id)
  ultimately have "answers vs L = (pc_out c @ out) @ drop (length out) later" by simp
  then have "\<exists>later. answers vs L = (pc_out c @ out) @ later" by blast
  moreover have "(pc_fwd c @ fwd) @ lineq @ pc_todo_lines c = line_tokens L"
    using ok(3) by (simp add: it(3))
  ultimately show ?thesis
    using it(1,4) unfolding iterate(1) by (simp add: config_ok_def)
qed (use assms(3) in \<open>simp_all add: config_ok_def\<close>)

lemma config_ok_reachable:
  assumes "pe_step\<^sup>*\<^sup>* c c'" "packet_ok vs L" "config_ok vs L c"
  shows "config_ok vs L c'"
  using assms by (induction rule: rtranclp_induct) (auto intro: config_ok_step)

text \<open>From every reachable configuration the end of the packet can be reached.\<close>

lemma config_work:
  assumes "packet_ok vs L" "config_ok vs L c" "\<not> pc_left c"
  shows "\<exists>c'. pe_step c c' \<and>
    2 * (length (pc_todo_in c') + length (pc_todo_lines c')) * 2 + pe_work (pc_state c') (pc_in c') (pc_lines c') <
    2 * (length (pc_todo_in c) + length (pc_todo_lines c)) * 2 + pe_work (pc_state c) (pc_in c) (pc_lines c)"
proof -
  consider x xs where "pc_todo_in c = x # xs" | x xs where "pc_todo_lines c = x # xs"
    | "pc_todo_in c = []" "pc_todo_lines c = []"
    by (cases "pc_todo_in c"; cases "pc_todo_lines c") auto
  then show ?thesis
  proof cases
    case 1
    from request_arrives [OF this] 1 show ?thesis by (intro exI conjI) (assumption, simp add: pe_work_def)
  next
    case 2
    from line_arrives [OF this] 2 show ?thesis by (intro exI conjI) (assumption, simp add: pe_work_def)
  next
    case 3
    obtain st inq lineq out fwd stop where i: "pe_iter (pc_state c) (pc_in c) (pc_lines c) = (st, inq, lineq, out, fwd, stop)"
      by (metis prod_cases6)
    let ?n = "length (pc_out c)" and ?r = "length (pc_fwd c)"
    have ok: "pe_inv vs L ?n ?r (pc_in c @ []) (pc_lines c @ []) (pc_state c)"
      using assms(2) 3 by (simp add: config_ok_def)
    have "?n < length vs \<or> ?r < length L" using assms(2,3) ok by (auto simp: config_ok_def pe_inv_def)
    from pe_iter_inv(5) [OF assms(1) ok this i] 3 iterate [OF assms(3) i] show ?thesis
      by (intro exI conjI) (assumption, simp)
  qed
qed

lemma config_finishes:
  assumes "packet_ok vs L" "config_ok vs L c"
  shows "\<exists>c'. pe_step\<^sup>*\<^sup>* c c' \<and> pc_left c'"
  using assms(2)
proof (induction "2 * (length (pc_todo_in c) + length (pc_todo_lines c)) * 2 +
    pe_work (pc_state c) (pc_in c) (pc_lines c)" arbitrary: c rule: less_induct)
  case less
  show ?case
  proof (cases "pc_left c")
    case False
    from config_work [OF assms(1) less.prems False] obtain d where d: "pe_step c d"
      "2 * (length (pc_todo_in d) + length (pc_todo_lines d)) * 2 + pe_work (pc_state d) (pc_in d) (pc_lines d) <
       2 * (length (pc_todo_in c) + length (pc_todo_lines c)) * 2 + pe_work (pc_state c) (pc_in c) (pc_lines c)" by blast
    from less.hyps [OF d(2) config_ok_step [OF d(1) assms(1) less.prems]] obtain c' where "pe_step\<^sup>*\<^sup>* d c'" "pc_left c'" by blast
    with d(1) show ?thesis by (meson converse_rtranclp_into_rtranclp)
  qed blast
qed

lemma pe_run:
  assumes "packet_ok vs L"
    and "pe_step\<^sup>*\<^sup>* (pe_config_start (pe_start p t v q) (req_tokens vs) (line_tokens L)) c"
  shows "\<exists>later. answers vs L = pc_out c @ later" "pc_left c \<Longrightarrow> pc_out c = answers vs L \<and> pc_fwd c = line_tokens L"
    "\<exists>c'. pe_step\<^sup>*\<^sup>* c c' \<and> pc_left c'"
proof -
  have ok: "config_ok vs L c" by (rule config_ok_reachable [OF assms(2,1) config_ok_start [OF assms(1)]])
  then show o: "\<exists>later. answers vs L = pc_out c @ later" unfolding config_ok_def by blast
  show "\<exists>c'. pe_step\<^sup>*\<^sup>* c c' \<and> pc_left c'" by (rule config_finishes [OF assms(1) ok])
  assume "pc_left c"
  then have l: "length (pc_out c) = length vs" "length (pc_fwd c) = length (line_tokens L)" using ok by (simp_all add: config_ok_def)
  have "pc_fwd c @ pc_lines c @ pc_todo_lines c = line_tokens L" using ok by (simp add: config_ok_def)
  then have "pc_fwd c = line_tokens L" using l(2) by (simp add: append_eq_conv_conj)
  moreover have "length (answers vs L) = length vs" by (simp add: answers_def)
  ultimately show "pc_out c = answers vs L \<and> pc_fwd c = line_tokens L"
    using l(1) o by auto
qed

section \<open>When no line takes the place of a needed one\<close>

text \<open>Lines without gaps, and lines that all fit into the memory.\<close>

lemma no_alias_gapless:
  assumes "\<forall>i < length ls - 1. ls ! Suc i = ls ! i + 1" "sorted_wrt (<) ls"
  shows "no_alias ls"
  unfolding no_alias_def
proof (intro allI impI)
  fix i j assume i: "i < length ls - 1" "j \<le> i" "ls ! i + 1 < ls ! j + 4096"
  have "ls ! j < ls ! Suc i" using sorted_wrt_nth_less [OF assms(2), of j "Suc i"] i(1,2) by simp
  moreover have "ls ! Suc i < ls ! j + 4096" using assms(1) i(1,3) by simp
  ultimately show "ls ! Suc i mod 4096 \<noteq> ls ! j mod 4096"
    by (metis add_less_cancel_left le_add_diff_inverse less_imp_le mod_eq_dvd_iff_nat nat_dvd_not_less zero_less_diff)
qed

lemma no_alias_span:
  assumes "sorted_wrt (<) ls" "\<forall>l \<in> set ls. \<forall>l' \<in> set ls. l' < l + 4096"
  shows "no_alias ls"
  unfolding no_alias_def
proof (intro allI impI)
  fix i j assume i: "i < length ls - 1" "j \<le> i"
  have "ls ! j < ls ! Suc i" using sorted_wrt_nth_less [OF assms(1), of j "Suc i"] i by simp
  moreover have "ls ! Suc i < ls ! j + 4096" using assms(2) i by simp
  ultimately show "ls ! Suc i mod 4096 \<noteq> ls ! j mod 4096"
    by (metis add_less_cancel_left le_add_diff_inverse less_imp_le mod_eq_dvd_iff_nat nat_dvd_not_less zero_less_diff)
qed

section \<open>A schedule\<close>

text \<open>
  A run in which, before each iteration, a given number of requests and of lines arrive.
\<close>

definition pe_arrive :: "nat \<Rightarrow> nat \<Rightarrow> pe_config \<Rightarrow> pe_config" where
  "pe_arrive a b c = c\<lparr>pc_in := pc_in c @ take a (pc_todo_in c), pc_todo_in := drop a (pc_todo_in c),
     pc_lines := pc_lines c @ take b (pc_todo_lines c), pc_todo_lines := drop b (pc_todo_lines c)\<rparr>"

definition pe_iterate :: "pe_config \<Rightarrow> pe_config" where
  "pe_iterate c = (if pc_left c then c else
     (case pe_iter (pc_state c) (pc_in c) (pc_lines c) of (st, inq, lineq, out, fwd, stop) \<Rightarrow>
        c\<lparr>pc_state := st, pc_in := inq, pc_lines := lineq, pc_out := pc_out c @ out,
          pc_fwd := pc_fwd c @ fwd, pc_left := stop\<rparr>))"

definition pe_schedule :: "(nat \<times> nat) list \<Rightarrow> pe_config \<Rightarrow> pe_config" where
  "pe_schedule xs c = fold (\<lambda>(a, b) c. pe_iterate (pe_arrive a b c)) xs c"

lemma requests_arrive: "pe_step\<^sup>*\<^sup>* c (c\<lparr>pc_in := pc_in c @ take a (pc_todo_in c), pc_todo_in := drop a (pc_todo_in c)\<rparr>)"
proof (induction a arbitrary: c)
  case (Suc a)
  show ?case
  proof (cases "pc_todo_in c")
    case Nil
    then show ?thesis by (cases c) simp
  next
    case (Cons x xs)
    from request_arrives [OF this] Suc [of "c\<lparr>pc_in := pc_in c @ [x], pc_todo_in := xs\<rparr>"] Cons
    show ?thesis by (simp add: converse_rtranclp_into_rtranclp)
  qed
qed simp

lemma lines_arrive: "pe_step\<^sup>*\<^sup>* c (c\<lparr>pc_lines := pc_lines c @ take b (pc_todo_lines c), pc_todo_lines := drop b (pc_todo_lines c)\<rparr>)"
proof (induction b arbitrary: c)
  case (Suc b)
  show ?case
  proof (cases "pc_todo_lines c")
    case Nil
    then show ?thesis by (cases c) simp
  next
    case (Cons x xs)
    from line_arrives [OF this] Suc [of "c\<lparr>pc_lines := pc_lines c @ [x], pc_todo_lines := xs\<rparr>"] Cons
    show ?thesis by (simp add: converse_rtranclp_into_rtranclp)
  qed
qed simp

lemma pe_arrive_steps: "pe_step\<^sup>*\<^sup>* c (pe_arrive a b c)"
proof -
  let ?c = "c\<lparr>pc_in := pc_in c @ take a (pc_todo_in c), pc_todo_in := drop a (pc_todo_in c)\<rparr>"
  have "pe_arrive a b c = ?c\<lparr>pc_lines := pc_lines ?c @ take b (pc_todo_lines ?c), pc_todo_lines := drop b (pc_todo_lines ?c)\<rparr>"
    by (simp add: pe_arrive_def)
  with requests_arrive [of c a] lines_arrive [of ?c b] show ?thesis by (metis rtranclp_trans)
qed

lemma pe_schedule_steps: "pe_step\<^sup>*\<^sup>* c (pe_schedule xs c)"
proof (induction xs arbitrary: c)
  case (Cons x xs)
  have "pe_step\<^sup>*\<^sup>* d (pe_iterate d)" for d
    by (auto simp: pe_iterate_def intro: iterate split: prod.split)
  with Cons [of "pe_iterate (pe_arrive (fst x) (snd x) c)"] pe_arrive_steps [of c "fst x" "snd x"]
  show ?case by (simp add: pe_schedule_def case_prod_beta) (meson rtranclp_trans)
qed (simp add: pe_schedule_def)

section \<open>When a line does take the place of a needed one\<close>

text \<open>
  With a gap between the lines the test before a store looks at the end of the line before
  the gap: line 4096 is stored while vertex 0 may still be asked for, whose line 0 has the
  same place.  The five iterations that show it.
\<close>

lemmas pe_iter_defs = pe_iter_def pe_request_def pe_line_def pe_send_def pe_tags_def in_window_def Let_def
  cache_consts pe_start_def

lemma overwrite_iterations:
  fixes p t v q d0 d1
  defines "S0 \<equiv> pe_start p t v q"
  defines "S1 \<equiv> S0\<lparr>sv_ready := True, tb_valid := True, temp_buffer := line_banks d0, ca_need_update := True, sv := 0\<rparr>"
  defines "S2 \<equiv> S1\<lparr>prop_ram := store_line p 0 (line_banks d0), tb_valid := False, max_vertex_index := 16,
      max_vertex_index_cp := 16, max_vertex_index_buffer_sv := 16, max_vertex_index_buffer_cu := 16\<rparr>"
  defines "S3 \<equiv> S2\<lparr>sv_ready := False, prop_value := lane 0 d0, tb_valid := True, tb_index := 65536,
      tb_index_buffer := 65536, temp_buffer := line_banks d1\<rparr>"
  defines "S4 \<equiv> S3\<lparr>prop_ram := store_line (store_line p 0 (line_banks d0)) 65536 (line_banks d1), tb_valid := False,
      max_vertex_index := 65552, max_vertex_index_cp := 65552, max_vertex_index_buffer_sv := 65552,
      max_vertex_index_buffer_cu := 65552, ca_need_update := False\<rparr>"
  shows "pe_iter S0 (\<lparr>frp_data = 0, frp_last = False\<rparr> # rs) (\<lparr>frp_data = \<lparr>cl_data = d0, cl_addr = 0\<rparr>, frp_last = False\<rparr> # ls) =
     (S1, rs, ls, [], [\<lparr>frp_data = \<lparr>cl_data = d0, cl_addr = 0\<rparr>, frp_last = False\<rparr>], False)"
    and "pe_iter S1 rs ls = (S2, rs, ls, [], [], False)"
    and "pe_iter S2 rs (\<lparr>frp_data = \<lparr>cl_data = d1, cl_addr = 65536\<rparr>, frp_last = False\<rparr> # ls) =
     (S3, rs, ls, [\<lparr>frp_data = lane 0 d0, frp_last = False\<rparr>],
      [\<lparr>frp_data = \<lparr>cl_data = d1, cl_addr = 65536\<rparr>, frp_last = False\<rparr>], False)"
    and "pe_iter S3 [] ls = (S4, [], ls, [], [], False)"
    and "fst (snd (snd (snd (pe_iter S4 (\<lparr>frp_data = 0, frp_last = False\<rparr> # rs) [])))) = [\<lparr>frp_data = lane 0 d1, frp_last = False\<rparr>]"
  by (simp_all add: S0_def S1_def S2_def S3_def S4_def pe_iter_defs cache_access_store cache_address_eq)

lemma overwrite_states:
  obtains S1 S2 S3 S4 where
    "\<And>rs ls. pe_iter (pe_start p t v q) (\<lparr>frp_data = 0, frp_last = False\<rparr> # rs)
        (\<lparr>frp_data = \<lparr>cl_data = d0, cl_addr = 0\<rparr>, frp_last = False\<rparr> # ls) =
      (S1, rs, ls, [], [\<lparr>frp_data = \<lparr>cl_data = d0, cl_addr = 0\<rparr>, frp_last = False\<rparr>], False)"
    "\<And>rs ls. pe_iter S1 rs ls = (S2, rs, ls, [], [], False)"
    "\<And>rs ls. pe_iter S2 rs (\<lparr>frp_data = \<lparr>cl_data = d1, cl_addr = 65536\<rparr>, frp_last = False\<rparr> # ls) =
      (S3, rs, ls, [\<lparr>frp_data = lane 0 d0, frp_last = False\<rparr>],
       [\<lparr>frp_data = \<lparr>cl_data = d1, cl_addr = 65536\<rparr>, frp_last = False\<rparr>], False)"
    "\<And>ls. pe_iter S3 [] ls = (S4, [], ls, [], [], False)"
    "\<And>rs. fst (snd (snd (snd (pe_iter S4 (\<lparr>frp_data = 0, frp_last = False\<rparr> # rs) [])))) =
      [\<lparr>frp_data = lane 0 d1, frp_last = False\<rparr>]"
  using overwrite_iterations that by metis

lemma cache_line_overwritten:
  "\<exists>c. pe_step\<^sup>*\<^sup>* (pe_config_start (pe_start p t v q) (req_tokens [0, 0, 65536])
        (line_tokens [(0, d0), (4096, d1), (4097, 0), (4098, 0)])) c \<and>
     pc_out c = [\<lparr>frp_data = lane 0 d0, frp_last = False\<rparr>, \<lparr>frp_data = lane 0 d1, frp_last = False\<rparr>]"
proof -
  let ?c = "pe_config_start (pe_start p t v q) (req_tokens [0, 0, 65536])
        (line_tokens [(0, d0), (4096, d1), (4097, 0), (4098, 0)])"
  let ?r = "\<lambda>v b. \<lparr>frp_data = v, frp_last = b\<rparr> :: u32 frp"
  let ?l = "\<lambda>d a b. \<lparr>frp_data = \<lparr>cl_data = d, cl_addr = a\<rparr>, frp_last = b\<rparr> :: cache_line frp"
  have tok: "req_tokens [0, 0, 65536] = [?r 0 False, ?r 0 False, ?r 65536 True]"
    "line_tokens [(0, d0), (4096, d1), (4097, 0), (4098, 0)] = [?l d0 0 False, ?l d1 65536 False, ?l 0 65552 False, ?l 0 65568 True]"
    by (simp_all add: req_tokens_def line_tokens_def upt_rec)
  obtain S1 S2 S3 S4 where it:
    "\<And>rs ls. pe_iter (pe_start p t v q) (?r 0 False # rs) (?l d0 0 False # ls) = (S1, rs, ls, [], [?l d0 0 False], False)"
    "\<And>rs ls. pe_iter S1 rs ls = (S2, rs, ls, [], [], False)"
    "\<And>rs ls. pe_iter S2 rs (?l d1 65536 False # ls) = (S3, rs, ls, [?r (lane 0 d0) False], [?l d1 65536 False], False)"
    "\<And>ls. pe_iter S3 [] ls = (S4, [], ls, [], [], False)"
    "\<And>rs. fst (snd (snd (snd (pe_iter S4 (?r 0 False # rs) [])))) = [?r (lane 0 d1) False]"
    by (rule overwrite_states [of p t v q d0 d1]) (rule that; assumption)
  obtain S5 q5 l5 f5 b5 where s5: "pe_iter S4 [?r 0 False] [] = (S5, q5, l5, [?r (lane 0 d1) False], f5, b5)"
    using it(5) [of "[]"] by (cases "pe_iter S4 [?r 0 False] []") auto
  have "pc_out (pe_schedule [(1, 2), (0, 0), (0, 0), (0, 0), (1, 0)] ?c) = [?r (lane 0 d0) False, ?r (lane 0 d1) False]"
    unfolding pe_config_start_def tok pe_schedule_def
    by (simp add: pe_arrive_def pe_iterate_def it(1-4) s5)
  with pe_schedule_steps show ?thesis by blast
qed

end
