(* ===== verification/Cache_Access.thy ===== *)
theory Cache_Access
  imports Cache_Packet
begin

text \<open>
  The kernel \<open>src_cache_access\<close> around the eight processing elements
  (\<open>src/src_cache/src_cache_access.cpp\<close>), and the whole source cache as
  \<open>app/clementi/kernel.cfg\<close> connects it: the fork, the coalescing kernel, the read engine
  and the cache.  A packet of sorted vertices comes back as a packet of their properties.
\<close>

section \<open>Splitting beats into requests\<close>

definition src_buffer_body :: "sv_pkg \<Rightarrow> sv_pkg \<Rightarrow> sv_pkg \<times> burst frp list \<times> bool" where
  "src_buffer_body last_pkg pkg =
     (if ax_last pkg then last_pkg else pkg,
      [\<lparr>frp_data = burst_of (\<lambda>i. lane (15 - i) (ax_data last_pkg)), frp_last = ax_last pkg\<rparr>], ax_last pkg)"

text \<open>One packet of the loop: a blocking read, then polls until the last beat.\<close>

fun src_buffer :: "sv_pkg option list \<Rightarrow> burst frp list \<times> sv_pkg option list \<times> status" where
  "src_buffer [] = ([], [], Blocked)"
| "src_buffer (None # ps) = src_buffer ps"
| "src_buffer (Some last_pkg # ps) =
     (case poll_loop src_buffer_body last_pkg ps of (_, out, rest, st) \<Rightarrow> (out, rest, st))"

definition src_dispatch_body :: "unit \<Rightarrow> burst frp \<Rightarrow> unit \<times> (nat \<times> u32 frp) list \<times> bool" where
  "src_dispatch_body _ frp =
     ((), map (\<lambda>i. (i, \<lparr>frp_data = ap_get source_vertex_t ''data'' (2 * i + 1) (frp_data frp), frp_last = False\<rparr>)) [0..<NUM_OF_PE]
        @ map (\<lambda>i. (i, \<lparr>frp_data = ap_get source_vertex_t ''data'' (2 * i) (frp_data frp), frp_last = frp_last frp\<rparr>)) [0..<NUM_OF_PE],
      frp_last frp)"

definition src_dispatch :: "burst frp option list \<Rightarrow> unit \<times> (nat \<times> u32 frp) list \<times> burst frp option list \<times> status" where
  "src_dispatch = poll_loop src_dispatch_body ()"

section \<open>Putting the answers back\<close>

text \<open>
  One beat takes two tokens of each of the eight streams; a stream that runs dry blocks
  the kernel.
\<close>

definition merge_beat :: "(nat \<Rightarrow> u32 frp list) \<Rightarrow> sv_pkg" where
  "merge_beat ins =
     (let d1 = fold (\<lambda>i d. set_lane (15 - (2 * i + 1)) (frp_data (ins i ! 0)) d) [0..<8] 0;
          d2 = fold (\<lambda>i d. set_lane (15 - 2 * i) (frp_data (ins i ! 1)) d) [0..<8] d1
      in \<lparr>ax_data = d2, ax_last = frp_last (ins 7 ! 1)\<rparr>)"

function src_merge :: "(nat \<Rightarrow> u32 frp list) \<Rightarrow> sv_pkg list \<times> status" where
  "src_merge ins =
     (if \<exists>i \<in> set [0..<8]. length (ins i) < 2 then ([], Blocked)
      else (let pkg = merge_beat ins
            in if ax_last pkg then ([pkg], Returned)
               else (case src_merge (\<lambda>i. drop 2 (ins i)) of (os, st) \<Rightarrow> (pkg # os, st))))"
  by pat_completeness auto

termination
  by (relation "measure (\<lambda>ins. length (ins 0))") (auto dest!: bspec [where x = 0])

declare src_merge.simps [simp del]

section \<open>The kernel\<close>

text \<open>The chain of elements: each hands the lines on to the next.\<close>

fun pe_chain :: "(nat \<Rightarrow> pe_state) \<Rightarrow> (nat \<Rightarrow> u32 frp list) \<Rightarrow> nat list \<Rightarrow> cache_line frp list \<Rightarrow>
  (nat \<Rightarrow> u32 frp list) \<times> cache_line frp list" where
  "pe_chain st sv_stream [] cl = (\<lambda>i. [], cl)"
| "pe_chain st sv_stream (i # is) cl =
     (case pe_loop (pe_fuel (sv_stream i) cl) (st i) (sv_stream i) cl of (out, fwd, _) \<Rightarrow>
        (case pe_chain st sv_stream is fwd of (outs, cl') \<Rightarrow> (outs(i := out), cl')))"

definition src_cache_access :: "(nat \<Rightarrow> pe_state) \<Rightarrow> sv_pkg list \<Rightarrow> cache_line axis list \<Rightarrow> sv_pkg list \<times> status" where
  "src_cache_access st in_beats cache_line_in =
     (let sv_frp = fst (src_buffer (map Some in_beats));
          sv_stream = fst (snd (src_dispatch (map Some sv_frp)));
          cl = fst (free_run_axis_to_frp_stream cache_line_in)
      in src_merge (fst (pe_chain st (\<lambda>i. port i sv_stream) [0..<NUM_OF_PE] cl)))"

text \<open>The source cache of one channel.\<close>

definition source_cache :: "nat \<Rightarrow> (nat \<Rightarrow> merge_state) \<Rightarrow> u32 \<Rightarrow> cache_command axis \<Rightarrow> (nat \<Rightarrow> pe_state) \<Rightarrow> mem \<Rightarrow>
  sv_pkg list \<Rightarrow> sv_pkg list \<times> status" where
  "source_cache B ini uninit fresh st input beats =
     (let fork = fst (snd (test_duplicate_512 (map Some beats)));
          cmds = coalesce B ini uninit fresh (port 1 fork);
          lines = fst (src_cache_read_engine B input (map Some cmds))
      in src_cache_access st (port 2 fork) lines)"

section \<open>The requests of a packet\<close>

definition packet_beats :: "burst list \<Rightarrow> burst \<Rightarrow> sv_pkg list" where
  "packet_beats ds e = map (\<lambda>d. \<lparr>ax_data = d, ax_last = False\<rparr>) ds @ [\<lparr>ax_data = e, ax_last = True\<rparr>]"

lemma src_buffer_packet:
  assumes "ds \<noteq> []"
  shows "fst (src_buffer (map Some (packet_beats ds e))) =
    map (\<lambda>k. \<lparr>frp_data = burst_of (\<lambda>i. lane (15 - i) (ds ! k)), frp_last = (Suc k = length ds)\<rparr>) [0..<length ds]"
proof -
  have "fst (snd (poll_loop src_buffer_body \<lparr>ax_data = d, ax_last = False\<rparr> (map Some (packet_beats ds e)))) =
    map (\<lambda>k. \<lparr>frp_data = burst_of (\<lambda>i. lane (15 - i) ((d # ds) ! k)), frp_last = (Suc k = length (d # ds))\<rparr>) [0..<length (d # ds)]"
    for d ds
  proof (induction ds arbitrary: d)
    case Nil
    then show ?case by (simp add: packet_beats_def src_buffer_body_def)
  next
    case (Cons d' ds)
    have "[0..<length (d # d' # ds)] = 0 # map Suc [0..<length (d' # ds)]"
      by (metis length_Cons map_Suc_upt upt_conv_Cons zero_less_Suc)
    moreover obtain l out rest st where
      "poll_loop src_buffer_body \<lparr>ax_data = d', ax_last = False\<rparr> (map Some (packet_beats ds e)) = (l, out, rest, st)"
      by (metis prod_cases4)
    moreover from this Cons [of d'] have "out = map (\<lambda>k. \<lparr>frp_data = burst_of (\<lambda>i. lane (15 - i) ((d' # ds) ! k)),
        frp_last = (Suc k = length (d' # ds))\<rparr>) [0..<length (d' # ds)]"
      by simp
    moreover have "src_buffer_body \<lparr>ax_data = d, ax_last = False\<rparr> \<lparr>ax_data = d', ax_last = False\<rparr> =
        (\<lparr>ax_data = d', ax_last = False\<rparr>, [\<lparr>frp_data = burst_of (\<lambda>i. lane (15 - i) d), frp_last = False\<rparr>], False)"
      by (simp add: src_buffer_body_def)
    ultimately show ?case by (simp add: packet_beats_def o_def del: upt_Suc)
  qed
  note go = this
  have b: "fst (src_buffer (Some x # ps)) = fst (snd (poll_loop src_buffer_body x ps))" for x ps
    by (simp split: prod.splits)
  obtain d ds' where ds: "ds = d # ds'" using assms by (cases ds) auto
  have "map Some (packet_beats ds e) = Some \<lparr>ax_data = d, ax_last = False\<rparr> # map Some (packet_beats ds' e)"
    by (simp add: packet_beats_def ds)
  then show ?thesis by (simp only: b go ds)
qed

text \<open>Element \<open>i\<close> gets lanes \<open>14 - 2 * i\<close> and \<open>15 - 2 * i\<close> of each beat, in this order.\<close>

definition pe_vertices :: "nat \<Rightarrow> burst list \<Rightarrow> nat list" where
  "pe_vertices i ds = concat (map (\<lambda>d. [unat (lane (14 - 2 * i) d), unat (lane (15 - 2 * i) d)]) ds)"

lemma length_pe_vertices: "length (pe_vertices i ds) = 2 * length ds"
  by (induction ds) (simp_all add: pe_vertices_def)

lemma pe_vertices_nth:
  "k < length ds \<Longrightarrow> pe_vertices i ds ! (2 * k) = unat (lane (14 - 2 * i) (ds ! k)) \<and>
     pe_vertices i ds ! (2 * k + 1) = unat (lane (15 - 2 * i) (ds ! k))"
proof (induction ds arbitrary: k)
  case (Cons d ds)
  then show ?case by (cases k) (simp_all add: pe_vertices_def)
qed simp

lemma upt_pairs: "[0..<2 * n] = concat (map (\<lambda>k. [2 * k, 2 * k + 1]) [0..<n])"
  by (induction n) simp_all

lemma src_dispatch_packet:
  assumes "i < 8"
  shows "port i (fst (snd (src_dispatch (map Some
      (map (\<lambda>k. \<lparr>frp_data = burst_of (\<lambda>i. lane (15 - i) (ds ! k)), frp_last = (Suc k = length ds)\<rparr>) [0..<length ds]))))) =
    req_tokens (pe_vertices i ds)"
proof -
  have p: "port i (map (\<lambda>k. (k, g k)) [0..<n]) = (if i < n then [g i] else [])" for g :: "nat \<Rightarrow> u32 frp" and n
    by (induction n) (auto simp: stream_simps)
  have b: "port i (fst (snd (src_dispatch_body () x))) =
      [\<lparr>frp_data = lane (2 * i + 1) (frp_data x), frp_last = False\<rparr>, \<lparr>frp_data = lane (2 * i) (frp_data x), frp_last = frp_last x\<rparr>]" for x
    using assms by (simp add: src_dispatch_body_def stream_simps p NUM_OF_PE_def lane_simps)
  have l: "port i (fst (snd (poll_loop src_dispatch_body () (map Some xs)))) = concat (map (\<lambda>x. port i (fst (snd (src_dispatch_body () x)))) xs)"
    if "\<forall>x \<in> set (butlast xs). \<not> frp_last x" for xs
    using that
  proof (induction xs)
    case (Cons x xs)
    have "snd (snd (src_dispatch_body () x)) = frp_last x" by (simp add: src_dispatch_body_def)
    with Cons show ?case by (cases "xs = []") (auto simp: stream_simps split: prod.splits)
  qed (simp add: stream_simps)
  let ?xs = "map (\<lambda>k. \<lparr>frp_data = burst_of (\<lambda>i. lane (15 - i) (ds ! k)), frp_last = (Suc k = length ds)\<rparr>) [0..<length ds]"
  have "\<forall>x \<in> set (butlast ?xs). \<not> frp_last x"
    by (cases "length ds") (auto simp: butlast_append)
  from l [OF this] have "port i (fst (snd (src_dispatch (map Some ?xs)))) =
      concat (map (\<lambda>k. [\<lparr>frp_data = lane (14 - 2 * i) (ds ! k), frp_last = False\<rparr>,
        \<lparr>frp_data = lane (15 - 2 * i) (ds ! k), frp_last = (Suc k = length ds)\<rparr>]) [0..<length ds])"
    using assms by (simp add: src_dispatch_def b o_def lane_burst_of)
  also have "\<dots> = req_tokens (pe_vertices i ds)"
    unfolding req_tokens_def length_pe_vertices upt_pairs map_concat
    by (intro arg_cong [where f = concat]) (auto simp: pe_vertices_nth [THEN conjunct1] pe_vertices_nth [THEN conjunct2, simplified])
  finally show ?thesis .
qed

section \<open>The answers of a packet\<close>

lemma pe_chain_packet:
  assumes "\<And>i. i \<in> set is \<Longrightarrow> packet_ok (vs i) L" "\<And>i. i \<in> set is \<Longrightarrow> \<exists>p t v q. st i = pe_start p t v q"
    and "\<And>i. i \<in> set is \<Longrightarrow> sv_stream i = req_tokens (vs i)" "distinct is"
  shows "\<forall>i \<in> set is. fst (pe_chain st sv_stream is (line_tokens L)) i = answers (vs i) L"
  using assms
proof (induction "is")
  case (Cons j "is")
  from Cons.prems(2) [of j] obtain p t v q where st: "st j = pe_start p t v q" by auto
  have ok: "packet_ok (vs j) L" using Cons.prems(1) by simp
  from pe_packet [OF ok order_refl, of p t v q] obtain st' where
    "pe_loop (pe_fuel (sv_stream j) (line_tokens L)) (st j) (sv_stream j) (line_tokens L) =
      (answers (vs j) L, line_tokens L, st', [], [], Returned)"
    using Cons.prems(3) [of j] st by auto
  moreover have "\<forall>i \<in> set is. fst (pe_chain st sv_stream is (line_tokens L)) i = answers (vs i) L"
    by (rule Cons.IH) (use Cons.prems in auto)
  ultimately show ?case using Cons.prems(4) by (auto split: prod.splits)
qed simp

text \<open>The beat that the merger builds from one pair of answers of each element.\<close>

lemma lane_merge_beat:
  assumes "l < 16"
  shows "lane l (ax_data (merge_beat ins)) =
    (if even l then frp_data (ins ((14 - l) div 2) ! 0) else frp_data (ins ((15 - l) div 2) ! 1))"
proof -
  have u: "[0..<8] = [0, 1, 2, 3, 4, 5, 6, 7 :: nat]" by (simp add: upt_rec)
  have "l = 0 \<or> l = 1 \<or> l = 2 \<or> l = 3 \<or> l = 4 \<or> l = 5 \<or> l = 6 \<or> l = 7 \<or> l = 8 \<or> l = 9 \<or>
      l = 10 \<or> l = 11 \<or> l = 12 \<or> l = 13 \<or> l = 14 \<or> l = 15"
    using assms by arith
  then show ?thesis
    by (elim disjE) (simp_all add: merge_beat_def Let_def u lane_set_lane)
qed

lemma answers_pair:
  "answers (v # w # vs) L = \<lparr>frp_data = line_lookup L v, frp_last = False\<rparr> #
     \<lparr>frp_data = line_lookup L w, frp_last = (vs = [])\<rparr> # answers vs L"
proof -
  have "[0..<length (v # w # vs)] = 0 # 1 # map (\<lambda>k. Suc (Suc k)) [0..<length vs]"
    by (rule nth_equalityI) (auto simp: nth_Cons simp del: upt_Suc split: nat.split)
  then show ?thesis by (simp add: answers_def del: upt_Suc)
qed

lemma src_merge_answers:
  assumes "ds \<noteq> []" "\<And>i. i < 8 \<Longrightarrow> ins i = answers (pe_vertices i ds) L"
  shows "src_merge ins = (map (\<lambda>k. \<lparr>ax_data = burst_of (\<lambda>l. line_lookup L (unat (lane l (ds ! k)))),
      ax_last = (Suc k = length ds)\<rparr>) [0..<length ds], Returned)"
  using assms
proof (induction ds arbitrary: ins)
  case (Cons d ds)
  have i: "ins i = \<lparr>frp_data = line_lookup L (unat (lane (14 - 2 * i) d)), frp_last = False\<rparr> #
     \<lparr>frp_data = line_lookup L (unat (lane (15 - 2 * i) d)), frp_last = (ds = [])\<rparr> # answers (pe_vertices i ds) L"
    if "i < 8" for i
  proof -
    have "pe_vertices i ds = [] \<longleftrightarrow> ds = []" by (cases ds) (simp_all add: pe_vertices_def)
    then show ?thesis using Cons.prems(2) [OF that] by (simp add: pe_vertices_def answers_pair)
  qed
  have "ax_data (merge_beat ins) = burst_of (\<lambda>l. line_lookup L (unat (lane l d)))"
  proof (rule burst_eqI)
    fix l :: nat assume l: "l < 16"
    have e: "14 - 2 * ((14 - l) div 2) = l" if "even l" using that l by presburger
    have o: "15 - 2 * ((15 - l) div 2) = l" if "odd l" using that l by presburger
    have "(14 - l) div 2 < 8" "(15 - l) div 2 < 8" by simp_all
    then show "lane l (ax_data (merge_beat ins)) = lane l (burst_of (\<lambda>l. line_lookup L (unat (lane l d))))"
      using l e o by (simp add: lane_merge_beat i lane_burst_of)
  qed
  moreover have "ax_last (merge_beat ins) = (ds = [])" by (simp add: merge_beat_def Let_def i)
  ultimately have mb: "merge_beat ins = \<lparr>ax_data = burst_of (\<lambda>l. line_lookup L (unat (lane l d))), ax_last = (ds = [])\<rparr>"
    by simp
  have enough: "\<not> (\<exists>i \<in> set [0..<8]. length (ins i) < 2)" by (auto simp: i)
  show ?case
  proof (cases "ds = []")
    case True
    then show ?thesis
      by (subst src_merge.simps) (simp only: enough if_False Let_def mb, simp)
  next
    case False
    have "src_merge (\<lambda>i. drop 2 (ins i)) = (map (\<lambda>k. \<lparr>ax_data = burst_of (\<lambda>l. line_lookup L (unat (lane l (ds ! k)))),
      ax_last = (Suc k = length ds)\<rparr>) [0..<length ds], Returned)"
      by (rule Cons.IH [OF False]) (simp add: i numeral_2_eq_2)
    moreover have "[0..<length (d # ds)] = 0 # map Suc [0..<length ds]"
      by (simp add: upt_conv_Cons map_Suc_upt del: upt_Suc)
    ultimately show ?thesis using False
      by (subst src_merge.simps) (simp only: enough if_False Let_def mb, simp del: upt_Suc)
  qed
qed simp

text \<open>The kernel on one packet of vertices and one packet of lines.\<close>

definition lanes_of :: "burst list \<Rightarrow> nat list" where
  "lanes_of ds = concat (map (\<lambda>d. map (\<lambda>l. unat (lane l d)) [0..<16]) ds)"

lemma lanes_of_nth:
  "k < length ds \<Longrightarrow> l < 16 \<Longrightarrow> lanes_of ds ! (16 * k + l) = unat (lane l (ds ! k))"
proof (induction ds arbitrary: k)
  case (Cons d ds)
  show ?case
  proof (cases k)
    case 0
    then show ?thesis using Cons.prems by (simp add: lanes_of_def nth_append)
  next
    case (Suc j)
    then show ?thesis using Cons by (simp add: lanes_of_def nth_append)
  qed
qed simp

lemma length_lanes_of: "length (lanes_of ds) = 16 * length ds"
  by (induction ds) (simp_all add: lanes_of_def)

lemma pe_vertices_sub: "i < 8 \<Longrightarrow> set (pe_vertices i ds) \<subseteq> set (lanes_of ds)"
  by (induction ds) (auto simp: pe_vertices_def lanes_of_def)

lemma sorted_pe_vertices:
  assumes "sorted (lanes_of ds)" "i < 8"
  shows "sorted (pe_vertices i ds)"
  using assms(1)
proof (induction ds)
  case (Cons d ds)
  then have s: "sorted (map (\<lambda>l. unat (lane l d)) [0..<16])" "sorted (lanes_of ds)"
    "\<forall>x \<in> set (map (\<lambda>l. unat (lane l d)) [0..<16]). \<forall>y \<in> set (lanes_of ds). x \<le> y"
    by (simp_all add: lanes_of_def sorted_append)
  have "unat (lane (14 - 2 * i) d) \<le> unat (lane (15 - 2 * i) d)"
    using sorted_nth_mono [OF s(1), of "14 - 2 * i" "15 - 2 * i"] assms(2) by simp
  moreover have "\<forall>y \<in> set (pe_vertices i ds). unat (lane j d) \<le> y" if "j < 16" for j
    using s(3) that pe_vertices_sub [OF assms(2), of ds] by auto
  moreover have "pe_vertices i (d # ds) = unat (lane (14 - 2 * i) d) # unat (lane (15 - 2 * i) d) # pe_vertices i ds"
    by (simp add: pe_vertices_def)
  ultimately show ?case using Cons.IH [OF s(2)] by (simp only: sorted_simps) simp
qed (simp add: pe_vertices_def)

definition lines_ok :: "nat list \<Rightarrow> nline list \<Rightarrow> bool" where
  "lines_ok vs L \<longleftrightarrow> L \<noteq> [] \<and> sorted_wrt (<) (map fst L) \<and> (\<forall>l \<in> set (map fst L). l < 2 ^ 27 + 2) \<and>
     no_alias (map fst L) \<and> sorted vs \<and> (\<forall>v \<in> set vs. v < 2 ^ 31 \<and> v div 16 \<in> set (map fst L))"

lemma lines_ok_pe:
  assumes "lines_ok (lanes_of ds) L" "ds \<noteq> []" "i < 8"
  shows "packet_ok (pe_vertices i ds) L"
proof -
  have "pe_vertices i ds \<noteq> []" using assms(2) by (cases ds) (simp_all add: pe_vertices_def)
  moreover have "\<forall>v \<in> set (pe_vertices i ds). v < 2 ^ 31 \<and> v div 16 \<in> set (map fst L)"
    using pe_vertices_sub [OF assms(3), of ds] assms(1) by (auto simp only: lines_ok_def)
  moreover have "sorted (pe_vertices i ds)"
    using assms(1) by (intro sorted_pe_vertices assms(3)) (simp only: lines_ok_def)
  ultimately show ?thesis using assms(1) unfolding packet_ok_def lines_ok_def by blast
qed

lemma src_cache_access_packet:
  assumes "lines_ok (lanes_of ds) L" "ds \<noteq> []" "\<And>i. i < 8 \<Longrightarrow> \<exists>p t v q. st i = pe_start p t v q"
    and "map (\<lambda>p. \<lparr>frp_data = ax_data p, frp_last = ax_last p\<rparr>) ls = line_tokens L"
  shows "src_cache_access st (packet_beats ds e) ls =
    (map (\<lambda>k. \<lparr>ax_data = burst_of (\<lambda>l. line_lookup L (unat (lane l (ds ! k)))), ax_last = (Suc k = length ds)\<rparr>)
      [0..<length ds], Returned)"
proof -
  have cl: "fst (free_run_axis_to_frp_stream ls) = line_tokens L"
    using assms(4) by (simp add: free_run_axis_to_frp_stream_def token_loop_free_run concat_map_single)
  let ?sv = "fst (snd (src_dispatch (map Some (fst (src_buffer (map Some (packet_beats ds e)))))))"
  have sv: "port i ?sv = req_tokens (pe_vertices i ds)" if "i < 8" for i
    unfolding src_buffer_packet [OF assms(2)] by (rule src_dispatch_packet [OF that])
  have "\<forall>i \<in> set [0..<NUM_OF_PE]. fst (pe_chain st (\<lambda>i. port i ?sv) [0..<NUM_OF_PE] (line_tokens L)) i = answers (pe_vertices i ds) L"
    by (rule pe_chain_packet) (use sv lines_ok_pe [OF assms(1,2)] assms(3) in \<open>simp_all add: NUM_OF_PE_def\<close>)
  then show ?thesis
    unfolding src_cache_access_def Let_def cl by (intro src_merge_answers [OF assms(2)]) (simp add: NUM_OF_PE_def)
qed

section \<open>The source cache on a packet\<close>

text \<open>The blocks of \<open>2 ^ (B + 4)\<close> vertices that a list of vertices touches, and their lines.\<close>

definition blocks_of :: "nat \<Rightarrow> nat list \<Rightarrow> nat list" where
  "blocks_of B vs = remdups_adj (map (\<lambda>v. v div 2 ^ (B + 4)) vs)"

definition packet_lines :: "nat \<Rightarrow> mem \<Rightarrow> nat list \<Rightarrow> nline list" where
  "packet_lines B input bs =
     map (\<lambda>l. (l, input l)) (block_lines B bs) @
     [(last (block_lines B bs) + 1, 0), (last (block_lines B bs) + 2, 0)]"

lemma block_of_unat: "unat (block_of B w) = unat w div 2 ^ (B + 4)"
  unfolding block_of_def LOG2_SIZE_BY_INT_def unat_drop_bit_eq by (simp add: drop_bit_eq_div)

lemma map_unat_vertex_blocks:
  "map unat (vertex_blocks B (map (\<lambda>d. \<lparr>ax_data = d, ax_last = False\<rparr>) ds)) = map (\<lambda>v. v div 2 ^ (B + 4)) (lanes_of ds)"
  by (induction ds) (simp_all add: vertex_blocks_def lanes_of_def block_of_unat)

lemma strict_block_lines: "sorted_wrt (<) bs \<Longrightarrow> sorted_wrt (<) (block_lines B bs)"
proof (induction bs)
  case (Cons b bs)
  have "x < y" if "x < 2 ^ B * b + 2 ^ B" "b' \<in> set bs" "2 ^ B * b' \<le> y" for x y b'
  proof -
    have "b + 1 \<le> b'" using Cons.prems that(2) by auto
    then have "2 ^ B * (b + 1) \<le> 2 ^ B * b'" by (rule mult_le_mono2)
    then show ?thesis using that(1,3) by simp
  qed
  with Cons show ?case by (auto simp: block_lines_def sorted_wrt_append)
qed (simp add: block_lines_def)

lemma block_lines_mem: "v \<in> set vs \<Longrightarrow> v div 16 \<in> set (block_lines B (blocks_of B vs))"
proof -
  assume v: "v \<in> set vs"
  have d: "v div 2 ^ (B + 4) = v div 16 div 2 ^ B"
  proof -
    have "2 ^ (B + 4) = 16 * (2 ^ B :: nat)" by (simp add: power_add)
    then show ?thesis by (simp only: div_mult2_eq)
  qed
  have "2 ^ B * (v div 16 div 2 ^ B) \<le> v div 16" "v div 16 < 2 ^ B * (v div 16 div 2 ^ B) + 2 ^ B"
  proof -
    have "v div 16 mod 2 ^ B < 2 ^ B" by simp
    with mult_div_mod_eq [of "2 ^ B" "v div 16"]
    show "2 ^ B * (v div 16 div 2 ^ B) \<le> v div 16" "v div 16 < 2 ^ B * (v div 16 div 2 ^ B) + 2 ^ B"
      by linarith+
  qed
  then show ?thesis using v by (auto simp: block_lines_def blocks_of_def d intro!: bexI [of _ v])
qed

lemma blocks_bound:
  assumes "\<forall>v \<in> set vs. v < 2 ^ 31" "B < 27"
  shows "\<forall>b \<in> set (blocks_of B vs). b < 2 ^ (27 - B)"
proof -
  have "v div 2 ^ (B + 4) < 2 ^ (27 - B)" if "v < 2 ^ 31" for v :: nat
  proof (rule less_mult_imp_div_less)
    have "2 ^ (27 - B) * 2 ^ (B + 4) = (2 ^ 31 :: nat)" using assms(2) by (simp flip: power_add)
    then show "v < 2 ^ (27 - B) * 2 ^ (B + 4)" using that by simp
  qed
  then show ?thesis using assms(1) by (auto simp: blocks_of_def)
qed

lemma block_lines_bound:
  assumes "\<forall>b \<in> set bs. b < 2 ^ (27 - B)" "B < 27" "l \<in> set (block_lines B bs)"
  shows "l < 2 ^ 27"
proof -
  from assms(3) obtain b where b: "b \<in> set bs" "l < 2 ^ B * b + 2 ^ B" by (auto simp: block_lines_def)
  then have "b + 1 \<le> 2 ^ (27 - B)" using assms(1) by auto
  then have "2 ^ B * (b + 1) \<le> 2 ^ B * 2 ^ (27 - B)" by (rule mult_le_mono2)
  also have "\<dots> = 2 ^ 27" using assms(2) by (simp flip: power_add)
  finally show ?thesis using b(2) by simp
qed

lemma packet_lines_ok:
  assumes "sorted vs" "\<forall>v \<in> set vs. v < 2 ^ 31" "B < 27" "vs \<noteq> []"
    and "no_alias (map fst (packet_lines B input (blocks_of B vs)))"
  shows "lines_ok vs (packet_lines B input (blocks_of B vs))"
proof -
  let ?bs = "blocks_of B vs" and ?ls = "block_lines B (blocks_of B vs)"
  have f: "map fst (packet_lines B input ?bs) = ?ls @ [last ?ls + 1, last ?ls + 2]"
    by (simp add: packet_lines_def o_def)
  have "sorted (map (\<lambda>v. v div 2 ^ (B + 4)) vs)"
    using assms(1) by (induction vs) (auto simp: div_le_mono)
  then have s: "sorted_wrt (<) ?ls" unfolding blocks_of_def by (intro strict_block_lines strict_remdups_adj)
  obtain v where "v \<in> set vs" using assms(4) by (cases vs) auto
  from block_lines_mem [OF this, of B] have ne: "?ls \<noteq> []" by auto
  have top: "\<forall>l \<in> set ?ls. l \<le> last ?ls"
    using s by (cases ?ls rule: rev_cases) (auto simp: sorted_wrt_append)
  have b: "\<forall>l \<in> set ?ls. l < 2 ^ 27"
    using block_lines_bound [OF blocks_bound [OF assms(2,3)] assms(3)] by blast
  have "sorted_wrt (<) (?ls @ [last ?ls + 1, last ?ls + 2])"
    using s top by (auto simp: sorted_wrt_append le_imp_less_Suc less_SucI)
  moreover have "\<forall>l \<in> set (?ls @ [last ?ls + 1, last ?ls + 2]). l < 2 ^ 27 + 2"
  proof -
    have "last ?ls < 2 ^ 27" using b last_in_set [OF ne] by blast
    then show ?thesis using b by auto
  qed
  moreover have "\<forall>v \<in> set vs. v < 2 ^ 31 \<and> v div 16 \<in> set (?ls @ [last ?ls + 1, last ?ls + 2])"
    using assms(2) block_lines_mem by auto
  ultimately show ?thesis using assms(1,5) unfolding lines_ok_def f by (auto simp: packet_lines_def)
qed

lemma line_tokens_of_packet:
  assumes "map ax_data os = map (\<lambda>(l, d). \<lparr>cl_data = d, cl_addr = word_of_nat (16 * l)\<rparr>) L"
    and "map ax_last os = replicate (length os - 1) False @ [True]"
  shows "map (\<lambda>p. \<lparr>frp_data = ax_data p, frp_last = ax_last p\<rparr>) os = line_tokens L"
proof (rule nth_equalityI)
  have l: "length os = length L" using assms(1) by (metis length_map)
  then show "length (map (\<lambda>p. \<lparr>frp_data = ax_data p, frp_last = ax_last p\<rparr>) os) = length (line_tokens L)" by simp
  fix i assume "i < length (map (\<lambda>p. \<lparr>frp_data = ax_data p, frp_last = ax_last p\<rparr>) os)"
  then have i: "i < length os" by simp
  have "map ax_data os ! i = map (\<lambda>(l, d). \<lparr>cl_data = d, cl_addr = word_of_nat (16 * l)\<rparr>) L ! i" by (simp only: assms(1))
  then have "ax_data (os ! i) = \<lparr>cl_data = snd (L ! i), cl_addr = word_of_nat (16 * fst (L ! i))\<rparr>"
    using i l by (simp add: case_prod_beta)
  moreover have "map ax_last os ! i = (replicate (length os - 1) False @ [True]) ! i" by (simp only: assms(2))
  then have "ax_last (os ! i) = (Suc i = length L)"
    using i l by (auto simp: nth_append split: if_splits)
  ultimately show "map (\<lambda>p. \<lparr>frp_data = ax_data p, frp_last = ax_last p\<rparr>) os ! i = line_tokens L ! i"
    using i l by (simp add: line_tokens_def)
qed

lemma packet_line_lookup:
  assumes "v \<in> set vs" "sorted_wrt (<) (map fst (packet_lines B input (blocks_of B vs)))"
  shows "line_lookup (packet_lines B input (blocks_of B vs)) v = lane (v mod 16) (input (v div 16))"
proof -
  let ?L = "packet_lines B input (blocks_of B vs)"
  have "distinct (map fst ?L)" using assms(2) by (simp add: strict_sorted_iff)
  moreover have "(v div 16, input (v div 16)) \<in> set ?L"
    using block_lines_mem [OF assms(1), of B] by (simp add: packet_lines_def)
  ultimately have "map_of ?L (v div 16) = Some (input (v div 16))" by simp
  then show ?thesis by (simp add: line_lookup_def)
qed

lemma end_block_bound: "B < 27 \<Longrightarrow> 2 ^ (27 - B) \<le> unat (end_block B)"
proof -
  assume B: "B < 27"
  have "2 ^ (27 - B) * 2 ^ (B + 4) = (2 ^ 31 :: nat)" using B by (simp flip: power_add)
  then have "2 ^ (27 - B) \<le> unat (0xFFFFFFFF :: u32) div 2 ^ (B + 4)"
    by (subst less_eq_div_iff_mult_less_eq) simp_all
  then show ?thesis
    by (simp only: end_block_def LOG2_SIZE_BY_INT_def unat_drop_bit_eq) (simp only: drop_bit_eq_div)
qed

text \<open>The commands of a packet: its blocks in order, and the command that ends it.\<close>

lemma packet_commands:
  assumes "\<forall>v \<in> set (lanes_of ds). v < 2 ^ 31" "B < 27" "\<And>l. l < 16 \<Longrightarrow> lane l e = 0xFFFFFFFF"
  shows "map ax_data (coalesce B ini u fresh (packet_beats ds e)) =
    map (\<lambda>b. \<lparr>cc_idx = word_of_nat b, cc_size = 1\<rparr>) (blocks_of B (lanes_of ds)) @ [\<lparr>cc_idx = end_block B, cc_size = 1\<rparr>]"
proof -
  let ?beats = "map (\<lambda>d. \<lparr>ax_data = d, ax_last = False\<rparr>) ds"
  let ?ws = "vertex_blocks B ?beats"
  have "map (\<lambda>i. block_of B (lane i e)) [0..<16] = map (\<lambda>i. end_block B) [0..<16]"
    by (rule map_cong) (simp_all add: assms(3) block_of_def end_block_def)
  then have v: "vertex_blocks B (packet_beats ds e) = ?ws @ replicate 16 (end_block B)"
    by (simp add: vertex_blocks_def packet_beats_def map_replicate_const)
  have m: "map unat (remdups_adj ?ws) = blocks_of B (lanes_of ds)"
    unfolding blocks_of_def map_unat_vertex_blocks [symmetric]
    by (rule remdups_adj_map_injective [symmetric]) (auto intro!: injI simp: word_unat_eq_iff)
  have "remdups_adj ?ws = map word_of_nat (map unat (remdups_adj ?ws))" by (simp add: o_def)
  then have w: "remdups_adj ?ws = map word_of_nat (blocks_of B (lanes_of ds))" unfolding m .
  have "end_block B \<notin> set ?ws"
  proof
    assume "end_block B \<in> set ?ws"
    then have "unat (end_block B) \<in> set (blocks_of B (lanes_of ds))" unfolding m [symmetric] by simp
    then show False using blocks_bound [OF assms(1,2)] end_block_bound [OF assms(2)] by fastforce
  qed
  then have "remdups_adj (?ws @ replicate 16 (end_block B)) = remdups_adj ?ws @ [end_block B]"
  proof (cases "?ws = []")
    case False
    then have "last ?ws \<noteq> end_block B" using last_in_set [OF False] \<open>end_block B \<notin> set ?ws\<close> by metis
    then show ?thesis by (subst remdups_adj_append') (simp_all add: remdups_adj_replicate)
  qed (simp add: remdups_adj_replicate)
  then show ?thesis unfolding coalesce_commands v by (simp add: w)
qed

text \<open>
  A packet of sorted vertices, followed by the beat of \<open>0xFFFFFFFF\<close>, comes back as the
  packet of their properties, lane by lane.
\<close>

lemma source_cache_packet:
  assumes "ds \<noteq> []" "sorted (lanes_of ds)" "\<forall>v \<in> set (lanes_of ds). v < 2 ^ 31" "B < 27"
    and "\<And>l. l < 16 \<Longrightarrow> lane l e = 0xFFFFFFFF"
    and "no_alias (map fst (packet_lines B input (blocks_of B (lanes_of ds))))"
    and "\<And>i. i < 8 \<Longrightarrow> \<exists>p t v q. st i = pe_start p t v q"
  shows "source_cache B ini u fresh st input (packet_beats ds e) =
    (map (\<lambda>k. \<lparr>ax_data = burst_of (\<lambda>l. lane (unat (lane l (ds ! k)) mod 16) (input (unat (lane l (ds ! k)) div 16))),
       ax_last = (Suc k = length ds)\<rparr>) [0..<length ds], Returned)"
proof -
  let ?bs = "blocks_of B (lanes_of ds)" and ?L = "packet_lines B input (blocks_of B (lanes_of ds))"
  have ne: "lanes_of ds \<noteq> []" using assms(1) by (cases ds) (simp_all add: lanes_of_def)
  have ok: "lines_ok (lanes_of ds) ?L" by (rule packet_lines_ok [OF assms(2,3,4) ne assms(6)])
  let ?cmds = "coalesce B ini u fresh (packet_beats ds e)"
  have c: "map ax_data ?cmds = map (\<lambda>b. \<lparr>cc_idx = word_of_nat b, cc_size = 1\<rparr>) ?bs @ [\<lparr>cc_idx = end_block B, cc_size = 1\<rparr>]"
    by (rule packet_commands [OF assms(3,4,5)])
  then obtain cs k where cs: "?cmds = cs @ [k]" "map ax_data cs = map (\<lambda>b. \<lparr>cc_idx = word_of_nat b, cc_size = 1\<rparr>) ?bs"
    "cc_idx (ax_data k) = end_block B"
    by (cases ?cmds rule: rev_cases) auto
  from src_cache_read_engine_packet [OF blocks_bound [OF assms(3,4)] assms(4) cs(2,3), of input "[]"]
  obtain os where os: "src_cache_read_engine B input (map Some ?cmds) = (os, [], Returned)"
    "map ax_data os = lines_of input (block_lines B ?bs) @ tail_lines B ?bs"
    "map ax_last os = replicate (length os - 1) False @ [True]"
    unfolding cs(1) by auto
  obtain v where "v \<in> set (lanes_of ds)" using ne by (cases "lanes_of ds") auto
  from block_lines_mem [OF this, of B] have "?bs \<noteq> []" by (auto simp: block_lines_def)
  then have "map ax_data os = map (\<lambda>(l, d). \<lparr>cl_data = d, cl_addr = word_of_nat (16 * l)\<rparr>) ?L"
    unfolding os(2) by (simp add: lines_of_def tail_lines_def packet_lines_def Let_def)
  from line_tokens_of_packet [OF this os(3)] have t: "map (\<lambda>p. \<lparr>frp_data = ax_data p, frp_last = ax_last p\<rparr>) os = line_tokens ?L" .
  have fork: "port 1 (fst (snd (test_duplicate_512 (map Some (packet_beats ds e))))) = packet_beats ds e"
    "port 2 (fst (snd (test_duplicate_512 (map Some (packet_beats ds e))))) = packet_beats ds e"
    using test_duplicate_512_ports [of "map Some (packet_beats ds e)"] by simp_all
  have "source_cache B ini u fresh st input (packet_beats ds e) = src_cache_access st (packet_beats ds e) os"
    unfolding source_cache_def Let_def fork os(1) fst_conv ..
  also have "\<dots> = (map (\<lambda>k. \<lparr>ax_data = burst_of (\<lambda>l. line_lookup ?L (unat (lane l (ds ! k)))), ax_last = (Suc k = length ds)\<rparr>)
      [0..<length ds], Returned)"
    by (rule src_cache_access_packet [OF ok assms(1,7) t])
  also have "\<dots> = (map (\<lambda>k. \<lparr>ax_data = burst_of (\<lambda>l. lane (unat (lane l (ds ! k)) mod 16) (input (unat (lane l (ds ! k)) div 16))),
       ax_last = (Suc k = length ds)\<rparr>) [0..<length ds], Returned)"
  proof -
    have "unat (lane l (ds ! k)) \<in> set (lanes_of ds)" if "k < length ds" "l < 16" for k l
      using lanes_of_nth [OF that] that length_lanes_of [of ds] nth_mem [of "16 * k + l" "lanes_of ds"] by simp
    moreover have "sorted_wrt (<) (map fst ?L)" using ok by (simp add: lines_ok_def)
    ultimately show ?thesis by (auto simp: burst_of_eq_iff packet_line_lookup)
  qed
  finally show ?thesis .
qed

end
