(* ===== verification/Cached_Node.thy ===== *)
theory Cached_Node
  imports Node Cache_Access
begin

text \<open>
  A channel with its source cache: the kernel's own stream \<open>srcOut\<close> asks the cache, and the
  answers of the cache are the stream \<open>propIn\<close> of the kernel
  (\<open>app/clementi/kernel.cfg\<close>: \<open>gs_1.srcOut\<close>, the fork, \<open>coalesce_1\<close>,
  \<open>src_cache_read_engine_1\<close>, \<open>src_cache_access_1.out\<close> to \<open>gs_1.propIn\<close>).  This
  discharges \<open>cache_answers\<close>.
\<close>

text \<open>What a cache starts from: the registers that keep their content between packets.\<close>

record cache_state =
  cs_merge :: "nat \<Rightarrow> merge_state"
  cs_filter :: u32
  cs_cmd :: "cache_command axis"
  cs_pe :: "nat \<Rightarrow> uram \<times> (nat \<Rightarrow> u64) \<times> u32 \<times> u32"

definition cs_start :: "cache_state \<Rightarrow> nat \<Rightarrow> pe_state" where
  "cs_start cs i = (case cs_pe cs i of (p, t, v, q) \<Rightarrow> pe_start p t v q)"

text \<open>
  The stream \<open>srcOut\<close> depends on the edges alone, so the loop through the cache is a
  composition.
\<close>

definition channel_src :: "burst \<times> burst \<Rightarrow> vedge list \<Rightarrow> sv_pkg list" where
  "channel_src tok0 f = fst (src_stream_out (fst (burstRead tok0 (edge_end_arg (file_words f))
     (buffer_mem (chunkEdgeData (file_words f))))))"

definition channel_props :: "nat \<Rightarrow> cache_state \<Rightarrow> mem \<Rightarrow> burst \<times> burst \<Rightarrow> vedge list \<Rightarrow> sv_pkg list" where
  "channel_props B cs vertexProp tok0 f =
     fst (source_cache B (cs_merge cs) (cs_filter cs) (cs_cmd cs) (cs_start cs) vertexProp (channel_src tok0 f))"

lemma gs_src_channel:
  "gs_src (gs a N tok0 out0 bufs (buffer_mem (chunkEdgeData (file_words f))) (edge_end_arg (file_words f)) propIn) =
     channel_src tok0 f"
  by (simp add: gs_def channel_src_def Let_def)

text \<open>The property of a vertex in the buffer that the read engine is started with.\<close>

definition prop_of :: "mem \<Rightarrow> nat \<Rightarrow> u32" where
  "prop_of vertexProp v = lane (v mod 16) (vertexProp (v div 16))"

section \<open>The requests of a file\<close>

text \<open>The sources of the edges of a file, padding included.\<close>

definition file_sources :: "vedge list \<Rightarrow> nat list" where
  "file_sources f = map (\<lambda>e. nat (fst e)) (tl f)"

lemma lanes_of_groups:
  assumes "length all = 16 * m" "\<And>k. k < 16 * m \<Longrightarrow> unat (g k) = all ! k"
  shows "lanes_of (map (group_of g) [0..<m]) = all"
proof (rule nth_equalityI)
  show "length (lanes_of (map (group_of g) [0..<m])) = length all" by (simp add: length_lanes_of assms(1))
  fix e assume "e < length (lanes_of (map (group_of g) [0..<m]))"
  then have e: "e < 16 * m" by (simp add: length_lanes_of)
  then have d: "e div 16 < m" by (simp add: less_mult_imp_div_less mult.commute)
  have q: "e = 16 * (e div 16) + e mod 16" by simp
  have "lanes_of (map (group_of g) [0..<m]) ! (16 * (e div 16) + e mod 16) = unat (lane (e mod 16) (map (group_of g) [0..<m] ! (e div 16)))"
    by (rule lanes_of_nth) (use d in simp_all)
  also have "\<dots> = unat (g e)" using d by (simp add: lane_group_of)
  finally show "lanes_of (map (group_of g) [0..<m]) ! e = all ! e" using assms(2) [OF e] by simp
qed

lemma channel_src_packet:
  assumes "f = (int (16 * m), int (16 * m)) # all" "length all = 16 * m" "0 < m" "16 * m < 2 ^ 27"
  shows "channel_src tok0 f = packet_beats (map (group_of (edge_src (buffer_mem (file_words all)))) [0..<m])
    (burst_of (\<lambda>i. 0xFFFFFFFF))"
proof -
  have "length all < 2 ^ 31" using assms(2,4) by simp
  note ld = file_loads [OF this, unfolded assms(2), folded assms(1)]
  have e: "edge_end_arg (file_words f) = word_of_nat (32 * m)" by (simp add: edge_end_arg_def ld(1))
  have "32 * m < 2 ^ 32" using assms(4) by simp
  from burstRead_edges [OF assms(3) this, of tok0 "buffer_mem (file_words all)"] obtain s d where
    "fst (burstRead tok0 (word_of_nat (32 * m)) (buffer_mem (file_words all))) =
      map (\<lambda>k. \<lparr>bt_data = group_of (edge_src (buffer_mem (file_words all))) k, bt_flag = False\<rparr>) [0..<m] @ [\<lparr>bt_data = s, bt_flag = True\<rparr>]"
    by auto
  then show ?thesis
    unfolding channel_src_def e ld(2)
    by (simp only:) (simp add: src_stream_out_packet packet_beats_def o_def)
qed

text \<open>
  The cache answers every edge of a sorted file with the property of its source.
\<close>

lemma channel_props_answers:
  assumes f: "f = (int (16 * m), int (16 * m)) # all" "length all = 16 * m" "0 < m" "16 * m < 2 ^ 27"
    and src: "\<forall>e \<in> set all. 0 \<le> fst e \<and> fst e < 2 ^ 31" "sorted (map fst all)"
    and B: "B < 27" "no_alias (map fst (packet_lines B vertexProp (blocks_of B (file_sources f))))"
  shows "length (channel_props B cs vertexProp tok0 f) = m"
    and "k < 16 * m \<Longrightarrow> edge_prop_in (channel_props B cs vertexProp tok0 f) k = prop_of vertexProp (nat (fst (all ! k)))"
proof -
  let ?g = "edge_src (buffer_mem (file_words all))"
  let ?ds = "map (group_of ?g) [0..<m]"
  have g: "unat (?g k) = nat (fst (all ! k))" if "k < 16 * m" for k
  proof -
    have "0 \<le> fst (all ! k)" "fst (all ! k) < 2 ^ 31" using src(1) that f(2) by auto
    then have "take_bit 32 (fst (all ! k)) = fst (all ! k)" by (simp add: take_bit_int_eq_self)
    then show ?thesis using buffer_mem_edges(1) [of k all] that f(2) by (simp add: unsigned_of_int)
  qed
  have l: "lanes_of ?ds = file_sources f"
    by (rule lanes_of_groups) (use f g in \<open>simp_all add: file_sources_def\<close>)
  have "sorted (file_sources f)"
  proof -
    have "file_sources f = map nat (map fst all)" by (simp add: file_sources_def f(1))
    moreover have "sorted (map nat xs)" if "sorted xs" for xs :: "int list"
      using that by (induction xs) (auto simp: nat_mono)
    ultimately show ?thesis using src(2) by (simp only:)
  qed
  moreover have "\<forall>v \<in> set (file_sources f). v < 2 ^ 31" using src(1) by (auto simp: file_sources_def f(1))
  ultimately have sc: "source_cache B (cs_merge cs) (cs_filter cs) (cs_cmd cs) (cs_start cs) vertexProp
      (packet_beats ?ds (burst_of (\<lambda>i. 0xFFFFFFFF))) =
    (map (\<lambda>k. \<lparr>ax_data = burst_of (\<lambda>l. lane (unat (lane l (?ds ! k)) mod 16) (vertexProp (unat (lane l (?ds ! k)) div 16))),
       ax_last = (Suc k = length ?ds)\<rparr>) [0..<length ?ds], Returned)"
    using f(3) B by (intro source_cache_packet) (auto simp: l lane_burst_of cs_start_def split: prod.splits)
  have cp: "channel_props B cs vertexProp tok0 f = map (\<lambda>k. \<lparr>ax_data = burst_of (\<lambda>l. lane (unat (lane l (?ds ! k)) mod 16)
      (vertexProp (unat (lane l (?ds ! k)) div 16))), ax_last = (Suc k = length ?ds)\<rparr>) [0..<length ?ds]"
    unfolding channel_props_def channel_src_packet [OF f] sc by simp
  then show "length (channel_props B cs vertexProp tok0 f) = m" by simp
  assume k: "k < 16 * m"
  then have d: "k div 16 < m" by (simp add: less_mult_imp_div_less mult.commute)
  then have "edge_prop_in (channel_props B cs vertexProp tok0 f) k = prop_of vertexProp (unat (?g (16 * (k div 16) + k mod 16)))"
    by (simp add: cp edge_prop_in_def lane_burst_of lane_group_of prop_of_def)
  then show "edge_prop_in (channel_props B cs vertexProp tok0 f) k = prop_of vertexProp (nat (fst (all ! k)))"
    using g [OF k] by simp
qed

section \<open>A partition with its four caches\<close>

text \<open>
  The lines that the cache of a file reads.  A file is safe for the cache when no line takes
  the place of one that is still needed; this is so when the lines have no gaps or fit into
  the memory together.
\<close>

definition cache_line_numbers :: "nat \<Rightarrow> vedge list \<Rightarrow> nat list" where
  "cache_line_numbers B f = (let ls = block_lines B (blocks_of B (file_sources f)) in ls @ [last ls + 1, last ls + 2])"

definition cache_safe :: "nat \<Rightarrow> vedge list \<Rightarrow> bool" where
  "cache_safe B f \<longleftrightarrow> no_alias (cache_line_numbers B f)"

lemma cache_safe_lines: "cache_safe B f \<Longrightarrow> no_alias (map fst (packet_lines B input (blocks_of B (file_sources f))))"
  by (simp add: cache_safe_def cache_line_numbers_def packet_lines_def Let_def o_def)

text \<open>
  \<open>propBuf sp\<close> is the property buffer of kernel \<open>sp\<close>; the apply kernel uses that of kernel 3.
\<close>

definition node_cached :: "app \<Rightarrow> nat \<Rightarrow> nat \<Rightarrow> burst_dest \<Rightarrow> (nat \<Rightarrow> cache_state) \<Rightarrow> (nat \<Rightarrow> burst \<times> burst) \<Rightarrow>
  (nat \<Rightarrow> nat \<Rightarrow> nat \<Rightarrow> u64) \<Rightarrow> (nat \<Rightarrow> nat \<Rightarrow> u32) \<Rightarrow> vedge list list \<Rightarrow> (nat \<Rightarrow> mem) \<Rightarrow> mem option \<Rightarrow> mem \<Rightarrow>
  u32 \<Rightarrow> u32 \<Rightarrow> u32 \<Rightarrow> mem \<times> u32 option" where
  "node_cached a N B u cs tok0 bufs junk fs propBuf outDegree propTemp offset vertexNum arg =
     node_partition a N u tok0 bufs junk fs (\<lambda>j. channel_props B (cs j) (propBuf j) (tok0 j) (fs ! j))
       (propBuf 3) outDegree propTemp offset vertexNum arg"

context partitioner
begin

lemma save_edges_cached:
  assumes "length (concat bs) + 32 < 2 ^ 27" "\<forall>e \<in> set (concat bs). 0 \<le> fst e \<and> fst e < 2 ^ 31"
    and "B < 27" "cache_safe B (save_edges edgeSort bs)"
  shows "int (16 * length (channel_props B cs vertexProp tok0 (save_edges edgeSort bs))) =
      edgeNumChunk (file_words (save_edges edgeSort bs))"
    and "cache_answers (prop_of vertexProp) (edgeSort (concat bs)) (channel_props B cs vertexProp tok0 (save_edges edgeSort bs))"
proof -
  let ?f = "save_edges edgeSort bs" and ?es = "edgeSort (concat bs)"
  have "length (concat bs) + 32 < 2 ^ 31" using assms(1) by simp
  from save_edges_parts [of edgeSort bs, OF edges.srt_mset this] obtain k m x where
    f: "?f = (int (16 * m), int (16 * m)) # ?es @ replicate k (x, padding_dst)" "length ?es + k = 16 * m" "17 \<le> k" "k \<le> 32"
    by metis
  have x: "x = (if ?es = [] then 0 else fst (last ?es))"
  proof -
    have "last ?f = (x, padding_dst)" using f(1,3) by simp
    moreover have "last ?f = (if ?es = [] then 0 else fst (last ?es), padding_dst)"
      by (simp add: save_edges_def Let_def)
    ultimately show ?thesis by simp
  qed
  let ?all = "?es @ replicate k (x, padding_dst)"
  have small: "16 * m < 2 ^ 27" "0 < m" using f(2-4) assms(1) by (simp_all add: edges.srt_length)
  have len: "length ?all = 16 * m" using f(2) by simp
  have es: "\<forall>e \<in> set ?es. 0 \<le> fst e \<and> fst e < 2 ^ 31" using assms(2) by (simp add: edges.srt_set)
  then have all: "\<forall>e \<in> set ?all. 0 \<le> fst e \<and> fst e < 2 ^ 31" using x last_in_set [of ?es] by (auto split: if_splits)
  have "sorted (map fst ?all)"
  proof (cases "?es = []")
    case False
    have "fst e \<le> x" if "e \<in> set ?es" for e
    proof -
      from that obtain ys zs where "?es = ys @ e # zs" by (meson split_list)
      then show ?thesis
        using edges.srt_sorted [of "concat bs"] x by (cases zs rule: rev_cases) (auto simp: sorted_append)
    qed
    then show ?thesis using edges.srt_sorted [of "concat bs"] by (auto simp: sorted_append)
  qed simp
  note answers = channel_props_answers [OF f(1) len small(2,1) all this assms(3) cache_safe_lines [OF assms(4)]]
  show "int (16 * length (channel_props B cs vertexProp tok0 ?f)) = edgeNumChunk (file_words ?f)"
    unfolding answers(1) unfolding f(1) by (rule file_loads(1) [of ?all, unfolded len, symmetric]) (use small in simp)
  show "cache_answers (prop_of vertexProp) ?es (channel_props B cs vertexProp tok0 ?f)"
    unfolding cache_answers_def
  proof (intro allI impI)
    fix i assume "i < length ?es"
    then show "edge_prop_in (channel_props B cs vertexProp tok0 ?f) i = prop_of vertexProp (nat (fst (?es ! i)))"
      using answers(2) [of i] f(2) by (simp add: nth_append)
  qed
qed

text \<open>The caches answer the edges of the four files of an interval.\<close>

lemma interval_cached:
  assumes files: "partition_interval edgeSort splits blockSort batchSort flt es = Some fs"
    and es: "length es + 32 < 2 ^ 27" "\<forall>e \<in> set es. 0 \<le> fst e \<and> fst e < 2 ^ 31" "\<forall>e \<in> set es. 0 \<le> snd e"
    and cache: "B < 27" "\<forall>f \<in> set fs. cache_safe B f" "\<forall>j<4. propBuf j = vertexProp"
  shows "\<forall>j<4. int (16 * length (channel_props B (cs j) (propBuf j) (tok0 j) (fs ! j))) = edgeNumChunk (file_words (fs ! j)) \<and>
      cache_answers (prop_of vertexProp) (file_edges (fs ! j)) (channel_props B (cs j) (propBuf j) (tok0 j) (fs ! j))"
proof (intro allI impI)
  from interval_parts [OF files es(3)] obtain ls where ls: "length ls = 4" "fs = map (save_edges edgeSort) ls"
    and parts: "\<And>j. j < 4 \<Longrightarrow> set (concat (ls ! j)) \<subseteq> set es \<and> length (concat (ls ! j)) \<le> length es \<and>
      file_edges (fs ! j) = edgeSort (concat (ls ! j))"
    by metis
  fix j :: nat assume j: "j < 4"
  have f: "fs ! j = save_edges edgeSort (ls ! j)" using j ls by simp
  have pb: "propBuf j = vertexProp" using cache(3) j by blast
  have 1: "length (concat (ls ! j)) + 32 < 2 ^ 27" using parts [OF j] es(1) by linarith
  have 2: "\<forall>e \<in> set (concat (ls ! j)). 0 \<le> fst e \<and> fst e < 2 ^ 31" using parts [OF j] es(2) by blast
  have 3: "cache_safe B (save_edges edgeSort (ls ! j))" using cache(2) j ls by (metis f length_map nth_mem)
  have e: "file_edges (fs ! j) = edgeSort (concat (ls ! j))" using parts [OF j] by blast
  show "int (16 * length (channel_props B (cs j) (propBuf j) (tok0 j) (fs ! j))) = edgeNumChunk (file_words (fs ! j)) \<and>
      cache_answers (prop_of vertexProp) (file_edges (fs ! j)) (channel_props B (cs j) (propBuf j) (tok0 j) (fs ! j))"
    unfolding e pb unfolding f using save_edges_cached [OF 1 2 cache(1) 3] by blast
qed

lemma node_cached_computes:
  assumes files: "partition_interval edgeSort splits blockSort batchSort flt es = Some fs"
    and es: "length es + 32 < 2 ^ 27" "\<forall>e \<in> set es. 0 \<le> fst e \<and> fst e < 2 ^ 31" "\<forall>e \<in> set es. 0 \<le> snd e \<and> snd e < 2 ^ 31"
    and N: "N = 2 ^ n" "10 \<le> n" "n < 32" "off + N div 16 + 64 < 2 ^ 28"
    and bufs: "\<forall>j<4. \<forall>i<16. \<forall>t < N div 32. bufs j i t = 0"
    and cache: "B < 27" "\<forall>f \<in> set fs. cache_safe B f" "\<forall>j<4. propBuf j = vertexProp"
    and alg: "gather_algebra (gatherFunc a) ok" "\<forall>v. \<forall>x \<in> set (edge_updates a N (prop_of vertexProp) es v). ok x"
  shows "fst (node_cached a N B u cs tok0 bufs junk fs propBuf outDegree propTemp
      (word_of_nat (16 * off)) (word_of_nat N) arg) =
    (\<lambda>t. if off \<le> t \<and> t < off + N div 16
         then partition_words a N (prop_of vertexProp) es vertexProp outDegree junk arg off (t - off) else propTemp t)"
proof -
  have dst: "\<forall>e \<in> set es. 0 \<le> snd e" using es(3) by blast
  have pb3: "propBuf 3 = vertexProp" using cache(3) by simp
  note answers = interval_cached [OF files es(1,2) dst cache, of cs tok0]
  from node_partition_computes [OF files es(1,3) N bufs answers alg, of u tok0 junk "\<lambda>_. []" "propBuf 3" outDegree propTemp arg]
  show ?thesis
    unfolding node_cached_def append_Nil2 pb3 .
qed

end

end
