(* ===== verification/Net_Aggregate.thy ===== *)
theory Net_Aggregate
  imports Edge_Reader
begin

text \<open>
  The exchange of vertex properties between the nodes (\<open>readProp\<close>, \<open>writeProp\<close> and
  \<open>globalTrans\<close> of \<open>src/clementi\<close>, and their copies in \<open>src/global_apply\<close>).  A packet is
  a header beat (node and index of the first word) and up to 21 data beats, the final one
  marked \<open>last\<close>.  \<open>readProp\<close> cuts a slice of memory into packets, \<open>globalTrans\<close> passes
  packets around a ring of nodes, \<open>writeProp\<close> stores packets.
\<close>

section \<open>Cutting memory into packets: \<open>readProp\<close>\<close>

text \<open>
  The \<open>int\<close> counters stay below \<open>2 ^ 30\<close> and are natural numbers.  \<open>out_raw\<close> lives across
  iterations: a header replaces the two low lanes of the word sent before.
\<close>

record rp_state =
  rp_data :: burst
  rp_address :: nat
  rp_frameId :: nat

definition loop_num :: "u32 \<Rightarrow> nat" where
  "loop_num vertexNum = unat (drop_bit 4 (vertexNum - 1)) + 1"

definition packet_num :: "nat \<Rightarrow> nat" where
  "packet_num n = (n + 21 - 1) div 21"

definition readProp_step :: "mem \<Rightarrow> u32 \<Rightarrow> u32 \<Rightarrow> nat \<Rightarrow> nat \<Rightarrow> nat \<Rightarrow> rp_state \<Rightarrow> rp_state \<times> burst_dest" where
  "readProp_step vertexPropMem node_id dest_id start_idx tot i st =
     (let first = (rp_frameId st = 0);
          d = (if first
               then set_lane 1 (word_of_nat (start_idx + rp_address st)) (set_lane 0 node_id (rp_data st))
               else vertexPropMem (start_idx + rp_address st));
          address = (if first then rp_address st else rp_address st + 1);
          lst = (rp_frameId st = 21 \<or> i + 1 = tot)
      in (\<lparr>rp_data = d, rp_address = address, rp_frameId = (if lst then 0 else rp_frameId st + 1)\<rparr>,
          \<lparr>bd_data = d, bd_keep = - 1, bd_last = lst, bd_dest = ucast dest_id\<rparr>))"

fun readProp_loop :: "mem \<Rightarrow> u32 \<Rightarrow> u32 \<Rightarrow> nat \<Rightarrow> nat \<Rightarrow> nat list \<Rightarrow> rp_state \<Rightarrow> rp_state \<times> burst_dest list" where
  "readProp_loop vertexPropMem node_id dest_id start_idx tot [] st = (st, [])"
| "readProp_loop vertexPropMem node_id dest_id start_idx tot (i # is) st =
     (case readProp_step vertexPropMem node_id dest_id start_idx tot i st of (st', b) \<Rightarrow>
        (case readProp_loop vertexPropMem node_id dest_id start_idx tot is st' of (st'', bs) \<Rightarrow> (st'', b # bs)))"

definition readProp :: "burst \<Rightarrow> mem \<Rightarrow> u32 \<Rightarrow> u32 \<Rightarrow> u32 \<Rightarrow> u32 \<Rightarrow> burst_dest list" where
  "readProp uninit vertexPropMem node_id dest_id vertexOffset vertexNum =
     (let n = loop_num vertexNum;
          tot = n + packet_num n
      in snd (readProp_loop vertexPropMem node_id dest_id (unat (drop_bit 4 vertexOffset)) tot [0..<tot]
           \<lparr>rp_data = uninit, rp_address = 0, rp_frameId = 0\<rparr>))"

text \<open>The copies of \<open>src/global_apply\<close>.\<close>

definition ga_readProp :: "burst \<Rightarrow> mem \<Rightarrow> u32 \<Rightarrow> u32 \<Rightarrow> u32 \<Rightarrow> u32 \<Rightarrow> burst_dest list" where
  "ga_readProp uninit vertexPropMem node_id dest_id vertexOffset vertexNum =
     readProp uninit vertexPropMem node_id dest_id vertexOffset vertexNum"

text \<open>A packet: header word \<open>h\<close>, then the words \<open>ws\<close>.\<close>

definition packet :: "u16 \<Rightarrow> burst \<Rightarrow> burst list \<Rightarrow> burst_dest list" where
  "packet d h ws =
     \<lparr>bd_data = h, bd_keep = - 1, bd_last = False, bd_dest = d\<rparr> #
     map (\<lambda>j. \<lparr>bd_data = ws ! j, bd_keep = - 1, bd_last = (j + 1 = length ws), bd_dest = d\<rparr>) [0..<length ws]"

text \<open>Header and words of packet \<open>p\<close> of a slice of \<open>n\<close> words from \<open>start_idx\<close>.\<close>

definition header_word :: "burst \<Rightarrow> mem \<Rightarrow> u32 \<Rightarrow> nat \<Rightarrow> nat \<Rightarrow> burst" where
  "header_word uninit m node_id start_idx p =
     set_lane 1 (word_of_nat (start_idx + 21 * p))
       (set_lane 0 node_id (if p = 0 then uninit else m (start_idx + 21 * p - 1)))"

definition slice_words :: "mem \<Rightarrow> nat \<Rightarrow> nat \<Rightarrow> nat \<Rightarrow> burst list" where
  "slice_words m start_idx n p = map (\<lambda>j. m (start_idx + 21 * p + j)) [0..<min 21 (n - 21 * p)]"

lemma readProp_loop_append:
  "readProp_loop m nd ds s t (is @ js) st =
     (case readProp_loop m nd ds s t is st of (st', bs) \<Rightarrow>
        (case readProp_loop m nd ds s t js st' of (st'', bs') \<Rightarrow> (st'', bs @ bs')))"
  by (induction m nd ds s t "is" st rule: readProp_loop.induct) (auto split: prod.splits)

text \<open>The data beats of a packet.\<close>

lemma readProp_loop_data:
  assumes "1 \<le> f" "f + k = 22 \<or> (f + k \<le> 22 \<and> i + k = tot)" "0 < k" "i + k \<le> tot"
  shows "readProp_loop m nd ds s tot [i..<i + k] \<lparr>rp_data = d, rp_address = a, rp_frameId = f\<rparr> =
    (\<lparr>rp_data = m (s + a + (k - 1)), rp_address = a + k, rp_frameId = 0\<rparr>,
     map (\<lambda>j. \<lparr>bd_data = m (s + a + j), bd_keep = - 1, bd_last = (j + 1 = k), bd_dest = ucast ds\<rparr>) [0..<k])"
  using assms
proof (induction k arbitrary: f i d a)
  case 0
  then show ?case by simp
next
  case (Suc k)
  have u: "[i..<i + Suc k] = i # [Suc i..<Suc i + k]" by (simp add: upt_conv_Cons del: upt_Suc)
  show ?case
  proof (cases "k = 0")
    case True
    with Suc.prems show ?thesis by (auto simp: readProp_step_def Let_def)
  next
    case False
    have "readProp_loop m nd ds s tot [Suc i..<Suc i + k]
        \<lparr>rp_data = m (s + a), rp_address = a + 1, rp_frameId = f + 1\<rparr> =
      (\<lparr>rp_data = m (s + (a + 1) + (k - 1)), rp_address = a + 1 + k, rp_frameId = 0\<rparr>,
       map (\<lambda>j. \<lparr>bd_data = m (s + (a + 1) + j), bd_keep = - 1, bd_last = (j + 1 = k), bd_dest = ucast ds\<rparr>) [0..<k])"
      using Suc.prems False by (intro Suc.IH) auto
    moreover have "readProp_step m nd ds s tot i \<lparr>rp_data = d, rp_address = a, rp_frameId = f\<rparr> =
      (\<lparr>rp_data = m (s + a), rp_address = a + 1, rp_frameId = f + 1\<rparr>,
       \<lparr>bd_data = m (s + a), bd_keep = - 1, bd_last = False, bd_dest = ucast ds\<rparr>)"
      using Suc.prems False by (auto simp: readProp_step_def Let_def)
    moreover have "[0..<Suc k] = 0 # map Suc [0..<k]" by (simp add: upt_conv_Cons map_Suc_upt del: upt_Suc)
    ultimately show ?thesis
      unfolding u using False by (simp add: comp_def algebra_simps del: upt_Suc)
  qed
qed

lemma readProp_loop_packet:
  assumes "c = 21 \<or> (c \<le> 21 \<and> i + 1 + c = tot)" "0 < c" "i + 1 + c \<le> tot"
  shows "readProp_loop m nd ds s tot [i..<i + 1 + c] \<lparr>rp_data = d, rp_address = a, rp_frameId = 0\<rparr> =
    (\<lparr>rp_data = m (s + a + (c - 1)), rp_address = a + c, rp_frameId = 0\<rparr>,
     packet (ucast ds) (set_lane 1 (word_of_nat (s + a)) (set_lane 0 nd d)) (map (\<lambda>j. m (s + a + j)) [0..<c]))"
proof -
  have u: "[i..<i + 1 + c] = i # [Suc i..<Suc i + c]" using assms(2) by (simp add: upt_conv_Cons del: upt_Suc)
  have "readProp_step m nd ds s tot i \<lparr>rp_data = d, rp_address = a, rp_frameId = 0\<rparr> =
    (\<lparr>rp_data = set_lane 1 (word_of_nat (s + a)) (set_lane 0 nd d), rp_address = a, rp_frameId = 1\<rparr>,
     \<lparr>bd_data = set_lane 1 (word_of_nat (s + a)) (set_lane 0 nd d), bd_keep = - 1, bd_last = False, bd_dest = ucast ds\<rparr>)"
    using assms by (auto simp: readProp_step_def Let_def)
  moreover have "readProp_loop m nd ds s tot [Suc i..<Suc i + c]
      \<lparr>rp_data = set_lane 1 (word_of_nat (s + a)) (set_lane 0 nd d), rp_address = a, rp_frameId = 1\<rparr> =
    (\<lparr>rp_data = m (s + a + (c - 1)), rp_address = a + c, rp_frameId = 0\<rparr>,
     map (\<lambda>j. \<lparr>bd_data = m (s + a + j), bd_keep = - 1, bd_last = (j + 1 = c), bd_dest = ucast ds\<rparr>) [0..<c])"
    by (rule readProp_loop_data) (use assms in auto)
  ultimately show ?thesis unfolding u by (simp add: packet_def cong: map_cong)
qed

definition slice_packet :: "burst \<Rightarrow> mem \<Rightarrow> u32 \<Rightarrow> u32 \<Rightarrow> nat \<Rightarrow> nat \<Rightarrow> nat \<Rightarrow> burst_dest list" where
  "slice_packet uninit m nd ds s n p = packet (ucast ds) (header_word uninit m nd s p) (slice_words m s n p)"

lemma readProp_loop_full_packets:
  assumes "21 * q \<le> n" "22 * q \<le> tot"
  shows "readProp_loop m nd ds s tot [0..<22 * q] \<lparr>rp_data = u, rp_address = 0, rp_frameId = 0\<rparr> =
    (\<lparr>rp_data = (if q = 0 then u else m (s + 21 * q - 1)), rp_address = 21 * q, rp_frameId = 0\<rparr>,
     concat (map (slice_packet u m nd ds s n) [0..<q]))"
  using assms
proof (induction q)
  case 0
  then show ?case by simp
next
  case (Suc q)
  have sp: "[0..<22 * Suc q] = [0..<22 * q] @ [22 * q..<22 * q + 1 + 21]"
    using upt_add_eq_append [of 0 "22 * q" 22] by (simp add: algebra_simps del: upt_Suc)
  have p: "readProp_loop m nd ds s tot [22 * q..<22 * q + 1 + 21]
      \<lparr>rp_data = (if q = 0 then u else m (s + 21 * q - 1)), rp_address = 21 * q, rp_frameId = 0\<rparr> =
    (\<lparr>rp_data = m (s + 21 * q + (21 - 1)), rp_address = 21 * q + 21, rp_frameId = 0\<rparr>,
     packet (ucast ds) (set_lane 1 (word_of_nat (s + 21 * q)) (set_lane 0 nd (if q = 0 then u else m (s + 21 * q - 1))))
       (map (\<lambda>j. m (s + 21 * q + j)) [0..<21]))"
    by (rule readProp_loop_packet) (use Suc.prems in auto)
  have w: "min 21 (n - 21 * q) = 21" using Suc.prems by simp
  have IH: "readProp_loop m nd ds s tot [0..<22 * q] \<lparr>rp_data = u, rp_address = 0, rp_frameId = 0\<rparr> =
    (\<lparr>rp_data = (if q = 0 then u else m (s + 21 * q - 1)), rp_address = 21 * q, rp_frameId = 0\<rparr>,
     concat (map (slice_packet u m nd ds s n) [0..<q]))"
    using Suc.prems by (intro Suc.IH) auto
  have pk: "packet (ucast ds) (set_lane 1 (word_of_nat (s + 21 * q)) (set_lane 0 nd (if q = 0 then u else m (s + 21 * q - 1))))
       (map (\<lambda>j. m (s + 21 * q + j)) [0..<21]) = slice_packet u m nd ds s n q"
    by (simp only: slice_packet_def header_word_def slice_words_def w)
  have a: "s + 21 * q + (21 - 1) = s + 21 * Suc q - 1" "21 * q + 21 = 21 * Suc q" by simp_all
  show ?case
    unfolding sp readProp_loop_append IH prod.case p pk a by simp
qed

lemma packet_num_div: "packet_num n = n div 21 + (if n mod 21 = 0 then 0 else 1)"
proof -
  have "n + 21 - 1 = 21 * (n div 21) + (n mod 21 + 20)" by simp
  then have "packet_num n = n div 21 + (n mod 21 + 20) div 21"
    unfolding packet_num_def by (metis div_mult_self4 zero_neq_numeral)
  moreover have "(n mod 21 + 20) div 21 = (if n mod 21 = 0 then 0 else 1)"
    using mod_less_divisor [of 21 n] by (auto intro!: div_nat_eqI simp del: mod_less_divisor)
  ultimately show ?thesis by simp
qed

text \<open>\<open>readProp\<close> sends the slice, cut into packets of 21 words.\<close>

lemma readProp_loop_slice:
  assumes "0 < n"
  shows "snd (readProp_loop m nd ds s (n + packet_num n) [0..<n + packet_num n]
      \<lparr>rp_data = u, rp_address = 0, rp_frameId = 0\<rparr>) =
    concat (map (slice_packet u m nd ds s n) [0..<packet_num n])"
proof (cases "n mod 21 = 0")
  case True
  then obtain q where q: "n = 21 * q" by auto
  then have "n + packet_num n = 22 * q" "packet_num n = q" by (simp_all add: packet_num_div)
  then show ?thesis using readProp_loop_full_packets [of q n "22 * q" m nd ds s u] q by simp
next
  case False
  let ?q = "n div 21" and ?r = "n mod 21"
  have r: "?r \<le> 21" using mod_less_divisor [of 21 n] by simp
  have n: "n = 21 * ?q + ?r" by simp
  have k: "packet_num n = ?q + 1" using False by (simp add: packet_num_div)
  have t: "n + packet_num n = 22 * ?q + 1 + ?r" using n k by linarith
  have sp: "[0..<n + packet_num n] = [0..<22 * ?q] @ [22 * ?q..<22 * ?q + 1 + ?r]"
    unfolding t using upt_add_eq_append [of 0 "22 * ?q" "1 + ?r"] by (simp add: algebra_simps del: upt_Suc)
  have p: "readProp_loop m nd ds s (n + packet_num n) [22 * ?q..<22 * ?q + 1 + ?r]
      \<lparr>rp_data = d, rp_address = 21 * ?q, rp_frameId = 0\<rparr> =
    (\<lparr>rp_data = m (s + 21 * ?q + (?r - 1)), rp_address = 21 * ?q + ?r, rp_frameId = 0\<rparr>,
     packet (ucast ds) (set_lane 1 (word_of_nat (s + 21 * ?q)) (set_lane 0 nd d)) (map (\<lambda>j. m (s + 21 * ?q + j)) [0..<?r]))" for d
    by (rule readProp_loop_packet) (use False r t in auto)
  have w: "min 21 (n - 21 * ?q) = ?r" using r n by linarith
  have f: "readProp_loop m nd ds s (n + packet_num n) [0..<22 * ?q] \<lparr>rp_data = u, rp_address = 0, rp_frameId = 0\<rparr> =
    (\<lparr>rp_data = (if ?q = 0 then u else m (s + 21 * ?q - 1)), rp_address = 21 * ?q, rp_frameId = 0\<rparr>,
     concat (map (slice_packet u m nd ds s n) [0..<?q]))"
    by (rule readProp_loop_full_packets) (use n t in linarith)+
  have "snd (readProp_loop m nd ds s (n + packet_num n) [0..<n + packet_num n] \<lparr>rp_data = u, rp_address = 0, rp_frameId = 0\<rparr>) =
      concat (map (slice_packet u m nd ds s n) [0..<?q]) @ slice_packet u m nd ds s n ?q"
    unfolding sp readProp_loop_append f prod.case p
    by (simp add: slice_packet_def header_word_def slice_words_def w)
  then show ?thesis by (simp add: k)
qed

section \<open>Storing packets: \<open>writeProp\<close>\<close>

datatype wp_state = wp_firstFrame | wp_remainFrame

record wp =
  wp_mem :: mem              \<comment> \<open>\<open>vertexPropMem\<close>\<close>
  wp_address :: nat
  wp_offset :: nat
  wp_count :: nat            \<comment> \<open>\<open>process_packet_num\<close>\<close>
  wp_currentState :: wp_state

text \<open>
  One iteration of the loop with the beat it reads, and whether the loop ends after it.
  The address is lane 1 of the header; \<open>int\<close> addresses are not negative.
\<close>

definition writeProp_body :: "nat \<Rightarrow> wp \<Rightarrow> burst_dest \<Rightarrow> wp \<times> unit list \<times> bool" where
  "writeProp_body pn st packet_in =
     (let st' = (case wp_currentState st of
          wp_firstFrame \<Rightarrow>
            st\<lparr>wp_address := unat (lane 1 (bd_data packet_in)), wp_offset := 0, wp_currentState := wp_remainFrame\<rparr>
        | wp_remainFrame \<Rightarrow>
            (let st1 = st\<lparr>wp_mem := (wp_mem st)(wp_address st + wp_offset st := bd_data packet_in),
                          wp_offset := wp_offset st + 1\<rparr>
             in if bd_last packet_in then st1\<lparr>wp_currentState := wp_firstFrame, wp_count := wp_count st + 1\<rparr>
                else st1))
      in (st', [], \<not> wp_count st' < pn))"

definition writeProp :: "mem \<Rightarrow> burst_dest list \<Rightarrow> u32 \<Rightarrow> mem \<times> burst_dest list \<times> status" where
  "writeProp vertexPropMem vertexUpdate pn =
     (case read_loop (writeProp_body (unat pn))
        \<lparr>wp_mem = vertexPropMem, wp_address = 0, wp_offset = 0, wp_count = 0, wp_currentState = wp_firstFrame\<rparr>
        vertexUpdate of (st, _, rest, status) \<Rightarrow> (wp_mem st, rest, status))"

definition ga_writeProp :: "mem \<Rightarrow> burst_dest list \<Rightarrow> u32 \<Rightarrow> mem \<times> burst_dest list \<times> status" where
  "ga_writeProp vertexPropMem vertexUpdate pn = writeProp vertexPropMem vertexUpdate pn"

text \<open>What storing one packet does to memory.\<close>

definition store_words :: "nat \<Rightarrow> burst list \<Rightarrow> mem \<Rightarrow> mem" where
  "store_words a ws m = (\<lambda>t. if a \<le> t \<and> t < a + length ws then ws ! (t - a) else m t)"

lemma writeProp_body_first:
  "writeProp_body pn \<lparr>wp_mem = m, wp_address = a, wp_offset = k, wp_count = c, wp_currentState = wp_firstFrame\<rparr> b =
    (\<lparr>wp_mem = m, wp_address = unat (lane 1 (bd_data b)), wp_offset = 0, wp_count = c, wp_currentState = wp_remainFrame\<rparr>,
     [], \<not> c < pn)"
  by (simp add: writeProp_body_def Let_def)

lemma writeProp_body_remain:
  "writeProp_body pn \<lparr>wp_mem = m, wp_address = a, wp_offset = k, wp_count = c, wp_currentState = wp_remainFrame\<rparr> b =
    (if bd_last b
     then (\<lparr>wp_mem = m(a + k := bd_data b), wp_address = a, wp_offset = k + 1, wp_count = c + 1,
            wp_currentState = wp_firstFrame\<rparr>, [], \<not> c + 1 < pn)
     else (\<lparr>wp_mem = m(a + k := bd_data b), wp_address = a, wp_offset = k + 1, wp_count = c,
            wp_currentState = wp_remainFrame\<rparr>, [], \<not> c < pn))"
  by (simp add: writeProp_body_def Let_def)

lemma writeProp_data_beats:
  assumes "k + length ws = n" "ws \<noteq> []" "cnt < pn"
  shows "read_loop (writeProp_body pn) \<lparr>wp_mem = m, wp_address = a, wp_offset = k, wp_count = cnt, wp_currentState = wp_remainFrame\<rparr>
      (map (\<lambda>j. \<lparr>bd_data = ws ! j, bd_keep = kp, bd_last = (k + j + 1 = n), bd_dest = d\<rparr>) [0..<length ws] @ xs) =
    (let st = \<lparr>wp_mem = store_words (a + k) ws m, wp_address = a, wp_offset = n, wp_count = cnt + 1,
               wp_currentState = wp_firstFrame\<rparr>
     in if cnt + 1 < pn then read_loop (writeProp_body pn) st xs else (st, [], xs, Returned))"
  using assms
proof (induction ws arbitrary: k m)
  case Nil
  then show ?case by simp
next
  case (Cons w ws)
  have u: "[0..<length (w # ws)] = 0 # map Suc [0..<length ws]" by (simp add: upt_conv_Cons map_Suc_upt del: upt_Suc)
  show ?case
  proof (cases "ws = []")
    case True
    have "m(a + k := w) = store_words (a + k) [w] m" by (auto simp: store_words_def fun_eq_iff)
    with True Cons.prems show ?thesis
      by (auto simp: writeProp_body_remain Let_def split: prod.splits simp del: fun_upd_apply)
  next
    case False
    have st: "store_words (Suc (a + k)) ws (m(a + k := w)) = store_words (a + k) (w # ws) m"
      by (auto simp: store_words_def fun_eq_iff nth_Cons')
    have n: "Suc k + length ws = n" "Suc k \<noteq> n" using Cons.prems False by auto
    from Cons.IH [OF n(1) False Cons.prems(3), of "m(a + k := w)"] n show ?thesis
      unfolding u using Cons.prems(3)
      by (simp add: writeProp_body_remain Let_def comp_def st split: prod.splits del: upt_Suc fun_upd_apply)
  qed
qed

lemma writeProp_one_packet:
  assumes "ws \<noteq> []" "cnt < pn" "unat (lane 1 h) = a"
  shows "read_loop (writeProp_body pn) \<lparr>wp_mem = m, wp_address = ad, wp_offset = ofs, wp_count = cnt, wp_currentState = wp_firstFrame\<rparr>
      (packet d h ws @ xs) =
    (let st = \<lparr>wp_mem = store_words a ws m, wp_address = a, wp_offset = length ws, wp_count = cnt + 1,
               wp_currentState = wp_firstFrame\<rparr>
     in if cnt + 1 < pn then read_loop (writeProp_body pn) st xs else (st, [], xs, Returned))"
proof -
  have "read_loop (writeProp_body pn) \<lparr>wp_mem = m, wp_address = a, wp_offset = 0, wp_count = cnt, wp_currentState = wp_remainFrame\<rparr>
      (map (\<lambda>j. \<lparr>bd_data = ws ! j, bd_keep = - 1, bd_last = (0 + j + 1 = length ws), bd_dest = d\<rparr>) [0..<length ws] @ xs) =
    (let st = \<lparr>wp_mem = store_words (a + 0) ws m, wp_address = a, wp_offset = length ws, wp_count = cnt + 1,
               wp_currentState = wp_firstFrame\<rparr>
     in if cnt + 1 < pn then read_loop (writeProp_body pn) st xs else (st, [], xs, Returned))"
    by (rule writeProp_data_beats) (use assms in auto)
  with assms show ?thesis
    by (simp add: packet_def writeProp_body_first Let_def split: prod.splits)
qed

text \<open>Packets \<open>(d, h, ws)\<close> one after the other, from any mixture of senders.\<close>

definition beats_of :: "(u16 \<times> burst \<times> burst list) list \<Rightarrow> burst_dest list" where
  "beats_of ps = concat (map (\<lambda>(d, h, ws). packet d h ws) ps)"

definition store_packets :: "(u16 \<times> burst \<times> burst list) list \<Rightarrow> mem \<Rightarrow> mem" where
  "store_packets ps m = fold (\<lambda>(d, h, ws) m. store_words (unat (lane 1 h)) ws m) ps m"

lemma store_packets_snoc:
  "store_packets (ps @ [(d, h, ws)]) m = store_words (unat (lane 1 h)) ws (store_packets ps m)"
  by (simp add: store_packets_def)

lemma writeProp_packets_loop:
  assumes "\<forall>(d, h, ws) \<in> set ps. ws \<noteq> []" "ps \<noteq> []" "cnt + length ps = pn"
  shows "\<exists>st. read_loop (writeProp_body pn)
      \<lparr>wp_mem = m, wp_address = ad, wp_offset = ofs, wp_count = cnt, wp_currentState = wp_firstFrame\<rparr> (beats_of ps @ xs) =
    (st, [], xs, Returned) \<and> wp_mem st = store_packets ps m"
  using assms
proof (induction ps arbitrary: m cnt ad ofs)
  case Nil
  then show ?case by simp
next
  case (Cons p ps)
  obtain d h ws where p: "p = (d, h, ws)" by (cases p)
  have ne: "ws \<noteq> []" "cnt < pn" using Cons.prems p by auto
  show ?case
  proof (cases "ps = []")
    case True
    with writeProp_one_packet [OF ne refl, where h = h and m = m and ad = ad and ofs = ofs and d = d and xs = xs] Cons.prems p show ?thesis
      by (simp add: beats_of_def store_packets_def Let_def)
  next
    case False
    have "cnt + 1 < pn" using Cons.prems False by (cases ps) auto
    with writeProp_one_packet [OF ne refl, where h = h and m = m and ad = ad and ofs = ofs and d = d and xs = "beats_of ps @ xs"] p
    have "read_loop (writeProp_body pn)
        \<lparr>wp_mem = m, wp_address = ad, wp_offset = ofs, wp_count = cnt, wp_currentState = wp_firstFrame\<rparr> (beats_of (p # ps) @ xs) =
      read_loop (writeProp_body pn) \<lparr>wp_mem = store_words (unat (lane 1 h)) ws m, wp_address = unat (lane 1 h),
        wp_offset = length ws, wp_count = cnt + 1, wp_currentState = wp_firstFrame\<rparr> (beats_of ps @ xs)"
      by (simp add: beats_of_def Let_def)
    with Cons.IH [of "cnt + 1" "store_words (unat (lane 1 h)) ws m" "unat (lane 1 h)" "length ws"] Cons.prems False p
    show ?thesis by (simp add: store_packets_def)
  qed
qed

lemma writeProp_packets:
  assumes "\<forall>(d, h, ws) \<in> set ps. ws \<noteq> []" "ps \<noteq> []" "length ps < 2 ^ 32"
  shows "writeProp m (beats_of ps @ xs) (word_of_nat (length ps)) = (store_packets ps m, xs, Returned)"
proof -
  have "unat (word_of_nat (length ps) :: u32) = length ps"
    by (rule unat_of_nat_small) (use assms(3) in simp)
  with writeProp_packets_loop [OF assms(1,2), of 0 "length ps" m 0 0 xs] show ?thesis
    by (auto simp: writeProp_def)
qed

text \<open>A slice sent by \<open>readProp\<close> as packets, and stored.\<close>

definition slice_packets :: "burst \<Rightarrow> mem \<Rightarrow> u32 \<Rightarrow> u32 \<Rightarrow> nat \<Rightarrow> nat \<Rightarrow> (u16 \<times> burst \<times> burst list) list" where
  "slice_packets u m nd ds s n = map (\<lambda>p. (ucast ds, header_word u m nd s p, slice_words m s n p)) [0..<packet_num n]"

lemma packet_num_bounds: "0 < n \<Longrightarrow> 0 < packet_num n" "p < packet_num n \<Longrightarrow> 21 * p < n" "n \<le> 21 * packet_num n"
proof -
  show "0 < n \<Longrightarrow> 0 < packet_num n" by (auto simp: packet_num_div)
  show "p < packet_num n \<Longrightarrow> 21 * p < n"
  proof -
    assume "p < packet_num n"
    then have "Suc p \<le> (n + 20) div 21" by (simp add: packet_num_def)
    then have "21 * Suc p \<le> n + 20" by (metis div_times_less_eq_dividend le_trans mult.commute mult_le_mono1)
    then show "21 * p < n" by simp
  qed
  have "n mod 21 \<le> 21" using mod_less_divisor [of 21 n] by simp
  then show "n \<le> 21 * packet_num n" using div_mult_mod_eq [of n 21] by (auto simp: packet_num_div)
qed

lemma header_word_lanes:
  assumes "s + 21 * p < 2 ^ 32"
  shows "unat (lane 1 (header_word u m nd s p)) = s + 21 * p" and "lane 0 (header_word u m nd s p) = nd"
proof -
  have "unat (word_of_nat (s + 21 * p) :: u32) = s + 21 * p"
    by (rule unat_of_nat_small) (use assms in simp)
  then show "unat (lane 1 (header_word u m nd s p)) = s + 21 * p"
    by (simp only: header_word_def) (simp add: lane_set_lane)
  show "lane 0 (header_word u m nd s p) = nd"
    by (simp add: header_word_def lane_set_lane)
qed

lemma store_slice_packets_upto:
  assumes "q \<le> packet_num n" "s + n < 2 ^ 32" "0 < n"
  shows "store_packets (map (\<lambda>p. (ucast ds, header_word u m nd s p, slice_words m s n p)) [0..<q]) m2 =
    (\<lambda>t. if s \<le> t \<and> t < s + min n (21 * q) then m t else m2 t)"
  using assms
proof (induction q)
  case 0
  then show ?case by (auto simp: store_packets_def fun_eq_iff)
next
  case (Suc q)
  have q: "21 * q < n" using packet_num_bounds(2) [of q n] Suc.prems by simp
  then have a: "unat (lane 1 (header_word u m nd s q)) = s + 21 * q"
    by (intro header_word_lanes) (use Suc.prems in simp)
  have IH: "store_packets (map (\<lambda>p. (ucast ds, header_word u m nd s p, slice_words m s n p)) [0..<q]) m2 =
      (\<lambda>t. if s \<le> t \<and> t < s + min n (21 * q) then m t else m2 t)"
    using Suc by simp
  have "store_packets (map (\<lambda>p. (ucast ds, header_word u m nd s p, slice_words m s n p)) [0..<Suc q]) m2 =
      store_words (s + 21 * q) (slice_words m s n q) (\<lambda>t. if s \<le> t \<and> t < s + min n (21 * q) then m t else m2 t)"
    by (simp only: upt_Suc_append [OF le0] map_append list.map store_packets_snoc a IH)
  also have "\<dots> = (\<lambda>t. if s \<le> t \<and> t < s + min n (21 * Suc q) then m t else m2 t)"
  proof
    fix t
    have l: "length (slice_words m s n q) = min 21 (n - 21 * q)" by (simp add: slice_words_def)
    have w: "slice_words m s n q ! (t - (s + 21 * q)) = m t" if "s + 21 * q \<le> t" "t < s + 21 * q + min 21 (n - 21 * q)"
    proof -
      from that obtain k where "t = s + 21 * q + k" "k < min 21 (n - 21 * q)" by (metis add_less_cancel_left le_Suc_ex)
      then show ?thesis by (simp add: slice_words_def)
    qed
    have mn: "s + 21 * q + min 21 (n - 21 * q) = s + min n (21 * Suc q)" using q by simp
    show "store_words (s + 21 * q) (slice_words m s n q) (\<lambda>t. if s \<le> t \<and> t < s + min n (21 * q) then m t else m2 t) t =
        (if s \<le> t \<and> t < s + min n (21 * Suc q) then m t else m2 t)"
      using w q unfolding store_words_def l mn by (auto simp: mn [symmetric])
  qed
  finally show ?case .
qed

lemma loop_num_words:
  assumes "0 < n" "n < 2 ^ 28"
  shows "loop_num (word_of_nat (16 * n)) = n"
proof -
  have "(word_of_nat (16 * n) :: u32) - 1 = word_of_nat (16 * n - 1)"
    using assms(1) by (simp add: of_nat_diff)
  moreover have "unat (word_of_nat (16 * n - 1) :: u32) = 16 * n - 1"
    by (rule unat_of_nat_small) (use assms in simp)
  ultimately have "unat (drop_bit 4 ((word_of_nat (16 * n) :: u32) - 1)) = (16 * n - 1) div 16"
    by (simp only: unat_drop_bit_eq) (simp add: drop_bit_eq_div)
  also have "\<dots> = n - 1" by (cases n) (use assms in \<open>auto intro: div_nat_eqI\<close>)
  finally show ?thesis using assms(1) by (simp only: loop_num_def)
qed

lemma readProp_slice:
  assumes "0 < n" "n < 2 ^ 28" "s < 2 ^ 28"
  shows "readProp u m nd ds (word_of_nat (16 * s)) (word_of_nat (16 * n)) = beats_of (slice_packets u m nd ds s n)"
proof -
  have "unat (word_of_nat (16 * s) :: u32) = 16 * s"
    by (rule unat_of_nat_small) (use assms in simp)
  then have "unat (drop_bit 4 (word_of_nat (16 * s) :: u32)) = s"
    by (simp only: unat_drop_bit_eq) (simp add: drop_bit_eq_div)
  then have "readProp u m nd ds (word_of_nat (16 * s)) (word_of_nat (16 * n)) =
      concat (map (slice_packet u m nd ds s n) [0..<packet_num n])"
    unfolding readProp_def Let_def loop_num_words [OF assms(1,2)] by (simp only: readProp_loop_slice [OF assms(1)])
  then show ?thesis by (simp add: beats_of_def slice_packets_def comp_def slice_packet_def [abs_def])
qed

lemma slice_packets_ok:
  "\<forall>(d, h, ws) \<in> set (slice_packets u m nd ds s n). ws \<noteq> []" "length (slice_packets u m nd ds s n) = packet_num n"
  using packet_num_bounds(2) [of _ n] by (fastforce simp: slice_packets_def slice_words_def)+

text \<open>Sending a slice and storing it copies the slice.\<close>

lemma writeProp_readProp:
  assumes "0 < n" "n < 2 ^ 28" "s + n < 2 ^ 28"
  shows "writeProp m2 (readProp u m nd ds (word_of_nat (16 * s)) (word_of_nat (16 * n)) @ xs) (word_of_nat (packet_num n)) =
    (\<lambda>t. if s \<le> t \<and> t < s + n then m t else m2 t, xs, Returned)"
proof -
  have k: "packet_num n < 2 ^ 32" using assms(1,2) by (simp add: packet_num_def)
  have ne: "slice_packets u m nd ds s n \<noteq> []"
    using packet_num_bounds(1) [OF assms(1)] slice_packets_ok(2) [of u m nd ds s n] by auto
  have "readProp u m nd ds (word_of_nat (16 * s)) (word_of_nat (16 * n)) = beats_of (slice_packets u m nd ds s n)"
    by (rule readProp_slice) (use assms in simp_all)
  with writeProp_packets [OF slice_packets_ok(1) ne, of m2 xs] k
  have "writeProp m2 (readProp u m nd ds (word_of_nat (16 * s)) (word_of_nat (16 * n)) @ xs) (word_of_nat (packet_num n)) =
      (store_packets (slice_packets u m nd ds s n) m2, xs, Returned)"
    by (simp add: slice_packets_ok(2))
  also have "store_packets (slice_packets u m nd ds s n) m2 = (\<lambda>t. if s \<le> t \<and> t < s + n then m t else m2 t)"
    using store_slice_packets_upto [of "packet_num n" n s ds u m nd m2] assms packet_num_bounds(3) [of n]
    by (simp add: slice_packets_def min_def)
  finally show ?thesis .
qed

end
