(* ===== verification/Ring.thy ===== *)
theory Ring
  imports Net_Aggregate
begin

text \<open>
  The kernel \<open>globalTrans\<close> (\<open>src/clementi/globalTrans.cpp\<close>, and the copy in
  \<open>src/global_apply\<close>), a node's station in the ring: it sends the packets of its own
  \<open>readProp\<close>, stores every packet from the network and forwards those that are not its
  own.  One iteration of its endless loop is a function of the state and the two input
  FIFOs; the arrival of beats is the environment's move in the step relation \<open>gt_reach\<close>.
\<close>

section \<open>One iteration\<close>

datatype gt_state = firstFrame | remainFrame_same | remainFrame_other | onlySend

record gt =
  currentState :: gt_state
  current_node_id :: u32
  write_read_num :: int

definition FIFO_len :: int where "FIFO_len = 32"

definition gt_init :: gt where
  "gt_init = \<lparr>currentState = firstFrame, current_node_id = - 1, write_read_num = 0\<rparr>"

text \<open>What a beat from the network becomes on the way to the next node.\<close>

definition forward_beat :: "burst_dest \<Rightarrow> burst_dest" where
  "forward_beat p = p\<lparr>bd_keep := - 1, bd_dest := 1\<rparr>"

text \<open>
  The result: state, what is left in \<open>net_in\<close> and \<open>vertexTrans\<close>, and what is written to
  \<open>vertexUpdate\<close> and \<open>net_out\<close>.
\<close>

definition globalTrans_step :: "gt \<Rightarrow> burst_dest list \<Rightarrow> burst_dest list \<Rightarrow>
  gt \<times> burst_dest list \<times> burst_dest list \<times> burst_dest list \<times> burst_dest list" where
  "globalTrans_step g net_in vertexTrans =
     (case currentState g of
        firstFrame \<Rightarrow>
          (case net_in of
             packet_in # net \<Rightarrow>
               (if lane 0 (bd_data packet_in) = current_node_id g
                then (g\<lparr>write_read_num := write_read_num g - 1, currentState := remainFrame_same\<rparr>,
                      net, vertexTrans, [packet_in], [])
                else (g\<lparr>currentState := remainFrame_other\<rparr>, net, vertexTrans, [packet_in], [forward_beat packet_in]))
           | [] \<Rightarrow>
               (case vertexTrans of
                  trans_packet # vt \<Rightarrow>
                    (if write_read_num g < FIFO_len
                     then (\<lparr>currentState = onlySend, current_node_id = lane 0 (bd_data trans_packet),
                            write_read_num = write_read_num g + 1\<rparr>, net_in, vt, [], [trans_packet])
                     else (g, net_in, vertexTrans, [], []))
                | [] \<Rightarrow> (g, net_in, vertexTrans, [], [])))
      | remainFrame_same \<Rightarrow>
          (case net_in of
             packet_in # net \<Rightarrow>
               (g\<lparr>currentState := (if bd_last packet_in then firstFrame else remainFrame_same)\<rparr>,
                net, vertexTrans, [packet_in], [])
           | [] \<Rightarrow> (g, net_in, vertexTrans, [], []))
      | remainFrame_other \<Rightarrow>
          (case net_in of
             packet_in # net \<Rightarrow>
               (g\<lparr>currentState := (if bd_last packet_in then firstFrame else remainFrame_other)\<rparr>,
                net, vertexTrans, [packet_in], [forward_beat packet_in])
           | [] \<Rightarrow> (g, net_in, vertexTrans, [], []))
      | onlySend \<Rightarrow>
          (case vertexTrans of
             trans_packet # vt \<Rightarrow>
               (g\<lparr>currentState := (if bd_last trans_packet then firstFrame else onlySend)\<rparr>,
                net_in, vt, [], [trans_packet])
           | [] \<Rightarrow> (g, net_in, vertexTrans, [], [])))"

definition ga_globalTrans_step :: "gt \<Rightarrow> burst_dest list \<Rightarrow> burst_dest list \<Rightarrow>
  gt \<times> burst_dest list \<times> burst_dest list \<times> burst_dest list \<times> burst_dest list" where
  "ga_globalTrans_step g net_in vertexTrans = globalTrans_step g net_in vertexTrans"

section \<open>The station and its environment\<close>

text \<open>
  The FIFOs around the kernel, and as ghost variables everything that ever arrived.
\<close>

record station =
  st_gt :: gt
  st_net_in :: "burst_dest list"
  st_trans :: "burst_dest list"
  st_update :: "burst_dest list"     \<comment> \<open>all that was written to \<open>vertexUpdate\<close>\<close>
  st_out :: "burst_dest list"        \<comment> \<open>all that was written to \<open>net_out\<close>\<close>
  st_net_all :: "burst_dest list"
  st_trans_all :: "burst_dest list"

definition station_init :: station where
  "station_init = \<lparr>st_gt = gt_init, st_net_in = [], st_trans = [], st_update = [], st_out = [],
     st_net_all = [], st_trans_all = []\<rparr>"

definition iterate_station :: "station \<Rightarrow> station" where
  "iterate_station s =
     (case globalTrans_step (st_gt s) (st_net_in s) (st_trans s) of
        (g, net, vt, upd, out) \<Rightarrow>
          s\<lparr>st_gt := g, st_net_in := net, st_trans := vt, st_update := st_update s @ upd, st_out := st_out s @ out\<rparr>)"

inductive gt_reach :: "station \<Rightarrow> bool" where
  reach_init: "gt_reach station_init"
| reach_net: "gt_reach s \<Longrightarrow> gt_reach (s\<lparr>st_net_in := st_net_in s @ [x], st_net_all := st_net_all s @ [x]\<rparr>)"
| reach_trans: "gt_reach s \<Longrightarrow> gt_reach (s\<lparr>st_trans := st_trans s @ [x], st_trans_all := st_trans_all s @ [x]\<rparr>)"
| reach_iterate: "gt_reach s \<Longrightarrow> gt_reach (iterate_station s)"

inductive_cases gt_reach_initE: "gt_reach station_init"
inductive_simps gt_reach_unfold: "gt_reach s"

lemma gt_step_cases:
  obtains
    (wait) "globalTrans_step g ni vt = (g, ni, vt, [], [])"
  | (own) p net where "ni = p # net" "currentState g = firstFrame" "lane 0 (bd_data p) = current_node_id g"
      "globalTrans_step g ni vt = (g\<lparr>write_read_num := write_read_num g - 1, currentState := remainFrame_same\<rparr>, net, vt, [p], [])"
  | (other) p net where "ni = p # net" "currentState g = firstFrame" "lane 0 (bd_data p) \<noteq> current_node_id g"
      "globalTrans_step g ni vt = (g\<lparr>currentState := remainFrame_other\<rparr>, net, vt, [p], [forward_beat p])"
  | (send) p rest where "ni = []" "vt = p # rest" "currentState g = firstFrame" "write_read_num g < FIFO_len"
      "globalTrans_step g ni vt = (\<lparr>currentState = onlySend, current_node_id = lane 0 (bd_data p),
          write_read_num = write_read_num g + 1\<rparr>, [], rest, [], [p])"
  | (same_more) p net where "ni = p # net" "currentState g = remainFrame_same"
      "globalTrans_step g ni vt = (g\<lparr>currentState := (if bd_last p then firstFrame else remainFrame_same)\<rparr>, net, vt, [p], [])"
  | (other_more) p net where "ni = p # net" "currentState g = remainFrame_other"
      "globalTrans_step g ni vt = (g\<lparr>currentState := (if bd_last p then firstFrame else remainFrame_other)\<rparr>, net, vt, [p], [forward_beat p])"
  | (send_more) p rest where "vt = p # rest" "currentState g = onlySend"
      "globalTrans_step g ni vt = (g\<lparr>currentState := (if bd_last p then firstFrame else onlySend)\<rparr>, ni, rest, [], [p])"
proof (cases "currentState g")
  case firstFrame
  then show ?thesis
    using wait own other send
    by (cases ni; cases vt; cases "write_read_num g < FIFO_len") (auto simp: globalTrans_step_def split: if_splits)
next
  case remainFrame_same
  then show ?thesis using wait same_more by (cases ni) (auto simp: globalTrans_step_def)
next
  case remainFrame_other
  then show ?thesis using wait other_more by (cases ni) (auto simp: globalTrans_step_def)
next
  case onlySend
  then show ?thesis using wait send_more by (cases vt) (auto simp: globalTrans_step_def)
qed

section \<open>Nothing from the network is lost\<close>

text \<open>
  Every beat from the network goes to \<open>vertexUpdate\<close>, unchanged and in order.
\<close>

lemma gt_updates_all: "gt_reach s \<Longrightarrow> st_net_all s = st_update s @ st_net_in s"
proof (induction rule: gt_reach.induct)
  case (reach_iterate s)
  then show ?case
    by (cases rule: gt_step_cases [of "st_gt s" "st_net_in s" "st_trans s"])
       (simp_all add: iterate_station_def)
qed (simp_all add: station_init_def)

section \<open>The window\<close>

lemma gt_window: "gt_reach s \<Longrightarrow> write_read_num (st_gt s) \<le> FIFO_len"
proof (induction rule: gt_reach.induct)
  case (reach_iterate s)
  then show ?case
    by (cases rule: gt_step_cases [of "st_gt s" "st_net_in s" "st_trans s"])
       (simp_all add: iterate_station_def)
qed (simp_all add: station_init_def gt_init_def FIFO_len_def)

section \<open>Packets stay together\<close>

text \<open>
  Cutting a stream of beats after each \<open>last\<close>: the complete packets, and the packet in
  progress.
\<close>

fun cut_packets :: "burst_dest list \<Rightarrow> burst_dest list \<Rightarrow> burst_dest list list \<times> burst_dest list" where
  "cut_packets acc [] = ([], acc)"
| "cut_packets acc (b # bs) =
     (if bd_last b then (case cut_packets [] bs of (ps, r) \<Rightarrow> ((acc @ [b]) # ps, r))
      else cut_packets (acc @ [b]) bs)"

lemma cut_packets_append:
  "cut_packets acc (xs @ ys) =
     (case cut_packets acc xs of (ps, r) \<Rightarrow> (case cut_packets r ys of (qs, r') \<Rightarrow> (ps @ qs, r')))"
  by (induction acc xs rule: cut_packets.induct) (auto split: prod.splits)

lemma cut_packets_concat: "cut_packets acc xs = (ps, r) \<Longrightarrow> concat ps @ r = acc @ xs"
  by (induction acc xs arbitrary: ps r rule: cut_packets.induct) (auto split: prod.splits if_splits)

lemma cut_snoc:
  "cut_packets acc (xs @ [b]) =
     (case cut_packets acc xs of (ps, r) \<Rightarrow> if bd_last b then (ps @ [r @ [b]], []) else (ps, r @ [b]))"
  by (simp add: cut_packets_append split: prod.splits)

text \<open>Packets have a header and data: no packet consists of a single beat.\<close>

definition framed :: "burst_dest list \<Rightarrow> bool" where
  "framed bs \<longleftrightarrow> (\<forall>p \<in> set (fst (cut_packets [] bs)). 2 \<le> length p)"

lemma framed_prefix: "framed (xs @ ys) \<Longrightarrow> framed xs"
  by (auto simp: framed_def cut_packets_append split: prod.splits)

lemma framed_header: "framed (xs @ b # ys) \<Longrightarrow> snd (cut_packets [] xs) = [] \<Longrightarrow> \<not> bd_last b"
  by (auto simp: framed_def cut_packets_append split: prod.splits if_splits)

text \<open>An interleaving of two sequences of packets.\<close>

inductive interleaved :: "'a list \<Rightarrow> 'a list \<Rightarrow> 'a list \<Rightarrow> bool" where
  il_Nil: "interleaved [] [] []"
| il_left: "interleaved zs xs ys \<Longrightarrow> interleaved (zs @ [z]) (xs @ [z]) ys"
| il_right: "interleaved zs xs ys \<Longrightarrow> interleaved (zs @ [z]) xs (ys @ [z])"

lemma interleaved_mset: "interleaved zs xs ys \<Longrightarrow> mset zs = mset xs + mset ys"
  by (induction rule: interleaved.induct) auto

definition packet_id :: "burst_dest list \<Rightarrow> u32" where
  "packet_id p = lane 0 (bd_data (hd p))"

text \<open>
  \<open>P\<close> are the packets complete so far, \<open>r\<close> the beats of the packet in progress: of the
  network (\<open>n\<close>), of \<open>vertexTrans\<close> (\<open>t\<close>) and of \<open>net_out\<close> (\<open>o\<close>); \<open>K\<close> are the network's packets
  that were forwarded, \<open>D\<close> those that were not.
\<close>

definition phase_ok :: "gt \<Rightarrow> burst_dest list \<Rightarrow> burst_dest list \<Rightarrow> burst_dest list \<Rightarrow> bool" where
  "phase_ok g rn rt ro \<longleftrightarrow>
     (case currentState g of
        firstFrame \<Rightarrow> rn = [] \<and> rt = [] \<and> ro = []
      | remainFrame_same \<Rightarrow> rn \<noteq> [] \<and> rt = [] \<and> ro = [] \<and> packet_id rn = current_node_id g
      | remainFrame_other \<Rightarrow> rn \<noteq> [] \<and> rt = [] \<and> ro = map forward_beat rn
      | onlySend \<Rightarrow> rn = [] \<and> rt \<noteq> [] \<and> ro = rt \<and> packet_id rt = current_node_id g)"

definition routed :: "gt \<Rightarrow> burst_dest list list \<Rightarrow> burst_dest list \<Rightarrow> burst_dest list list \<Rightarrow> burst_dest list list \<Rightarrow>
  burst_dest list list \<Rightarrow> burst_dest list list \<Rightarrow> bool" where
  "routed g Pt rt Pn Po K D \<longleftrightarrow>
     interleaved Pn K D \<and> interleaved Po Pt (map (map forward_beat) K) \<and>
     (\<forall>d \<in> set D. packet_id d = - 1 \<or> packet_id d \<in> packet_id ` set Pt) \<and>
     (current_node_id g = - 1 \<or> current_node_id g \<in> packet_id ` set Pt \<or> (rt \<noteq> [] \<and> current_node_id g = packet_id rt))"

definition gt_inv :: "station \<Rightarrow> bool" where
  "gt_inv s \<longleftrightarrow> (\<exists>T Pt rt Pn rn Po ro K D. st_trans_all s = T @ st_trans s \<and>
     cut_packets [] T = (Pt, rt) \<and> cut_packets [] (st_update s) = (Pn, rn) \<and> cut_packets [] (st_out s) = (Po, ro) \<and>
     phase_ok (st_gt s) rn rt ro \<and> routed (st_gt s) Pt rt Pn Po K D)"

lemma gt_invI:
  assumes "st_trans_all s = T @ st_trans s" "cut_packets [] T = (Pt, rt)"
    "cut_packets [] (st_update s) = (Pn, rn)" "cut_packets [] (st_out s) = (Po, ro)"
    "phase_ok (st_gt s) rn rt ro" "routed (st_gt s) Pt rt Pn Po K D"
  shows "gt_inv s"
  using assms unfolding gt_inv_def by blast

lemma packet_id_append: "r \<noteq> [] \<Longrightarrow> packet_id (r @ xs) = packet_id r"
  by (cases r) (simp_all add: packet_id_def)

lemma forward_beat_last [simp]: "bd_last (forward_beat p) = bd_last p"
  by (simp add: forward_beat_def)

lemma gt_inv_iterate:
  assumes inv: "gt_inv s" and net: "st_net_all s = st_update s @ st_net_in s"
    and framed: "framed (st_net_all s)" "framed (st_trans_all s)"
  shows "gt_inv (iterate_station s)"
proof -
  from inv obtain T Pt rt Pn rn Po ro K D where
    T: "st_trans_all s = T @ st_trans s" "cut_packets [] T = (Pt, rt)"
    and U: "cut_packets [] (st_update s) = (Pn, rn)" and O: "cut_packets [] (st_out s) = (Po, ro)"
    and ph: "phase_ok (st_gt s) rn rt ro" and ro: "routed (st_gt s) Pt rt Pn Po K D"
    by (auto simp: gt_inv_def)
  note r = ro [unfolded routed_def]
  show ?thesis
  proof (cases rule: gt_step_cases [of "st_gt s" "st_net_in s" "st_trans s"])
    case wait
    then have "iterate_station s = s" by (simp add: iterate_station_def)
    with inv show ?thesis by simp
  next
    case (own p ni)
    with ph have e: "rn = []" "rt = []" "ro = []" by (simp_all add: phase_ok_def)
    have nl: "\<not> bd_last p" by (rule framed_header [of "st_update s" p ni]) (use own net framed U e in simp_all)
    show ?thesis
      by (rule gt_invI [of _ T Pt rt Pn "[p]" Po ro K D])
          (use own nl e T U O r in \<open>simp_all add: iterate_station_def cut_snoc phase_ok_def routed_def packet_id_def\<close>)
  next
    case (other p ni)
    with ph have e: "rn = []" "rt = []" "ro = []" by (simp_all add: phase_ok_def)
    have nl: "\<not> bd_last p" by (rule framed_header [of "st_update s" p ni]) (use other net framed U e in simp_all)
    show ?thesis
      by (rule gt_invI [of _ T Pt rt Pn "[p]" Po "[forward_beat p]" K D])
          (use other nl e T U O r in \<open>simp_all add: iterate_station_def cut_snoc phase_ok_def routed_def packet_id_def\<close>)
  next
    case (send p rest)
    with ph have e: "rn = []" "rt = []" "ro = []" by (simp_all add: phase_ok_def)
    have nl: "\<not> bd_last p" by (rule framed_header [of T p rest]) (use send framed T e in simp_all)
    show ?thesis
      by (rule gt_invI [of _ "T @ [p]" Pt "[p]" Pn rn Po "[p]" K D])
          (use send nl e T U O r in \<open>simp_all add: iterate_station_def cut_snoc phase_ok_def routed_def packet_id_def\<close>)
  next
    case (same_more p ni)
    with ph have e: "rn \<noteq> []" "rt = []" "ro = []" "packet_id rn = current_node_id (st_gt s)" by (simp_all add: phase_ok_def)
    show ?thesis
    proof (cases "bd_last p")
      case True
      have "routed (st_gt (iterate_station s)) Pt rt (Pn @ [rn @ [p]]) Po K (D @ [rn @ [p]])"
        using r e same_more by (auto simp: routed_def iterate_station_def packet_id_append il_right)
      note ro' = this
      show ?thesis
        by (rule gt_invI [of _ T Pt rt "Pn @ [rn @ [p]]" "[]" Po ro K "D @ [rn @ [p]]"])
          (use True same_more e T U O ro' in \<open>simp_all add: iterate_station_def cut_snoc phase_ok_def\<close>)
    next
      case False
      show ?thesis
        by (rule gt_invI [of _ T Pt rt Pn "rn @ [p]" Po ro K D])
          (use same_more False e T U O r in
            \<open>simp_all add: iterate_station_def cut_snoc phase_ok_def routed_def packet_id_append\<close>)
    qed
  next
    case (other_more p ni)
    with ph have e: "rn \<noteq> []" "rt = []" "ro = map forward_beat rn" by (simp_all add: phase_ok_def)
    show ?thesis
    proof (cases "bd_last p")
      case True
      have "routed (st_gt (iterate_station s)) Pt rt (Pn @ [rn @ [p]]) (Po @ [map forward_beat (rn @ [p])]) (K @ [rn @ [p]]) D"
        using r e other_more by (auto simp: routed_def iterate_station_def il_left intro: il_right)
      note ro' = this
      show ?thesis
        by (rule gt_invI [of _ T Pt rt "Pn @ [rn @ [p]]" "[]" "Po @ [map forward_beat (rn @ [p])]" "[]" "K @ [rn @ [p]]" D])
          (use True other_more e T U O ro' in \<open>simp_all add: iterate_station_def cut_snoc phase_ok_def\<close>)
    next
      case False
      show ?thesis
        by (rule gt_invI [of _ T Pt rt Pn "rn @ [p]" Po "ro @ [forward_beat p]" K D])
          (use other_more False e T U O r in \<open>simp_all add: iterate_station_def cut_snoc phase_ok_def routed_def\<close>)
    qed
  next
    case (send_more p rest)
    with ph have e: "rn = []" "rt \<noteq> []" "ro = rt" "packet_id rt = current_node_id (st_gt s)" by (simp_all add: phase_ok_def)
    show ?thesis
    proof (cases "bd_last p")
      case True
      have "routed (st_gt (iterate_station s)) (Pt @ [rt @ [p]]) [] Pn (Po @ [rt @ [p]]) K D"
        using r e send_more by (auto simp: routed_def iterate_station_def packet_id_append il_left)
      note ro' = this
      show ?thesis
        by (rule gt_invI [of _ "T @ [p]" "Pt @ [rt @ [p]]" "[]" Pn rn "Po @ [rt @ [p]]" "[]" K D])
          (use True send_more e T U O ro' in \<open>simp_all add: iterate_station_def cut_snoc phase_ok_def\<close>)
    next
      case False
      show ?thesis
        by (rule gt_invI [of _ "T @ [p]" Pt "rt @ [p]" Pn rn Po "ro @ [p]" K D])
          (use send_more False e T U O r in
            \<open>simp_all add: iterate_station_def cut_snoc phase_ok_def routed_def packet_id_append\<close>)
    qed
  qed
qed

lemma gt_inv_net:
  assumes "gt_inv s"
  shows "gt_inv (s\<lparr>st_net_in := xs, st_net_all := ys\<rparr>)"
  using assms by (simp add: gt_inv_def)

lemma gt_inv_trans:
  assumes "gt_inv s"
  shows "gt_inv (s\<lparr>st_trans := st_trans s @ [x], st_trans_all := st_trans_all s @ [x]\<rparr>)"
proof -
  from assms obtain T Pt rt Pn rn Po ro K D where "st_trans_all s = T @ st_trans s"
     "cut_packets [] T = (Pt, rt)" "cut_packets [] (st_update s) = (Pn, rn)" "cut_packets [] (st_out s) = (Po, ro)"
     "phase_ok (st_gt s) rn rt ro" "routed (st_gt s) Pt rt Pn Po K D"
    by (auto simp: gt_inv_def)
  then show ?thesis by (intro gt_invI [of _ T Pt rt Pn rn Po ro K D]) simp_all
qed

lemma gt_inv_reach:
  assumes "gt_reach s" "framed (st_net_all s)" "framed (st_trans_all s)"
  shows "gt_inv s"
  using assms
proof (induction rule: gt_reach.induct)
  case reach_init
  show ?case
    by (rule gt_invI [of _ "[]" "[]" "[]" "[]" "[]" "[]" "[]" "[]" "[]"])
      (simp_all add: station_init_def gt_init_def phase_ok_def routed_def il_Nil)
next
  case (reach_net s x)
  then show ?case using framed_prefix [of "st_net_all s" "[x]"] by (intro gt_inv_net) simp
next
  case (reach_trans s x)
  then show ?case using framed_prefix [of "st_trans_all s" "[x]"] by (intro gt_inv_trans) simp
next
  case (reach_iterate s)
  have e: "st_net_all (iterate_station s) = st_net_all s" "st_trans_all (iterate_station s) = st_trans_all s"
    by (simp_all add: iterate_station_def split: prod.splits)
  with reach_iterate gt_updates_all [of s] show ?case by (intro gt_inv_iterate) simp_all
qed

text \<open>
  What the invariant says when the station is between packets: the packets on \<open>net_out\<close>
  are an interleaving of the node's own packets with the packets that were forwarded, and
  a packet from the network that was not forwarded carries the number of the node.
\<close>

lemma gt_packets:
  assumes "gt_reach s" "framed (st_net_all s)" "framed (st_trans_all s)" "currentState (st_gt s) = firstFrame"
  shows "\<exists>T Pt Pn Po K D. st_trans_all s = T @ st_trans s \<and> st_net_all s = st_update s @ st_net_in s \<and>
     cut_packets [] T = (Pt, []) \<and> cut_packets [] (st_update s) = (Pn, []) \<and> cut_packets [] (st_out s) = (Po, []) \<and>
     interleaved Pn K D \<and> interleaved Po Pt (map (map forward_beat) K) \<and>
     (\<forall>d \<in> set D. packet_id d = - 1 \<or> packet_id d \<in> packet_id ` set Pt)"
proof -
  from gt_inv_reach [OF assms(1-3)] obtain T Pt rt Pn rn Po ro K D where
     i: "st_trans_all s = T @ st_trans s" "cut_packets [] T = (Pt, rt)" "cut_packets [] (st_update s) = (Pn, rn)"
     "cut_packets [] (st_out s) = (Po, ro)" "phase_ok (st_gt s) rn rt ro" "routed (st_gt s) Pt rt Pn Po K D"
    by (auto simp: gt_inv_def)
  from i(5) assms(4) have "rn = [] \<and> rt = [] \<and> ro = []" by (simp add: phase_ok_def)
  with i gt_updates_all [OF assms(1)] show ?thesis unfolding routed_def by blast
qed

end
