(* ===== verification/Ring_Network.thy ===== *)
theory Ring_Network
  imports Ring
begin

text \<open>
  The nodes connected in a ring: what \<open>globalTrans\<close> of a node writes to \<open>net_out\<close> arrives
  on \<open>net_in\<close> of the next node (\<open>setSocket\<close> in \<open>host/clementi/mpi_graph_dataflow.cpp\<close>),
  in order and unchanged, which is what the network layers between them are relied on
  for.  Stations iterate, and beats of \<open>readProp\<close> arrive, in any order.  Every node receives
  every packet of every node exactly once, and the ring does not stop before that.
\<close>

section \<open>The network\<close>

type_synonym net = "nat \<Rightarrow> station"

definition next_node :: "nat \<Rightarrow> nat \<Rightarrow> nat" where
  "next_node n i = (if i + 1 = n then 0 else i + 1)"

definition deliver :: "burst_dest list \<Rightarrow> station \<Rightarrow> station" where
  "deliver bs s = s\<lparr>st_net_in := st_net_in s @ bs, st_net_all := st_net_all s @ bs\<rparr>"

text \<open>The beats that an iteration writes to \<open>net_out\<close>.\<close>

definition sent_beats :: "station \<Rightarrow> burst_dest list" where
  "sent_beats s = (case globalTrans_step (st_gt s) (st_net_in s) (st_trans s) of (_, _, _, _, out) \<Rightarrow> out)"

definition iterate_node :: "nat \<Rightarrow> nat \<Rightarrow> net \<Rightarrow> net" where
  "iterate_node n i net =
     (let net1 = net(i := iterate_station (net i));
          k = next_node n i
      in net1(k := deliver (sent_beats (net i)) (net1 k)))"

inductive net_step :: "nat \<Rightarrow> net \<Rightarrow> net \<Rightarrow> bool" for n where
  node_iterates: "i < n \<Longrightarrow> net_step n net (iterate_node n i net)"
| node_reads: "i < n \<Longrightarrow>
    net_step n net (net(i := (net i)\<lparr>st_trans := st_trans (net i) @ [x], st_trans_all := st_trans_all (net i) @ [x]\<rparr>))"

definition net_reach :: "nat \<Rightarrow> net \<Rightarrow> bool" where
  "net_reach n net \<longleftrightarrow> (net_step n)\<^sup>*\<^sup>* (\<lambda>_. station_init) net"

inductive_cases net_stepE: "net_step n net net'"

section \<open>Headers\<close>

text \<open>The node numbers in the headers of a stream.\<close>

fun headers :: "bool \<Rightarrow> burst_dest list \<Rightarrow> u32 list" where
  "headers first [] = []"
| "headers first (b # bs) = (if first then lane 0 (bd_data b) # headers (bd_last b) bs else headers (bd_last b) bs)"

lemma headers_append: "\<exists>g. headers f (xs @ ys) = headers f xs @ headers g ys"
  by (induction f xs rule: headers.induct) auto

lemma headers_prefix: "set (headers f xs) \<subseteq> set (headers f (xs @ ys))"
  using headers_append [of f xs ys] by auto

lemma headers_snoc:
  "headers f (xs @ [b]) = headers f xs @
     (if (if xs = [] then f else bd_last (last xs)) then [lane 0 (bd_data b)] else [])"
  by (induction f xs rule: headers.induct) auto

lemma cut_empty_iff: "snd (cut_packets [] xs) = [] \<longleftrightarrow> xs = [] \<or> bd_last (last xs)"
  by (cases xs rule: rev_cases) (auto simp: cut_snoc split: prod.splits)

lemma header_at: "snd (cut_packets [] xs) = [] \<Longrightarrow> lane 0 (bd_data b) \<in> set (headers True (xs @ b # ys))"
  using headers_prefix [of True "xs @ [b]" ys] by (auto simp: headers_snoc cut_empty_iff split: if_splits)

lemma headers_snoc_cut:
  "set (headers True (xs @ [b])) =
     set (headers True xs) \<union> (if snd (cut_packets [] xs) = [] then {lane 0 (bd_data b)} else {})"
  by (auto simp: headers_snoc cut_empty_iff)

section \<open>The invariant of a station\<close>

text \<open>
  With \<open>d\<close> the number of the node: the packets on \<open>net_out\<close> are those of the node and those
  from the network that are not its own, and \<open>write_read_num\<close> counts the node's packets on
  their way around the ring.
\<close>

definition own :: "u32 \<Rightarrow> burst_dest list \<Rightarrow> bool" where
  "own d p \<longleftrightarrow> packet_id p = d"

definition forwarded :: "u32 \<Rightarrow> burst_dest list list \<Rightarrow> burst_dest list list" where
  "forwarded d ps = map (map forward_beat) (filter (\<lambda>p. \<not> own d p) ps)"

definition consumed :: "station \<Rightarrow> nat" where
  "consumed s = length (st_trans_all s) - length (st_trans s)"

definition phase_own :: "u32 \<Rightarrow> gt \<Rightarrow> burst_dest list \<Rightarrow> burst_dest list \<Rightarrow> burst_dest list \<Rightarrow> bool" where
  "phase_own d g rn rt ro \<longleftrightarrow>
     (case currentState g of
        firstFrame \<Rightarrow> rn = [] \<and> rt = [] \<and> ro = []
      | remainFrame_same \<Rightarrow> rn \<noteq> [] \<and> rt = [] \<and> ro = [] \<and> own d rn
      | remainFrame_other \<Rightarrow> rn \<noteq> [] \<and> rt = [] \<and> ro = map forward_beat rn \<and> \<not> own d rn
      | onlySend \<Rightarrow> rn = [] \<and> rt \<noteq> [] \<and> ro = rt \<and> own d rt)"

definition counts_ok :: "u32 \<Rightarrow> gt \<Rightarrow> burst_dest list list \<Rightarrow> burst_dest list \<Rightarrow> burst_dest list list \<Rightarrow> burst_dest list \<Rightarrow>
  burst_dest list list \<Rightarrow> bool" where
  "counts_ok d g Pt rt Pn rn Po \<longleftrightarrow>
     mset Po = mset Pt + mset (forwarded d Pn) \<and>
     write_read_num g = int (length Pt) + of_bool (rt \<noteq> []) - int (length (filter (own d) Pn)) - of_bool (rn \<noteq> [] \<and> own d rn)"

definition st_inv :: "u32 \<Rightarrow> station \<Rightarrow> bool" where
  "st_inv d s \<longleftrightarrow> (\<exists>T Pt rt Pn rn Po ro. st_trans_all s = T @ st_trans s \<and>
     cut_packets [] T = (Pt, rt) \<and> cut_packets [] (st_update s) = (Pn, rn) \<and> cut_packets [] (st_out s) = (Po, ro) \<and>
     current_node_id (st_gt s) = (if T = [] then - 1 else d) \<and>
     phase_own d (st_gt s) rn rt ro \<and> counts_ok d (st_gt s) Pt rt Pn rn Po)"

lemma st_invI:
  assumes "st_trans_all s = T @ st_trans s" "cut_packets [] T = (Pt, rt)"
    "cut_packets [] (st_update s) = (Pn, rn)" "cut_packets [] (st_out s) = (Po, ro)"
    "current_node_id (st_gt s) = (if T = [] then - 1 else d)"
    "phase_own d (st_gt s) rn rt ro" "counts_ok d (st_gt s) Pt rt Pn rn Po"
  shows "st_inv d s"
  using assms unfolding st_inv_def by blast

lemma own_append: "r \<noteq> [] \<Longrightarrow> own d (r @ xs) = own d r"
  by (simp add: own_def packet_id_append)

lemma own_single: "own d [p] = (lane 0 (bd_data p) = d)"
  by (simp add: own_def packet_id_def)

text \<open>
  An iteration keeps the invariant, given that packets have a header and data, that the
  node sends under its own number only, and that a packet with its number comes from the
  network only after it has sent one.
\<close>

lemma st_inv_iterate:
  assumes inv: "st_inv d s" and net: "st_net_all s = st_update s @ st_net_in s" and d: "d \<noteq> - 1"
    and framed: "framed (st_net_all s)" "framed (st_trans_all s)"
    and ids: "set (headers True (st_trans_all s)) \<subseteq> {d}"
    and known: "- 1 \<notin> set (headers True (st_net_all s))"
    and causal: "d \<in> set (headers True (st_net_all s)) \<Longrightarrow> 0 < consumed s"
  shows "st_inv d (iterate_station s)"
proof -
  from inv obtain T Pt rt Pn rn Po ro where
    T: "st_trans_all s = T @ st_trans s" "cut_packets [] T = (Pt, rt)"
    and U: "cut_packets [] (st_update s) = (Pn, rn)" and O: "cut_packets [] (st_out s) = (Po, ro)"
    and cur: "current_node_id (st_gt s) = (if T = [] then - 1 else d)"
    and ph: "phase_own d (st_gt s) rn rt ro" and co: "counts_ok d (st_gt s) Pt rt Pn rn Po"
    unfolding st_inv_def by blast
  have cons: "0 < consumed s \<longleftrightarrow> T \<noteq> []" by (simp add: consumed_def T(1))
  have net_header: "lane 0 (bd_data p) \<in> set (headers True (st_net_all s))" "\<not> bd_last p"
    if "st_net_in s = p # ni" "rn = []" for p ni
  proof -
    show "lane 0 (bd_data p) \<in> set (headers True (st_net_all s))"
      unfolding net that(1) by (rule header_at) (use U that in simp)
    show "\<not> bd_last p" by (rule framed_header [of "st_update s" p ni]) (use that net framed U in simp_all)
  qed
  show ?thesis
  proof (cases rule: gt_step_cases [of "st_gt s" "st_net_in s" "st_trans s"])
    case wait
    then have "iterate_station s = s" by (simp add: iterate_station_def)
    with inv show ?thesis by simp
  next
    case (own p ni)
    with ph have e: "rn = []" "rt = []" "ro = []" by (simp_all add: phase_own_def)
    note h = net_header [OF own(1) e(1)]
    have "current_node_id (st_gt s) \<noteq> - 1" using h(1) known own(3) by metis
    then have o: "lane 0 (bd_data p) = d" using own(3) cur by (simp split: if_splits)
    show ?thesis
      by (rule st_invI [of _ T Pt "[]" Pn "[p]" Po "[]"])
        (use own(4) h(2) o e T U O cur co in \<open>simp_all add: iterate_station_def cut_snoc phase_own_def counts_ok_def own_single\<close>)
  next
    case (other p ni)
    with ph have e: "rn = []" "rt = []" "ro = []" by (simp_all add: phase_own_def)
    note h = net_header [OF other(1) e(1)]
    have o: "lane 0 (bd_data p) \<noteq> d" using causal h(1) cons cur other(3) by auto
    show ?thesis
      by (rule st_invI [of _ T Pt "[]" Pn "[p]" Po "[forward_beat p]"])
        (use other(4) h(2) o e T U O cur co in \<open>simp_all add: iterate_station_def cut_snoc phase_own_def counts_ok_def own_single\<close>)
  next
    case (send p rest)
    with ph have e: "rn = []" "rt = []" "ro = []" by (simp_all add: phase_own_def)
    have h: "lane 0 (bd_data p) \<in> set (headers True (st_trans_all s))"
      unfolding T(1) send(2) by (rule header_at) (use T e in simp)
    then have o: "lane 0 (bd_data p) = d" using ids by auto
    have nl: "\<not> bd_last p" by (rule framed_header [of T p rest]) (use send framed T e in simp_all)
    show ?thesis
      by (rule st_invI [of _ "T @ [p]" Pt "[p]" Pn "[]" Po "[p]"])
        (use send nl o e T U O co in \<open>simp_all add: iterate_station_def cut_snoc phase_own_def counts_ok_def own_single\<close>)
  next
    case (same_more p ni)
    with ph have e: "rn \<noteq> []" "rt = []" "ro = []" "own d rn" by (simp_all add: phase_own_def)
    show ?thesis
      by (cases "bd_last p";
          rule st_invI [of _ T Pt "[]" "if bd_last p then Pn @ [rn @ [p]] else Pn" "if bd_last p then [] else rn @ [p]" Po "[]"])
        (use same_more e T U O cur co in
          \<open>simp_all add: iterate_station_def cut_snoc phase_own_def counts_ok_def own_append forwarded_def\<close>)
  next
    case (other_more p ni)
    with ph have e: "rn \<noteq> []" "rt = []" "ro = map forward_beat rn" "\<not> own d rn" by (simp_all add: phase_own_def)
    show ?thesis
      by (cases "bd_last p";
          rule st_invI [of _ T Pt "[]" "if bd_last p then Pn @ [rn @ [p]] else Pn" "if bd_last p then [] else rn @ [p]"
            "if bd_last p then Po @ [map forward_beat (rn @ [p])] else Po" "if bd_last p then [] else map forward_beat (rn @ [p])"])
        (use other_more e T U O cur co in
          \<open>simp_all add: iterate_station_def cut_snoc phase_own_def counts_ok_def own_append forwarded_def\<close>)
  next
    case (send_more p rest)
    with ph have e: "rn = []" "rt \<noteq> []" "ro = rt" "own d rt" by (simp_all add: phase_own_def)
    then have "T \<noteq> []" using T(2) by auto
    then show ?thesis
      by (cases "bd_last p";
          intro st_invI [of _ "T @ [p]" "if bd_last p then Pt @ [rt @ [p]] else Pt" "if bd_last p then [] else rt @ [p]" Pn "[]"
            "if bd_last p then Po @ [rt @ [p]] else Po" "if bd_last p then [] else rt @ [p]"])
        (use send_more e T U O cur co in
          \<open>simp_all add: iterate_station_def cut_snoc phase_own_def counts_ok_def own_append forwarded_def\<close>)
  qed
qed

text \<open>What an iteration adds to \<open>net_out\<close>, and to the numbers in its headers.\<close>

lemma iterate_station_fields:
  "st_out (iterate_station s) = st_out s @ sent_beats s" "st_net_all (iterate_station s) = st_net_all s"
  "st_trans_all (iterate_station s) = st_trans_all s" "consumed s \<le> consumed (iterate_station s)"
  "st_net_all s = st_update s @ st_net_in s \<Longrightarrow>
     st_net_all (iterate_station s) = st_update (iterate_station s) @ st_net_in (iterate_station s)"
  by (cases rule: gt_step_cases [of "st_gt s" "st_net_in s" "st_trans s"];
      simp add: iterate_station_def sent_beats_def consumed_def)+

lemma st_inv_headers:
  assumes inv: "st_inv d s" and net: "st_net_all s = st_update s @ st_net_in s"
    and ids: "set (headers True (st_trans_all s)) \<subseteq> {d}"
  shows "set (headers True (st_out (iterate_station s))) \<subseteq>
    set (headers True (st_out s)) \<union> set (headers True (st_net_all s)) \<union> (if 0 < consumed (iterate_station s) then {d} else {})"
proof -
  from inv obtain T Pt rt Pn rn Po ro where
    T: "st_trans_all s = T @ st_trans s" "cut_packets [] T = (Pt, rt)"
    and U: "cut_packets [] (st_update s) = (Pn, rn)" and O: "cut_packets [] (st_out s) = (Po, ro)"
    and ph: "phase_own d (st_gt s) rn rt ro"
    unfolding st_inv_def by blast
  show ?thesis
  proof (cases rule: gt_step_cases [of "st_gt s" "st_net_in s" "st_trans s"])
    case (other p ni)
    with ph have e: "rn = []" "ro = []" by (simp_all add: phase_own_def)
    have "lane 0 (bd_data p) \<in> set (headers True (st_net_all s))"
      unfolding net other(1) by (rule header_at) (use U e in simp)
    with other(4) O e show ?thesis by (auto simp: iterate_station_def headers_snoc_cut forward_beat_def)
  next
    case (send p rest)
    with ph have e: "rt = []" "ro = []" by (simp_all add: phase_own_def)
    have "lane 0 (bd_data p) \<in> set (headers True (st_trans_all s))"
      unfolding T(1) send(2) by (rule header_at) (use T e in simp)
    moreover have "0 < consumed (iterate_station s)"
      using send T(1) by (simp add: iterate_station_def consumed_def)
    ultimately show ?thesis using send(5) O e ids by (auto simp: iterate_station_def headers_snoc_cut)
  next
    case (other_more p ni)
    with ph have "ro \<noteq> []" by (simp add: phase_own_def)
    with other_more O show ?thesis by (auto simp: iterate_station_def headers_snoc_cut)
  next
    case (send_more p rest)
    with ph have "ro \<noteq> []" by (auto simp: phase_own_def)
    with send_more O show ?thesis by (auto simp: iterate_station_def headers_snoc_cut)
  qed (auto simp: iterate_station_def)
qed

lemma st_inv_framed:
  assumes inv: "st_inv d s" and net: "st_net_all s = st_update s @ st_net_in s"
    and framed: "framed (st_net_all s)" "framed (st_trans_all s)"
  shows "framed (st_out s)"
proof -
  from inv obtain T Pt rt Pn rn Po ro where
    T: "st_trans_all s = T @ st_trans s" "cut_packets [] T = (Pt, rt)"
    and U: "cut_packets [] (st_update s) = (Pn, rn)" and O: "cut_packets [] (st_out s) = (Po, ro)"
    and co: "counts_ok d (st_gt s) Pt rt Pn rn Po"
    unfolding st_inv_def by blast
  have "\<forall>p \<in> set Pn. 2 \<le> length p" using framed_prefix [of "st_update s" "st_net_in s"] framed(1) net U by (simp add: framed_def)
  moreover have "\<forall>p \<in> set Pt. 2 \<le> length p" using framed_prefix [of T "st_trans s"] framed(2) T by (simp add: framed_def)
  moreover have "set_mset (mset Po) = set_mset (mset Pt + mset (forwarded d Pn))" using co by (simp add: counts_ok_def)
  then have "set Po = set Pt \<union> set (forwarded d Pn)" by simp
  ultimately show ?thesis using O by (auto simp: framed_def forwarded_def)
qed

section \<open>The invariant of the network\<close>

text \<open>
  The streams of \<open>readProp\<close>: packets of at least two beats, with the node's number in the
  header.
\<close>

definition sources_ok :: "nat \<Rightarrow> (nat \<Rightarrow> u32) \<Rightarrow> net \<Rightarrow> bool" where
  "sources_ok n ids net \<longleftrightarrow> (\<forall>i<n. framed (st_trans_all (net i)) \<and> set (headers True (st_trans_all (net i))) \<subseteq> {ids i})"

definition net_inv :: "nat \<Rightarrow> (nat \<Rightarrow> u32) \<Rightarrow> net \<Rightarrow> bool" where
  "net_inv n ids net \<longleftrightarrow> (\<forall>i<n. st_net_all (net i) = st_update (net i) @ st_net_in (net i) \<and>
     st_net_all (net (next_node n i)) = st_out (net i) \<and> st_inv (ids i) (net i) \<and> framed (st_out (net i)) \<and>
     (\<forall>h \<in> set (headers True (st_out (net i))). \<exists>j<n. h = ids j \<and> 0 < consumed (net j)))"

lemma next_node_less: "i < n \<Longrightarrow> next_node n i < n"
  by (simp add: next_node_def)

lemma next_node_inj: "i < n \<Longrightarrow> j < n \<Longrightarrow> next_node n i = next_node n j \<longleftrightarrow> i = j"
  by (auto simp: next_node_def split: if_splits)

lemma next_node_surj: "k < n \<Longrightarrow> \<exists>i<n. next_node n i = k"
  by (cases k) (auto simp: next_node_def intro: exI [of _ "n - 1"])

lemma deliver_fields [simp]:
  "st_out (deliver bs s) = st_out s" "st_update (deliver bs s) = st_update s" "st_trans_all (deliver bs s) = st_trans_all s"
  "st_net_in (deliver bs s) = st_net_in s @ bs" "st_net_all (deliver bs s) = st_net_all s @ bs"
  "consumed (deliver bs s) = consumed s" "st_inv d (deliver bs s) = st_inv d s" "st_gt (deliver bs s) = st_gt s"
  "st_trans (deliver bs s) = st_trans s"
  by (simp_all add: deliver_def consumed_def st_inv_def)

lemma iterate_node_at:
  "iterate_node n i net j = (let t = (if j = i then iterate_station (net i) else net j)
     in if j = next_node n i then deliver (sent_beats (net i)) t else t)"
  by (auto simp: iterate_node_def Let_def)

lemma net_inv_iterate:
  assumes inv: "net_inv n ids net" and src: "sources_ok n ids net" and ids: "\<forall>i<n. ids i \<noteq> - 1" "inj_on ids {..<n}" and i: "i < n"
  shows "net_inv n ids (iterate_node n i net)"
proof -
  let ?s = "net i" and ?net = "iterate_node n i net"
  obtain k where k: "k < n" "next_node n k = i" using next_node_surj [OF i] by blast
  have I: "st_net_all (net j) = st_update (net j) @ st_net_in (net j)" "st_net_all (net (next_node n j)) = st_out (net j)"
    "st_inv (ids j) (net j)" "framed (st_out (net j))"
    "\<forall>h \<in> set (headers True (st_out (net j))). \<exists>j<n. h = ids j \<and> 0 < consumed (net j)" if "j < n" for j
    using inv that by (simp_all add: net_inv_def)
  have S: "framed (st_trans_all ?s)" "set (headers True (st_trans_all ?s)) \<subseteq> {ids i}" using src i by (simp_all add: sources_ok_def)
  have net_all: "st_net_all ?s = st_out (net k)" using I(2) [OF k(1)] k(2) by simp
  have fr: "framed (st_net_all ?s)" unfolding net_all by (rule I(4) [OF k(1)])
  have hd: "\<exists>j<n. h = ids j \<and> 0 < consumed (net j)" if "h \<in> set (headers True (st_net_all ?s))" for h
    using I(5) [OF k(1)] that unfolding net_all by blast
  have "st_inv (ids i) (iterate_station ?s)"
  proof (rule st_inv_iterate [OF I(3,1) _ fr S])
    show "- 1 \<notin> set (headers True (st_net_all ?s))" using hd ids(1) by metis
    show "ids i \<in> set (headers True (st_net_all ?s)) \<Longrightarrow> 0 < consumed ?s"
      using hd [of "ids i"] ids(2) i by (auto simp: inj_on_def)
  qed (use i ids(1) in auto)
  moreover note st_inv_framed [OF this iterate_station_fields(5) [OF I(1) [OF i]]]
  ultimately have new: "st_inv (ids i) (iterate_station ?s)" "framed (st_out (iterate_station ?s))"
    using fr S(1) by (simp_all add: iterate_station_fields)
  have cons: "consumed (net j) \<le> consumed (?net j)" "j = i \<Longrightarrow> consumed (?net j) = consumed (iterate_station ?s)" for j
    using iterate_station_fields(4) [of ?s] by (auto simp: iterate_node_at Let_def)
  have out: "st_out (?net j) = (if j = i then st_out (iterate_station ?s) else st_out (net j))" for j
    by (simp add: iterate_node_at Let_def)
  have heads: "\<exists>j<n. h = ids j \<and> 0 < consumed (?net j)" if "h \<in> set (headers True (st_out (?net j)))" "j < n" for h j
  proof -
    have old: "\<exists>j<n. h = ids j \<and> 0 < consumed (net j) \<Longrightarrow> \<exists>j<n. h = ids j \<and> 0 < consumed (?net j)"
    proof -
      assume "\<exists>j<n. h = ids j \<and> 0 < consumed (net j)"
      then obtain j where "j < n" "h = ids j" "0 < consumed (net j)" by blast
      with cons(1) [of j] show "\<exists>j<n. h = ids j \<and> 0 < consumed (?net j)" by (intro exI [of _ j]) simp
    qed
    show ?thesis
    proof (cases "j = i")
      case True
      with that(1) st_inv_headers [OF I(3) [OF i] I(1) [OF i] S(2)] out
      have "h \<in> set (headers True (st_out ?s)) \<or> h \<in> set (headers True (st_net_all ?s)) \<or> (h = ids i \<and> 0 < consumed (iterate_station ?s))"
        by (auto split: if_splits)
      then show ?thesis using old I(5) [OF i] hd cons(2) [of i] i by metis
    next
      case False
      then show ?thesis using that I(5) [OF that(2)] old out by simp
    qed
  qed
  show ?thesis
    unfolding net_inv_def
  proof (intro allI impI conjI)
    fix j assume j: "j < n"
    show "st_net_all (?net j) = st_update (?net j) @ st_net_in (?net j)"
      using I(1) [OF j] iterate_station_fields(5) [OF I(1) [OF i]] by (auto simp: iterate_node_at Let_def)
    show "st_net_all (?net (next_node n j)) = st_out (?net j)"
    proof (cases "j = i")
      case True
      then show ?thesis using I(2) [OF i] by (auto simp: iterate_node_at Let_def iterate_station_fields)
    next
      case False
      then have "next_node n j \<noteq> next_node n i" using next_node_inj [OF j i] by simp
      then show ?thesis using I(2) [OF j] False by (auto simp: iterate_node_at Let_def iterate_station_fields)
    qed
    show "st_inv (ids j) (?net j)" using I(3) [OF j] new(1) by (auto simp: iterate_node_at Let_def)
    show "framed (st_out (?net j))" using I(4) [OF j] new(2) out by simp
    show "\<forall>h \<in> set (headers True (st_out (?net j))). \<exists>j<n. h = ids j \<and> 0 < consumed (?net j)" using heads j by blast
  qed
qed

lemma net_inv_read:
  assumes inv: "net_inv n ids net" and i: "i < n"
  shows "net_inv n ids (net(i := (net i)\<lparr>st_trans := st_trans (net i) @ [x], st_trans_all := st_trans_all (net i) @ [x]\<rparr>))"
proof -
  let ?s = "(net i)\<lparr>st_trans := st_trans (net i) @ [x], st_trans_all := st_trans_all (net i) @ [x]\<rparr>"
  let ?net = "net(i := ?s)"
  have "consumed ?s = consumed (net i)"
  proof -
    obtain T where "st_trans_all (net i) = T @ st_trans (net i)"
      using inv i unfolding net_inv_def st_inv_def by blast
    then show ?thesis by (simp add: consumed_def)
  qed
  then have c: "consumed (?net j) = consumed (net j)" for j by simp
  have "st_inv (ids i) ?s"
  proof -
    have "st_inv (ids i) (net i)" using inv i by (simp add: net_inv_def)
    then obtain T Pt rt Pn rn Po ro where "st_trans_all (net i) = T @ st_trans (net i)" "cut_packets [] T = (Pt, rt)"
      "cut_packets [] (st_update (net i)) = (Pn, rn)" "cut_packets [] (st_out (net i)) = (Po, ro)"
      "current_node_id (st_gt (net i)) = (if T = [] then - 1 else ids i)"
      "phase_own (ids i) (st_gt (net i)) rn rt ro" "counts_ok (ids i) (st_gt (net i)) Pt rt Pn rn Po"
      unfolding st_inv_def by blast
    then show ?thesis by (intro st_invI [of _ T Pt rt Pn rn Po ro]) simp_all
  qed
  moreover have "st_out (?net j) = st_out (net j)" "st_net_all (?net j) = st_net_all (net j)"
    "st_update (?net j) = st_update (net j)" "st_net_in (?net j) = st_net_in (net j)" for j
    by simp_all
  ultimately show ?thesis using inv unfolding net_inv_def c by simp
qed

lemma sources_ok_step:
  assumes "net_step n net net'" "sources_ok n ids net'"
  shows "sources_ok n ids net"
  using assms(1)
proof cases
  case (node_iterates i)
  have "st_trans_all (net' j) = st_trans_all (net j)" for j
    by (simp add: node_iterates(1) iterate_node_at Let_def iterate_station_fields)
  with assms(2) show ?thesis by (simp add: sources_ok_def)
next
  case (node_reads i x)
  have "\<exists>ys. st_trans_all (net' j) = st_trans_all (net j) @ ys" for j
    by (simp add: node_reads(1))
  then show ?thesis
    using assms(2) framed_prefix headers_prefix unfolding sources_ok_def by (metis subset_trans)
qed

lemma net_inv_reach:
  assumes "net_reach n net" "sources_ok n ids net" "\<forall>i<n. ids i \<noteq> - 1" "inj_on ids {..<n}"
  shows "net_inv n ids net"
  using assms(1,2) unfolding net_reach_def
proof (induction rule: rtranclp_induct)
  case base
  have "st_inv d station_init" for d
    by (rule st_invI [of _ "[]" "[]" "[]" "[]" "[]" "[]" "[]"])
      (simp_all add: station_init_def gt_init_def phase_own_def counts_ok_def forwarded_def)
  then show ?case by (simp add: net_inv_def station_init_def framed_def)
next
  case (step net net')
  from step.IH [OF sources_ok_step [OF step.hyps(2) step.prems]] have inv: "net_inv n ids net" .
  from step.hyps(2) show ?case
  proof cases
    case (node_iterates i)
    with net_inv_iterate [OF inv sources_ok_step [OF step.hyps(2) step.prems] assms(3,4)] show ?thesis by simp
  next
    case (node_reads i x)
    with net_inv_read [OF inv node_reads(2)] show ?thesis by (simp only:)
  qed
qed

section \<open>Every node gets every packet once\<close>

text \<open>
  The ring is at rest when all FIFOs are empty and every station is between packets.
\<close>

definition at_rest :: "nat \<Rightarrow> net \<Rightarrow> bool" where
  "at_rest n net \<longleftrightarrow> (\<forall>i<n. st_net_in (net i) = [] \<and> st_trans (net i) = [] \<and> currentState (st_gt (net i)) = firstFrame)"

text \<open>The ring is quiet when nothing is under way, though nodes may have more to send.\<close>

definition quiet :: "nat \<Rightarrow> net \<Rightarrow> bool" where
  "quiet n net \<longleftrightarrow> (\<forall>i<n. st_net_in (net i) = [] \<and> currentState (st_gt (net i)) = firstFrame)"

definition sent_packets :: "station \<Rightarrow> burst_dest list list" where
  "sent_packets s = fst (cut_packets [] (take (consumed s) (st_trans_all s)))"

definition node_packets :: "station \<Rightarrow> burst_dest list list" where
  "node_packets s = fst (cut_packets [] (st_trans_all s))"

definition got_packets :: "station \<Rightarrow> burst_dest list list" where
  "got_packets s = fst (cut_packets [] (st_update s))"

text \<open>The side channels \<open>keep\<close> and \<open>dest\<close> change on the way.\<close>

definition as_sent :: "burst_dest list list \<Rightarrow> burst_dest list multiset" where
  "as_sent ps = mset (map (map forward_beat) ps)"

lemma own_forward: "own d (map forward_beat p) = own d p" if "p \<noteq> []"
  using that by (cases p) (simp_all add: own_def packet_id_def forward_beat_def)

lemma forward_twice [simp]: "map forward_beat (map forward_beat p) = map forward_beat p"
  by (simp add: forward_beat_def)

lemma framed_nonempty: "framed bs \<Longrightarrow> p \<in> set (fst (cut_packets [] bs)) \<Longrightarrow> p \<noteq> []"
  by (auto simp: framed_def)

lemma cut_headers: "headers True bs = map packet_id (fst (cut_packets [] bs)) @
    (if snd (cut_packets [] bs) = [] then [] else [packet_id (snd (cut_packets [] bs))])"
proof (induction bs rule: rev_induct)
  case (snoc b bs)
  with cut_empty_iff [of bs] show ?case
    by (auto simp: headers_snoc cut_snoc packet_id_append packet_id_def split: prod.splits)
qed simp

lemma quiet_station:
  assumes "net_inv n ids net" "quiet n net" "i < n"
  shows "mset (got_packets (net (next_node n i))) =
      mset (sent_packets (net i)) + mset (forwarded (ids i) (got_packets (net i)))"
    and "\<forall>p \<in> set (got_packets (net i)). p \<noteq> [] \<and> (\<exists>j<n. own (ids j) p)"
proof -
  have r: "st_net_in (net j) = []" "currentState (st_gt (net j)) = firstFrame" if "j < n" for j
    using assms(2) that by (simp_all add: quiet_def)
  have I: "st_net_all (net j) = st_update (net j)" "st_net_all (net (next_node n j)) = st_out (net j)"
    "st_inv (ids j) (net j)" "framed (st_out (net j))" if "j < n" for j
    using assms(1) that r(1) [OF that] by (simp_all add: net_inv_def)
  have I5: "\<exists>k<n. h = ids k" if "h \<in> set (headers True (st_out (net j)))" "j < n" for h j
    using assms(1) that unfolding net_inv_def by blast
  have next_got: "got_packets (net (next_node n j)) = fst (cut_packets [] (st_out (net j)))" if "j < n" for j
    using I(1) [OF next_node_less [OF that]] I(2) [OF that] by (simp add: got_packets_def)
  from I(3) [OF assms(3)] r(2) [OF assms(3)] obtain T Pt Pn Po ro where
    "st_trans_all (net i) = T @ st_trans (net i)" "cut_packets [] T = (Pt, [])" "cut_packets [] (st_update (net i)) = (Pn, [])"
    "cut_packets [] (st_out (net i)) = (Po, ro)" "mset Po = mset Pt + mset (forwarded (ids i) Pn)"
    unfolding st_inv_def by (auto simp: phase_own_def counts_ok_def)
  moreover from this(1) have "take (consumed (net i)) (st_trans_all (net i)) = T" by (simp add: consumed_def)
  ultimately show "mset (got_packets (net (next_node n i))) =
      mset (sent_packets (net i)) + mset (forwarded (ids i) (got_packets (net i)))"
    unfolding next_got [OF assms(3)] by (simp add: sent_packets_def got_packets_def)
  obtain k where k: "k < n" "next_node n k = i" using next_node_surj [OF assms(3)] by blast
  show "\<forall>p \<in> set (got_packets (net i)). p \<noteq> [] \<and> (\<exists>j<n. own (ids j) p)"
  proof
    fix p assume "p \<in> set (got_packets (net i))"
    then have p: "p \<in> set (fst (cut_packets [] (st_out (net k))))" using next_got [OF k(1)] k(2) by simp
    then have "packet_id p \<in> set (headers True (st_out (net k)))" by (simp add: cut_headers)
    then show "p \<noteq> [] \<and> (\<exists>j<n. own (ids j) p)"
      using I5 [OF _ k(1)] framed_nonempty [OF I(4) [OF k(1)] p] unfolding own_def by blast
  qed
qed

lemma mset_by_owner:
  fixes ids :: "nat \<Rightarrow> u32"
  assumes "inj_on ids {..<n}" "\<forall>p \<in> set ps. \<exists>j<n. own (ids j) p"
  shows "mset (map f ps) = (\<Sum>j<n. mset (map f (filter (own (ids j)) ps)))"
  using assms(2)
proof (induction ps)
  case (Cons p ps)
  then obtain j where j: "j < n" "own (ids j) p" by auto
  then have o: "own (ids k) p \<longleftrightarrow> k = j" if "k < n" for k
    using assms(1) that by (auto simp: own_def inj_on_def)
  have "(\<Sum>k<n. mset (map f (filter (own (ids k)) (p # ps)))) =
      (\<Sum>k<n. (if k = j then {#f p#} else {#}) + mset (map f (filter (own (ids k)) ps)))"
    by (rule sum.cong) (auto simp: o)
  also have "\<dots> = {#f p#} + mset (map f ps)"
  proof -
    have "(\<Sum>k<n. if k = j then {#f p#} else {#}) = {#f p#}" using j(1) by (subst sum.delta) simp_all
    then show ?thesis using Cons by (simp add: sum.distrib)
  qed
  finally show ?case by simp
qed simp

text \<open>The packets of node \<open>j\<close> among those that node \<open>i\<close> got.\<close>

definition from_node :: "(nat \<Rightarrow> u32) \<Rightarrow> nat \<Rightarrow> station \<Rightarrow> burst_dest list multiset" where
  "from_node ids j s = as_sent (filter (own (ids j)) (got_packets s))"

lemma taken_source: "xs = take k xs @ drop k xs" by simp

lemma sent_own:
  assumes "sources_ok n ids net" "i < n" "p \<in> set (sent_packets (net i))"
  shows "own (ids i) p"
proof -
  have "packet_id p \<in> set (headers True (take (consumed (net i)) (st_trans_all (net i))))"
    using assms(3) by (simp add: cut_headers sent_packets_def)
  also have "\<dots> \<subseteq> set (headers True (st_trans_all (net i)))"
    by (subst (3) taken_source [of _ "consumed (net i)"]) (rule headers_prefix)
  also have "\<dots> \<subseteq> {ids i}" using assms(1,2) by (simp add: sources_ok_def)
  finally show ?thesis by (simp add: own_def)
qed

lemma from_node_next:
  assumes "net_inv n ids net" "sources_ok n ids net" "quiet n net" "inj_on ids {..<n}" "i < n" "j < n"
  shows "from_node ids j (net (next_node n i)) = (if j = i then as_sent (sent_packets (net i)) else from_node ids j (net i))"
proof -
  have own_i: "own (ids i) p" if "p \<in> set (sent_packets (net i))" for p
    by (rule sent_own [OF assms(2,5) that])
  have ne: "p \<noteq> []" if "p \<in> set (got_packets (net i))" for p
    using quiet_station(2) [OF assms(1,3,5)] that by blast
  have f: "filter (own (ids j)) (forwarded (ids i) ps) =
      (if j = i then [] else map (map forward_beat) (filter (own (ids j)) ps))" if "\<forall>p \<in> set ps. p \<noteq> []" for ps
  proof (cases "j = i")
    case True
    with that show ?thesis by (auto simp: forwarded_def filter_empty_conv own_forward)
  next
    case False
    then have "ids j \<noteq> ids i" using assms(4-6) by (auto simp: inj_on_def)
    then have "\<not> own (ids i) p" if "own (ids j) p" for p using that by (simp add: own_def)
    with that False show ?thesis
      by (induction ps) (auto simp: forwarded_def own_forward)
  qed
  have m: "as_sent (filter P ps) = image_mset (map forward_beat) (filter_mset P (mset ps))" for P ps
    by (simp add: as_sent_def mset_filter)
  have "from_node ids j (net (next_node n i)) =
      as_sent (filter (own (ids j)) (sent_packets (net i))) + as_sent (filter (own (ids j)) (forwarded (ids i) (got_packets (net i))))"
    unfolding from_node_def m quiet_station(1) [OF assms(1,3,5)] by simp
  moreover have "filter (own (ids j)) (sent_packets (net i)) = (if j = i then sent_packets (net i) else [])"
    using own_i assms(4-6) by (auto simp: filter_empty_conv own_def inj_on_def intro!: filter_True)
  moreover have twice: "as_sent (map (map forward_beat) ps) = as_sent ps" for ps
    by (simp add: as_sent_def multiset.map_comp comp_def del: map_map)
  have "filter (own (ids j)) (forwarded (ids i) (got_packets (net i))) =
      (if j = i then [] else map (map forward_beat) (filter (own (ids j)) (got_packets (net i))))"
    by (rule f) (use ne in blast)
  ultimately show ?thesis
    unfolding from_node_def by (simp add: twice [unfolded as_sent_def] as_sent_def del: map_map mset_map)
qed

lemma next_node_mod: "i < n \<Longrightarrow> next_node n i = (i + 1) mod n"
  by (auto simp: next_node_def)

lemma from_node_all:
  assumes "net_inv n ids net" "sources_ok n ids net" "quiet n net" "inj_on ids {..<n}" "i < n" "j < n"
  shows "from_node ids j (net i) = as_sent (sent_packets (net j))"
proof -
  have "0 < m \<Longrightarrow> m \<le> n \<Longrightarrow> from_node ids j (net ((j + m) mod n)) = as_sent (sent_packets (net j))" for m
  proof (induction m)
    case (Suc m)
    have l: "(j + m) mod n < n" using assms(6) by simp
    have nx: "next_node n ((j + m) mod n) = (j + Suc m) mod n"
      unfolding next_node_mod [OF l] by (simp add: mod_Suc_eq)
    show ?case
    proof (cases "m = 0")
      case True
      with from_node_next [OF assms(1-4) assms(6,6)] nx assms(6) show ?thesis by simp
    next
      case False
      have "(j + m) mod n \<noteq> j"
      proof (cases "j + m < n")
        case True
        then show ?thesis using False by simp
      next
        case F: False
        then have "(j + m) mod n = j + m - n" using Suc.prems(2) assms(6) by (simp add: mod_if)
        then show ?thesis using F Suc.prems(2) by linarith
      qed
      with from_node_next [OF assms(1-4) l assms(6)] nx Suc False show ?thesis by simp
    qed
  qed simp
  moreover obtain m where "0 < m" "m \<le> n" "(j + m) mod n = i"
  proof (cases "j < i")
    case True
    then show ?thesis using that [of "i - j"] assms(5) by simp
  next
    case False
    then have "j + (n + i - j) = n + i" using assms(6) by simp
    then show ?thesis using that [of "n + i - j"] assms(5,6) False by simp
  qed
  ultimately show ?thesis by blast
qed

text \<open>When the ring is at rest, every node has every packet of every node exactly once.\<close>

lemma ring_delivers:
  assumes "net_reach n net" "sources_ok n ids net" "\<forall>i<n. ids i \<noteq> - 1" "inj_on ids {..<n}" "at_rest n net" "i < n"
  shows "as_sent (got_packets (net i)) = (\<Sum>j<n. as_sent (node_packets (net j)))"
proof -
  note inv = net_inv_reach [OF assms(1-4)]
  have quiet: "quiet n net" using assms(5) by (simp add: at_rest_def quiet_def)
  have all: "sent_packets (net j) = node_packets (net j)" if "j < n" for j
    using assms(5) that by (simp add: at_rest_def sent_packets_def node_packets_def consumed_def)
  have "as_sent (got_packets (net i)) = (\<Sum>j<n. from_node ids j (net i))"
    unfolding as_sent_def from_node_def
    by (rule mset_by_owner [OF assms(4)]) (use quiet_station(2) [OF inv quiet assms(6)] in blast)
  also have "\<dots> = (\<Sum>j<n. as_sent (node_packets (net j)))"
    by (rule sum.cong) (use from_node_all [OF inv assms(2) quiet assms(4,6)] all in auto)
  finally show ?thesis .
qed

section \<open>The ring comes to rest\<close>

text \<open>
  A ring in which no iteration does anything, and in which every node's \<open>readProp\<close> ended with
  a whole packet, is at rest: no window stays full, and no packet stays open.
\<close>

definition stuck :: "nat \<Rightarrow> net \<Rightarrow> bool" where
  "stuck n net \<longleftrightarrow> (\<forall>i<n. iterate_station (net i) = net i)"

definition sources_end :: "nat \<Rightarrow> net \<Rightarrow> bool" where
  "sources_end n net \<longleftrightarrow> (\<forall>i<n. snd (cut_packets [] (st_trans_all (net i))) = [])"

lemma stuck_station:
  assumes "iterate_station s = s"
  shows "st_net_in s = [] \<or> currentState (st_gt s) = onlySend"
    and "currentState (st_gt s) = onlySend \<Longrightarrow> st_trans s = []"
    and "currentState (st_gt s) = firstFrame \<Longrightarrow> st_trans s = [] \<or> FIFO_len \<le> write_read_num (st_gt s)"
proof -
  have f: "st_update (iterate_station s) = st_update s" "st_out (iterate_station s) = st_out s" using assms by simp_all
  have e: "u = [] \<and> v = []"
    if "globalTrans_step (st_gt s) (st_net_in s) (st_trans s) = (g, ni, vt, u, v)" for g ni vt u v
    using that f by (simp add: iterate_station_def)
  show "st_net_in s = [] \<or> currentState (st_gt s) = onlySend"
    using e by (cases "st_net_in s"; cases "currentState (st_gt s)") (fastforce simp: globalTrans_step_def split: if_splits)+
  show "currentState (st_gt s) = onlySend \<Longrightarrow> st_trans s = []"
    using e by (cases "st_trans s") (fastforce simp: globalTrans_step_def)+
  show "currentState (st_gt s) = firstFrame \<Longrightarrow> st_trans s = [] \<or> FIFO_len \<le> write_read_num (st_gt s)"
    using e by (cases "st_trans s"; cases "st_net_in s") (fastforce simp: globalTrans_step_def not_less split: if_splits)+
qed

lemma count_own: "mset (map f ps) = mset (map f qs) \<Longrightarrow> length ps = length qs"
  by (metis length_map mset_eq_length)

lemma around_ring:
  assumes "\<And>k. k < n \<Longrightarrow> P (next_node n k) \<Longrightarrow> P k" "i < n" "P i" "j < n"
  shows "P j"
proof -
  have down: "P (k - m)" if "P k" "k < n" for k m
  proof (induction m)
    case (Suc m)
    show ?case
    proof (cases "k - m = 0")
      case False
      then have "k - m = Suc (k - Suc m)" by simp
      then have "next_node n (k - Suc m) = k - m" using that(2) by (simp add: next_node_def)
      then show ?thesis using assms(1) [of "k - Suc m"] Suc that(2) by simp
    qed (use Suc in simp)
  qed (use that in simp)
  have "P 0" using down [OF assms(3,2), of i] by simp
  then have "P (n - 1)" using assms(1) [of "n - 1"] assms(2) by (simp add: next_node_def)
  from down [OF this, of "n - 1 - j"] assms(4) show ?thesis by simp
qed

lemma stuck_quiet:
  assumes inv: "net_inv n ids net" and stuck: "stuck n net" and ends: "sources_end n net"
  shows "quiet n net"
proof -
  have I: "st_net_all (net j) = st_update (net j) @ st_net_in (net j)" "st_net_all (net (next_node n j)) = st_out (net j)"
    "st_inv (ids j) (net j)" if "j < n" for j
    using inv that by (simp_all add: net_inv_def)
  have I5: "\<exists>k<n. h = ids k" if "h \<in> set (headers True (st_out (net j)))" "j < n" for h j
    using inv that unfolding net_inv_def by blast
  have st: "iterate_station (net j) = net j" if "j < n" for j using stuck that by (simp add: stuck_def)
  have no_send: "currentState (st_gt (net j)) \<noteq> onlySend" if j: "j < n" for j
  proof
    assume s: "currentState (st_gt (net j)) = onlySend"
    from I(3) [OF j] s stuck_station(2) [OF st [OF j] s]
    have "snd (cut_packets [] (st_trans_all (net j))) \<noteq> []" by (auto simp: st_inv_def phase_own_def)
    with ends j show False by (simp add: sources_end_def)
  qed
  have got: "st_update (net (next_node n j)) = st_out (net j)" if "j < n" for j
    using I(1) [OF next_node_less [OF that]] I(2) [OF that] stuck_station(1) [OF st [OF next_node_less [OF that]]]
      no_send [OF next_node_less [OF that]] by auto
  let ?open = "\<lambda>j. snd (cut_packets [] (st_update (net j)))"
  have open_out: "snd (cut_packets [] (st_out (net j))) \<noteq> [] \<Longrightarrow>
      snd (cut_packets [] (st_out (net j))) = map forward_beat (?open j) \<and> ?open j \<noteq> [] \<and> \<not> own (ids j) (?open j)" if "j < n" for j
    using I(3) [OF that] no_send [OF that]
    by (cases "currentState (st_gt (net j))") (auto simp: st_inv_def phase_own_def)
  have closed: "?open i = []" if i: "i < n" for i
  proof (rule ccontr)
    assume o: "?open i \<noteq> []"
    define h where "h = packet_id (?open i)"
    let ?P = "\<lambda>j. ?open j \<noteq> [] \<and> packet_id (?open j) = h"
    have prior: "?P k \<and> \<not> own (ids k) (?open k)" if "k < n" "?P (next_node n k)" for k
      using open_out [OF that(1)] that(2) got [OF that(1)] own_forward [of "?open k" h] by (auto simp: own_def)
    have all: "?P j \<and> \<not> own (ids j) (?open j)" if "j < n" for j
    proof (rule prior [OF that])
      show "?P (next_node n j)"
        by (rule around_ring [of n ?P i]) (use prior o i h_def next_node_less [OF that] in auto)
    qed
    have "\<exists>k<n. h = ids k"
    proof (rule I5 [OF _ i])
      have "snd (cut_packets [] (st_out (net i))) \<noteq> []" using all [OF next_node_less [OF i]] got [OF i] by simp
      moreover have "packet_id (snd (cut_packets [] (st_out (net i)))) = h" using all [OF next_node_less [OF i]] got [OF i] by simp
      ultimately show "h \<in> set (headers True (st_out (net i)))" by (simp add: cut_headers)
    qed
    with all show False by (auto simp: own_def)
  qed
  have "st_net_in (net j) = [] \<and> currentState (st_gt (net j)) = firstFrame" if "j < n" for j
    using I(3) [OF that] closed [OF that] stuck_station(1) [OF st [OF that]] no_send [OF that]
    by (cases "currentState (st_gt (net j))") (auto simp: st_inv_def phase_own_def)
  then show ?thesis by (simp add: quiet_def)
qed

lemma stuck_at_rest:
  assumes inv: "net_inv n ids net" and src: "sources_ok n ids net" and ids: "inj_on ids {..<n}"
    and stuck: "stuck n net" and ends: "sources_end n net"
  shows "at_rest n net"
proof -
  note quiet = stuck_quiet [OF inv stuck ends]
  have "st_trans (net i) = []" if i: "i < n" for i
  proof (rule ccontr)
    assume t: "st_trans (net i) \<noteq> []"
    from quiet i have ff: "currentState (st_gt (net i)) = firstFrame" by (simp add: quiet_def)
    have "FIFO_len \<le> write_read_num (st_gt (net i))"
      using stuck_station(3) [of "net i"] t ff stuck i by (auto simp: stuck_def)
    moreover have "write_read_num (st_gt (net i)) = 0"
    proof -
      from inv i have "st_inv (ids i) (net i)" by (simp add: net_inv_def)
      with ff obtain T Pt Pn where T: "st_trans_all (net i) = T @ st_trans (net i)" "cut_packets [] T = (Pt, [])"
        "cut_packets [] (st_update (net i)) = (Pn, [])"
        "write_read_num (st_gt (net i)) = int (length Pt) - int (length (filter (own (ids i)) Pn))"
        unfolding st_inv_def by (auto simp: phase_own_def counts_ok_def)
      have "take (consumed (net i)) (st_trans_all (net i)) = T" using T(1) by (simp add: consumed_def)
      with from_node_all [OF inv src quiet ids i i] T have
        "as_sent (filter (own (ids i)) Pn) = as_sent Pt" by (simp add: from_node_def got_packets_def sent_packets_def)
      then have "length (filter (own (ids i)) Pn) = length Pt" unfolding as_sent_def by (rule count_own)
      with T(4) show ?thesis by simp
    qed
    ultimately show False by (simp add: FIFO_len_def)
  qed
  with quiet show ?thesis by (simp add: at_rest_def quiet_def)
qed

section \<open>How long that takes\<close>

text \<open>
  \<open>weight h\<close> counts the beats of a stream that belong to packets of number \<open>h\<close>.
\<close>

definition packet_weight :: "u32 \<Rightarrow> burst_dest list list \<Rightarrow> nat" where
  "packet_weight h ps = (\<Sum>p\<leftarrow>ps. if own h p then length p else 0)"

definition pieces :: "burst_dest list \<Rightarrow> burst_dest list list" where
  "pieces bs = (case cut_packets [] bs of (ps, r) \<Rightarrow> ps @ [r])"

definition weight :: "u32 \<Rightarrow> burst_dest list \<Rightarrow> nat" where
  "weight h bs = packet_weight h (pieces bs)"

lemma packet_weight_append [simp]: "packet_weight h (ps @ qs) = packet_weight h ps + packet_weight h qs"
  by (simp add: packet_weight_def)

lemma packet_weight_mset: "mset ps = mset qs \<Longrightarrow> packet_weight h ps = packet_weight h qs"
proof -
  assume e: "mset ps = mset qs"
  let ?f = "\<lambda>p. if own h p then length p else 0"
  have "packet_weight h xs = sum_mset (image_mset ?f (mset xs))" for xs
    unfolding packet_weight_def mset_map [symmetric] by (rule sum_mset_sum_list [symmetric])
  with e show ?thesis by simp
qed

lemma packet_weight_le: "packet_weight h ps \<le> length (concat ps)"
  by (induction ps) (auto simp: packet_weight_def)

lemma packet_weight_none: "\<forall>p \<in> set ps. p \<noteq> [] \<longrightarrow> \<not> own h p \<Longrightarrow> packet_weight h ps = 0"
  by (induction ps) (auto simp: packet_weight_def)

lemma packet_weight_Cons [simp]:
  "packet_weight h [] = 0" "packet_weight h (p # ps) = (if own h p then length p else 0) + packet_weight h ps"
  by (simp_all add: packet_weight_def)

lemma packet_weight_forwarded:
  "packet_weight h (forwarded d ps) = (if h = d then 0 else packet_weight h ps)"
proof (induction ps)
  case (Cons p ps)
  have "own h p \<Longrightarrow> own d p \<Longrightarrow> h = d" by (simp add: own_def)
  moreover have "forwarded d (p # ps) = (if own d p then [] else [map forward_beat p]) @ forwarded d ps"
    by (simp add: forwarded_def)
  ultimately show ?case
    using Cons own_forward [of p h] by (cases "p = []"; cases "own h p"; cases "own d p") auto
qed (simp add: forwarded_def)

lemma weight_snoc: "weight h xs \<le> weight h (xs @ [b])"
proof (cases "cut_packets [] xs")
  case (Pair ps r)
  then show ?thesis by (cases "r = []") (simp_all add: weight_def pieces_def cut_snoc own_append)
qed

lemma weight_prefix: "weight h xs \<le> weight h (xs @ ys)"
proof (induction ys rule: rev_induct)
  case (snoc y ys)
  then show ?case using weight_snoc [of h "xs @ ys" y] by simp
qed simp

lemma weight_length:
  assumes "\<forall>h \<in> set (headers True bs). \<exists>j<n. h = ids j"
  shows "length bs \<le> (\<Sum>j<(n::nat). weight (ids j) bs)"
proof -
  have l: "length (concat ps) \<le> (\<Sum>j<n. packet_weight (ids j) ps)"
    if "\<forall>p \<in> set ps. p \<noteq> [] \<longrightarrow> (\<exists>j<n. own (ids j) p)" for ps
    using that
  proof (induction ps)
    case (Cons p ps)
    have "length p \<le> (\<Sum>j<n. if own (ids j) p then length p else 0)"
    proof (cases "p = []")
      case False
      then obtain j where "j < n" "own (ids j) p" using Cons.prems by auto
      then show ?thesis
        using member_le_sum [of j "{..<n}" "\<lambda>j. if own (ids j) p then length p else 0"] by simp
    qed simp
    with Cons show ?case by (simp add: packet_weight_def sum.distrib)
  qed simp
  have "concat (pieces bs) = bs"
    using cut_packets_concat [of "[]" bs] by (auto simp: pieces_def split: prod.splits)
  moreover have "\<forall>p \<in> set (pieces bs). p \<noteq> [] \<longrightarrow> (\<exists>j<n. own (ids j) p)"
    using assms by (cases "cut_packets [] bs") (auto simp: pieces_def own_def cut_headers split: if_splits)
  ultimately show ?thesis using l [of "pieces bs"] by (simp add: weight_def)
qed

lemma weight_out:
  assumes inv: "st_inv d s" and ids: "set (headers True (st_trans_all s)) \<subseteq> {d}"
  shows "weight h (st_out s) \<le> (if h = d then consumed s else weight h (st_update s))"
proof -
  from inv obtain T Pt rt Pn rn Po ro where
    T: "st_trans_all s = T @ st_trans s" "cut_packets [] T = (Pt, rt)"
    and U: "cut_packets [] (st_update s) = (Pn, rn)" and O: "cut_packets [] (st_out s) = (Po, ro)"
    and ph: "phase_own d (st_gt s) rn rt ro" and co: "counts_ok d (st_gt s) Pt rt Pn rn Po"
    unfolding st_inv_def by blast
  have w: "packet_weight h Po = packet_weight h Pt + packet_weight h (forwarded d Pn)"
    using packet_weight_mset [of Po "Pt @ forwarded d Pn" h] co by (simp add: counts_ok_def)
  have T_len: "length (concat Pt) + length rt = consumed s"
    using arg_cong [OF cut_packets_concat [OF T(2)], of length] T(1) by (simp add: consumed_def)
  have Pt_own: "own d p" if "p \<in> set Pt" for p
  proof -
    have "packet_id p \<in> set (headers True T)" using that T(2) by (simp add: cut_headers)
    with headers_prefix [of True T "st_trans s"] ids T(1) show ?thesis by (auto simp: own_def)
  qed
  have rt_own: "rt = [] \<or> own d rt" using ph by (cases "currentState (st_gt s)") (auto simp: phase_own_def)
  have W: "weight h (st_out s) = packet_weight h Po + packet_weight h [ro]" "weight h (st_update s) = packet_weight h Pn + packet_weight h [rn]"
    using O U by (simp_all add: weight_def pieces_def)
  show ?thesis
  proof (cases "h = d")
    case True
    have "packet_weight d [ro] \<le> length rt"
      using ph own_forward [of rn d] by (cases "currentState (st_gt s)") (auto simp: phase_own_def packet_weight_def)
    then show ?thesis
      using packet_weight_le [of d Pt] T_len True W(1) w by (simp add: packet_weight_forwarded)
  next
    case False
    then have "packet_weight h Pt = 0" using Pt_own by (intro packet_weight_none) (auto simp: own_def)
    moreover have "packet_weight h [ro] \<le> packet_weight h [rn]"
      using ph own_forward [of rn h] rt_own False
      by (cases "currentState (st_gt s)") (auto simp: phase_own_def packet_weight_def own_def)
    ultimately show ?thesis using W w False by (simp add: packet_weight_forwarded)
  qed
qed

text \<open>No link carries more beats than the nodes send together.\<close>

definition ring_load :: "nat \<Rightarrow> net \<Rightarrow> nat" where
  "ring_load n net = (\<Sum>j<n. length (st_trans_all (net j)))"

lemma link_load:
  assumes inv: "net_inv n ids net" and src: "sources_ok n ids net" and ids: "inj_on ids {..<n}" and i: "i < n"
  shows "length (st_out (net i)) \<le> ring_load n net" "length (st_update (net i)) \<le> ring_load n net"
proof -
  have I: "st_net_all (net j) = st_update (net j) @ st_net_in (net j)" "st_net_all (net (next_node n j)) = st_out (net j)"
    "st_inv (ids j) (net j)" "consumed (net j) \<le> length (st_trans_all (net j))" if "j < n" for j
    using inv that by (simp_all add: net_inv_def consumed_def)
  have W: "weight h (st_out (net k)) \<le> (if h = ids k then consumed (net k) else weight h (st_update (net k)))" if "k < n" for h k
    by (rule weight_out [OF I(3) [OF that]]) (use src that in \<open>simp add: sources_ok_def\<close>)
  have carried: "weight (ids j) (st_out (net k)) \<le> consumed (net j)" if j: "j < n" and k: "k < n" for j k
  proof -
    let ?Q = "\<lambda>k. weight (ids j) (st_out (net k)) \<le> consumed (net j)"
    have same: "?Q j" using W [OF j, of "ids j"] by simp
    have step: "?Q (next_node n k)" if "k < n" "?Q k" for k
    proof (cases "next_node n k = j")
      case False
      let ?k = "next_node n k"
      have l: "?k < n" by (rule next_node_less [OF that(1)])
      have "ids j \<noteq> ids ?k" using False ids j l by (auto simp: inj_on_def)
      then have "weight (ids j) (st_out (net ?k)) \<le> weight (ids j) (st_update (net ?k))" using W [OF l, of "ids j"] by simp
      also have "\<dots> \<le> weight (ids j) (st_net_all (net ?k))" unfolding I(1) [OF l] by (rule weight_prefix)
      also have "\<dots> = weight (ids j) (st_out (net k))" using I(2) [OF that(1)] by simp
      finally show ?thesis using that(2) by simp
    qed (use same in simp)
    have "\<not> ?Q j" if "\<not> ?Q k"
      by (rule around_ring [of n "\<lambda>k. \<not> ?Q k" k]) (use step k j that in auto)
    with same show ?thesis by blast
  qed
  have out: "length (st_out (net k)) \<le> ring_load n net" if k: "k < n" for k
  proof -
    have "\<forall>h \<in> set (headers True (st_out (net k))). \<exists>j<n. h = ids j" using inv k unfolding net_inv_def by blast
    then have "length (st_out (net k)) \<le> (\<Sum>j<n. weight (ids j) (st_out (net k)))" by (rule weight_length)
    also have "\<dots> \<le> ring_load n net"
      unfolding ring_load_def by (rule sum_mono) (use carried k I(4) in \<open>meson lessThan_iff order_trans\<close>)
    finally show ?thesis .
  qed
  show "length (st_out (net i)) \<le> ring_load n net" by (rule out [OF i])
  obtain k where k: "k < n" "next_node n k = i" using next_node_surj [OF i] by blast
  have "length (st_update (net i)) \<le> length (st_out (net k))"
    using I(1) [OF i] I(2) [OF k(1)] k(2) by (metis le_add1 length_append)
  with out [OF k(1)] show "length (st_update (net i)) \<le> ring_load n net" by simp
qed

text \<open>Iterations that do something, and the potential that bounds their number.\<close>

inductive net_iterates :: "nat \<Rightarrow> net \<Rightarrow> net \<Rightarrow> bool" for n where
  iterates: "i < n \<Longrightarrow> iterate_station (net i) \<noteq> net i \<Longrightarrow> net_iterates n net (iterate_node n i net)"

definition potential :: "nat \<Rightarrow> net \<Rightarrow> nat" where
  "potential n net = (\<Sum>i<n. length (st_update (net i)) + consumed (net i))"

lemma iterate_station_moves:
  assumes "iterate_station s \<noteq> s" "st_trans_all s = T @ st_trans s"
  shows "length (st_update (iterate_station s)) + consumed (iterate_station s) = Suc (length (st_update s) + consumed s)"
  by (cases rule: gt_step_cases [of "st_gt s" "st_net_in s" "st_trans s"])
    (use assms in \<open>simp_all add: iterate_station_def consumed_def\<close>)

lemma potential_iterates:
  assumes "net_iterates n net net'" "net_inv n ids net"
  shows "potential n net' = Suc (potential n net)"
  using assms(1)
proof cases
  case (iterates i)
  have inv: "st_inv (ids i) (net i)" using assms(2) iterates(2) by (simp add: net_inv_def)
  then obtain T where "st_trans_all (net i) = T @ st_trans (net i)" unfolding st_inv_def by blast
  note m = iterate_station_moves [OF iterates(3) this]
  let ?f = "\<lambda>s. length (st_update s) + consumed s"
  have "?f (net' j) = ?f (net j) + (if j = i then 1 else 0)" for j
    using m by (simp add: iterates(1) iterate_node_at Let_def)
  then have "potential n net' = (\<Sum>j<n. ?f (net j) + (if j = i then 1 else 0))" by (simp add: potential_def)
  also have "\<dots> = Suc (potential n net)"
    using iterates(2) by (simp add: potential_def sum.distrib)
  finally show ?thesis .
qed

lemma potential_le:
  assumes "net_inv n ids net" "sources_ok n ids net" "inj_on ids {..<n}"
  shows "potential n net \<le> (n + 1) * ring_load n net"
proof -
  have "potential n net \<le> (\<Sum>i<n. ring_load n net + length (st_trans_all (net i)))"
    unfolding potential_def
    by (rule sum_mono) (use link_load(2) [OF assms] in \<open>auto simp: consumed_def intro!: add_mono\<close>)
  also have "\<dots> = (n + 1) * ring_load n net" by (simp add: sum.distrib ring_load_def)
  finally show ?thesis .
qed

lemma iterates_keeps:
  assumes "net_iterates n net net'" "net_inv n ids net" "sources_ok n ids net" "\<forall>i<n. ids i \<noteq> - 1" "inj_on ids {..<n}"
  shows "net_inv n ids net'" "sources_ok n ids net'" "ring_load n net' = ring_load n net" "sources_end n net' = sources_end n net"
    "st_trans_all (net' j) = st_trans_all (net j)"
proof -
  from assms(1) obtain i where i: "i < n" "net' = iterate_node n i net" by cases blast
  have t: "st_trans_all (net' j) = st_trans_all (net j)" for j
    by (simp add: i(2) iterate_node_at Let_def iterate_station_fields)
  show "net_inv n ids net'" unfolding i(2) by (rule net_inv_iterate [OF assms(2-5) i(1)])
  show "sources_ok n ids net'" "ring_load n net' = ring_load n net" "sources_end n net' = sources_end n net"
    "st_trans_all (net' j) = st_trans_all (net j)"
    using assms(3) t by (simp_all add: sources_ok_def ring_load_def sources_end_def)
qed

text \<open>However the stations take turns, only so many iterations do something.\<close>

lemma ring_iterations_bounded:
  assumes "(net_iterates n ^^ k) net net'" "net_inv n ids net" "sources_ok n ids net" "\<forall>i<n. ids i \<noteq> - 1" "inj_on ids {..<n}"
  shows "net_inv n ids net' \<and> sources_ok n ids net' \<and> ring_load n net' = ring_load n net \<and> sources_end n net' = sources_end n net \<and>
    (\<forall>j. st_trans_all (net' j) = st_trans_all (net j)) \<and> potential n net' = potential n net + k"
  using assms(1)
proof (induction k arbitrary: net')
  case 0
  then show ?case using assms by simp
next
  case (Suc k)
  then obtain mid where mid: "(net_iterates n ^^ k) net mid" "net_iterates n mid net'" by auto
  from Suc.IH [OF mid(1)] have i: "net_inv n ids mid" "sources_ok n ids mid" by simp_all
  from Suc.IH [OF mid(1)] iterates_keeps [OF mid(2) i assms(4,5)] potential_iterates [OF mid(2) i(1)] show ?case by simp
qed

lemma ring_runs_to_rest:
  assumes "net_inv n ids net" "sources_ok n ids net" "\<forall>i<n. ids i \<noteq> - 1" "inj_on ids {..<n}" "sources_end n net"
  shows "\<exists>k net'. (net_iterates n ^^ k) net net' \<and> at_rest n net'"
  using assms(1,2,5)
proof (induction "(n + 1) * ring_load n net - potential n net" arbitrary: net rule: less_induct)
  case less
  show ?case
  proof (cases "stuck n net")
    case True
    from stuck_at_rest [OF less.prems(1,2) assms(4) True less.prems(3)]
    have "(net_iterates n ^^ 0) net net \<and> at_rest n net" by simp
    then show ?thesis by blast
  next
    case False
    then obtain i where i: "i < n" "iterate_station (net i) \<noteq> net i" by (auto simp: stuck_def)
    let ?net = "iterate_node n i net"
    have s: "net_iterates n net ?net" by (rule net_iterates.iterates [of i n net, OF i])
    note k = iterates_keeps [OF s less.prems(1,2) assms(3,4)]
    have "potential n ?net \<le> (n + 1) * ring_load n ?net" by (rule potential_le [OF k(1,2) assms(4)])
    with potential_iterates [OF s less.prems(1)] k(3)
    have "(n + 1) * ring_load n ?net - potential n ?net < (n + 1) * ring_load n net - potential n net" by simp
    from less.hyps [OF this k(1,2)] k(4) less.prems(3) obtain m net' where
      "(net_iterates n ^^ m) ?net net'" "at_rest n net'" by blast
    then have "(net_iterates n ^^ Suc m) net net'" using s by (blast intro: relpowp_Suc_I2)
    with \<open>at_rest n net'\<close> show ?thesis by blast
  qed
qed

lemma iterates_reach: "(net_iterates n ^^ k) net net' \<Longrightarrow> net_reach n net \<Longrightarrow> net_reach n net'"
proof (induction k arbitrary: net')
  case (Suc k)
  then obtain mid where mid: "net_reach n mid" "net_iterates n mid net'" by auto
  from mid(2) have "net_step n mid net'" by cases (auto intro: node_iterates)
  with mid(1) show ?case unfolding net_reach_def by (blast intro: rtranclp.rtrancl_into_rtrancl)
qed simp

text \<open>The ring from any reachable state: it comes to rest, however its stations take turns.\<close>

lemma ring_comes_to_rest:
  assumes "net_reach n net" "sources_ok n ids net" "\<forall>i<n. ids i \<noteq> - 1" "inj_on ids {..<n}" "sources_end n net"
  shows "\<exists>k net'. (net_iterates n ^^ k) net net' \<and> at_rest n net'"
    and "(net_iterates n ^^ k) net net' \<Longrightarrow> k \<le> (n + 1) * ring_load n net"
    and "(net_iterates n ^^ k) net net' \<Longrightarrow> stuck n net' \<Longrightarrow> at_rest n net'"
proof -
  note inv = net_inv_reach [OF assms(1-4)]
  show "\<exists>k net'. (net_iterates n ^^ k) net net' \<and> at_rest n net'"
    by (rule ring_runs_to_rest [OF inv assms(2-5)])
  assume r: "(net_iterates n ^^ k) net net'"
  note b = ring_iterations_bounded [OF r inv assms(2-4)]
  then have "potential n net' \<le> (n + 1) * ring_load n net'" by (intro potential_le [OF _ _ assms(4)]) simp_all
  with b show "k \<le> (n + 1) * ring_load n net" by simp
  show "stuck n net' \<Longrightarrow> at_rest n net'"
    by (rule stuck_at_rest [OF _ _ assms(4)]) (use b assms(5) in simp_all)
qed

end
