(* ===== verification/Exchange.thy ===== *)
theory Exchange
  imports Ring_Network Apply_Merge
begin

text \<open>
  An exchange of properties around the ring: in a round every node's \<open>readProp\<close> sends
  some packets, the ring comes to rest, the three \<open>streamForward\<close> kernels copy what arrived
  to the four \<open>writeProp\<close> kernels (\<open>app/clementi/kernel.cfg\<close>), and these store it.
  The state of the stations is kept from round to round.
\<close>

section \<open>\<open>writeProp\<close> on what the ring delivers\<close>

text \<open>\<open>writeProp\<close> looks at data and \<open>last\<close> alone, which the ring leaves as they are.\<close>

lemma writeProp_body_forward: "writeProp_body pn st (forward_beat b) = writeProp_body pn st b"
  by (cases "wp_currentState st") (simp_all add: writeProp_body_def forward_beat_def Let_def)

lemma read_loop_forward:
  "read_loop (writeProp_body pn) st (map forward_beat bs) =
     (case read_loop (writeProp_body pn) st bs of (st', os, rest, s) \<Rightarrow> (st', os, map forward_beat rest, s))"
  by (induction bs arbitrary: st) (auto simp: writeProp_body_forward split: prod.splits)

lemma writeProp_forward:
  "writeProp m (map forward_beat bs) pn = (case writeProp m bs pn of (m', rest, s) \<Rightarrow> (m', map forward_beat rest, s))"
  by (simp add: writeProp_def read_loop_forward split: prod.splits)

text \<open>
  Storing packets in any order: a word that some packet covers, and on which all the packets
  that cover it agree, has that value; the others are left alone.
\<close>

definition covers :: "nat \<Rightarrow> u16 \<times> burst \<times> burst list \<Rightarrow> bool" where
  "covers t = (\<lambda>(d, h, ws). unat (lane 1 h) \<le> t \<and> t < unat (lane 1 h) + length ws)"

definition word_at :: "nat \<Rightarrow> u16 \<times> burst \<times> burst list \<Rightarrow> burst" where
  "word_at t = (\<lambda>(d, h, ws). ws ! (t - unat (lane 1 h)))"

lemma store_packets_other: "\<forall>q \<in> set qs. \<not> covers t q \<Longrightarrow> store_packets qs m t = m t"
  by (induction qs rule: rev_induct)
    (auto simp: store_packets_snoc store_words_def covers_def split: prod.splits, simp add: store_packets_def)

lemma store_packets_covered:
  assumes "q \<in> set qs" "covers t q" "\<forall>q \<in> set qs. covers t q \<longrightarrow> word_at t q = v"
  shows "store_packets qs m t = v"
  using assms
proof (induction qs rule: rev_induct)
  case (snoc p qs)
  obtain d h ws where p: "p = (d, h, ws)" by (cases p)
  show ?case
  proof (cases "covers t p")
    case True
    with snoc.prems(3) p show ?thesis by (simp add: store_packets_snoc store_words_def covers_def word_at_def)
  next
    case False
    with snoc.prems have "q \<in> set qs" by auto
    then have "store_packets qs m t = v" by (rule snoc.IH) (use snoc.prems in auto)
    with p False show ?thesis by (auto simp: store_packets_snoc store_words_def covers_def)
  qed
qed simp

section \<open>Streams of packets\<close>

type_synonym net_packet = "u16 \<times> burst \<times> burst list"

definition beats_of1 :: "net_packet \<Rightarrow> burst_dest list" where
  "beats_of1 = (\<lambda>(d, h, ws). packet d h ws)"

text \<open>The packets that a \<open>readProp\<close> with destination 1 sends.\<close>

definition packets_ok :: "u32 \<Rightarrow> net_packet list \<Rightarrow> bool" where
  "packets_ok nd qs \<longleftrightarrow> (\<forall>(d, h, ws) \<in> set qs. d = 1 \<and> lane 0 h = nd \<and> ws \<noteq> [])"

lemma beats_of_simps [simp]: "beats_of [] = []" "beats_of (q # qs) = beats_of1 q @ beats_of qs"
  "beats_of (qs @ rs) = beats_of qs @ beats_of rs"
  by (simp_all add: beats_of_def beats_of1_def split: prod.splits)

lemma cut_not_last: "\<forall>b \<in> set xs. \<not> bd_last b \<Longrightarrow> cut_packets acc (xs @ ys) = cut_packets (acc @ xs) ys"
  by (induction xs arbitrary: acc) simp_all

lemma cut_packet:
  assumes "ws \<noteq> []"
  shows "cut_packets [] (packet d h ws @ bs) = (case cut_packets [] bs of (ps, r) \<Rightarrow> (packet d h ws # ps, r))"
proof -
  obtain b xs where p: "packet d h ws = xs @ [b]" "\<forall>b \<in> set xs. \<not> bd_last b" "bd_last b"
  proof
    let ?f = "\<lambda>j. \<lparr>bd_data = ws ! j, bd_keep = - 1, bd_last = (j + 1 = length ws), bd_dest = d\<rparr>"
    let ?k = "length ws - 1"
    have "[0..<length ws] = [0..<?k] @ [?k]"
      using assms by (cases "length ws") simp_all
    then show "packet d h ws = (\<lparr>bd_data = h, bd_keep = - 1, bd_last = False, bd_dest = d\<rparr> # map ?f [0..<?k]) @ [?f ?k]"
      by (simp add: packet_def)
    show "\<forall>b \<in> set (\<lparr>bd_data = h, bd_keep = - 1, bd_last = False, bd_dest = d\<rparr> # map ?f [0..<?k]). \<not> bd_last b"
      by auto
    show "bd_last (?f ?k)" using assms by (simp add: Suc_leI)
  qed
  then show ?thesis by (simp add: cut_not_last)
qed

lemma cut_beats_of:
  "packets_ok nd qs \<Longrightarrow> cut_packets [] (beats_of qs) = (map beats_of1 qs, [])"
  by (induction qs) (auto simp: beats_of1_def packets_ok_def cut_packet)

lemma length_packet: "length (packet d h ws) = Suc (length ws)"
  by (simp add: packet_def)

lemma framed_beats_of: "packets_ok nd qs \<Longrightarrow> framed (beats_of qs)"
  by (auto simp: framed_def cut_beats_of beats_of1_def packets_ok_def length_packet Suc_le_eq)

lemma headers_beats_of: "packets_ok nd qs \<Longrightarrow> set (headers True (beats_of qs)) \<subseteq> {nd}"
  by (auto simp: cut_headers cut_beats_of packet_id_def beats_of1_def packets_ok_def packet_def)

lemma forward_beats_of1: "packets_ok nd qs \<Longrightarrow> q \<in> set qs \<Longrightarrow> map forward_beat (beats_of1 q) = beats_of1 q"
  by (auto simp: packets_ok_def beats_of1_def packet_def forward_beat_def)

text \<open>A packet from its beats.\<close>

definition unpack :: "burst_dest list \<Rightarrow> net_packet" where
  "unpack p = (bd_dest (hd p), bd_data (hd p), map bd_data (tl p))"

lemma unpack_beats_of1 [simp]: "unpack (beats_of1 q) = q"
proof (cases q)
  case (fields d h ws)
  have "map bd_data (tl (packet d h ws)) = ws" by (rule nth_equalityI) (simp_all add: packet_def)
  with fields show ?thesis by (simp add: unpack_def beats_of1_def) (simp add: packet_def)
qed

section \<open>A round\<close>

definition ring_round :: "nat \<Rightarrow> (nat \<Rightarrow> burst_dest list) \<Rightarrow> net \<Rightarrow> net \<Rightarrow> bool" where
  "ring_round n sent net net' \<longleftrightarrow> (net_step n)\<^sup>*\<^sup>* net net' \<and> at_rest n net' \<and>
     (\<forall>i<n. st_trans_all (net' i) = st_trans_all (net i) @ sent i)"

text \<open>What node \<open>i\<close> gets in the round, on \<open>globalTrans_1.vertexUpdate\<close>.\<close>

definition round_updates :: "net \<Rightarrow> net \<Rightarrow> nat \<Rightarrow> burst_dest list" where
  "round_updates net net' i = drop (length (st_update (net i))) (st_update (net' i))"

text \<open>The ring between two rounds.\<close>

definition ring_ready :: "nat \<Rightarrow> (nat \<Rightarrow> u32) \<Rightarrow> net \<Rightarrow> bool" where
  "ring_ready n ids net \<longleftrightarrow> net_reach n net \<and> at_rest n net \<and> sources_ok n ids net \<and> sources_end n net"

lemma ring_ready_init: "ring_ready n ids (\<lambda>_. station_init)"
  by (simp add: ring_ready_def net_reach_def at_rest_def sources_ok_def sources_end_def station_init_def gt_init_def framed_def)

lemma update_grows: "(net_step n)\<^sup>*\<^sup>* net net' \<Longrightarrow> \<exists>u. st_update (net' i) = st_update (net i) @ u"
proof (induction rule: rtranclp_induct)
  case (step mid net')
  have g: "\<exists>u. st_update (iterate_station s) = st_update s @ u" for s
    by (simp add: iterate_station_def split: prod.splits)
  from step.hyps(2) have "\<exists>u. st_update (net' i) = st_update (mid i) @ u"
  proof cases
    case (node_iterates j)
    then show ?thesis using g [of "mid j"] by (auto simp: iterate_node_at Let_def)
  qed simp
  with step.IH show ?case by auto
qed simp

lemma cut_append_closed:
  "snd (cut_packets [] xs) = [] \<Longrightarrow>
    cut_packets [] (xs @ ys) = (fst (cut_packets [] xs) @ fst (cut_packets [] ys), snd (cut_packets [] ys))"
  by (auto simp: cut_packets_append split: prod.splits)

lemma sources_round:
  assumes "sources_ok n ids net" "sources_end n net" "\<forall>i<n. packets_ok (ids i) (Q i)"
    and "\<forall>i<n. st_trans_all (net' i) = st_trans_all (net i) @ beats_of (Q i)"
  shows "sources_ok n ids net'" "sources_end n net'"
    "i < n \<Longrightarrow> node_packets (net' i) = node_packets (net i) @ map beats_of1 (Q i)"
proof -
  have c: "cut_packets [] (st_trans_all (net' i)) = (node_packets (net i) @ map beats_of1 (Q i), [])" if "i < n" for i
    using assms(2-4) that cut_beats_of [of "ids i" "Q i"] by (simp add: cut_append_closed sources_end_def node_packets_def)
  then show "i < n \<Longrightarrow> node_packets (net' i) = node_packets (net i) @ map beats_of1 (Q i)"
    by (simp add: node_packets_def)
  show "sources_end n net'" using c by (simp add: sources_end_def)
  have "framed (st_trans_all (net' i)) \<and> set (headers True (st_trans_all (net' i))) \<subseteq> {ids i}" if i: "i < n" for i
  proof
    have "framed (st_trans_all (net i))" "framed (beats_of (Q i))"
      using assms(1,3) i framed_beats_of by (auto simp: sources_ok_def)
    then show "framed (st_trans_all (net' i))"
      using c [OF i] cut_beats_of [of "ids i" "Q i"] assms(3) i by (auto simp: framed_def node_packets_def)
    have "set (headers True (st_trans_all (net i))) \<subseteq> {ids i}" "set (headers True (beats_of (Q i))) \<subseteq> {ids i}"
      using assms(1,3) i headers_beats_of by (auto simp: sources_ok_def)
    then show "set (headers True (st_trans_all (net' i))) \<subseteq> {ids i}"
      using c [OF i] cut_beats_of [of "ids i" "Q i"] assms(2,3) i
      by (auto simp: cut_headers node_packets_def sources_end_def)
  qed
  then show "sources_ok n ids net'" by (simp add: sources_ok_def)
qed

lemma ring_round_ready:
  assumes "ring_ready n ids net" "ring_round n (\<lambda>i. beats_of (Q i)) net net'" "\<forall>i<n. packets_ok (ids i) (Q i)"
  shows "ring_ready n ids net'"
  using assms sources_round [of n ids net Q net'] unfolding ring_ready_def ring_round_def net_reach_def
  by (meson rtranclp_trans)

lemma update_closed:
  assumes "net_inv n ids net" "at_rest n net" "i < n"
  shows "cut_packets [] (st_update (net i)) = (got_packets (net i), [])"
proof -
  have "st_inv (ids i) (net i)" "currentState (st_gt (net i)) = firstFrame"
    using assms by (simp_all add: net_inv_def at_rest_def)
  then show ?thesis by (auto simp: st_inv_def phase_own_def got_packets_def)
qed

lemma round_packets:
  assumes ready: "ring_ready n ids net" and round: "ring_round n (\<lambda>i. beats_of (Q i)) net net'"
    and Q: "\<forall>i<n. packets_ok (ids i) (Q i)" and ids: "\<forall>i<n. ids i \<noteq> - 1" "inj_on ids {..<n}" and i: "i < n"
  shows "\<exists>ps. cut_packets [] (round_updates net net' i) = (ps, []) \<and>
    as_sent ps = (\<Sum>j<n. mset (map beats_of1 (Q j)))"
proof -
  have R: "net_reach n net" "at_rest n net" "sources_ok n ids net" "sources_end n net"
    using ready by (simp_all add: ring_ready_def)
  have R': "net_reach n net'" "at_rest n net'" "sources_ok n ids net'" "sources_end n net'"
    using ring_round_ready [OF ready round Q] by (simp_all add: ring_ready_def)
  from round have "(net_step n)\<^sup>*\<^sup>* net net'" by (simp add: ring_round_def)
  from update_grows [OF this] obtain u where u: "st_update (net' i) = st_update (net i) @ u" by blast
  then have ru: "round_updates net net' i = u" by (simp add: round_updates_def)
  note c = update_closed [OF net_inv_reach [OF R(1,3) ids] R(2) i] update_closed [OF net_inv_reach [OF R'(1,3) ids] R'(2) i]
  have cu: "cut_packets [] (st_update (net i) @ u) = (got_packets (net i) @ fst (cut_packets [] u), snd (cut_packets [] u))"
    using cut_append_closed [of "st_update (net i)" u] c(1) by simp
  then have got: "got_packets (net' i) = got_packets (net i) @ fst (cut_packets [] u)" and e: "snd (cut_packets [] u) = []"
    using c(2) unfolding u by simp_all
  have n: "node_packets (net' j) = node_packets (net j) @ map beats_of1 (Q j)" if "j < n" for j
    by (rule sources_round(3) [OF R(3,4) Q _ that]) (use round in \<open>simp add: ring_round_def\<close>)
  have fwd: "map (map forward_beat) (map beats_of1 (Q j)) = map beats_of1 (Q j)" if "j < n" for j
  proof -
    have "map (map forward_beat) (map beats_of1 (Q j)) = map (\<lambda>q. map forward_beat (beats_of1 q)) (Q j)" by simp
    also have "\<dots> = map beats_of1 (Q j)"
      by (rule map_cong [OF refl]) (rule forward_beats_of1, use Q that in auto)
    finally show ?thesis .
  qed
  have "as_sent (got_packets (net i)) + as_sent (fst (cut_packets [] u)) = as_sent (got_packets (net' i))"
    by (simp add: got as_sent_def)
  also have "\<dots> = (\<Sum>j<n. as_sent (node_packets (net' j)))" by (rule ring_delivers [OF R'(1,3) ids R'(2) i])
  also have "\<dots> = (\<Sum>j<n. as_sent (node_packets (net j)) + mset (map beats_of1 (Q j)))"
    by (rule sum.cong [OF refl]) (use n fwd in \<open>simp add: as_sent_def del: map_map mset_map\<close>)
  also have "\<dots> = as_sent (got_packets (net i)) + (\<Sum>j<n. mset (map beats_of1 (Q j)))"
    by (simp only: sum.distrib ring_delivers [OF R(1,3) ids R(2) i])
  finally have "as_sent (fst (cut_packets [] u)) = (\<Sum>j<n. mset (map beats_of1 (Q j)))" by simp
  with e ru show ?thesis by (cases "cut_packets [] u") auto
qed

section \<open>The four copies\<close>

definition update_port :: "nat \<Rightarrow> burst_dest list \<Rightarrow> burst_dest list" where
  "update_port sp xs =
     (let forward = (\<lambda>k ys. port k (fst (streamForward ys))) in
      if sp = 3 then forward 1 xs
      else if sp = 2 then forward 1 (forward 2 xs)
      else if sp = 1 then forward 1 (forward 2 (forward 2 xs))
      else forward 2 (forward 2 (forward 2 xs)))"

lemma update_port_eq [simp]: "update_port sp xs = xs"
  using streamForward_ports [of xs] by (simp add: update_port_def Let_def)

text \<open>
  Each \<open>writeProp\<close>, told the number of packets of all nodes, stores them all, in an order
  that the ring chooses, and returns.
\<close>

lemma round_writes:
  assumes "ring_ready n ids net" "ring_round n (\<lambda>i. beats_of (Q i)) net net'"
    and Q: "\<forall>i<n. packets_ok (ids i) (Q i)" and "\<forall>i<n. ids i \<noteq> - 1" "inj_on ids {..<n}" "i < n"
    and K: "(\<Sum>j<n. length (Q j)) = K" "0 < K" "K < 2 ^ 32"
  shows "\<exists>qs. mset qs = (\<Sum>j<n. mset (Q j)) \<and>
    writeProp m (update_port sp (round_updates net net' i)) (word_of_nat K) = (store_packets qs m, [], Returned)"
proof -
  let ?u = "round_updates net net' i"
  obtain ps where ps: "cut_packets [] ?u = (ps, [])" "as_sent ps = (\<Sum>j<n. mset (map beats_of1 (Q j)))"
    using round_packets [OF assms(1-6)] by blast
  define qs where "qs = map unpack (map (map forward_beat) ps)"
  have m: "mset qs = (\<Sum>j<n. mset (Q j))"
  proof -
    have im: "image_mset unpack (\<Sum>j\<in>A. f j) = (\<Sum>j\<in>A. image_mset unpack (f j))" if "finite A" for A :: "nat set" and f
      using that by (induction rule: finite_induct) simp_all
    have "mset qs = image_mset unpack (as_sent ps)" unfolding qs_def as_sent_def by (rule mset_map)
    also have "\<dots> = (\<Sum>j<n. image_mset unpack (mset (map beats_of1 (Q j))))" by (simp only: ps(2) im finite_lessThan)
    also have "\<dots> = (\<Sum>j<n. mset (Q j))"
      by (rule sum.cong [OF refl]) (simp add: multiset.map_comp comp_def)
    finally show ?thesis .
  qed
  have "set (map (map forward_beat) ps) = (\<Union>j<n. beats_of1 ` set (Q j))"
  proof -
    have "set_mset (\<Sum>j\<in>A. f j) = (\<Union>j\<in>A. set_mset (f j))" if "finite A" for A :: "nat set" and f :: "nat \<Rightarrow> burst_dest list multiset"
      using that by (induction rule: finite_induct) simp_all
    from this [of "{..<n}" "\<lambda>j. mset (map beats_of1 (Q j))"] ps(2) show ?thesis
      unfolding as_sent_def by (metis (no_types, lifting) SUP_cong finite_lessThan list.set_map set_mset_mset)
  qed
  then have p: "beats_of1 (unpack p) = p" if "p \<in> set (map (map forward_beat) ps)" for p using that by fastforce
  have "map beats_of1 qs = map (map forward_beat) ps"
    unfolding qs_def map_map by (rule map_cong [OF refl]) (use p in \<open>simp add: comp_def\<close>)
  moreover have "beats_of qs = concat (map beats_of1 qs)" by (simp add: beats_of_def beats_of1_def)
  moreover have "concat ps = ?u" using cut_packets_concat [OF ps(1)] by simp
  ultimately have b: "beats_of qs = map forward_beat ?u" by (simp only: map_concat [symmetric])
  have "size (mset qs) = K" unfolding m K(1) [symmetric] by (simp add: size_multiset_sum)
  then have len: "length qs = K" by simp
  have "set qs = (\<Union>j<n. set (Q j))"
  proof -
    have "set_mset (\<Sum>j\<in>A. f j) = (\<Union>j\<in>A. set_mset (f j))" if "finite A" for A :: "nat set" and f :: "nat \<Rightarrow> net_packet multiset"
      using that by (induction rule: finite_induct) simp_all
    from this [of "{..<n}" "\<lambda>j. mset (Q j)"] m show ?thesis by (metis (no_types, lifting) SUP_cong finite_lessThan set_mset_mset)
  qed
  then have "\<forall>(d, h, ws) \<in> set qs. ws \<noteq> []" using Q by (fastforce simp: packets_ok_def)
  moreover have "qs \<noteq> []" using len K(2) by auto
  ultimately have "writeProp m (map forward_beat ?u) (word_of_nat K) = (store_packets qs m, [], Returned)"
    using writeProp_packets [of qs m "[]"] len K(3) b by simp
  then have "writeProp m ?u (word_of_nat K) = (store_packets qs m, [], Returned)"
    by (auto simp: writeProp_forward split: prod.splits)
  with m show ?thesis by auto
qed

section \<open>A round can always be completed\<close>

definition fed :: "burst_dest list \<Rightarrow> station \<Rightarrow> station" where
  "fed xs s = s\<lparr>st_trans := st_trans s @ xs, st_trans_all := st_trans_all s @ xs\<rparr>"

lemma fed_append: "fed [] s = s" "fed ys (fed xs s) = fed (xs @ ys) s"
  by (simp_all add: fed_def)

lemma fed_step: "i < n \<Longrightarrow> net_step n net (net(i := fed [x] (net i)))"
  unfolding fed_def by (rule node_reads)

lemma feed_station: "i < n \<Longrightarrow> (net_step n)\<^sup>*\<^sup>* net (net(i := fed xs (net i)))"
proof (induction xs rule: rev_induct)
  case (snoc x xs)
  let ?net = "net(i := fed xs (net i))"
  have 1: "(net_step n)\<^sup>*\<^sup>* net ?net" by (rule snoc.IH [OF snoc.prems])
  have "net_step n ?net (?net(i := fed [x] (?net i)))" by (rule fed_step [OF snoc.prems])
  then have 2: "net_step n ?net (net(i := fed (xs @ [x]) (net i)))" by (simp only: fun_upd_upd fun_upd_same fed_append)
  show ?case by (rule rtranclp.rtrancl_into_rtrancl [of _ _ ?net]) (fact 1, fact 2)
qed (simp add: fed_append)

definition feed :: "(nat \<Rightarrow> burst_dest list) \<Rightarrow> nat \<Rightarrow> net \<Rightarrow> net" where
  "feed sent k net = (\<lambda>i. if i < k then fed (sent i) (net i) else net i)"

lemma feed_steps: "k \<le> n \<Longrightarrow> (net_step n)\<^sup>*\<^sup>* net (feed sent k net)"
proof (induction k)
  case 0
  then show ?case by (simp add: feed_def)
next
  case (Suc k)
  have e: "feed sent (Suc k) net = (feed sent k net)(k := fed (sent k) (feed sent k net k))"
    by (auto simp: feed_def fun_eq_iff)
  have 1: "(net_step n)\<^sup>*\<^sup>* net (feed sent k net)" using Suc by simp
  have 2: "(net_step n)\<^sup>*\<^sup>* (feed sent k net) (feed sent (Suc k) net)"
    unfolding e by (rule feed_station) (use Suc.prems in simp)
  show ?case by (rule rtranclp_trans) (fact 1, fact 2)
qed

lemma iterates_steps:
  "(net_iterates n ^^ k) net net' \<Longrightarrow> (net_step n)\<^sup>*\<^sup>* net net' \<and> (\<forall>i. st_trans_all (net' i) = st_trans_all (net i))"
proof (induction k arbitrary: net')
  case (Suc k)
  then obtain mid where mid: "(net_iterates n ^^ k) net mid" "net_iterates n mid net'" by auto
  from mid(2) have "net_step n mid net' \<and> (\<forall>i. st_trans_all (net' i) = st_trans_all (mid i))"
    by cases (auto intro: node_iterates simp: iterate_node_at Let_def iterate_station_fields)
  with Suc.IH [OF mid(1)] show ?case by (auto intro: rtranclp.rtrancl_into_rtrancl)
qed simp

lemma ring_round_exists:
  assumes "ring_ready n ids net" "\<forall>i<n. packets_ok (ids i) (Q i)" "\<forall>i<n. ids i \<noteq> - 1" "inj_on ids {..<n}"
  shows "\<exists>net'. ring_round n (\<lambda>i. beats_of (Q i)) net net'"
proof -
  let ?sent = "\<lambda>i. beats_of (Q i)"
  let ?net = "feed ?sent n net"
  have R: "net_reach n net" "sources_ok n ids net" "sources_end n net" using assms(1) by (simp_all add: ring_ready_def)
  have f: "(net_step n)\<^sup>*\<^sup>* net ?net" by (rule feed_steps) simp
  then have r: "net_reach n ?net" using R(1) unfolding net_reach_def by (blast intro: rtranclp_trans)
  have t: "\<forall>i<n. st_trans_all (?net i) = st_trans_all (net i) @ ?sent i" by (simp add: feed_def fed_def)
  obtain k net' where k: "(net_iterates n ^^ k) ?net net'" "at_rest n net'"
    using ring_comes_to_rest(1) [OF r sources_round(1) [OF R(2,3) assms(2) t] assms(3,4) sources_round(2) [OF R(2,3) assms(2) t]]
    by blast
  from iterates_steps [OF k(1)] f t k(2) have "ring_round n ?sent net net'"
    unfolding ring_round_def by (auto intro: rtranclp_trans)
  then show ?thesis by blast
qed

end
