(* ===== verification/Host_Dataflow.thy ===== *)
theory Host_Dataflow
  imports Cached_Node Exchange
begin

text \<open>
  The host program of a cluster, \<open>acceleratorExecute\<close> of
  \<open>host/clementi/mpi_graph_dataflow.cpp\<close> and the loop over the super steps in
  \<open>host/clementi/mpi_host.cpp\<close>: every node works through its schedule, sends each
  partition around the ring while it computes the next, and the buffers of all nodes change
  roles after every super step.
\<close>

section \<open>A node\<close>

text \<open>The device buffers, and the memories of the four gather-scatter kernels.\<close>

record node_dev =
  propBuffer :: "nat \<Rightarrow> mem"
  propBufferNew :: "nat \<Rightarrow> mem"
  dev_propTemp :: mem
  dev_vprop :: "nat \<Rightarrow> nat \<Rightarrow> nat \<Rightarrow> u64"   \<comment> \<open>\<open>tmpVPropBuffer\<close>\<close>

text \<open>
  What a round of kernel calls finds in registers and uninitialised variables, and which
  words \<open>readProp\<close> reads after \<open>streamWrite\<close> wrote the propTemp buffer (the two run at the same time).
\<close>

record call_env =
  ce_beat :: burst_dest
  ce_cache :: "nat \<Rightarrow> cache_state"
  ce_tok :: "nat \<Rightarrow> burst \<times> burst"
  ce_extra :: "nat \<Rightarrow> nat \<Rightarrow> u32"
  ce_raw :: burst
  ce_new :: "nat \<Rightarrow> bool"

record cluster =
  cl_app :: app
  cl_psize :: nat              \<comment> \<open>\<open>PARTITION_SIZE\<close>\<close>
  cl_block :: nat              \<comment> \<open>block size of the read engine\<close>
  cl_nodes :: nat
  cl_aligned :: nat            \<comment> \<open>\<open>alignedCompressedVertexNum\<close>\<close>
  cl_schedule :: "nat \<Rightarrow> nat list"       \<comment> \<open>\<open>scheduleItem\<close> of a rank\<close>
  cl_files :: "nat \<Rightarrow> vedge list list"    \<comment> \<open>the four files of a partition\<close>
  cl_outDeg :: "mem option"

definition total_p_num :: "cluster \<Rightarrow> nat" where
  "total_p_num cl = cl_aligned cl div cl_psize cl"

definition total_packets :: "cluster \<Rightarrow> nat" where
  "total_packets cl = total_p_num cl * ((cl_psize cl div 2 ^ 4 + 20) div 21)"

definition gs_props :: "cluster \<Rightarrow> call_env \<Rightarrow> vedge list list \<Rightarrow> (nat \<Rightarrow> mem) \<Rightarrow> nat \<Rightarrow> sv_pkg list" where
  "gs_props cl env fs reBuf j = channel_props (cl_block cl) (ce_cache env j) (reBuf j) (ce_tok env j) (fs ! j)"

text \<open>The gather-scatter, apply and write kernels on one partition.\<close>

definition execute_partition :: "cluster \<Rightarrow> call_env \<Rightarrow> (nat \<Rightarrow> mem) \<Rightarrow> nat \<Rightarrow> node_dev \<Rightarrow> node_dev" where
  "execute_partition cl env reBuf item s =
     (let fs = cl_files cl item; N = cl_psize cl
      in s\<lparr>dev_propTemp := fst (node_cached (cl_app cl) N (cl_block cl) (ce_beat env) (ce_cache env) (ce_tok env)
              (dev_vprop s) (ce_extra env) fs reBuf (cl_outDeg cl) (dev_propTemp s) (word_of_nat (item * N)) (word_of_nat N) 0),
           dev_vprop := (\<lambda>j. gs_bufs (gs (cl_app cl) N (ce_tok env j) (ce_beat env) (dev_vprop s j)
              (buffer_mem (chunkEdgeData (file_words (fs ! j)))) (edge_end_arg (file_words (fs ! j))) (gs_props cl env fs reBuf j)))\<rparr>)"

text \<open>\<open>readProp\<close> on a partition; the buffer it reads may be changing from \<open>old\<close> to \<open>new\<close>.\<close>

definition execute_read :: "cluster \<Rightarrow> nat \<Rightarrow> call_env \<Rightarrow> nat \<Rightarrow> mem \<Rightarrow> mem \<Rightarrow> burst_dest list" where
  "execute_read cl rank env item old new =
     readProp (ce_raw env) (\<lambda>t. if ce_new env t then new t else old t) (word_of_nat rank) 1
       (word_of_nat (item * cl_psize cl)) (word_of_nat (cl_psize cl))"

text \<open>
  An iteration of the loop over the schedule; with an empty schedule the first one reads
  \<open>scheduleItem[0]\<close> outside the vector.
\<close>

definition execute_p :: "cluster \<Rightarrow> nat \<Rightarrow> (nat \<Rightarrow> call_env) \<Rightarrow> (nat \<Rightarrow> mem) \<Rightarrow> nat \<Rightarrow> node_dev \<times> burst_dest list \<Rightarrow>
  (node_dev \<times> burst_dest list) option" where
  "execute_p cl rank env reBuf p st =
     (let items = cl_schedule cl rank; schedule_num = length items; s = fst st; sent = snd st
      in if p = 0 then (if schedule_num = 0 then None else Some (execute_partition cl (env p) reBuf (items ! p) s, sent))
         else if p = schedule_num
         then Some (s, sent @ execute_read cl rank (env p) (items ! (p - 1)) (dev_propTemp s) (dev_propTemp s))
         else (let s' = execute_partition cl (env p) reBuf (items ! p) s
               in Some (s', sent @ execute_read cl rank (env p) (items ! (p - 1)) (dev_propTemp s) (dev_propTemp s'))))"

fun execute_loop :: "cluster \<Rightarrow> nat \<Rightarrow> (nat \<Rightarrow> call_env) \<Rightarrow> (nat \<Rightarrow> mem) \<Rightarrow> nat list \<Rightarrow> node_dev \<times> burst_dest list \<Rightarrow>
  (node_dev \<times> burst_dest list) option" where
  "execute_loop cl rank env reBuf [] st = Some st"
| "execute_loop cl rank env reBuf (p # ps) st =
     (case execute_p cl rank env reBuf p st of None \<Rightarrow> None | Some st' \<Rightarrow> execute_loop cl rank env reBuf ps st')"

definition read_buffer :: "nat \<Rightarrow> node_dev \<Rightarrow> nat \<Rightarrow> mem" where
  "read_buffer super_step s = (if super_step mod 2 = 0 then propBuffer s else propBufferNew s)"

definition acceleratorExecute :: "cluster \<Rightarrow> nat \<Rightarrow> (nat \<Rightarrow> call_env) \<Rightarrow> nat \<Rightarrow> node_dev \<Rightarrow> (node_dev \<times> burst_dest list) option" where
  "acceleratorExecute cl rank env super_step s =
     execute_loop cl rank env (read_buffer super_step s) [0..<length (cl_schedule cl rank) + 1] (s, [])"

text \<open>What the four \<open>writeProp\<close> kernels make of the stream from the ring.\<close>

definition write_port :: "cluster \<Rightarrow> burst_dest list \<Rightarrow> mem \<Rightarrow> nat \<Rightarrow> mem \<times> burst_dest list \<times> status" where
  "write_port cl upd old sp = writeProp old (update_port sp upd) (word_of_nat (total_packets cl))"

definition write_ports :: "cluster \<Rightarrow> burst_dest list \<Rightarrow> (nat \<Rightarrow> mem) \<Rightarrow> nat \<Rightarrow> mem" where
  "write_ports cl upd old sp = (if sp < 4 then fst (write_port cl upd (old sp) sp) else old sp)"

definition write_back :: "cluster \<Rightarrow> nat \<Rightarrow> burst_dest list \<Rightarrow> node_dev \<Rightarrow> node_dev" where
  "write_back cl super_step upd s =
     (if super_step mod 2 = 0 then s\<lparr>propBufferNew := write_ports cl upd (propBufferNew s)\<rparr>
      else s\<lparr>propBuffer := write_ports cl upd (propBuffer s)\<rparr>)"

section \<open>The cluster\<close>

text \<open>
  Super steps, separated by barriers.  A super step ends when all \<open>writeProp\<close> calls have
  returned; registers, races and the order of events in the ring are arbitrary.
\<close>

inductive clementi_run :: "cluster \<Rightarrow> (nat \<Rightarrow> node_dev) \<Rightarrow> nat \<Rightarrow> (nat \<Rightarrow> node_dev) \<Rightarrow> net \<Rightarrow> bool" for cl c0 where
  run_start: "clementi_run cl c0 0 c0 (\<lambda>_. station_init)"
| run_superstep: "clementi_run cl c0 (Suc k) (\<lambda>i. write_back cl k (round_updates net net' i) (fst (res i))) net'"
  if "clementi_run cl c0 k c net"
    and "\<forall>i < cl_nodes cl. acceleratorExecute cl i (env i) k (c i) = Some (res i)"
    and "ring_round (cl_nodes cl) (\<lambda>i. snd (res i)) net net'"
    and "\<forall>i < cl_nodes cl. \<forall>sp<4. \<forall>old. snd (snd (write_port cl (round_updates net net' i) old sp)) = Returned"

inductive_cases run_zeroE: "clementi_run cl c0 0 c net"
inductive_cases run_SucE: "clementi_run cl c0 (Suc k) c net"

section \<open>The specification\<close>

text \<open>The words of a partition, in bursts of sixteen vertices.\<close>

definition cl_words :: "cluster \<Rightarrow> nat" where
  "cl_words cl = cl_psize cl div 16"

text \<open>
  The new word \<open>t\<close> of all the vertices, from the edges \<open>E k\<close> of each partition \<open>k\<close>.
\<close>

definition graph_word :: "cluster \<Rightarrow> (nat \<Rightarrow> vedge list) \<Rightarrow> mem \<Rightarrow> nat \<Rightarrow> burst" where
  "graph_word cl E cur t = partition_words (cl_app cl) (cl_psize cl) (prop_of cur) (E (t div cl_words cl)) cur (cl_outDeg cl)
     (\<lambda>_ _. 0) 0 (t div cl_words cl * cl_words cl) (t mod cl_words cl)"

definition graph_step :: "cluster \<Rightarrow> (nat \<Rightarrow> vedge list) \<Rightarrow> mem \<Rightarrow> mem \<Rightarrow> mem" where
  "graph_step cl E cur other = (\<lambda>t. if t < total_p_num cl * cl_words cl then graph_word cl E cur t else other t)"

primrec buffers_after :: "cluster \<Rightarrow> (nat \<Rightarrow> vedge list) \<Rightarrow> mem \<times> mem \<Rightarrow> nat \<Rightarrow> mem \<times> mem" where
  "buffers_after cl E M 0 = M"
| "buffers_after cl E M (Suc k) =
     (case buffers_after cl E M k of (x, y) \<Rightarrow> if k mod 2 = 0 then (x, graph_step cl E x y) else (graph_step cl E y x, y))"

definition current_buffer :: "nat \<Rightarrow> mem \<times> mem \<Rightarrow> mem" where
  "current_buffer k M = (if k mod 2 = 0 then fst M else snd M)"

text \<open>
  What the program relies on: sizes, a schedule that gives every partition to exactly one
  node and every node a partition, edges in range, files that are safe for the caches.
\<close>

definition cluster_ok :: "cluster \<Rightarrow> (nat \<Rightarrow> vedge list) \<Rightarrow> bool" where
  "cluster_ok cl E \<longleftrightarrow> 0 < cl_nodes cl \<and> cl_nodes cl < 2 ^ 32 \<and> (\<exists>x. cl_psize cl = 2 ^ x \<and> 10 \<le> x \<and> x < 32) \<and>
     total_p_num cl * cl_words cl + 64 < 2 ^ 28 \<and> cl_block cl < 27 \<and>
     (\<forall>i < cl_nodes cl. cl_schedule cl i \<noteq> []) \<and>
     mset (concat (map (cl_schedule cl) [0..<cl_nodes cl])) = mset [0..<total_p_num cl] \<and>
     (\<forall>k < total_p_num cl. length (E k) + 32 < 2 ^ 27 \<and>
        (\<forall>e \<in> set (E k). 0 \<le> fst e \<and> fst e < 2 ^ 31 \<and> 0 \<le> snd e \<and> snd e < 2 ^ 31) \<and>
        (\<forall>f \<in> set (cl_files cl k). cache_safe (cl_block cl) f))"

text \<open>The value of \<open>applyFunc\<close> does not depend on what its output argument held before.\<close>

definition extra_free :: "app \<Rightarrow> bool" where
  "extra_free a \<longleftrightarrow> (\<forall>x y z j j' w. fst (applyFunc a x y z j w) = fst (applyFunc a x y z j' w))"

definition updates_ok :: "cluster \<Rightarrow> (nat \<Rightarrow> vedge list) \<Rightarrow> (u32 \<Rightarrow> bool) \<Rightarrow> mem \<Rightarrow> bool" where
  "updates_ok cl E ok cur \<longleftrightarrow>
     (\<forall>k < total_p_num cl. \<forall>v. \<forall>x \<in> set (edge_updates (cl_app cl) (cl_psize cl) (prop_of cur) (E k) v). ok x)"

lemma cluster_sizes:
  assumes "cluster_ok cl E"
  shows "cl_psize cl = 16 * cl_words cl" "0 < cl_words cl" "k < total_p_num cl \<Longrightarrow> k * cl_words cl + cl_words cl + 64 < 2 ^ 28"
    "i < cl_nodes cl \<Longrightarrow> p < length (cl_schedule cl i) \<Longrightarrow> cl_schedule cl i ! p < total_p_num cl"
    "k < total_p_num cl \<Longrightarrow> \<exists>i < cl_nodes cl. \<exists>p < length (cl_schedule cl i). cl_schedule cl i ! p = k"
    "(\<Sum>i < cl_nodes cl. length (cl_schedule cl i)) = total_p_num cl"
proof -
  obtain x where x: "cl_psize cl = 2 ^ x" "10 \<le> x" using assms by (auto simp: cluster_ok_def)
  then have e: "cl_psize cl = 2 ^ 10 * 2 ^ (x - 10)" by (metis le_add_diff_inverse power_add)
  then show "cl_psize cl = 16 * cl_words cl" by (simp add: cl_words_def)
  show "0 < cl_words cl" using e by (simp add: cl_words_def)
  show "k < total_p_num cl \<Longrightarrow> k * cl_words cl + cl_words cl + 64 < 2 ^ 28"
  proof -
    assume "k < total_p_num cl"
    then have "Suc k * cl_words cl \<le> total_p_num cl * cl_words cl" by (intro mult_le_mono1) simp
    moreover have "total_p_num cl * cl_words cl + 64 < 2 ^ 28" using assms by (simp add: cluster_ok_def)
    ultimately show "k * cl_words cl + cl_words cl + 64 < 2 ^ 28" by simp
  qed
  have m: "mset (concat (map (cl_schedule cl) [0..<cl_nodes cl])) = mset [0..<total_p_num cl]" using assms by (simp add: cluster_ok_def)
  have s: "(\<Union>i < cl_nodes cl. set (cl_schedule cl i)) = {..<total_p_num cl}"
    using mset_eq_setD [OF m] by (simp add: atLeast0LessThan)
  then show "i < cl_nodes cl \<Longrightarrow> p < length (cl_schedule cl i) \<Longrightarrow> cl_schedule cl i ! p < total_p_num cl"
    using nth_mem by blast
  show "k < total_p_num cl \<Longrightarrow> \<exists>i < cl_nodes cl. \<exists>p < length (cl_schedule cl i). cl_schedule cl i ! p = k"
  proof -
    assume "k < total_p_num cl"
    then have "k \<in> (\<Union>i < cl_nodes cl. set (cl_schedule cl i))" unfolding s by simp
    then show "\<exists>i < cl_nodes cl. \<exists>p < length (cl_schedule cl i). cl_schedule cl i ! p = k"
      by (auto simp: in_set_conv_nth)
  qed
  have "length (concat (map (cl_schedule cl) [0..<n])) = (\<Sum>i < n. length (cl_schedule cl i))" for n
    by (induction n) simp_all
  then show "(\<Sum>i < cl_nodes cl. length (cl_schedule cl i)) = total_p_num cl"
    using mset_eq_length [OF m] by simp
qed

section \<open>What a node sends\<close>

text \<open>The packets of the first \<open>p\<close> partitions of the schedule.\<close>

definition sent_slices :: "cluster \<Rightarrow> (nat \<Rightarrow> vedge list) \<Rightarrow> mem \<Rightarrow> nat \<Rightarrow> (nat \<Rightarrow> call_env) \<Rightarrow> nat \<Rightarrow> net_packet list" where
  "sent_slices cl E cur rank env p = concat (map (\<lambda>q. slice_packets (ce_raw (env (q + 1))) (graph_word cl E cur) (word_of_nat rank) 1
     (cl_schedule cl rank ! q * cl_words cl) (cl_words cl)) [0..<p])"

lemma slice_packets_cong:
  assumes "\<forall>t. s \<le> t \<and> t < s + n \<longrightarrow> m t = m' t"
  shows "slice_packets u m nd ds s n = slice_packets u m' nd ds s n"
  unfolding slice_packets_def
proof (rule map_cong [OF refl])
  fix p assume "p \<in> set [0..<packet_num n]"
  then have p: "21 * p < n" using packet_num_bounds(2) by simp
  have "m (s + 21 * p - 1) = m' (s + 21 * p - 1)" if "p \<noteq> 0"
    using assms p that by (intro assms [rule_format]) linarith
  then have "header_word u m nd s p = header_word u m' nd s p" unfolding header_word_def by (cases "p = 0") auto
  moreover have "slice_words m s n p = slice_words m' s n p" using assms p by (auto simp: slice_words_def)
  ultimately show "(ucast ds, header_word u m nd s p, slice_words m s n p) = (ucast ds, header_word u m' nd s p, slice_words m' s n p)"
    by simp
qed

lemma execute_read_slice:
  assumes "cluster_ok cl E" "item < total_p_num cl"
    and "\<forall>t. item * cl_words cl \<le> t \<and> t < item * cl_words cl + cl_words cl \<longrightarrow> old t = g t \<and> new t = g t"
  shows "execute_read cl rank env item old new =
    beats_of (slice_packets (ce_raw env) g (word_of_nat rank) 1 (item * cl_words cl) (cl_words cl))"
proof -
  let ?W = "cl_words cl"
  have N: "cl_psize cl = 16 * ?W" and W: "0 < ?W" by (rule cluster_sizes [OF assms(1)])+
  have b: "item * ?W + ?W + 64 < 2 ^ 28" by (rule cluster_sizes(3) [OF assms(1,2)])
  have "item * cl_psize cl = 16 * (item * ?W)" unfolding N by (simp only: ac_simps)
  moreover have "?W < 2 ^ 28" "item * ?W < 2 ^ 28" using b by linarith+
  ultimately have "execute_read cl rank env item old new =
      beats_of (slice_packets (ce_raw env) (\<lambda>t. if ce_new env t then new t else old t) (word_of_nat rank) 1 (item * ?W) ?W)"
    unfolding execute_read_def N by (simp only: readProp_slice [OF W])
  also have "slice_packets (ce_raw env) (\<lambda>t. if ce_new env t then new t else old t) (word_of_nat rank) 1 (item * ?W) ?W =
      slice_packets (ce_raw env) g (word_of_nat rank) 1 (item * ?W) ?W"
    by (rule slice_packets_cong) (use assms(3) in simp)
  finally show ?thesis .
qed

text \<open>The packets of a slice cover the slice, with the words of the slice.\<close>

lemma slice_packets_covered:
  assumes "q \<in> set (slice_packets u m nd ds s n)" "s + n < 2 ^ 32" "covers t q"
  shows "word_at t q = m t" "s \<le> t" "t < s + n"
proof -
  obtain p where p: "p < packet_num n" "q = (ucast ds, header_word u m nd s p, slice_words m s n p)"
    using assms(1) by (auto simp: slice_packets_def)
  have a: "unat (lane 1 (header_word u m nd s p)) = s + 21 * p"
    by (rule header_word_lanes) (use packet_num_bounds(2) [OF p(1)] assms(2) in linarith)
  have t: "s + 21 * p \<le> t" "t < s + 21 * p + min 21 (n - 21 * p)"
    using assms(3) p(2) a by (auto simp: covers_def slice_words_def)
  then show "s \<le> t" "t < s + n" by linarith+
  from t obtain k where "t = s + 21 * p + k" "k < min 21 (n - 21 * p)" by (metis add_less_cancel_left le_Suc_ex)
  with p(2) a show "word_at t q = m t" by (simp add: word_at_def slice_words_def)
qed

lemma slice_packets_cover:
  assumes "s \<le> t" "t < s + n" "s + n < 2 ^ 32"
  shows "\<exists>q \<in> set (slice_packets u m nd ds s n). covers t q"
proof -
  let ?p = "(t - s) div 21"
  have "21 * ?p + (t - s) mod 21 = t - s" by (rule mult_div_mod_eq)
  then have t: "t = s + 21 * ?p + (t - s) mod 21" using assms(1) by linarith
  have l: "(t - s) mod 21 < 21" by simp
  have "n \<le> 21 * packet_num n" using packet_num_bounds(3) [of n] .
  then have p: "?p < packet_num n" using assms(1,2) by (simp add: div_less_iff_less_mult mult.commute)
  have a: "unat (lane 1 (header_word u m nd s ?p)) = s + 21 * ?p"
    by (rule header_word_lanes) (use t assms(2,3) in linarith)
  have "t < s + 21 * ?p + min 21 (n - 21 * ?p)" using t l assms(2) by linarith
  then have "covers t (ucast ds, header_word u m nd s ?p, slice_words m s n ?p)"
    using le_add1 [of "s + 21 * ?p" "(t - s) mod 21"] a unfolding t [symmetric] by (simp add: covers_def slice_words_def)
  then show ?thesis using p by (auto simp: slice_packets_def)
qed

lemma sent_slices_packets:
  assumes "cluster_ok cl E" "rank < cl_nodes cl" "p \<le> length (cl_schedule cl rank)"
  shows "packets_ok (word_of_nat rank) (sent_slices cl E cur rank env p)"
    and "length (sent_slices cl E cur rank env p) = p * packet_num (cl_words cl)"
proof -
  have "d = 1 \<and> lane 0 h = word_of_nat rank \<and> ws \<noteq> []"
    if mem: "(d, h, ws) \<in> set (slice_packets u m (word_of_nat rank) 1 (cl_schedule cl rank ! q * cl_words cl) (cl_words cl))" and "q < p"
    for d h ws u m q
  proof -
    have "cl_schedule cl rank ! q < total_p_num cl" using cluster_sizes(4) [OF assms(1,2), of q] that(2) assms(3) by simp
    from cluster_sizes(3) [OF assms(1) this] have b: "cl_schedule cl rank ! q * cl_words cl + cl_words cl < 2 ^ 32" by simp
    obtain k where k: "k < packet_num (cl_words cl)" "d = 1" "h = header_word u m (word_of_nat rank) (cl_schedule cl rank ! q * cl_words cl) k"
      using mem unfolding slice_packets_def by auto
    have "cl_schedule cl rank ! q * cl_words cl + 21 * k < 2 ^ 32" using packet_num_bounds(2) [OF k(1)] b by linarith
    moreover have "ws \<noteq> []" using bspec [OF slice_packets_ok(1) mem] by simp
    ultimately show ?thesis using k by (simp add: header_word_lanes)
  qed
  then show "packets_ok (word_of_nat rank) (sent_slices cl E cur rank env p)"
    unfolding packets_ok_def sent_slices_def by fastforce
  show "length (sent_slices cl E cur rank env p) = p * packet_num (cl_words cl)"
    by (simp add: sent_slices_def length_concat comp_def slice_packets_ok(2) sum_list_triv)
qed

section \<open>A partition on a node\<close>

lemma gs_resets_file:
  assumes "mset (edgeSort (concat bs)) = mset (concat bs)" "length (concat bs) + 32 < 2 ^ 27"
    and "N = 2 ^ n" "10 \<le> n" "n < 32" "\<forall>i<16. \<forall>t < N div 32. bufs i t = 0"
    and "int (16 * length props) = edgeNumChunk (file_words (save_edges edgeSort bs))"
  shows "\<forall>i<16. \<forall>t < N div 32. gs_bufs (gs a N tok0 out0 bufs (buffer_mem (chunkEdgeData (file_words (save_edges edgeSort bs))))
    (edge_end_arg (file_words (save_edges edgeSort bs))) props) i t = 0"
proof -
  have l: "length (concat bs) + 32 < 2 ^ 31" using assms(2) by simp
  obtain k m x where f: "save_edges edgeSort bs = (int (16 * m), int (16 * m)) # edgeSort (concat bs) @ replicate k (x, padding_dst)"
    "length (edgeSort (concat bs)) + k = 16 * m" "17 \<le> k" "k \<le> 32"
    using save_edges_parts [of edgeSort bs, OF assms(1) l] that by metis
  let ?all = "edgeSort (concat bs) @ replicate k (x, padding_dst)"
  have c: "length ?all = 16 * m" using f(2) by simp
  have "length (edgeSort (concat bs)) = length (concat bs)" using assms(1) by (rule mset_eq_length)
  then have small: "16 * m < 2 ^ 27" "0 < m" using assms(2) f(2-4) by linarith+
  then have "length ?all < 2 ^ 31" unfolding c by simp
  note ld = file_loads [OF this, unfolded c, folded f(1)]
  have m: "length props = m" using assms(7) ld(1) by simp
  have e: "edge_end_arg (file_words (save_edges edgeSort bs)) = word_of_nat (32 * m)" by (simp add: edge_end_arg_def ld(1))
  have "32 * m < 2 ^ 32" using small by simp
  from gs_call(3) [OF assms(3-5) small(2) this m assms(6), of a tok0 out0 "buffer_mem (chunkEdgeData (file_words (save_edges edgeSort bs)))" "[]"]
  show ?thesis by (simp only: e append_Nil2)
qed

lemma execute_loop_snoc:
  "execute_loop cl rank env reBuf xs a = Some b \<Longrightarrow> execute_loop cl rank env reBuf (xs @ [y]) a = execute_p cl rank env reBuf y b"
  by (induction xs arbitrary: a) (auto split: option.splits)

definition vprop_zero :: "cluster \<Rightarrow> node_dev \<Rightarrow> bool" where
  "vprop_zero cl s \<longleftrightarrow> (\<forall>j<4. \<forall>i<16. \<forall>t < cl_psize cl div 32. dev_vprop s j i t = 0)"

lemma partition_words_extra:
  assumes "extra_free a"
  shows "partition_words a N vprop es vertexProp d junk arg off t = partition_words a N vprop es vertexProp d junk' arg off t"
  using assms unfolding partition_words_def new_property_def extra_free_def burst_of_eq_iff by blast

lemma execute_partition_fields [simp]:
  "propBuffer (execute_partition cl env reBuf item s) = propBuffer s"
  "propBufferNew (execute_partition cl env reBuf item s) = propBufferNew s"
  by (simp_all add: execute_partition_def Let_def)

lemma div_in_slice: "0 < w \<Longrightarrow> k * w \<le> t \<Longrightarrow> t < k * w + w \<Longrightarrow> t div w = k \<and> t mod w = t - k * (w :: nat)"
  by (metis div_nat_eqI le_add_diff_inverse less_diff_conv2 minus_div_mult_eq_mod mult.commute mult_Suc_right add.commute)

context partitioner
begin

text \<open>The gather-scatter kernels leave their vertex memories as they were: all zero.\<close>

lemma partition_resets:
  assumes files: "partition_interval edgeSort splits blockSort batchSort flt es = Some fs"
    and es: "length es + 32 < 2 ^ 27" "\<forall>e \<in> set es. 0 \<le> fst e \<and> fst e < 2 ^ 31" "\<forall>e \<in> set es. 0 \<le> snd e \<and> snd e < 2 ^ 31"
    and N: "N = 2 ^ n" "10 \<le> n" "n < 32"
    and bufs: "\<forall>j<4. \<forall>i<16. \<forall>t < N div 32. bufs j i t = 0"
    and cache: "B < 27" "\<forall>f \<in> set fs. cache_safe B f" "\<forall>j<4. propBuf j = vertexProp"
  shows "\<forall>j<4. \<forall>i<16. \<forall>t < N div 32. gs_bufs (gs a N (tok0 j) u (bufs j) (buffer_mem (chunkEdgeData (file_words (fs ! j))))
    (edge_end_arg (file_words (fs ! j))) (channel_props B (cs j) (propBuf j) (tok0 j) (fs ! j))) i t = 0"
proof (rule allI, rule impI)
  have dst: "\<forall>e \<in> set es. 0 \<le> snd e" using es(3) by blast
  from interval_parts [OF files dst] obtain ls where ls: "length ls = 4" "fs = map (save_edges edgeSort) ls"
    and parts: "\<And>j. j < 4 \<Longrightarrow> set (concat (ls ! j)) \<subseteq> set es \<and> length (concat (ls ! j)) \<le> length es \<and>
      file_edges (fs ! j) = edgeSort (concat (ls ! j))"
    by metis
  fix j :: nat assume j: "j < 4"
  have f: "fs ! j = save_edges edgeSort (ls ! j)" using j ls by simp
  have 1: "length (concat (ls ! j)) + 32 < 2 ^ 27" using parts [OF j] es(1) by linarith
  have z: "\<forall>i<16. \<forall>t < N div 32. bufs j i t = 0" using bufs j by blast
  have l: "int (16 * length (channel_props B (cs j) (propBuf j) (tok0 j) (fs ! j))) = edgeNumChunk (file_words (save_edges edgeSort (ls ! j)))"
    using interval_cached [OF files es(1,2) dst cache, of cs tok0] j f by metis
  from gs_resets_file [OF edges.srt_mset 1 N z l, of a "tok0 j" u]
  show "\<forall>i<16. \<forall>t < N div 32. gs_bufs (gs a N (tok0 j) u (bufs j) (buffer_mem (chunkEdgeData (file_words (fs ! j))))
    (edge_end_arg (file_words (fs ! j))) (channel_props B (cs j) (propBuf j) (tok0 j) (fs ! j))) i t = 0"
    by (simp add: f)
qed

lemma execute_partition_result:
  assumes files: "partition_interval edgeSort splits blockSort batchSort flt (E item) = Some (cl_files cl item)"
    and ok: "cluster_ok cl E" "item < total_p_num cl" and zero: "vprop_zero cl s"
    and buf: "\<forall>j<4. reBuf j = cur"
    and alg: "gather_algebra (gatherFunc (cl_app cl)) okv" "updates_ok cl E okv cur" "extra_free (cl_app cl)"
  shows "dev_propTemp (execute_partition cl env reBuf item s) = (\<lambda>t. if item * cl_words cl \<le> t \<and> t < item * cl_words cl + cl_words cl
      then graph_word cl E cur t else dev_propTemp s t)"
    and "vprop_zero cl (execute_partition cl env reBuf item s)"
proof -
  let ?W = "cl_words cl" and ?N = "cl_psize cl" and ?es = "E item" and ?fs = "cl_files cl item"
  have N: "?N = 16 * ?W" and W: "0 < ?W" by (rule cluster_sizes [OF ok(1)])+
  have "item * ?W + ?W + 64 < 2 ^ 28" by (rule cluster_sizes(3) [OF ok])
  then have off: "item * ?W + ?N div 16 + 64 < 2 ^ 28" by (simp add: N)
  obtain x where x: "?N = 2 ^ x" "10 \<le> x" "x < 32" using ok(1) by (auto simp: cluster_ok_def)
  have es: "length ?es + 32 < 2 ^ 27" "\<forall>e \<in> set ?es. 0 \<le> fst e \<and> fst e < 2 ^ 31" "\<forall>e \<in> set ?es. 0 \<le> snd e \<and> snd e < 2 ^ 31"
    and safe: "\<forall>f \<in> set ?fs. cache_safe (cl_block cl) f" and B: "cl_block cl < 27"
    using ok by (auto simp: cluster_ok_def)
  have bufs: "\<forall>j<4. \<forall>i<16. \<forall>t < ?N div 32. dev_vprop s j i t = 0" using zero by (simp add: vprop_zero_def)
  have upd: "\<forall>v. \<forall>x \<in> set (edge_updates (cl_app cl) ?N (prop_of cur) ?es v). okv x" using alg(2) ok(2) by (simp add: updates_ok_def)
  have a: "word_of_nat (item * ?N) = (word_of_nat (16 * (item * ?W)) :: u32)" unfolding N by (simp only: ac_simps)
  from node_cached_computes [OF files es x off bufs B safe buf alg(1) upd, of "ce_beat env" "ce_cache env" "ce_tok env" "ce_extra env" "cl_outDeg cl" "dev_propTemp s" 0]
  have "dev_propTemp (execute_partition cl env reBuf item s) =
    (\<lambda>t. if item * ?W \<le> t \<and> t < item * ?W + ?N div 16
         then partition_words (cl_app cl) ?N (prop_of cur) ?es cur (cl_outDeg cl) (ce_extra env) 0 (item * ?W) (t - item * ?W)
         else dev_propTemp s t)"
    unfolding execute_partition_def Let_def a by simp
  also have "\<dots> = (\<lambda>t. if item * ?W \<le> t \<and> t < item * ?W + ?W then graph_word cl E cur t else dev_propTemp s t)"
  proof
    fix t
    have "t div ?W = item \<and> t mod ?W = t - item * ?W" if "item * ?W \<le> t" "t < item * ?W + ?W"
      by (rule div_in_slice [OF W that])
    then show "(if item * ?W \<le> t \<and> t < item * ?W + ?N div 16
         then partition_words (cl_app cl) ?N (prop_of cur) ?es cur (cl_outDeg cl) (ce_extra env) 0 (item * ?W) (t - item * ?W)
         else dev_propTemp s t) =
      (if item * ?W \<le> t \<and> t < item * ?W + ?W then graph_word cl E cur t else dev_propTemp s t)"
      using partition_words_extra [OF alg(3), where junk = "ce_extra env" and junk' = "\<lambda>_ _. 0"]
      unfolding graph_word_def cl_words_def [of cl, symmetric] by simp
  qed
  finally show "dev_propTemp (execute_partition cl env reBuf item s) = (\<lambda>t. if item * ?W \<le> t \<and> t < item * ?W + ?W
      then graph_word cl E cur t else dev_propTemp s t)" .
  from partition_resets [OF files es x(1-3) bufs B safe buf, of "cl_app cl" "ce_tok env" "ce_beat env" "ce_cache env"]
  show "vprop_zero cl (execute_partition cl env reBuf item s)"
    by (simp add: vprop_zero_def execute_partition_def Let_def gs_props_def)
qed

text \<open>The loop over the schedule, after iteration \<open>p\<close>.\<close>

definition loop_inv :: "cluster \<Rightarrow> (nat \<Rightarrow> vedge list) \<Rightarrow> mem \<Rightarrow> nat \<Rightarrow> (nat \<Rightarrow> call_env) \<Rightarrow> node_dev \<Rightarrow> nat \<Rightarrow> node_dev \<times> burst_dest list \<Rightarrow> bool" where
  "loop_inv cl E cur rank env s0 p st \<longleftrightarrow>
     (\<forall>q\<le>p. \<forall>t. cl_schedule cl rank ! q * cl_words cl \<le> t \<and> t < cl_schedule cl rank ! q * cl_words cl + cl_words cl \<longrightarrow>
        dev_propTemp (fst st) t = graph_word cl E cur t) \<and>
     snd st = beats_of (sent_slices cl E cur rank env p) \<and> vprop_zero cl (fst st) \<and>
     propBuffer (fst st) = propBuffer s0 \<and> propBufferNew (fst st) = propBufferNew s0"

lemma execute_loop_inv:
  assumes files: "\<forall>k < total_p_num cl. partition_interval edgeSort splits blockSort batchSort flt (E k) = Some (cl_files cl k)"
    and ok: "cluster_ok cl E" and rank: "rank < cl_nodes cl" and zero: "vprop_zero cl s"
    and buf: "\<forall>j<4. reBuf j = cur"
    and alg: "gather_algebra (gatherFunc (cl_app cl)) okv" "updates_ok cl E okv cur" "extra_free (cl_app cl)"
    and p: "p < length (cl_schedule cl rank)"
  shows "\<exists>st. execute_loop cl rank env reBuf [0..<Suc p] (s, []) = Some st \<and> loop_inv cl E cur rank env s p st"
  using p
proof (induction p)
  case 0
  let ?k = "cl_schedule cl rank ! 0"
  have k: "?k < total_p_num cl" by (rule cluster_sizes(4) [OF ok rank 0])
  note e = execute_partition_result [OF files [rule_format, OF k] ok k zero buf alg]
  from 0 have "execute_loop cl rank env reBuf [0..<Suc 0] (s, []) = Some (execute_partition cl (env 0) reBuf ?k s, [])"
    by (simp add: execute_p_def Let_def)
  with e show ?case by (simp add: loop_inv_def sent_slices_def)
next
  case (Suc p)
  then obtain st where st: "execute_loop cl rank env reBuf [0..<Suc p] (s, []) = Some st" "loop_inv cl E cur rank env s p st" by auto
  let ?i = "cl_schedule cl rank" and ?W = "cl_words cl"
  let ?s = "execute_partition cl (env (Suc p)) reBuf (?i ! Suc p) (fst st)"
  have k: "?i ! Suc p < total_p_num cl" "?i ! p < total_p_num cl"
    using cluster_sizes(4) [OF ok rank] Suc.prems by simp_all
  have z: "vprop_zero cl (fst st)" using st(2) by (simp add: loop_inv_def)
  note e = execute_partition_result [OF files [rule_format, OF k(1)] ok k(1) z buf alg]
  have old: "dev_propTemp (fst st) t = graph_word cl E cur t" if "q \<le> p" "?i ! q * ?W \<le> t" "t < ?i ! q * ?W + ?W" for q t
    using st(2) that unfolding loop_inv_def by blast
  then have new: "dev_propTemp ?s t = graph_word cl E cur t" if "q \<le> Suc p" "?i ! q * ?W \<le> t" "t < ?i ! q * ?W + ?W" for q t
    using that le_Suc_eq [of q p] unfolding e(1) by auto
  have "execute_read cl rank (env (Suc p)) (?i ! p) (dev_propTemp (fst st)) (dev_propTemp ?s) =
      beats_of (slice_packets (ce_raw (env (Suc p))) (graph_word cl E cur) (word_of_nat rank) 1 (?i ! p * ?W) ?W)"
    by (rule execute_read_slice [OF ok k(2)]) (use old [of p] new [of p] in simp)
  with Suc.prems have "execute_p cl rank env reBuf (Suc p) st = Some (?s, snd st @
      beats_of (slice_packets (ce_raw (env (Suc p))) (graph_word cl E cur) (word_of_nat rank) 1 (?i ! p * ?W) ?W))"
    by (simp add: execute_p_def Let_def)
  moreover have "execute_loop cl rank env reBuf ([0..<Suc p] @ [Suc p]) (s, []) = execute_p cl rank env reBuf (Suc p) st"
    by (rule execute_loop_snoc [OF st(1)])
  moreover have "loop_inv cl E cur rank env s (Suc p) (?s, snd st @
      beats_of (slice_packets (ce_raw (env (Suc p))) (graph_word cl E cur) (word_of_nat rank) 1 (?i ! p * ?W) ?W))"
    using st(2) e(2) new unfolding loop_inv_def by (simp add: sent_slices_def)
  ultimately show ?case by (simp add: upt_Suc_append)
qed

text \<open>
  A node sends every partition of its schedule once, with the new properties, and leaves
  its property buffers alone.
\<close>

lemma acceleratorExecute_result:
  assumes files: "\<forall>k < total_p_num cl. partition_interval edgeSort splits blockSort batchSort flt (E k) = Some (cl_files cl k)"
    and ok: "cluster_ok cl E" and rank: "rank < cl_nodes cl" and zero: "vprop_zero cl s"
    and buf: "\<forall>j<4. read_buffer super_step s j = cur"
    and alg: "gather_algebra (gatherFunc (cl_app cl)) okv" "updates_ok cl E okv cur" "extra_free (cl_app cl)"
  shows "\<exists>s'. acceleratorExecute cl rank env super_step s =
      Some (s', beats_of (sent_slices cl E cur rank env (length (cl_schedule cl rank)))) \<and>
    vprop_zero cl s' \<and> propBuffer s' = propBuffer s \<and> propBufferNew s' = propBufferNew s"
proof -
  let ?i = "cl_schedule cl rank" and ?W = "cl_words cl"
  have "?i \<noteq> []" using ok rank by (simp add: cluster_ok_def)
  then obtain p where p: "length ?i = Suc p" by (cases ?i) auto
  then have pl: "p < length ?i" by simp
  obtain st where st: "execute_loop cl rank env (read_buffer super_step s) [0..<Suc p] (s, []) = Some st" "loop_inv cl E cur rank env s p st"
    using execute_loop_inv [OF files ok rank zero buf alg pl] by blast
  have k: "?i ! p < total_p_num cl" by (rule cluster_sizes(4) [OF ok rank pl])
  have "execute_read cl rank (env (Suc p)) (?i ! p) (dev_propTemp (fst st)) (dev_propTemp (fst st)) =
      beats_of (slice_packets (ce_raw (env (Suc p))) (graph_word cl E cur) (word_of_nat rank) 1 (?i ! p * ?W) ?W)"
    by (rule execute_read_slice [OF ok k]) (use st(2) in \<open>auto simp: loop_inv_def\<close>)
  then have "execute_p cl rank env (read_buffer super_step s) (Suc p) st = Some (fst st, snd st @
      beats_of (slice_packets (ce_raw (env (Suc p))) (graph_word cl E cur) (word_of_nat rank) 1 (?i ! p * ?W) ?W))"
    using p by (simp add: execute_p_def Let_def)
  moreover have "snd st @ beats_of (slice_packets (ce_raw (env (Suc p))) (graph_word cl E cur) (word_of_nat rank) 1 (?i ! p * ?W) ?W) =
      beats_of (sent_slices cl E cur rank env (Suc p))"
    using st(2) by (simp add: loop_inv_def sent_slices_def)
  moreover have "execute_loop cl rank env (read_buffer super_step s) ([0..<Suc p] @ [Suc p]) (s, []) =
      execute_p cl rank env (read_buffer super_step s) (Suc p) st"
    by (rule execute_loop_snoc [OF st(1)])
  ultimately show ?thesis
    using st(2) unfolding acceleratorExecute_def p by (simp add: upt_Suc_append loop_inv_def)
qed

end

section \<open>A super step\<close>

text \<open>The ranks as node numbers.\<close>

lemma rank_words:
  assumes "n < 2 ^ 32"
  shows "\<forall>i<n. (word_of_nat i :: u32) \<noteq> - 1" "inj_on (word_of_nat :: nat \<Rightarrow> u32) {..<n}"
proof -
  have u: "unat (word_of_nat i :: u32) = i" if "i < n" for i
    by (rule unat_of_nat_small) (use that assms in simp)
  have "unat (- 1 :: u32) = 2 ^ 32 - 1" by (simp add: unsigned_minus_1_eq_mask mask_eq_exp_minus_1)
  then have "unat (word_of_nat i :: u32) \<noteq> unat (- 1 :: u32)" if "i < n" for i using u [OF that] that assms by simp
  then show "\<forall>i<n. (word_of_nat i :: u32) \<noteq> - 1" by metis
  show "inj_on (word_of_nat :: nat \<Rightarrow> u32) {..<n}" by (rule inj_onI) (metis lessThan_iff u)
qed

lemma set_sum_mset:
  assumes "mset qs = (\<Sum>j<(n :: nat). mset (f j))"
  shows "set qs = (\<Union>j<n. set (f j))"
proof -
  have "set_mset (\<Sum>j\<in>A. mset (f j)) = (\<Union>j\<in>A. set (f j))" if "finite A" for A
    using that by (induction rule: finite_induct) simp_all
  from this [of "{..<n}"] assms show ?thesis by (metis finite_lessThan set_mset_mset)
qed

text \<open>The exchange gives every node the words of all the partitions.\<close>

lemma write_ports_result:
  assumes ok: "cluster_ok cl E" and ready: "ring_ready (cl_nodes cl) word_of_nat net"
    and round: "ring_round (cl_nodes cl) (\<lambda>i. beats_of (sent_slices cl E cur i (env i) (length (cl_schedule cl i)))) net net'"
    and i: "i < cl_nodes cl"
  shows "write_port cl (round_updates net net' i) old sp = (graph_step cl E cur old, [], Returned)"
proof -
  let ?n = "cl_nodes cl" and ?W = "cl_words cl"
  let ?Q = "\<lambda>i. sent_slices cl E cur i (env i) (length (cl_schedule cl i))"
  have n: "?n < 2 ^ 32" using ok by (simp add: cluster_ok_def)
  have Q: "\<forall>i < ?n. packets_ok (word_of_nat i) (?Q i)" using sent_slices_packets(1) [OF ok] by blast
  have ids: "\<forall>i < ?n. (word_of_nat i :: u32) \<noteq> - 1" "inj_on (word_of_nat :: nat \<Rightarrow> u32) {..< ?n}"
    using rank_words [OF n] by simp_all
  have len: "(\<Sum>j < ?n. length (?Q j)) = total_packets cl"
  proof -
    have "(\<Sum>j < ?n. length (?Q j)) = (\<Sum>j < ?n. length (cl_schedule cl j)) * packet_num ?W"
      unfolding sum_distrib_right by (rule sum.cong [OF refl]) (simp add: sent_slices_packets(2) [OF ok])
    also have "\<dots> = total_packets cl"
      unfolding cluster_sizes(6) [OF ok] by (simp add: total_packets_def packet_num_def cl_words_def add.commute)
    finally show ?thesis .
  qed
  have "0 < total_p_num cl"
  proof -
    from ok have "0 < ?n" "cl_schedule cl 0 \<noteq> []" by (simp_all add: cluster_ok_def)
    with cluster_sizes(4) [OF ok, of 0 0] show ?thesis by simp
  qed
  have P: "0 < total_packets cl" "total_packets cl < 2 ^ 32"
  proof -
    have "packet_num ?W \<le> ?W" using cluster_sizes(2) [OF ok] by (simp add: packet_num_def)
    then have "total_p_num cl * packet_num ?W \<le> total_p_num cl * ?W" by (rule mult_le_mono2)
    moreover have "total_p_num cl * ?W + 64 < 2 ^ 28" using ok by (simp add: cluster_ok_def)
    moreover have t: "total_packets cl = total_p_num cl * packet_num ?W" by (simp add: total_packets_def packet_num_def cl_words_def add.commute)
    ultimately have "total_packets cl < 2 ^ 28" by linarith
    then show "total_packets cl < 2 ^ 32" by simp
    show "0 < total_packets cl"
      using \<open>0 < total_p_num cl\<close> packet_num_bounds(1) [OF cluster_sizes(2) [OF ok]] t by simp
  qed
  obtain qs where qs: "mset qs = (\<Sum>j < ?n. mset (?Q j))"
    "write_port cl (round_updates net net' i) old sp = (store_packets qs old, [], Returned)"
    using round_writes [OF ready round Q ids i len P, of old sp] unfolding write_port_def by blast
  have set_qs: "set qs = (\<Union>j < ?n. set (?Q j))" by (rule set_sum_mset [OF qs(1)])
  have slices: "\<exists>k u nd. k < total_p_num cl \<and> q \<in> set (slice_packets u (graph_word cl E cur) nd 1 (k * ?W) ?W)" if "q \<in> set qs" for q
    using that cluster_sizes(4) [OF ok] unfolding set_qs by (fastforce simp: sent_slices_def)
  have b: "k * ?W + ?W < 2 ^ 32" if "k < total_p_num cl" for k using cluster_sizes(3) [OF ok that] by simp
  have val: "word_at t q = graph_word cl E cur t" "t < total_p_num cl * ?W" if q: "q \<in> set qs" "covers t q" for t q
  proof -
    obtain k u nd where k: "k < total_p_num cl" "q \<in> set (slice_packets u (graph_word cl E cur) nd 1 (k * ?W) ?W)"
      using slices [OF q(1)] by blast
    note c = slice_packets_covered [OF k(2) b [OF k(1)] q(2)]
    show "word_at t q = graph_word cl E cur t" by (rule c(1))
    have "Suc k * ?W \<le> total_p_num cl * ?W" using k(1) by (intro mult_le_mono1) simp
    with c(3) show "t < total_p_num cl * ?W" by simp
  qed
  have "store_packets qs old t = graph_step cl E cur old t" for t
  proof (cases "t < total_p_num cl * ?W")
    case False
    then have "\<forall>q \<in> set qs. \<not> covers t q" using val(2) by blast
    with False show ?thesis by (simp add: store_packets_other graph_step_def)
  next
    case True
    let ?k = "t div ?W"
    have k: "?k < total_p_num cl" using True by (simp add: less_mult_imp_div_less)
    from cluster_sizes(5) [OF ok this] obtain j p where j: "j < ?n" "p < length (cl_schedule cl j)" "cl_schedule cl j ! p = ?k" by blast
    have s: "?k * ?W \<le> t" "t < ?k * ?W + ?W"
      using dividend_less_div_times [OF cluster_sizes(2) [OF ok], of t] by (simp_all add: div_times_less_eq_dividend ac_simps)
    from slice_packets_cover [OF s b [OF k]] obtain q where
      q: "q \<in> set (slice_packets (ce_raw (env j (p + 1))) (graph_word cl E cur) (word_of_nat j) 1 (?k * ?W) ?W)" "covers t q" by blast
    have "q \<in> set (?Q j)" unfolding sent_slices_def set_concat set_map set_upt
      by (rule UN_I [OF imageI [of p]]) (use j q(1) in auto)
    then have "q \<in> set qs" unfolding set_qs using j(1) by blast
    with True val(1) q(2) show ?thesis by (simp add: store_packets_covered graph_step_def)
  qed
  then have "store_packets qs old = graph_step cl E cur old" by (rule ext)
  with qs(2) show ?thesis by simp
qed

section \<open>The run\<close>

text \<open>What holds at the barriers: the buffers of all nodes and kernels agree.\<close>

definition cluster_inv :: "cluster \<Rightarrow> mem \<times> mem \<Rightarrow> (nat \<Rightarrow> node_dev) \<Rightarrow> bool" where
  "cluster_inv cl M c \<longleftrightarrow> (\<forall>i < cl_nodes cl. vprop_zero cl (c i) \<and>
     (\<forall>sp<4. propBuffer (c i) sp = fst M \<and> propBufferNew (c i) sp = snd M))"

lemma cluster_inv_read: "cluster_inv cl M c \<Longrightarrow> i < cl_nodes cl \<Longrightarrow> \<forall>j<4. read_buffer k (c i) j = current_buffer k M"
  by (simp add: cluster_inv_def read_buffer_def current_buffer_def)

context partitioner
begin

lemma superstep_execute:
  assumes files: "\<forall>k < total_p_num cl. partition_interval edgeSort splits blockSort batchSort flt (E k) = Some (cl_files cl k)"
    and ok: "cluster_ok cl E" and inv: "cluster_inv cl M c"
    and alg: "gather_algebra (gatherFunc (cl_app cl)) okv" "updates_ok cl E okv (current_buffer k M)" "extra_free (cl_app cl)"
    and i: "i < cl_nodes cl"
  shows "\<exists>s'. acceleratorExecute cl i env k (c i) =
      Some (s', beats_of (sent_slices cl E (current_buffer k M) i env (length (cl_schedule cl i)))) \<and>
    vprop_zero cl s' \<and> propBuffer s' = propBuffer (c i) \<and> propBufferNew s' = propBufferNew (c i)"
  by (rule acceleratorExecute_result [OF files ok i _ cluster_inv_read [OF inv i] alg])
    (use inv i in \<open>simp add: cluster_inv_def\<close>)

lemma superstep_result:
  assumes files: "\<forall>k < total_p_num cl. partition_interval edgeSort splits blockSort batchSort flt (E k) = Some (cl_files cl k)"
    and ok: "cluster_ok cl E" and inv: "cluster_inv cl M c" and ready: "ring_ready (cl_nodes cl) word_of_nat net"
    and alg: "gather_algebra (gatherFunc (cl_app cl)) okv" "updates_ok cl E okv (current_buffer k M)" "extra_free (cl_app cl)"
    and exec: "\<forall>i < cl_nodes cl. acceleratorExecute cl i (env i) k (c i) = Some (res i)"
    and round: "ring_round (cl_nodes cl) (\<lambda>i. snd (res i)) net net'"
  shows "ring_ready (cl_nodes cl) word_of_nat net'"
    and "i < cl_nodes cl \<Longrightarrow> write_port cl (round_updates net net' i) old sp = (graph_step cl E (current_buffer k M) old, [], Returned)"
    and "cluster_inv cl (if k mod 2 = 0 then (fst M, graph_step cl E (fst M) (snd M)) else (graph_step cl E (snd M) (fst M), snd M))
      (\<lambda>i. write_back cl k (round_updates net net' i) (fst (res i)))"
proof -
  let ?n = "cl_nodes cl"
  let ?Q = "\<lambda>i. sent_slices cl E (current_buffer k M) i (env i) (length (cl_schedule cl i))"
  have r: "snd (res i) = beats_of (?Q i) \<and> vprop_zero cl (fst (res i)) \<and>
      propBuffer (fst (res i)) = propBuffer (c i) \<and> propBufferNew (fst (res i)) = propBufferNew (c i)" if "i < ?n" for i
    using superstep_execute [OF files ok inv alg that, of "env i"] exec that by auto
  have round': "ring_round ?n (\<lambda>i. beats_of (?Q i)) net net'"
    using round r by (simp add: ring_round_def)
  have Q: "\<forall>i < ?n. packets_ok (word_of_nat i) (?Q i)" using sent_slices_packets(1) [OF ok] by blast
  show "ring_ready ?n word_of_nat net'" by (rule ring_round_ready [OF ready round' Q])
  have w: "write_port cl (round_updates net net' i) old sp = (graph_step cl E (current_buffer k M) old, [], Returned)"
    if "i < ?n" for i old sp
    by (rule write_ports_result [OF ok ready round' that])
  then show "i < ?n \<Longrightarrow> write_port cl (round_updates net net' i) old sp = (graph_step cl E (current_buffer k M) old, [], Returned)" .
  show "cluster_inv cl (if k mod 2 = 0 then (fst M, graph_step cl E (fst M) (snd M)) else (graph_step cl E (snd M) (fst M), snd M))
      (\<lambda>i. write_back cl k (round_updates net net' i) (fst (res i)))"
    using inv r w by (auto simp: cluster_inv_def write_back_def write_ports_def current_buffer_def vprop_zero_def)
qed

lemma buffers_after_Suc:
  "buffers_after cl E M (Suc k) = (let B = buffers_after cl E M k in
     if k mod 2 = 0 then (fst B, graph_step cl E (fst B) (snd B)) else (graph_step cl E (snd B) (fst B), snd B))"
  by (simp add: Let_def split: prod.splits)

text \<open>Every run of \<open>k\<close> super steps computes \<open>k\<close> steps of the specification.\<close>

lemma clementi_run_result:
  assumes run: "clementi_run cl c0 k c net"
    and files: "\<forall>k < total_p_num cl. partition_interval edgeSort splits blockSort batchSort flt (E k) = Some (cl_files cl k)"
    and ok: "cluster_ok cl E" and inv: "cluster_inv cl M c0"
    and alg: "gather_algebra (gatherFunc (cl_app cl)) okv" "extra_free (cl_app cl)"
    and upd: "\<forall>j<k. updates_ok cl E okv (current_buffer j (buffers_after cl E M j))"
  shows "cluster_inv cl (buffers_after cl E M k) c \<and> ring_ready (cl_nodes cl) word_of_nat net"
  using run upd
proof (induction rule: clementi_run.induct)
  case run_start
  then show ?case using inv ring_ready_init by simp
next
  case (run_superstep k c net env res net')
  then have IH: "cluster_inv cl (buffers_after cl E M k) c" "ring_ready (cl_nodes cl) word_of_nat net"
    and u: "updates_ok cl E okv (current_buffer k (buffers_after cl E M k))" by simp_all
  note r = superstep_result [OF files ok IH alg(1) u alg(2) run_superstep.hyps(2,3)]
  from r(1,3) show ?case unfolding buffers_after_Suc Let_def by blast
qed

text \<open>No super step can fail to end: every run can be continued.\<close>

lemma clementi_run_extends:
  assumes run: "clementi_run cl c0 k c net"
    and files: "\<forall>k < total_p_num cl. partition_interval edgeSort splits blockSort batchSort flt (E k) = Some (cl_files cl k)"
    and ok: "cluster_ok cl E" and inv: "cluster_inv cl M c0"
    and alg: "gather_algebra (gatherFunc (cl_app cl)) okv" "extra_free (cl_app cl)"
    and upd: "\<forall>j<Suc k. updates_ok cl E okv (current_buffer j (buffers_after cl E M j))"
  shows "\<exists>c' net'. clementi_run cl c0 (Suc k) c' net'"
proof -
  have u: "\<forall>j<k. updates_ok cl E okv (current_buffer j (buffers_after cl E M j))" "updates_ok cl E okv (current_buffer k (buffers_after cl E M k))"
    using upd by simp_all
  note i = clementi_run_result [OF run files ok inv alg u(1)]
  have inv': "cluster_inv cl (buffers_after cl E M k) c" and ready: "ring_ready (cl_nodes cl) word_of_nat net" using i by simp_all
  let ?n = "cl_nodes cl"
  fix env0 :: "nat \<Rightarrow> nat \<Rightarrow> call_env"
  let ?Q = "\<lambda>i. sent_slices cl E (current_buffer k (buffers_after cl E M k)) i (env0 i) (length (cl_schedule cl i))"
  have "\<forall>i. \<exists>r. i < ?n \<longrightarrow> acceleratorExecute cl i (env0 i) k (c i) = Some r \<and> snd r = beats_of (?Q i)"
    using superstep_execute [OF files ok inv' alg(1) u(2) alg(2)] by (metis snd_conv)
  then obtain res where res: "\<forall>i < ?n. acceleratorExecute cl i (env0 i) k (c i) = Some (res i) \<and> snd (res i) = beats_of (?Q i)"
    by metis
  have Q: "\<forall>i < ?n. packets_ok (word_of_nat i) (?Q i)" using sent_slices_packets(1) [OF ok] by blast
  have "?n < 2 ^ 32" using ok by (simp add: cluster_ok_def)
  from ring_round_exists [OF ready Q rank_words [OF this]] obtain net' where
    "ring_round ?n (\<lambda>i. beats_of (?Q i)) net net'" by blast
  with res have round: "ring_round ?n (\<lambda>i. snd (res i)) net net'" by (simp add: ring_round_def)
  have exec: "\<forall>i < ?n. acceleratorExecute cl i (env0 i) k (c i) = Some (res i)" using res by blast
  note r = superstep_result [OF files ok inv' ready alg(1) u(2) alg(2) exec round]
  have "\<forall>i < ?n. \<forall>sp<4. \<forall>old. snd (snd (write_port cl (round_updates net net' i) old sp)) = Returned" using r(2) by simp
  from run_superstep [OF run exec round this] show ?thesis by blast
qed

lemma clementi_run_exists:
  assumes files: "\<forall>k < total_p_num cl. partition_interval edgeSort splits blockSort batchSort flt (E k) = Some (cl_files cl k)"
    and ok: "cluster_ok cl E" and inv: "cluster_inv cl M c0"
    and alg: "gather_algebra (gatherFunc (cl_app cl)) okv" "extra_free (cl_app cl)"
    and upd: "\<forall>j<k. updates_ok cl E okv (current_buffer j (buffers_after cl E M j))"
  shows "\<exists>c net. clementi_run cl c0 k c net"
  using upd
proof (induction k)
  case 0
  then show ?case using run_start by blast
next
  case (Suc k)
  then obtain c net where "clementi_run cl c0 k c net" by auto
  from clementi_run_extends [OF this files ok inv alg Suc.prems] show ?case .
qed

end

end
