(* ===== verification/Text_Numbers.thy ===== *)
theory Text_Numbers
  imports Input_Partition
begin

text \<open>
  Numbers in text: \<open>std::to_string\<close> and \<open>operator<<\<close> of integers, the loop
  \<open>while (iss >> num)\<close> over a line, reading a word, and that what is printed is read
  back.  \<open>read_int\<close> is the extraction of an \<open>int\<close> of Input_Partition.
\<close>

section \<open>Printing\<close>

definition digit_char :: "nat \<Rightarrow> char" where
  "digit_char d = char_of (48 + d)"

fun show_nat :: "nat \<Rightarrow> string" where
  "show_nat n = (if n < 10 then [digit_char n] else show_nat (n div 10) @ [digit_char (n mod 10)])"

declare show_nat.simps [simp del]

definition show_int :: "int \<Rightarrow> string" where
  "show_int i = (if i < 0 then CHR ''-'' # show_nat (nat (- i)) else show_nat (nat i))"

section \<open>Reading\<close>

text \<open>\<open>iss >> nodeStr\<close>: the word behind leading white space.\<close>

definition skip_word :: "string \<Rightarrow> string" where
  "skip_word s = dropWhile (\<lambda>c. \<not> is_space c) (dropWhile is_space s)"

lemma read_int_shorter: "read_int s = Some (v, rest) \<Longrightarrow> length rest < length s"
proof -
  assume r: "read_int s = Some (v, rest)"
  let ?s1 = "dropWhile is_space s"
  let ?s2 = "if ?s1 \<noteq> [] \<and> hd ?s1 \<in> {CHR ''-'', CHR ''+''} then tl ?s1 else ?s1"
  have "rest = dropWhile is_digit ?s2" "takeWhile is_digit ?s2 \<noteq> []"
    using r by (auto simp: read_int_def Let_def split: if_splits)
  moreover have "length ?s2 = length (takeWhile is_digit ?s2) + length (dropWhile is_digit ?s2)"
    by (metis length_append takeWhile_dropWhile_id)
  moreover have "length ?s2 \<le> length ?s1" by simp
  moreover have "length ?s1 \<le> length s" by (simp add: length_dropWhile_le)
  ultimately show ?thesis by (cases "takeWhile is_digit ?s2") auto
qed

function read_ints :: "string \<Rightarrow> int list" where
  "read_ints s = (case read_int s of None \<Rightarrow> [] | Some (v, rest) \<Rightarrow> v # read_ints rest)"
  by auto
termination by (relation "measure length") (auto simp: read_int_shorter)

declare read_ints.simps [simp del]

section \<open>What is printed is read back\<close>

lemma digit_char_is_digit: "d < 10 \<Longrightarrow> is_digit (digit_char d)"
  by (simp add: is_digit_def digit_char_def)

lemma digit_char_value: "d < 10 \<Longrightarrow> of_char (digit_char d) = 48 + d"
  by (simp add: digit_char_def)

lemma digits_value_append: "digits_value a (s @ t) = digits_value (digits_value a s) t"
  by (induction s arbitrary: a) simp_all

lemma show_nat_digits: "\<forall>c \<in> set (show_nat n). is_digit c"
proof (induction n rule: show_nat.induct)
  case (1 n)
  show ?case
  proof (cases "n < 10")
    case True
    then show ?thesis by (simp add: show_nat.simps [of n] digit_char_is_digit)
  next
    case False
    with 1 show ?thesis by (subst show_nat.simps) (auto simp: digit_char_is_digit)
  qed
qed

lemma show_nat_nonempty: "show_nat n \<noteq> []"
  by (subst show_nat.simps) simp

lemma digits_value_show_nat: "digits_value 0 (show_nat n) = n"
proof (induction n rule: show_nat.induct)
  case (1 n)
  show ?case
  proof (cases "n < 10")
    case True
    then show ?thesis by (simp add: show_nat.simps [of n] digit_char_value)
  next
    case False
    with 1 show ?thesis by (subst show_nat.simps) (simp add: digits_value_append digit_char_value)
  qed
qed

lemma show_nat_inject: "show_nat m = show_nat n \<Longrightarrow> m = n"
  by (metis digits_value_show_nat)

lemma digit_not_space: "is_digit c \<Longrightarrow> \<not> is_space c"
  by (auto simp: is_digit_def is_space_def)

lemma digit_not_sign: "is_digit c \<Longrightarrow> c \<noteq> CHR ''-'' \<and> c \<noteq> CHR ''+''"
  by (auto simp: is_digit_def)

text \<open>A text ends a number: it is empty or goes on with something that is no digit.\<close>

definition ends_number :: "string \<Rightarrow> bool" where
  "ends_number s \<longleftrightarrow> takeWhile is_digit s = []"

lemma ends_number_simps [simp]:
  "ends_number []" "ends_number (c # s) \<longleftrightarrow> \<not> is_digit c"
  by (simp_all add: ends_number_def)

lemma takeWhile_digits:
  assumes "\<forall>c \<in> set ds. is_digit c" "ends_number rest"
  shows "takeWhile is_digit (ds @ rest) = ds" "dropWhile is_digit (ds @ rest) = rest"
  using assms by (cases rest; simp)+

lemma read_int_spaces: "\<forall>c \<in> set sp. is_space c \<Longrightarrow> read_int (sp @ s) = read_int s"
  by (simp add: read_int_def dropWhile_append1 dropWhile_append2)

lemma read_int_show:
  assumes "- (2 ^ 31) \<le> i" "i < 2 ^ 31" "ends_number rest" "\<forall>c \<in> set sp. is_space c"
  shows "read_int (sp @ show_int i @ rest) = Some (i, rest)"
proof -
  have d: "\<forall>c \<in> set (show_nat n). is_digit c" "show_nat n \<noteq> []" for n
    by (rule show_nat_digits, rule show_nat_nonempty)
  have h: "is_digit (hd (show_nat n))" for n using d [of n] by (cases "show_nat n") simp_all
  have sp: "dropWhile is_space (show_nat n @ rest) = show_nat n @ rest" for n
    using h [of n] d(2) [of n] digit_not_space by (cases "show_nat n") auto
  show ?thesis
  proof (cases "i < 0")
    case True
    have m: "\<not> is_space CHR ''-''" by (simp add: is_space_def)
    show ?thesis
      unfolding read_int_spaces [OF assms(4)]
      using True assms(1,2) d [of "nat (- i)"] m
      by (simp add: read_int_def show_int_def takeWhile_digits [OF d(1) assms(3)] digits_value_show_nat Let_def)
  next
    case False
    have n: "hd (show_nat (nat i) @ rest) \<noteq> CHR ''-'' \<and> hd (show_nat (nat i) @ rest) \<noteq> CHR ''+''"
      using h [of "nat i"] d(2) [of "nat i"] digit_not_sign by (cases "show_nat (nat i)") auto
    show ?thesis
      unfolding read_int_spaces [OF assms(4)]
      using False assms(1,2) d [of "nat i"] n
      by (simp add: read_int_def show_int_def sp takeWhile_digits [OF d(1) assms(3)] digits_value_show_nat Let_def)
  qed
qed

text \<open>A line of numbers, each behind a space.\<close>

definition show_ints :: "int list \<Rightarrow> string" where
  "show_ints is = concat (map (\<lambda>i. CHR '' '' # show_int i) is)"

lemma ends_number_show_ints: "ends_number (show_ints is)"
  by (cases "is") (simp_all add: show_ints_def is_digit_def)

lemma read_ints_show: "\<forall>i \<in> set is. - (2 ^ 31) \<le> i \<and> i < 2 ^ 31 \<Longrightarrow> read_ints (show_ints is) = is"
proof (induction "is")
  case Nil
  then show ?case by (simp add: show_ints_def read_ints.simps read_int_def)
next
  case (Cons i xs)
  have "read_int ([CHR '' ''] @ show_int i @ show_ints xs) = Some (i, show_ints xs)"
    by (rule read_int_show) (use Cons.prems ends_number_show_ints in \<open>simp_all add: is_space_def\<close>)
  moreover have "show_ints (i # xs) = [CHR '' ''] @ show_int i @ show_ints xs" by (simp add: show_ints_def)
  ultimately show ?case using Cons by (subst read_ints.simps) simp
qed

end
