(* ===== verification/Host_Load.thy ===== *)
theory Host_Load
  imports Host_Dataflow Text_Numbers
begin

text \<open>
  How a node of the cluster gets its data (\<open>host/clementi/mpi_graph_partition.cpp\<close>,
  \<open>host/clementi/mpi_preprocess.cpp\<close>): the schedule, the vertex map and the degrees, the
  partition files, the first properties, and the buffers of the device that are filled with
  them.  A binary file is the list of its 32-bit words.  \<open>None\<close> is an exception or undefined
  behaviour: a negative array size, an access outside an array, an uninitialised word, a
  division by zero.
\<close>

section \<open>Files and the host's data\<close>

record file_system =
  text_files :: "string \<Rightarrow> string list option"   \<comment> \<open>the lines\<close>
  bin_files :: "string \<Rightarrow> u32 list option"

definition KERNEL_NUM :: nat where "KERNEL_NUM = 4"

text \<open>The fields of \<open>graphInfo\<close> that the program sets.\<close>

record graphInfo =
  gi_vertexNum :: int
  gi_partitionNum :: int
  gi_compressedVertexNum :: int
  gi_alignedCompressedVertexNum :: int
  gi_outDeg :: "int list"
  gi_vertexMapping :: "int list"
  gi_outDegZeroIndex :: "int list"
  gi_scheduleItem :: "int list"
  gi_chunkProp :: "int list list"
  gi_chunkEdgeData :: "u32 list list list"
  gi_chunkPropData :: "int list list"
  gi_chunkPropDataNew :: "int list list"
  gi_chunkOutDegData :: "int list"
  gi_propTemp :: "int list"

text \<open>The names of the files.\<close>

definition edge_file_name :: "string \<Rightarrow> int \<Rightarrow> nat \<Rightarrow> string" where
  "edge_file_name dir p sp = dir @ ''/p_'' @ show_int p @ ''_sp_'' @ show_nat sp @ ''.bin''"

definition schedule_file_name :: "string \<Rightarrow> nat \<Rightarrow> string" where
  "schedule_file_name dir world_size = dir @ ''/schedule_'' @ show_nat world_size @ ''.txt''"

text \<open>\<open>file.read((char*)&x, sizeof(int))\<close>: at the end of the file, or without a file, \<open>x\<close> keeps its value.\<close>

definition open_bin :: "file_system \<Rightarrow> string \<Rightarrow> u32 list" where
  "open_bin fs name = (case bin_files fs name of Some ws \<Rightarrow> ws | None \<Rightarrow> [])"

definition read_word :: "int \<Rightarrow> u32 list \<Rightarrow> int \<times> u32 list" where
  "read_word x ws = (case ws of [] \<Rightarrow> (x, []) | w # ws' \<Rightarrow> (sint w, ws'))"

text \<open>\<open>new int[n]\<close> and a read of \<open>n\<close> words into it; a short file leaves words uninitialised.\<close>

definition read_array :: "int \<Rightarrow> u32 list \<Rightarrow> int list option" where
  "read_array n ws = (if n < 0 \<or> length ws < nat n then None else Some (map sint (take (nat n) ws)))"

section \<open>\<open>getPartitionNum\<close>\<close>

definition find_file :: "file_system \<Rightarrow> string \<Rightarrow> nat \<Rightarrow> nat \<Rightarrow> bool" where
  "find_file fs dir p sp = (bin_files fs (edge_file_name dir (int p) sp) \<noteq> None)"

definition getPartitionNum :: "file_system \<Rightarrow> string \<Rightarrow> nat" where
  "getPartitionNum fs dir =
     (let p_index = fold (\<lambda>p m. fold (\<lambda>sp m. if find_file fs dir p sp then max p m else m) [0..<20] m) [0..<200] 0
      in p_index + 1)"

section \<open>\<open>acceleratorSchedule\<close>\<close>

text \<open>\<open>line.find("PartitionList")\<close>.\<close>

definition contains :: "string \<Rightarrow> string \<Rightarrow> bool" where
  "contains w s = (\<exists>i \<in> {0..length s}. take (length w) (drop i s) = w)"

definition schedule_line :: "string \<Rightarrow> int list list" where
  "schedule_line line = (if contains ''PartitionList'' line then [read_ints (skip_word line)] else [])"

definition intArrays :: "string list \<Rightarrow> int list list" where
  "intArrays ls = concat (map schedule_line ls)"

definition acceleratorSchedule :: "file_system \<Rightarrow> string \<Rightarrow> nat \<Rightarrow> nat \<Rightarrow> graphInfo \<Rightarrow> (int \<times> graphInfo) option" where
  "acceleratorSchedule fs dir world_size world_rank info =
     (case text_files fs (schedule_file_name dir world_size) of
        None \<Rightarrow> Some (1, info)
      | Some ls \<Rightarrow>
          (if world_rank < length (intArrays ls)
           then Some (0, info\<lparr>gi_scheduleItem := intArrays ls ! world_rank\<rparr>) else None))"

section \<open>\<open>acceleratorDataLoad\<close>\<close>

text \<open>The loop over the vertices: \<open>out_deg_array\<close> is read at the number of mapped vertices so far.\<close>

fun map_loop :: "int list \<Rightarrow> int \<Rightarrow> int list \<Rightarrow> graphInfo \<Rightarrow> nat \<Rightarrow> graphInfo option" where
  "map_loop out_deg_array i [] info temp_index = Some info"
| "map_loop out_deg_array i (m # map_array) info temp_index =
     (if m < 0 then map_loop out_deg_array (i + 1) map_array (info\<lparr>gi_outDegZeroIndex := gi_outDegZeroIndex info @ [i]\<rparr>) temp_index
      else if temp_index < length out_deg_array
      then map_loop out_deg_array (i + 1) map_array
             (info\<lparr>gi_outDeg := gi_outDeg info @ [out_deg_array ! temp_index], gi_vertexMapping := gi_vertexMapping info @ [m]\<rparr>)
             (temp_index + 1)
      else None)"

definition align_up :: "int \<Rightarrow> int \<Rightarrow> int" where
  "align_up n psize = (n + psize - 1) sdiv psize * psize"

text \<open>The size of an edge array; it must be an array size.\<close>

definition edge_num :: "file_system \<Rightarrow> string \<Rightarrow> int \<Rightarrow> nat \<Rightarrow> int option" where
  "edge_num fs dir p sp =
     (let n = fst (read_word (- 1) (open_bin fs (edge_file_name dir p sp)))
      in if 0 \<le> n \<and> n * 2 < 2 ^ 31 then Some n else None)"

definition edge_nums :: "file_system \<Rightarrow> string \<Rightarrow> int \<Rightarrow> int list option" where
  "edge_nums fs dir p = those (map (edge_num fs dir p) [0..<KERNEL_NUM])"

definition acceleratorDataLoad :: "file_system \<Rightarrow> string \<Rightarrow> int \<Rightarrow> graphInfo \<Rightarrow> (int \<times> graphInfo) option" where
  "acceleratorDataLoad fs dir psize info =
     (let info = info\<lparr>gi_partitionNum := int (getPartitionNum fs dir)\<rparr>
      in case (bin_files fs (dir @ ''/idxMap.bin''), bin_files fs (dir @ ''/outDeg.bin'')) of
           (Some mapFile, Some degFile) \<Rightarrow>
             (case read_word (- 1) mapFile of (vertex_num, mapFile1) \<Rightarrow>
             (case read_word (- 1) mapFile1 of (num_mapped, mapFile2) \<Rightarrow>
             (case read_word (- 1) degFile of (num_out_deg, degFile1) \<Rightarrow>
             (case (read_array vertex_num mapFile2, read_array num_mapped degFile1) of
                (Some map_array, Some out_deg_array) \<Rightarrow>
                  (case map_loop out_deg_array 0 map_array (info\<lparr>gi_vertexNum := vertex_num\<rparr>) 0 of
                     None \<Rightarrow> None
                   | Some info1 \<Rightarrow>
                       (if 2 ^ 31 \<le> num_mapped + psize - 1 then None
                        else (case those (map (edge_nums fs dir) (gi_scheduleItem info1)) of
                                None \<Rightarrow> None
                              | Some ns \<Rightarrow>
                                  Some (0, info1\<lparr>gi_compressedVertexNum := num_mapped,
                                                 gi_alignedCompressedVertexNum := align_up num_mapped psize,
                                                 gi_chunkProp := ns\<rparr>))))
              | _ \<Rightarrow> None))))
         | _ \<Rightarrow> Some (- 1, info))"

section \<open>\<open>acceleratorDataPreprocess\<close>\<close>

text \<open>
  The first properties of PageRank.  \<open>score\<close> stands for the conversion of \<open>1 / vertexNum\<close>
  from floating point.
\<close>

definition dataPrepareProperty :: "(int \<Rightarrow> int) \<Rightarrow> graphInfo \<Rightarrow> graphInfo option" where
  "dataPrepareProperty score info =
     (let init_score_int = score (gi_vertexNum info); aligned = nat (gi_alignedCompressedVertexNum info);
          used = nat (gi_compressedVertexNum info); deg = gi_outDeg info;
          used' = min used aligned;
          props = map (\<lambda>i. init_score_int sdiv deg ! i) [0..<used'] @ replicate (aligned - used') 0
      in if length deg < used' \<or> 0 \<in> set (take used' deg) then None
         else Some (info\<lparr>gi_chunkOutDegData := take used' deg @ replicate (aligned - used') 0,
                        gi_chunkPropData := replicate KERNEL_NUM props,
                        gi_chunkPropDataNew := replicate KERNEL_NUM (replicate aligned 0),
                        gi_propTemp := replicate aligned 0\<rparr>))"

text \<open>
  The properties of WCC: one marked vertex, drawn for every kernel anew.  \<open>draw sp\<close> is the
  value of \<open>std::rand\<close>, at most \<open>RAND_MAX = 2 ^ 31 - 1\<close>; the divisor is an integer.  \<open>None\<close> is
  the division by zero and the access outside the array.
\<close>

definition select_index :: "int \<Rightarrow> nat \<Rightarrow> nat" where
  "select_index compressedVertexNum r = r div (2 ^ 31 div nat compressedVertexNum)"

definition dataPrepareProperty_wcc :: "(nat \<Rightarrow> nat) \<Rightarrow> graphInfo \<Rightarrow> graphInfo option" where
  "dataPrepareProperty_wcc draw info =
     (let aligned = nat (gi_alignedCompressedVertexNum info); n = gi_compressedVertexNum info
      in if n \<le> 0 \<or> (\<exists>sp \<in> {0..<KERNEL_NUM}. aligned \<le> select_index n (draw sp)) then None
         else Some (info\<lparr>gi_chunkPropData := map (\<lambda>sp. (replicate aligned 0)[select_index n (draw sp) := 1]) [0..<KERNEL_NUM]\<rparr>))"

text \<open>
  An edge array: two header words, the second one is the number of edges that are copied to
  an array with room for the number in the first.
\<close>

definition edge_array :: "file_system \<Rightarrow> string \<Rightarrow> int \<Rightarrow> nat \<Rightarrow> int \<Rightarrow> u32 list option" where
  "edge_array fs dir p sp edgeNum =
     (case read_word (- 1) (open_bin fs (edge_file_name dir p sp)) of (n1, ws1) \<Rightarrow>
     (case read_word n1 ws1 of (read_size, ws2) \<Rightarrow>
        (if read_size < 0 \<or> edgeNum < read_size \<or> length ws2 < nat (read_size * 2) then None
         else Some (take (nat (read_size * 2)) ws2))))"

definition edge_arrays :: "file_system \<Rightarrow> string \<Rightarrow> int \<Rightarrow> int list \<Rightarrow> u32 list list option" where
  "edge_arrays fs dir p ns = those (map (\<lambda>sp. edge_array fs dir p sp (ns ! sp)) [0..<KERNEL_NUM])"

definition acceleratorDataPreprocess :: "file_system \<Rightarrow> string \<Rightarrow> (int \<Rightarrow> int) \<Rightarrow> graphInfo \<Rightarrow> graphInfo option" where
  "acceleratorDataPreprocess fs dir score info =
     (case dataPrepareProperty score info of
        None \<Rightarrow> None
      | Some info1 \<Rightarrow>
          (case those (map (\<lambda>(p, ns). edge_arrays fs dir p ns) (zip (gi_scheduleItem info1) (gi_chunkProp info1))) of
             None \<Rightarrow> None
           | Some es \<Rightarrow> Some (info1\<lparr>gi_chunkEdgeData := es\<rparr>)))"

section \<open>The device\<close>

text \<open>\<open>partitionTransfer\<close>: the device buffers hold what the host wrote to them.\<close>

definition int_mem :: "int list \<Rightarrow> mem" where
  "int_mem xs = buffer_mem (map word_of_int xs)"

definition partitionTransfer :: "(nat \<Rightarrow> nat \<Rightarrow> nat \<Rightarrow> u64) \<Rightarrow> graphInfo \<Rightarrow> node_dev" where
  "partitionTransfer vprop info = \<lparr>propBuffer = (\<lambda>sp. int_mem (gi_chunkPropData info ! sp)),
     propBufferNew = (\<lambda>sp. int_mem (gi_chunkPropDataNew info ! sp)), dev_propTemp = int_mem (gi_propTemp info),
     dev_vprop = vprop\<rparr>"

definition graphInfo_init :: graphInfo where
  "graphInfo_init = \<lparr>gi_vertexNum = 0, gi_partitionNum = 0, gi_compressedVertexNum = 0, gi_alignedCompressedVertexNum = 0,
     gi_outDeg = [], gi_vertexMapping = [], gi_outDegZeroIndex = [], gi_scheduleItem = [], gi_chunkProp = [],
     gi_chunkEdgeData = [], gi_chunkPropData = [], gi_chunkPropDataNew = [], gi_chunkOutDegData = [], gi_propTemp = []\<rparr>"

text \<open>
  \<open>main\<close> up to the super steps.  It ignores the values that the functions return: without
  the map or degree file it goes on with sizes that were never set.
\<close>

definition host_setup :: "file_system \<Rightarrow> string \<Rightarrow> int \<Rightarrow> (int \<Rightarrow> int) \<Rightarrow> nat \<Rightarrow> nat \<Rightarrow> graphInfo option" where
  "host_setup fs dir psize score world_size world_rank =
     (case acceleratorSchedule fs dir world_size world_rank graphInfo_init of
        None \<Rightarrow> None
      | Some (_, info) \<Rightarrow>
          (case acceleratorDataLoad fs dir psize info of
             None \<Rightarrow> None
           | Some (r, info1) \<Rightarrow> if r = - 1 then None else acceleratorDataPreprocess fs dir score info1))"

section \<open>Parsing\<close>

text \<open>The schedule file, as \<open>partition_schedule/schedule.py\<close> writes it.\<close>

definition schedule_text :: "int list \<Rightarrow> string" where
  "schedule_text is = ''PartitionList:'' @ (if is = [] then '' '' else show_ints is)"

lemma contains_prefix: "contains w (w @ s)"
  by (force simp: contains_def)

lemma skip_word_schedule: "skip_word (schedule_text is) = (if is = [] then '' '' else show_ints is)"
proof -
  have w: "\<forall>c \<in> set ''PartitionList:''. \<not> is_space c" by (simp add: is_space_def)
  have "dropWhile is_space (''PartitionList:'' @ s) = ''PartitionList:'' @ s" for s by (simp add: is_space_def)
  then have "skip_word (''PartitionList:'' @ s) = dropWhile (\<lambda>c. \<not> is_space c) s" for s
    by (simp only: skip_word_def) (rule dropWhile_append2, use w in blast)
  then show ?thesis by (cases "is") (simp_all add: schedule_text_def show_ints_def is_space_def)
qed

lemma intArrays_text:
  assumes "\<forall>is \<in> set sched. \<forall>i \<in> set is. - (2 ^ 31) \<le> i \<and> i < 2 ^ 31"
  shows "intArrays (map schedule_text sched) = sched"
  using assms
proof (induction sched)
  case Nil
  then show ?case by (simp add: intArrays_def)
next
  case (Cons x sched)
  have "read_ints '' '' = []" by (simp add: read_ints.simps read_int_def is_space_def)
  moreover have "read_ints (show_ints x) = x" by (rule read_ints_show) (use Cons.prems in simp)
  ultimately have "read_ints (skip_word (schedule_text x)) = x" unfolding skip_word_schedule by simp
  moreover have "contains ''PartitionList'' (schedule_text x)"
    using contains_prefix [of "''PartitionList''" "CHR '':'' # (if x = [] then '' '' else show_ints x)"]
    by (simp add: schedule_text_def)
  ultimately show ?case using Cons by (simp add: intArrays_def schedule_line_def)
qed

section \<open>Words of the binary files\<close>

definition int_words :: "int list \<Rightarrow> u32 list" where
  "int_words xs = map word_of_int xs"

lemma length_int_words [simp]: "length (int_words xs) = length xs"
  by (simp add: int_words_def)

definition is_int32 :: "int \<Rightarrow> bool" where
  "is_int32 i \<longleftrightarrow> - (2 ^ 31) \<le> i \<and> i < 2 ^ 31"

lemma sint_int32: "is_int32 i \<Longrightarrow> sint (word_of_int i :: u32) = i"
  using signed_take_bit_int_eq_self [of 31 i] by (simp add: is_int32_def sint_sbintrunc')

lemma read_word_int: "is_int32 i \<Longrightarrow> read_word x (int_words (i # is)) = (i, int_words is)"
  by (simp add: read_word_def int_words_def sint_int32)

lemma read_array_ints:
  assumes "\<forall>i \<in> set is. is_int32 i" "n = int (length is)"
  shows "read_array n (int_words is) = Some is"
  using assms by (simp add: read_array_def int_words_def comp_def sint_int32 map_idI)

text \<open>The loop over the map: vertices without a number, and degrees and numbers of the others.\<close>

lemma map_loop_result:
  assumes "length (filter (\<lambda>m. 0 \<le> m) ms) + t \<le> length deg"
  shows "map_loop deg i ms info t = Some (info
     \<lparr>gi_outDegZeroIndex := gi_outDegZeroIndex info @ map fst (filter (\<lambda>(i, m). m < 0) (zip (map (\<lambda>k. i + int k) [0..<length ms]) ms)),
      gi_outDeg := gi_outDeg info @ take (length (filter (\<lambda>m. 0 \<le> m) ms)) (drop t deg),
      gi_vertexMapping := gi_vertexMapping info @ filter (\<lambda>m. 0 \<le> m) ms\<rparr>)"
  using assms
proof (induction ms arbitrary: i info t)
  case Nil
  then show ?case by simp
next
  case (Cons m ms)
  have z: "zip (map (\<lambda>k. i + int k) [0..<length (m # ms)]) (m # ms) =
      (i, m) # zip (map (\<lambda>k. (i + 1) + int k) [0..<length ms]) ms"
    by (simp only: length_Cons upt_conv_Cons [OF zero_less_Suc] map_Suc_upt [symmetric]) (simp add: comp_def ac_simps)
  show ?case
  proof (cases "m < 0")
    case True
    with Cons show ?thesis unfolding z by (simp del: upt_Suc)
  next
    case False
    then have t: "t < length deg" using Cons.prems by simp
    have "take (Suc n) (drop t deg) = deg ! t # take n (drop (Suc t) deg)" for n
      using t by (simp flip: Cons_nth_drop_Suc)
    with False t Cons show ?thesis unfolding z by (simp del: upt_Suc)
  qed
qed

section \<open>Edge arrays of the partitioner's files\<close>

text \<open>The file of \<open>es\<close>: twice the number of edges, then the edges.\<close>

definition counted :: "vedge list \<Rightarrow> vedge list" where
  "counted es = (int (length es), int (length es)) # es"

lemma file_words_counted:
  "file_words (counted es) = int_words [int (length es), int (length es)] @ file_words es"
  by (simp add: counted_def file_words_Cons int_words_def)

lemma counted_file:
  assumes "length es < 2 ^ 30" "bin_files fs (edge_file_name dir p sp) = Some (file_words (counted es))"
  shows "edge_num fs dir p sp = Some (edgeNumChunk (file_words (counted es)))"
    and "edge_array fs dir p sp (edgeNumChunk (file_words (counted es))) = Some (chunkEdgeData (file_words (counted es)))"
proof -
  let ?n = "int (length es)"
  have l: "length es < 2 ^ 31" using assms(1) by simp
  have ld: "edgeNumChunk (file_words (counted es)) = ?n" "chunkEdgeData (file_words (counted es)) = file_words es"
    unfolding counted_def using file_loads [OF l] by blast+
  have "sint (word_of_nat (length es) :: u32) = ?n" using sint_of_count [OF l] by simp
  then have r: "read_word x (file_words (counted es)) = (?n, int_words [?n] @ file_words es)"
      "read_word x (int_words [?n] @ file_words es) = (?n, file_words es)" for x
    unfolding file_words_counted by (simp_all add: read_word_def int_words_def)
  have b: "?n * 2 < 2 ^ 31" using assms(1) by simp
  show "edge_num fs dir p sp = Some (edgeNumChunk (file_words (counted es)))"
    using b by (simp add: edge_num_def open_bin_def assms(2) r(1) ld(1))
  show "edge_array fs dir p sp (edgeNumChunk (file_words (counted es))) = Some (chunkEdgeData (file_words (counted es)))"
    by (simp add: edge_array_def open_bin_def assms(2) r ld length_file_words nat_mult_distrib)
qed

section \<open>A data set\<close>

text \<open>
  What the preparation of a data set leaves on disk for a cluster: a schedule line for every
  node, the map of the vertices (negative for those without outgoing edges), the degrees of
  the others, and the files of every partition.
\<close>

record dataset =
  da_vertexNum :: nat
  da_map :: "int list"
  da_deg :: "int list"

text \<open>The first properties and the degrees in the order of the new numbers, padded to whole partitions.\<close>

definition first_props :: "(int \<Rightarrow> int) \<Rightarrow> cluster \<Rightarrow> dataset \<Rightarrow> int list" where
  "first_props score cl da =
     map (\<lambda>d. score (int (da_vertexNum da)) sdiv d) (da_deg da) @ replicate (cl_aligned cl - length (da_deg da)) 0"

definition padded_degrees :: "cluster \<Rightarrow> dataset \<Rightarrow> int list" where
  "padded_degrees cl da = da_deg da @ replicate (cl_aligned cl - length (da_deg da)) 0"

definition start_buffers :: "(int \<Rightarrow> int) \<Rightarrow> cluster \<Rightarrow> dataset \<Rightarrow> mem \<times> mem" where
  "start_buffers score cl da = (int_mem (first_props score cl da), int_mem (replicate (cl_aligned cl) 0))"

definition graph_files_ok :: "file_system \<Rightarrow> string \<Rightarrow> cluster \<Rightarrow> dataset \<Rightarrow> bool" where
  "graph_files_ok fs dir cl da \<longleftrightarrow>
     bin_files fs (dir @ ''/idxMap.bin'') = Some (int_words (int (da_vertexNum da) # int (length (da_deg da)) # da_map da)) \<and>
     bin_files fs (dir @ ''/outDeg.bin'') = Some (int_words (int (length (da_deg da)) # da_deg da)) \<and>
     (\<forall>k < total_p_num cl. \<forall>sp<4. bin_files fs (edge_file_name dir (int k) sp) = Some (file_words (cl_files cl k ! sp))) \<and>
     length (da_map da) = da_vertexNum da \<and> length (filter (\<lambda>m. 0 \<le> m) (da_map da)) = length (da_deg da) \<and>
     (\<forall>i \<in> set (da_map da). is_int32 i) \<and> (\<forall>i \<in> set (da_deg da). 0 < i \<and> is_int32 i) \<and>
     da_vertexNum da < 2 ^ 31 \<and> length (da_deg da) + cl_psize cl \<le> 2 ^ 31 \<and>
     int (cl_aligned cl) = align_up (int (length (da_deg da))) (int (cl_psize cl)) \<and>
     cl_outDeg cl = Some (int_mem (padded_degrees cl da))"

definition dataset_ok :: "file_system \<Rightarrow> string \<Rightarrow> cluster \<Rightarrow> dataset \<Rightarrow> bool" where
  "dataset_ok fs dir cl da \<longleftrightarrow>
     text_files fs (schedule_file_name dir (cl_nodes cl)) = Some (map (\<lambda>i. schedule_text (map int (cl_schedule cl i))) [0..<cl_nodes cl]) \<and>
     graph_files_ok fs dir cl da"

text \<open>What a node has loaded.\<close>

definition loaded :: "cluster \<Rightarrow> dataset \<Rightarrow> nat \<Rightarrow> graphInfo \<Rightarrow> bool" where
  "loaded cl da i info \<longleftrightarrow>
     gi_scheduleItem info = map int (cl_schedule cl i) \<and> gi_alignedCompressedVertexNum info = int (cl_aligned cl) \<and>
     gi_vertexMapping info = filter (\<lambda>m. 0 \<le> m) (da_map da) \<and> gi_outDeg info = da_deg da \<and>
     gi_chunkOutDegData info = padded_degrees cl da \<and> cl_outDeg cl = Some (int_mem (gi_chunkOutDegData info)) \<and>
     (\<forall>p < length (cl_schedule cl i). \<forall>sp<4.
        gi_chunkProp info ! p ! sp = edgeNumChunk (file_words (cl_files cl (cl_schedule cl i ! p) ! sp)) \<and>
        gi_chunkEdgeData info ! p ! sp = chunkEdgeData (file_words (cl_files cl (cl_schedule cl i ! p) ! sp)))"

lemma align_up_ge:
  assumes "0 \<le> n" "0 < m"
  shows "n \<le> align_up n m" "align_up n m < n + m" "m dvd align_up n m"
proof -
  have d: "(n + m - 1) sdiv m = (n + m - 1) div m"
    using assms by (cases "n + m - 1 = 0") (simp_all add: signed_divide_int_def)
  have e: "n + m - 1 = align_up n m + (n + m - 1) mod m"
    unfolding align_up_def d by (simp add: div_mult_mod_eq)
  have "0 \<le> (n + m - 1) mod m" "(n + m - 1) mod m < m" using assms by simp_all
  with e show "n \<le> align_up n m" "align_up n m < n + m" by linarith+
  show "m dvd align_up n m" by (simp add: align_up_def)
qed

lemma dataset_aligned:
  assumes "graph_files_ok fs dir cl da" "0 < cl_psize cl"
  shows "length (da_deg da) \<le> cl_aligned cl"
proof -
  have "int (cl_aligned cl) = align_up (int (length (da_deg da))) (int (cl_psize cl))" using assms by (simp add: graph_files_ok_def)
  then show ?thesis using align_up_ge(1) [of "int (length (da_deg da))" "int (cl_psize cl)"] assms(2) by simp
qed

text \<open>The schedule.\<close>

lemma dataset_schedule:
  assumes "dataset_ok fs dir cl da" "cluster_ok cl E" "i < cl_nodes cl"
  shows "acceleratorSchedule fs dir (cl_nodes cl) i info = Some (0, info\<lparr>gi_scheduleItem := map int (cl_schedule cl i)\<rparr>)"
proof -
  let ?s = "map (\<lambda>i. map int (cl_schedule cl i)) [0..<cl_nodes cl]"
  have small: "total_p_num cl < 2 ^ 28"
  proof -
    have "total_p_num cl * 1 \<le> total_p_num cl * cl_words cl" by (intro mult_le_mono) (use cluster_sizes(2) [OF assms(2)] in simp_all)
    moreover have "total_p_num cl * cl_words cl + 64 < 2 ^ 28" using assms(2) by (simp add: cluster_ok_def)
    ultimately show ?thesis by linarith
  qed
  have "- (2 ^ 31) \<le> x \<and> x < 2 ^ 31" if m: "is \<in> set ?s" "x \<in> set is" for "is" x
  proof -
    obtain j y where j: "j < cl_nodes cl" "y \<in> set (cl_schedule cl j)" "x = int y" using m by auto
    then obtain p where "p < length (cl_schedule cl j)" "y = cl_schedule cl j ! p" by (auto simp: in_set_conv_nth)
    with j cluster_sizes(4) [OF assms(2), of j p] small show ?thesis by simp
  qed
  then have "intArrays (map schedule_text ?s) = ?s" by (intro intArrays_text) blast
  moreover have "text_files fs (schedule_file_name dir (cl_nodes cl)) = Some (map schedule_text ?s)"
    using assms(1) by (simp add: dataset_ok_def comp_def)
  ultimately show ?thesis using assms(3) by (simp add: acceleratorSchedule_def)
qed

text \<open>The files of a partition, written by the partitioner.\<close>

context partitioner
begin

lemma partition_file_counted:
  assumes "partition_interval edgeSort splits blockSort batchSort flt es = Some fls"
    and "\<forall>e \<in> set es. 0 \<le> snd e" "length es + 32 < 2 ^ 27" "sp < 4"
  obtains all where "fls ! sp = counted all" "length all < 2 ^ 30"
proof -
  obtain ls where ls: "length ls = 4" "fls = map (save_edges edgeSort) ls"
    "set (concat (ls ! sp)) \<subseteq> set es \<and> length (concat (ls ! sp)) \<le> length es"
    using interval_parts [OF assms(1,2)] assms(4) by metis
  have "length (concat (ls ! sp)) + 32 < 2 ^ 31" using ls(3) assms(3) by simp
  from save_edges_parts [of edgeSort "ls ! sp", OF edges.srt_mset this] obtain k m x where
    f: "save_edges edgeSort (ls ! sp) = (int (16 * m), int (16 * m)) # edgeSort (concat (ls ! sp)) @ replicate k (x, padding_dst)"
    "length (edgeSort (concat (ls ! sp))) + k = 16 * m" "17 \<le> k" "k \<le> 32" by metis
  let ?all = "edgeSort (concat (ls ! sp)) @ replicate k (x, padding_dst)"
  have l: "length ?all = 16 * m" using f(2) by simp
  have "counted ?all = save_edges edgeSort (ls ! sp)" by (simp only: counted_def l f(1))
  then have "fls ! sp = counted ?all" using ls(1,2) assms(4) by simp
  moreover have "length (edgeSort (concat (ls ! sp))) = length (concat (ls ! sp))" by (rule edges.srt_length)
  then have "length ?all < 2 ^ 30" using f(4) ls(3) assms(3) by simp
  ultimately show ?thesis by (rule that)
qed

lemma dataset_partition:
  assumes "graph_files_ok fs dir cl da" "k < total_p_num cl"
    and es: "\<forall>e \<in> set (E k). 0 \<le> snd e" "length (E k) + 32 < 2 ^ 27"
    and files: "\<forall>k < total_p_num cl. partition_interval edgeSort splits blockSort batchSort flt (E k) = Some (cl_files cl k)"
  shows "edge_nums fs dir (int k) = Some (map (\<lambda>sp. edgeNumChunk (file_words (cl_files cl k ! sp))) [0..<KERNEL_NUM])"
    and "edge_arrays fs dir (int k) (map (\<lambda>sp. edgeNumChunk (file_words (cl_files cl k ! sp))) [0..<KERNEL_NUM]) =
      Some (map (\<lambda>sp. chunkEdgeData (file_words (cl_files cl k ! sp))) [0..<KERNEL_NUM])"
    and "sp < 4 \<Longrightarrow> edge_num fs dir (int k) sp = Some (edgeNumChunk (file_words (cl_files cl k ! sp))) \<and>
      edge_array fs dir (int k) sp (edgeNumChunk (file_words (cl_files cl k ! sp))) = Some (chunkEdgeData (file_words (cl_files cl k ! sp)))"
proof -
  note c = partition_file_counted [OF files [rule_format, OF assms(2)] es]
  have n: "edge_num fs dir (int k) sp = Some (edgeNumChunk (file_words (cl_files cl k ! sp))) \<and>
      edge_array fs dir (int k) sp (edgeNumChunk (file_words (cl_files cl k ! sp))) = Some (chunkEdgeData (file_words (cl_files cl k ! sp)))"
    if sp: "sp < 4" for sp
  proof -
    obtain es where e: "cl_files cl k ! sp = counted es" "length es < 2 ^ 30" using c [OF sp] by metis
    have "bin_files fs (edge_file_name dir (int k) sp) = Some (file_words (counted es))"
      using assms(1,2) sp e(1) by (simp add: graph_files_ok_def)
    from counted_file [OF e(2) this] e(1) show ?thesis by simp
  qed
  then show "sp < 4 \<Longrightarrow> edge_num fs dir (int k) sp = Some (edgeNumChunk (file_words (cl_files cl k ! sp))) \<and>
      edge_array fs dir (int k) sp (edgeNumChunk (file_words (cl_files cl k ! sp))) = Some (chunkEdgeData (file_words (cl_files cl k ! sp)))" .
  show "edge_nums fs dir (int k) = Some (map (\<lambda>sp. edgeNumChunk (file_words (cl_files cl k ! sp))) [0..<KERNEL_NUM])"
    unfolding edge_nums_def those_map using n by (simp add: KERNEL_NUM_def)
  show "edge_arrays fs dir (int k) (map (\<lambda>sp. edgeNumChunk (file_words (cl_files cl k ! sp))) [0..<KERNEL_NUM]) =
      Some (map (\<lambda>sp. chunkEdgeData (file_words (cl_files cl k ! sp))) [0..<KERNEL_NUM])"
    unfolding edge_arrays_def those_map using n by (simp add: KERNEL_NUM_def)
qed

text \<open>What the reads of the map and degree files give.\<close>

lemma dataset_reads:
  assumes "graph_files_ok fs dir cl da" "0 < cl_psize cl"
  shows "read_word x (int_words (int (da_vertexNum da) # ws)) = (int (da_vertexNum da), int_words ws)"
    and "read_word x (int_words (int (length (da_deg da)) # ws)) = (int (length (da_deg da)), int_words ws)"
    and "read_array (int (da_vertexNum da)) (int_words (da_map da)) = Some (da_map da)"
    and "read_array (int (length (da_deg da))) (int_words (da_deg da)) = Some (da_deg da)"
    and "\<exists>z. map_loop (da_deg da) 0 (da_map da) info 0 = Some (info\<lparr>gi_outDegZeroIndex := z,
      gi_outDeg := gi_outDeg info @ da_deg da, gi_vertexMapping := gi_vertexMapping info @ filter (\<lambda>m. 0 \<le> m) (da_map da)\<rparr>)"
    and "\<not> 2 ^ 31 \<le> int (length (da_deg da)) + int (cl_psize cl) - 1"
proof -
  have da: "length (da_map da) = da_vertexNum da" "length (filter (\<lambda>m. 0 \<le> m) (da_map da)) = length (da_deg da)"
      "\<forall>i \<in> set (da_map da). is_int32 i" "\<forall>i \<in> set (da_deg da). 0 < i \<and> is_int32 i"
      "da_vertexNum da < 2 ^ 31" "length (da_deg da) + cl_psize cl \<le> 2 ^ 31"
    using assms(1) by (simp_all add: graph_files_ok_def)
  have iv: "is_int32 (int (da_vertexNum da))" "is_int32 (int (length (da_deg da)))"
    using da(5,6) assms(2) by (simp_all add: is_int32_def)
  show "read_word x (int_words (int (da_vertexNum da) # ws)) = (int (da_vertexNum da), int_words ws)"
    "read_word x (int_words (int (length (da_deg da)) # ws)) = (int (length (da_deg da)), int_words ws)"
    by (rule read_word_int [OF iv(1)], rule read_word_int [OF iv(2)])
  show "read_array (int (da_vertexNum da)) (int_words (da_map da)) = Some (da_map da)"
    "read_array (int (length (da_deg da))) (int_words (da_deg da)) = Some (da_deg da)"
    by (rule read_array_ints; use da(1,3,4) in simp)+
  show "\<exists>z. map_loop (da_deg da) 0 (da_map da) info 0 = Some (info\<lparr>gi_outDegZeroIndex := z,
      gi_outDeg := gi_outDeg info @ da_deg da, gi_vertexMapping := gi_vertexMapping info @ filter (\<lambda>m. 0 \<le> m) (da_map da)\<rparr>)"
    using map_loop_result [of "da_map da" 0 "da_deg da" 0 info] da(2) by auto
  show "\<not> 2 ^ 31 \<le> int (length (da_deg da)) + int (cl_psize cl) - 1" using da(6) by simp
qed

text \<open>Map, degrees and the numbers of edges.\<close>

lemma dataset_load:
  assumes "dataset_ok fs dir cl da" "cluster_ok cl E" "i < cl_nodes cl"
    and files: "\<forall>k < total_p_num cl. partition_interval edgeSort splits blockSort batchSort flt (E k) = Some (cl_files cl k)"
  shows "\<exists>z. acceleratorDataLoad fs dir (int (cl_psize cl)) (graphInfo_init\<lparr>gi_scheduleItem := map int (cl_schedule cl i)\<rparr>) =
    Some (0, graphInfo_init\<lparr>gi_vertexNum := int (da_vertexNum da), gi_partitionNum := int (getPartitionNum fs dir),
      gi_compressedVertexNum := int (length (da_deg da)), gi_alignedCompressedVertexNum := int (cl_aligned cl),
      gi_outDeg := da_deg da, gi_vertexMapping := filter (\<lambda>m. 0 \<le> m) (da_map da), gi_outDegZeroIndex := z,
      gi_scheduleItem := map int (cl_schedule cl i),
      gi_chunkProp := map (\<lambda>k. map (\<lambda>sp. edgeNumChunk (file_words (cl_files cl k ! sp))) [0..<KERNEL_NUM]) (cl_schedule cl i)\<rparr>)"
proof -
  let ?n = "length (da_deg da)" and ?v = "da_vertexNum da"
  have g: "graph_files_ok fs dir cl da" using assms(1) by (simp add: dataset_ok_def)
  then have da: "bin_files fs (dir @ ''/idxMap.bin'') = Some (int_words (int ?v # int ?n # da_map da))"
      "bin_files fs (dir @ ''/outDeg.bin'') = Some (int_words (int ?n # da_deg da))"
      "int (cl_aligned cl) = align_up (int ?n) (int (cl_psize cl))"
    by (simp_all add: graph_files_ok_def)
  have P: "0 < cl_psize cl" using cluster_sizes(1,2) [OF assms(2)] by simp
  note r = dataset_reads(1,2) [OF g P] and a = dataset_reads(3,4) [OF g P] and m = dataset_reads(5) [OF g P] and sz = dataset_reads(6) [OF g P]
  have es: "\<forall>e \<in> set (E k). 0 \<le> snd e" "length (E k) + 32 < 2 ^ 27" if "k < total_p_num cl" for k
    using assms(2) that by (auto simp: cluster_ok_def)
  have e: "those (map (edge_nums fs dir) (map int (cl_schedule cl i))) =
      Some (map (\<lambda>k. map (\<lambda>sp. edgeNumChunk (file_words (cl_files cl k ! sp))) [0..<KERNEL_NUM]) (cl_schedule cl i))"
    unfolding those_map
    using dataset_partition(1) [OF g cluster_sizes(4) [OF assms(2,3)] es [OF cluster_sizes(4) [OF assms(2,3)]] files] by simp
  obtain z where z: "map_loop (da_deg da) 0 (da_map da)
      (graphInfo_init\<lparr>gi_scheduleItem := map int (cl_schedule cl i), gi_partitionNum := int (getPartitionNum fs dir), gi_vertexNum := int ?v\<rparr>) 0 =
    Some (graphInfo_init\<lparr>gi_scheduleItem := map int (cl_schedule cl i), gi_partitionNum := int (getPartitionNum fs dir), gi_vertexNum := int ?v,
      gi_outDegZeroIndex := z, gi_outDeg := da_deg da, gi_vertexMapping := filter (\<lambda>m. 0 \<le> m) (da_map da)\<rparr>)"
    using m [of "graphInfo_init\<lparr>gi_scheduleItem := map int (cl_schedule cl i), gi_partitionNum := int (getPartitionNum fs dir), gi_vertexNum := int ?v\<rparr>"]
    by (auto simp: graphInfo_init_def)
  show ?thesis
    using sz e by (intro exI [of _ z]) (simp add: acceleratorDataLoad_def Let_def da r a z)
qed

text \<open>The properties at the start, and the edges.\<close>

lemma dataset_preprocess:
  assumes "dataset_ok fs dir cl da" "cluster_ok cl E" "i < cl_nodes cl"
    and files: "\<forall>k < total_p_num cl. partition_interval edgeSort splits blockSort batchSort flt (E k) = Some (cl_files cl k)"
    and info: "gi_vertexNum info = int (da_vertexNum da)" "gi_compressedVertexNum info = int (length (da_deg da))"
      "gi_alignedCompressedVertexNum info = int (cl_aligned cl)" "gi_outDeg info = da_deg da"
      "gi_scheduleItem info = map int (cl_schedule cl i)"
      "gi_chunkProp info = map (\<lambda>k. map (\<lambda>sp. edgeNumChunk (file_words (cl_files cl k ! sp))) [0..<KERNEL_NUM]) (cl_schedule cl i)"
  shows "acceleratorDataPreprocess fs dir score info = Some (info
    \<lparr>gi_chunkOutDegData := padded_degrees cl da, gi_chunkPropData := replicate KERNEL_NUM (first_props score cl da),
     gi_chunkPropDataNew := replicate KERNEL_NUM (replicate (cl_aligned cl) 0), gi_propTemp := replicate (cl_aligned cl) 0,
     gi_chunkEdgeData := map (\<lambda>k. map (\<lambda>sp. chunkEdgeData (file_words (cl_files cl k ! sp))) [0..<KERNEL_NUM]) (cl_schedule cl i)\<rparr>)"
proof -
  have g: "graph_files_ok fs dir cl da" using assms(1) by (simp add: dataset_ok_def)
  have es: "\<forall>e \<in> set (E k). 0 \<le> snd e" "length (E k) + 32 < 2 ^ 27" if "k < total_p_num cl" for k
    using assms(2) that by (auto simp: cluster_ok_def)
  have P: "0 < cl_psize cl" using cluster_sizes(1,2) [OF assms(2)] by simp
  have u: "min (length (da_deg da)) (cl_aligned cl) = length (da_deg da)" using dataset_aligned [OF g P] by simp
  have "0 \<notin> set (da_deg da)" using g by (auto simp: graph_files_ok_def)
  moreover have "map (\<lambda>j. score (int (da_vertexNum da)) sdiv da_deg da ! j) [0..<length (da_deg da)] =
      map (\<lambda>d. score (int (da_vertexNum da)) sdiv d) (da_deg da)"
    by (rule nth_equalityI) simp_all
  ultimately have prep: "dataPrepareProperty score info = Some (info\<lparr>gi_chunkOutDegData := padded_degrees cl da,
      gi_chunkPropData := replicate KERNEL_NUM (first_props score cl da),
      gi_chunkPropDataNew := replicate KERNEL_NUM (replicate (cl_aligned cl) 0), gi_propTemp := replicate (cl_aligned cl) 0\<rparr>)"
    by (simp add: dataPrepareProperty_def Let_def info u padded_degrees_def first_props_def)
  have "those (map (\<lambda>(p, ns). edge_arrays fs dir p ns) (zip (map int (cl_schedule cl i))
      (map (\<lambda>k. map (\<lambda>sp. edgeNumChunk (file_words (cl_files cl k ! sp))) [0..<KERNEL_NUM]) (cl_schedule cl i)))) =
    Some (map (\<lambda>k. map (\<lambda>sp. chunkEdgeData (file_words (cl_files cl k ! sp))) [0..<KERNEL_NUM]) (cl_schedule cl i))"
    unfolding those_map
    using dataset_partition(2) [OF g cluster_sizes(4) [OF assms(2,3)] es [OF cluster_sizes(4) [OF assms(2,3)]] files] by simp
  then show ?thesis by (simp add: acceleratorDataPreprocess_def prep info)
qed

text \<open>Every node loads what the model of the cluster says, and the properties are the same everywhere.\<close>

lemma host_setup_result:
  assumes "dataset_ok fs dir cl da" "cluster_ok cl E" "i < cl_nodes cl"
    and files: "\<forall>k < total_p_num cl. partition_interval edgeSort splits blockSort batchSort flt (E k) = Some (cl_files cl k)"
  shows "\<exists>info. host_setup fs dir (int (cl_psize cl)) score (cl_nodes cl) i = Some info \<and> loaded cl da i info \<and>
    (\<forall>sp<4. propBuffer (partitionTransfer vprop info) sp = fst (start_buffers score cl da) \<and>
            propBufferNew (partitionTransfer vprop info) sp = snd (start_buffers score cl da))"
proof -
  obtain z where l: "acceleratorDataLoad fs dir (int (cl_psize cl)) (graphInfo_init\<lparr>gi_scheduleItem := map int (cl_schedule cl i)\<rparr>) =
    Some (0, graphInfo_init\<lparr>gi_vertexNum := int (da_vertexNum da), gi_partitionNum := int (getPartitionNum fs dir),
      gi_compressedVertexNum := int (length (da_deg da)), gi_alignedCompressedVertexNum := int (cl_aligned cl),
      gi_outDeg := da_deg da, gi_vertexMapping := filter (\<lambda>m. 0 \<le> m) (da_map da), gi_outDegZeroIndex := z,
      gi_scheduleItem := map int (cl_schedule cl i),
      gi_chunkProp := map (\<lambda>k. map (\<lambda>sp. edgeNumChunk (file_words (cl_files cl k ! sp))) [0..<KERNEL_NUM]) (cl_schedule cl i)\<rparr>)"
    (is "_ = Some (0, ?i1)")
    using dataset_load [OF assms] by blast
  note p = dataset_preprocess [OF assms, of ?i1 score]
  have "host_setup fs dir (int (cl_psize cl)) score (cl_nodes cl) i = acceleratorDataPreprocess fs dir score ?i1"
    by (simp add: host_setup_def dataset_schedule [OF assms(1-3)] l)
  also note p
  finally show ?thesis
    using assms(1) by (simp add: loaded_def partitionTransfer_def start_buffers_def KERNEL_NUM_def dataset_ok_def graph_files_ok_def)
qed

end

section \<open>The properties as the kernels read them\<close>

lemma prop_of_int_mem: "v < length xs \<Longrightarrow> prop_of (int_mem xs) v = word_of_int (xs ! v)"
proof -
  assume "v < length xs"
  then have "16 * (v div 16) + v mod 16 < length xs" by simp
  then have "prop_of (int_mem xs) v = map word_of_int xs ! (16 * (v div 16) + v mod 16)"
    unfolding prop_of_def int_mem_def buffer_mem_def by (subst lane_burst_of) simp_all
  with \<open>v < length xs\<close> show ?thesis by (simp add: mult_div_mod_eq)
qed

lemma lane_int_mem_replicate: "i < 16 \<Longrightarrow> 16 * t + i < n \<Longrightarrow> lane i (int_mem (replicate n x) t) = word_of_int x"
  by (simp add: int_mem_def buffer_mem_def lane_burst_of)

section \<open>File names\<close>

text \<open>No two edge files share a name.\<close>

lemma edge_file_name_inject:
  "edge_file_name dir (int p) sp = edge_file_name dir (int q) sq \<longleftrightarrow> p = q \<and> sp = sq"
proof
  assume "edge_file_name dir (int p) sp = edge_file_name dir (int q) sq"
  then have e: "show_nat p @ ''_sp_'' @ show_nat sp @ ''.bin'' = show_nat q @ ''_sp_'' @ show_nat sq @ ''.bin''"
    by (simp add: edge_file_name_def show_int_def)
  have u: "ends_number (''_sp_'' @ s)" for s by (simp add: is_digit_def)
  have "show_nat p = show_nat q"
    using arg_cong [OF e, of "takeWhile is_digit"] by (simp only: takeWhile_digits [OF show_nat_digits u])
  with e have "show_nat sp = show_nat sq" by simp
  with \<open>show_nat p = show_nat q\<close> show "p = q \<and> sp = sq" using show_nat_inject by blast
qed simp

section \<open>The number of partitions\<close>

lemma fold_found: "fold (\<lambda>sp m. if Q sp then max p m else m) xs (m::nat) = (if \<exists>sp \<in> set xs. Q sp then max p m else m)"
  by (induction xs arbitrary: m) auto

lemma fold_last: "0 < P \<Longrightarrow> fold (\<lambda>p m. if p < P then max p m else m) [0..<n] 0 = min n P - 1"
  by (induction n) (auto simp: min_def)

text \<open>With all the files of \<open>P\<close> partitions the result is \<open>P\<close>, but never more than 200.\<close>

lemma getPartitionNum_result:
  assumes "\<And>p sp. p < 200 \<Longrightarrow> sp < 20 \<Longrightarrow> find_file fs dir p sp \<longleftrightarrow> p < P \<and> sp < K" "0 < P" "0 < K"
  shows "getPartitionNum fs dir = min 200 P"
proof -
  have i: "fold (\<lambda>sp m. if find_file fs dir p sp then max p m else m) [0..<20] m = (if p < P then max p m else m)" if "p < 200" for p m
    unfolding fold_found using assms(1) [OF that] assms(3) by (auto intro!: bexI [of _ 0])
  have "fold (\<lambda>p m. fold (\<lambda>sp m. if find_file fs dir p sp then max p m else m) [0..<20] m) [0..<200] 0 =
      fold (\<lambda>p m. if p < P then max p m else m) [0..<200] 0"
    by (rule fold_cong) (simp_all add: i del: upt_Suc)
  then show ?thesis by (simp add: getPartitionNum_def Let_def fold_last [OF assms(2)] assms(2) del: upt_Suc)
qed

section \<open>Errors\<close>

text \<open>Without a schedule file the schedule stays empty and the program goes on.\<close>

lemma no_schedule_file:
  "text_files fs (schedule_file_name dir n) = None \<Longrightarrow> acceleratorSchedule fs dir n i info = Some (1, info)"
  by (simp add: acceleratorSchedule_def)

text \<open>Fewer lines than nodes: an access outside the vector.\<close>

lemma short_schedule_fails:
  assumes "text_files fs (schedule_file_name dir n) = Some ls" "length (intArrays ls) \<le> i"
  shows "host_setup fs dir psize score n i = None"
  using assms by (simp add: host_setup_def acceleratorSchedule_def)

text \<open>A vertex with a number but degree zero: the division by its degree stops the program.\<close>

lemma zero_degree_fails:
  assumes "0 \<in> set (take (min (nat (gi_compressedVertexNum info)) (nat (gi_alignedCompressedVertexNum info))) (gi_outDeg info))"
  shows "dataPrepareProperty score info = None"
  using assms by (simp add: dataPrepareProperty_def Let_def)

text \<open>
  WCC marks a vertex for every kernel: with different draws the kernels start from different
  properties.
\<close>

lemma wcc_start_differs:
  assumes "dataPrepareProperty_wcc draw info = Some info'" "sp < 4" "sq < 4"
    and "select_index (gi_compressedVertexNum info) (draw sp) \<noteq> select_index (gi_compressedVertexNum info) (draw sq)"
  shows "gi_chunkPropData info' ! sp \<noteq> gi_chunkPropData info' ! sq"
proof -
  let ?i = "\<lambda>sp. select_index (gi_compressedVertexNum info) (draw sp)" and ?n = "nat (gi_alignedCompressedVertexNum info)"
  have d: "gi_chunkPropData info' = map (\<lambda>sp. (replicate ?n 0)[?i sp := 1]) [0..<KERNEL_NUM]" "?i sp < ?n"
    using assms(1,2) by (auto simp: dataPrepareProperty_wcc_def Let_def KERNEL_NUM_def not_le split: if_splits)
  have "gi_chunkPropData info' ! sp ! ?i sp = 1" "gi_chunkPropData info' ! sq ! ?i sp = 0"
    using assms(2-) d(2) by (simp_all add: d(1) KERNEL_NUM_def)
  then show ?thesis by force
qed

text \<open>The integer divisor makes the largest draws point behind the last vertex, into the padding.\<close>

lemma select_index_bound:
  assumes "0 < n" "n \<le> 2 ^ 31" "r < 2 ^ 31" "int n dvd 2 ^ 31"
  shows "select_index (int n) r < n"
proof -
  have "n dvd 2 ^ 31" using assms(4) by (metis int_dvd_int_iff of_nat_numeral of_nat_power)
  then have "(2 ^ 31 :: nat) = n * (2 ^ 31 div n)" by simp
  then have "r < n * (2 ^ 31 div n)" using assms(3) by linarith
  then show ?thesis by (simp add: select_index_def less_mult_imp_div_less)
qed

lemma select_index_padding: "select_index 3 (2 ^ 31 - 1) = 3"
  by (simp add: select_index_def)

section \<open>The start of a run\<close>

lemma host_setup_cluster_inv:
  assumes "\<forall>i < cl_nodes cl. \<forall>sp<4. propBuffer (partitionTransfer (vprop i) (info i)) sp = fst M \<and>
      propBufferNew (partitionTransfer (vprop i) (info i)) sp = snd M"
    and "\<forall>i < cl_nodes cl. \<forall>j<4. \<forall>k<16. \<forall>t < cl_psize cl div 32. vprop i j k t = 0"
  shows "cluster_inv cl M (\<lambda>i. partitionTransfer (vprop i) (info i))"
  using assms by (simp add: cluster_inv_def vprop_zero_def partitionTransfer_def)

end
