(* ===== verification/Whole_Graph.thy ===== *)
theory Whole_Graph
  imports Host_Load
begin

text \<open>
  What the whole program computes, in terms of the edge list that the partitioner reads: a
  super step gives every vertex \<open>applyFunc\<close> of what \<open>gatherFunc\<close> makes of the properties of
  its predecessors.  Partitions, channels, words and lanes do not appear in this
  specification.
\<close>

section \<open>The specification\<close>

definition vertex_inputs :: "app \<Rightarrow> vedge list \<Rightarrow> (nat \<Rightarrow> u32) \<Rightarrow> nat \<Rightarrow> u32 list" where
  "vertex_inputs a es prop v =
     filter (is_active a) (map (\<lambda>e. preprocessProperty a (prop (nat (fst e)))) (filter (\<lambda>e. snd e = int v) es))"

definition vertex_step :: "app \<Rightarrow> vedge list \<Rightarrow> (nat \<Rightarrow> u32) \<Rightarrow> (nat \<Rightarrow> u32) \<Rightarrow> nat \<Rightarrow> u32" where
  "vertex_step a es deg prop v =
     fst (applyFunc a (gather_all (gatherFunc a) (vertex_inputs a es prop v)) (prop v) (deg v) 0 0)"

text \<open>The edges of an interval, as the partitioner divides them.\<close>

definition interval_edges :: "nat \<Rightarrow> vedge list \<Rightarrow> nat \<Rightarrow> vedge list" where
  "interval_edges N es k = filter (\<lambda>e. snd e div int N = int k) es"

definition degree_of :: "cluster \<Rightarrow> nat \<Rightarrow> u32" where
  "degree_of cl v = (case cl_outDeg cl of Some d \<Rightarrow> prop_of d v | None \<Rightarrow> 0)"

section \<open>From words to vertices\<close>

lemma interval_updates:
  assumes "N = cl_psize cl" "0 < N"
  shows "edge_updates a N vprop (interval_edges N es k) (v mod N) =
    (if k = v div N then vertex_inputs a es vprop v else edge_updates a N vprop (interval_edges N es k) (v mod N))"
proof (cases "k = v div N")
  case True
  have "snd e div int N = int k \<and> nat (snd e) mod N = v mod N \<longleftrightarrow> snd e = int v" for e :: vedge
  proof
    assume a: "snd e div int N = int k \<and> nat (snd e) mod N = v mod N"
    then have "0 \<le> snd e" using assms(2) by (metis pos_imp_zdiv_nonneg_iff of_nat_0_le_iff of_nat_0_less_iff)
    then obtain n where n: "snd e = int n" using nonneg_int_cases by blast
    with a have "n div N = k" "n mod N = v mod N" by (simp_all flip: zdiv_int)
    with True have "n = v" by (metis div_mult_mod_eq)
    with n show "snd e = int v" by simp
  qed (simp add: True zdiv_int)
  then have "filter (\<lambda>e. nat (snd e) mod N = v mod N) (interval_edges N es k) = filter (\<lambda>e. snd e = int v) es"
    by (auto simp: interval_edges_def intro!: filter_cong)
  then show ?thesis by (simp add: edge_updates_def vertex_inputs_def True)
qed simp

text \<open>A word of the specification of Host_Dataflow, lane by lane.\<close>

lemma graph_step_vertex:
  assumes "cl_psize cl = 16 * cl_words cl" "0 < cl_words cl" "v < total_p_num cl * cl_psize cl"
  shows "prop_of (graph_step cl (interval_edges (cl_psize cl) es) cur other) v =
    vertex_step (cl_app cl) es (degree_of cl) (prop_of cur) v"
proof -
  let ?N = "cl_psize cl" and ?W = "cl_words cl" and ?t = "v div 16"
  note N = assms(1) and W = assms(2)
  have "v < total_p_num cl * ?W * 16" using assms(3) N by (simp add: ac_simps)
  then have t: "?t < total_p_num cl * ?W" by (rule less_mult_imp_div_less)
  have k: "?t div ?W = v div ?N" by (simp add: N div_mult2_eq)
  have o: "?t div ?W * ?W + ?t mod ?W = ?t" by simp
  have "16 * (?t mod ?W) + v mod 16 = v mod ?N" by (simp add: N mod_mult2_eq)
  moreover have "edge_updates (cl_app cl) ?N (prop_of cur) (interval_edges ?N es (v div ?N)) (v mod ?N) =
      vertex_inputs (cl_app cl) es (prop_of cur) v"
    using interval_updates [of ?N cl "cl_app cl" "prop_of cur" es "v div ?N" v] N W by simp
  ultimately have "lane (v mod 16) (graph_word cl (interval_edges ?N es) cur ?t) =
      vertex_step (cl_app cl) es (degree_of cl) (prop_of cur) v"
    unfolding graph_word_def partition_words_def vertex_step_def o
    by (simp add: lane_burst_of new_property_def prop_of_def degree_of_def k split: option.splits)
  with t show ?thesis by (simp add: prop_of_def graph_step_def)
qed

lemma vertex_inputs_cong:
  assumes "\<forall>e \<in> set es. 0 \<le> fst e \<and> fst e < int n" "\<And>u. u < n \<Longrightarrow> p u = q u"
  shows "vertex_inputs a es p v = vertex_inputs a es q v"
proof -
  have "map (\<lambda>e. preprocessProperty a (p (nat (fst e)))) (filter (\<lambda>e. snd e = int v) es) =
      map (\<lambda>e. preprocessProperty a (q (nat (fst e)))) (filter (\<lambda>e. snd e = int v) es)"
    using assms by (intro map_cong refl) (auto simp: nat_less_iff)
  then show ?thesis by (simp only: vertex_inputs_def)
qed

lemma vertex_step_cong:
  assumes "\<forall>e \<in> set es. 0 \<le> fst e \<and> fst e < int n" "\<And>u. u < n \<Longrightarrow> p u = q u" "v < n"
  shows "vertex_step a es deg p v = vertex_step a es deg q v"
  using vertex_inputs_cong [OF assms(1,2)] assms(2,3) by (simp add: vertex_step_def)

text \<open>The buffer that is read in super step \<open>k\<close> holds \<open>k\<close> steps.\<close>

lemma buffers_after_vertex:
  assumes sz: "cl_psize cl = 16 * cl_words cl" "0 < cl_words cl" and src: "\<forall>e \<in> set es. 0 \<le> fst e \<and> fst e < int (total_p_num cl * cl_psize cl)"
    and M: "\<And>u. u < total_p_num cl * cl_psize cl \<Longrightarrow> prop_of (fst M) u = p u"
    and v: "v < total_p_num cl * cl_psize cl"
  shows "prop_of (current_buffer k (buffers_after cl (interval_edges (cl_psize cl) es) M k)) v =
    (vertex_step (cl_app cl) es (degree_of cl) ^^ k) p v"
  using v
proof (induction k arbitrary: v)
  case 0
  then show ?case using M by (simp add: current_buffer_def)
next
  case (Suc k)
  let ?E = "interval_edges (cl_psize cl) es" and ?S = "vertex_step (cl_app cl) es (degree_of cl)"
  obtain x y where b: "buffers_after cl ?E M k = (x, y)" by (cases "buffers_after cl ?E M k")
  have "current_buffer (Suc k) (buffers_after cl ?E M (Suc k)) =
      graph_step cl ?E (current_buffer k (x, y)) (if k mod 2 = 0 then y else x)"
    by (cases "k mod 2 = 0") (simp_all add: current_buffer_def b mod_Suc)
  then have "prop_of (current_buffer (Suc k) (buffers_after cl ?E M (Suc k))) v = ?S (prop_of (current_buffer k (x, y))) v"
    using graph_step_vertex [OF sz Suc.prems] by simp
  also have "\<dots> = ?S ((?S ^^ k) p) v"
    by (rule vertex_step_cong [OF src _ Suc.prems]) (use Suc.IH b in simp)
  finally show ?case by simp
qed

lemma updates_ok_vertex:
  assumes N: "cl_psize cl = 16 * cl_words cl" "0 < cl_words cl" and src: "\<forall>e \<in> set es. 0 \<le> fst e \<and> fst e < int (total_p_num cl * cl_psize cl)"
    and cur: "\<And>u. u < total_p_num cl * cl_psize cl \<Longrightarrow> prop_of cur u = p u"
    and inputs: "\<forall>v. \<forall>x \<in> set (vertex_inputs (cl_app cl) es p v). okv x"
  shows "updates_ok cl (interval_edges (cl_psize cl) es) okv cur"
proof -
  let ?N = "cl_psize cl"
  have "okv x" if "x \<in> set (edge_updates (cl_app cl) ?N (prop_of cur) (interval_edges ?N es k) v)" for k v x
  proof (cases "v < ?N")
    case True
    then have "edge_updates (cl_app cl) ?N (prop_of cur) (interval_edges ?N es k) v = vertex_inputs (cl_app cl) es (prop_of cur) (k * ?N + v)"
      using interval_updates [of ?N cl "cl_app cl" "prop_of cur" es k "k * ?N + v"] N by simp
    also have "\<dots> = vertex_inputs (cl_app cl) es p (k * ?N + v)"
      by (rule vertex_inputs_cong [OF src cur])
    finally show ?thesis using inputs \<open>x \<in> _\<close> by simp
  next
    case False
    then have "nat (snd e) mod ?N \<noteq> v" for e :: vedge using N by (metis mod_less_divisor mult_pos_pos zero_less_numeral)
    then show ?thesis using \<open>x \<in> _\<close> by (simp add: edge_updates_def)
  qed
  then show ?thesis by (simp add: updates_ok_def)
qed

lemma aligned_partitions:
  assumes "graph_files_ok fs dir cl da" "0 < cl_psize cl"
  shows "total_p_num cl * cl_psize cl = cl_aligned cl"
proof -
  have "int (cl_aligned cl) = align_up (int (length (da_deg da))) (int (cl_psize cl))" using assms(1) by (simp add: graph_files_ok_def)
  then have "int (cl_psize cl) dvd int (cl_aligned cl)"
    using assms(2) align_up_ge(3) [of "int (length (da_deg da))" "int (cl_psize cl)"] by simp
  then have "cl_psize cl dvd cl_aligned cl" by simp
  then show ?thesis by (simp add: total_p_num_def)
qed

text \<open>The updates of every super step are sound when those of the specification are.\<close>

lemma vertex_steps_ok:
  assumes ok: "cluster_ok cl (interval_edges (cl_psize cl) es)"
    and src: "\<forall>e \<in> set es. 0 \<le> fst e \<and> fst e < int (total_p_num cl * cl_psize cl)"
    and M: "\<And>u. u < total_p_num cl * cl_psize cl \<Longrightarrow> prop_of (fst M) u = p u"
    and upd: "\<forall>j<k. \<forall>v. \<forall>x \<in> set (vertex_inputs (cl_app cl) es ((vertex_step (cl_app cl) es (degree_of cl) ^^ j) p) v). okv x"
  shows "\<forall>j<k. updates_ok cl (interval_edges (cl_psize cl) es) okv (current_buffer j (buffers_after cl (interval_edges (cl_psize cl) es) M j))"
proof (intro allI impI)
  fix j assume "j < k"
  note sz = cluster_sizes(1,2) [OF ok]
  note bv = buffers_after_vertex [OF sz src, of M p, OF M]
  show "updates_ok cl (interval_edges (cl_psize cl) es) okv (current_buffer j (buffers_after cl (interval_edges (cl_psize cl) es) M j))"
    using upd \<open>j < k\<close> by (intro updates_ok_vertex [OF sz src bv]) simp_all
qed

section \<open>The partitioner's files of a graph\<close>

context partitioner
begin

lemma partition_main_intervals:
  assumes "partition_main edgeSort splits blockSort batchSort flt es = Some fss" "in_range es"
    and "cl_psize cl = nat TARGET_RANGE" "total_p_num cl = length fss" "\<forall>k < length fss. cl_files cl k = fss ! k"
  shows "\<forall>k < total_p_num cl. partition_interval edgeSort splits blockSort batchSort flt (interval_edges (cl_psize cl) es k) = Some (cl_files cl k)"
proof -
  have r: "\<forall>e \<in> set es. 0 \<le> snd e \<and> snd e < int (intervalNum es) * TARGET_RANGE"
    using assms(2) by (simp add: in_range_def)
  have "length fss = intervalNum es"
      "\<forall>i < intervalNum es. partition_interval edgeSort splits blockSort batchSort flt (filter (\<lambda>e. snd e div TARGET_RANGE = int i) es) = Some (fss ! i)"
    using assms(1) by (simp_all add: partition_main_def divide_all_spec [OF r] those_map del: map_map)
  moreover have "int (nat TARGET_RANGE) = TARGET_RANGE" by (simp add: TARGET_RANGE_def)
  ultimately show ?thesis using assms(3-5) by (simp add: interval_edges_def)
qed

text \<open>A run of the cluster from any buffers, one vertex at a time.\<close>

lemma cluster_vertex_steps:
  assumes files: "\<forall>k < total_p_num cl. partition_interval edgeSort splits blockSort batchSort flt (interval_edges (cl_psize cl) es k) = Some (cl_files cl k)"
    and ok: "cluster_ok cl (interval_edges (cl_psize cl) es)"
    and src: "\<forall>e \<in> set es. 0 \<le> fst e \<and> fst e < int (total_p_num cl * cl_psize cl)"
    and inv: "cluster_inv cl M c0" and M: "\<And>u. u < total_p_num cl * cl_psize cl \<Longrightarrow> prop_of (fst M) u = p u"
    and alg: "gather_algebra (gatherFunc (cl_app cl)) okv" "extra_free (cl_app cl)"
    and upd: "\<forall>j<k. \<forall>v. \<forall>x \<in> set (vertex_inputs (cl_app cl) es ((vertex_step (cl_app cl) es (degree_of cl) ^^ j) p) v). okv x"
    and run: "clementi_run cl c0 k c net" and iv: "i < cl_nodes cl" "sp < 4" "v < total_p_num cl * cl_psize cl"
  shows "prop_of (read_buffer k (c i) sp) v = (vertex_step (cl_app cl) es (degree_of cl) ^^ k) p v"
proof -
  let ?E = "interval_edges (cl_psize cl) es"
  note sz = cluster_sizes(1,2) [OF ok]
  note bv = buffers_after_vertex [OF sz src, of M p, OF M]
  note u = vertex_steps_ok [OF ok src M upd]
  have "cluster_inv cl (buffers_after cl ?E M k) c"
    using clementi_run_result [OF run files ok inv alg u] by blast
  then have "read_buffer k (c i) sp = current_buffer k (buffers_after cl ?E M k)"
    using cluster_inv_read [OF _ iv(1)] iv(2) by blast
  with bv [OF _ iv(3)] show ?thesis by simp
qed

text \<open>The whole program: partitioner, files, loading, super steps.\<close>

lemma program_result:
  assumes part: "partition_main edgeSort splits blockSort batchSort flt es = Some fss" "in_range es"
    and cl: "cl_psize cl = nat TARGET_RANGE" "total_p_num cl = length fss" "\<forall>k < length fss. cl_files cl k = fss ! k"
      "cluster_ok cl (interval_edges (cl_psize cl) es)" "dataset_ok fs dir cl da"
    and src: "\<forall>e \<in> set es. 0 \<le> fst e \<and> fst e < int (cl_aligned cl)"
    and set_up: "\<forall>i < cl_nodes cl. host_setup fs dir (int (cl_psize cl)) score (cl_nodes cl) i = Some (info i)"
    and vprop: "\<forall>i < cl_nodes cl. \<forall>j<4. \<forall>k<16. \<forall>t < cl_psize cl div 32. vprop i j k t = 0"
    and alg: "gather_algebra (gatherFunc (cl_app cl)) okv" "extra_free (cl_app cl)"
    and upd: "\<forall>j<k. \<forall>v. \<forall>x \<in> set (vertex_inputs (cl_app cl) es
        ((vertex_step (cl_app cl) es (degree_of cl) ^^ j) (prop_of (int_mem (first_props score cl da)))) v). okv x"
    and run: "clementi_run cl (\<lambda>i. partitionTransfer (vprop i) (info i)) k c net"
    and iv: "i < cl_nodes cl" "sp < 4" "v < cl_aligned cl"
  shows "prop_of (read_buffer k (c i) sp) v =
    (vertex_step (cl_app cl) es (degree_of cl) ^^ k) (prop_of (int_mem (first_props score cl da))) v"
proof -
  let ?E = "interval_edges (cl_psize cl) es" and ?M = "start_buffers score cl da"
  have al: "total_p_num cl * cl_psize cl = cl_aligned cl"
    by (rule aligned_partitions [of fs dir cl da]) (use cl(1,5) in \<open>simp_all add: dataset_ok_def TARGET_RANGE_def\<close>)
  note files = partition_main_intervals [OF part cl(1-3)]
  have start: "\<forall>i < cl_nodes cl. \<forall>sp<4. propBuffer (partitionTransfer (vprop i) (info i)) sp = fst ?M \<and>
      propBufferNew (partitionTransfer (vprop i) (info i)) sp = snd ?M"
  proof (rule allI, rule impI)
    fix i assume i: "i < cl_nodes cl"
    obtain x where x: "host_setup fs dir (int (cl_psize cl)) score (cl_nodes cl) i = Some x"
      "\<forall>sp<4. propBuffer (partitionTransfer (vprop i) x) sp = fst ?M \<and> propBufferNew (partitionTransfer (vprop i) x) sp = snd ?M"
      using host_setup_result [OF cl(5,4) i files, of score "vprop i"] by blast
    with set_up i have "info i = x" by simp
    with x(2) show "\<forall>sp<4. propBuffer (partitionTransfer (vprop i) (info i)) sp = fst ?M \<and>
        propBufferNew (partitionTransfer (vprop i) (info i)) sp = snd ?M" by simp
  qed
  have inv: "cluster_inv cl ?M (\<lambda>i. partitionTransfer (vprop i) (info i))"
    by (rule host_setup_cluster_inv [OF start vprop])
  have M: "prop_of (fst ?M) u = prop_of (int_mem (first_props score cl da)) u" for u by (simp add: start_buffers_def)
  show ?thesis
    by (rule cluster_vertex_steps [OF files cl(4) _ inv M alg upd run iv(1,2)]) (use src iv(3) al in simp_all)
qed

end

end
