(* ===== verification/Example_Cluster.thy ===== *)
theory Example_Cluster
  imports Host_Dataflow
begin

text \<open>
  A cluster of two nodes and two partitions with PageRank, on which the theorems about
  runs are applied: four edges in each partition, node 0 works on partition 1 and node 1 on
  partition 0.
\<close>

definition demo_edges :: "nat \<Rightarrow> vedge list" where
  "demo_edges k = [(0, 1024 * int k + 5), (1, 1024 * int k + 5), (2, 1024 * int k + 5), (3, 1024 * int k + 7)]"

definition demo_cluster :: cluster where
  "demo_cluster = \<lparr>cl_app = pr_app, cl_psize = 1024, cl_block = 0, cl_nodes = 2, cl_aligned = 2048,
     cl_schedule = (\<lambda>i. [1 - i]), cl_files = (\<lambda>k. map (\<lambda>e. save_edges (sort_key fst) [[e]]) (demo_edges k)),
     cl_outDeg = Some (\<lambda>_. burst_of (\<lambda>_. 1))\<rparr>"

text \<open>All properties are 256 at the start.\<close>

definition demo_start :: "nat \<Rightarrow> node_dev" where
  "demo_start i = \<lparr>propBuffer = (\<lambda>_ _. burst_of (\<lambda>_. 256)), propBufferNew = (\<lambda>_ _. 0), dev_propTemp = (\<lambda>_. 0),
     dev_vprop = (\<lambda>_ _ _. 0)\<rparr>"

definition demo_buffers :: "mem \<times> mem" where
  "demo_buffers = (\<lambda>_. burst_of (\<lambda>_. 256), \<lambda>_. 0)"

text \<open>Four edges with the sources 0 to 3 give every kernel one edge.\<close>

lemma four_edge_files: "partition_interval (sort_key fst) (\<lambda>k n. n) (sort_key (\<lambda>b. - int (length b)))
    (sort_key (\<lambda>p. - int (snd p))) (\<lambda>x. x) [(0, a), (1, b), (2, c), (3, d)] =
    Some (map (\<lambda>e. save_edges (sort_key fst) [[e]]) [(0, a), (1, b), (2, c), (3, d)])"
  by code_simp

lemma demo_files: "partition_interval (sort_key fst) (\<lambda>k n. n) (sort_key (\<lambda>b. - int (length b)))
    (sort_key (\<lambda>p. - int (snd p))) (\<lambda>x. x) (demo_edges k) = Some (cl_files demo_cluster k)"
  by (simp only: demo_edges_def four_edge_files demo_cluster_def cluster.simps)

lemma demo_cache_safe:
  assumes "0 \<le> fst e" "fst e < 16"
  shows "cache_safe 0 (save_edges (sort_key fst) [[e]])"
proof -
  let ?f = "save_edges (sort_key fst) [[e]]" and ?v = "nat (fst e)"
  have s: "file_sources ?f = ?v # replicate 31 ?v"
    by (simp add: file_sources_def save_edges_def)
  have "?v div 16 = 0" using assms by simp
  then have "blocks_of 0 (file_sources ?f) = remdups_adj (0 # replicate 31 0)"
    unfolding s blocks_of_def by simp
  also have "\<dots> = remdups_adj (replicate (Suc 31) 0)" by (simp only: replicate_Suc)
  also have "\<dots> = [0]" by (simp only: remdups_adj_replicate) simp
  finally have "cache_line_numbers 0 ?f = [0, 1, 2]" by (simp add: cache_line_numbers_def block_lines_def)
  moreover have "no_alias [0, 1, 2]" by (rule no_alias_span) simp_all
  ultimately show ?thesis by (simp add: cache_safe_def)
qed

lemma demo_partitions: "total_p_num demo_cluster = 2" "cl_words demo_cluster = 64" "cl_nodes demo_cluster = 2"
  by (simp_all add: demo_cluster_def total_p_num_def cl_words_def)

lemma demo_cluster_files: "\<forall>q < total_p_num demo_cluster. partition_interval (sort_key fst) (\<lambda>k n. n) (sort_key (\<lambda>b. - int (length b)))
      (sort_key (\<lambda>p. - int (snd p))) (\<lambda>x. x) (demo_edges q) = Some (cl_files demo_cluster q)"
  using demo_files by (simp add: demo_partitions)

lemma demo_ok: "cluster_ok demo_cluster demo_edges"
proof -
  have "\<exists>x. 1024 = (2::nat) ^ x \<and> 10 \<le> x \<and> x < 32" by (rule exI [of _ 10]) simp
  moreover have "mset (concat (map (\<lambda>i. [1 - i]) [0..<2])) = mset [0..<2::nat]" by (simp add: upt_rec)
  ultimately show ?thesis
    by (simp add: cluster_ok_def demo_cluster_def total_p_num_def cl_words_def demo_cache_safe demo_edges_def)
qed

lemma demo_inv: "cluster_inv demo_cluster demo_buffers demo_start"
  by (simp add: cluster_inv_def demo_start_def demo_buffers_def vprop_zero_def)

lemma demo_updates: "updates_ok demo_cluster demo_edges (\<lambda>_. True) cur"
  by (simp add: updates_ok_def)

lemma demo_app: "gather_algebra (gatherFunc (cl_app demo_cluster)) (\<lambda>_. True)" "extra_free (cl_app demo_cluster)"
  by (simp_all add: demo_cluster_def pr_app_def pr_alg.gather_algebra_axioms extra_free_def pr_apply_def Let_def)

lemma pr_apply_648: "fst (pr_apply 768 256 1 0 0) = 648" by code_simp

text \<open>Vertex 5 gets the properties of vertices 0, 1 and 2, times 108 / 128.\<close>

lemma demo_result: "lane 5 (snd (buffers_after demo_cluster demo_edges demo_buffers 1) 0) = 648"
proof -
  have u: "edge_updates pr_app 1024 (prop_of (fst demo_buffers)) (demo_edges 0) 5 = [256, 256, 256]"
    by (simp add: edge_updates_def demo_edges_def pr_app_def prop_of_def demo_buffers_def lane_burst_of)
  have "lane 5 (graph_word demo_cluster demo_edges (fst demo_buffers) 0) = 648"
    unfolding graph_word_def demo_partitions
    by (simp add: partition_words_def demo_cluster_def lane_burst_of new_property_def u)
      (simp add: pr_app_def gather_all_def pr_gather_def demo_buffers_def lane_burst_of pr_apply_648)
  then show ?thesis by (simp add: graph_step_def demo_partitions split: prod.splits) (simp add: demo_buffers_def)
qed

end
