(* ===== verification/Example_Program.thy ===== *)
theory Example_Program
  imports Whole_Graph Example_Cluster
begin

text \<open>
  A graph with eight edges in two intervals of destinations, its files on disk, and a
  cluster of two nodes with PageRank that runs on it.  All vertices have degree 1 and start
  with the property 256.
\<close>

definition graph_size :: nat where "graph_size = 2097152"

definition demo_part :: "int \<Rightarrow> vedge list" where
  "demo_part k = [(0, 1048576 * k + 5), (1, 1048576 * k + 5), (2, 1048576 * k + 5), (3, 1048576 * k + 7)]"

definition demo_graph :: "vedge list" where
  "demo_graph = demo_part 0 @ demo_part 1"

definition demo_program :: cluster where
  "demo_program = \<lparr>cl_app = pr_app, cl_psize = nat TARGET_RANGE, cl_block = 0, cl_nodes = 2, cl_aligned = graph_size,
     cl_schedule = (\<lambda>i. [1 - i]), cl_files = (\<lambda>k. map (\<lambda>e. save_edges (sort_key fst) [[e]]) (demo_part (int k))),
     cl_outDeg = Some (int_mem (replicate graph_size 1))\<rparr>"

definition demo_data :: dataset where
  "demo_data = \<lparr>da_vertexNum = graph_size, da_map = map int [0..<graph_size], da_deg = replicate graph_size 1\<rparr>"

definition demo_fs :: file_system where
  "demo_fs = \<lparr>text_files = (\<lambda>name. if name = schedule_file_name ''d'' 2
       then Some (map (\<lambda>i. schedule_text (map int (cl_schedule demo_program i))) [0..<2]) else None),
     bin_files = (\<lambda>name. if name = ''d/idxMap.bin'' then Some (int_words (int graph_size # int graph_size # da_map demo_data))
       else if name = ''d/outDeg.bin'' then Some (int_words (int graph_size # da_deg demo_data))
       else (case find (\<lambda>(k, sp). edge_file_name ''d'' (int k) sp = name) (List.product [0..<2] [0..<4]) of
               Some (k, sp) \<Rightarrow> Some (file_words (cl_files demo_program k ! sp)) | None \<Rightarrow> None))\<rparr>"

lemma demo_program_sizes: "total_p_num demo_program = 2" "cl_words demo_program = 65536" "cl_nodes demo_program = 2"
    "cl_psize demo_program = 1048576" "cl_aligned demo_program = graph_size" "cl_app demo_program = pr_app"
  by (simp_all add: demo_program_def total_p_num_def cl_words_def TARGET_RANGE_def graph_size_def)

lemma demo_graph_intervals: "intervalNum demo_graph = 2" "in_range demo_graph"
proof -
  show n: "intervalNum demo_graph = 2"
    by (simp add: intervalNum_def maxVertexId_def sdiv_range TARGET_RANGE_def demo_graph_def demo_part_def)
  show "in_range demo_graph"
    unfolding in_range_def n by (simp add: TARGET_RANGE_def demo_graph_def demo_part_def)
qed

lemma demo_interval_edges: "k < 2 \<Longrightarrow> interval_edges (cl_psize demo_program) demo_graph k = demo_part (int k)"
proof -
  assume "k < 2"
  then have "k = 0 \<or> k = 1" by auto
  then show ?thesis by (auto simp: interval_edges_def demo_program_sizes demo_graph_def demo_part_def)
qed

lemma demo_part_files: "partition_interval (sort_key fst) (\<lambda>k n. n) (sort_key (\<lambda>b. - int (length b)))
    (sort_key (\<lambda>p. - int (snd p))) (\<lambda>x. x) (demo_part (int k)) = Some (cl_files demo_program k)"
  by (simp only: demo_part_def four_edge_files demo_program_def cluster.simps)

lemma demo_main: "partition_main (sort_key fst) (\<lambda>k n. n) (sort_key (\<lambda>b. - int (length b))) (sort_key (\<lambda>p. - int (snd p)))
    (\<lambda>x. x) demo_graph = Some (map (cl_files demo_program) [0..<2])"
proof -
  have r: "\<forall>e \<in> set demo_graph. 0 \<le> snd e \<and> snd e < int (intervalNum demo_graph) * TARGET_RANGE"
    using demo_graph_intervals(2) by (simp add: in_range_def)
  have "filter (\<lambda>e. snd e div TARGET_RANGE = int i) demo_graph = demo_part (int i)" if "i < 2" for i
    using demo_interval_edges [OF that] by (simp add: interval_edges_def demo_program_sizes TARGET_RANGE_def)
  then show ?thesis
    by (simp add: partition_main_def divide_all_spec [OF r] those_map demo_graph_intervals(1) demo_part_files del: map_map upt_Suc)
qed

lemma demo_program_ok: "cluster_ok demo_program (interval_edges (cl_psize demo_program) demo_graph)"
proof -
  have "\<exists>x. 1048576 = (2::nat) ^ x \<and> 10 \<le> x \<and> x < 32" by (rule exI [of _ 20]) simp
  moreover have "mset (concat (map (cl_schedule demo_program) [0..<2])) = mset [0..<2::nat]" by (simp add: demo_program_def upt_rec)
  moreover have "length (demo_part (int k)) + 32 < 2 ^ 27" for k by (simp add: demo_part_def)
  moreover have "\<forall>e \<in> set (demo_part (int k)). 0 \<le> fst e \<and> fst e < 2 ^ 31 \<and> 0 \<le> snd e \<and> snd e < 2 ^ 31" if "k < 2" for k
    using that by (simp add: demo_part_def)
  moreover have "\<forall>f \<in> set (cl_files demo_program k). cache_safe (cl_block demo_program) f" for k
    by (simp add: demo_program_def demo_part_def demo_cache_safe)
  moreover have "cl_block demo_program < 27" "\<forall>i<2. cl_schedule demo_program i \<noteq> []" by (simp_all add: demo_program_def)
  ultimately show ?thesis
    unfolding cluster_ok_def demo_program_sizes(1-4) using demo_interval_edges by (simp add: demo_program_sizes)
qed

lemma demo_padding: "padded_degrees demo_program demo_data = replicate graph_size 1"
    "first_props (\<lambda>_. 256) demo_program demo_data = replicate graph_size 256"
  by (simp_all add: padded_degrees_def first_props_def demo_data_def demo_program_sizes signed_divide_int_def)

lemma demo_edge_file:
  assumes "k < 2" "sp < 4"
  shows "bin_files demo_fs (edge_file_name ''d'' (int k) sp) = Some (file_words (cl_files demo_program k ! sp))"
proof -
  have "find (\<lambda>(k', sp'). edge_file_name ''d'' (int k') sp' = edge_file_name ''d'' (int k) sp) (List.product [0..<2] [0..<4]) = Some (k, sp)"
    using assms by (auto simp: edge_file_name_inject upt_rec numeral_eq_Suc less_Suc_eq)
  moreover have "edge_file_name ''d'' (int k) sp \<noteq> ''d/idxMap.bin''" "edge_file_name ''d'' (int k) sp \<noteq> ''d/outDeg.bin''"
    by (simp_all add: edge_file_name_def)
  ultimately show ?thesis by (simp add: demo_fs_def)
qed

lemma demo_dataset: "dataset_ok demo_fs ''d'' demo_program demo_data"
proof -
  have "text_files demo_fs (schedule_file_name ''d'' 2) = Some (map (\<lambda>i. schedule_text (map int (cl_schedule demo_program i))) [0..<2])"
    by (simp add: demo_fs_def)
  moreover have "bin_files demo_fs (''d'' @ ''/idxMap.bin'') = Some (int_words (int graph_size # int graph_size # da_map demo_data))"
    "bin_files demo_fs (''d'' @ ''/outDeg.bin'') = Some (int_words (int graph_size # da_deg demo_data))"
    by (simp_all add: demo_fs_def)
  moreover have "is_int32 (int i)" if "i < graph_size" for i using that by (simp add: is_int32_def graph_size_def)
  moreover have "align_up (int graph_size) 1048576 = int graph_size"
    by (simp add: align_up_def graph_size_def signed_divide_int_def)
  moreover have "cl_outDeg demo_program = Some (int_mem (padded_degrees demo_program demo_data))"
    by (simp add: demo_padding) (simp add: demo_program_def)
  moreover have "is_int32 1" by (simp add: is_int32_def)
  moreover have "graph_size < 2 ^ 31" "graph_size + 1048576 \<le> 2 ^ 31" by (simp_all add: graph_size_def)
  ultimately show ?thesis
    unfolding dataset_ok_def graph_files_ok_def demo_program_sizes(1,3-5) using demo_edge_file
    by (simp add: demo_data_def filter_map comp_def)
qed

lemma demo_sources: "\<forall>e \<in> set demo_graph. 0 \<le> fst e \<and> fst e < int (cl_aligned demo_program)"
  by (simp add: demo_graph_def demo_part_def demo_program_sizes graph_size_def)

definition demo_info :: "nat \<Rightarrow> graphInfo" where
  "demo_info i = the (host_setup demo_fs ''d'' (int (cl_psize demo_program)) (\<lambda>_. 256) (cl_nodes demo_program) i)"

lemma demo_program_files: "\<forall>k < total_p_num demo_program. partition_interval (sort_key fst) (\<lambda>k n. n) (sort_key (\<lambda>b. - int (length b)))
      (sort_key (\<lambda>p. - int (snd p))) (\<lambda>x. x) (interval_edges (cl_psize demo_program) demo_graph k) = Some (cl_files demo_program k)"
  using demo_interval_edges demo_part_files by (simp add: demo_program_sizes(1))

lemma demo_setup:
  assumes "i < cl_nodes demo_program"
  shows "host_setup demo_fs ''d'' (int (cl_psize demo_program)) (\<lambda>_. 256) (cl_nodes demo_program) i = Some (demo_info i)"
    "\<forall>sp<4. propBuffer (partitionTransfer vprop (demo_info i)) sp = fst (start_buffers (\<lambda>_. 256) demo_program demo_data) \<and>
       propBufferNew (partitionTransfer vprop (demo_info i)) sp = snd (start_buffers (\<lambda>_. 256) demo_program demo_data)"
  using std_partitioner.host_setup_result [OF demo_dataset demo_program_ok assms demo_program_files, of "\<lambda>_. 256" vprop]
  by (auto simp: demo_info_def)

lemma demo_program_app: "gather_algebra (gatherFunc (cl_app demo_program)) (\<lambda>_. True)" "extra_free (cl_app demo_program)"
  using demo_app by (simp_all add: demo_cluster_def demo_program_def)

lemma demo_program_run:
  "\<exists>c net. clementi_run demo_program (\<lambda>i. partitionTransfer (\<lambda>_ _ _. 0) (demo_info i)) k c net"
  by (rule std_partitioner.clementi_run_exists [OF demo_program_files demo_program_ok _ demo_program_app])
    (use demo_setup(2) in \<open>auto intro!: host_setup_cluster_inv simp: updates_ok_def\<close>)

text \<open>Vertex 5 gets the properties of vertices 0, 1 and 2, times 108 / 128.\<close>

lemma demo_vertex: "vertex_step pr_app demo_graph (degree_of demo_program) (prop_of (int_mem (first_props (\<lambda>_. 256) demo_program demo_data))) 5 = 648"
proof -
  have p: "prop_of (int_mem (replicate graph_size x)) v = word_of_int x" if "v < 1000" for v x
    using that by (simp add: prop_of_int_mem graph_size_def)
  have "vertex_inputs pr_app demo_graph (prop_of (int_mem (first_props (\<lambda>_. 256) demo_program demo_data))) 5 = [256, 256, 256]"
    by (simp add: vertex_inputs_def demo_graph_def demo_part_def demo_padding p pr_app_def)
  moreover have "degree_of demo_program 5 = 1" by (simp add: degree_of_def demo_program_def p)
  ultimately show ?thesis
    by (simp add: vertex_step_def demo_padding p) (simp add: pr_app_def gather_all_def pr_gather_def pr_apply_648)
qed

end
