(* ===== verification/Gas_Ring.thy ===== *)
theory Gas_Ring
  imports Cached_Node
begin

text \<open>
  The kernels of the single-FPGA design, connected as in \<open>app/single_gas/kernel.cfg\<close>: the
  beats of \<open>streamSync\<close> go through the four \<open>streamMerge\<close> kernels, \<open>streamApply\<close> and the four
  \<open>streamForward\<close> kernels back to \<open>streamSync\<close>.  The kernels run at the same time and are
  connected by FIFOs of bounded depth: one call of the design is a step relation, with the
  kernels of \<open>src/single_gas\<close> firing in any order.  An iteration of a free-running kernel is one
  step; the two halves of an iteration of \<open>streamSync\<close> (write, then poll) are two.
\<close>

section \<open>The call and the state\<close>

text \<open>
  The arguments of a call (\<open>setAccKernelArgs\<close>, \<open>acceleratorExecute\<close>), the depths of the
  FIFOs, the beats of the four gather-scatter kernels and the contents of the memories.
\<close>

record gas_call =
  gc_app :: app
  gc_loop :: nat                     \<comment> \<open>\<open>MAX_VERTICES_IN_ONE_PARTITION >> 4\<close>\<close>
  gc_dest :: u32
  gc_FIFO_length :: u32
  gc_vertexNum :: u32
  gc_offset :: u32
  gc_arg :: u32
  gc_cap :: "nat \<Rightarrow> nat"              \<comment> \<open>depth of the FIFO behind a stage of the ring\<close>
  gc_in_cap :: "nat \<Rightarrow> nat"           \<comment> \<open>depth of \<open>gs.tmpVertexProp:streamMerge.input_a\<close>\<close>
  gc_out_cap :: "nat \<Rightarrow> nat"          \<comment> \<open>depth of \<open>streamForward.output_a:streamWrite.vertexPropIn\<close>\<close>
  gc_tmp :: "nat \<Rightarrow> burst_dest list"
  gc_vertexProp :: mem
  gc_outDegree :: "mem option"
  gc_old :: "nat \<Rightarrow> mem"
  gc_beat :: burst_dest
  gc_junk :: "nat \<Rightarrow> nat \<Rightarrow> u32"

datatype sync_pc = Sync_write | Sync_read

text \<open>
  The FIFO \<open>k\<close> of the ring is behind stage \<open>k\<close>.  Stage 0 is \<open>streamSync\<close>, the stages 1 to 4
  are \<open>streamMerge_4\<close> to \<open>streamMerge_1\<close>, stage 5 is \<open>streamApply\<close>, the stages 6 to 9 are
  \<open>streamForward_1\<close> to \<open>streamForward_4\<close>.  The kernels of a type are numbered from 0, as in
  the host program.
\<close>

record gas_state =
  sync_w :: int
  sync_r :: int
  sync_at :: sync_pc
  fifo :: "nat \<Rightarrow> burst_dest list"
  gs_rest :: "nat \<Rightarrow> burst_dest list"   \<comment> \<open>what a gather-scatter kernel has still to send\<close>
  gs_fifo :: "nat \<Rightarrow> burst_dest list"
  pos :: "nat \<Rightarrow> nat"                   \<comment> \<open>\<open>i\<close> of a free-running kernel\<close>
  ap_c :: nat
  ap_info :: "nat \<Rightarrow> u32"
  ap_degs :: "burst list option"
  ap_props :: "burst list"
  wr_fifo :: "nat \<Rightarrow> burst_dest list"
  wr_k :: "nat \<Rightarrow> nat"
  wr_mem :: "nat \<Rightarrow> mem"

definition sync_loopNum :: "gas_call \<Rightarrow> int" where
  "sync_loopNum c = sint (signed_drop_bit 4 (gc_vertexNum c))"

definition apply_loopNum :: "gas_call \<Rightarrow> nat" where
  "apply_loopNum c = unat (drop_bit 4 (gc_vertexNum c))"

definition write_beats :: "gas_call \<Rightarrow> nat" where
  "write_beats c = unat (drop_bit (LOG_WRITE_BURST_LEN + LOG2_SIZE_BY_INT) (gc_vertexNum c)) * WRITE_BACK_BURST_LENGTH"

definition write_start :: "gas_call \<Rightarrow> u32" where
  "write_start c = drop_bit LOG2_SIZE_BY_INT (gc_offset c)"

definition read_props :: "gas_call \<Rightarrow> burst list" where
  "read_props c = burstReadLiteRaw (gc_offset c) (gc_vertexNum c) (gc_vertexProp c)"

definition read_degs :: "gas_call \<Rightarrow> burst list option" where
  "read_degs c = map_option (burstReadLiteRaw (gc_offset c) (gc_vertexNum c)) (gc_outDegree c)"

definition gas_init :: "gas_call \<Rightarrow> gas_state" where
  "gas_init c = \<lparr>sync_w = 0, sync_r = 0, sync_at = Sync_write, fifo = (\<lambda>_. []), gs_rest = gc_tmp c, gs_fifo = (\<lambda>_. []),
     pos = (\<lambda>_. 0), ap_c = 0, ap_info = (\<lambda>_. 0), ap_degs = read_degs c, ap_props = read_props c,
     wr_fifo = (\<lambda>_. []), wr_k = (\<lambda>_. 0), wr_mem = gc_old c\<rparr>"

section \<open>The steps\<close>

text \<open>
  A step with the label \<open>True\<close> moves a beat; the others are the idle halves of an iteration of
  \<open>streamSync\<close>: nothing to write because the window is full or all is written, and a poll
  that finds its input empty.
\<close>

inductive gas_step :: "gas_call \<Rightarrow> gas_state \<Rightarrow> bool \<Rightarrow> gas_state \<Rightarrow> bool" for c where
  sync_send: "gas_step c s True (s\<lparr>sync_at := Sync_read, sync_w := sync_w s + 1,
      fifo := (fifo s)(0 := fifo s 0 @ [sync_beat (ucast (gc_dest c)) (sync_loopNum c) (sync_w s)])\<rparr>)"
  if "sync_at s = Sync_write" "sync_w s - sync_r s < sint (gc_FIFO_length c)" "sync_w s < sync_loopNum c"
    "length (fifo s 0) < gc_cap c 0"
| sync_hold: "gas_step c s False (s\<lparr>sync_at := Sync_read\<rparr>)"
  if "sync_at s = Sync_write" "sync_w s < sync_loopNum c \<or> sync_r s < sync_loopNum c"
    "\<not> (sync_w s - sync_r s < sint (gc_FIFO_length c) \<and> sync_w s < sync_loopNum c)"
| sync_take: "gas_step c s True (s\<lparr>sync_at := Sync_write, sync_r := sync_r s + 1, fifo := (fifo s)(9 := xs)\<rparr>)"
  if "sync_at s = Sync_read" "sync_r s < sync_loopNum c" "fifo s 9 = x # xs"
| sync_poll: "gas_step c s False (s\<lparr>sync_at := Sync_write\<rparr>)"
  if "sync_at s = Sync_read" "\<not> (sync_r s < sync_loopNum c \<and> fifo s 9 \<noteq> [])"
| gs_send: "gas_step c s True (s\<lparr>gs_rest := (gs_rest s)(sp := xs), gs_fifo := (gs_fifo s)(sp := gs_fifo s sp @ [x])\<rparr>)"
  if "sp < 4" "gs_rest s sp = x # xs" "length (gs_fifo s sp) < gc_in_cap c sp"
| merge: "gas_step c s True (s\<lparr>gs_fifo := (gs_fifo s)(sp := xs), pos := (pos s)(4 - sp := next_beat (gc_loop c) (pos s (4 - sp))),
      fifo := (fifo s)(3 - sp := ys,
        4 - sp := fifo s (4 - sp) @ gas_streamMerge (gc_app c) (gc_loop c) (pos s (4 - sp)) [x] [y])\<rparr>)"
  if "sp < 4" "gs_fifo s sp = x # xs" "fifo s (3 - sp) = y # ys" "length (fifo s (4 - sp)) < gc_cap c (4 - sp)"
| apply_beat: "gas_step c s True (s\<lparr>ap_c := ap_c s + 1, ap_info := info, ap_degs := degs, ap_props := props,
      fifo := (fifo s)(4 := tmps, 5 := fifo s 5 @ os)\<rparr>)"
  if "ap_c s < apply_loopNum c" "length (fifo s 5) < gc_cap c 5"
    "applyFunction_loop (gc_app c) (gc_beat c) (gc_arg c) (gc_junk c) (ap_c s) 1 (ap_info s) (ap_degs s) (ap_props s) (fifo s 4) =
       (os, info, degs, props, tmps, Returned)"
| forward: "gas_step c s True (s\<lparr>pos := (pos s)(6 + sp := next_beat (gc_loop c) (pos s (6 + sp))),
      wr_fifo := (wr_fifo s)(sp := wr_fifo s sp @ port 1 out),
      fifo := (fifo s)(5 + sp := xs, 6 + sp := fifo s (6 + sp) @ port 2 out)\<rparr>)"
  if "sp < 4" "fifo s (5 + sp) = x # xs" "length (wr_fifo s sp) < gc_out_cap c sp"
    "length (fifo s (6 + sp)) < gc_cap c (6 + sp)" "gas_streamForward (gc_loop c) (pos s (6 + sp)) [x] = out"
| write_word: "gas_step c s True (s\<lparr>wr_fifo := (wr_fifo s)(sp := xs), wr_k := (wr_k s)(sp := wr_k s sp + 1),
      wr_mem := (wr_mem s)(sp := fst (streamWrite_loop (write_start c) (wr_k s sp) 1 (wr_mem s sp) [x]))\<rparr>)"
  if "sp < 4" "wr_k s sp < write_beats c" "wr_fifo s sp = x # xs"

text \<open>The states of a call, with the number of beats moved so far.\<close>

inductive gas_run :: "gas_call \<Rightarrow> nat \<Rightarrow> gas_state \<Rightarrow> bool" for c where
  run_init: "gas_run c 0 (gas_init c)"
| run_step: "gas_run c (if b then Suc m else m) s'" if "gas_run c m s" "gas_step c s b s'"

text \<open>
  The host waits for \<open>streamSync\<close>, \<open>streamApply\<close> and the writers; the other kernels never
  return.
\<close>

definition gas_returned :: "gas_call \<Rightarrow> gas_state \<Rightarrow> bool" where
  "gas_returned c s \<longleftrightarrow> sync_at s = Sync_write \<and> \<not> (sync_w s < sync_loopNum c \<or> sync_r s < sync_loopNum c) \<and>
     ap_c s = apply_loopNum c \<and> (\<forall>sp<4. wr_k s sp = write_beats c)"

section \<open>The specification: the kernels composed as functions\<close>

primrec gas_chan :: "gas_call \<Rightarrow> nat \<Rightarrow> burst_dest list" where
  "gas_chan c 0 = map (\<lambda>t. sync_beat (ucast (gc_dest c)) (sync_loopNum c) (int t)) [0..<gc_loop c]"
| "gas_chan c (Suc k) =
     (if k < 4 then gas_streamMerge (gc_app c) (gc_loop c) 0 (gc_tmp c (3 - k)) (gas_chan c k)
      else if k = 4 then fst (applyFunction_loop (gc_app c) (gc_beat c) (gc_arg c) (gc_junk c) 0 (apply_loopNum c) (\<lambda>_. 0)
        (read_degs c) (read_props c) (gas_chan c k))
      else port 2 (gas_streamForward (gc_loop c) 0 (gas_chan c k)))"

text \<open>What the call leaves in the memory of kernel \<open>sp\<close>, and in \<open>outReg[0]\<close>.\<close>

definition gas_memory :: "gas_call \<Rightarrow> nat \<Rightarrow> mem" where
  "gas_memory c sp = fst (streamWrite (gc_old c sp) (gas_chan c (6 + sp)) (gc_offset c) (gc_vertexNum c))"

text \<open>
  Arguments that agree: every loop has \<open>n\<close> iterations, the gather-scatter kernels send \<open>n\<close>
  beats, the apply stage reads at least \<open>n\<close> words, no FIFO has depth 0.
\<close>

definition gas_call_ok :: "gas_call \<Rightarrow> nat \<Rightarrow> bool" where
  "gas_call_ok c n \<longleftrightarrow> 0 < n \<and> gc_loop c = n \<and> sync_loopNum c = int n \<and> apply_loopNum c = n \<and> write_beats c = n \<and>
     0 < sint (gc_FIFO_length c) \<and> (\<forall>sp<4. length (gc_tmp c sp) = n) \<and> n \<le> length (read_props c) \<and>
     (case read_degs c of Some d \<Rightarrow> n \<le> length d | None \<Rightarrow> True) \<and>
     (\<forall>k<10. 0 < gc_cap c k) \<and> (\<forall>sp<4. 0 < gc_in_cap c sp \<and> 0 < gc_out_cap c sp)"

section \<open>Streams and the part of them that is in a FIFO\<close>

definition seg :: "nat \<Rightarrow> nat \<Rightarrow> 'a list \<Rightarrow> 'a list" where
  "seg i j xs = drop i (take j xs)"

lemma length_seg [simp]: "j \<le> length xs \<Longrightarrow> length (seg i j xs) = j - i"
  by (simp add: seg_def)

lemma seg_same [simp]: "seg i i xs = []"
  by (simp add: seg_def)

lemma seg_snoc: "i \<le> j \<Longrightarrow> j < length xs \<Longrightarrow> seg i (Suc j) xs = seg i j xs @ [xs ! j]"
  by (simp add: seg_def take_Suc_conv_app_nth)

lemma seg_Cons: "i < j \<Longrightarrow> j \<le> length xs \<Longrightarrow> seg i j xs = xs ! i # seg (Suc i) j xs"
  by (simp add: seg_def Cons_nth_drop_Suc [symmetric])

lemma seg_eq_Cons:
  assumes "seg i j xs = y # ys" "j \<le> length xs"
  shows "i < j" "y = xs ! i" "ys = seg (Suc i) j xs"
proof -
  show "i < j" using assms by (metis leI length_seg list.size(3) neq_Nil_conv diff_is_0_eq length_0_conv list.distinct(1))
  from seg_Cons [OF this assms(2)] assms(1) show "y = xs ! i" "ys = seg (Suc i) j xs" by simp_all
qed

lemma drop_Cons_nth: "drop i xs = y # ys \<Longrightarrow> i < length xs \<and> y = xs ! i \<and> ys = drop (Suc i) xs"
  by (metis Cons_nth_drop_Suc drop_all leI list.distinct(1) list.inject)

lemma gas_streamMerge_length: "length (gas_streamMerge a n i xs ys) = min (length xs) (length ys)"
  by (induction a n i xs ys rule: gas_streamMerge.induct) auto

lemma gas_streamForward_port:
  assumes "i < n" "k = 1 \<or> k = 2"
  shows "length (port k (gas_streamForward n i xs)) = length xs"
    and "t < length xs \<Longrightarrow> port k (gas_streamForward n i xs) ! t = net_beat n ((i + t) mod n) (bd_data (xs ! t))"
proof -
  have "length (port k (gas_streamForward n i xs)) = length xs \<and>
      (\<forall>t < length xs. port k (gas_streamForward n i xs) ! t = net_beat n ((i + t) mod n) (bd_data (xs ! t)))"
    using assms(1)
  proof (induction n i xs rule: gas_streamForward.induct)
    case (2 n i x xs)
    have "next_beat n i < n" using "2.prems" by (simp add: next_beat_iter)
    from "2.IH" [OF refl this] "2.prems" assms(2) show ?case
      by (auto simp: Let_def port_def nth_Cons' next_beat_iter mod_simps)
  qed (simp add: port_def)
  then show "length (port k (gas_streamForward n i xs)) = length xs"
    "t < length xs \<Longrightarrow> port k (gas_streamForward n i xs) ! t = net_beat n ((i + t) mod n) (bd_data (xs ! t))" by blast+
qed

lemma gas_streamForward_one: "port 1 (gas_streamForward n i [x]) = [net_beat n i (bd_data x)] \<and>
    port 2 (gas_streamForward n i [x]) = [net_beat n i (bd_data x)]"
  by (simp add: Let_def port_def)

lemma streamWrite_loop_snoc:
  "fst (streamWrite_loop st k (Suc (length xs)) m (xs @ [x])) =
     fst (streamWrite_loop st (k + length xs) 1 (fst (streamWrite_loop st k (length xs) m xs)) [x])"
  by (induction xs arbitrary: k m) simp_all

section \<open>The streams of a call\<close>

text \<open>The accumulators of the apply stage after \<open>t\<close> beats.\<close>

definition apply_sums :: "gas_call \<Rightarrow> nat \<Rightarrow> nat \<Rightarrow> u32" where
  "apply_sums c m i = (\<Sum>t\<leftarrow>[0..<m]. snd (apply_lane (gc_app c) (gc_arg c) (gc_junk c t) (read_props c ! t)
     (bd_data (gas_chan c 4 ! t)) (map_option (\<lambda>d. d ! t) (read_degs c)) i))"

lemma apply_out_length [simp]:
  "length (fst (applyFunction_loop a u arg junk c n info degs props tmps)) \<le> n"
  by (induction a u arg junk c n info degs props tmps rule: applyFunction_loop.induct) (auto simp: Let_def split: prod.splits)

lemma gas_chan_stage:
  "sp < 4 \<Longrightarrow> gas_chan c (4 - sp) = gas_streamMerge (gc_app c) (gc_loop c) 0 (gc_tmp c sp) (gas_chan c (3 - sp))"
  "gas_chan c 5 = fst (applyFunction_loop (gc_app c) (gc_beat c) (gc_arg c) (gc_junk c) 0 (apply_loopNum c) (\<lambda>_. 0)
     (read_degs c) (read_props c) (gas_chan c 4))"
  "gas_chan c (6 + sp) = port 2 (gas_streamForward (gc_loop c) 0 (gas_chan c (5 + sp)))"
proof -
  show "gas_chan c (4 - sp) = gas_streamMerge (gc_app c) (gc_loop c) 0 (gc_tmp c sp) (gas_chan c (3 - sp))" if "sp < 4"
  proof -
    have "4 - sp = Suc (3 - sp)" "3 - (3 - sp) = sp" "3 - sp < 4" using that by simp_all
    then show ?thesis by (simp only: gas_chan.simps if_True)
  qed
  have five: "(5 :: nat) = Suc 4" "6 + sp = Suc (5 + sp)" by simp_all
  show "gas_chan c 5 = fst (applyFunction_loop (gc_app c) (gc_beat c) (gc_arg c) (gc_junk c) 0 (apply_loopNum c) (\<lambda>_. 0)
     (read_degs c) (read_props c) (gas_chan c 4))"
    unfolding five(1) gas_chan.simps by simp
  show "gas_chan c (6 + sp) = port 2 (gas_streamForward (gc_loop c) 0 (gas_chan c (5 + sp)))"
    unfolding five(2) gas_chan.simps by simp
qed

lemma gas_chan_length:
  assumes ok: "gas_call_ok c n" and k: "k < 10"
  shows "length (gas_chan c k) = n"
  using k
proof (induction k)
  case 0
  then show ?case using ok by (simp add: gas_call_ok_def)
next
  case (Suc k)
  consider sp where "k = 3 - sp" "sp < 4" | "k = 4" | sp where "k = 5 + sp" "sp < 4"
  proof (cases "k < 4")
    case True
    then show ?thesis using that(1) [of "3 - k"] by simp
  next
    case False
    then show ?thesis using that(2) that(3) [of "k - 5"] Suc.prems by (cases "k = 4") simp_all
  qed
  then show ?case
  proof cases
    case 1
    then have "Suc k = 4 - sp" by simp
    then show ?thesis
      using Suc 1 ok by (simp add: gas_chan_stage(1) gas_call_ok_def gas_streamMerge_length del: gas_chan.simps)
  next
    case 2
    have l: "n \<le> length (read_props c)" "n \<le> length (gas_chan c 4)" "case read_degs c of Some d \<Rightarrow> n \<le> length d | None \<Rightarrow> True"
      "apply_loopNum c = n"
      using Suc 2 ok by (simp_all add: gas_call_ok_def del: gas_chan.simps)
    have "Suc k = 5" using 2 by simp
    then show ?thesis
      unfolding gas_chan_stage(2) l(4) by (simp only: gas_chan_stage(2) l(4) applyFunction_loop_enough [OF l(1-3)]) simp
  next
    case 3
    then have "Suc k = 6 + sp" by simp
    then show ?thesis
      using Suc 3 ok by (simp add: gas_chan_stage(3) gas_call_ok_def gas_streamForward_port(1) del: gas_chan.simps)
  qed
qed

declare gas_chan.simps(2) [simp del]

text \<open>One iteration of each kernel on the next beats of its inputs gives the next beat of its output.\<close>

lemma gas_chan_merge:
  assumes ok: "gas_call_ok c n" and sp: "sp < 4" and t: "t < n"
  shows "gas_streamMerge (gc_app c) (gc_loop c) (t mod n) [gc_tmp c sp ! t] [gas_chan c (3 - sp) ! t] = [gas_chan c (4 - sp) ! t]"
proof -
  have l: "length (gas_chan c (3 - sp)) = n" "length (gc_tmp c sp) = n" "gc_loop c = n" "0 < n"
    using gas_chan_length [OF ok, of "3 - sp"] ok sp by (simp_all add: gas_call_ok_def)
  then show ?thesis using t by (simp add: gas_chan_stage(1) [OF sp] gas_streamMerge_nth)
qed

lemma gas_chan_forward:
  assumes ok: "gas_call_ok c n" and sp: "sp < 4" and t: "t < n"
  shows "port 1 (gas_streamForward (gc_loop c) (t mod n) [gas_chan c (5 + sp) ! t]) = [gas_chan c (6 + sp) ! t]"
    "port 2 (gas_streamForward (gc_loop c) (t mod n) [gas_chan c (5 + sp) ! t]) = [gas_chan c (6 + sp) ! t]"
proof -
  have l: "length (gas_chan c (5 + sp)) = n" "gc_loop c = n" "0 < n"
    using gas_chan_length [OF ok, of "5 + sp"] ok sp by (simp_all add: gas_call_ok_def)
  show "port 1 (gas_streamForward (gc_loop c) (t mod n) [gas_chan c (5 + sp) ! t]) = [gas_chan c (6 + sp) ! t]"
    "port 2 (gas_streamForward (gc_loop c) (t mod n) [gas_chan c (5 + sp) ! t]) = [gas_chan c (6 + sp) ! t]"
    unfolding gas_chan_stage(3) using t l by (simp_all only: gas_streamForward_one) (simp_all add: gas_streamForward_port(2))
qed

lemma gas_chan_apply:
  assumes ok: "gas_call_ok c n" and t: "t < n" and x: "x = gas_chan c 4 ! t"
  shows "applyFunction_loop (gc_app c) (gc_beat c) (gc_arg c) (gc_junk c) t 1 (apply_sums c t) (map_option (drop t) (read_degs c))
      (drop t (read_props c)) (x # xs) =
    ([gas_chan c 5 ! t], apply_sums c (Suc t), map_option (drop (Suc t)) (read_degs c), drop (Suc t) (read_props c), xs, Returned)"
proof -
  have l: "length (gas_chan c 4) = n" "apply_loopNum c = n" "n \<le> length (read_props c)"
    "case read_degs c of Some d \<Rightarrow> n \<le> length d | None \<Rightarrow> True"
    using gas_chan_length [OF ok, of 4] ok by (simp_all add: gas_call_ok_def)
  let ?r = "apply_lane (gc_app c) (gc_arg c) (gc_junk c t) (read_props c ! t) (bd_data x) (map_option (\<lambda>d. d ! t) (read_degs c))"
  have d: "map_option (\<lambda>d. d ! 0) (map_option (drop t) (read_degs c)) = map_option (\<lambda>d. d ! t) (read_degs c)"
    using l(4) t by (cases "read_degs c") simp_all
  have "gas_chan c 5 = fst (applyFunction_loop (gc_app c) (gc_beat c) (gc_arg c) (gc_junk c) 0 n (\<lambda>_. 0) (read_degs c) (read_props c) (gas_chan c 4))"
    using l(2) by (simp add: gas_chan_stage(2))
  also have "\<dots> ! t = (gc_beat c)\<lparr>bd_data := burst_of (\<lambda>i. fst (?r i))\<rparr>"
    using t x by (subst applyFunction_loop_enough) (simp_all add: l)
  finally have five: "gas_chan c 5 ! t = (gc_beat c)\<lparr>bd_data := burst_of (\<lambda>i. fst (?r i))\<rparr>" .
  have s: "(\<lambda>i. apply_sums c t i + snd (?r i)) = apply_sums c (Suc t)"
    by (rule ext) (simp add: apply_sums_def x)
  have "1 \<le> length (drop t (read_props c))" "1 \<le> length (x # xs)"
    "case map_option (drop t) (read_degs c) of Some d \<Rightarrow> 1 \<le> length d | None \<Rightarrow> True"
    using l t by (auto split: option.splits)
  from applyFunction_loop_enough [OF this, of "gc_app c" "gc_beat c" "gc_arg c" "gc_junk c" t "apply_sums c t"]
  show ?thesis
    using t l(3) by (simp add: five d s option.map_comp o_def del: option.map_comp)
      (cases "read_degs c"; simp)
qed

section \<open>The invariant\<close>

text \<open>
  Every FIFO holds the part of its stream between the beats that the kernel behind it has
  taken and the beats that the kernel before it has sent.  \<open>cnt k\<close> counts the beats that
  stage \<open>k\<close> has sent, \<open>cnt 10\<close> those that came back; \<open>sent sp\<close> those of a gather-scatter kernel.
\<close>

definition ring_ok :: "gas_call \<Rightarrow> nat \<Rightarrow> (nat \<Rightarrow> nat) \<Rightarrow> (nat \<Rightarrow> burst_dest list) \<Rightarrow> bool" where
  "ring_ok c n cnt f \<longleftrightarrow> cnt 0 \<le> n \<and>
     (\<forall>k<10. cnt (Suc k) \<le> cnt k \<and> f k = seg (cnt (Suc k)) (cnt k) (gas_chan c k) \<and> length (f k) \<le> gc_cap c k)"

definition sync_ok :: "gas_call \<Rightarrow> (nat \<Rightarrow> nat) \<Rightarrow> gas_state \<Rightarrow> bool" where
  "sync_ok c cnt s \<longleftrightarrow> sync_w s = int (cnt 0) \<and> sync_r s = int (cnt 10) \<and> sync_w s - sync_r s \<le> sint (gc_FIFO_length c) \<and>
     sync_w s - sync_r s \<le> (\<Sum>k<9. int (gc_cap c k)) + (if sync_at s = Sync_read then 1 else 0)"

definition feed_ok :: "gas_call \<Rightarrow> nat \<Rightarrow> (nat \<Rightarrow> nat) \<Rightarrow> (nat \<Rightarrow> nat) \<Rightarrow> gas_state \<Rightarrow> bool" where
  "feed_ok c n cnt sent s \<longleftrightarrow> (\<forall>sp<4. cnt (4 - sp) \<le> sent sp \<and> sent sp \<le> n \<and> gs_rest s sp = drop (sent sp) (gc_tmp c sp) \<and>
     gs_fifo s sp = seg (cnt (4 - sp)) (sent sp) (gc_tmp c sp) \<and> length (gs_fifo s sp) \<le> gc_in_cap c sp \<and>
     pos s (4 - sp) = cnt (4 - sp) mod n \<and> pos s (6 + sp) = cnt (6 + sp) mod n)"

definition apply_ok :: "gas_call \<Rightarrow> nat \<Rightarrow> gas_state \<Rightarrow> bool" where
  "apply_ok c t s \<longleftrightarrow> ap_c s = t \<and> ap_info s = apply_sums c t \<and> ap_degs s = map_option (drop t) (read_degs c) \<and>
     ap_props s = drop t (read_props c)"

definition sink_ok :: "gas_call \<Rightarrow> (nat \<Rightarrow> nat) \<Rightarrow> gas_state \<Rightarrow> bool" where
  "sink_ok c cnt s \<longleftrightarrow> (\<forall>sp<4. wr_k s sp \<le> cnt (6 + sp) \<and> wr_fifo s sp = seg (wr_k s sp) (cnt (6 + sp)) (gas_chan c (6 + sp)) \<and>
     length (wr_fifo s sp) \<le> gc_out_cap c sp \<and>
     wr_mem s sp = fst (streamWrite_loop (write_start c) 0 (wr_k s sp) (gc_old c sp) (take (wr_k s sp) (gas_chan c (6 + sp)))))"

definition moved :: "(nat \<Rightarrow> nat) \<Rightarrow> (nat \<Rightarrow> nat) \<Rightarrow> gas_state \<Rightarrow> nat" where
  "moved cnt sent s = (\<Sum>k<11. cnt k) + (\<Sum>sp<4. sent sp) + (\<Sum>sp<4. wr_k s sp)"

definition gas_inv :: "gas_call \<Rightarrow> nat \<Rightarrow> (nat \<Rightarrow> nat) \<Rightarrow> (nat \<Rightarrow> nat) \<Rightarrow> nat \<Rightarrow> gas_state \<Rightarrow> bool" where
  "gas_inv c n cnt sent m s \<longleftrightarrow> ring_ok c n cnt (fifo s) \<and> sync_ok c cnt s \<and> feed_ok c n cnt sent s \<and>
     apply_ok c (cnt 5) s \<and> sink_ok c cnt s \<and> m = moved cnt sent s"

lemma sum_upd:
  fixes f :: "nat \<Rightarrow> nat"
  assumes "i < n"
  shows "(\<Sum>k<n. (f(i := Suc (f i))) k) = Suc (\<Sum>k<n. f k)"
proof -
  have "sum (f(i := Suc (f i))) {..<n} = Suc (f i) + sum f ({..<n} - {i})"
    using assms by (subst sum.remove [of "{..<n}" i]) auto
  moreover have "sum f {..<n} = f i + sum f ({..<n} - {i})"
    using assms by (subst sum.remove [of "{..<n}" i]) auto
  ultimately show ?thesis by (simp add: fun_upd_def)
qed

lemma moved_upd [simp]:
  "k < 11 \<Longrightarrow> moved (cnt(k := Suc (cnt k))) sent s = Suc (moved cnt sent s)"
  "sp < 4 \<Longrightarrow> moved cnt (sent(sp := Suc (sent sp))) s = Suc (moved cnt sent s)"
  "sp < 4 \<Longrightarrow> moved cnt sent (s\<lparr>wr_k := (wr_k s)(sp := Suc (wr_k s sp))\<rparr>) = Suc (moved cnt sent s)"
  by (simp_all add: moved_def sum_upd del: fun_upd_apply)

lemma ring_okD:
  assumes "ring_ok c n cnt f"
  shows "cnt 0 \<le> n" "k < 10 \<Longrightarrow> cnt (Suc k) \<le> cnt k" "k < 10 \<Longrightarrow> f k = seg (cnt (Suc k)) (cnt k) (gas_chan c k)"
    "k < 10 \<Longrightarrow> length (f k) \<le> gc_cap c k"
  using assms unfolding ring_ok_def by blast+

text \<open>The counters along the ring.\<close>

lemma ring_ok_mono:
  assumes "ring_ok c n cnt f" "j \<le> k" "k \<le> 10"
  shows "cnt k \<le> cnt j"
  using assms(2,3)
proof (induction k rule: dec_induct)
  case (step k)
  then show ?case using ring_okD(2) [OF assms(1), of k] by simp
qed simp

lemma ring_ok_le: "ring_ok c n cnt f \<Longrightarrow> k \<le> 10 \<Longrightarrow> cnt k \<le> n"
  using ring_ok_mono [of c n cnt f 0 k] ring_okD(1) [of c n cnt f] by simp

lemma ring_ok_length:
  assumes "gas_call_ok c n" "ring_ok c n cnt f" "k < 10"
  shows "length (f k) = cnt k - cnt (Suc k)"
  using assms(2,3) gas_chan_length [OF assms(1,3)] ring_ok_le [OF assms(2), of k] by (simp add: ring_ok_def)

lemma ring_flight:
  assumes "gas_call_ok c n" "ring_ok c n cnt f" "j \<le> 10"
  shows "int (cnt 0) - int (cnt j) = (\<Sum>k<j. int (length (f k)))"
  using assms(3)
proof (induction j)
  case (Suc j)
  then have "length (f j) = cnt j - cnt (Suc j)" "cnt (Suc j) \<le> cnt j"
    using ring_ok_length [OF assms(1,2)] assms(2) by (simp_all add: ring_ok_def)
  with Suc show ?case by simp
qed simp

lemma ring_head:
  assumes ok: "gas_call_ok c n" and r: "ring_ok c n cnt f" and k: "k < 10" and f: "f k = y # ys"
  shows "cnt (Suc k) < cnt k" "y = gas_chan c k ! cnt (Suc k)" "ys = seg (Suc (cnt (Suc k))) (cnt k) (gas_chan c k)"
    "cnt (Suc k) < n"
proof -
  have "seg (cnt (Suc k)) (cnt k) (gas_chan c k) = y # ys" using r k f by (simp add: ring_ok_def)
  moreover have "cnt k \<le> length (gas_chan c k)" using gas_chan_length [OF ok k] ring_ok_le [OF r, of k] k by simp
  ultimately show a: "cnt (Suc k) < cnt k" "y = gas_chan c k ! cnt (Suc k)" "ys = seg (Suc (cnt (Suc k))) (cnt k) (gas_chan c k)"
    by (rule seg_eq_Cons)+
  show "cnt (Suc k) < n" using a(1) ring_ok_le [OF r, of k] k by simp
qed

text \<open>A stage takes a beat and sends the next one of its stream.\<close>

lemma ring_advance:
  assumes ok: "gas_call_ok c n" and r: "ring_ok c n cnt f" and k: "k < 9" and f: "f k = y # ys"
    and room: "length (f (Suc k)) < gc_cap c (Suc k)" and z: "z = gas_chan c (Suc k) ! cnt (Suc k)"
  shows "ring_ok c n (cnt(Suc k := Suc (cnt (Suc k)))) (f(k := ys, Suc k := f (Suc k) @ [z]))"
proof -
  have k10: "k < 10" using k by simp
  note h = ring_head [OF ok r k10 f]
  have l: "length (gas_chan c (Suc k)) = n" using gas_chan_length [OF ok, of "Suc k"] k by simp
  have yl: "length (seg (Suc (cnt (Suc k))) (cnt k) (gas_chan c k)) \<le> gc_cap c k"
    using ring_okD(4) [OF r k10] f unfolding h(3) [symmetric] by simp
  show ?thesis
    unfolding ring_ok_def
  proof (intro conjI allI impI)
    show "(cnt(Suc k := Suc (cnt (Suc k)))) 0 \<le> n" using r by (simp add: ring_ok_def)
    fix j :: nat assume j: "j < 10"
    have rj: "cnt (Suc j) \<le> cnt j" "f j = seg (cnt (Suc j)) (cnt j) (gas_chan c j)" "length (f j) \<le> gc_cap c j"
      using ring_okD [OF r] j by blast+
    consider "j = k" | "j = Suc k" | "j \<noteq> k" "j \<noteq> Suc k" by blast
    then have "(cnt(Suc k := Suc (cnt (Suc k)))) (Suc j) \<le> (cnt(Suc k := Suc (cnt (Suc k)))) j \<and>
      (f(k := ys, Suc k := f (Suc k) @ [z])) j = seg ((cnt(Suc k := Suc (cnt (Suc k)))) (Suc j)) ((cnt(Suc k := Suc (cnt (Suc k)))) j) (gas_chan c j) \<and>
      length ((f(k := ys, Suc k := f (Suc k) @ [z])) j) \<le> gc_cap c j"
      using rj h f room z l yl by cases (auto simp: seg_snoc)
    then show "(cnt(Suc k := Suc (cnt (Suc k)))) (Suc j) \<le> (cnt(Suc k := Suc (cnt (Suc k)))) j"
      "(f(k := ys, Suc k := f (Suc k) @ [z])) j = seg ((cnt(Suc k := Suc (cnt (Suc k)))) (Suc j)) ((cnt(Suc k := Suc (cnt (Suc k)))) j) (gas_chan c j)"
      "length ((f(k := ys, Suc k := f (Suc k) @ [z])) j) \<le> gc_cap c j" by blast+
  qed
qed

lemma ring_enter:
  assumes ok: "gas_call_ok c n" and r: "ring_ok c n cnt f" and "cnt 0 < n"
    and room: "length (f 0) < gc_cap c 0" and z: "z = gas_chan c 0 ! cnt 0"
  shows "ring_ok c n (cnt(0 := Suc (cnt 0))) (f(0 := f 0 @ [z]))"
proof -
  have l: "length (gas_chan c 0) = n" using gas_chan_length [OF ok, of 0] by simp
  have f: "f 0 = seg (cnt (Suc 0)) (cnt 0) (gas_chan c 0)" "cnt (Suc 0) \<le> cnt 0" using ring_okD(2,3) [OF r, of 0] by simp_all
  have "seg (cnt (Suc 0)) (Suc (cnt 0)) (gas_chan c 0) = f 0 @ [z]" unfolding f(1) z using f(2) assms(3) l by (simp only: seg_snoc)
  moreover have "\<And>k. k < 10 \<Longrightarrow> cnt (Suc k) \<le> (if k = 0 then Suc (cnt 0) else cnt k)"
    using ring_okD(2) [OF r] f(2) by (auto intro: le_SucI)
  ultimately show ?thesis using r assms(3) room by (auto simp: ring_ok_def simp del: gas_chan.simps)
qed

lemma ring_leave:
  assumes ok: "gas_call_ok c n" and r: "ring_ok c n cnt f" and f: "f 9 = y # ys"
  shows "ring_ok c n (cnt(10 := Suc (cnt 10))) (f(9 := ys))"
proof -
  note h = ring_head [OF ok r, of 9, OF _ f, simplified]
  have "length ys \<le> gc_cap c 9" using ring_okD(4) [OF r, of 9] f by simp
  moreover have "\<And>k. k < 10 \<Longrightarrow> (if k = 9 then Suc (cnt 10) else cnt (Suc k)) \<le> cnt k"
    using ring_okD(2) [OF r] h by auto
  ultimately show ?thesis using r h by (auto simp: ring_ok_def)
qed

section \<open>Every step keeps the invariant\<close>

lemma gas_inv_init:
  assumes "gas_call_ok c n"
  shows "gas_inv c n (\<lambda>_. 0) (\<lambda>_. 0) 0 (gas_init c)"
  using assms
  by (auto simp: gas_inv_def gas_init_def ring_ok_def sync_ok_def feed_ok_def apply_ok_def sink_ok_def moved_def
      apply_sums_def gas_call_ok_def sum_nonneg option.map_ident)

lemma feed_okD:
  assumes "feed_ok c n cnt sent s" "sp < 4"
  shows "cnt (4 - sp) \<le> sent sp" "sent sp \<le> n" "gs_rest s sp = drop (sent sp) (gc_tmp c sp)"
    "gs_fifo s sp = seg (cnt (4 - sp)) (sent sp) (gc_tmp c sp)" "length (gs_fifo s sp) \<le> gc_in_cap c sp"
    "pos s (4 - sp) = cnt (4 - sp) mod n" "pos s (6 + sp) = cnt (6 + sp) mod n"
  using assms unfolding feed_ok_def by blast+

lemma sink_okD:
  assumes "sink_ok c cnt s" "sp < 4"
  shows "wr_k s sp \<le> cnt (6 + sp)" "wr_fifo s sp = seg (wr_k s sp) (cnt (6 + sp)) (gas_chan c (6 + sp))"
    "length (wr_fifo s sp) \<le> gc_out_cap c sp"
    "wr_mem s sp = fst (streamWrite_loop (write_start c) 0 (wr_k s sp) (gc_old c sp) (take (wr_k s sp) (gas_chan c (6 + sp))))"
  using assms unfolding sink_ok_def by blast+

lemma sync_steps_inv:
  assumes ok: "gas_call_ok c n" and inv: "gas_inv c n cnt sent m s"
  shows "sync_at s = Sync_write \<Longrightarrow> sync_w s - sync_r s < sint (gc_FIFO_length c) \<Longrightarrow> sync_w s < sync_loopNum c \<Longrightarrow>
      length (fifo s 0) < gc_cap c 0 \<Longrightarrow> gas_inv c n (cnt(0 := Suc (cnt 0))) sent (Suc m) (s\<lparr>sync_at := Sync_read, sync_w := sync_w s + 1,
      fifo := (fifo s)(0 := fifo s 0 @ [sync_beat (ucast (gc_dest c)) (sync_loopNum c) (sync_w s)])\<rparr>)"
    and "sync_at s = Sync_write \<Longrightarrow> gas_inv c n cnt sent m (s\<lparr>sync_at := Sync_read\<rparr>)"
    and "sync_at s = Sync_read \<Longrightarrow> sync_r s < sync_loopNum c \<Longrightarrow> fifo s 9 = x # xs \<Longrightarrow>
      gas_inv c n (cnt(10 := Suc (cnt 10))) sent (Suc m) (s\<lparr>sync_at := Sync_write, sync_r := sync_r s + 1, fifo := (fifo s)(9 := xs)\<rparr>)"
    and "sync_at s = Sync_read \<Longrightarrow> \<not> (sync_r s < sync_loopNum c \<and> fifo s 9 \<noteq> []) \<Longrightarrow> gas_inv c n cnt sent m (s\<lparr>sync_at := Sync_write\<rparr>)"
proof -
  have i: "ring_ok c n cnt (fifo s)" "sync_ok c cnt s" "feed_ok c n cnt sent s" "apply_ok c (cnt 5) s" "sink_ok c cnt s"
    "m = moved cnt sent s" using inv by (simp_all add: gas_inv_def)
  have n: "sync_loopNum c = int n" "gc_loop c = n" using ok by (simp_all add: gas_call_ok_def)
  have w: "sync_w s = int (cnt 0)" "sync_r s = int (cnt 10)" using i(2) by (simp_all add: sync_ok_def)
  {
    assume a: "sync_at s = Sync_write" "sync_w s - sync_r s < sint (gc_FIFO_length c)" "sync_w s < sync_loopNum c"
      "length (fifo s 0) < gc_cap c 0"
    have "cnt 0 < n" using a(3) w n by simp
    moreover have "sync_beat (ucast (gc_dest c)) (sync_loopNum c) (sync_w s) = gas_chan c 0 ! cnt 0"
      using calculation w n by simp
    ultimately have "ring_ok c n (cnt(0 := Suc (cnt 0))) ((fifo s)(0 := fifo s 0 @ [sync_beat (ucast (gc_dest c)) (sync_loopNum c) (sync_w s)]))"
      by (rule ring_enter [OF ok i(1) _ a(4)])
    then show "gas_inv c n (cnt(0 := Suc (cnt 0))) sent (Suc m) (s\<lparr>sync_at := Sync_read, sync_w := sync_w s + 1,
      fifo := (fifo s)(0 := fifo s 0 @ [sync_beat (ucast (gc_dest c)) (sync_loopNum c) (sync_w s)])\<rparr>)"
      using i a by (auto simp: gas_inv_def sync_ok_def feed_ok_def apply_ok_def sink_ok_def moved_upd(1) [of 0, simplified]
          simp del: gas_chan.simps) (simp add: moved_def)
  next
    assume "sync_at s = Sync_write"
    then show "gas_inv c n cnt sent m (s\<lparr>sync_at := Sync_read\<rparr>)"
      using i by (auto simp: gas_inv_def sync_ok_def feed_ok_def apply_ok_def sink_ok_def moved_def)
  next
    assume a: "sync_at s = Sync_read" "sync_r s < sync_loopNum c" "fifo s 9 = x # xs"
    have "ring_ok c n (cnt(10 := Suc (cnt 10))) ((fifo s)(9 := xs))" by (rule ring_leave [OF ok i(1) a(3)])
    moreover have "moved (cnt(10 := Suc (cnt 10))) sent s = Suc m" using i(6) by simp
    ultimately show "gas_inv c n (cnt(10 := Suc (cnt 10))) sent (Suc m) (s\<lparr>sync_at := Sync_write, sync_r := sync_r s + 1, fifo := (fifo s)(9 := xs)\<rparr>)"
      using i(2-5) a by (auto simp: gas_inv_def sync_ok_def feed_ok_def apply_ok_def sink_ok_def moved_def)
  next
    assume a: "sync_at s = Sync_read" "\<not> (sync_r s < sync_loopNum c \<and> fifo s 9 \<noteq> [])"
    have nn: "0 \<le> (\<Sum>k<9. int (gc_cap c k))" by (simp add: sum_nonneg)
    have "sync_w s - sync_r s \<le> (\<Sum>k<9. int (gc_cap c k))"
    proof (cases "fifo s 9 = []")
      case True
      have "sync_w s - sync_r s = (\<Sum>k<10. int (length (fifo s k)))" using ring_flight [OF ok i(1), of 10] w by simp
      also have "\<dots> = (\<Sum>k<9. int (length (fifo s k)))" using True by (simp add: eval_nat_numeral)
      also have "\<dots> \<le> (\<Sum>k<9. int (gc_cap c k))" by (intro sum_mono) (use ring_okD(4) [OF i(1)] in simp)
      finally show ?thesis .
    next
      case False
      then show ?thesis using a(2) w n nn ring_okD(1) [OF i(1)] by simp
    qed
    then show "gas_inv c n cnt sent m (s\<lparr>sync_at := Sync_write\<rparr>)"
      using i by (auto simp: gas_inv_def sync_ok_def feed_ok_def apply_ok_def sink_ok_def moved_def)
  }
qed

lemma gs_send_inv:
  assumes ok: "gas_call_ok c n" and inv: "gas_inv c n cnt sent m s"
    and a: "sp < 4" "gs_rest s sp = x # xs" "length (gs_fifo s sp) < gc_in_cap c sp"
  shows "gas_inv c n cnt (sent(sp := Suc (sent sp))) (Suc m)
    (s\<lparr>gs_rest := (gs_rest s)(sp := xs), gs_fifo := (gs_fifo s)(sp := gs_fifo s sp @ [x])\<rparr>)"
proof -
  have i: "ring_ok c n cnt (fifo s)" "sync_ok c cnt s" "feed_ok c n cnt sent s" "apply_ok c (cnt 5) s" "sink_ok c cnt s"
    "m = moved cnt sent s" using inv by (simp_all add: gas_inv_def)
  note f = feed_okD [OF i(3)]
  have t: "length (gc_tmp c sp) = n" using ok a(1) by (simp add: gas_call_ok_def)
  have d: "sent sp < n" "x = gc_tmp c sp ! sent sp" "xs = drop (Suc (sent sp)) (gc_tmp c sp)"
    using drop_Cons_nth [of "sent sp" "gc_tmp c sp" x xs] f(3) [OF a(1)] a(2) t by simp_all
  have "gs_fifo s sp @ [x] = seg (cnt (4 - sp)) (Suc (sent sp)) (gc_tmp c sp)"
    using f(1,4) [OF a(1)] d t by (simp add: seg_snoc)
  moreover from this [symmetric] have l: "length (seg (cnt (4 - sp)) (Suc (sent sp)) (gc_tmp c sp)) \<le> gc_in_cap c sp" using a(3) by simp
  ultimately have "feed_ok c n cnt (sent(sp := Suc (sent sp))) (s\<lparr>gs_rest := (gs_rest s)(sp := xs), gs_fifo := (gs_fifo s)(sp := gs_fifo s sp @ [x])\<rparr>)"
    unfolding feed_ok_def using f d a l by (auto intro: le_SucI)
  then show ?thesis
    using i a(1) by (auto simp: gas_inv_def sync_ok_def apply_ok_def sink_ok_def) (simp add: moved_def sum_upd del: fun_upd_apply)
qed

text \<open>The stages are different.\<close>

lemma stage_numbers:
  assumes "sp < 4" "sp' < 4"
  shows "4 - sp = Suc (3 - sp)" "4 - sp = 4 - sp' \<longleftrightarrow> sp = sp'" "4 - sp \<noteq> 6 + sp'" "4 - sp \<noteq> 5" "4 - sp \<noteq> 0" "4 - sp \<noteq> 10"
    "6 + sp \<noteq> 5" "6 + sp \<noteq> 10" "6 + sp \<noteq> 0" "6 + sp \<noteq> 4 - sp'" "3 - sp < 9" "4 - sp < 11" "6 + sp < 11"
    "4 - sp < 10" "6 + sp < 10" "5 + sp < 9"
  using assms by simp_all linarith+

lemma next_beat_mod: "0 < n \<Longrightarrow> next_beat n (t mod n) = Suc t mod n"
  by (simp add: next_beat_iter mod_simps)

lemma merge_inv:
  assumes ok: "gas_call_ok c n" and inv: "gas_inv c n cnt sent m s"
    and a: "sp < 4" "gs_fifo s sp = x # xs" "fifo s (3 - sp) = y # ys" "length (fifo s (4 - sp)) < gc_cap c (4 - sp)"
  shows "gas_inv c n (cnt(4 - sp := Suc (cnt (4 - sp)))) sent (Suc m)
    (s\<lparr>gs_fifo := (gs_fifo s)(sp := xs), pos := (pos s)(4 - sp := next_beat (gc_loop c) (pos s (4 - sp))),
      fifo := (fifo s)(3 - sp := ys,
        4 - sp := fifo s (4 - sp) @ gas_streamMerge (gc_app c) (gc_loop c) (pos s (4 - sp)) [x] [y])\<rparr>)"
proof -
  let ?k = "4 - sp"
  have i: "ring_ok c n cnt (fifo s)" "sync_ok c cnt s" "feed_ok c n cnt sent s" "apply_ok c (cnt 5) s" "sink_ok c cnt s"
    "m = moved cnt sent s" using inv by (simp_all add: gas_inv_def)
  note f = feed_okD [OF i(3)]
  have t: "length (gc_tmp c sp) = n" "gc_loop c = n" "0 < n" using ok a(1) by (simp_all add: gas_call_ok_def)
  note k = stage_numbers [OF a(1)]
  have "seg (cnt ?k) (sent sp) (gc_tmp c sp) = x # xs" "sent sp \<le> length (gc_tmp c sp)"
    using f [OF a(1)] a(2) t by simp_all
  note x = seg_eq_Cons [OF this]
  have k9: "3 - sp < 9" "3 - sp < 10" and Sk: "Suc (3 - sp) = ?k" using k(1,11) a(1) by simp_all
  note y = ring_head [OF ok i(1) k9(2) a(3), unfolded Sk]
  have z: "gas_streamMerge (gc_app c) (gc_loop c) (pos s ?k) [x] [y] = [gas_chan c ?k ! cnt ?k]"
    unfolding f(6) [OF a(1)] x(2) y(2) by (rule gas_chan_merge [OF ok a(1) y(4)])
  have "ring_ok c n (cnt(?k := Suc (cnt ?k))) ((fifo s)(3 - sp := ys, ?k := fifo s ?k @ [gas_chan c ?k ! cnt ?k]))"
    using ring_advance [OF ok i(1) k9(1) a(3), unfolded Sk, OF a(4) refl] .
  moreover have "feed_ok c n (cnt(?k := Suc (cnt ?k))) sent (s\<lparr>gs_fifo := (gs_fifo s)(sp := xs), pos := (pos s)(?k := next_beat (gc_loop c) (pos s ?k)), fifo := ff\<rparr>)" for ff
    unfolding feed_ok_def
  proof (intro allI impI, goal_cases)
    case (1 j)
    have "length xs \<le> gc_in_cap c sp" using f(5) [OF a(1)] a(2) by simp
    then show ?case
      using f [OF 1] x stage_numbers(2,10) [OF 1 a(1)] t
      by (cases "j = sp") (simp_all add: next_beat_mod next_beat_iter)
  qed
  moreover have "moved (cnt(?k := Suc (cnt ?k))) sent s = Suc m" using i(6) a(1) by simp
  ultimately show ?thesis
    unfolding z gas_inv_def using i a(1) by (auto simp: sync_ok_def apply_ok_def sink_ok_def stage_numbers moved_def)
qed

lemma apply_inv:
  assumes ok: "gas_call_ok c n" and inv: "gas_inv c n cnt sent m s"
    and a: "length (fifo s 5) < gc_cap c 5" "applyFunction_loop (gc_app c) (gc_beat c) (gc_arg c) (gc_junk c) (ap_c s) 1 (ap_info s)
       (ap_degs s) (ap_props s) (fifo s 4) = (os, info, degs, props, tmps, Returned)"
  shows "gas_inv c n (cnt(5 := Suc (cnt 5))) sent (Suc m)
    (s\<lparr>ap_c := ap_c s + 1, ap_info := info, ap_degs := degs, ap_props := props, fifo := (fifo s)(4 := tmps, 5 := fifo s 5 @ os)\<rparr>)"
proof -
  have i: "ring_ok c n cnt (fifo s)" "sync_ok c cnt s" "feed_ok c n cnt sent s" "apply_ok c (cnt 5) s" "sink_ok c cnt s"
    "m = moved cnt sent s" using inv by (simp_all add: gas_inv_def)
  have "fifo s 4 \<noteq> []"
  proof
    assume "fifo s 4 = []"
    with a(2) show False by (cases "ap_props s") simp_all
  qed
  then obtain y ys where y: "fifo s 4 = y # ys" by (cases "fifo s 4") auto
  note h = ring_head [OF ok i(1) _ y, simplified]
  have p: "ap_c s = cnt 5" "ap_info s = apply_sums c (cnt 5)" "ap_degs s = map_option (drop (cnt 5)) (read_degs c)"
    "ap_props s = drop (cnt 5) (read_props c)" using i(4) by (simp_all add: apply_ok_def)
  have r: "os = [gas_chan c 5 ! cnt 5]" "info = apply_sums c (Suc (cnt 5))" "degs = map_option (drop (Suc (cnt 5))) (read_degs c)"
    "props = drop (Suc (cnt 5)) (read_props c)" "tmps = ys"
    using a(2) unfolding p y gas_chan_apply [OF ok h(4,2)] by simp_all
  have "ring_ok c n (cnt(5 := Suc (cnt 5))) ((fifo s)(4 := tmps, 5 := fifo s 5 @ os))"
    using ring_advance [OF ok i(1) _ y, simplified, OF a(1) refl] unfolding r .
  moreover have "moved (cnt(5 := Suc (cnt 5))) sent s = Suc m" using i(6) by simp
  ultimately show ?thesis
    unfolding gas_inv_def using i r(2-4) p
    by (auto simp: sync_ok_def apply_ok_def sink_ok_def feed_ok_def stage_numbers moved_def)
qed

lemma forward_inv:
  assumes ok: "gas_call_ok c n" and inv: "gas_inv c n cnt sent m s"
    and a: "sp < 4" "fifo s (5 + sp) = x # xs" "length (wr_fifo s sp) < gc_out_cap c sp"
    "length (fifo s (6 + sp)) < gc_cap c (6 + sp)" "gas_streamForward (gc_loop c) (pos s (6 + sp)) [x] = out"
  shows "gas_inv c n (cnt(6 + sp := Suc (cnt (6 + sp)))) sent (Suc m)
    (s\<lparr>pos := (pos s)(6 + sp := next_beat (gc_loop c) (pos s (6 + sp))), wr_fifo := (wr_fifo s)(sp := wr_fifo s sp @ port 1 out),
      fifo := (fifo s)(5 + sp := xs, 6 + sp := fifo s (6 + sp) @ port 2 out)\<rparr>)"
proof -
  let ?k = "6 + sp"
  have i: "ring_ok c n cnt (fifo s)" "sync_ok c cnt s" "feed_ok c n cnt sent s" "apply_ok c (cnt 5) s" "sink_ok c cnt s"
    "m = moved cnt sent s" using inv by (simp_all add: gas_inv_def)
  note f = feed_okD [OF i(3)] and w = sink_okD [OF i(5)]
  have t: "gc_loop c = n" "0 < n" using ok by (simp_all add: gas_call_ok_def)
  have l: "length (gas_chan c ?k) = n" using gas_chan_length [OF ok] a(1) by simp
  have k9: "5 + sp < 9" "5 + sp < 10" and Sk: "Suc (5 + sp) = ?k" using a(1) by simp_all
  note y = ring_head [OF ok i(1) k9(2) a(2), unfolded Sk]
  have z: "port 1 out = [gas_chan c ?k ! cnt ?k]" "port 2 out = [gas_chan c ?k ! cnt ?k]"
    unfolding a(5) [symmetric] f(7) [OF a(1)] y(2) by (rule gas_chan_forward [OF ok a(1) y(4)])+
  have "ring_ok c n (cnt(?k := Suc (cnt ?k))) ((fifo s)(5 + sp := xs, ?k := fifo s ?k @ [gas_chan c ?k ! cnt ?k]))"
    using ring_advance [OF ok i(1) k9(1) a(2), unfolded Sk, OF a(4) refl] .
  moreover have "feed_ok c n (cnt(?k := Suc (cnt ?k))) sent (s\<lparr>pos := (pos s)(?k := next_beat (gc_loop c) (pos s ?k)), wr_fifo := ww, fifo := ff\<rparr>)" for ww ff
    unfolding feed_ok_def
  proof (intro allI impI, goal_cases)
    case (1 j)
    then show ?case
      using f [OF 1] stage_numbers(3) [OF 1 a(1)] t by (cases "j = sp") (simp_all add: next_beat_mod)
  qed
  moreover have "sink_ok c (cnt(?k := Suc (cnt ?k))) (s\<lparr>pos := pp, wr_fifo := (wr_fifo s)(sp := wr_fifo s sp @ [gas_chan c ?k ! cnt ?k]), fifo := ff\<rparr>)" for pp ff
    unfolding sink_ok_def
  proof (intro allI impI, goal_cases)
    case (1 j)
    have "wr_fifo s sp @ [gas_chan c ?k ! cnt ?k] = seg (wr_k s sp) (Suc (cnt ?k)) (gas_chan c ?k)"
      using w(1,2) [OF a(1)] y(4) l by (simp add: seg_snoc)
    moreover from this [symmetric] have "length (seg (wr_k s sp) (Suc (cnt ?k)) (gas_chan c ?k)) \<le> gc_out_cap c sp" using a(3) by simp
    ultimately show ?case using w [OF 1] by (cases "j = sp") (simp_all add: le_SucI)
  qed
  moreover have "moved (cnt(?k := Suc (cnt ?k))) sent s = Suc m" using i(6) a(1) by simp
  ultimately show ?thesis
    unfolding z gas_inv_def using i a(1) by (auto simp: sync_ok_def apply_ok_def stage_numbers moved_def)
qed

lemma write_inv:
  assumes ok: "gas_call_ok c n" and inv: "gas_inv c n cnt sent m s" and a: "sp < 4" "wr_fifo s sp = x # xs"
  shows "gas_inv c n cnt sent (Suc m) (s\<lparr>wr_fifo := (wr_fifo s)(sp := xs), wr_k := (wr_k s)(sp := wr_k s sp + 1),
      wr_mem := (wr_mem s)(sp := fst (streamWrite_loop (write_start c) (wr_k s sp) 1 (wr_mem s sp) [x]))\<rparr>)"
proof -
  let ?S = "gas_chan c (6 + sp)"
  have i: "ring_ok c n cnt (fifo s)" "sync_ok c cnt s" "feed_ok c n cnt sent s" "apply_ok c (cnt 5) s" "sink_ok c cnt s"
    "m = moved cnt sent s" using inv by (simp_all add: gas_inv_def)
  note w = sink_okD [OF i(5)]
  have l: "length ?S = n" using gas_chan_length [OF ok] a(1) by simp
  have c6: "cnt (6 + sp) \<le> n" using ring_ok_le [OF i(1)] a(1) by simp
  have "seg (wr_k s sp) (cnt (6 + sp)) ?S = x # xs" "cnt (6 + sp) \<le> length ?S"
    using w(2) [OF a(1)] a(2) l c6 by simp_all
  note x = seg_eq_Cons [OF this]
  have k: "wr_k s sp < n" using x(1) c6 by simp
  have tk: "take (Suc (wr_k s sp)) ?S = take (wr_k s sp) ?S @ [x]" "length (take (wr_k s sp) ?S) = wr_k s sp"
    using k l x(2) by (simp_all add: take_Suc_conv_app_nth)
  have mem: "fst (streamWrite_loop (write_start c) (wr_k s sp) 1 (wr_mem s sp) [x]) =
      fst (streamWrite_loop (write_start c) 0 (Suc (wr_k s sp)) (gc_old c sp) (take (Suc (wr_k s sp)) ?S))"
    using streamWrite_loop_snoc [of "write_start c" 0 "take (wr_k s sp) ?S" "gc_old c sp" x] w(4) [OF a(1)]
    unfolding tk by simp
  have "length xs \<le> gc_out_cap c sp" using w(3) [OF a(1)] a(2) by simp
  then have "sink_ok c cnt (s\<lparr>wr_fifo := (wr_fifo s)(sp := xs), wr_k := (wr_k s)(sp := wr_k s sp + 1),
      wr_mem := (wr_mem s)(sp := fst (streamWrite_loop (write_start c) (wr_k s sp) 1 (wr_mem s sp) [x]))\<rparr>)"
    unfolding mem sink_ok_def using w x a(1) by simp
  then show ?thesis
    unfolding gas_inv_def using i a(1)
    by (auto simp: sync_ok_def apply_ok_def feed_ok_def) (simp add: moved_def sum_upd del: fun_upd_apply)
qed

lemma gas_inv_step:
  assumes "gas_call_ok c n" "gas_step c s b s'" "gas_inv c n cnt sent m s"
  shows "\<exists>cnt' sent'. gas_inv c n cnt' sent' (if b then Suc m else m) s'"
  using assms(2,3)
proof (cases rule: gas_step.cases)
  case sync_send
  then show ?thesis using sync_steps_inv(1) [OF assms(1,3)] by auto
next
  case sync_hold
  then show ?thesis using sync_steps_inv(2) [OF assms(1,3)] by auto
next
  case (sync_take x xs)
  then show ?thesis using sync_steps_inv(3) [OF assms(1,3)] by (metis (full_types))
next
  case sync_poll
  then show ?thesis using sync_steps_inv(4) [OF assms(1,3)] by auto
next
  case (gs_send sp x xs)
  then show ?thesis using gs_send_inv [OF assms(1,3) gs_send(3-5)] by auto
next
  case (merge sp x xs y ys)
  then show ?thesis using merge_inv [OF assms(1,3) merge(3-6)] by auto
next
  case apply_beat
  then show ?thesis using apply_inv [OF assms(1,3) apply_beat(4,5)] by auto
next
  case (forward sp x xs out)
  then show ?thesis using forward_inv [OF assms(1,3) forward(3-7)] by auto
next
  case (write_word sp x xs)
  then show ?thesis using write_inv [OF assms(1,3) write_word(3,5)] by auto
qed

lemma gas_run_inv:
  assumes "gas_run c m s" "gas_call_ok c n"
  shows "\<exists>cnt sent. gas_inv c n cnt sent m s"
  using assms(1)
proof (induction rule: gas_run.induct)
  case run_init
  then show ?case using gas_inv_init [OF assms(2)] by blast
next
  case (run_step m s b s')
  then show ?case using gas_inv_step [OF assms(2)] by blast
qed

section \<open>A call does not get stuck\<close>

text \<open>A step that moves a beat, perhaps after an idle half of an iteration of \<open>streamSync\<close>.\<close>

definition gas_moves :: "gas_call \<Rightarrow> gas_state \<Rightarrow> bool" where
  "gas_moves c s \<longleftrightarrow> (\<exists>s1 s2. (s1 = s \<or> gas_step c s False s1) \<and> gas_step c s1 True s2)"

lemma moves_now: "gas_step c s True s' \<Longrightarrow> gas_moves c s"
  unfolding gas_moves_def by blast

lemma moves_next: "gas_step c s False s1 \<Longrightarrow> gas_step c s1 True s2 \<Longrightarrow> gas_moves c s"
  unfolding gas_moves_def by blast

text \<open>A stage with a beat in front of it is stuck only when the FIFO behind it is full.\<close>

lemma stuck_writers:
  assumes "gas_call_ok c n" "gas_inv c n cnt sent m s" "\<not> gas_moves c s" "sp < 4"
  shows "wr_fifo s sp = []"
proof (rule ccontr)
  assume "wr_fifo s sp \<noteq> []"
  then obtain x xs where x: "wr_fifo s sp = x # xs" by (cases "wr_fifo s sp") auto
  have i: "ring_ok c n cnt (fifo s)" "sink_ok c cnt s" using assms(2) by (simp_all add: gas_inv_def)
  have c6: "cnt (6 + sp) \<le> n" using ring_ok_le [OF i(1)] assms(4) by simp
  have "length (gas_chan c (6 + sp)) = n" using gas_chan_length [OF assms(1)] assms(4) by simp
  then have "seg (wr_k s sp) (cnt (6 + sp)) (gas_chan c (6 + sp)) = x # xs" "cnt (6 + sp) \<le> length (gas_chan c (6 + sp))"
    using sink_okD(2) [OF i(2) assms(4)] x c6 by simp_all
  from seg_eq_Cons(1) [OF this] have "wr_k s sp < write_beats c" using c6 assms(1) by (simp add: gas_call_ok_def)
  from write_word [OF assms(4) this x] assms(3) show False using moves_now by blast
qed

lemma stuck_stages:
  assumes ok: "gas_call_ok c n" and inv: "gas_inv c n cnt sent m s" and stuck: "\<not> gas_moves c s"
    and k: "k < 9" and f: "fifo s k \<noteq> []"
  shows "gc_cap c (Suc k) \<le> length (fifo s (Suc k))"
proof (rule ccontr)
  assume "\<not> gc_cap c (Suc k) \<le> length (fifo s (Suc k))"
  then have room: "length (fifo s (Suc k)) < gc_cap c (Suc k)" by simp
  have i: "ring_ok c n cnt (fifo s)" "feed_ok c n cnt sent s" "apply_ok c (cnt 5) s" using inv by (simp_all add: gas_inv_def)
  obtain y ys where y: "fifo s k = y # ys" using f by (cases "fifo s k") auto
  have k10: "k < 10" using k by simp
  note h = ring_head [OF ok i(1) k10 y]
  have wr: "length (wr_fifo s sp) < gc_out_cap c sp" if "sp < 4" for sp
    using stuck_writers [OF ok inv stuck that] ok that by (simp add: gas_call_ok_def)
  consider sp where "k = 3 - sp" "sp < 4" | "k = 4" | sp where "k = 5 + sp" "sp < 4"
  proof (cases "k < 4")
    case True
    then show ?thesis using that(1) [of "3 - k"] by simp
  next
    case False
    then show ?thesis using that(2) that(3) [of "k - 5"] k by (cases "k = 4") simp_all
  qed
  then have "gas_moves c s"
  proof cases
    case (1 sp)
    then have Sk: "Suc k = 4 - sp" by simp
    note d = feed_okD [OF i(2) 1(2)]
    show ?thesis
    proof (cases "gs_fifo s sp")
      case Nil
      have t: "length (gc_tmp c sp) = n" using ok 1(2) by (simp add: gas_call_ok_def)
      then have "sent sp - cnt (4 - sp) = 0" using Nil d(4) d(2) by (metis length_seg list.size(3))
      then have "sent sp < n" using h(4) Sk by simp
      then obtain x xs where "gs_rest s sp = x # xs" using d(3) t by (metis Cons_nth_drop_Suc)
      moreover have "length (gs_fifo s sp) < gc_in_cap c sp" using Nil ok 1(2) by (simp add: gas_call_ok_def)
      ultimately show ?thesis using gs_send [OF 1(2)] moves_now by blast
    next
      case (Cons x xs)
      from merge [OF 1(2) Cons, of y ys c] y room Sk 1(1) show ?thesis using moves_now by metis
    qed
  next
    case 2
    have c: "ap_c s < apply_loopNum c" using h(4) 2 i(3) ok by (simp add: apply_ok_def gas_call_ok_def)
    have p: "ap_c s = cnt 5" "ap_info s = apply_sums c (cnt 5)" "ap_degs s = map_option (drop (cnt 5)) (read_degs c)"
      "ap_props s = drop (cnt 5) (read_props c)" using i(3) by (simp_all add: apply_ok_def)
    have l: "cnt 5 < n" "y = gas_chan c 4 ! cnt 5" using h(2,4) 2 by simp_all
    have r: "length (fifo s 5) < gc_cap c 5" and y4: "fifo s 4 = y # ys" using room y 2 by simp_all
    have "applyFunction_loop (gc_app c) (gc_beat c) (gc_arg c) (gc_junk c) (ap_c s) 1 (ap_info s) (ap_degs s) (ap_props s) (fifo s 4) =
      ([gas_chan c 5 ! cnt 5], apply_sums c (Suc (cnt 5)), map_option (drop (Suc (cnt 5))) (read_degs c),
       drop (Suc (cnt 5)) (read_props c), ys, Returned)"
      unfolding p y4 by (rule gas_chan_apply [OF ok l])
    from apply_beat [OF c r this] show ?thesis by (rule moves_now)
  next
    case (3 sp)
    then have Sk: "Suc k = 6 + sp" by simp
    from forward [OF 3(2) _ wr [OF 3(2)] _ refl, of y ys] y room Sk 3(1) show ?thesis using moves_now by metis
  qed
  with stuck show False by blast
qed

text \<open>
  Nothing moves only when everything has: the poll of \<open>streamSync\<close> after each of its writes
  keeps the ring from filling up, whatever the depths of the FIFOs and the window.
\<close>

lemma stuck_ring:
  assumes ok: "gas_call_ok c n" and inv: "gas_inv c n cnt sent m s" and stuck: "\<not> gas_moves c s"
  shows "fifo s 9 = []"
proof (rule ccontr)
  have i: "ring_ok c n cnt (fifo s)" "sync_ok c cnt s" using inv by (simp_all add: gas_inv_def)
  have n: "sync_loopNum c = int n" and caps: "\<forall>k<10. 0 < gc_cap c k" using ok by (simp_all add: gas_call_ok_def)
  have w: "sync_w s = int (cnt 0)" "sync_r s = int (cnt 10)" using i(2) by (simp_all add: sync_ok_def)
  assume "fifo s 9 \<noteq> []"
  then obtain x xs where x: "fifo s 9 = x # xs" by (cases "fifo s 9") auto
  have r: "sync_r s < sync_loopNum c" using ring_head(4) [OF ok i(1) _ x] w n by simp
  show False
  proof (cases "sync_at s")
    case Sync_read
    from sync_take [of s c x xs, OF this r x] stuck show False using moves_now by blast
  next
    case Sync_write
    show False
    proof (cases "sync_w s - sync_r s < sint (gc_FIFO_length c) \<and> sync_w s < sync_loopNum c")
      case False
      from sync_hold [of s c, OF Sync_write disjI2 [OF r] False] have h: "gas_step c s False (s\<lparr>sync_at := Sync_read\<rparr>)" .
      have "gas_step c (s\<lparr>sync_at := Sync_read\<rparr>) True (s\<lparr>sync_at := Sync_read\<rparr>\<lparr>sync_at := Sync_write,
          sync_r := sync_r (s\<lparr>sync_at := Sync_read\<rparr>) + 1, fifo := (fifo (s\<lparr>sync_at := Sync_read\<rparr>))(9 := xs)\<rparr>)"
        by (rule sync_take) (use r x in simp_all)
      with h stuck show False using moves_next by blast
    next
      case True
      show False
      proof (cases "length (fifo s 0) < gc_cap c 0")
        case room: True
        from sync_send [of s c, OF Sync_write _ _ room] True stuck show False using moves_now by blast
      next
        case False
        have full: "gc_cap c k \<le> length (fifo s k)" if "k < 10" for k
          using that
        proof (induction k)
          case 0
          then show ?case using False by simp
        next
          case (Suc k)
          then have "fifo s k \<noteq> []" using caps by (metis Suc_lessD le_zero_eq list.size(3) neq0_conv)
          then show ?case using stuck_stages [OF ok inv stuck] Suc.prems by simp
        qed
        have "(\<Sum>k<9. int (gc_cap c k)) < (\<Sum>k<10. int (gc_cap c k))"
          using caps [rule_format, of 9] by (simp add: eval_nat_numeral)
        also have "\<dots> \<le> (\<Sum>k<10. int (length (fifo s k)))" by (intro sum_mono) (use full in simp)
        also have "\<dots> = sync_w s - sync_r s" using ring_flight [OF ok i(1), of 10] w by simp
        also have "\<dots> \<le> (\<Sum>k<9. int (gc_cap c k))" using i(2) Sync_write by (simp add: sync_ok_def)
        finally show False by simp
      qed
    qed
  qed
qed

lemma stuck_all_moved:
  assumes ok: "gas_call_ok c n" and inv: "gas_inv c n cnt sent m s" and stuck: "\<not> gas_moves c s"
  shows "m = 19 * n"
proof -
  have i: "ring_ok c n cnt (fifo s)" "sync_ok c cnt s" "feed_ok c n cnt sent s" "sink_ok c cnt s" "m = moved cnt sent s"
    using inv by (simp_all add: gas_inv_def)
  have n: "sync_loopNum c = int n" "0 < sint (gc_FIFO_length c)" and caps: "\<forall>k<10. 0 < gc_cap c k"
    using ok by (simp_all add: gas_call_ok_def)
  have w: "sync_w s = int (cnt 0)" "sync_r s = int (cnt 10)" using i(2) by (simp_all add: sync_ok_def)
  have empty: "fifo s k = []" if "k \<le> 9" for k
    using that
  proof (induction k rule: inc_induct)
    case base
    show ?case by (rule stuck_ring [OF ok inv stuck])
  next
    case (step k)
    then have "gc_cap c (Suc k) \<noteq> 0" "length (fifo s (Suc k)) = 0" using caps by simp_all
    then show ?case using stuck_stages [OF ok inv stuck step.hyps(2)] by force
  qed
  have same: "cnt k = cnt 0" if "k \<le> 10" for k
  proof -
    have "int (cnt 0) - int (cnt k) = (\<Sum>j<k. int (length (fifo s j)))" by (rule ring_flight [OF ok i(1) that])
    also have "\<dots> = 0" using empty that by simp
    finally show ?thesis by simp
  qed
  have "cnt 0 = n"
  proof (rule ccontr)
    assume "cnt 0 \<noteq> n"
    then have l: "sync_w s < sync_loopNum c" using ring_okD(1) [OF i(1)] w n by simp
    have win: "sync_w s - sync_r s < sint (gc_FIFO_length c)" using same [of 10] w n(2) by simp
    have room: "length (fifo s 0) < gc_cap c 0" using empty caps by simp
    show False
    proof (cases "sync_at s")
      case Sync_write
      from sync_send [of s c, OF this win l room] stuck show False using moves_now by blast
    next
      case Sync_read
      let ?s = "s\<lparr>sync_at := Sync_write\<rparr>"
      have h: "gas_step c s False ?s" using sync_poll [OF Sync_read] empty by simp
      have "sync_at ?s = Sync_write" "sync_w ?s - sync_r ?s < sint (gc_FIFO_length c)" "sync_w ?s < sync_loopNum c"
        "length (fifo ?s 0) < gc_cap c 0" using win l room by simp_all
      from moves_next [OF h sync_send [OF this]] stuck show False by blast
    qed
  qed
  with same have cnt: "cnt k = n" if "k \<le> 10" for k using that by simp
  have sent: "sent sp = n" if "sp < 4" for sp using feed_okD(1,2) [OF i(3) that] cnt [of "4 - sp"] by simp
  have wr: "wr_k s sp = n" if "sp < 4" for sp
  proof -
    have c6: "cnt (6 + sp) = n" "length (gas_chan c (6 + sp)) = n" using cnt gas_chan_length [OF ok] that by simp_all
    have "seg (wr_k s sp) n (gas_chan c (6 + sp)) = []"
      using sink_okD(2) [OF i(4) that] stuck_writers [OF ok inv stuck that] c6(1) by simp
    then have "n - wr_k s sp = 0" using c6(2) by (metis length_seg list.size(3) order_refl)
    then show ?thesis using sink_okD(1) [OF i(4) that] c6(1) by simp
  qed
  have "(\<Sum>k<11. cnt k) = 11 * n" "(\<Sum>sp<4. sent sp) = 4 * n" "(\<Sum>sp<4. wr_k s sp) = 4 * n"
    using cnt sent wr by simp_all
  then show ?thesis using i(5) by (simp add: moved_def)
qed

lemma gas_inv_bound:
  assumes ok: "gas_call_ok c n" and inv: "gas_inv c n cnt sent m s"
  shows "m \<le> 19 * n" and "m = 19 * n \<Longrightarrow> k \<le> 10 \<Longrightarrow> cnt k = n" and "m = 19 * n \<Longrightarrow> sp < 4 \<Longrightarrow> wr_k s sp = n"
proof -
  have i: "ring_ok c n cnt (fifo s)" "feed_ok c n cnt sent s" "sink_ok c cnt s" "m = moved cnt sent s"
    using inv by (simp_all add: gas_inv_def)
  have le: "\<forall>k<11. cnt k \<le> n" "\<forall>sp<4. sent sp \<le> n" "\<forall>sp<4. wr_k s sp \<le> n"
  proof -
    show a: "\<forall>k<11. cnt k \<le> n" using ring_ok_le [OF i(1)] by simp
    show "\<forall>sp<4. sent sp \<le> n" using feed_okD(2) [OF i(2)] by blast
    show "\<forall>sp<4. wr_k s sp \<le> n"
    proof (intro allI impI)
      fix sp :: nat assume "sp < 4"
      then show "wr_k s sp \<le> n" using sink_okD(1) [OF i(3), of sp] ring_ok_le [OF i(1), of "6 + sp"] by simp
    qed
  qed
  have full: "\<forall>j<N. f j = n" if f: "\<forall>j<N. f j \<le> n" and N: "N * n \<le> (\<Sum>j<N. f j)" for f :: "nat \<Rightarrow> nat" and N
  proof (rule ccontr)
    assume "\<not> (\<forall>j<N. f j = n)"
    then obtain j where "j < N" "f j < n" using f le_neq_implies_less by blast
    then have "(\<Sum>j<N. f j) < (\<Sum>j<N. n)" using f by (intro sum_strict_mono_ex1) auto
    with N show False by simp
  qed
  have b: "(\<Sum>k<11. cnt k) \<le> 11 * n" "(\<Sum>sp<4. sent sp) \<le> 4 * n" "(\<Sum>sp<4. wr_k s sp) \<le> 4 * n"
    using sum_mono [of "{..<11}" cnt "\<lambda>_. n"] sum_mono [of "{..<4}" sent "\<lambda>_. n"] sum_mono [of "{..<4}" "wr_k s" "\<lambda>_. n"] le by simp_all
  then show "m \<le> 19 * n" using i(4) by (simp add: moved_def)
  show "cnt k = n" if "m = 19 * n" "k \<le> 10"
    using full [OF le(1)] b that i(4) by (simp add: moved_def)
  show "wr_k s sp = n" if "m = 19 * n" "sp < 4"
    using full [OF le(3)] b that i(4) by (simp add: moved_def)
qed

section \<open>The end of a call\<close>

abbreviation gas_reach :: "gas_call \<Rightarrow> gas_state \<Rightarrow> gas_state \<Rightarrow> bool" where
  "gas_reach c \<equiv> (\<lambda>s s'. \<exists>b. gas_step c s b s')\<^sup>*\<^sup>*"

lemma gas_run_moves:
  assumes "gas_run c m s" "gas_moves c s"
  shows "\<exists>s'. gas_reach c s s' \<and> gas_run c (Suc m) s'"
proof -
  from assms(2) obtain s1 s2 where s: "s1 = s \<or> gas_step c s False s1" "gas_step c s1 True s2" by (auto simp: gas_moves_def)
  have "gas_run c m s1" "gas_reach c s s1" using s(1) run_step [OF assms(1), of False s1] assms(1) by auto
  then show ?thesis using run_step [OF _ s(2)] s(2) by (metis (mono_tags, lifting) rtranclp.rtrancl_into_rtrancl)
qed

text \<open>When every beat has moved, at most a poll is left to do.\<close>

lemma gas_run_end:
  assumes ok: "gas_call_ok c n" and run: "gas_run c (19 * n) s"
  shows "\<exists>s'. gas_reach c s s' \<and> gas_run c (19 * n) s' \<and> gas_returned c s'"
proof -
  obtain cnt sent where inv: "gas_inv c n cnt sent (19 * n) s" using gas_run_inv [OF run ok] by blast
  note b = gas_inv_bound(2,3) [OF ok inv refl]
  have w: "sync_w s = int (cnt 0)" "sync_r s = int (cnt 10)" "ap_c s = cnt 5"
    using inv by (simp_all add: gas_inv_def sync_ok_def apply_ok_def)
  have n: "sync_loopNum c = int n" "apply_loopNum c = n" "write_beats c = n" using ok by (simp_all add: gas_call_ok_def)
  show ?thesis
  proof (cases "sync_at s")
    case Sync_write
    then have "gas_returned c s" using w n b by (simp add: gas_returned_def)
    then show ?thesis using run by blast
  next
    case Sync_read
    let ?s = "s\<lparr>sync_at := Sync_write\<rparr>"
    have "gas_step c s False ?s" by (rule sync_poll [OF Sync_read]) (use w n b in simp)
    moreover from run_step [OF run this] have "gas_run c (19 * n) ?s" by simp
    moreover have "gas_returned c ?s" using w n b by (simp add: gas_returned_def)
    ultimately show ?thesis by (metis (mono_tags, lifting) r_into_rtranclp)
  qed
qed

lemma gas_run_finishes:
  assumes ok: "gas_call_ok c n" and run: "gas_run c m s"
  shows "\<exists>s'. gas_reach c s s' \<and> gas_run c (19 * n) s' \<and> gas_returned c s'"
proof -
  have "m \<le> 19 * n" using gas_run_inv [OF run ok] gas_inv_bound(1) [OF ok] by blast
  then show ?thesis
    using run
  proof (induction m arbitrary: s rule: inc_induct)
    case base
    then show ?case using gas_run_end [OF ok] by blast
  next
    case (step m)
    obtain cnt sent where inv: "gas_inv c n cnt sent m s" using gas_run_inv [OF step.prems ok] by blast
    then have "gas_moves c s" using stuck_all_moved [OF ok inv] step.hyps by auto
    with gas_run_moves [OF step.prems] obtain s1 where "gas_reach c s s1" "gas_run c (Suc m) s1" by blast
    with step.IH show ?case by (meson rtranclp_trans)
  qed
qed

text \<open>
  A call that has returned has moved every beat; the memories and the report are those of the
  composed kernels, and nothing is left in the FIFOs and registers that the next call meets.
\<close>

lemma gas_returned_result:
  assumes ok: "gas_call_ok c n" and run: "gas_run c m s" and ret: "gas_returned c s"
  shows "m = 19 * n" "sp < 4 \<Longrightarrow> wr_mem s sp = gas_memory c sp" "ap_info s = apply_sums c n"
    "k < 10 \<Longrightarrow> fifo s k = []" "sp < 4 \<Longrightarrow> gs_fifo s sp = [] \<and> gs_rest s sp = [] \<and> wr_fifo s sp = [] \<and> pos s (4 - sp) = 0 \<and> pos s (6 + sp) = 0"
    "ap_degs s = map_option (drop n) (read_degs c)" "ap_props s = drop n (read_props c)"
proof -
  obtain cnt sent where inv: "gas_inv c n cnt sent m s" using gas_run_inv [OF run ok] by blast
  have i: "ring_ok c n cnt (fifo s)" "sync_ok c cnt s" "feed_ok c n cnt sent s" "apply_ok c (cnt 5) s" "sink_ok c cnt s"
    "m = moved cnt sent s" using inv by (simp_all add: gas_inv_def)
  have n: "sync_loopNum c = int n" "apply_loopNum c = n" "write_beats c = n" using ok by (simp_all add: gas_call_ok_def)
  have w: "sync_w s = int (cnt 0)" "sync_r s = int (cnt 10)" using i(2) by (simp_all add: sync_ok_def)
  have "n \<le> cnt 10" using ret w n by (simp add: gas_returned_def)
  then have cnt: "cnt k = n" if "k \<le> 10" for k
    using ring_ok_mono [OF i(1) that] ring_ok_le [OF i(1) that] by simp
  have sent: "sent sp = n" if "sp < 4" for sp using feed_okD(1,2) [OF i(3) that] cnt [of "4 - sp"] by simp
  have wr: "wr_k s sp = n" if "sp < 4" for sp using ret that n by (simp add: gas_returned_def)
  have "(\<Sum>k<11. cnt k) = 11 * n" "(\<Sum>sp<4. sent sp) = 4 * n" "(\<Sum>sp<4. wr_k s sp) = 4 * n"
    using cnt sent wr by simp_all
  then show "m = 19 * n" using i(6) by (simp add: moved_def)
  show "wr_mem s sp = gas_memory c sp" if sp: "sp < 4"
  proof -
    have "length (gas_chan c (6 + sp)) = n" using gas_chan_length [OF ok] sp by simp
    then show ?thesis
      using sink_okD(4) [OF i(5) sp] wr [OF sp] n(3)
      by (simp add: gas_memory_def streamWrite_def Let_def write_start_def write_beats_def)
  qed
  show "ap_info s = apply_sums c n" "ap_degs s = map_option (drop n) (read_degs c)" "ap_props s = drop n (read_props c)"
    using i(4) cnt [of 5] by (simp_all add: apply_ok_def)
  show "fifo s k = []" if "k < 10" using ring_okD(3) [OF i(1) that] cnt [of k] cnt [of "Suc k"] that by simp
  show "gs_fifo s sp = [] \<and> gs_rest s sp = [] \<and> wr_fifo s sp = [] \<and> pos s (4 - sp) = 0 \<and> pos s (6 + sp) = 0" if sp: "sp < 4"
    using feed_okD [OF i(3) sp] sink_okD(2) [OF i(5) sp] cnt [of "4 - sp"] cnt [of "6 + sp"] sent [OF sp] wr [OF sp] sp ok
    by (simp add: gas_call_ok_def)
qed

end
