(* ===== verification/Gas_Host.thy ===== *)
theory Gas_Host
  imports Gas_Ring Host_Dataflow
begin

text \<open>
  The host program of the single-FPGA design: \<open>acceleratorExecute\<close> of
  \<open>host/single_gas/mpi_graph_dataflow.cpp\<close> and the loop over the super steps in
  \<open>host/single_gas/mpi_host.cpp\<close>.  One FPGA works through all partitions in order; the calls
  of a partition are a run of the ring of kernels (theory \<open>Gas_Ring\<close>), in any interleaving.
  The data of the graph (files, sizes, out degrees) are the same as for the cluster.
\<close>

section \<open>The host program\<close>

text \<open>The buffers of the FPGA, and the vertex memories of its gather-scatter kernels.\<close>

record gas_dev =
  gd_prop :: "nat \<Rightarrow> mem"      \<comment> \<open>\<open>propBuffer\<close>\<close>
  gd_propNew :: "nat \<Rightarrow> mem"   \<comment> \<open>\<open>propBufferNew\<close>\<close>
  gd_vprop :: "nat \<Rightarrow> nat \<Rightarrow> nat \<Rightarrow> u64"

text \<open>The depths of the FIFOs that the linker puts behind the kernels.\<close>

record gas_depths =
  gf_ring :: "nat \<Rightarrow> nat"
  gf_in :: "nat \<Rightarrow> nat"
  gf_out :: "nat \<Rightarrow> nat"

text \<open>The calls for partition \<open>p\<close> in a super step.\<close>

definition gas_reBuf :: "nat \<Rightarrow> gas_dev \<Rightarrow> nat \<Rightarrow> mem" where
  "gas_reBuf super_step s = (if super_step mod 2 = 0 then gd_prop s else gd_propNew s)"

definition gas_writeBuf :: "nat \<Rightarrow> gas_dev \<Rightarrow> nat \<Rightarrow> mem" where
  "gas_writeBuf super_step s = (if super_step mod 2 = 0 then gd_propNew s else gd_prop s)"

definition gas_calls :: "cluster \<Rightarrow> gas_depths \<Rightarrow> call_env \<Rightarrow> nat \<Rightarrow> nat \<Rightarrow> gas_dev \<Rightarrow> gas_call" where
  "gas_calls cl fd env super_step p s =
     (let N = cl_psize cl; fs = cl_files cl p; reBuf = gas_reBuf super_step s
      in \<lparr>gc_app = cl_app cl, gc_loop = N div 2 ^ 4, gc_dest = 1, gc_FIFO_length = 2048, gc_vertexNum = word_of_nat N,
          gc_offset = word_of_nat (p * N), gc_arg = 0, gc_cap = gf_ring fd, gc_in_cap = gf_in fd, gc_out_cap = gf_out fd,
          gc_tmp = (\<lambda>sp. channel (cl_app cl) N (ce_tok env sp) (ce_beat env) (gd_vprop s sp) (fs ! sp) (gs_props cl env fs reBuf sp)),
          gc_vertexProp = reBuf 0, gc_outDegree = cl_outDeg cl, gc_old = gas_writeBuf super_step s,
          gc_beat = ce_beat env, gc_junk = ce_extra env\<rparr>)"

text \<open>What the calls leave: the writers' memories, and the memories of the gather-scatter kernels.\<close>

definition gas_after :: "cluster \<Rightarrow> call_env \<Rightarrow> nat \<Rightarrow> nat \<Rightarrow> gas_dev \<Rightarrow> gas_state \<Rightarrow> gas_dev" where
  "gas_after cl env super_step p s st =
     (let fs = cl_files cl p;
          vp = (\<lambda>sp. gs_bufs (gs (cl_app cl) (cl_psize cl) (ce_tok env sp) (ce_beat env) (gd_vprop s sp)
            (buffer_mem (chunkEdgeData (file_words (fs ! sp)))) (edge_end_arg (file_words (fs ! sp)))
            (gs_props cl env fs (gas_reBuf super_step s) sp)))
      in if super_step mod 2 = 0 then s\<lparr>gd_propNew := wr_mem st, gd_vprop := vp\<rparr>
         else s\<lparr>gd_prop := wr_mem st, gd_vprop := vp\<rparr>)"

text \<open>
  The loop over the partitions: the host starts the calls of a partition and waits for all of
  them before it goes on.
\<close>

inductive gas_partitions :: "cluster \<Rightarrow> gas_depths \<Rightarrow> nat \<Rightarrow> nat list \<Rightarrow> gas_dev \<Rightarrow> gas_dev \<Rightarrow> bool" for cl fd super_step where
  parts_done: "gas_partitions cl fd super_step [] s s"
| parts_next: "gas_partitions cl fd super_step (p # ps) s s'"
  if "gas_run (gas_calls cl fd env super_step p s) m st" "gas_returned (gas_calls cl fd env super_step p s) st"
    "gas_partitions cl fd super_step ps (gas_after cl env super_step p s st) s'"

inductive_cases partitions_NilE: "gas_partitions cl fd k [] s s'"
inductive_cases partitions_ConsE: "gas_partitions cl fd k (p # ps) s s'"

text \<open>The super steps of \<open>main\<close>.\<close>

inductive single_gas_run :: "cluster \<Rightarrow> gas_depths \<Rightarrow> nat \<Rightarrow> gas_dev \<Rightarrow> nat \<Rightarrow> gas_dev \<Rightarrow> bool" for cl fd partitionNum s0 where
  single_start: "single_gas_run cl fd partitionNum s0 0 s0"
| single_superstep: "single_gas_run cl fd partitionNum s0 (Suc k) s'"
  if "single_gas_run cl fd partitionNum s0 k s" "gas_partitions cl fd k [0..<partitionNum] s s'"

inductive_cases single_zeroE: "single_gas_run cl fd n s0 0 s"
inductive_cases single_SucE: "single_gas_run cl fd n s0 (Suc k) s"

section \<open>What the program relies on\<close>

definition graph_ok :: "cluster \<Rightarrow> (nat \<Rightarrow> vedge list) \<Rightarrow> bool" where
  "graph_ok cl E \<longleftrightarrow> (\<exists>x. cl_psize cl = 2 ^ x \<and> 10 \<le> x \<and> x < 31) \<and> total_p_num cl * cl_words cl + 64 < 2 ^ 28 \<and> cl_block cl < 27 \<and>
     (\<forall>k < total_p_num cl. length (E k) + 32 < 2 ^ 27 \<and>
        (\<forall>e \<in> set (E k). 0 \<le> fst e \<and> fst e < 2 ^ 31 \<and> 0 \<le> snd e \<and> snd e < 2 ^ 31) \<and>
        (\<forall>f \<in> set (cl_files cl k). cache_safe (cl_block cl) f))"

definition depths_ok :: "gas_depths \<Rightarrow> bool" where
  "depths_ok fd \<longleftrightarrow> (\<forall>k<10. 0 < gf_ring fd k) \<and> (\<forall>sp<4. 0 < gf_in fd sp \<and> 0 < gf_out fd sp)"

lemma graph_sizes:
  assumes "graph_ok cl E"
  shows "cl_psize cl = 16 * cl_words cl" "0 < cl_words cl" "k < total_p_num cl \<Longrightarrow> k * cl_words cl + cl_words cl + 64 < 2 ^ 28"
    "\<exists>j. cl_psize cl = 1024 * j \<and> cl_words cl = 64 * j \<and> 0 < j" "cl_psize cl < 2 ^ 31"
proof -
  obtain x where x: "cl_psize cl = 2 ^ x" "10 \<le> x" "x < 31" using assms by (auto simp: graph_ok_def)
  then have e: "cl_psize cl = 2 ^ 10 * 2 ^ (x - 10)" by (metis le_add_diff_inverse power_add)
  then show "cl_psize cl = 16 * cl_words cl" "0 < cl_words cl" by (simp_all add: cl_words_def)
  show "\<exists>j. cl_psize cl = 1024 * j \<and> cl_words cl = 64 * j \<and> 0 < j"
    using e by (intro exI [of _ "2 ^ (x - 10)"]) (simp add: cl_words_def)
  have "cl_psize cl < (2 :: nat) ^ 31" unfolding x(1) by (rule power_strict_increasing) (use x(3) in simp_all)
  then show "cl_psize cl < 2 ^ 31" .
  assume "k < total_p_num cl"
  then have "Suc k * cl_words cl \<le> total_p_num cl * cl_words cl" by (intro mult_le_mono1) simp
  moreover have "total_p_num cl * cl_words cl + 64 < 2 ^ 28" using assms by (simp add: graph_ok_def)
  ultimately show "k * cl_words cl + cl_words cl + 64 < 2 ^ 28" by simp
qed

section \<open>The ring on partial results\<close>

text \<open>The beats of a stream carry the gathered updates \<open>V v\<close> of each vertex.\<close>

definition carries :: "app \<Rightarrow> nat \<Rightarrow> (nat \<Rightarrow> u32 list) \<Rightarrow> burst_dest list \<Rightarrow> bool" where
  "carries a n V xs \<longleftrightarrow> length xs = n \<and>
     (\<forall>t<n. bd_data (xs ! t) = burst_of (\<lambda>i. gather_all (gatherFunc a) (V (16 * t + i))))"

lemma carries_gathered: "carries a n U (gathered a u n U)"
  by (simp add: carries_def gathered_def)

lemma carries_merge:
  assumes "gather_algebra (gatherFunc a) ok" "\<forall>v. \<forall>x \<in> set (U v @ V v). ok x" "0 < n"
    and "carries a n U xs" "carries a n V ys"
  shows "carries a n (\<lambda>v. U v @ V v) (gas_streamMerge a n 0 xs ys)"
proof -
  have g: "gatherFunc a (gather_all (gatherFunc a) (U v)) (gather_all (gatherFunc a) (V v)) =
      gather_all (gatherFunc a) (U v @ V v)" for v
    by (rule gather_algebra.gather_append [OF assms(1), symmetric]) (use assms(2) in auto)
  have l: "length xs = n" "length ys = n" using assms(4,5) by (simp_all add: carries_def)
  show ?thesis
    unfolding carries_def
  proof (intro conjI allI impI)
    show "length (gas_streamMerge a n 0 xs ys) = n" by (simp add: gas_streamMerge_length l)
    fix t assume t: "t < n"
    then have "bd_data (gas_streamMerge a n 0 xs ys ! t) = merge_burst a (bd_data (xs ! t)) (bd_data (ys ! t))"
      using assms(3) l by (simp add: gas_streamMerge_nth net_beat_def)
    also have "\<dots> = burst_of (\<lambda>i. gather_all (gatherFunc a) (U (16 * t + i) @ V (16 * t + i)))"
      using assms(4,5) t
      by (simp add: carries_def merge_burst_def burst_of_eq_iff lane_burst_of g PROP_COMPUTE_STAGE4_def)
    finally show "bd_data (gas_streamMerge a n 0 xs ys ! t) = burst_of (\<lambda>i. gather_all (gatherFunc a) (U (16 * t + i) @ V (16 * t + i)))" .
  qed
qed

lemma carries_sync: "carries a (gc_loop c) (\<lambda>_. []) (gas_chan c 0)"
  by (simp add: carries_def sync_beat_def gather_all_def) (simp add: burst_eqI lane_burst_of)

text \<open>What the call leaves in a memory: the apply stage on the gathered updates.\<close>

lemma gas_memory_carries:
  assumes ok: "gas_call_ok c n" and n: "n = 64 * j" "0 < j" "off + n + 64 < 2 ^ 28"
    and args: "gc_offset c = word_of_nat (16 * off)" "gc_vertexNum c = word_of_nat (16 * n)"
    and V: "carries (gc_app c) n V (gas_chan c 4)" and sp: "sp < 4"
    and g: "\<And>v. gather_all (gatherFunc (gc_app c)) (V v) = gather_all (gatherFunc (gc_app c)) (edge_updates (gc_app c) N vprop es v)"
  shows "gas_memory c sp = (\<lambda>t. if off \<le> t \<and> t < off + n
    then partition_words (gc_app c) N vprop es (gc_vertexProp c) (gc_outDegree c) (gc_junk c) (gc_arg c) off (t - off)
    else gc_old c sp t)"
proof -
  have r: "((n - 1) div 64 + 1) * 64 = n"
  proof -
    have "(n - 1) div 64 = j - 1" unfolding n(1) using n(2) by (cases j) (auto intro: div_nat_eqI)
    with n show ?thesis by simp
  qed
  have rd: "burstReadLiteRaw (word_of_nat (16 * off)) (word_of_nat (16 * n)) = (\<lambda>m. map (\<lambda>t. m (off + t)) [0..<n])"
    by (rule ext) (use burstReadLiteRaw_words [of n off] n in \<open>unfold r, simp\<close>)
  have ps: "read_props c = map (\<lambda>t. gc_vertexProp c (off + t)) [0..<n]"
    "read_degs c = map_option (\<lambda>d. map (\<lambda>t. d (off + t)) [0..<n]) (gc_outDegree c)"
    unfolding read_props_def read_degs_def args rd by (rule refl)+
  have al: "apply_loopNum c = n" using ok by (simp add: gas_call_ok_def)
  have l: "n \<le> length (read_props c)" "n \<le> length (gas_chan c 4)" "case read_degs c of Some d \<Rightarrow> n \<le> length d | None \<Rightarrow> True"
    using gas_chan_length [OF ok, of 4] by (simp_all add: ps split: option.splits)
  have five: "bd_data (gas_chan c 5 ! t) = partition_words (gc_app c) N vprop es (gc_vertexProp c) (gc_outDegree c) (gc_junk c) (gc_arg c) off t"
    if t: "t < n" for t
  proof -
    have "bd_data (gas_chan c 4 ! t) = burst_of (\<lambda>i. gather_all (gatherFunc (gc_app c)) (V (16 * t + i)))"
      using V t by (simp add: carries_def)
    then show ?thesis
      using t unfolding gas_chan_stage(2) al applyFunction_loop_enough [OF l]
      by (cases "gc_outDegree c")
        (simp_all add: ps partition_words_def burst_of_eq_iff apply_lane_def lane_burst_of new_property_def g)
  qed
  have fwd: "bd_data (gas_chan c (5 + q) ! t) = bd_data (gas_chan c 5 ! t)" if "t < n" "q \<le> 4" for t q
    using that(2)
  proof (induction q)
    case (Suc q)
    have "gas_chan c (6 + q) ! t = net_beat n t (bd_data (gas_chan c (5 + q) ! t))"
      unfolding gas_chan_stage(3) using ok that(1) Suc.prems gas_chan_length [OF ok, of "5 + q"]
      by (simp add: gas_call_ok_def gas_streamForward_port(2))
    with Suc show ?case by (simp add: net_beat_def)
  qed simp
  have l6: "64 * j \<le> length (gas_chan c (6 + sp))" "off + 64 * j < 2 ^ 28"
    using gas_chan_length [OF ok, of "6 + sp"] sp n by simp_all
  have w: "16 * n = 1024 * j" using n(1) by simp
  have six: "bd_data (gas_chan c (6 + sp) ! t) = bd_data (gas_chan c 5 ! t)" if "t < n" for t
    using fwd [OF that, of "Suc sp"] sp by simp
  show ?thesis
    unfolding gas_memory_def args w streamWrite_rows [OF l6] fst_conv
    using six five by (auto simp: fun_eq_iff n(1))
qed

section \<open>The invariants\<close>

text \<open>
  The loop over the partitions: \<open>p\<close> partitions are done, \<open>old\<close> was in the buffers that are
  written.
\<close>

definition partitions_inv :: "cluster \<Rightarrow> (nat \<Rightarrow> vedge list) \<Rightarrow> nat \<Rightarrow> mem \<Rightarrow> mem \<Rightarrow> nat \<Rightarrow> gas_dev \<Rightarrow> bool" where
  "partitions_inv cl E k cur old p s \<longleftrightarrow> (\<forall>sp<4. gas_reBuf k s sp = cur \<and>
     gas_writeBuf k s sp = (\<lambda>t. if t < p * cl_words cl then graph_word cl E cur t else old t) \<and>
     (\<forall>i<16. \<forall>t < cl_psize cl div 32. gd_vprop s sp i t = 0))"

text \<open>What holds between super steps.\<close>

definition single_inv :: "cluster \<Rightarrow> mem \<times> mem \<Rightarrow> gas_dev \<Rightarrow> bool" where
  "single_inv cl M s \<longleftrightarrow> (\<forall>sp<4. gd_prop s sp = fst M \<and> gd_propNew s sp = snd M \<and>
     (\<forall>i<16. \<forall>t < cl_psize cl div 32. gd_vprop s sp i t = 0))"

lemma single_inv_partitions:
  "single_inv cl M s \<longleftrightarrow> partitions_inv cl E k (current_buffer k M) (if k mod 2 = 0 then snd M else fst M) 0 s"
  by (simp add: single_inv_def partitions_inv_def gas_reBuf_def gas_writeBuf_def current_buffer_def) blast

lemma partitions_inv_single:
  assumes "partitions_inv cl E k (current_buffer k M) (if k mod 2 = 0 then snd M else fst M) (total_p_num cl) s"
  shows "single_inv cl (if k mod 2 = 0 then (fst M, graph_step cl E (fst M) (snd M)) else (graph_step cl E (snd M) (fst M), snd M)) s"
  using assms by (simp add: single_inv_def partitions_inv_def gas_reBuf_def gas_writeBuf_def current_buffer_def graph_step_def
      split: if_splits)

section \<open>The runs\<close>

context partitioner
begin

lemma gas_calls_result:
  assumes files: "partition_interval edgeSort splits blockSort batchSort flt (E p) = Some (cl_files cl p)"
    and ok: "graph_ok cl E" "depths_ok fd" "p < total_p_num cl"
    and zero: "\<forall>sp<4. \<forall>i<16. \<forall>t < cl_psize cl div 32. gd_vprop s sp i t = 0"
    and buf: "\<forall>j<4. gas_reBuf k s j = cur"
    and alg: "gather_algebra (gatherFunc (cl_app cl)) okv" "updates_ok cl E okv cur" "extra_free (cl_app cl)"
  shows "gas_call_ok (gas_calls cl fd env k p s) (cl_words cl)"
    and "sp < 4 \<Longrightarrow> gas_memory (gas_calls cl fd env k p s) sp = (\<lambda>t. if p * cl_words cl \<le> t \<and> t < p * cl_words cl + cl_words cl
      then graph_word cl E cur t else gas_writeBuf k s sp t)"
proof -
  let ?W = "cl_words cl" and ?N = "cl_psize cl" and ?es = "E p" and ?fs = "cl_files cl p" and ?a = "cl_app cl"
  let ?c = "gas_calls cl fd env k p s" and ?reBuf = "gas_reBuf k s"
  note sz = graph_sizes [OF ok(1)]
  obtain j where j: "?N = 1024 * j" "?W = 64 * j" "0 < j" using sz(4) by blast
  obtain x where x: "?N = 2 ^ x" "10 \<le> x" "x < 31" using ok(1) by (auto simp: graph_ok_def)
  have b: "p * ?W + ?W + 64 < 2 ^ 28" by (rule sz(3) [OF ok(3)])
  have es: "length ?es + 32 < 2 ^ 27" "\<forall>e \<in> set ?es. 0 \<le> fst e \<and> fst e < 2 ^ 31" "\<forall>e \<in> set ?es. 0 \<le> snd e \<and> snd e < 2 ^ 31"
    and safe: "\<forall>f \<in> set ?fs. cache_safe (cl_block cl) f" and B: "cl_block cl < 27"
    using ok(1,3) by (auto simp: graph_ok_def)
  have dst: "\<forall>e \<in> set ?es. 0 \<le> snd e" using es(3) by blast
  have x32: "x < 32" using x(3) by simp
  note answers = interval_cached [OF files es(1,2) dst B safe buf, of "ce_cache env" "ce_tok env"]
  obtain U where ch: "\<And>i. i < 4 \<Longrightarrow> channel ?a ?N (ce_tok env i) (ce_beat env) (gd_vprop s i) (?fs ! i)
      (channel_props (cl_block cl) (ce_cache env i) (?reBuf i) (ce_tok env i) (?fs ! i)) = gathered ?a (ce_beat env) (?N div 16) (U i)"
    and sub: "\<And>i v. i < 4 \<Longrightarrow> set (U i v) \<subseteq> set (edge_updates ?a ?N (prop_of cur) ?es v)"
    and all: "\<And>v. mset (U 0 v @ U 1 v @ U 2 v @ U 3 v) = mset (edge_updates ?a ?N (prop_of cur) ?es v)"
    using partition_channels [OF files es(1,3) x(1,2) x32 zero answers, of ?a "ce_tok env" "ce_beat env" "\<lambda>_. []"]
    unfolding append_Nil2 by metis
  have tmp: "gc_tmp ?c i = gathered ?a (ce_beat env) ?W (U i)" if "i < 4" for i
    using ch [OF that] by (simp add: gas_calls_def Let_def gs_props_def cl_words_def)
  have args: "gc_offset ?c = word_of_nat (16 * (p * ?W))" "gc_vertexNum ?c = word_of_nat (16 * ?W)" "gc_app ?c = ?a" "gc_loop ?c = ?W"
    "gc_arg ?c = 0" "gc_vertexProp ?c = cur" "gc_outDegree ?c = cl_outDeg cl" "gc_old ?c = gas_writeBuf k s" "gc_junk ?c = ce_extra env"
    using buf by (simp_all add: gas_calls_def Let_def sz(1) ac_simps)
  show call: "gas_call_ok ?c ?W"
  proof -
    have u: "unat (word_of_nat ?N :: u32) = ?N" by (rule unat_of_nat_small) (use sz(5) in simp)
    have "sint (signed_drop_bit 4 (word_of_nat ?N :: u32)) = int ?W"
    proof -
      have "sint (word_of_nat ?N :: u32) = int ?N"
        using signed_take_bit_int_eq_self [of 31 "int ?N"] sint_sbintrunc' [of "int ?N", where 'a = 32] sz(5) by simp
      then show ?thesis by (simp add: sint_signed_drop_bit_eq drop_bit_eq_div sz(1))
    qed
    moreover have "unat (drop_bit 4 (word_of_nat ?N :: u32)) = ?W"
      by (simp only: unat_drop_bit_eq u) (simp add: drop_bit_eq_div sz(1))
    moreover have "unat (drop_bit (LOG_WRITE_BURST_LEN + LOG2_SIZE_BY_INT) (word_of_nat ?N :: u32)) * WRITE_BACK_BURST_LENGTH = ?W"
      by (simp only: unat_drop_bit_eq u LOG_WRITE_BURST_LEN_def LOG2_SIZE_BY_INT_def WRITE_BACK_BURST_LENGTH_def)
        (simp add: drop_bit_eq_div j(1,2))
    moreover have "length (burstReadLiteRaw (word_of_nat (p * ?N)) (word_of_nat ?N) m) = ?W" for m
    proof -
      have "(?W - 1) div 64 = j - 1" using j(2,3) by (cases j) (auto intro: div_nat_eqI)
      then have r: "((?W - 1) div 64 + 1) * 64 = ?W" using j(2,3) by simp
      have e: "p * ?N = 16 * (p * ?W)" using sz(1) by simp
      show ?thesis
        unfolding e unfolding sz(1) using burstReadLiteRaw_words [of ?W "p * ?W" m] sz(2) b unfolding r by simp
    qed
    ultimately show ?thesis
      unfolding gas_call_ok_def
      using tmp ok(2) sz(2) args(4)
      by (simp add: sync_loopNum_def apply_loopNum_def write_beats_def read_props_def read_degs_def gas_calls_def Let_def depths_ok_def
          gathered_def split: option.splits)
  qed
  have okU: "\<forall>x \<in> set (U i v). okv x" if "i < 4" for i v
    using sub [OF that, of v] alg(2) ok(3) by (auto simp: updates_ok_def)
  have V: "carries ?a ?W (\<lambda>v. U 0 v @ U 1 v @ U 2 v @ U 3 v @ []) (gas_chan ?c 4)"
  proof -
    have st: "gas_chan ?c (4 - i) = gas_streamMerge ?a ?W 0 (gathered ?a (ce_beat env) ?W (U i)) (gas_chan ?c (3 - i))" if "i < 4" for i
      using gas_chan_stage(1) [OF that, of ?c] tmp [OF that] args(3,4) by simp
    have c0: "carries ?a ?W (\<lambda>_. []) (gas_chan ?c 0)" using carries_sync [of ?a ?c] unfolding args(4) .
    have c1: "carries ?a ?W (\<lambda>v. U 3 v @ []) (gas_chan ?c 1)"
      using carries_merge [OF alg(1) _ sz(2) carries_gathered [of ?a ?W "U 3" "ce_beat env"] c0] okU [of 3] st [of 3] by simp
    have c2: "carries ?a ?W (\<lambda>v. U 2 v @ U 3 v @ []) (gas_chan ?c 2)"
      using carries_merge [OF alg(1) _ sz(2) carries_gathered [of ?a ?W "U 2" "ce_beat env"] c1] okU [of 3] okU [of 2] st [of 2]
      by (simp add: ball_Un)
    have c3: "carries ?a ?W (\<lambda>v. U 1 v @ U 2 v @ U 3 v @ []) (gas_chan ?c 3)"
      using carries_merge [OF alg(1) _ sz(2) carries_gathered [of ?a ?W "U 1" "ce_beat env"] c2] okU [of 3] okU [of 2] okU [of 1] st [of 1]
      by (simp add: ball_Un)
    show ?thesis
      using carries_merge [OF alg(1) _ sz(2) carries_gathered [of ?a ?W "U 0" "ce_beat env"] c3] okU [of 3] okU [of 2] okU [of 1] okU [of 0]
        st [of 0] by (simp add: ball_Un)
  qed
  have g: "gather_all (gatherFunc ?a) (U 0 v @ U 1 v @ U 2 v @ U 3 v @ []) = gather_all (gatherFunc ?a) (edge_updates ?a ?N (prop_of cur) ?es v)" for v
    using all [of v] okU [of 0 v] okU [of 1 v] okU [of 2 v] okU [of 3 v]
    by (intro gather_algebra.gather_perm [OF alg(1)]) (simp_all add: ball_Un)
  show "gas_memory ?c sp = (\<lambda>t. if p * ?W \<le> t \<and> t < p * ?W + ?W then graph_word cl E cur t else gas_writeBuf k s sp t)" if sp: "sp < 4"
  proof
    fix t
    have "t div ?W = p \<and> t mod ?W = t - p * ?W" if "p * ?W \<le> t" "t < p * ?W + ?W" by (rule div_in_slice [OF sz(2) that])
    then show "gas_memory ?c sp t = (if p * ?W \<le> t \<and> t < p * ?W + ?W then graph_word cl E cur t else gas_writeBuf k s sp t)"
      using gas_memory_carries [OF call j(2,3) b args(1,2) V [folded args(3)] sp g [folded args(3)]]
        partition_words_extra [OF alg(3), where junk = "ce_extra env" and junk' = "\<lambda>_ _. 0"]
      unfolding args graph_word_def by simp
  qed
qed

lemma gas_after_zero:
  assumes files: "partition_interval edgeSort splits blockSort batchSort flt (E p) = Some (cl_files cl p)"
    and ok: "graph_ok cl E" "p < total_p_num cl"
    and zero: "\<forall>sp<4. \<forall>i<16. \<forall>t < cl_psize cl div 32. gd_vprop s sp i t = 0"
    and buf: "\<forall>j<4. gas_reBuf k s j = cur"
  shows "\<forall>sp<4. \<forall>i<16. \<forall>t < cl_psize cl div 32. gd_vprop (gas_after cl env k p s st) sp i t = 0"
proof -
  obtain x where x: "cl_psize cl = 2 ^ x" "10 \<le> x" "x < 31" using ok(1) by (auto simp: graph_ok_def)
  have x32: "x < 32" using x(3) by simp
  have es: "length (E p) + 32 < 2 ^ 27" "\<forall>e \<in> set (E p). 0 \<le> fst e \<and> fst e < 2 ^ 31" "\<forall>e \<in> set (E p). 0 \<le> snd e \<and> snd e < 2 ^ 31"
    and safe: "\<forall>f \<in> set (cl_files cl p). cache_safe (cl_block cl) f" and B: "cl_block cl < 27"
    using ok by (auto simp: graph_ok_def)
  from partition_resets [OF files es x(1,2) x32 zero B safe buf, of "cl_app cl" "ce_tok env" "ce_beat env" "ce_cache env"]
  show ?thesis by (simp add: gas_after_def Let_def gs_props_def)
qed

lemma gas_after_inv:
  assumes files: "partition_interval edgeSort splits blockSort batchSort flt (E p) = Some (cl_files cl p)"
    and ok: "graph_ok cl E" "depths_ok fd" "p < total_p_num cl" and inv: "partitions_inv cl E k cur old p s"
    and alg: "gather_algebra (gatherFunc (cl_app cl)) okv" "updates_ok cl E okv cur" "extra_free (cl_app cl)"
    and run: "gas_run (gas_calls cl fd env k p s) m st" "gas_returned (gas_calls cl fd env k p s) st"
  shows "partitions_inv cl E k cur old (Suc p) (gas_after cl env k p s st)"
proof -
  let ?W = "cl_words cl" and ?s = "gas_after cl env k p s st"
  have zero: "\<forall>sp<4. \<forall>i<16. \<forall>t < cl_psize cl div 32. gd_vprop s sp i t = 0" and buf: "\<forall>j<4. gas_reBuf k s j = cur"
    using inv by (simp_all add: partitions_inv_def)
  note c = gas_calls_result [OF files ok zero buf alg, where env = env]
  have "wr_mem st sp = (\<lambda>t. if p * ?W \<le> t \<and> t < p * ?W + ?W then graph_word cl E cur t else gas_writeBuf k s sp t)" if "sp < 4" for sp
    using gas_returned_result(2) [OF c(1) run that] c(2) [OF that] by simp
  then have wr: "wr_mem st sp = (\<lambda>t. if t < Suc p * ?W then graph_word cl E cur t else old t)" if "sp < 4" for sp
    using that inv by (auto simp: partitions_inv_def fun_eq_iff)
  have "gas_reBuf k ?s sp = gas_reBuf k s sp" "gas_writeBuf k ?s sp = wr_mem st sp" for sp
    by (simp_all add: gas_after_def Let_def gas_reBuf_def gas_writeBuf_def)
  with wr buf gas_after_zero [OF files ok(1,3) zero buf, where env = env and st = st] show ?thesis
    by (simp add: partitions_inv_def)
qed

lemma gas_partitions_inv:
  assumes files: "\<forall>q < total_p_num cl. partition_interval edgeSort splits blockSort batchSort flt (E q) = Some (cl_files cl q)"
    and ok: "graph_ok cl E" "depths_ok fd"
    and alg: "gather_algebra (gatherFunc (cl_app cl)) okv" "updates_ok cl E okv cur" "extra_free (cl_app cl)"
    and p: "p \<le> P" "P \<le> total_p_num cl" and inv: "partitions_inv cl E k cur old p s"
    and run: "gas_partitions cl fd k [p..<P] s s'"
  shows "partitions_inv cl E k cur old P s'"
  using p(1) inv run
proof (induction p arbitrary: s rule: inc_induct)
  case base
  then show ?case by (auto elim: partitions_NilE)
next
  case (step p)
  have q: "p < total_p_num cl" using step.hyps(2) p(2) by simp
  have u: "[p..<P] = p # [Suc p..<P]" using step.hyps(2) by (rule upt_conv_Cons)
  from step.prems(2) [unfolded u] obtain env m st where
    "gas_run (gas_calls cl fd env k p s) m st" "gas_returned (gas_calls cl fd env k p s) st"
    and rest: "gas_partitions cl fd k [Suc p..<P] (gas_after cl env k p s st) s'"
    by (auto elim: partitions_ConsE)
  note after = gas_after_inv [OF files [rule_format, OF q] ok q step.prems(1) alg this(1,2)]
  show ?case by (rule step.IH [OF after rest])
qed

lemma gas_partitions_exist:
  assumes files: "\<forall>q < total_p_num cl. partition_interval edgeSort splits blockSort batchSort flt (E q) = Some (cl_files cl q)"
    and ok: "graph_ok cl E" "depths_ok fd"
    and alg: "gather_algebra (gatherFunc (cl_app cl)) okv" "updates_ok cl E okv cur" "extra_free (cl_app cl)"
    and p: "p \<le> P" "P \<le> total_p_num cl" and inv: "partitions_inv cl E k cur old p s"
  shows "\<exists>s'. gas_partitions cl fd k [p..<P] s s'"
  using p(1) inv
proof (induction p arbitrary: s rule: inc_induct)
  case base
  show ?case by simp (rule exI, rule parts_done)
next
  case (step p)
  have q: "p < total_p_num cl" using step.hyps(2) p(2) by simp
  have u: "[p..<P] = p # [Suc p..<P]" using step.hyps(2) by (rule upt_conv_Cons)
  have zero: "\<forall>sp<4. \<forall>i<16. \<forall>t < cl_psize cl div 32. gd_vprop s sp i t = 0" and buf: "\<forall>j<4. gas_reBuf k s j = cur"
    using step.prems by (simp_all add: partitions_inv_def)
  fix env :: call_env
  note f = files [rule_format, OF q]
  note c = gas_calls_result(1) [OF f ok q zero buf alg, where env = env]
  obtain m st where st: "gas_run (gas_calls cl fd env k p s) m st" "gas_returned (gas_calls cl fd env k p s) st"
    using gas_run_finishes [OF c run_init] by blast
  from step.IH [OF gas_after_inv [OF f ok q step.prems alg st]] parts_next [OF st] show ?case
    unfolding u by blast
qed

lemma single_gas_result:
  assumes run: "single_gas_run cl fd (total_p_num cl) s0 k s"
    and files: "\<forall>q < total_p_num cl. partition_interval edgeSort splits blockSort batchSort flt (E q) = Some (cl_files cl q)"
    and ok: "graph_ok cl E" "depths_ok fd" and inv: "single_inv cl M s0"
    and alg: "gather_algebra (gatherFunc (cl_app cl)) okv" "extra_free (cl_app cl)"
    and upd: "\<forall>j<k. updates_ok cl E okv (current_buffer j (buffers_after cl E M j))"
  shows "single_inv cl (buffers_after cl E M k) s"
  using run upd
proof (induction rule: single_gas_run.induct)
  case single_start
  then show ?case using inv by simp
next
  case (single_superstep k s s')
  then have IH: "single_inv cl (buffers_after cl E M k) s"
    and u: "updates_ok cl E okv (current_buffer k (buffers_after cl E M k))" by simp_all
  from partitions_inv_single [OF gas_partitions_inv [OF files ok alg(1) u alg(2) le0 order_refl
        IH [unfolded single_inv_partitions [of cl _ s E k]] single_superstep.hyps(2)]]
  show ?case unfolding buffers_after_Suc Let_def .
qed

lemma single_gas_exists:
  assumes files: "\<forall>q < total_p_num cl. partition_interval edgeSort splits blockSort batchSort flt (E q) = Some (cl_files cl q)"
    and ok: "graph_ok cl E" "depths_ok fd" and inv: "single_inv cl M s0"
    and alg: "gather_algebra (gatherFunc (cl_app cl)) okv" "extra_free (cl_app cl)"
    and upd: "\<forall>j<k. updates_ok cl E okv (current_buffer j (buffers_after cl E M j))"
  shows "\<exists>s. single_gas_run cl fd (total_p_num cl) s0 k s"
  using upd
proof (induction k)
  case 0
  then show ?case using single_start by blast
next
  case (Suc k)
  then obtain s where s: "single_gas_run cl fd (total_p_num cl) s0 k s" by auto
  have u: "updates_ok cl E okv (current_buffer k (buffers_after cl E M k))" using Suc.prems by simp
  have "single_inv cl (buffers_after cl E M k) s"
    by (rule single_gas_result [OF s files ok inv alg]) (use Suc.prems in simp)
  from gas_partitions_exist [OF files ok alg(1) u alg(2) le0 order_refl this [unfolded single_inv_partitions [of cl _ s E k]]]
  show ?case using single_superstep [OF s] by blast
qed

text \<open>The single FPGA and any cluster compute the same properties.\<close>

lemma single_gas_cluster:
  assumes single: "single_gas_run cl fd (total_p_num cl) s0 k s" and cluster: "clementi_run cl c0 k c net"
    and files: "\<forall>q < total_p_num cl. partition_interval edgeSort splits blockSort batchSort flt (E q) = Some (cl_files cl q)"
    and ok: "graph_ok cl E" "depths_ok fd" "cluster_ok cl E" and inv: "single_inv cl M s0" "cluster_inv cl M c0"
    and alg: "gather_algebra (gatherFunc (cl_app cl)) okv" "extra_free (cl_app cl)"
    and upd: "\<forall>j<k. updates_ok cl E okv (current_buffer j (buffers_after cl E M j))"
    and i: "i < cl_nodes cl" "sp < 4" "sp' < 4"
  shows "gd_prop s sp = propBuffer (c i) sp' \<and> gd_propNew s sp = propBufferNew (c i) sp'"
proof -
  have "cluster_inv cl (buffers_after cl E M k) c"
    using clementi_run_result [OF cluster files ok(3) inv(2) alg upd] by blast
  with single_gas_result [OF single files ok(1,2) inv(1) alg upd] i show ?thesis
    by (simp add: single_inv_def cluster_inv_def)
qed

end

end
