(* ===== verification/Gas_Load.thy ===== *)
theory Gas_Load
  imports Gas_Host Host_Load
begin

text \<open>
  How the host of the single-FPGA design gets its data
  (\<open>host/single_gas/mpi_graph_partition.cpp\<close>, \<open>host/single_gas/mpi_preprocess.cpp\<close>): as a node of
  the cluster does, but all partitions in order instead of a schedule, with an optional
  file that says which partition file each kernel gets.  \<open>None\<close> is an exception or undefined
  behaviour, as in \<open>Host_Load\<close>.
\<close>

section \<open>Counting the partitions\<close>

definition gas_getPartitionNum :: "file_system \<Rightarrow> string \<Rightarrow> nat" where
  "gas_getPartitionNum fs dir =
     (let p_index = fold (\<lambda>p m. fold (\<lambda>sp m. if find_file fs dir p sp then max p m else m) [0..<100] m) [0..<100] 0
      in p_index + 1)"

section \<open>The order file\<close>

text \<open>\<open>while (getline(ss, temp_word, ' '))\<close>: the pieces between spaces, the first one begun with \<open>acc\<close>.\<close>

fun getline_words :: "string \<Rightarrow> string \<Rightarrow> string list" where
  "getline_words acc [] = (if acc = [] then [] else [acc])"
| "getline_words acc (c # s) = (if c = CHR '' '' then acc # getline_words [] s else getline_words (acc @ [c]) s)"

text \<open>\<open>std::stoi\<close> throws when there is no number or it does not fit.\<close>

definition stoi :: "string \<Rightarrow> int option" where
  "stoi w = map_option fst (read_int w)"

text \<open>\<open>info->order[line][i] = stoi(temp_word)\<close>\<close>

fun order_line :: "nat \<Rightarrow> nat \<Rightarrow> string list \<Rightarrow> int list list \<Rightarrow> int list list option" where
  "order_line line i [] order = Some order"
| "order_line line i (temp_word # ws) order =
     (case stoi temp_word of
        None \<Rightarrow> None
      | Some v \<Rightarrow>
          (if line < length order \<and> i < length (order ! line)
           then order_line line (i + 1) ws (order[line := (order ! line)[i := v]]) else None))"

fun order_lines :: "nat \<Rightarrow> string list \<Rightarrow> int list list \<Rightarrow> int list list option" where
  "order_lines line [] order = Some order"
| "order_lines line (temp_line # ls) order =
     (case order_line line 0 (getline_words [] temp_line) order of
        None \<Rightarrow> None
      | Some order' \<Rightarrow> order_lines (line + 1) ls order')"

text \<open>Without the file the entries keep their first value, 0.\<close>

definition load_order :: "file_system \<Rightarrow> string \<Rightarrow> nat \<Rightarrow> int list list option" where
  "load_order fs dir partitionNum =
     (let order = replicate partitionNum (replicate KERNEL_NUM 0)
      in case text_files fs (dir @ ''/order.txt'') of None \<Rightarrow> Some order | Some ls \<Rightarrow> order_lines 0 ls order)"

definition order_idx :: "bool \<Rightarrow> int list list \<Rightarrow> nat \<Rightarrow> nat \<Rightarrow> int" where
  "order_idx USE_SCHEDULER order p sp = (if USE_SCHEDULER then order ! p ! sp else int sp)"

section \<open>\<open>acceleratorDataLoad\<close>\<close>

definition gas_edge_file :: "string \<Rightarrow> nat \<Rightarrow> int \<Rightarrow> string" where
  "gas_edge_file dir p idx = dir @ ''/p_'' @ show_nat p @ ''_sp_'' @ show_int idx @ ''.bin''"

definition gas_edge_num :: "file_system \<Rightarrow> string \<Rightarrow> nat \<Rightarrow> int \<Rightarrow> int option" where
  "gas_edge_num fs dir p idx =
     (let edge_num = fst (read_word (- 1) (open_bin fs (gas_edge_file dir p idx)))
      in if 0 \<le> edge_num \<and> edge_num * 2 < 2 ^ 31 then Some edge_num else None)"

definition gas_edge_nums :: "file_system \<Rightarrow> string \<Rightarrow> bool \<Rightarrow> int list list \<Rightarrow> nat \<Rightarrow> int list option" where
  "gas_edge_nums fs dir USE_SCHEDULER order p =
     those (map (\<lambda>sp. gas_edge_num fs dir p (order_idx USE_SCHEDULER order p sp)) [0..<KERNEL_NUM])"

text \<open>The result has the loaded data and the order, or \<open>- 1\<close> when a file is missing.\<close>

definition gas_acceleratorDataLoad :: "file_system \<Rightarrow> string \<Rightarrow> bool \<Rightarrow> int \<Rightarrow> graphInfo \<Rightarrow>
  (int \<times> graphInfo \<times> int list list) option" where
  "gas_acceleratorDataLoad fs dir USE_SCHEDULER psize info =
     (let num_partition = gas_getPartitionNum fs dir; info = info\<lparr>gi_partitionNum := int num_partition\<rparr>
      in case (bin_files fs (dir @ ''/idxMap.bin''), bin_files fs (dir @ ''/outDeg.bin'')) of
           (Some mapFile, Some degFile) \<Rightarrow>
             (case read_word (- 1) mapFile of (vertex_num, mapFile1) \<Rightarrow>
             (case read_word (- 1) mapFile1 of (num_mapped, mapFile2) \<Rightarrow>
             (case read_word (- 1) degFile of (num_out_deg, degFile1) \<Rightarrow>
             (case (read_array vertex_num mapFile2, read_array num_mapped degFile1) of
                (Some map_array, Some out_deg_array) \<Rightarrow>
                  (case (map_loop out_deg_array 0 map_array (info\<lparr>gi_vertexNum := vertex_num\<rparr>) 0,
                         if USE_SCHEDULER then load_order fs dir num_partition else Some []) of
                     (Some info1, Some order) \<Rightarrow>
                       (if 2 ^ 31 \<le> num_mapped + psize - 1 then None
                        else (case those (map (gas_edge_nums fs dir USE_SCHEDULER order) [0..<num_partition]) of
                                None \<Rightarrow> None
                              | Some ns \<Rightarrow>
                                  Some (0, info1\<lparr>gi_compressedVertexNum := num_mapped,
                                                 gi_alignedCompressedVertexNum := align_up num_mapped psize,
                                                 gi_chunkProp := ns\<rparr>, order)))
                   | _ \<Rightarrow> None)
              | _ \<Rightarrow> None))))
         | _ \<Rightarrow> Some (- 1, info, []))"

section \<open>\<open>acceleratorDataPreprocess\<close>\<close>

definition gas_dataPrepareProperty :: "(int \<Rightarrow> int) \<Rightarrow> graphInfo \<Rightarrow> graphInfo option" where
  "gas_dataPrepareProperty score info =
     (let init_score_int = score (gi_vertexNum info); aligned = nat (gi_alignedCompressedVertexNum info);
          used = min (nat (gi_compressedVertexNum info)) aligned; deg = gi_outDeg info;
          props = map (\<lambda>i. init_score_int sdiv deg ! i) [0..<used] @ replicate (aligned - used) 0
      in if length deg < used \<or> 0 \<in> set (take used deg) then None
         else Some (info\<lparr>gi_chunkOutDegData := take used deg @ replicate (aligned - used) 0,
                        gi_chunkPropData := replicate KERNEL_NUM props,
                        gi_chunkPropDataNew := replicate KERNEL_NUM (replicate aligned 0)\<rparr>))"

definition gas_edge_array :: "file_system \<Rightarrow> string \<Rightarrow> nat \<Rightarrow> int \<Rightarrow> int \<Rightarrow> u32 list option" where
  "gas_edge_array fs dir p idx edgeNum =
     (case read_word (- 1) (open_bin fs (gas_edge_file dir p idx)) of (n1, ws1) \<Rightarrow>
     (case read_word n1 ws1 of (read_size, ws2) \<Rightarrow>
        (if read_size < 0 \<or> edgeNum < read_size \<or> length ws2 < nat (read_size * 2) then None
         else Some (take (nat (read_size * 2)) ws2))))"

definition gas_edge_arrays :: "file_system \<Rightarrow> string \<Rightarrow> bool \<Rightarrow> int list list \<Rightarrow> nat \<Rightarrow> int list \<Rightarrow> u32 list list option" where
  "gas_edge_arrays fs dir USE_SCHEDULER order p ns =
     those (map (\<lambda>sp. gas_edge_array fs dir p (order_idx USE_SCHEDULER order p sp) (ns ! sp)) [0..<KERNEL_NUM])"

definition gas_acceleratorDataPreprocess :: "file_system \<Rightarrow> string \<Rightarrow> bool \<Rightarrow> int list list \<Rightarrow> (int \<Rightarrow> int) \<Rightarrow> graphInfo \<Rightarrow>
  graphInfo option" where
  "gas_acceleratorDataPreprocess fs dir USE_SCHEDULER order score info =
     (case gas_dataPrepareProperty score info of
        None \<Rightarrow> None
      | Some info1 \<Rightarrow>
          (case those (map (\<lambda>p. gas_edge_arrays fs dir USE_SCHEDULER order p (gi_chunkProp info1 ! p)) [0..<nat (gi_partitionNum info1)]) of
             None \<Rightarrow> None
           | Some es \<Rightarrow> Some (info1\<lparr>gi_chunkEdgeData := es\<rparr>)))"

section \<open>The device and the start of \<open>main\<close>\<close>

definition gas_partitionTransfer :: "(nat \<Rightarrow> nat \<Rightarrow> nat \<Rightarrow> u64) \<Rightarrow> graphInfo \<Rightarrow> gas_dev" where
  "gas_partitionTransfer vprop info = \<lparr>gd_prop = (\<lambda>sp. int_mem (gi_chunkPropData info ! sp)),
     gd_propNew = (\<lambda>sp. int_mem (gi_chunkPropDataNew info ! sp)), gd_vprop = vprop\<rparr>"

definition gas_setup :: "file_system \<Rightarrow> string \<Rightarrow> bool \<Rightarrow> int \<Rightarrow> (int \<Rightarrow> int) \<Rightarrow> graphInfo option" where
  "gas_setup fs dir USE_SCHEDULER psize score =
     (case gas_acceleratorDataLoad fs dir USE_SCHEDULER psize graphInfo_init of
        None \<Rightarrow> None
      | Some (r, info, order) \<Rightarrow>
          if r = - 1 then None else gas_acceleratorDataPreprocess fs dir USE_SCHEDULER order score info)"

section \<open>Lemmas about the parts\<close>

lemma gas_edge_file_name: "gas_edge_file dir p (int sp) = edge_file_name dir (int p) sp"
  by (simp add: gas_edge_file_def edge_file_name_def show_int_def)

lemma gas_edge_file_same:
  "gas_edge_num fs dir p (int sp) = edge_num fs dir (int p) sp"
  "gas_edge_array fs dir p (int sp) n = edge_array fs dir (int p) sp n"
  by (simp_all add: gas_edge_num_def edge_num_def gas_edge_array_def edge_array_def gas_edge_file_name Let_def)

lemma gas_edges_without_order:
  "gas_edge_nums fs dir False order p = edge_nums fs dir (int p)"
  "gas_edge_arrays fs dir False order p ns = edge_arrays fs dir (int p) ns"
  by (simp_all add: gas_edge_nums_def edge_nums_def gas_edge_arrays_def edge_arrays_def order_idx_def gas_edge_file_same)

text \<open>With all the files of \<open>P\<close> partitions the host finds \<open>P\<close>, but never more than 100.\<close>

lemma gas_getPartitionNum_result:
  assumes "\<And>p sp. p < 100 \<Longrightarrow> sp < 100 \<Longrightarrow> find_file fs dir p sp \<longleftrightarrow> p < P \<and> sp < K" "0 < P" "0 < K"
  shows "gas_getPartitionNum fs dir = min 100 P"
proof -
  have i: "fold (\<lambda>sp m. if find_file fs dir p sp then max p m else m) [0..<100] m = (if p < P then max p m else m)" if "p < 100" for p m
    unfolding fold_found using assms(1) [OF that] assms(3) by (auto intro!: bexI [of _ 0])
  have "fold (\<lambda>p m. fold (\<lambda>sp m. if find_file fs dir p sp then max p m else m) [0..<100] m) [0..<100] 0 =
      fold (\<lambda>p m. if p < P then max p m else m) [0..<100] 0"
    by (rule fold_cong) (simp_all add: i del: upt_Suc)
  then show ?thesis by (simp add: gas_getPartitionNum_def Let_def fold_last [OF assms(2)] assms(2) del: upt_Suc)
qed

section \<open>The order file is read back\<close>

text \<open>A line of the file: the numbers of the partition files, each followed by a space.\<close>

definition order_text :: "int list \<Rightarrow> string" where
  "order_text vs = concat (map (\<lambda>v. show_int v @ '' '') vs)"

lemma show_int_no_space: "CHR '' '' \<notin> set (show_int v)"
proof -
  have "\<not> is_digit (CHR '' '')" by (simp add: is_digit_def)
  then have "CHR '' '' \<notin> set (show_nat n)" for n using show_nat_digits [of n] by blast
  then show ?thesis by (simp add: show_int_def)
qed

lemma getline_words_piece: "CHR '' '' \<notin> set w \<Longrightarrow> getline_words acc (w @ CHR '' '' # s) = (acc @ w) # getline_words [] s"
  by (induction w arbitrary: acc) auto

lemma getline_words_order: "getline_words [] (order_text vs) = map show_int vs"
proof (induction vs)
  case (Cons v vs)
  have "order_text (v # vs) = show_int v @ CHR '' '' # order_text vs" by (simp add: order_text_def)
  then show ?case using Cons by (simp add: getline_words_piece [OF show_int_no_space])
qed (simp add: order_text_def)

lemma stoi_show: "is_int32 v \<Longrightarrow> stoi (show_int v) = Some v"
  using read_int_show [of v "[]" "[]"] by (simp add: stoi_def is_int32_def)

lemma order_line_row:
  assumes "line < length order" "length (order ! line) = i + length vs" "\<forall>v \<in> set vs. is_int32 v"
  shows "order_line line i (map show_int vs) order = Some (order[line := take i (order ! line) @ vs])"
  using assms
proof (induction vs arbitrary: i order)
  case Nil
  then show ?case by simp
next
  case (Cons v vs)
  let ?o = "order[line := (order ! line)[i := v]]"
  have "order_line line (Suc i) (map show_int vs) ?o = Some (?o[line := take (Suc i) (?o ! line) @ vs])"
    by (rule Cons.IH) (use Cons.prems in simp_all)
  moreover have "take (Suc i) ((order ! line)[i := v]) = take i (order ! line) @ [v]"
    using Cons.prems(2) by (simp add: take_Suc_conv_app_nth)
  ultimately show ?case using Cons.prems by (simp add: stoi_show)
qed

lemma order_lines_rows:
  assumes "length order = line + length rows" "\<forall>row \<in> set rows. length row = KERNEL_NUM \<and> (\<forall>v \<in> set row. is_int32 v)"
    and "\<forall>row \<in> set order. length row = KERNEL_NUM"
  shows "order_lines line (map order_text rows) order = Some (take line order @ rows)"
  using assms
proof (induction rows arbitrary: line order)
  case Nil
  then show ?case by simp
next
  case (Cons row rows)
  have l: "line < length order" using Cons.prems(1) by simp
  then have "length (order ! line) = KERNEL_NUM" using Cons.prems(3) by simp
  then have "order_line line 0 (getline_words [] (order_text row)) order = Some (order[line := row])"
    unfolding getline_words_order using order_line_row [OF l, of 0 row] Cons.prems(2) by simp
  moreover have "order_lines (Suc line) (map order_text rows) (order[line := row]) = Some (take (Suc line) (order[line := row]) @ rows)"
    by (rule Cons.IH) (use Cons.prems set_update_subset_insert [of order line row] in auto)
  moreover have "take (Suc line) (order[line := row]) = take line order @ [row]"
    using l by (simp add: take_Suc_conv_app_nth)
  ultimately show ?case by simp
qed

lemma load_order_rows:
  assumes "text_files fs (dir @ ''/order.txt'') = Some (map order_text rows)" "length rows = n"
    and "\<forall>row \<in> set rows. length row = KERNEL_NUM \<and> (\<forall>v \<in> set row. is_int32 v)"
  shows "load_order fs dir n = Some rows"
  using order_lines_rows [of "replicate n (replicate KERNEL_NUM 0)" 0 rows] assms
  by (simp add: load_order_def)

section \<open>What the host loads\<close>

definition gas_loaded :: "cluster \<Rightarrow> dataset \<Rightarrow> graphInfo \<Rightarrow> bool" where
  "gas_loaded cl da info \<longleftrightarrow>
     gi_partitionNum info = int (total_p_num cl) \<and> gi_alignedCompressedVertexNum info = int (cl_aligned cl) \<and>
     gi_vertexMapping info = filter (\<lambda>m. 0 \<le> m) (da_map da) \<and> gi_outDeg info = da_deg da \<and>
     cl_outDeg cl = Some (int_mem (gi_chunkOutDegData info)) \<and>
     (\<forall>p < total_p_num cl. \<forall>sp<4.
        gi_chunkProp info ! p ! sp = edgeNumChunk (file_words (cl_files cl p ! sp)) \<and>
        gi_chunkEdgeData info ! p ! sp = chunkEdgeData (file_words (cl_files cl p ! sp)))"

context partitioner
begin

lemma gas_setup_result:
  assumes g: "graph_files_ok fs dir cl da" and ok: "graph_ok cl E" and P: "gas_getPartitionNum fs dir = total_p_num cl"
    and files: "\<forall>k < total_p_num cl. partition_interval edgeSort splits blockSort batchSort flt (E k) = Some (cl_files cl k)"
  shows "\<exists>info. gas_setup fs dir False (int (cl_psize cl)) score = Some info \<and> gas_loaded cl da info \<and>
    (\<forall>sp<4. gd_prop (gas_partitionTransfer vprop info) sp = fst (start_buffers score cl da) \<and>
            gd_propNew (gas_partitionTransfer vprop info) sp = snd (start_buffers score cl da))"
proof -
  let ?n = "length (da_deg da)" and ?v = "da_vertexNum da" and ?P = "total_p_num cl"
  let ?ns = "map (\<lambda>k. map (\<lambda>sp. edgeNumChunk (file_words (cl_files cl k ! sp))) [0..<KERNEL_NUM]) [0..<?P]"
  let ?es = "map (\<lambda>k. map (\<lambda>sp. chunkEdgeData (file_words (cl_files cl k ! sp))) [0..<KERNEL_NUM]) [0..<?P]"
  have ps: "0 < cl_psize cl" using graph_sizes(1,2) [OF ok] by simp
  have da: "bin_files fs (dir @ ''/idxMap.bin'') = Some (int_words (int ?v # int ?n # da_map da))"
      "bin_files fs (dir @ ''/outDeg.bin'') = Some (int_words (int ?n # da_deg da))"
      "int (cl_aligned cl) = align_up (int ?n) (int (cl_psize cl))" "cl_outDeg cl = Some (int_mem (padded_degrees cl da))"
    using g by (simp_all add: graph_files_ok_def)
  note rd = dataset_reads [OF g ps]
  have es: "\<forall>e \<in> set (E k). 0 \<le> snd e" "length (E k) + 32 < 2 ^ 27" if "k < ?P" for k
    using ok that by (auto simp: graph_ok_def)
  have e: "those (map (gas_edge_nums fs dir False order) [0..<?P]) = Some ?ns" for order
    unfolding those_map using dataset_partition(1) [OF g _ es files] by (simp add: gas_edges_without_order)
  let ?i = "graphInfo_init\<lparr>gi_partitionNum := int ?P, gi_vertexNum := int ?v\<rparr>"
  obtain z where z: "map_loop (da_deg da) 0 (da_map da) ?i 0 =
      Some (?i\<lparr>gi_outDegZeroIndex := z, gi_outDeg := da_deg da, gi_vertexMapping := filter (\<lambda>m. 0 \<le> m) (da_map da)\<rparr>)"
    using rd(5) [of ?i] by (auto simp: graphInfo_init_def)
  let ?i1 = "?i\<lparr>gi_outDegZeroIndex := z, gi_outDeg := da_deg da, gi_vertexMapping := filter (\<lambda>m. 0 \<le> m) (da_map da),
      gi_compressedVertexNum := int ?n, gi_alignedCompressedVertexNum := int (cl_aligned cl), gi_chunkProp := ?ns\<rparr>"
  have l: "gas_acceleratorDataLoad fs dir False (int (cl_psize cl)) graphInfo_init = Some (0, ?i1, [])"
    using e rd(6) z by (simp add: gas_acceleratorDataLoad_def Let_def P da(1-3) rd(1-4))
  have u: "min ?n (cl_aligned cl) = ?n" using dataset_aligned [OF g ps] by simp
  have "0 \<notin> set (da_deg da)" using g by (auto simp: graph_files_ok_def)
  moreover have "map (\<lambda>j. score (int ?v) sdiv da_deg da ! j) [0..<?n] = map (\<lambda>d. score (int ?v) sdiv d) (da_deg da)"
    by (rule nth_equalityI) simp_all
  ultimately have prep: "gas_dataPrepareProperty score ?i1 = Some (?i1\<lparr>gi_chunkOutDegData := padded_degrees cl da,
      gi_chunkPropData := replicate KERNEL_NUM (first_props score cl da),
      gi_chunkPropDataNew := replicate KERNEL_NUM (replicate (cl_aligned cl) 0)\<rparr>)"
    by (simp add: gas_dataPrepareProperty_def Let_def u padded_degrees_def first_props_def)
  have "those (map (\<lambda>p. gas_edge_arrays fs dir False [] p (?ns ! p)) [0..<?P]) = Some ?es"
    unfolding those_map using dataset_partition(2) [OF g _ es files] by (simp add: gas_edges_without_order)
  then have "gas_setup fs dir False (int (cl_psize cl)) score = Some (?i1\<lparr>gi_chunkOutDegData := padded_degrees cl da,
      gi_chunkPropData := replicate KERNEL_NUM (first_props score cl da),
      gi_chunkPropDataNew := replicate KERNEL_NUM (replicate (cl_aligned cl) 0), gi_chunkEdgeData := ?es\<rparr>)"
    by (simp add: gas_setup_def l gas_acceleratorDataPreprocess_def prep)
  then show ?thesis
    using da(4) by (simp add: gas_loaded_def gas_partitionTransfer_def start_buffers_def KERNEL_NUM_def)
qed

text \<open>From the files to the buffers: the host program of the single-FPGA design.\<close>

lemma single_gas_program:
  assumes g: "graph_files_ok fs dir cl da" and ok: "graph_ok cl E" "depths_ok fd" and P: "gas_getPartitionNum fs dir = total_p_num cl"
    and files: "\<forall>k < total_p_num cl. partition_interval edgeSort splits blockSort batchSort flt (E k) = Some (cl_files cl k)"
    and su: "gas_setup fs dir False (int (cl_psize cl)) score = Some info"
    and zero: "\<forall>sp<4. \<forall>i<16. \<forall>t < cl_psize cl div 32. vprop sp i t = 0"
    and alg: "gather_algebra (gatherFunc (cl_app cl)) okv" "extra_free (cl_app cl)"
    and upd: "\<forall>j<k. updates_ok cl E okv (current_buffer j (buffers_after cl E (start_buffers score cl da) j))"
    and run: "single_gas_run cl fd (nat (gi_partitionNum info)) (gas_partitionTransfer vprop info) k s" and sp: "sp < 4"
  shows "gd_prop s sp = fst (buffers_after cl E (start_buffers score cl da) k) \<and>
    gd_propNew s sp = snd (buffers_after cl E (start_buffers score cl da) k)"
proof -
  obtain info' where i: "gas_setup fs dir False (int (cl_psize cl)) score = Some info'" "gas_loaded cl da info'"
    "\<forall>sp<4. gd_prop (gas_partitionTransfer vprop info') sp = fst (start_buffers score cl da) \<and>
       gd_propNew (gas_partitionTransfer vprop info') sp = snd (start_buffers score cl da)"
    using gas_setup_result [OF g ok(1) P files] by blast
  with su have e: "info' = info" by simp
  have inv: "single_inv cl (start_buffers score cl da) (gas_partitionTransfer vprop info)"
    using i(3) zero unfolding e by (simp add: single_inv_def gas_partitionTransfer_def)
  have "nat (gi_partitionNum info) = total_p_num cl" using i(2) e by (simp add: gas_loaded_def)
  with run have "single_gas_run cl fd (total_p_num cl) (gas_partitionTransfer vprop info) k s" by simp
  from single_gas_result [OF this files ok inv alg upd] sp show ?thesis by (simp add: single_inv_def)
qed

text \<open>
  When the host counts fewer partitions than there are, the vertices of the others keep what
  was in the buffers before the super step.
\<close>

lemma single_gas_misses:
  assumes files: "\<forall>q < total_p_num cl. partition_interval edgeSort splits blockSort batchSort flt (E q) = Some (cl_files cl q)"
    and ok: "graph_ok cl E" "depths_ok fd" and inv: "single_inv cl M s0"
    and alg: "gather_algebra (gatherFunc (cl_app cl)) okv" "extra_free (cl_app cl)" "updates_ok cl E okv (fst M)"
    and P: "P < total_p_num cl" and run: "single_gas_run cl fd P s0 1 s" and sp: "sp < 4"
  shows "gd_propNew s sp t = (if t < P * cl_words cl then graph_word cl E (fst M) t else snd M t)"
proof -
  from run have "single_gas_run cl fd P s0 (Suc 0) s" by simp
  then obtain s1 where "single_gas_run cl fd P s0 0 s1" and p: "gas_partitions cl fd 0 [0..<P] s1 s" by (rule single_SucE)
  then have s1: "s1 = s0" by (auto elim: single_zeroE)
  have i: "partitions_inv cl E 0 (fst M) (snd M) 0 s0"
    using inv single_inv_partitions [of cl M s0 E 0] by (simp add: current_buffer_def)
  have "partitions_inv cl E 0 (fst M) (snd M) P s"
    using gas_partitions_inv [OF files ok alg(1,3,2) le0 _ i p [unfolded s1]] P by simp
  with sp show ?thesis by (simp add: partitions_inv_def gas_writeBuf_def)
qed

end

end
