(* ===== verification/Gas_Program.thy ===== *)
theory Gas_Program
  imports Gas_Load Whole_Graph
begin

text \<open>
  The single-FPGA design from the edge list to the property buffers, against the
  vertex-centred specification of \<open>Whole_Graph\<close>.
\<close>

context partitioner
begin

lemma single_program_result:
  assumes part: "partition_main edgeSort splits blockSort batchSort flt es = Some fss" "in_range es"
    and cl: "cl_psize cl = nat TARGET_RANGE" "total_p_num cl = length fss" "\<forall>k < length fss. cl_files cl k = fss ! k"
      "graph_ok cl (interval_edges (cl_psize cl) es)" "graph_files_ok fs dir cl da"
    and P: "gas_getPartitionNum fs dir = length fss" and fd: "depths_ok fd"
    and src: "\<forall>e \<in> set es. 0 \<le> fst e \<and> fst e < int (cl_aligned cl)"
    and set_up: "gas_setup fs dir False (int (cl_psize cl)) score = Some info"
    and vprop: "\<forall>j<4. \<forall>k<16. \<forall>t < cl_psize cl div 32. vprop j k t = 0"
    and alg: "gather_algebra (gatherFunc (cl_app cl)) okv" "extra_free (cl_app cl)"
    and upd: "\<forall>j<k. \<forall>v. \<forall>x \<in> set (vertex_inputs (cl_app cl) es
        ((vertex_step (cl_app cl) es (degree_of cl) ^^ j) (prop_of (int_mem (first_props score cl da)))) v). okv x"
    and run: "single_gas_run cl fd (nat (gi_partitionNum info)) (gas_partitionTransfer vprop info) k s"
    and sp: "sp < 4" "v < cl_aligned cl"
  shows "prop_of (gas_reBuf k s sp) v =
    (vertex_step (cl_app cl) es (degree_of cl) ^^ k) (prop_of (int_mem (first_props score cl da))) v"
proof -
  let ?E = "interval_edges (cl_psize cl) es" and ?M = "start_buffers score cl da"
  note sz = graph_sizes(1,2) [OF cl(4)]
  have al: "total_p_num cl * cl_psize cl = cl_aligned cl" by (rule aligned_partitions [OF cl(5)]) (use sz in simp)
  note files = partition_main_intervals [OF part cl(1-3)]
  note bv = buffers_after_vertex [OF sz, unfolded al, OF src, of ?M "prop_of (int_mem (first_props score cl da))"]
  have M: "prop_of (fst ?M) u = prop_of (int_mem (first_props score cl da)) u" for u by (simp add: start_buffers_def)
  have u: "\<forall>j<k. updates_ok cl ?E okv (current_buffer j (buffers_after cl ?E ?M j))"
  proof (intro allI impI)
    fix j assume "j < k"
    then show "updates_ok cl ?E okv (current_buffer j (buffers_after cl ?E ?M j))"
      using upd by (intro updates_ok_vertex [OF sz, unfolded al, OF src bv [OF M]]) simp_all
  qed
  have P': "gas_getPartitionNum fs dir = total_p_num cl" using P cl(2) by simp
  from single_gas_program [OF cl(5,4) fd P' files set_up vprop alg u run sp(1)]
  have "gas_reBuf k s sp = current_buffer k (buffers_after cl ?E ?M k)"
    by (simp add: gas_reBuf_def current_buffer_def)
  with bv [OF M sp(2)] show ?thesis by simp
qed

end

end
