(* ===== verification/App_Results.thy ===== *)
theory App_Results
  imports Gas_Program
begin

text \<open>
  What the super steps compute for the applications of \<open>src/bfs/l2.h\<close> and \<open>src/wcc/l2.h\<close>:
  the steps of the vertex-centred specification (\<open>vertex_step\<close>) are breadth-first search, and
  the maximum of the labels at the far ends of walks; then the same for a run of the
  cluster and of the single-FPGA design.
\<close>

section \<open>Walks\<close>

text \<open>A walk of \<open>k\<close> edges from \<open>u\<close> to \<open>v\<close>.\<close>

fun walk :: "vedge list \<Rightarrow> nat \<Rightarrow> nat \<Rightarrow> nat \<Rightarrow> bool" where
  "walk es 0 u v \<longleftrightarrow> u = v"
| "walk es (Suc k) u v \<longleftrightarrow> (\<exists>e \<in> set es. snd e = int v \<and> walk es k u (nat (fst e)))"

lemma finite_walk: "finite {u. walk es k u v}"
proof (induction k arbitrary: v)
  case (Suc k)
  have "{u. walk es (Suc k) u v} = (\<Union>e \<in> {e \<in> set es. snd e = int v}. {u. walk es k u (nat (fst e))})" by auto
  with Suc show ?case by simp
qed simp

text \<open>The number of edges of a shortest walk, when it is not more than \<open>k\<close>.\<close>

definition bfs_level :: "vedge list \<Rightarrow> nat \<Rightarrow> nat \<Rightarrow> nat \<Rightarrow> nat option" where
  "bfs_level es r k v = find (\<lambda>d. walk es d r v) [0..<Suc k]"

lemma find_append: "find P (xs @ ys) = (case find P xs of None \<Rightarrow> find P ys | Some x \<Rightarrow> Some x)"
  by (induction xs) auto

lemma bfs_level_Suc:
  "bfs_level es r (Suc k) v =
     (case bfs_level es r k v of None \<Rightarrow> if walk es (Suc k) r v then Some (Suc k) else None | Some d \<Rightarrow> Some d)"
proof -
  have "[0..<Suc (Suc k)] = [0..<Suc k] @ [Suc k]" by simp
  then show ?thesis unfolding bfs_level_def by (simp only: find_append) (simp split: option.splits)
qed

lemma bfs_level_Some: "bfs_level es r k v = Some d \<longleftrightarrow> d \<le> k \<and> walk es d r v \<and> (\<forall>d' < d. \<not> walk es d' r v)"
  unfolding bfs_level_def find_Some_iff
proof
  assume "\<exists>i < length [0..<Suc k]. walk es ([0..<Suc k] ! i) r v \<and> d = [0..<Suc k] ! i \<and> (\<forall>j<i. \<not> walk es ([0..<Suc k] ! j) r v)"
  then show "d \<le> k \<and> walk es d r v \<and> (\<forall>d' < d. \<not> walk es d' r v)" by (auto simp del: upt_Suc)
next
  assume "d \<le> k \<and> walk es d r v \<and> (\<forall>d' < d. \<not> walk es d' r v)"
  then show "\<exists>i < length [0..<Suc k]. walk es ([0..<Suc k] ! i) r v \<and> d = [0..<Suc k] ! i \<and> (\<forall>j<i. \<not> walk es ([0..<Suc k] ! j) r v)"
    by (intro exI [of _ d]) (simp del: upt_Suc)
qed

lemma bfs_level_None: "bfs_level es r k v = None \<longleftrightarrow> (\<forall>d \<le> k. \<not> walk es d r v)"
  unfolding bfs_level_def find_None_iff by (auto simp: less_Suc_eq_le simp del: upt_Suc)

section \<open>Breadth-first search\<close>

text \<open>
  The property of a vertex after \<open>k\<close> super steps from \<open>r\<close>: its distance, with the active bit
  when it was reached in the last step, or \<open>MAX_PROP\<close> when it was not reached.
\<close>

definition bfs_prop :: "vedge list \<Rightarrow> nat \<Rightarrow> nat \<Rightarrow> nat \<Rightarrow> u32" where
  "bfs_prop es r k v =
     (case bfs_level es r k v of
        None \<Rightarrow> MAX_PROP
      | Some d \<Rightarrow> if d = k then VERTEX_ACTIVE_BIT_MASK + word_of_nat d else word_of_nat d)"

lemma small_bit: "n < 2 ^ 31 \<Longrightarrow> bit (word_of_nat n :: u32) j \<longleftrightarrow> j < 31 \<and> bit n j"
proof -
  assume "n < 2 ^ 31"
  then have "take_bit 31 n = n" by (simp add: take_bit_nat_eq_self)
  then have "bit n j \<longleftrightarrow> j < 31 \<and> bit n j" by (metis bit_take_bit_iff)
  then show ?thesis by (auto simp: bit_simps)
qed

lemma mask_bit: "bit VERTEX_ACTIVE_BIT_MASK j \<longleftrightarrow> j = 31"
proof -
  have e: "VERTEX_ACTIVE_BIT_MASK = push_bit 31 (1 :: u32)" by (simp add: VERTEX_ACTIVE_BIT_MASK_def)
  show ?thesis unfolding e bit_push_bit_iff bit_1_iff by auto
qed

lemma active_or: "n < 2 ^ 31 \<Longrightarrow> VERTEX_ACTIVE_BIT_MASK + word_of_nat n = VERTEX_ACTIVE_BIT_MASK OR word_of_nat n"
  by (rule disjunctive_add) (auto simp: small_bit mask_bit)

lemma active_level:
  assumes "n < 2 ^ 31"
  shows "bfs_is_active (VERTEX_ACTIVE_BIT_MASK + word_of_nat n)" "\<not> bfs_is_active (word_of_nat n)"
    "(VERTEX_ACTIVE_BIT_MASK + word_of_nat n) AND 0x7fffffff = word_of_nat n" "word_of_nat n AND 0x7fffffff = (word_of_nat n :: u32)"
proof -
  have m: "(0x7fffffff :: u32) = mask 31" by (simp add: mask_eq_exp_minus_1)
  show "bfs_is_active (VERTEX_ACTIVE_BIT_MASK + word_of_nat n)"
    unfolding bfs_is_active_def active_or [OF assms] by (rule bit_eqI) (auto simp: bit_simps mask_bit)
  have "\<not> bit (word_of_nat n AND VERTEX_ACTIVE_BIT_MASK) 31" "bit VERTEX_ACTIVE_BIT_MASK 31"
    by (simp_all only: bit_and_iff small_bit [OF assms] mask_bit) simp
  then show "\<not> bfs_is_active (word_of_nat n)" unfolding bfs_is_active_def by metis
  show "(VERTEX_ACTIVE_BIT_MASK + word_of_nat n) AND 0x7fffffff = word_of_nat n" "word_of_nat n AND 0x7fffffff = (word_of_nat n :: u32)"
    unfolding active_or [OF assms] m
    by (rule bit_eqI; auto simp: bit_and_iff bit_or_iff bit_mask_iff small_bit [OF assms] mask_bit)+
qed

text \<open>All active inputs of a super step are equal: the next level.\<close>

lemma bfs_input:
  assumes "k < 2 ^ 31 - 2"
  shows "bfs_is_active (bfs_prop es r k u + 1) \<longleftrightarrow> bfs_level es r k u = Some k"
    "bfs_level es r k u = Some k \<Longrightarrow> bfs_prop es r k u + 1 = VERTEX_ACTIVE_BIT_MASK + word_of_nat (Suc k)"
proof -
  have k: "Suc k < 2 ^ 31" using assms by simp
  show p: "bfs_level es r k u = Some k \<Longrightarrow> bfs_prop es r k u + 1 = VERTEX_ACTIVE_BIT_MASK + word_of_nat (Suc k)"
    by (simp add: bfs_prop_def)
  show "bfs_is_active (bfs_prop es r k u + 1) \<longleftrightarrow> bfs_level es r k u = Some k"
  proof (cases "bfs_level es r k u")
    case None
    have e: "bfs_prop es r k u + 1 = word_of_nat (2 ^ 31 - 1)" using None by (simp add: bfs_prop_def MAX_PROP_def)
    have "\<not> bfs_is_active (word_of_nat (2 ^ 31 - 1))" by (rule active_level(2)) simp
    with None e show ?thesis by (simp only: e) simp
  next
    case (Some d)
    then have d: "d \<le> k" by (simp add: bfs_level_Some)
    show ?thesis
    proof (cases "d = k")
      case True
      have "bfs_prop es r k u + 1 = VERTEX_ACTIVE_BIT_MASK + word_of_nat (Suc k)" by (rule p) (use Some True in simp)
      with active_level(1) [OF k] have "bfs_is_active (bfs_prop es r k u + 1)" by (simp only:)
      then show ?thesis using Some True by simp
    next
      case False
      have e: "bfs_prop es r k u + 1 = word_of_nat (Suc d)" using Some False by (simp add: bfs_prop_def)
      have "\<not> bfs_is_active (word_of_nat (Suc d))" by (rule active_level(2)) (use d k in simp)
      with Some False show ?thesis by (simp only: e) simp
    qed
  qed
qed

lemma gather_replicate:
  assumes "c \<noteq> 0"
  shows "gather_all bfs_gather (replicate n c) = (if n = 0 then 0 else c)"
proof (induction n)
  case (Suc n)
  have "replicate (Suc n) c = replicate n c @ [c]" by (simp add: replicate_append_same)
  with Suc show ?case by (simp add: gather_all_snoc bfs_gather_def)
qed simp

lemma bfs_inputs:
  assumes "k < 2 ^ 31 - 2"
  shows "\<exists>n. vertex_inputs bfs_app es (bfs_prop es r k) v = replicate n (VERTEX_ACTIVE_BIT_MASK + word_of_nat (Suc k)) \<and>
    (0 < n \<longleftrightarrow> (\<exists>e \<in> set es. snd e = int v \<and> bfs_level es r k (nat (fst e)) = Some k))"
proof -
  let ?c = "VERTEX_ACTIVE_BIT_MASK + word_of_nat (Suc k)" and ?p = "\<lambda>e. bfs_prop es r k (nat (fst e)) + 1"
  let ?in = "filter (\<lambda>e. bfs_level es r k (nat (fst e)) = Some k) (filter (\<lambda>e. snd e = int v) es)"
  have "vertex_inputs bfs_app es (bfs_prop es r k) v = map ?p ?in"
    by (simp add: vertex_inputs_def bfs_app_def bfs_preprocess_def filter_map o_def bfs_input(1) [OF assms])
  also have "\<dots> = map (\<lambda>_. ?c) ?in" by (rule map_cong) (auto simp: bfs_input(2) [OF assms])
  also have "\<dots> = replicate (length ?in) ?c" by (rule map_replicate_const)
  finally show ?thesis by (intro exI [of _ "length ?in"]) (auto simp: filter_empty_conv)
qed

lemma level_next:
  assumes "bfs_level es r k v = None"
  shows "walk es (Suc k) r v \<longleftrightarrow> (\<exists>e \<in> set es. snd e = int v \<and> bfs_level es r k (nat (fst e)) = Some k)"
proof
  assume "walk es (Suc k) r v"
  then obtain e where e: "e \<in> set es" "snd e = int v" "walk es k r (nat (fst e))" by auto
  have "\<not> walk es d r (nat (fst e))" if "d < k" for d
  proof
    assume "walk es d r (nat (fst e))"
    with e have "walk es (Suc d) r v" by auto
    moreover have "Suc d \<le> k" using that by simp
    ultimately show False using assms unfolding bfs_level_None by blast
  qed
  with e show "\<exists>e \<in> set es. snd e = int v \<and> bfs_level es r k (nat (fst e)) = Some k" by (auto simp: bfs_level_Some)
qed (auto simp: bfs_level_Some)

lemma bfs_prop_level:
  assumes "bfs_level es r k v = Some d" "k < 2 ^ 31"
  shows "bfs_prop es r k v AND 0x7fffffff = word_of_nat d"
proof -
  have "d < 2 ^ 31" using assms by (simp add: bfs_level_Some)
  from active_level(3,4) [OF this] show ?thesis by (cases "d = k") (simp_all add: bfs_prop_def assms(1))
qed

text \<open>A super step is a round of breadth-first search.\<close>

lemma bfs_step:
  assumes "k < 2 ^ 31 - 2"
  shows "vertex_step bfs_app es deg (bfs_prop es r k) v = bfs_prop es r (Suc k) v"
proof -
  define c where "c = VERTEX_ACTIVE_BIT_MASK + word_of_nat (Suc k)"
  have k: "Suc k < 2 ^ 31" using assms by simp
  have act: "bfs_is_active c" unfolding c_def by (rule active_level(1) [OF k])
  then have c0: "c \<noteq> 0" by (auto simp: bfs_is_active_def VERTEX_ACTIVE_BIT_MASK_def)
  obtain n where n: "vertex_inputs bfs_app es (bfs_prop es r k) v = replicate n c"
    "0 < n \<longleftrightarrow> (\<exists>e \<in> set es. snd e = int v \<and> bfs_level es r k (nat (fst e)) = Some k)"
    using bfs_inputs [OF assms] unfolding c_def by blast
  have z: "\<not> bfs_is_active 0" by (simp add: bfs_is_active_def VERTEX_ACTIVE_BIT_MASK_def)
  have s: "vertex_step bfs_app es deg (bfs_prop es r k) v =
      (if 0 < n \<and> bfs_prop es r k v = MAX_PROP then c else bfs_prop es r k v AND 0x7fffffff)"
    unfolding vertex_step_def n(1)
    using act z by (simp add: bfs_app_def gather_replicate [OF c0] bfs_apply_def Let_def bfs_is_active_def)
  have small: "d < 2 ^ 31" if "d \<le> k" for d using that k by simp
  have max: "bfs_prop es r k v = MAX_PROP \<longleftrightarrow> bfs_level es r k v = None"
  proof
    assume m: "bfs_prop es r k v = MAX_PROP"
    show "bfs_level es r k v = None"
    proof (rule ccontr)
      assume "bfs_level es r k v \<noteq> None"
      then obtain d where d: "bfs_level es r k v = Some d" by blast
      then have dk: "d \<le> k" by (simp add: bfs_level_Some)
      have "bfs_prop es r k v AND 0x7fffffff = word_of_nat d" by (rule bfs_prop_level [OF d]) (use k in simp)
      moreover have "MAX_PROP AND 0x7fffffff = (word_of_nat (2 ^ 31 - 2) :: u32)" by (simp add: MAX_PROP_def)
      ultimately have "(word_of_nat d :: u32) = word_of_nat (2 ^ 31 - 2)" using m by simp
      then have "unat (word_of_nat d :: u32) = unat (word_of_nat (2 ^ 31 - 2) :: u32)" by simp
      then have "d = 2 ^ 31 - 2" using small [OF dk] by (simp add: unat_of_nat_small)
      with dk assms show False by simp
    qed
  qed (simp add: bfs_prop_def)
  show ?thesis
  proof (cases "bfs_level es r k v")
    case None
    note nx = level_next [OF None]
    show ?thesis
    proof (cases "0 < n")
      case True
      then have "walk es (Suc k) r v" using nx n(2) by simp
      then show ?thesis using True None max by (simp add: s bfs_prop_def bfs_level_Suc c_def del: walk.simps)
    next
      case False
      then have "\<not> walk es (Suc k) r v" using nx n(2) by simp
      then show ?thesis using False None max by (simp add: s bfs_prop_def bfs_level_Suc del: walk.simps) (simp add: MAX_PROP_def)
    qed
  next
    case (Some d)
    then have dk: "d \<le> k" by (simp add: bfs_level_Some)
    have "bfs_prop es r k v AND 0x7fffffff = word_of_nat d" by (rule bfs_prop_level [OF Some]) (use k in simp)
    moreover have "bfs_prop es r k v \<noteq> MAX_PROP" using max Some by simp
    moreover have "bfs_prop es r (Suc k) v = word_of_nat d" using Some dk by (simp add: bfs_prop_def bfs_level_Suc)
    ultimately show ?thesis by (simp add: s)
  qed
qed

lemma bfs_steps:
  assumes "k < 2 ^ 31 - 1"
  shows "(vertex_step bfs_app es deg ^^ k) (bfs_prop es r 0) = bfs_prop es r k"
  using assms
proof (induction k)
  case (Suc k)
  then show ?case by (simp add: bfs_step ext)
qed simp

section \<open>Weakly connected components\<close>

lemma max_of_maxima:
  fixes F :: "'a \<Rightarrow> int set"
  assumes "finite A" "\<And>w. finite (F w)"
  shows "Max (insert 0 ((\<lambda>w. Max (insert 0 (F w))) ` A)) = Max (insert 0 (\<Union>w \<in> A. F w))"
proof (rule antisym)
  have fin: "finite (insert 0 (\<Union>w \<in> A. F w))" "finite (insert 0 ((\<lambda>w. Max (insert 0 (F w))) ` A))" using assms by simp_all
  have "Max (insert 0 (F w)) \<le> Max (insert 0 (\<Union>w \<in> A. F w))" if "w \<in> A" for w
    by (rule Max_mono) (use that fin in auto)
  then show "Max (insert 0 ((\<lambda>w. Max (insert 0 (F w))) ` A)) \<le> Max (insert 0 (\<Union>w \<in> A. F w))"
    using fin by (subst Max_le_iff) auto
  have "x \<le> Max (insert 0 ((\<lambda>w. Max (insert 0 (F w))) ` A))" if "w \<in> A" "x \<in> F w" for w x
  proof -
    have "x \<le> Max (insert 0 (F w))" using that assms(2) by simp
    also have "\<dots> \<le> Max (insert 0 ((\<lambda>w. Max (insert 0 (F w))) ` A))" using that fin(2) by (intro Max_ge) auto
    finally show ?thesis .
  qed
  then show "Max (insert 0 (\<Union>w \<in> A. F w)) \<le> Max (insert 0 ((\<lambda>w. Max (insert 0 (F w))) ` A))"
    using fin by (subst Max_le_iff) (auto intro: Max_ge)
qed

text \<open>
  \<open>applyFunc\<close> takes the gathered labels and forgets the label of the vertex itself, so a
  super step moves the labels along the edges, and does not keep the largest one seen.
\<close>

lemma wcc_steps:
  assumes "\<forall>u. wcc_ok (p u)"
  shows "wcc_ok ((vertex_step wcc_app es deg ^^ k) p v) \<and>
    sint ((vertex_step wcc_app es deg ^^ k) p v) = Max (insert 0 ((\<lambda>u. sint (p u)) ` {u. walk es k u v}))"
proof (induction k arbitrary: v)
  case 0
  then show ?case using assms by (simp add: wcc_ok_def)
next
  case (Suc k)
  let ?q = "(vertex_step wcc_app es deg ^^ k) p" and ?W = "\<lambda>k v. (\<lambda>u. sint (p u)) ` {u. walk es k u v}"
  let ?in = "map (\<lambda>e. ?q (nat (fst e))) (filter (\<lambda>e. snd e = int v) es)"
  have st: "(vertex_step wcc_app es deg ^^ Suc k) p v = gather_all wcc_gather ?in"
    by (simp add: vertex_step_def vertex_inputs_def wcc_app_def wcc_apply_def)
  have ok: "\<forall>u \<in> set ?in. wcc_ok u" using Suc by auto
  have fin: "finite (?W k w)" for w by (simp add: finite_walk)
  have "sint (gather_all wcc_gather ?in) = Max (insert 0 (sint ` set ?in))" by (rule wcc_gather_all [OF ok])
  also have "sint ` set ?in = (\<lambda>w. Max (insert 0 (?W k w))) ` (\<lambda>e. nat (fst e)) ` {e \<in> set es. snd e = int v}"
  proof -
    have "set ?in = ?q ` (\<lambda>e. nat (fst e)) ` {e \<in> set es. snd e = int v}" by auto
    then show ?thesis using Suc by (simp add: image_image)
  qed
  also have "Max (insert 0 \<dots>) = Max (insert 0 (\<Union>w \<in> (\<lambda>e. nat (fst e)) ` {e \<in> set es. snd e = int v}. ?W k w))"
  proof (rule max_of_maxima)
    show "finite ((\<lambda>e. nat (fst e)) ` {e \<in> set es. snd e = int v})" by simp
    show "finite (?W k w)" for w by (rule fin)
  qed
  also have "(\<Union>w \<in> (\<lambda>e. nat (fst e)) ` {e \<in> set es. snd e = int v}. ?W k w) = ?W (Suc k) v" by auto
  finally have "sint (gather_all wcc_gather ?in) = Max (insert 0 (?W (Suc k) v))" .
  with st ok show ?case by (simp add: wcc_alg.ok_gather_all del: walk.simps funpow.simps)
qed

text \<open>On two vertices that point at each other the labels change places for ever.\<close>

lemma two_cycle: "walk [(0, 1), (1, 0)] k u v \<longleftrightarrow> u < 2 \<and> v < 2 \<and> (u + k + v) mod 2 = 0 \<or> k = 0 \<and> u = v"
proof (induction k arbitrary: v)
  case 0
  have "u = v" if "u < 2" "v < 2" "(u + v) mod 2 = 0" using that by (auto simp: less_2_cases_iff)
  then show ?case by auto
next
  case (Suc k)
  have "walk [(0, 1), (1, 0)] (Suc k) u v \<longleftrightarrow> v = 1 \<and> walk [(0, 1), (1, 0)] k u 0 \<or> v = 0 \<and> walk [(0, 1), (1, 0)] k u 1" by auto
  also have "\<dots> \<longleftrightarrow> u < 2 \<and> v < 2 \<and> (u + Suc k + v) mod 2 = 0"
  proof -
    consider "v = 0" | "v = 1" | "2 \<le> v" by linarith
    then show ?thesis by cases (use Suc [of 0] Suc [of 1] in \<open>simp_all\<close>, presburger+)
  qed
  finally show ?case by simp
qed

lemma wcc_two_cycle:
  assumes "\<forall>u. wcc_ok (p u)" "v < 2"
  shows "sint ((vertex_step wcc_app [(0, 1), (1, 0)] deg ^^ k) p v) = sint (p ((v + k) mod 2))"
proof -
  have "{u. walk [(0, 1), (1, 0)] k u v} = {(v + k) mod 2}"
    unfolding two_cycle using assms(2) by (cases "k = 0"; auto; presburger)
  moreover have "0 \<le> sint (p ((v + k) mod 2))" using assms(1) by (simp add: wcc_ok_def)
  ultimately show ?thesis using wcc_steps [OF assms(1), where es = "[(0, 1), (1, 0)]" and deg = deg and k = k and v = v] by simp
qed

section \<open>On the cluster\<close>

lemma bfs_free: "extra_free bfs_app"
  by (simp add: extra_free_def bfs_app_def bfs_apply_def Let_def)

lemma wcc_free: "extra_free wcc_app"
  by (simp add: extra_free_def wcc_app_def wcc_apply_def)

lemma active_ok: "bfs_is_active x \<Longrightarrow> bfs_ok x"
proof -
  assume "bfs_is_active x"
  then have "x AND VERTEX_ACTIVE_BIT_MASK = VERTEX_ACTIVE_BIT_MASK" by (simp add: bfs_is_active_def)
  then have "bit (x AND VERTEX_ACTIVE_BIT_MASK) 31" by (simp only: mask_bit)
  then show "bfs_ok x" by (simp add: bfs_ok_def bit_and_iff)
qed

lemma bfs_inputs_ok: "x \<in> set (vertex_inputs bfs_app es p v) \<Longrightarrow> bfs_ok x"
  by (auto simp: vertex_inputs_def bfs_app_def intro: active_ok)

lemma wcc_inputs_ok:
  assumes "\<forall>u. wcc_ok (label u)" "x \<in> set (vertex_inputs wcc_app es ((vertex_step wcc_app es deg ^^ j) label) w)"
  shows "wcc_ok x"
  using assms(2) wcc_steps [OF assms(1)] by (auto simp: vertex_inputs_def wcc_app_def)

lemma bfs_prop_0: "bfs_prop es r 0 v = (if v = r then VERTEX_ACTIVE_BIT_MASK else MAX_PROP)"
  by (simp add: bfs_prop_def bfs_level_def)

context partitioner
begin

lemma cluster_bfs:
  assumes files: "\<forall>k < total_p_num cl. partition_interval edgeSort splits blockSort batchSort flt (interval_edges (cl_psize cl) es k) = Some (cl_files cl k)"
    and ok: "cluster_ok cl (interval_edges (cl_psize cl) es)"
    and src: "\<forall>e \<in> set es. 0 \<le> fst e \<and> fst e < int (total_p_num cl * cl_psize cl)"
    and inv: "cluster_inv cl M c0" and app: "cl_app cl = bfs_app"
    and M: "\<forall>u < total_p_num cl * cl_psize cl. prop_of (fst M) u = (if u = r then VERTEX_ACTIVE_BIT_MASK else MAX_PROP)"
    and k: "k < 2 ^ 31 - 1"
    and run: "clementi_run cl c0 k c net" and iv: "i < cl_nodes cl" "sp < 4" "v < total_p_num cl * cl_psize cl"
  shows "prop_of (read_buffer k (c i) sp) v = bfs_prop es r k v"
proof -
  have M0: "prop_of (fst M) u = bfs_prop es r 0 u" if "u < total_p_num cl * cl_psize cl" for u using M that by (simp add: bfs_prop_0)
  have alg: "gather_algebra (gatherFunc (cl_app cl)) bfs_ok" "extra_free (cl_app cl)"
    unfolding app using bfs_alg.gather_algebra_axioms bfs_free by (simp_all add: bfs_app_def)
  have "prop_of (read_buffer k (c i) sp) v = (vertex_step (cl_app cl) es (degree_of cl) ^^ k) (bfs_prop es r 0) v"
    by (rule cluster_vertex_steps [OF files ok src inv M0 alg _ run iv]) (use bfs_inputs_ok app in auto)
  then show ?thesis by (simp add: app bfs_steps [OF k])
qed

lemma cluster_wcc:
  assumes files: "\<forall>k < total_p_num cl. partition_interval edgeSort splits blockSort batchSort flt (interval_edges (cl_psize cl) es k) = Some (cl_files cl k)"
    and ok: "cluster_ok cl (interval_edges (cl_psize cl) es)"
    and src: "\<forall>e \<in> set es. 0 \<le> fst e \<and> fst e < int (total_p_num cl * cl_psize cl)"
    and inv: "cluster_inv cl M c0" and app: "cl_app cl = wcc_app"
    and M: "\<forall>u < total_p_num cl * cl_psize cl. prop_of (fst M) u = label u" and labels: "\<forall>u. wcc_ok (label u)"
    and run: "clementi_run cl c0 k c net" and iv: "i < cl_nodes cl" "sp < 4" "v < total_p_num cl * cl_psize cl"
  shows "sint (prop_of (read_buffer k (c i) sp) v) = Max (insert 0 ((\<lambda>u. sint (label u)) ` {u. walk es k u v}))"
proof -
  have M0: "prop_of (fst M) u = label u" if "u < total_p_num cl * cl_psize cl" for u using M that by simp
  have alg: "gather_algebra (gatherFunc (cl_app cl)) wcc_ok" "extra_free (cl_app cl)"
    unfolding app using wcc_alg.gather_algebra_axioms wcc_free by (simp_all add: wcc_app_def)
  have upd: "\<forall>j<k. \<forall>w. \<forall>x \<in> set (vertex_inputs (cl_app cl) es ((vertex_step (cl_app cl) es (degree_of cl) ^^ j) label) w). wcc_ok x"
    unfolding app using wcc_inputs_ok [OF labels] by blast
  have "prop_of (read_buffer k (c i) sp) v = (vertex_step (cl_app cl) es (degree_of cl) ^^ k) label v"
    by (rule cluster_vertex_steps [OF files ok src inv M0 alg upd run iv])
  then show ?thesis using wcc_steps [OF labels] by (simp add: app)
qed

end

end
