(* ===== verification/Example_Apps.thy ===== *)
theory Example_Apps
  imports App_Results Example_Cluster
begin

text \<open>
  The cluster of Example_Cluster with the kernels of breadth-first search and of WCC: a search
  from vertex 0, and labels that are the numbers of the vertices.
\<close>

definition app_graph :: "vedge list" where
  "app_graph = demo_edges 0 @ demo_edges 1"

definition app_cluster :: "app \<Rightarrow> cluster" where
  "app_cluster a = demo_cluster\<lparr>cl_app := a\<rparr>"

definition start_with :: "mem \<Rightarrow> nat \<Rightarrow> node_dev" where
  "start_with m i = (demo_start i)\<lparr>propBuffer := (\<lambda>_. m)\<rparr>"

definition search_mem :: mem where
  "search_mem = (\<lambda>w. burst_of (\<lambda>j. if 16 * w + j = 0 then VERTEX_ACTIVE_BIT_MASK else MAX_PROP))"

lemma app_cluster_sizes: "total_p_num (app_cluster a) = 2" "cl_psize (app_cluster a) = 1024" "cl_nodes (app_cluster a) = 2"
    "cl_app (app_cluster a) = a" "cl_block (app_cluster a) = cl_block demo_cluster" "cl_files (app_cluster a) = cl_files demo_cluster"
    "cl_words (app_cluster a) = cl_words demo_cluster" "cl_schedule (app_cluster a) = cl_schedule demo_cluster"
  by (simp_all add: app_cluster_def demo_cluster_def total_p_num_def cl_words_def)

lemma app_intervals: "k < 2 \<Longrightarrow> interval_edges 1024 app_graph k = demo_edges k"
proof -
  assume "k < 2"
  then have "k = 0 \<or> k = 1" by auto
  then show ?thesis by (auto simp: interval_edges_def app_graph_def demo_edges_def)
qed

lemma app_files: "\<forall>k < total_p_num (app_cluster a). partition_interval (sort_key fst) (\<lambda>k n. n) (sort_key (\<lambda>b. - int (length b)))
      (sort_key (\<lambda>p. - int (snd p))) (\<lambda>x. x) (interval_edges (cl_psize (app_cluster a)) app_graph k) = Some (cl_files (app_cluster a) k)"
  using demo_files by (simp add: app_cluster_sizes app_intervals)

lemma app_ok: "cluster_ok (app_cluster a) (interval_edges (cl_psize (app_cluster a)) app_graph)"
proof -
  have s: "cl_psize demo_cluster = 1024" "total_p_num demo_cluster = 2" "cl_nodes demo_cluster = 2"
    using app_cluster_sizes(2) [of pr_app] by (simp_all add: app_cluster_def demo_partitions)
  show ?thesis using demo_ok unfolding cluster_ok_def s app_cluster_sizes by (simp add: app_intervals)
qed

lemma app_sources: "\<forall>e \<in> set app_graph. 0 \<le> fst e \<and> fst e < int (total_p_num (app_cluster a) * cl_psize (app_cluster a))"
  by (simp add: app_cluster_sizes app_graph_def demo_edges_def)

lemma app_inv: "cluster_inv (app_cluster a) (m, \<lambda>_. 0) (start_with m)"
  by (simp add: cluster_inv_def start_with_def demo_start_def vprop_zero_def)

text \<open>The label of a vertex is its number.\<close>

definition number_label :: "nat \<Rightarrow> u32" where
  "number_label u = word_of_nat (u mod 2048)"

definition label_mem :: mem where
  "label_mem = (\<lambda>w. burst_of (\<lambda>j. number_label (16 * w + j)))"

lemma search_start: "\<forall>u < n. prop_of (fst (search_mem, \<lambda>_. 0)) u = (if u = 0 then VERTEX_ACTIVE_BIT_MASK else MAX_PROP)"
proof (intro allI impI)
  fix u :: nat
  have "16 * (u div 16) + u mod 16 = u" by simp
  then show "prop_of (fst (search_mem, \<lambda>_. 0)) u = (if u = 0 then VERTEX_ACTIVE_BIT_MASK else MAX_PROP)"
    by (simp only: prop_of_def search_mem_def lane_burst_of mod_less_divisor zero_less_numeral fst_conv)
qed

lemma label_start: "\<forall>u < n. prop_of (fst (label_mem, \<lambda>_. 0)) u = number_label u"
  by (simp add: prop_of_def label_mem_def lane_burst_of)

lemma number_label_ok: "\<forall>u. wcc_ok (number_label u)"
proof
  fix u :: nat
  have n: "u mod 2048 < 2 ^ 31" by (rule less_trans [of _ 2048]) simp_all
  have "\<not> bit (number_label u) 31" by (simp only: number_label_def small_bit [OF n]) simp
  then show "wcc_ok (number_label u)" using bit_last_iff [of "number_label u"] by (simp add: wcc_ok_def)
qed

text \<open>The updates of all super steps are sound, so the runs exist.\<close>

lemma bfs_updates_ok:
  "\<forall>j<k. updates_ok (app_cluster bfs_app) (interval_edges (cl_psize (app_cluster bfs_app)) app_graph) bfs_ok
     (current_buffer j (buffers_after (app_cluster bfs_app) (interval_edges (cl_psize (app_cluster bfs_app)) app_graph) (search_mem, \<lambda>_. 0) j))"
  by (rule vertex_steps_ok [OF app_ok app_sources refl]) (use bfs_inputs_ok in \<open>simp add: app_cluster_sizes(4)\<close>)

lemma wcc_updates_ok:
  "\<forall>j<k. updates_ok (app_cluster wcc_app) (interval_edges (cl_psize (app_cluster wcc_app)) app_graph) wcc_ok
     (current_buffer j (buffers_after (app_cluster wcc_app) (interval_edges (cl_psize (app_cluster wcc_app)) app_graph) (label_mem, \<lambda>_. 0) j))"
  by (rule vertex_steps_ok [OF app_ok app_sources label_start [rule_format]])
    (use wcc_inputs_ok [OF number_label_ok] in \<open>auto simp: app_cluster_sizes(4)\<close>)

lemma app_walk_1: "walk app_graph 1 u 5 \<longleftrightarrow> u \<in> {0, 1, 2}"
  by (auto simp: app_graph_def demo_edges_def)

lemma app_walk_2: "\<not> walk app_graph 2 u 5"
  by (simp add: numeral_2_eq_2) (auto simp: app_graph_def demo_edges_def)

text \<open>Vertex 5 is one step from the root; no walk of two edges ends there.\<close>

lemma app_level: "bfs_prop app_graph 0 2 5 = 1"
proof -
  have "bfs_level app_graph 0 2 5 = Some 1"
    unfolding bfs_level_Some using app_walk_1 [of 0] by simp
  then show ?thesis by (simp add: bfs_prop_def)
qed

end
