(* ===== verification/Example_Gas.thy ===== *)
theory Example_Gas
  imports Gas_Program Example_Program
begin

text \<open>
  The single-FPGA design on the graphs of \<open>Example_Cluster\<close> and \<open>Example_Program\<close>, with
  two beats in every FIFO.
\<close>

definition demo_depths :: gas_depths where
  "demo_depths = \<lparr>gf_ring = (\<lambda>_. 2), gf_in = (\<lambda>_. 2), gf_out = (\<lambda>_. 2)\<rparr>"

definition demo_device :: gas_dev where
  "demo_device = \<lparr>gd_prop = (\<lambda>_ _. burst_of (\<lambda>_. 256)), gd_propNew = (\<lambda>_ _. 0), gd_vprop = (\<lambda>_ _ _. 0)\<rparr>"

lemma demo_depths_ok: "depths_ok demo_depths"
  by (simp add: depths_ok_def demo_depths_def)

lemma demo_graph_ok: "graph_ok demo_cluster demo_edges"
proof -
  have "\<exists>x. 1024 = (2::nat) ^ x \<and> 10 \<le> x \<and> x < 31" by (rule exI [of _ 10]) simp
  moreover have "\<forall>k < total_p_num demo_cluster. length (demo_edges k) + 32 < 2 ^ 27 \<and>
      (\<forall>e \<in> set (demo_edges k). 0 \<le> fst e \<and> fst e < 2 ^ 31 \<and> 0 \<le> snd e \<and> snd e < 2 ^ 31) \<and>
      (\<forall>f \<in> set (cl_files demo_cluster k). cache_safe (cl_block demo_cluster) f)"
    using demo_ok by (simp add: cluster_ok_def)
  ultimately show ?thesis
    unfolding graph_ok_def demo_partitions by (simp add: demo_cluster_def)
qed

lemma demo_device_inv: "single_inv demo_cluster demo_buffers demo_device"
  by (simp add: single_inv_def demo_device_def demo_buffers_def)

lemma demo_single_run: "\<exists>s. single_gas_run demo_cluster demo_depths 2 demo_device k s"
  using std_partitioner.single_gas_exists [OF demo_cluster_files demo_graph_ok demo_depths_ok demo_device_inv demo_app]
    demo_updates by (simp add: demo_partitions)

text \<open>The calls for partition 0.\<close>

definition demo_call :: "call_env \<Rightarrow> gas_call" where
  "demo_call env = gas_calls demo_cluster demo_depths env 0 0 demo_device"

lemma demo_call_ok: "gas_call_ok (demo_call env) 64"
proof -
  have "\<forall>j<4. gas_reBuf 0 demo_device j = fst demo_buffers" "\<forall>sp<4. \<forall>i<16. \<forall>t < cl_psize demo_cluster div 32. gd_vprop demo_device sp i t = 0"
    by (simp_all add: gas_reBuf_def demo_device_def demo_buffers_def)
  from std_partitioner.gas_calls_result(1) [OF demo_cluster_files [rule_format] demo_graph_ok demo_depths_ok _ this(2,1) demo_app(1)
      demo_updates demo_app(2), of 0 env]
  show ?thesis by (simp add: demo_call_def demo_partitions)
qed

section \<open>From files\<close>

lemma demo_program_graph_ok: "graph_ok demo_program (interval_edges (cl_psize demo_program) demo_graph)"
proof -
  have x: "\<exists>x. 1048576 = (2::nat) ^ x \<and> 10 \<le> x \<and> x < 31" by (rule exI [of _ 20]) simp
  show ?thesis
    unfolding graph_ok_def demo_program_sizes(4) using x demo_program_ok unfolding cluster_ok_def demo_program_sizes(4) by blast
qed

lemma demo_found: "find_file demo_fs ''d'' p sp \<longleftrightarrow> p < 2 \<and> sp < 4"
proof -
  have n: "edge_file_name ''d'' (int p) sp \<noteq> ''d/idxMap.bin''" "edge_file_name ''d'' (int p) sp \<noteq> ''d/outDeg.bin''"
    by (simp_all add: edge_file_name_def)
  have "find (\<lambda>(k, sp'). edge_file_name ''d'' (int k) sp' = edge_file_name ''d'' (int p) sp) (List.product [0..<2] [0..<4]) = None"
    if "\<not> (p < 2 \<and> sp < 4)"
    using that by (auto simp: edge_file_name_inject find_None_iff)
  then show ?thesis
    using demo_edge_file [of p sp] n by (cases "p < 2 \<and> sp < 4") (auto simp: find_file_def demo_fs_def)
qed

lemma demo_partition_count: "gas_getPartitionNum demo_fs ''d'' = 2"
  using gas_getPartitionNum_result [of demo_fs "''d''" 2 4] demo_found by simp

definition demo_gas_info :: graphInfo where
  "demo_gas_info = the (gas_setup demo_fs ''d'' False (int (cl_psize demo_program)) (\<lambda>_. 256))"

lemma demo_graph_files: "graph_files_ok demo_fs ''d'' demo_program demo_data"
  using demo_dataset by (simp add: dataset_ok_def)

lemma demo_gas_setup:
  shows "gas_setup demo_fs ''d'' False (int (cl_psize demo_program)) (\<lambda>_. 256) = Some demo_gas_info"
    and "gas_loaded demo_program demo_data demo_gas_info"
    and "\<forall>sp<4. gd_prop (gas_partitionTransfer vprop demo_gas_info) sp = fst (start_buffers (\<lambda>_. 256) demo_program demo_data) \<and>
       gd_propNew (gas_partitionTransfer vprop demo_gas_info) sp = snd (start_buffers (\<lambda>_. 256) demo_program demo_data)"
proof -
  have P: "gas_getPartitionNum demo_fs ''d'' = total_p_num demo_program" by (simp add: demo_partition_count demo_program_sizes)
  from std_partitioner.gas_setup_result [OF demo_graph_files demo_program_graph_ok P demo_program_files, of "\<lambda>_. 256" vprop]
  obtain info where i: "gas_setup demo_fs ''d'' False (int (cl_psize demo_program)) (\<lambda>_. 256) = Some info" "gas_loaded demo_program demo_data info"
    "\<forall>sp<4. gd_prop (gas_partitionTransfer vprop info) sp = fst (start_buffers (\<lambda>_. 256) demo_program demo_data) \<and>
       gd_propNew (gas_partitionTransfer vprop info) sp = snd (start_buffers (\<lambda>_. 256) demo_program demo_data)" by blast
  then have "demo_gas_info = info" by (simp add: demo_gas_info_def)
  with i show "gas_setup demo_fs ''d'' False (int (cl_psize demo_program)) (\<lambda>_. 256) = Some demo_gas_info"
    "gas_loaded demo_program demo_data demo_gas_info"
    "\<forall>sp<4. gd_prop (gas_partitionTransfer vprop demo_gas_info) sp = fst (start_buffers (\<lambda>_. 256) demo_program demo_data) \<and>
       gd_propNew (gas_partitionTransfer vprop demo_gas_info) sp = snd (start_buffers (\<lambda>_. 256) demo_program demo_data)" by simp_all
qed

lemma demo_gas_program_run:
  "\<exists>s. single_gas_run demo_program demo_depths (nat (gi_partitionNum demo_gas_info)) (gas_partitionTransfer (\<lambda>_ _ _. 0) demo_gas_info) k s"
proof -
  have n: "nat (gi_partitionNum demo_gas_info) = total_p_num demo_program" using demo_gas_setup(2) by (simp add: gas_loaded_def)
  have inv: "single_inv demo_program (start_buffers (\<lambda>_. 256) demo_program demo_data) (gas_partitionTransfer (\<lambda>_ _ _. 0) demo_gas_info)"
    using demo_gas_setup(3) by (simp add: single_inv_def) (simp add: gas_partitionTransfer_def)
  show ?thesis
    unfolding n
    by (rule std_partitioner.single_gas_exists [OF demo_program_files demo_program_graph_ok demo_depths_ok inv demo_program_app])
      (simp add: updates_ok_def)
qed

section \<open>More partitions than the host counts\<close>

definition many_cluster :: cluster where
  "many_cluster = demo_cluster\<lparr>cl_aligned := 103424\<rparr>"

definition many_fs :: file_system where
  "many_fs = \<lparr>text_files = (\<lambda>_. None), bin_files = (\<lambda>name.
     case find (\<lambda>(k, sp). edge_file_name ''d'' (int k) sp = name) (List.product [0..<101] [0..<4]) of
       Some (k, sp) \<Rightarrow> Some (file_words (cl_files many_cluster k ! sp)) | None \<Rightarrow> None)\<rparr>"

lemma many_partitions: "total_p_num many_cluster = 101" "cl_words many_cluster = 64" "cl_app many_cluster = cl_app demo_cluster"
  by (simp_all add: many_cluster_def demo_cluster_def total_p_num_def cl_words_def)

lemma many_found: "find_file many_fs ''d'' p sp \<longleftrightarrow> p < 101 \<and> sp < 4"
proof -
  let ?f = "find (\<lambda>(k, sp'). edge_file_name ''d'' (int k) sp' = edge_file_name ''d'' (int p) sp) (List.product [0..<101] [0..<4])"
  have "?f = None \<longleftrightarrow> \<not> (p < 101 \<and> sp < 4)" by (auto simp: edge_file_name_inject find_None_iff)
  then show ?thesis by (auto simp: find_file_def many_fs_def split: option.splits)
qed

lemma many_files: "\<forall>q < total_p_num many_cluster. partition_interval (sort_key fst) (\<lambda>k n. n) (sort_key (\<lambda>b. - int (length b)))
      (sort_key (\<lambda>p. - int (snd p))) (\<lambda>x. x) (demo_edges q) = Some (cl_files many_cluster q)"
  using demo_files by (simp add: many_cluster_def)

lemma many_graph_ok: "graph_ok many_cluster demo_edges"
proof -
  have "\<exists>x. 1024 = (2::nat) ^ x \<and> 10 \<le> x \<and> x < 31" by (rule exI [of _ 10]) simp
  moreover have "\<forall>k < 101. length (demo_edges k) + 32 < 2 ^ 27 \<and>
      (\<forall>e \<in> set (demo_edges k). 0 \<le> fst e \<and> fst e < 2 ^ 31 \<and> 0 \<le> snd e \<and> snd e < 2 ^ 31) \<and>
      (\<forall>f \<in> set (cl_files many_cluster k). cache_safe (cl_block many_cluster) f)"
    by (simp add: many_cluster_def demo_cluster_def demo_edges_def demo_cache_safe)
  ultimately show ?thesis
    unfolding graph_ok_def many_partitions by (simp add: many_cluster_def demo_cluster_def)
qed

lemma many_inv: "single_inv many_cluster demo_buffers demo_device"
  using demo_device_inv by (simp add: single_inv_def many_cluster_def)

lemma many_app: "gather_algebra (gatherFunc (cl_app many_cluster)) (\<lambda>_. True)" "extra_free (cl_app many_cluster)"
  using demo_app by (simp_all add: many_partitions)

lemma many_run: "\<exists>s. single_gas_run many_cluster demo_depths 100 demo_device 1 s"
proof -
  have u: "updates_ok many_cluster demo_edges (\<lambda>_. True) (fst demo_buffers)" by (simp add: updates_ok_def)
  have i: "partitions_inv many_cluster demo_edges 0 (fst demo_buffers) (snd demo_buffers) 0 demo_device"
    using many_inv single_inv_partitions [of many_cluster demo_buffers demo_device demo_edges 0] by (simp add: current_buffer_def)
  have le: "100 \<le> total_p_num many_cluster" by (simp add: many_partitions)
  from std_partitioner.gas_partitions_exist [OF many_files many_graph_ok demo_depths_ok many_app(1) u many_app(2) le0 le i]
  obtain s where "gas_partitions many_cluster demo_depths 0 [0..<100] demo_device s" by blast
  from single_superstep [OF single_start this] show ?thesis by (auto simp: One_nat_def)
qed

end
