(* ===== verification/Raw_Solver.thy ===== *)
theory Raw_Solver
  imports Streams Apps
begin

text \<open>
  The two kernels of \<open>src/header/fpga_raw_solver.h\<close> that combine updates to the same
  vertex before they reach the destination buffer: \<open>processEdgesReorderStreamScheme1\<close>
  combines neighbours, \<open>rawSolver\<close> keeps four updates back.  An \<open>int\<close> compared with an
  \<open>ap_uint<32>\<close> is compared by value: a negative \<open>int\<close> equals no unsigned number.
\<close>

definition same_vertex :: "u32 \<Rightarrow> u32 \<Rightarrow> bool" where
  "same_vertex x dstVidx \<longleftrightarrow> sint x = uint dstVidx"

text \<open>\<open>(dstVidx & (ENDFLAG - 1)) == (ENDFLAG - 1)\<close>: alignment padding or end of the stream.\<close>

definition ends_stream :: "u32 \<Rightarrow> bool" where
  "ends_stream dstVidx \<longleftrightarrow> dstVidx AND (ENDFLAG - 1) = ENDFLAG - 1"

lemma same_vertex_small: "\<not> bit x 31 \<Longrightarrow> same_vertex x d \<longleftrightarrow> x = d"
proof -
  assume n: "\<not> bit x 31"
  have k31: "k < 31" if "bit x k" for k
    using that n bit_imp_le_length [OF that] by (cases "k = 31") auto
  have "sint x = uint x"
    by (intro bit_eqI) (use n in \<open>auto simp: bit_simps min_def dest!: k31\<close>)
  then show ?thesis using word_eq_iff_unsigned [of x d] by (auto simp: same_vertex_def)
qed

section \<open>Combining neighbours\<close>

record reorder_state =
  local_buffer :: "int2 list"
  buffered_size :: nat

definition reorder_init :: reorder_state where
  "reorder_init = \<lparr>local_buffer = replicate 2 \<lparr>ix = 0, iy = 0\<rparr>, buffered_size = 0\<rparr>"

definition reorder_body :: "app \<Rightarrow> reorder_state \<Rightarrow> int2 \<Rightarrow> reorder_state \<times> int2 list \<times> bool" where
  "reorder_body a st tmp_data =
     (let i = buffered_size st mod 2;
          c = local_buffer st ! i;
          r = (if same_vertex (ix c) (ix tmp_data)
               then (st\<lparr>local_buffer := (local_buffer st)[i := c\<lparr>iy := PROP_COMPUTE_STAGE2 a (iy c) (iy tmp_data)\<rparr>]\<rparr>, [])
               else (st\<lparr>local_buffer := (local_buffer st)[1 - i := tmp_data], buffered_size := buffered_size st + 1\<rparr>, [c]))
      in (fst r, snd r, ends_stream (ix tmp_data)))"

text \<open>The loop, the draining of what follows, and the end marker.\<close>

definition processEdgesReorderStreamScheme1 :: "app \<Rightarrow> int2 list \<Rightarrow> int2 list \<times> status" where
  "processEdgesReorderStreamScheme1 a xs =
     (case read_loop (reorder_body a) reorder_init xs of
        (_, os, _, Returned) \<Rightarrow> (os @ [\<lparr>ix = ENDFLAG, iy = ENDFLAG\<rparr>], Returned)
      | (_, os, _, Blocked) \<Rightarrow> (os, Blocked))"

text \<open>The abstract machine has one cell, the update held back.\<close>

fun combine :: "app \<Rightarrow> int2 \<Rightarrow> int2 list \<Rightarrow> int2 list \<times> int2" where
  "combine a c [] = ([], c)"
| "combine a c (x # xs) =
     (if same_vertex (ix c) (ix x) then combine a (c\<lparr>iy := gatherFunc a (iy c) (iy x)\<rparr>) xs
      else (case combine a x xs of (os, c') \<Rightarrow> (c # os, c')))"

definition held :: "reorder_state \<Rightarrow> int2" where
  "held st = local_buffer st ! (buffered_size st mod 2)"

lemma reorder_refines:
  assumes "length (local_buffer st) = 2" "\<forall>x \<in> set xs. \<not> ends_stream (ix x)"
  shows "\<exists>st'. read_loop (reorder_body a) st (xs @ ys) =
      (case read_loop (reorder_body a) st' ys of (st'', os, r, s) \<Rightarrow> (st'', fst (combine a (held st) xs) @ os, r, s)) \<and>
    length (local_buffer st') = 2 \<and> held st' = snd (combine a (held st) xs)"
  using assms
proof (induction xs arbitrary: st)
  case Nil
  then show ?case by (intro exI [of _ st]) (auto split: prod.splits)
next
  case (Cons x xs)
  let ?st = "fst (reorder_body a st x)"
  have i: "buffered_size st mod 2 < 2" by simp
  have m: "(buffered_size st + 1) mod 2 = 1 - buffered_size st mod 2" by presburger
  have l: "length (local_buffer ?st) = 2" using Cons.prems by (simp add: reorder_body_def Let_def)
  have h: "held ?st = (if same_vertex (ix (held st)) (ix x)
      then (held st)\<lparr>iy := gatherFunc a (iy (held st)) (iy x)\<rparr> else x)"
    using Cons.prems i m by (auto simp: reorder_body_def Let_def held_def PROP_COMPUTE_STAGE2_def)
  have o: "fst (snd (reorder_body a st x)) = (if same_vertex (ix (held st)) (ix x) then [] else [held st])"
    "\<not> snd (snd (reorder_body a st x))"
    using Cons.prems by (auto simp: reorder_body_def Let_def held_def)
  from Cons.IH [OF l] Cons.prems obtain st' where IH: "read_loop (reorder_body a) ?st (xs @ ys) =
      (case read_loop (reorder_body a) st' ys of (st'', os, r, s) \<Rightarrow> (st'', fst (combine a (held ?st) xs) @ os, r, s))"
    "length (local_buffer st') = 2" "held st' = snd (combine a (held ?st) xs)" by auto
  show ?case
    using IH h o by (intro exI [of _ st']) (auto split: prod.splits if_splits)
qed

text \<open>The combined stream gathers to the same value at every vertex.\<close>

definition at_vertex :: "u32 \<Rightarrow> int2 list \<Rightarrow> u32 list" where
  "at_vertex v xs = map iy (filter (\<lambda>x. ix x = v) xs)"

lemma combine_gather:
  assumes "gather_algebra (gatherFunc a) ok" "ok z" "ok (iy c)" "\<not> bit (ix c) 31"
    and "\<forall>x \<in> set xs. ok (iy x) \<and> \<not> bit (ix x) 31"
  shows "foldl (gatherFunc a) z (at_vertex v (fst (combine a c xs) @ [snd (combine a c xs)])) =
    foldl (gatherFunc a) z (at_vertex v (c # xs))"
  using assms(2-)
proof (induction xs arbitrary: c z)
  case Nil
  then show ?case by simp
next
  case (Cons x xs)
  note ok_g = gather_algebra.ok_g [OF assms(1)] and g_assoc = gather_algebra.g_assoc [OF assms(1)]
  show ?case
  proof (cases "ix c = ix x")
    case True
    let ?c = "c\<lparr>iy := gatherFunc a (iy c) (iy x)\<rparr>"
    have "foldl (gatherFunc a) z (at_vertex v (fst (combine a ?c xs) @ [snd (combine a ?c xs)])) =
        foldl (gatherFunc a) z (at_vertex v (?c # xs))"
      using Cons.prems by (intro Cons.IH) (auto intro: ok_g)
    also have "\<dots> = foldl (gatherFunc a) z (at_vertex v (c # x # xs))"
      using Cons.prems True g_assoc [of z "iy c" "iy x"] by (simp add: at_vertex_def)
    finally show ?thesis using True Cons.prems by (simp add: same_vertex_small)
  next
    case False
    let ?z = "foldl (gatherFunc a) z (at_vertex v [c])"
    have "ok ?z" using Cons.prems by (auto simp: at_vertex_def intro: ok_g)
    then have "foldl (gatherFunc a) ?z (at_vertex v (fst (combine a x xs) @ [snd (combine a x xs)])) =
        foldl (gatherFunc a) ?z (at_vertex v (x # xs))"
      using Cons.prems by (intro Cons.IH) auto
    with False Cons.prems show ?thesis
      by (auto simp: same_vertex_small at_vertex_def split: prod.splits)
  qed
qed

lemma processEdgesReorder_gather:
  assumes "gather_algebra (gatherFunc a) ok" "\<forall>x \<in> set xs. ok (iy x) \<and> \<not> bit (ix x) 31"
    and "ends_stream (ix e)"
  shows "\<exists>os. processEdgesReorderStreamScheme1 a (xs @ e # rest) = (os @ [\<lparr>ix = ENDFLAG, iy = ENDFLAG\<rparr>], Returned) \<and>
    (\<forall>v. gather_all (gatherFunc a) (at_vertex v os) = gather_all (gatherFunc a) (at_vertex v xs))"
proof -
  note ok_zero = gather_algebra.ok_zero [OF assms(1)] and g_zero = gather_algebra.g_zero [OF assms(1)]
  have e31: "bit (ix e) 31"
  proof -
    have "bit (ix e AND (ENDFLAG - 1)) 31 = bit (ENDFLAG - 1) 31"
      using assms(3) by (simp only: ends_stream_def)
    then show ?thesis by (simp add: ENDFLAG_def bit_simps)
  qed
  have nx: "\<forall>x \<in> set xs. \<not> ends_stream (ix x)"
  proof
    fix x assume "x \<in> set xs"
    with assms(2) have n: "\<not> bit (ix x) 31" by simp
    show "\<not> ends_stream (ix x)"
    proof
      assume "ends_stream (ix x)"
      then have "bit (ix x AND (ENDFLAG - 1)) 31 = bit (ENDFLAG - 1 :: u32) 31"
        by (simp only: ends_stream_def)
      with n show False by (simp add: ENDFLAG_def bit_simps)
    qed
  qed
  let ?c0 = "\<lparr>ix = 0, iy = 0\<rparr> :: int2"
  have h0: "held reorder_init = ?c0" by (simp add: held_def reorder_init_def)
  obtain st' where st': "read_loop (reorder_body a) reorder_init (xs @ e # rest) =
      (case read_loop (reorder_body a) st' (e # rest) of (st'', os, r, s) \<Rightarrow> (st'', fst (combine a ?c0 xs) @ os, r, s))"
    "length (local_buffer st') = 2" "held st' = snd (combine a ?c0 xs)"
    using reorder_refines [of reorder_init xs a "e # rest"] nx h0 by (auto simp: reorder_init_def)
  have c31: "\<not> bit (ix (snd (combine a c xs))) 31" if "\<not> bit (ix c) 31" for c
    using that assms(2)
  proof (induction xs arbitrary: c)
    case (Cons x xs)
    then show ?case by (cases "same_vertex (ix c) (ix x)") (auto split: prod.splits dest: sndI)
  qed simp
  have "\<not> same_vertex (ix (held st')) (ix e)"
    using c31 [of ?c0] e31 st'(3) by (auto simp: same_vertex_small)
  then have "fst (snd (reorder_body a st' e)) = [snd (combine a ?c0 xs)]" "snd (snd (reorder_body a st' e))"
    using st'(3) assms(3) by (auto simp: reorder_body_def Let_def held_def)
  with st'(1) have r: "processEdgesReorderStreamScheme1 a (xs @ e # rest) =
      ((fst (combine a ?c0 xs) @ [snd (combine a ?c0 xs)]) @ [\<lparr>ix = ENDFLAG, iy = ENDFLAG\<rparr>], Returned)"
    by (auto simp: processEdgesReorderStreamScheme1_def split: prod.splits)
  moreover have "gather_all (gatherFunc a) (at_vertex v (fst (combine a ?c0 xs) @ [snd (combine a ?c0 xs)])) =
      gather_all (gatherFunc a) (at_vertex v xs)" for v
  proof -
    have "gather_all (gatherFunc a) (at_vertex v (fst (combine a ?c0 xs) @ [snd (combine a ?c0 xs)])) =
        foldl (gatherFunc a) 0 (at_vertex v (?c0 # xs))"
      unfolding gather_all_def
      by (rule combine_gather [OF assms(1)]) (use assms(2) ok_zero in simp_all)
    also have "\<dots> = gather_all (gatherFunc a) (at_vertex v xs)"
      using g_zero [OF ok_zero] by (simp add: at_vertex_def gather_all_def)
    finally show ?thesis .
  qed
  ultimately show ?thesis by blast
qed

section \<open>The solver with four slots\<close>

definition DST_INTERVEL :: u32 where "DST_INTERVEL = 32"

record solver_state =
  slots :: "int2 list"             \<comment> \<open>\<open>local_buffer[0..3]\<close>\<close>
  vaild_flag :: "bool list"
  lastSendBuffered :: "u32 list"

definition solver_init :: solver_state where
  "solver_init = \<lparr>slots = replicate 4 \<lparr>ix = 0, iy = 0\<rparr>, vaild_flag = replicate 4 False, lastSendBuffered = replicate 4 0\<rparr>"

text \<open>The first index below 4 with a property, 4 when there is none.\<close>

definition first_of :: "(nat \<Rightarrow> bool) \<Rightarrow> nat" where
  "first_of p = (if p 0 then 0 else if p 1 then 1 else if p 2 then 2 else if p 3 then 3 else 4)"

definition distance :: "solver_state \<Rightarrow> nat \<Rightarrow> u32" where
  "distance st i =
     (if vaild_flag st ! i
      then (let s = uint (lastSendBuffered st ! i); x = sint (ix (slots st ! i))
            in if s > x then word_of_int (s - x) else word_of_int (x - s))
      else 0)"

definition rawSolver_body :: "app \<Rightarrow> solver_state \<Rightarrow> int2_token \<Rightarrow> solver_state \<times> int2_token list \<times> bool" where
  "rawSolver_body a st in_token =
     (let tmp_data = it_data in_token; dstVidx = ix tmp_data in
      if ends_stream dstVidx \<or> it_flag in_token then (st, [], True)
      else
        let flag = (\<lambda>i. vaild_flag st ! i \<and> same_vertex (ix (slots st ! i)) dstVidx);
            st1 = st\<lparr>slots := map (\<lambda>i. if flag i then (slots st ! i)\<lparr>iy := PROP_COMPUTE_STAGE2 a (iy (slots st ! i)) (iy tmp_data)\<rparr>
                                       else slots st ! i) [0..<4]\<rparr>
        in if flag 0 \<or> flag 1 \<or> flag 2 \<or> flag 3 then (st1, [], False)
           else
             let free = first_of (\<lambda>i. \<not> vaild_flag st1 ! i);
                 st2 = (if free = 4 then st1
                        else st1\<lparr>slots := (slots st1)[free := tmp_data], vaild_flag := (vaild_flag st1)[free := True]\<rparr>);
                 select_index = first_of (\<lambda>i. distance st2 i \<ge> DST_INTERVEL)
             in if select_index = 4 then (st2, [], False)
                else (st2\<lparr>vaild_flag := (vaild_flag st2)[select_index := False],
                          lastSendBuffered := replicate 4 (ix (slots st2 ! select_index))\<rparr>,
                      [\<lparr>it_data = slots st2 ! select_index, it_flag = False\<rparr>], False))"

text \<open>The slots still in use go out at the end, each after two neutral updates.\<close>

definition rawSolver_flush :: "solver_state \<Rightarrow> int2_token list" where
  "rawSolver_flush st =
     concat (map (\<lambda>i. if vaild_flag st ! i
       then let send = \<lparr>ix = ix (slots st ! i) + DST_INTERVEL, iy = 0\<rparr>
            in [\<lparr>it_data = send, it_flag = False\<rparr>, \<lparr>it_data = send, it_flag = False\<rparr>,
                \<lparr>it_data = slots st ! i, it_flag = False\<rparr>]
       else []) [0..<4])"

definition rawSolver :: "int2 \<Rightarrow> app \<Rightarrow> int2_token list \<Rightarrow> int2_token list \<times> status" where
  "rawSolver uninit a xs =
     (case read_loop (rawSolver_body a) solver_init xs of
        (st, os, _, Returned) \<Rightarrow> (os @ rawSolver_flush st @ [\<lparr>it_data = uninit, it_flag = True\<rparr>], Returned)
      | (_, os, _, Blocked) \<Rightarrow> (os, Blocked))"

lemma all_less_4: "(\<forall>i<4. p i) \<longleftrightarrow> p 0 \<and> p 1 \<and> p 2 \<and> p (3::nat)"
  by (simp add: All_less_Suc2 numeral_eq_Suc)

lemma four_slots:
  "[a, b, c, d][0 := x] = [x, b, c, d]" "[a, b, c, d][1 := x] = [a, x, c, d]"
  "[a, b, c, d][2 := x] = [a, b, x, d]" "[a, b, c, d][3 := x] = [a, b, c, x]"
  "replicate 4 x = [x, x, x, x]"
  by (simp_all add: numeral_eq_Suc)

lemma first_of_none: "\<forall>i<4. \<not> p i \<Longrightarrow> first_of p = 4"
  by (simp add: first_of_def)

lemma slots_unmatched:
  assumes "length (slots st) = 4" "\<forall>i<4. \<not> same_vertex (ix (slots st ! i)) v"
  shows "map (\<lambda>i. if vaild_flag st ! i \<and> same_vertex (ix (slots st ! i)) v then f i else slots st ! i) [0..<4] = slots st"
  by (rule nth_equalityI) (use assms in auto)

text \<open>An update to a new vertex takes the first free slot when nothing is far enough to be sent.\<close>

lemma rawSolver_takes_slot:
  assumes "length (slots st) = 4" "\<forall>i<4. \<not> same_vertex (ix (slots st ! i)) (ix d)" "\<not> ends_stream (ix d)"
    and "first_of (\<lambda>i. \<not> vaild_flag st ! i) = f" "f < 4"
    and "st' = st\<lparr>slots := (slots st)[f := d], vaild_flag := (vaild_flag st)[f := True]\<rparr>"
    and "\<forall>i<4. distance st' i < DST_INTERVEL"
  shows "rawSolver_body a st \<lparr>it_data = d, it_flag = False\<rparr> = (st', [], False)"
proof -
  have "first_of (\<lambda>i. DST_INTERVEL \<le> distance st' i) = 4"
    by (rule first_of_none) (use assms(7) in \<open>simp add: not_le\<close>)
  with assms(2-6) show ?thesis
    by (simp add: rawSolver_body_def Let_def slots_unmatched [OF assms(1,2)])
qed

text \<open>
  With four slots in use that are all within 32 of the vertex sent last, an update to a
  fifth vertex finds no slot and is not sent either: it is lost.
\<close>

lemma rawSolver_full_drops:
  assumes "vaild_flag st = replicate 4 True" "length (slots st) = 4"
    and "\<forall>i<4. distance st i < DST_INTERVEL" "\<forall>i<4. \<not> same_vertex (ix (slots st ! i)) (ix d)"
    and "\<not> ends_stream (ix d)"
  shows "rawSolver_body a st \<lparr>it_data = d, it_flag = False\<rparr> = (st, [], False)"
proof -
  have "first_of (\<lambda>i. \<not> vaild_flag st ! i) = 4"
    by (rule first_of_none) (simp add: assms(1))
  moreover have "first_of (\<lambda>i. DST_INTERVEL \<le> distance st i) = 4"
    by (rule first_of_none) (use assms(3) in \<open>simp add: not_le\<close>)
  ultimately show ?thesis
    using assms(4,5) by (simp add: rawSolver_body_def Let_def slots_unmatched [OF assms(2,4)])
qed

end
