(* ===== verification/Graph_Csr.thy ===== *)
theory Graph_Csr
  imports Text_Numbers "HOL-Library.Product_Lexorder"
begin

text \<open>
  The graph container (\<open>host/xgraph/graph.h\<close>, \<open>host/xgraph/graph.cpp\<close>): the compressed
  sparse row arrays, reading an undirected edge list, the offsets, the parallel copy of the
  adjacency lists, the test that neighbours are sorted, and the metadata.  Vertices and
  positions are natural numbers: a negative vertex of the input is the error
  \<open>Out_Of_Bounds\<close>.  The sixteen words that the program allocates behind the adjacency array
  are never read.
\<close>

datatype graph_error = Cannot_Convert nat | Not_Sorted nat | Out_Of_Bounds | Bad_Element_Size

record graph_flags =
  is_vertex_labeled :: bool
  is_vertex_weighted :: bool
  is_edge_labeled :: bool
  is_edge_weighted :: bool
  is_edge_weight_prefix_summed :: bool
  is_edge_weight_alias_generated :: bool
  is_edge_weight_rejection_generated :: bool
  is_offset_pair :: bool

record graph =
  gr_flags :: graph_flags
  gr_num_vertices :: nat
  gr_num_edges :: nat
  gr_node_with_max_degree :: nat
  gr_max_degree :: nat
  gr_partition_offset :: "nat list"
  gr_offset :: "nat list"
  gr_adj :: "nat list"
  gr_degree :: "nat list"
  gr_vertex_label :: "u32 list"
  gr_vertex_weight :: "u64 list"
  gr_edge_label :: "u32 list"
  gr_edge_weight :: "u64 list"
  gr_edge_weight_prefix_sum :: "u64 list"
  gr_offset_pair :: "(nat \<times> nat) list"
  gr_edge_weight_alias_table :: "128 word list"
  gr_edge_weight_rejection_max :: "u64 list"

definition num_partitions :: "graph \<Rightarrow> nat" where
  "num_partitions g = length (gr_partition_offset g) - 1"

definition new_graph :: "graph_flags \<Rightarrow> graph" where
  "new_graph fl = \<lparr>gr_flags = fl, gr_num_vertices = 0, gr_num_edges = 0, gr_node_with_max_degree = 0, gr_max_degree = 0,
     gr_partition_offset = [], gr_offset = [], gr_adj = [], gr_degree = [], gr_vertex_label = [], gr_vertex_weight = [],
     gr_edge_label = [], gr_edge_weight = [], gr_edge_weight_prefix_sum = [], gr_offset_pair = [],
     gr_edge_weight_alias_table = [], gr_edge_weight_rejection_max = []\<rparr>"

text \<open>\<open>neighbors(u)\<close>: \<open>degree(u)\<close> words from \<open>adj_ + offset_[u]\<close>.\<close>

definition neighbors :: "graph \<Rightarrow> nat \<Rightarrow> nat list" where
  "neighbors g u = take (gr_degree g ! u) (drop (gr_offset g ! u) (gr_adj g))"

definition edges_of :: "graph \<Rightarrow> nat \<Rightarrow> nat \<times> nat" where
  "edges_of g u = (gr_offset g ! u, gr_offset g ! (u + 1))"

section \<open>Reading an edge list\<close>

text \<open>The loop over the lines; the end points of an edge are put in ascending order.\<close>

fun load_lines :: "char \<Rightarrow> nat \<Rightarrow> string list \<Rightarrow> (int \<times> int) list \<Rightarrow> int \<Rightarrow> graph_error + (int \<times> int) list \<times> int" where
  "load_lines skip line_count [] lines max_vertex_id = Inr (lines, max_vertex_id)"
| "load_lines skip line_count (tmp_str # ls) lines max_vertex_id =
     (if tmp_str \<noteq> [] \<and> hd tmp_str = skip then load_lines skip (line_count + 1) ls lines max_vertex_id
      else (case parse_line tmp_str of
              None \<Rightarrow> Inl (Cannot_Convert (line_count + 1))
            | Some (x, y) \<Rightarrow>
                (let src = min x y; dst = max x y
                 in load_lines skip (line_count + 1) ls (lines @ [(src, dst)]) (max (max max_vertex_id src) dst))))"

definition load_edge_list_file :: "char \<Rightarrow> string list \<Rightarrow> graph_error + (int \<times> int) list \<times> int" where
  "load_edge_list_file skip ls = load_lines skip 0 ls [] 0"

section \<open>Building the arrays\<close>

text \<open>
  One edge of the sorted list: equal neighbours in the list and loops are skipped.  The
  state is the previous edge, the degrees, the adjacency lists and the number of edges.
\<close>

definition build_step :: "nat \<times> nat \<Rightarrow> (nat \<times> nat) \<times> nat list \<times> nat list list \<times> nat \<Rightarrow>
  (nat \<times> nat) \<times> nat list \<times> nat list list \<times> nat" where
  "build_step edge st =
     (case st of (prev_edge, degree_arr, adj_arr, num_edges) \<Rightarrow>
        if prev_edge = edge then st
        else (case edge of (src, dst) \<Rightarrow>
          if src = dst then (edge, degree_arr, adj_arr, num_edges)
          else (let degree_arr1 = degree_arr[src := degree_arr ! src + 1];
                    adj_arr1 = adj_arr[src := adj_arr ! src @ [dst]]
                in (edge, degree_arr1[dst := degree_arr1 ! dst + 1], adj_arr1[dst := adj_arr1 ! dst @ [src]], num_edges + 2))))"

text \<open>\<open>offset[0] = 0\<close>, then \<open>offset[i + 1] = offset[i] + degree[i]\<close>.\<close>

definition offset_loop :: "nat list \<Rightarrow> nat list" where
  "offset_loop degree =
     fold (\<lambda>i off. off[i + 1 := off ! i + degree ! i]) [0..<length degree] (replicate (length degree + 1) 0)"

text \<open>
  \<open>std::copy\<close> of list \<open>i\<close> to \<open>adj + offset[i]\<close>, for the \<open>i\<close> in the order in which the threads
  take them.
\<close>

definition copy_at :: "'a list \<Rightarrow> nat \<Rightarrow> 'a list \<Rightarrow> 'a list" where
  "copy_at xs k a = take k a @ xs @ drop (k + length xs) a"

definition copy_loop :: "nat list \<Rightarrow> nat list \<Rightarrow> 'a list list \<Rightarrow> 'a list \<Rightarrow> 'a list" where
  "copy_loop order offs xss a = fold (\<lambda>i a. copy_at (xss ! i) (offs ! i) a) order a"

definition build_csr :: "nat list \<Rightarrow> (nat \<Rightarrow> nat) \<Rightarrow> (int \<times> int) list \<Rightarrow> int \<Rightarrow> graph \<Rightarrow> graph_error + graph" where
  "build_csr order junk edge_list max_vertex_id g =
     (if 2 ^ 31 \<le> max_vertex_id + 1 \<or> (\<exists>e \<in> set edge_list. fst e < 0) then Inl Out_Of_Bounds
      else (let num_vertices = nat (max_vertex_id + 1);
                edges = map (\<lambda>e. (nat (fst e), nat (snd e))) (sort edge_list)
            in case fold build_step edges ((num_vertices, num_vertices), replicate num_vertices 0, replicate num_vertices [], 0) of
                 (_, degree, adj_arr, num_edges) \<Rightarrow>
                   Inr (g\<lparr>gr_num_vertices := num_vertices, gr_num_edges := num_edges, gr_degree := degree,
                          gr_offset := offset_loop degree,
                          gr_adj := copy_loop order (offset_loop degree) adj_arr (map junk [0..<num_edges])\<rparr>)))"

section \<open>Sortedness and metadata\<close>

definition not_sorted_at :: "nat list \<Rightarrow> bool" where
  "not_sorted_at nbr = (\<exists>i \<in> {1..<length nbr}. nbr ! (i - 1) > nbr ! i)"

definition is_sort :: "graph \<Rightarrow> graph_error + unit" where
  "is_sort g =
     (case find (\<lambda>u. not_sorted_at (neighbors g u)) [0..<gr_num_vertices g] of
        Some u \<Rightarrow> Inl (Not_Sorted u) | None \<Rightarrow> Inr ())"

text \<open>\<open>std::max_element\<close>: the first position with the largest element.\<close>

definition first_max :: "nat list \<Rightarrow> nat" where
  "first_max xs = fold (\<lambda>i m. if xs ! m < xs ! i then i else m) [1..<length xs] 0"

definition collect_metadata :: "graph \<Rightarrow> graph_error + graph" where
  "collect_metadata g =
     (if gr_num_vertices g = 0 then Inl Out_Of_Bounds
      else Inr (g\<lparr>gr_max_degree := gr_degree g ! first_max (gr_degree g), gr_node_with_max_degree := first_max (gr_degree g)\<rparr>))"

text \<open>\<open>load_edge_list(graph_dir, skip)\<close>.\<close>

definition load_edge_list :: "nat list \<Rightarrow> (nat \<Rightarrow> nat) \<Rightarrow> char \<Rightarrow> string list \<Rightarrow> graph \<Rightarrow> graph_error + graph" where
  "load_edge_list order junk skip ls g =
     (case load_edge_list_file skip ls of
        Inl e \<Rightarrow> Inl e
      | Inr (edge_list, max_vertex_id) \<Rightarrow>
          (case build_csr order junk edge_list max_vertex_id g of
             Inl e \<Rightarrow> Inl e
           | Inr g1 \<Rightarrow> (case is_sort g1 of Inl e \<Rightarrow> Inl e | Inr _ \<Rightarrow> collect_metadata g1)))"

section \<open>Well-formed graphs\<close>

definition offsets_of :: "nat list \<Rightarrow> nat list" where
  "offsets_of ds = map (\<lambda>i. sum_list (take i ds)) [0..<length ds + 1]"

definition csr_ok :: "graph \<Rightarrow> bool" where
  "csr_ok g \<longleftrightarrow> length (gr_degree g) = gr_num_vertices g \<and> gr_offset g = offsets_of (gr_degree g) \<and>
     length (gr_adj g) = gr_num_edges g \<and> gr_num_edges g = sum_list (gr_degree g) \<and>
     (\<forall>v \<in> set (gr_adj g). v < gr_num_vertices g)"

text \<open>Neighbours ascend without repetition, and every edge is there in both directions.\<close>

definition simple_graph :: "graph \<Rightarrow> bool" where
  "simple_graph g \<longleftrightarrow> csr_ok g \<and>
     (\<forall>u < gr_num_vertices g. sorted_wrt (<) (neighbors g u) \<and> u \<notin> set (neighbors g u) \<and>
        (\<forall>v \<in> set (neighbors g u). u \<in> set (neighbors g v)))"

lemma length_offset_fold:
  "length (fold (\<lambda>i off. off[Suc i := off ! i + ds ! i]) is xs) = length xs"
  by (induction "is" arbitrary: xs) simp_all

lemma offset_loop_eq: "offset_loop ds = offsets_of ds"
proof -
  have "k \<le> length ds \<Longrightarrow>
      (\<forall>j \<le> k. fold (\<lambda>i off. off[i + 1 := off ! i + ds ! i]) [0..<k] (replicate (length ds + 1) 0) ! j = sum_list (take j ds))" for k
  proof (induction k)
    case 0
    then show ?case by simp
  next
    case (Suc k)
    let ?o = "fold (\<lambda>i off. off[i + 1 := off ! i + ds ! i]) [0..<k] (replicate (length ds + 1) 0)"
    have l: "length ?o = length ds + 1" by (simp add: length_offset_fold del: replicate_Suc)
    have s: "sum_list (take (Suc k) ds) = sum_list (take k ds) + ds ! k"
      using Suc.prems by (simp add: take_Suc_conv_app_nth)
    show ?case
    proof (intro allI impI)
      fix j assume j: "j \<le> Suc k"
      show "fold (\<lambda>i off. off[i + 1 := off ! i + ds ! i]) [0..<Suc k] (replicate (length ds + 1) 0) ! j = sum_list (take j ds)"
        using Suc j l s by (cases "j = Suc k") (auto simp: nth_list_update simp del: replicate_Suc take_Suc)
    qed
  qed
  from this [of "length ds"] show ?thesis
    unfolding offset_loop_def offsets_of_def
    by (intro nth_equalityI) (simp_all add: length_offset_fold less_Suc_eq_le del: upt_Suc replicate_Suc)
qed

lemma length_offsets_of [simp]: "length (offsets_of ds) = length ds + 1"
  by (simp add: offsets_of_def)

lemma offsets_of_nth: "i \<le> length ds \<Longrightarrow> offsets_of ds ! i = sum_list (take i ds)"
  by (simp add: offsets_of_def less_Suc_eq_le del: upt_Suc)

lemma offsets_of_Suc: "i < length ds \<Longrightarrow> offsets_of ds ! Suc i = offsets_of ds ! i + ds ! i"
  by (simp add: offsets_of_nth take_Suc_conv_app_nth)

lemma offsets_of_last: "offsets_of ds ! length ds = sum_list ds"
  by (simp add: offsets_of_nth)

lemma offsets_of_mono: "i \<le> j \<Longrightarrow> j \<le> length ds \<Longrightarrow> offsets_of ds ! i \<le> offsets_of ds ! j"
proof (induction j)
  case (Suc j)
  then show ?case by (cases "i = Suc j") (auto simp: offsets_of_Suc)
qed simp

section \<open>The copy of the lists\<close>

lemma concat_split: "i < length xss \<Longrightarrow> concat xss = concat (take i xss) @ xss ! i @ concat (drop (Suc i) xss)"
proof (induction xss arbitrary: i)
  case (Cons xs xss)
  then show ?case by (cases i) simp_all
qed simp

lemma concat_nth_range:
  assumes "i < length xss" "offsets_of (map length xss) ! i \<le> j" "j < offsets_of (map length xss) ! Suc i"
  shows "concat xss ! j = xss ! i ! (j - offsets_of (map length xss) ! i)"
proof -
  have o: "offsets_of (map length xss) ! i = length (concat (take i xss))"
    using assms(1) by (simp add: offsets_of_nth length_concat take_map)
  have "j < length (concat (take i xss)) + length (xss ! i)"
    using assms(1,3) offsets_of_Suc [of i "map length xss"] o by simp
  moreover have "concat xss = concat (take i xss) @ xss ! i @ concat (drop (Suc i) xss)"
    by (rule concat_split [OF assms(1)])
  ultimately have "concat xss ! j = (xss ! i @ concat (drop (Suc i) xss)) ! (j - length (concat (take i xss)))"
    using assms(2) unfolding o by (metis nth_append_right)
  moreover have "j - length (concat (take i xss)) < length (xss ! i)"
    using \<open>j < length (concat (take i xss)) + length (xss ! i)\<close> assms(2) unfolding o by linarith
  ultimately show ?thesis unfolding o by (simp only: nth_append_left)
qed

lemma offsets_range_ex:
  assumes "j < sum_list ds"
  shows "\<exists>i < length ds. offsets_of ds ! i \<le> j \<and> j < offsets_of ds ! Suc i"
proof -
  let ?i = "LEAST i. j < offsets_of ds ! Suc i \<and> i < length ds"
  have ds: "ds \<noteq> []" using assms by auto
  then have "j < offsets_of ds ! Suc (length ds - 1) \<and> length ds - 1 < length ds"
    using assms offsets_of_last [of ds] by simp
  then have i: "j < offsets_of ds ! Suc ?i \<and> ?i < length ds" by (rule LeastI)
  have "offsets_of ds ! ?i \<le> j"
  proof (cases ?i)
    case 0
    then show ?thesis by (simp add: offsets_of_nth)
  next
    case (Suc k)
    then have "\<not> (j < offsets_of ds ! Suc k \<and> k < length ds)"
      using not_less_Least [of k "\<lambda>i. j < offsets_of ds ! Suc i \<and> i < length ds"] by simp
    with Suc i show ?thesis by simp
  qed
  with i show ?thesis by blast
qed

lemma copy_at_nth:
  assumes "k + length xs \<le> length a" "j < length a"
  shows "length (copy_at xs k a) = length a" "copy_at xs k a ! j = (if k \<le> j \<and> j < k + length xs then xs ! (j - k) else a ! j)"
  using assms by (auto simp: copy_at_def nth_append min_def)

lemma copy_loop_nth:
  assumes "set order \<subseteq> {..<length xss}" "length a = length (concat xss)" "j < length a"
  shows "length (copy_loop order (offsets_of (map length xss)) xss a) = length a"
    and "copy_loop order (offsets_of (map length xss)) xss a ! j =
      (if \<exists>i \<in> set order. offsets_of (map length xss) ! i \<le> j \<and> j < offsets_of (map length xss) ! Suc i
       then concat xss ! j else a ! j)"
  using assms unfolding copy_loop_def
proof (induction order arbitrary: a)
  case Nil
  case 1 then show ?case by simp
next
  case Nil
  case 2 then show ?case by simp
next
  case (Cons i order)
  let ?o = "offsets_of (map length xss)"
  have step: "length (copy_at (xss ! i) (?o ! i) a) = length a"
    "copy_at (xss ! i) (?o ! i) a ! j = (if ?o ! i \<le> j \<and> j < ?o ! Suc i then xss ! i ! (j - ?o ! i) else a ! j)"
    if p: "set (i # order) \<subseteq> {..<length xss}" "length a = length (concat xss)" "j < length a" for a
  proof -
    have i: "i < length xss" using p(1) by simp
    have s: "?o ! Suc i = ?o ! i + length (xss ! i)" using offsets_of_Suc [of i "map length xss"] i by simp
    have "?o ! Suc i \<le> length (concat xss)"
      using offsets_of_mono [of "Suc i" "length (map length xss)" "map length xss"] offsets_of_last [of "map length xss"] i
      by (simp add: length_concat)
    then have "?o ! i + length (xss ! i) \<le> length a" using s p(2) by simp
    note copy_at_nth [OF this p(3)]
    then show "length (copy_at (xss ! i) (?o ! i) a) = length a"
      "copy_at (xss ! i) (?o ! i) a ! j = (if ?o ! i \<le> j \<and> j < ?o ! Suc i then xss ! i ! (j - ?o ! i) else a ! j)"
      by (simp_all add: s)
  qed
  case 1
  with Cons.IH(1) [of "copy_at (xss ! i) (?o ! i) a"] step [OF 1] show ?case by simp
  case 2
  with Cons.IH(2) [of "copy_at (xss ! i) (?o ! i) a"] step [OF 2] concat_nth_range [of i xss j] show ?case by auto
qed

text \<open>In whatever order the threads copy the lists, the array is their concatenation.\<close>

lemma copy_loop_concat:
  assumes "mset order = mset [0..<length xss]" "length a = length (concat xss)"
  shows "copy_loop order (offsets_of (map length xss)) xss a = concat xss"
proof -
  have o: "set order = {..<length xss}" using mset_eq_setD [OF assms(1)] by (simp add: atLeast0LessThan)
  note c = copy_loop_nth [OF _ assms(2), of order]
  show ?thesis
  proof (cases "concat xss = []")
    case True
    have "copy_at ys k [] = ys" for k and ys :: "'a list" by (simp add: copy_at_def)
    moreover have "\<forall>i \<in> set order. xss ! i = []" using True o by (simp add: concat_eq_Nil_conv)
    ultimately have "fold (\<lambda>i a. copy_at (xss ! i) (offsets_of (map length xss) ! i) a) is [] = []" if "set is \<subseteq> set order" for "is"
      using that by (induction "is") simp_all
    then have "fold (\<lambda>i a. copy_at (xss ! i) (offsets_of (map length xss) ! i) a) order [] = []" by blast
    moreover have "a = []" using assms(2) True by simp
    ultimately show ?thesis using True by (simp only: copy_loop_def)
  next
    case False
    then have "0 < length a" using assms(2) by simp
    have l: "length (copy_loop order (offsets_of (map length xss)) xss a) = length a"
      using c(1) \<open>0 < length a\<close> o by blast
    show ?thesis
    proof (rule nth_equalityI)
      fix j assume "j < length (copy_loop order (offsets_of (map length xss)) xss a)"
      then have j: "j < length a" using l by simp
      then have "\<exists>i < length (map length xss). offsets_of (map length xss) ! i \<le> j \<and> j < offsets_of (map length xss) ! Suc i"
        by (intro offsets_range_ex) (simp add: assms(2) length_concat)
      then show "copy_loop order (offsets_of (map length xss)) xss a ! j = concat xss ! j"
        using c(2) [OF _ j] o by auto
    qed (simp add: l assms(2))
  qed
qed

lemma concat_slice:
  assumes "u < length xss"
  shows "take (map length xss ! u) (drop (offsets_of (map length xss) ! u) (concat xss)) = xss ! u"
proof -
  have o: "offsets_of (map length xss) ! u = length (concat (take u xss))"
    using assms by (simp add: offsets_of_nth length_concat take_map)
  have "take (length ys) (drop (length A) zs) = ys" if "zs = A @ ys @ B" for zs A ys B :: "'a list"
    using that by simp
  from this [OF concat_split [OF assms]] show ?thesis unfolding o nth_map [OF assms] .
qed

lemma neighbors_concat:
  assumes "gr_degree g = map length xss" "gr_offset g = offsets_of (map length xss)" "gr_adj g = concat xss" "u < length xss"
  shows "neighbors g u = xss ! u"
  unfolding neighbors_def assms(1-3) by (rule concat_slice [OF assms(4)])

section \<open>The loop over the edges\<close>

text \<open>What edge \<open>(s, d)\<close> adds to the list of vertex \<open>u\<close>.\<close>

definition incident :: "nat \<Rightarrow> (nat \<times> nat) list \<Rightarrow> nat list" where
  "incident u es = concat (map (\<lambda>(s, d). (if s = u then [d] else []) @ (if d = u then [s] else [])) es)"

definition kept_edges :: "nat \<times> nat \<Rightarrow> (nat \<times> nat) list \<Rightarrow> (nat \<times> nat) list" where
  "kept_edges p es = filter (\<lambda>(s, d). s \<noteq> d) (tl (remdups_adj (p # es)))"

lemma kept_edges_Cons:
  "kept_edges p (e # es) = (if p = e then kept_edges e es else (if fst e \<noteq> snd e then [e] else []) @ kept_edges e es)"
proof -
  obtain xs where xs: "remdups_adj (e # es) = e # xs"
    by (cases "remdups_adj es"; cases "e = hd (remdups_adj es)") (auto simp: remdups_adj_Cons)
  then have "tl (remdups_adj (p # e # es)) = (if p = e then xs else e # xs)" by simp
  then show ?thesis unfolding kept_edges_def xs by (cases e) simp
qed

lemma incident_Cons: "incident u ((s, d) # es) = (if s = u then [d] else []) @ (if d = u then [s] else []) @ incident u es"
  by (simp add: incident_def)

lemma build_fold:
  assumes "\<forall>e \<in> set es. fst e < length adj \<and> snd e < length adj" "deg = map length adj" "m = sum_list deg"
  shows "\<exists>p'. fold build_step es (p, deg, adj, m) =
    (p', map length (map (\<lambda>u. adj ! u @ incident u (kept_edges p es)) [0..<length adj]),
     map (\<lambda>u. adj ! u @ incident u (kept_edges p es)) [0..<length adj],
     sum_list (map length (map (\<lambda>u. adj ! u @ incident u (kept_edges p es)) [0..<length adj])))"
  using assms
proof (induction es arbitrary: p deg adj m)
  case Nil
  then show ?case by (simp add: kept_edges_def incident_def map_nth comp_def del: map_map)
next
  case (Cons e es)
  obtain s d where e: "e = (s, d)" by (cases e)
  show ?case
  proof (cases "p = e \<or> s = d")
    case True
    then have "build_step e (p, deg, adj, m) = (e, deg, adj, m)" by (auto simp: build_step_def e)
    moreover have "kept_edges p (e # es) = kept_edges e es" using True by (auto simp: kept_edges_Cons e)
    ultimately show ?thesis using Cons.IH [of adj deg m e] Cons.prems by simp
  next
    case False
    let ?adj = "adj[s := adj ! s @ [d], d := adj ! d @ [s]]" and ?deg = "deg[s := deg ! s + 1, d := deg ! d + 1]"
    have l: "s < length adj" "d < length adj" using Cons.prems(1) by (simp_all add: e)
    have b: "build_step e (p, deg, adj, m) = (e, ?deg, ?adj, m + 2)"
      using False l by (auto simp: build_step_def e Let_def)
    have dg: "?deg = map length ?adj" using l False Cons.prems(2) by (simp add: map_update)
    have "sum_list (deg[i := deg ! i + 1]) = sum_list deg + 1" if "i < length deg" for i and deg :: "nat list"
      using that by (simp add: sum_list_update)
    note inc = this
    let ?d1 = "deg[s := deg ! s + 1]"
    have "s < length deg" "d < length ?d1" "?d1 ! d = deg ! d" using l False Cons.prems(2) by simp_all
    then have "sum_list ?d1 = sum_list deg + 1" "sum_list (?d1[d := deg ! d + 1]) = sum_list ?d1 + 1"
      using inc [of s deg] inc [of d ?d1] by simp_all
    then have sm: "m + 2 = sum_list ?deg" using Cons.prems(3) by linarith
    have k: "kept_edges p (e # es) = (s, d) # kept_edges e es" using False by (auto simp: kept_edges_Cons e)
    have el: "map (\<lambda>u. ?adj ! u @ incident u (kept_edges e es)) [0..<length adj] =
        map (\<lambda>u. adj ! u @ incident u (kept_edges p (e # es))) [0..<length adj]"
      using l False unfolding k by (intro map_cong refl) (auto simp: incident_Cons nth_list_update)
    have la: "length ?adj = length adj" by simp
    have "\<forall>e \<in> set es. fst e < length ?adj \<and> snd e < length ?adj" using Cons.prems(1) by simp
    from Cons.IH [OF this dg sm, of e] show ?thesis
      unfolding la el fold_simps(2) b .
  qed
qed

section \<open>The graph of an edge list\<close>

text \<open>The other end of an edge at \<open>u\<close>.\<close>

definition other_end :: "nat \<Rightarrow> nat \<times> nat \<Rightarrow> nat" where
  "other_end u e = (if fst e = u then snd e else fst e)"

lemma incident_map:
  assumes "\<forall>e \<in> set es. fst e \<noteq> snd e"
  shows "incident u es = map (other_end u) (filter (\<lambda>e. fst e = u \<or> snd e = u) es)"
  using assms by (induction es) (auto simp: incident_def other_end_def)

lemma set_incident: "set (incident u es) = {v. (u, v) \<in> set es \<or> (v, u) \<in> set es}"
  by (auto simp: incident_def split: if_splits)

text \<open>Edges in lexicographic order, each with its ends in ascending order, give ascending neighbours.\<close>

lemma incident_ascending:
  assumes "sorted_wrt (<) es" "\<forall>e \<in> set es. fst e < snd e"
  shows "sorted_wrt (<) (incident u es)"
proof -
  have "sorted_wrt (<) (filter (\<lambda>e. fst e = u \<or> snd e = u) es)" using assms(1) by (rule sorted_wrt_filter)
  moreover have "other_end u e < other_end u e'"
    if m: "e \<in> set (filter (\<lambda>e. fst e = u \<or> snd e = u) es)" "e' \<in> set (filter (\<lambda>e. fst e = u \<or> snd e = u) es)" "e < e'" for e e'
  proof -
    obtain s d s' d' where e: "e = (s, d)" "e' = (s', d')" by (cases e; cases e')
    have "s < d" "s' < d'" "s = u \<or> d = u" "s' = u \<or> d' = u" "s < s' \<or> s = s' \<and> d < d'"
      using m assms(2) unfolding e by force+
    then show ?thesis by (auto simp: other_end_def e)
  qed
  ultimately have "sorted_wrt (\<lambda>e e'. other_end u e < other_end u e') (filter (\<lambda>e. fst e = u \<or> snd e = u) es)"
    by (rule sorted_wrt_mono_rel [rotated])
  moreover have "\<forall>e \<in> set es. fst e \<noteq> snd e" using assms(2) by auto
  ultimately show ?thesis by (simp add: incident_map sorted_wrt_map)
qed

lemma incident_simple: "\<forall>e \<in> set es. fst e \<noteq> snd e \<Longrightarrow> u \<notin> set (incident u es)"
  by (auto simp: set_incident)

lemma kept_edges_set:
  assumes "p \<notin> set es"
  shows "set (kept_edges p es) = {e \<in> set es. fst e \<noteq> snd e}"
proof -
  have "set (tl (remdups_adj (p # es))) = set es"
  proof (cases es)
    case (Cons e es')
    with assms have "remdups_adj (p # es) = p # remdups_adj es" by auto
    then show ?thesis by simp
  qed simp
  then show ?thesis by (auto simp: kept_edges_def)
qed

lemma kept_edges_sorted:
  assumes "sorted es" "p \<notin> set es"
  shows "sorted_wrt (<) (kept_edges p es)"
proof (cases es)
  case Nil
  then show ?thesis by (simp add: kept_edges_def)
next
  case (Cons e es')
  with assms(2) have "tl (remdups_adj (p # es)) = remdups_adj es" by auto
  moreover have "sorted_wrt (<) (remdups_adj es)"
    using assms(1) by (rule strict_remdups_adj)
  ultimately show ?thesis unfolding kept_edges_def by (simp add: sorted_wrt_filter)
qed

definition nat_edges :: "(int \<times> int) list \<Rightarrow> (nat \<times> nat) list" where
  "nat_edges es = map (\<lambda>e. (nat (fst e), nat (snd e))) (sort es)"

lemma nat_edges_sorted:
  assumes "\<forall>e \<in> set es. 0 \<le> fst e \<and> fst e \<le> snd e"
  shows "sorted (nat_edges es)" "set (nat_edges es) = (\<lambda>e. (nat (fst e), nat (snd e))) ` set es"
proof -
  have "sorted_wrt (\<lambda>e e'. (nat (fst e), nat (snd e)) \<le> (nat (fst e'), nat (snd e'))) (sort es)"
  proof (rule sorted_wrt_mono_rel)
    show "sorted_wrt (\<le>) (sort es)" by simp
    fix e e' assume "e \<in> set (sort es)" "e' \<in> set (sort es)" "e \<le> e'"
    with assms show "(nat (fst e), nat (snd e)) \<le> (nat (fst e'), nat (snd e'))"
      by (cases e; cases e') auto
  qed
  then show "sorted (nat_edges es)" by (simp add: nat_edges_def sorted_wrt_map)
  show "set (nat_edges es) = (\<lambda>e. (nat (fst e), nat (snd e))) ` set es" by (simp add: nat_edges_def)
qed

text \<open>Vertices are joined when the list has an edge between them, in either direction.\<close>

definition joined :: "(int \<times> int) list \<Rightarrow> nat \<Rightarrow> nat \<Rightarrow> bool" where
  "joined es u v \<longleftrightarrow> u \<noteq> v \<and> ((int u, int v) \<in> set es \<or> (int v, int u) \<in> set es)"

lemma build_csr_result:
  assumes "\<forall>e \<in> set es. 0 \<le> fst e \<and> fst e \<le> snd e \<and> snd e \<le> m" "0 \<le> m" "m + 1 < 2 ^ 31"
    and "mset order = mset [0..<nat (m + 1)]"
  shows "\<exists>g'. build_csr order junk es m g = Inr g' \<and> simple_graph g' \<and> gr_num_vertices g' = nat (m + 1) \<and>
    gr_flags g' = gr_flags g \<and> (\<forall>u < gr_num_vertices g'. set (neighbors g' u) = {v. joined es u v})"
proof -
  let ?n = "nat (m + 1)" and ?es = "nat_edges es"
  let ?K = "kept_edges (?n, ?n) ?es"
  let ?adj = "map (\<lambda>u. incident u ?K) [0..<?n]"
  note ns = nat_edges_sorted [of es]
  have pos: "\<forall>e \<in> set es. 0 \<le> fst e \<and> fst e \<le> snd e" using assms(1) by blast
  have rng: "\<forall>e \<in> set ?es. fst e < ?n \<and> snd e < ?n" using assms(1,2) by (auto simp: ns(2) [OF pos] nat_less_iff)
  then have p: "(?n, ?n) \<notin> set ?es" by auto
  have K: "sorted_wrt (<) ?K" "set ?K = {e \<in> set ?es. fst e \<noteq> snd e}"
    using kept_edges_sorted [OF ns(1) [OF pos] p] kept_edges_set [OF p] by blast+
  have asc: "\<forall>e \<in> set ?K. fst e < snd e"
  proof
    fix e assume "e \<in> set ?K"
    then obtain a b where "(a, b) \<in> set es" "e = (nat a, nat b)" "nat a \<noteq> nat b" by (auto simp: K(2) ns(2) [OF pos])
    moreover then have "0 \<le> a" "a \<le> b" using assms(1) by force+
    moreover have "a \<noteq> b" using \<open>nat a \<noteq> nat b\<close> by auto
    ultimately show "fst e < snd e" by auto
  qed
  have ne: "\<forall>e \<in> set ?K. fst e \<noteq> snd e" using asc by auto
  have "\<forall>e \<in> set ?es. fst e < length (replicate ?n ([] :: nat list)) \<and> snd e < length (replicate ?n ([] :: nat list))"
    using rng by simp
  note rng' = this
  let ?e = "replicate ?n ([] :: nat list)"
  have r: "map (\<lambda>u. ?e ! u @ incident u ?K) [0..<length ?e] = ?adj"
    by (rule map_cong) simp_all
  have "replicate ?n 0 = map length ?e" "0 = sum_list (replicate ?n (0 :: nat))" by (simp_all add: sum_list_replicate)
  from build_fold [OF rng' this, of "(?n, ?n)", unfolded r] obtain p' where
    f: "fold build_step ?es ((?n, ?n), replicate ?n 0, replicate ?n [], 0) = (p', map length ?adj, ?adj, sum_list (map length ?adj))"
    by blast
  let ?g = "g\<lparr>gr_num_vertices := ?n, gr_num_edges := sum_list (map length ?adj), gr_degree := map length ?adj,
      gr_offset := offsets_of (map length ?adj), gr_adj := concat ?adj\<rparr>"
  have "copy_loop order (offsets_of (map length ?adj)) ?adj (map junk [0..<sum_list (map length ?adj)]) = concat ?adj"
    by (rule copy_loop_concat) (simp_all add: assms(4) length_concat)
  moreover have "\<not> (2 ^ 31 \<le> m + 1 \<or> (\<exists>e \<in> set es. fst e < 0))" using assms(1,3) by auto
  ultimately have b: "build_csr order junk es m g = Inr ?g"
    unfolding build_csr_def Let_def offset_loop_eq nat_edges_def [symmetric] f by simp
  have nb: "neighbors ?g u = incident u ?K" if "u < ?n" for u
    using neighbors_concat [of ?g ?adj u] that by simp
  have j: "set (incident u ?K) = {v. joined es u v}" for u
  proof -
    have "(x, y) \<in> set ?K \<longleftrightarrow> x \<noteq> y \<and> (int x, int y) \<in> set es" for x y
    proof
      assume "(x, y) \<in> set ?K"
      then obtain a b where e: "(a, b) \<in> set es" "x = nat a" "y = nat b" "x \<noteq> y" by (auto simp: K(2) ns(2) [OF pos])
      then have "0 \<le> a" "0 \<le> b" using assms(1) by force+
      with e show "x \<noteq> y \<and> (int x, int y) \<in> set es" by simp
    next
      assume "x \<noteq> y \<and> (int x, int y) \<in> set es"
      then show "(x, y) \<in> set ?K" by (auto simp: K(2) ns(2) [OF pos] intro!: image_eqI [of _ _ "(int x, int y)"])
    qed
    then show ?thesis by (auto simp: set_incident joined_def)
  qed
  have lt: "v < ?n" if "joined es u v" for u v
    using that assms(1,2) by (auto simp: joined_def)
  have c: "csr_ok ?g"
    using j lt by (auto simp: csr_ok_def length_concat)
  have "simple_graph ?g"
    unfolding simple_graph_def using c nb incident_ascending [OF K(1) asc] incident_simple [OF ne] j lt
    by (auto simp: joined_def)
  with b nb j show ?thesis by auto
qed

section \<open>The lines of the file\<close>

definition is_comment :: "char \<Rightarrow> string \<Rightarrow> bool" where
  "is_comment skip l \<longleftrightarrow> l \<noteq> [] \<and> hd l = skip"

definition good_line :: "char \<Rightarrow> string \<Rightarrow> bool" where
  "good_line skip l \<longleftrightarrow> is_comment skip l \<or> parse_line l \<noteq> None"

definition line_edges :: "char \<Rightarrow> string \<Rightarrow> (int \<times> int) list" where
  "line_edges skip l =
     (if is_comment skip l then [] else case parse_line l of None \<Rightarrow> [] | Some (x, y) \<Rightarrow> [(min x y, max x y)])"

definition file_edge_list :: "char \<Rightarrow> string list \<Rightarrow> (int \<times> int) list" where
  "file_edge_list skip ls = concat (map (line_edges skip) ls)"

definition max_id :: "(int \<times> int) list \<Rightarrow> int \<Rightarrow> int" where
  "max_id es m = fold (\<lambda>e m. max (max m (fst e)) (snd e)) es m"

lemma load_lines_good:
  "\<forall>l \<in> set ls. good_line skip l \<Longrightarrow>
    load_lines skip k ls acc m = Inr (acc @ file_edge_list skip ls, max_id (file_edge_list skip ls) m)"
proof (induction ls arbitrary: k acc m)
  case Nil
  then show ?case by (simp add: file_edge_list_def max_id_def)
next
  case (Cons l ls)
  then show ?case
    by (cases "is_comment skip l")
      (auto simp: good_line_def is_comment_def file_edge_list_def line_edges_def max_id_def Let_def)
qed

text \<open>The first bad line is reported with its number.\<close>

lemma load_lines_bad:
  assumes "\<forall>l \<in> set pre. good_line skip l" "\<not> good_line skip l"
  shows "load_lines skip k (pre @ l # post) acc m = Inl (Cannot_Convert (k + length pre + 1))"
  using assms(1)
proof (induction pre arbitrary: k acc m)
  case Nil
  have "parse_line l = None" "\<not> (l \<noteq> [] \<and> hd l = skip)" using assms(2) unfolding good_line_def is_comment_def by blast+
  then show ?case by auto
next
  case (Cons x pre)
  then show ?case by (cases "is_comment skip x") (auto simp: good_line_def is_comment_def Let_def)
qed

lemma max_id_bounds: "m \<le> max_id es m" "\<forall>e \<in> set es. fst e \<le> max_id es m \<and> snd e \<le> max_id es m"
proof -
  have "m \<le> max_id es m \<and> (\<forall>e \<in> set es. fst e \<le> max_id es m \<and> snd e \<le> max_id es m)"
  proof (induction es arbitrary: m)
    case Nil
    then show ?case by (simp add: max_id_def)
  next
    case (Cons e es)
    have "max_id (e # es) m = max_id es (max (max m (fst e)) (snd e))" by (simp add: max_id_def)
    with Cons [of "max (max m (fst e)) (snd e)"] show ?case by auto
  qed
  then show "m \<le> max_id es m" "\<forall>e \<in> set es. fst e \<le> max_id es m \<and> snd e \<le> max_id es m" by blast+
qed

lemma max_id_mem: "max_id es m = m \<or> (\<exists>e \<in> set es. max_id es m = fst e \<or> max_id es m = snd e)"
proof (induction es arbitrary: m)
  case Nil
  then show ?case by (simp add: max_id_def)
next
  case (Cons e es)
  have "max_id (e # es) m = max_id es (max (max m (fst e)) (snd e))" by (simp add: max_id_def)
  moreover have "max (max m (fst e)) (snd e) \<in> {m, fst e, snd e}" by (simp add: max_def)
  ultimately show ?case using Cons [of "max (max m (fst e)) (snd e)"] by auto
qed

lemma file_edges_ordered: "\<forall>e \<in> set (file_edge_list skip ls). fst e \<le> snd e"
  by (auto simp: file_edge_list_def line_edges_def split: if_splits option.splits)

section \<open>Sortedness and metadata\<close>

lemma is_sort_simple:
  assumes "simple_graph g"
  shows "is_sort g = Inr ()"
proof -
  have "\<not> not_sorted_at (neighbors g u)" if "u < gr_num_vertices g" for u
  proof
    assume "not_sorted_at (neighbors g u)"
    then obtain i where "1 \<le> i" "i < length (neighbors g u)" "neighbors g u ! (i - 1) > neighbors g u ! i"
      by (auto simp: not_sorted_at_def)
    moreover have "sorted_wrt (<) (neighbors g u)" using assms that by (simp add: simple_graph_def)
    ultimately show False using sorted_wrt_nth_less [of "(<)" "neighbors g u" "i - 1" i] by simp
  qed
  then have "find (\<lambda>u. not_sorted_at (neighbors g u)) [0..<gr_num_vertices g] = None"
    by (auto simp: find_None_iff)
  then show ?thesis by (simp add: is_sort_def)
qed

text \<open>A vertex whose neighbours are out of order is reported.\<close>

lemma is_sort_reports: "is_sort g = Inl (Not_Sorted u) \<Longrightarrow> \<not> sorted (neighbors g u) \<and> u < gr_num_vertices g"
proof -
  assume "is_sort g = Inl (Not_Sorted u)"
  then have "find (\<lambda>u. not_sorted_at (neighbors g u)) [0..<gr_num_vertices g] = Some u"
    by (auto simp: is_sort_def split: option.splits)
  then have "u < gr_num_vertices g" "not_sorted_at (neighbors g u)" by (auto simp: find_Some_iff)
  then show ?thesis by (auto simp: not_sorted_at_def sorted_iff_nth_mono not_le dest: spec [of _ "_ - 1"])
      (metis One_nat_def diff_le_self less_imp_diff_less not_less)
qed

lemma first_max_result:
  assumes "xs \<noteq> []"
  shows "first_max xs < length xs \<and> (\<forall>i < length xs. xs ! i \<le> xs ! first_max xs) \<and> (\<forall>i < first_max xs. xs ! i < xs ! first_max xs)"
proof -
  let ?f = "\<lambda>k. fold (\<lambda>i m. if xs ! m < xs ! i then i else m) [1..<k] 0"
  have "1 \<le> k \<Longrightarrow> ?f k < k \<and> (\<forall>i < k. xs ! i \<le> xs ! ?f k) \<and> (\<forall>i < ?f k. xs ! i < xs ! ?f k)" for k
  proof (induction k)
    case (Suc k)
    show ?case
    proof (cases "k = 0")
      case False
      then have u: "?f (Suc k) = (if xs ! ?f k < xs ! k then k else ?f k)" by simp
      have IH: "?f k < k" "\<forall>i < k. xs ! i \<le> xs ! ?f k" "\<forall>i < ?f k. xs ! i < xs ! ?f k" using Suc False by simp_all
      show ?thesis
      proof (cases "xs ! ?f k < xs ! k")
        case True
        then show ?thesis unfolding u using IH(2) by (auto simp: less_Suc_eq dest: le_less_trans)
      next
        case F: False
        then show ?thesis unfolding u using IH by (auto simp: less_Suc_eq)
      qed
    qed simp
  qed simp
  from this [of "length xs"] show ?thesis using assms by (simp add: first_max_def Suc_le_eq)
qed

text \<open>A well-formed file gives a simple graph with exactly the edges of its lines.\<close>

lemma load_edge_list_result:
  assumes "\<forall>l \<in> set ls. good_line skip l" "\<forall>e \<in> set (file_edge_list skip ls). 0 \<le> fst e"
    and "max_id (file_edge_list skip ls) 0 + 1 < 2 ^ 31" "mset order = mset [0..<nat (max_id (file_edge_list skip ls) 0 + 1)]"
  shows "\<exists>g'. load_edge_list order junk skip ls g = Inr g' \<and> simple_graph g' \<and>
    gr_num_vertices g' = nat (max_id (file_edge_list skip ls) 0 + 1) \<and> gr_flags g' = gr_flags g \<and>
    (\<forall>u < gr_num_vertices g'. set (neighbors g' u) = {v. joined (file_edge_list skip ls) u v}) \<and>
    gr_max_degree g' = gr_degree g' ! gr_node_with_max_degree g' \<and>
    (\<forall>u < gr_num_vertices g'. gr_degree g' ! u \<le> gr_max_degree g')"
proof -
  let ?es = "file_edge_list skip ls" and ?m = "max_id (file_edge_list skip ls) 0"
  have "\<forall>e \<in> set ?es. 0 \<le> fst e \<and> fst e \<le> snd e \<and> snd e \<le> ?m"
    using assms(2) file_edges_ordered [of skip ls] max_id_bounds(2) [of ?es 0] by blast
  from build_csr_result [OF this max_id_bounds(1) assms(3,4), of junk g] obtain g1 where
    g1: "build_csr order junk ?es ?m g = Inr g1" "simple_graph g1" "gr_num_vertices g1 = nat (?m + 1)" "gr_flags g1 = gr_flags g"
      "\<forall>u < gr_num_vertices g1. set (neighbors g1 u) = {v. joined ?es u v}" by blast
  have n: "gr_num_vertices g1 \<noteq> 0" using g1(3) max_id_bounds(1) [of 0 ?es] by simp
  let ?g = "g1\<lparr>gr_max_degree := gr_degree g1 ! first_max (gr_degree g1), gr_node_with_max_degree := first_max (gr_degree g1)\<rparr>"
  have nb: "neighbors ?g = neighbors g1" by (simp add: neighbors_def fun_eq_iff)
  have l: "load_edge_list order junk skip ls g = Inr ?g"
    using load_lines_good [OF assms(1), of 0 "[]" 0] n
    by (simp add: load_edge_list_def load_edge_list_file_def g1(1) is_sort_simple [OF g1(2)] collect_metadata_def)
  have d: "length (gr_degree g1) = gr_num_vertices g1" using g1(2) by (simp add: simple_graph_def csr_ok_def)
  have "simple_graph ?g" using g1(2) by (simp add: simple_graph_def nb csr_ok_def)
  moreover have "gr_degree g1 ! u \<le> gr_degree g1 ! first_max (gr_degree g1)" if "u < gr_num_vertices g1" for u
  proof -
    have "gr_degree g1 \<noteq> []" using that d by auto
    from first_max_result [OF this] that d show ?thesis by simp
  qed
  ultimately show ?thesis using l g1(3-5) by (intro exI [of _ ?g]) (simp add: nb)
qed

end
