(* ===== verification/Graph_Search.thy ===== *)
theory Graph_Search
  imports Graph_Csr
begin

text \<open>
  The searches of the graph container: \<open>is_neighbor\<close>, \<open>neighbor_position\<close>, the properties of
  an edge (\<open>host/xgraph/graph.h\<close>), and the searches and prefix sums of
  \<open>host/xgraph/util/utility.h\<close>.  Arrays are lists; every index that is read lies inside them
  under the conditions of the theorems.
\<close>

section \<open>Searching by halves without branches\<close>

text \<open>
  \<open>upper_bound_branchless\<close> and \<open>branchfree_search\<close> move \<open>base\<close> by half of what is left when
  the element there still satisfies the comparison.
\<close>

function halve :: "('a \<Rightarrow> bool) \<Rightarrow> 'a list \<Rightarrow> nat \<Rightarrow> nat \<Rightarrow> nat" where
  "halve P src base n =
     (if 1 < n then (let half = n div 2 in halve P src (if P (src ! (base + half)) then base + half else base) (n - half))
      else base)"
  by auto
termination by (relation "measure (\<lambda>(_, _, _, n). n)") auto

declare halve.simps [simp del]

definition upper_bound_branchless :: "nat list \<Rightarrow> nat \<Rightarrow> nat \<Rightarrow> nat \<Rightarrow> nat" where
  "upper_bound_branchless src lo hi target =
     (let base = halve (\<lambda>x. x \<le> target) src lo (hi - lo)
      in (if src ! base \<le> target then 1 else 0) + base - lo)"

text \<open>\<open>Utility::test\<close>: the same loop with the test at its end.\<close>

function test_loop :: "nat list \<Rightarrow> nat \<Rightarrow> nat \<Rightarrow> nat \<Rightarrow> nat" where
  "test_loop src target base n =
     (if n \<le> 1 then base
      else (let half = n div 2
            in test_loop src target (if src ! (base + half) \<le> target then base + half else base) (n - half)))"
  by auto
termination by (relation "measure (\<lambda>(_, _, _, n). n)") auto

declare test_loop.simps [simp del]

definition test_search :: "nat list \<Rightarrow> nat \<Rightarrow> nat \<Rightarrow> nat \<Rightarrow> nat" where
  "test_search src lo hi target =
     (let base = test_loop src target lo (hi - lo)
      in (if src ! base \<le> target then 1 else 0) + base - lo)"

definition branchfree_search :: "int list \<Rightarrow> nat \<Rightarrow> int \<Rightarrow> nat" where
  "branchfree_search a n x = (let base = halve (\<lambda>y. y < x) a 0 n in (if a ! base < x then 1 else 0) + base)"

text \<open>What the searches rely on: in the array the comparison holds on a prefix.\<close>

locale prefix_search =
  fixes P :: "'a::linorder \<Rightarrow> bool"
  assumes P_down: "P y \<Longrightarrow> x \<le> y \<Longrightarrow> P x"
begin

lemma halve_result:
  assumes "sorted src" "0 < n" "b0 \<le> b" "b + n \<le> e" "e \<le> length src"
    and "\<And>i. b0 \<le> i \<Longrightarrow> i < b \<Longrightarrow> P (src ! i)" "\<And>i. b + n \<le> i \<Longrightarrow> i < e \<Longrightarrow> \<not> P (src ! i)"
  shows "b0 \<le> halve P src b n \<and> halve P src b n < e \<and>
    (\<forall>i. b0 \<le> i \<and> i < halve P src b n \<longrightarrow> P (src ! i)) \<and> (\<forall>i. halve P src b n < i \<and> i < e \<longrightarrow> \<not> P (src ! i))"
  using assms
proof (induction n arbitrary: b rule: less_induct)
  case (less n)
  show ?case
  proof (cases "1 < n")
    case False
    then have "n = 1" using less.prems(2) by simp
    with less.prems show ?thesis by (simp add: halve.simps)
  next
    case True
    let ?h = "n div 2"
    have h: "0 < ?h" "?h < n" "2 * ?h \<le> n" using True by auto
    have m: "src ! i \<le> src ! j" if "i \<le> j" "j < e" for i j
      using sorted_nth_mono [OF less.prems(1) that(1)] that(2) less.prems(5) by simp
    show ?thesis
    proof (cases "P (src ! (b + ?h))")
      case True
      have r: "halve P src b n = halve P src (b + ?h) (n - ?h)"
        using \<open>1 < n\<close> True by (subst halve.simps) (simp add: Let_def)
      show ?thesis unfolding r
      proof (rule less.IH)
        show "n - ?h < n" "0 < n - ?h" "b0 \<le> b + ?h" "b + ?h + (n - ?h) \<le> e" using h less.prems(3,4) by simp_all
        show "P (src ! i)" if "b0 \<le> i" "i < b + ?h" for i
          using P_down [OF True m [of i "b + ?h"]] that h less.prems(4) by simp
        show "\<not> P (src ! i)" if "b + ?h + (n - ?h) \<le> i" "i < e" for i using less.prems(7) that h by simp
      qed (rule less.prems(1), rule less.prems(5))
    next
      case F: False
      have r: "halve P src b n = halve P src b (n - ?h)"
        using \<open>1 < n\<close> F by (subst halve.simps) (simp add: Let_def)
      show ?thesis unfolding r
      proof (rule less.IH)
        show "n - ?h < n" "0 < n - ?h" "b + (n - ?h) \<le> e" using h less.prems(4) by simp_all
        show "\<not> P (src ! i)" if "b + (n - ?h) \<le> i" "i < e" for i
        proof
          assume "P (src ! i)"
          moreover have "src ! (b + ?h) \<le> src ! i" using m [of "b + ?h" i] that h by linarith
          ultimately show False using P_down F by blast
        qed
      qed (use less.prems in blast)+
    qed
  qed
qed

text \<open>The position found is the number of elements of the slice that satisfy the comparison.\<close>

lemma length_takeWhile_eqI:
  assumes "k \<le> length xs" "\<And>i. i < k \<Longrightarrow> Q (xs ! i)" "k < length xs \<Longrightarrow> \<not> Q (xs ! k)"
  shows "length (takeWhile Q xs) = k"
proof -
  have "takeWhile Q xs = take k xs" using assms by (intro takeWhile_eq_take_P_nth) auto
  with assms(1) show ?thesis by simp
qed

lemma halve_count:
  assumes "sorted src" "lo < hi" "hi \<le> length src"
  shows "(if P (src ! halve P src lo (hi - lo)) then 1 else 0) + halve P src lo (hi - lo) - lo =
    length (takeWhile P (take (hi - lo) (drop lo src)))"
proof -
  let ?r = "halve P src lo (hi - lo)" and ?s = "take (hi - lo) (drop lo src)"
  have r: "lo \<le> ?r" "?r < hi" "\<And>i. lo \<le> i \<Longrightarrow> i < ?r \<Longrightarrow> P (src ! i)" "\<And>i. ?r < i \<Longrightarrow> i < hi \<Longrightarrow> \<not> P (src ! i)"
    using halve_result [of src "hi - lo" lo lo hi] assms by auto
  let ?k = "(if P (src ! ?r) then 1 else 0) + ?r - lo"
  have l: "length ?s = hi - lo" using assms by simp
  have nth: "?s ! i = src ! (lo + i)" if "i < hi - lo" for i using that assms by simp
  have "length (takeWhile P ?s) = ?k"
  proof (rule length_takeWhile_eqI)
    show "?k \<le> length ?s" using r(1,2) l by auto
    show "P (?s ! i)" if "i < ?k" for i
    proof (cases "lo + i = ?r")
      case True
      then have "P (src ! ?r)" using that by (auto split: if_splits)
      with True nth [of i] r(2) show ?thesis by simp
    next
      case False
      then have "lo + i < ?r" using that by (auto split: if_splits)
      with r(3) [of "lo + i"] nth [of i] r(2) show ?thesis by simp
    qed
    show "\<not> P (?s ! ?k)" if "?k < length ?s"
    proof (cases "P (src ! ?r)")
      case True
      with that r(1) l have "Suc ?r < hi" by (simp, linarith)
      moreover from True this r(1) l have "?s ! ?k = src ! Suc ?r" using nth [of "Suc ?r - lo"] by (simp add: Suc_diff_le)
      ultimately show ?thesis using r(4) [OF lessI] by simp
    next
      case False
      with that r(1,2) l show ?thesis using nth [of "?r - lo"] by simp
    qed
  qed
  then show ?thesis by simp
qed

end

interpretation upper: prefix_search "\<lambda>x. x \<le> (t :: nat)" for t
  by unfold_locales simp

interpretation lower: prefix_search "\<lambda>x. x < (t :: int)" for t
  by unfold_locales simp

lemma upper_bound_branchless_result:
  assumes "sorted src" "lo < hi" "hi \<le> length src"
  shows "upper_bound_branchless src lo hi t = length (takeWhile (\<lambda>x. x \<le> t) (take (hi - lo) (drop lo src)))"
  using upper.halve_count [OF assms, of t] by (simp add: upper_bound_branchless_def Let_def)

lemma test_loop_halve: "test_loop src t b n = halve (\<lambda>x. x \<le> t) src b n"
proof (induction n arbitrary: b rule: less_induct)
  case (less n)
  show ?case by (subst halve.simps, subst test_loop.simps) (auto simp: Let_def less)
qed

lemma test_search_same: "test_search src lo hi t = upper_bound_branchless src lo hi t"
  by (simp add: test_search_def upper_bound_branchless_def test_loop_halve)

lemma branchfree_search_result:
  assumes "sorted a" "0 < n" "n \<le> length a"
  shows "branchfree_search a n x = length (takeWhile (\<lambda>y. y < x) (take n a))"
  using lower.halve_count [of a 0 n x] assms by (simp add: branchfree_search_def Let_def)

section \<open>Binary search with a linear rest\<close>

text \<open>\<open>Utility::binary_search\<close>; the prefetches read nothing the program sees.\<close>

function bisect :: "nat list \<Rightarrow> nat \<Rightarrow> nat \<Rightarrow> nat \<Rightarrow> nat + nat \<times> nat" where
  "bisect src target offset_begin offset_end =
     (if 16 \<le> offset_end - offset_begin then
        (let mid = (offset_begin + offset_end) div 2
         in if src ! mid = target then Inl mid
            else if src ! mid < target then bisect src target (mid + 1) offset_end
            else bisect src target offset_begin mid)
      else Inr (offset_begin, offset_end))"
  by auto
termination by (relation "measure (\<lambda>(_, _, b, e). e - b)") auto

declare bisect.simps [simp del]

definition binary_search :: "nat list \<Rightarrow> nat \<Rightarrow> nat \<Rightarrow> nat \<Rightarrow> nat" where
  "binary_search src lo hi target =
     (case bisect src target lo hi of
        Inl mid \<Rightarrow> mid
      | Inr (offset_begin, offset_end) \<Rightarrow>
          (case find (\<lambda>i. target \<le> src ! i) [offset_begin..<offset_end] of Some i \<Rightarrow> i | None \<Rightarrow> offset_end))"

text \<open>What a search for \<open>t\<close> between \<open>lo\<close> and \<open>hi\<close> has to return.\<close>

definition lower_bound_at :: "nat list \<Rightarrow> nat \<Rightarrow> nat \<Rightarrow> nat \<Rightarrow> nat \<Rightarrow> bool" where
  "lower_bound_at src lo hi t r \<longleftrightarrow> lo \<le> r \<and> r \<le> hi \<and> (\<forall>i \<in> {lo..<r}. src ! i < t) \<and> (\<forall>i \<in> {r..<hi}. t \<le> src ! i)"

lemma bisect_result:
  assumes "sorted_wrt (<) src" "hi \<le> length src" "lo \<le> b" "b \<le> e" "e \<le> hi"
    and "\<forall>i \<in> {lo..<b}. src ! i < t" "\<forall>i \<in> {e..<hi}. t < src ! i"
  shows "(case bisect src t b e of
      Inl m \<Rightarrow> lower_bound_at src lo hi t m
    | Inr (b', e') \<Rightarrow> lo \<le> b' \<and> b' \<le> e' \<and> e' \<le> hi \<and> (\<forall>i \<in> {lo..<b'}. src ! i < t) \<and> (\<forall>i \<in> {e'..<hi}. t < src ! i))"
  using assms(3-)
proof (induction "e - b" arbitrary: b e rule: less_induct)
  case less
  show ?case
  proof (cases "16 \<le> e - b")
    case False
    then show ?thesis using less.prems by (simp add: bisect.simps)
  next
    case True
    let ?m = "(b + e) div 2"
    have m: "b \<le> ?m" "?m < e" using True by auto
    have mono: "src ! i < src ! j" if "i < j" "j < hi" for i j
      using sorted_wrt_nth_less [OF assms(1) that(1)] that(2) assms(2) by simp
    consider (eq) "src ! ?m = t" | (lt) "src ! ?m < t" | (gt) "t < src ! ?m" by linarith
    then show ?thesis
    proof cases
      case eq
      have "lower_bound_at src lo hi t ?m"
        unfolding lower_bound_at_def
      proof (intro conjI ballI)
        show "src ! i < t" if "i \<in> {lo..<?m}" for i using mono [of i ?m] that eq m less.prems(3) by simp
        show "t \<le> src ! i" if "i \<in> {?m..<hi}" for i using mono [of ?m i] that eq by (cases "i = ?m") auto
      qed (use m less.prems in auto)
      then show ?thesis using eq True by (simp add: bisect.simps [of src t b e])
    next
      case lt
      have "\<forall>i \<in> {lo..<?m + 1}. src ! i < t"
      proof
        fix i assume i: "i \<in> {lo..<?m + 1}"
        show "src ! i < t" using mono [of i ?m] i lt m less.prems(3) by (cases "i = ?m") auto
      qed
      moreover have "bisect src t b e = bisect src t (?m + 1) e" using lt True by (subst bisect.simps) (simp add: Let_def)
      ultimately show ?thesis using less.hyps [of e "?m + 1"] m less.prems True by simp
    next
      case gt
      have "\<forall>i \<in> {?m..<hi}. t < src ! i"
      proof
        fix i assume i: "i \<in> {?m..<hi}"
        show "t < src ! i" using mono [of ?m i] i gt by (cases "i = ?m") auto
      qed
      moreover have "bisect src t b e = bisect src t b ?m" using gt True by (subst bisect.simps) (simp add: Let_def)
      ultimately show ?thesis using less.hyps [of ?m b] m less.prems True by simp
    qed
  qed
qed

lemma binary_search_result:
  assumes "sorted_wrt (<) src" "lo \<le> hi" "hi \<le> length src"
  shows "lower_bound_at src lo hi t (binary_search src lo hi t)"
proof (cases "bisect src t lo hi")
  case (Inl m)
  then show ?thesis using bisect_result [of src hi lo lo hi t] assms by (simp add: binary_search_def)
next
  case (Inr p)
  obtain b e where p: "p = (b, e)" by (cases p)
  have r: "lo \<le> b" "b \<le> e" "e \<le> hi" "\<forall>i \<in> {lo..<b}. src ! i < t" "\<forall>i \<in> {e..<hi}. t < src ! i"
    using bisect_result [of src hi lo lo hi t] assms Inr p by auto
  show ?thesis
  proof (cases "find (\<lambda>i. t \<le> src ! i) [b..<e]")
    case None
    then have "\<forall>i \<in> {b..<e}. src ! i < t" by (auto simp: find_None_iff not_le)
    then have "\<forall>i \<in> {lo..<e}. src ! i < t" using r(4) by (metis atLeastLessThan_iff not_le)
    then show ?thesis using Inr p None r by (auto simp: binary_search_def lower_bound_at_def intro: less_imp_le)
  next
    case (Some k)
    then obtain j where j: "j < e - b" "k = b + j" "t \<le> src ! k" "\<forall>i < j. \<not> t \<le> src ! (b + i)"
      by (auto simp: find_Some_iff)
    have "src ! i < t" if "i \<in> {lo..<k}" for i
    proof (cases "i < b")
      case True
      with r(4) that show ?thesis by simp
    next
      case False
      with j(2,4) that show ?thesis by (metis add_diff_inverse_nat atLeastLessThan_iff nat_add_left_cancel_less not_le)
    qed
    moreover have "t \<le> src ! i" if "i \<in> {k..<hi}" for i
    proof (cases "i = k")
      case False
      then have "src ! k < src ! i" using sorted_wrt_nth_less [OF assms(1), of k i] that assms(3) by simp
      with j(3) show ?thesis by simp
    qed (use j(3) in simp)
    ultimately show ?thesis using Inr p Some r j(1,2) by (simp add: binary_search_def lower_bound_at_def)
  qed
qed

text \<open>An element of the array is found at its position.\<close>

lemma lower_bound_at_unique:
  assumes "lower_bound_at src lo hi t r" "lo \<le> i" "i < hi" "src ! i = t" "sorted_wrt (<) src" "hi \<le> length src"
  shows "r = i"
proof (rule antisym)
  show "r \<le> i" using assms(1-4) by (auto simp: lower_bound_at_def intro: ccontr)
  show "i \<le> r"
  proof (rule ccontr)
    assume "\<not> i \<le> r"
    then have "src ! r < t" using sorted_wrt_nth_less [OF assms(5), of r i] assms(3,4,6) by simp
    moreover have "r \<in> {r..<hi}" using \<open>\<not> i \<le> r\<close> assms(3) by simp
    ultimately show False using assms(1) unfolding lower_bound_at_def by (meson not_le)
  qed
qed

section \<open>Queries of the graph\<close>

text \<open>\<open>is_neighbor\<close>: the vertex of smaller degree is searched for the other one, with integer bounds.\<close>

function neighbor_loop :: "nat list \<Rightarrow> nat \<Rightarrow> int \<Rightarrow> int \<Rightarrow> bool" where
  "neighbor_loop nbrs u lo hi =
     (if lo \<le> hi then
        (let mid = lo + (hi - lo) div 2
         in if nbrs ! nat mid = u then True
            else if nbrs ! nat mid > u then neighbor_loop nbrs u lo (mid - 1)
            else neighbor_loop nbrs u (mid + 1) hi)
      else False)"
  by auto
termination by (relation "measure (\<lambda>(_, _, lo, hi). nat (hi - lo + 1))") auto

declare neighbor_loop.simps [simp del]

definition is_neighbor :: "graph \<Rightarrow> nat \<Rightarrow> nat \<Rightarrow> bool" where
  "is_neighbor g u v =
     (let (u, v) = (if gr_degree g ! u < gr_degree g ! v then (v, u) else (u, v))
      in neighbor_loop (neighbors g v) u 0 (int (gr_degree g ! v) - 1))"

definition neighbor_position :: "graph \<Rightarrow> nat \<Rightarrow> nat \<Rightarrow> nat" where
  "neighbor_position g u v = binary_search (neighbors g u) 0 (gr_degree g ! u) v"

definition edge_labels :: "graph \<Rightarrow> nat \<Rightarrow> u32 list" where
  "edge_labels g u = take (gr_degree g ! u) (drop (gr_offset g ! u) (gr_edge_label g))"

definition edge_weights :: "graph \<Rightarrow> nat \<Rightarrow> u64 list" where
  "edge_weights g u = take (gr_degree g ! u) (drop (gr_offset g ! u) (gr_edge_weight g))"

definition edge_label :: "graph \<Rightarrow> nat \<Rightarrow> nat \<Rightarrow> u32" where
  "edge_label g u v =
     (let (u, v) = (if gr_degree g ! v < gr_degree g ! u then (v, u) else (u, v))
      in gr_edge_label g ! (gr_offset g ! u + neighbor_position g u v))"

definition edge_weight :: "graph \<Rightarrow> nat \<Rightarrow> nat \<Rightarrow> u64" where
  "edge_weight g u v =
     (let (u, v) = (if gr_degree g ! v < gr_degree g ! u then (v, u) else (u, v))
      in gr_edge_weight g ! (gr_offset g ! u + neighbor_position g u v))"

text \<open>The partitions: the assertions are the \<open>None\<close> of the results.\<close>

definition get_partition :: "graph \<Rightarrow> int \<Rightarrow> (nat \<times> nat) option" where
  "get_partition g pid =
     (if 0 \<le> pid \<and> pid < int (num_partitions g)
      then Some (gr_partition_offset g ! nat pid, gr_partition_offset g ! (nat pid + 1)) else None)"

definition get_partition_size :: "graph \<Rightarrow> int \<Rightarrow> int option" where
  "get_partition_size g pid =
     (if 0 \<le> pid \<and> pid < int (num_partitions g)
      then Some (int (gr_partition_offset g ! (nat pid + 1)) - int (gr_partition_offset g ! nat pid)) else None)"

definition is_member :: "graph \<Rightarrow> nat \<Rightarrow> int \<Rightarrow> bool option" where
  "is_member g u pid =
     (if 0 \<le> pid \<and> pid < int (num_partitions g)
      then Some (gr_partition_offset g ! nat pid \<le> u \<and> u < gr_partition_offset g ! (nat pid + 1)) else None)"

text \<open>\<open>std::upper_bound\<close> on an ascending array: how many elements do not exceed the value.\<close>

definition get_pid :: "graph \<Rightarrow> nat \<Rightarrow> int" where
  "get_pid g u = int (length (takeWhile (\<lambda>x. x \<le> u) (take (num_partitions g) (gr_partition_offset g)))) - 1"

lemma neighbor_loop_result:
  assumes "sorted nbrs" "0 \<le> lo" "hi < int (length nbrs)"
    and "\<forall>i < length nbrs. int i < lo \<or> hi < int i \<longrightarrow> nbrs ! i \<noteq> u"
  shows "neighbor_loop nbrs u lo hi \<longleftrightarrow> u \<in> set nbrs"
  using assms(2-)
proof (induction "nat (hi - lo + 1)" arbitrary: lo hi rule: less_induct)
  case less
  show ?case
  proof (cases "lo \<le> hi")
    case False
    then have "\<forall>i < length nbrs. nbrs ! i \<noteq> u" using less.prems(3) by force
    then have "u \<notin> set nbrs" by (auto simp: in_set_conv_nth)
    with False show ?thesis by (simp add: neighbor_loop.simps)
  next
    case True
    let ?m = "lo + (hi - lo) div 2"
    have m: "lo \<le> ?m" "?m \<le> hi" "nat ?m < length nbrs" using True less.prems(1,2) by auto
    have mono: "nbrs ! i \<le> nbrs ! j" if "i \<le> j" "j < length nbrs" for i j
      using sorted_nth_mono [OF assms(1) that] .
    consider (eq) "nbrs ! nat ?m = u" | (gt) "u < nbrs ! nat ?m" | (lt) "nbrs ! nat ?m < u" by linarith
    then show ?thesis
    proof cases
      case eq
      then have "u \<in> set nbrs" using nth_mem [OF m(3)] by simp
      with eq True show ?thesis by (subst neighbor_loop.simps) (simp add: Let_def)
    next
      case gt
      have "\<forall>i < length nbrs. int i < lo \<or> ?m - 1 < int i \<longrightarrow> nbrs ! i \<noteq> u"
      proof (intro allI impI)
        fix i assume i: "i < length nbrs" "int i < lo \<or> ?m - 1 < int i"
        show "nbrs ! i \<noteq> u"
        proof (cases "int i < lo")
          case False
          with i have "nat ?m \<le> i" by linarith
          with mono [of "nat ?m" i] gt i(1) show ?thesis by simp
        qed (use less.prems(3) i in blast)
      qed
      moreover have "neighbor_loop nbrs u lo hi = neighbor_loop nbrs u lo (?m - 1)"
        using gt True by (subst neighbor_loop.simps) (simp add: Let_def)
      ultimately show ?thesis using less.hyps [of "?m - 1" lo] less.prems m by simp
    next
      case lt
      have "\<forall>i < length nbrs. int i < ?m + 1 \<or> hi < int i \<longrightarrow> nbrs ! i \<noteq> u"
      proof (intro allI impI)
        fix i assume i: "i < length nbrs" "int i < ?m + 1 \<or> hi < int i"
        show "nbrs ! i \<noteq> u"
        proof (cases "hi < int i")
          case False
          with i have "i \<le> nat ?m" by linarith
          with mono [of i "nat ?m"] lt m(3) show ?thesis by simp
        qed (use less.prems(3) i in blast)
      qed
      moreover have "neighbor_loop nbrs u lo hi = neighbor_loop nbrs u (?m + 1) hi"
        using lt True by (subst neighbor_loop.simps) (simp add: Let_def)
      ultimately show ?thesis using less.hyps [of hi "?m + 1"] less.prems m by simp
    qed
  qed
qed

lemma simple_graph_symmetric:
  "simple_graph g \<Longrightarrow> u < gr_num_vertices g \<Longrightarrow> v < gr_num_vertices g \<Longrightarrow>
    u \<in> set (neighbors g v) \<longleftrightarrow> v \<in> set (neighbors g u)"
  by (auto simp: simple_graph_def)

lemma length_slice:
  assumes "csr_ok g" "u < gr_num_vertices g" "length xs = gr_num_edges g"
  shows "length (take (gr_degree g ! u) (drop (gr_offset g ! u) xs)) = gr_degree g ! u"
    "gr_offset g ! u + gr_degree g ! u \<le> gr_num_edges g"
proof -
  have g: "length (gr_degree g) = gr_num_vertices g" "gr_offset g = offsets_of (gr_degree g)" "gr_num_edges g = sum_list (gr_degree g)"
    using assms(1) by (simp_all add: csr_ok_def)
  have "gr_offset g ! Suc u \<le> gr_num_edges g"
    using offsets_of_mono [of "Suc u" "length (gr_degree g)" "gr_degree g"] offsets_of_last [of "gr_degree g"] assms(2) g by simp
  then show a: "gr_offset g ! u + gr_degree g ! u \<le> gr_num_edges g" using offsets_of_Suc [of u "gr_degree g"] assms(2) g by simp
  then show "length (take (gr_degree g ! u) (drop (gr_offset g ! u) xs)) = gr_degree g ! u" using assms(3) by simp
qed

lemma length_neighbors: "csr_ok g \<Longrightarrow> u < gr_num_vertices g \<Longrightarrow> length (neighbors g u) = gr_degree g ! u"
  using length_slice(1) [of g u "gr_adj g"] by (simp add: neighbors_def csr_ok_def)

text \<open>The search answers whether there is an edge, from whichever side it is made.\<close>

lemma is_neighbor_result:
  assumes "simple_graph g" "u < gr_num_vertices g" "v < gr_num_vertices g"
  shows "is_neighbor g u v \<longleftrightarrow> v \<in> set (neighbors g u)"
proof -
  have "neighbor_loop (neighbors g w) x 0 (int (gr_degree g ! w) - 1) \<longleftrightarrow> x \<in> set (neighbors g w)"
    if "w < gr_num_vertices g" for w x
  proof (rule neighbor_loop_result)
    show "sorted (neighbors g w)" using assms(1) that by (auto simp: simple_graph_def intro: strict_sorted_imp_sorted)
  qed (use length_neighbors [of g w] that assms(1) in \<open>auto simp: simple_graph_def\<close>)
  then show ?thesis using assms simple_graph_symmetric [OF assms] by (simp add: is_neighbor_def)
qed

lemma neighbor_position_result:
  assumes "simple_graph g" "u < gr_num_vertices g" "i < gr_degree g ! u"
  shows "neighbor_position g u (neighbors g u ! i) = i"
proof -
  have l: "length (neighbors g u) = gr_degree g ! u" using length_neighbors assms by (simp add: simple_graph_def)
  have s: "sorted_wrt (<) (neighbors g u)" using assms by (simp add: simple_graph_def)
  show ?thesis
    unfolding neighbor_position_def
    by (rule lower_bound_at_unique [OF binary_search_result [OF s]]) (use l s assms(3) in simp_all)
qed

text \<open>
  The two copies of an edge carry the same label or weight.  Then the property of an edge
  read from the end of smaller degree is the one stored with the edge at either end.
\<close>

definition symmetric_values :: "graph \<Rightarrow> 'a list \<Rightarrow> bool" where
  "symmetric_values g xs \<longleftrightarrow>
     (\<forall>u < gr_num_vertices g. \<forall>i < gr_degree g ! u.
        \<forall>j < gr_degree g ! (neighbors g u ! i). neighbors g (neighbors g u ! i) ! j = u \<longrightarrow>
          xs ! (gr_offset g ! u + i) = xs ! (gr_offset g ! (neighbors g u ! i) + j))"

lemma edge_value_result:
  assumes "simple_graph g" "symmetric_values g xs" "u < gr_num_vertices g" "i < gr_degree g ! u" "v = neighbors g u ! i"
  shows "(let (u', v') = (if gr_degree g ! v < gr_degree g ! u then (v, u) else (u, v))
          in xs ! (gr_offset g ! u' + neighbor_position g u' v')) = xs ! (gr_offset g ! u + i)"
proof -
  have c: "csr_ok g" using assms(1) by (simp add: simple_graph_def)
  have v: "v \<in> set (neighbors g u)" using assms(4,5) length_neighbors [OF c assms(3)] by simp
  then have vn: "v < gr_num_vertices g" using c by (auto simp: csr_ok_def neighbors_def dest: in_set_takeD in_set_dropD)
  have "u \<in> set (neighbors g v)" using v assms(1,3) vn simple_graph_symmetric by blast
  then obtain j where j: "j < gr_degree g ! v" "neighbors g v ! j = u"
    using length_neighbors [OF c vn] by (auto simp: in_set_conv_nth)
  have "xs ! (gr_offset g ! u + i) = xs ! (gr_offset g ! v + j)"
    using assms(2,3,4,5) j by (auto simp: symmetric_values_def)
  moreover have "neighbor_position g u v = i" "neighbor_position g v u = j"
    using neighbor_position_result [OF assms(1,3,4)] neighbor_position_result [OF assms(1) vn j(1)] assms(5) j(2) by simp_all
  ultimately show ?thesis by simp
qed

lemma edge_label_result:
  assumes "simple_graph g" "symmetric_values g (gr_edge_label g)" "length (gr_edge_label g) = gr_num_edges g"
    "u < gr_num_vertices g" "i < gr_degree g ! u"
  shows "edge_label g u (neighbors g u ! i) = edge_labels g u ! i"
  using edge_value_result [OF assms(1,2,4,5) refl] length_slice(2) [of g u "gr_edge_label g"] assms
  by (simp add: edge_label_def edge_labels_def simple_graph_def)

lemma edge_weight_result:
  assumes "simple_graph g" "symmetric_values g (gr_edge_weight g)" "length (gr_edge_weight g) = gr_num_edges g"
    "u < gr_num_vertices g" "i < gr_degree g ! u"
  shows "edge_weight g u (neighbors g u ! i) = edge_weights g u ! i"
  using edge_value_result [OF assms(1,2,4,5) refl] length_slice(2) [of g u "gr_edge_weight g"] assms
  by (simp add: edge_weight_def edge_weights_def simple_graph_def)

section \<open>Prefix sums and splitting\<close>

definition sequential_prefix_sum :: "nat list \<Rightarrow> nat list \<Rightarrow> nat list" where
  "sequential_prefix_sum input_array output_array =
     fold (\<lambda>i out. out[i := out ! (i - 1) + input_array ! i]) [1..<length input_array] (output_array[0 := input_array ! 0])"

lemma sequential_prefix_sum_result:
  assumes "xs \<noteq> []" "length out = length xs"
  shows "sequential_prefix_sum xs out = map (\<lambda>i. sum_list (take (Suc i) xs)) [0..<length xs]"
proof -
  let ?f = "\<lambda>k. fold (\<lambda>i out. out[i := out ! (i - 1) + xs ! i]) [1..<k] (out[0 := xs ! 0])"
  have l: "length (?f k) = length xs" for k
    using assms(2) by (induction k) auto
  have "1 \<le> k \<Longrightarrow> k \<le> length xs \<Longrightarrow> \<forall>j < k. ?f k ! j = sum_list (take (Suc j) xs)" for k
  proof (induction k)
    case (Suc k)
    show ?case
    proof (cases "k = 0")
      case True
      then show ?thesis using assms by (simp add: take_Suc_conv_app_nth)
    next
      case False
      have u: "?f (Suc k) = (?f k)[k := ?f k ! (k - 1) + xs ! k]" using False by simp
      have IH: "\<forall>j < k. ?f k ! j = sum_list (take (Suc j) xs)" using Suc False by simp
      have p: "sum_list (take (Suc (k - 1)) xs) + xs ! k = sum_list (take (Suc k) xs)"
        using False Suc.prems by (simp add: take_Suc_conv_app_nth)
      show ?thesis
      proof (intro allI impI)
        fix j assume j: "j < Suc k"
        show "?f (Suc k) ! j = sum_list (take (Suc j) xs)"
        proof (cases "j = k")
          case True
          have "?f k ! (k - 1) = sum_list (take (Suc (k - 1)) xs)" using IH False by (simp del: take_Suc)
          then show ?thesis unfolding u using True l [of k] Suc.prems p by (simp only: nth_list_update_eq Suc_le_eq)
        next
          case F: False
          then show ?thesis unfolding u using IH j by (simp del: take_Suc)
        qed
      qed
    qed
  qed simp
  from this [of "length xs"] show ?thesis
    unfolding sequential_prefix_sum_def using assms l [of "length xs"]
    by (intro nth_equalityI) (simp_all add: Suc_le_eq del: take_Suc)
qed

text \<open>\<open>split\<close> with \<open>std::getline\<close>: there is no last token when the text ends with the delimiter.\<close>

fun getlines :: "char \<Rightarrow> string \<Rightarrow> string \<Rightarrow> string list" where
  "getlines d item [] = (if item = [] then [] else [item])"
| "getlines d item (c # s) = (if c = d then item # getlines d [] s else getlines d (item @ [c]) s)"

definition split_text :: "string \<Rightarrow> char \<Rightarrow> string list \<Rightarrow> string list" where
  "split_text s delimiter tokens = tokens @ getlines delimiter [] s"

lemma getlines_item: "d \<notin> set x \<Longrightarrow> getlines d item (x @ d # s) = (item @ x) # getlines d [] s"
  by (induction x arbitrary: item) auto

lemma getlines_last: "d \<notin> set x \<Longrightarrow> getlines d item x = (if item @ x = [] then [] else [item @ x])"
  by (induction x arbitrary: item) auto

lemma getlines_tokens:
  "\<forall>x \<in> set xs. d \<notin> set x \<Longrightarrow> getlines d [] (concat (map (\<lambda>x. x @ [d]) xs)) = xs"
  by (induction xs) (simp_all add: getlines_item)

text \<open>Tokens without the delimiter, each ended by it, are split again into themselves.\<close>

lemma split_text_result:
  assumes "\<forall>x \<in> set xs. d \<notin> set x" "d \<notin> set y" "y \<noteq> []"
  shows "split_text (concat (map (\<lambda>x. x @ [d]) xs) @ y) d tokens = tokens @ xs @ [y]"
  using assms unfolding split_text_def
  by (induction xs) (simp_all add: getlines_item getlines_last)

end
