(* ===== verification/Graph_Partition.thy ===== *)
theory Graph_Partition
  imports Graph_Search
begin

text \<open>
  Cutting the vertices into ranges and giving them new numbers
  (\<open>sequential_partition\<close> and \<open>relabel\<close> of \<open>host/xgraph/graph.cpp\<close>).
\<close>

section \<open>Sequential partition\<close>

definition partition_step :: "int \<Rightarrow> nat list \<Rightarrow> nat \<Rightarrow> nat list \<times> int \<Rightarrow> nat list \<times> int" where
  "partition_step target degree u st =
     (let local_sum = snd st + int (degree ! u)
      in if target < local_sum then (fst st @ [u], int (degree ! u)) else (fst st, local_sum))"

definition sequential_partition :: "int \<Rightarrow> graph \<Rightarrow> graph" where
  "sequential_partition target_num_edges_per_partition g =
     g\<lparr>gr_partition_offset :=
       fst (fold (partition_step target_num_edges_per_partition (gr_degree g)) [0..<gr_num_vertices g] ([0], 0)) @ [gr_num_vertices g]\<rparr>"

definition part_sum :: "nat list \<Rightarrow> nat \<Rightarrow> nat \<Rightarrow> int" where
  "part_sum ds a b = (\<Sum>i = a..<b. int (ds ! i))"

text \<open>What the loop knows after \<open>k\<close> vertices.\<close>

definition partition_inv :: "int \<Rightarrow> nat list \<Rightarrow> nat \<Rightarrow> nat list \<times> int \<Rightarrow> bool" where
  "partition_inv target ds k st \<longleftrightarrow>
     (let offs = fst st
      in offs \<noteq> [] \<and> hd offs = 0 \<and> sorted offs \<and> last offs \<le> k \<and> (k = 0 \<longrightarrow> length offs = 1) \<and>
         (0 < k \<longrightarrow> last offs < k) \<and> snd st = part_sum ds (last offs) k \<and>
         (snd st \<le> target \<or> k \<le> last offs + 1) \<and>
         (\<forall>i. Suc i < length offs \<longrightarrow>
            (part_sum ds (offs ! i) (offs ! Suc i) \<le> target \<or> offs ! Suc i \<le> offs ! i + 1) \<and>
            target < part_sum ds (offs ! i) (offs ! Suc i + 1)))"

lemma sorted_le_last: "sorted xs \<Longrightarrow> x \<in> set xs \<Longrightarrow> x \<le> last (xs :: nat list)"
  by (induction xs) (auto split: if_splits)

lemma sorted_snoc: "sorted xs \<Longrightarrow> xs \<noteq> [] \<Longrightarrow> last xs \<le> k \<Longrightarrow> sorted (xs @ [k :: nat])"
  by (auto simp: sorted_append dest: sorted_le_last)

lemma part_sum_Suc: "a \<le> k \<Longrightarrow> part_sum ds a (Suc k) = part_sum ds a k + int (ds ! k)"
  by (simp add: part_sum_def)

lemma part_sum_one: "part_sum ds k (Suc k) = int (ds ! k)"
  by (simp add: part_sum_def)

lemma partition_step_inv:
  assumes "partition_inv target ds k st"
  shows "partition_inv target ds (Suc k) (partition_step target ds k st)"
proof -
  obtain offs s where st: "st = (offs, s)" by (cases st)
  have i: "offs \<noteq> []" "hd offs = 0" "sorted offs" "last offs \<le> k" "s = part_sum ds (last offs) k"
    "0 < k \<Longrightarrow> last offs < k" "s \<le> target \<or> k \<le> last offs + 1"
    "\<And>i. Suc i < length offs \<Longrightarrow>
       (part_sum ds (offs ! i) (offs ! Suc i) \<le> target \<or> offs ! Suc i \<le> offs ! i + 1) \<and>
       target < part_sum ds (offs ! i) (offs ! Suc i + 1)"
    using assms unfolding partition_inv_def st Let_def fst_conv snd_conv by blast+
  have s: "s + int (ds ! k) = part_sum ds (last offs) (Suc k)" using i(4,5) by (simp add: part_sum_Suc)
  show ?thesis
  proof (cases "target < s + int (ds ! k)")
    case False
    then have "partition_step target ds k st = (offs, s + int (ds ! k))" by (simp add: partition_step_def st Let_def)
    moreover have "partition_inv target ds (Suc k) (offs, s + int (ds ! k))"
      unfolding partition_inv_def using i s False by (auto simp: Let_def)
    ultimately show ?thesis by simp
  next
    case True
    then have p: "partition_step target ds k st = (offs @ [k], int (ds ! k))" by (simp add: partition_step_def st Let_def)
    have l: "(part_sum ds ((offs @ [k]) ! j) ((offs @ [k]) ! Suc j) \<le> target \<or> (offs @ [k]) ! Suc j \<le> (offs @ [k]) ! j + 1) \<and>
        target < part_sum ds ((offs @ [k]) ! j) ((offs @ [k]) ! Suc j + 1)"
      if "Suc j < length (offs @ [k])" for j
    proof (cases "Suc j < length offs")
      case True
      then show ?thesis using i(8) [OF True] by (simp add: nth_append)
    next
      case F: False
      with that have j: "Suc j = length offs" by simp
      then have "(offs @ [k]) ! j = last offs" "(offs @ [k]) ! Suc j = k"
        using i(1) by (simp_all add: nth_append last_conv_nth flip: j)
      then show ?thesis using True s i(5,7) by auto
    qed
    have "sorted (offs @ [k])" using i(1,3,4) by (simp add: sorted_snoc)
    with i(1,2) l show ?thesis
      unfolding p partition_inv_def by (simp add: Let_def part_sum_one)
  qed
qed

lemma partition_fold_inv: "partition_inv target ds k (fold (partition_step target ds) [0..<k] ([0], 0))"
proof (induction k)
  case 0
  then show ?case by (simp add: partition_inv_def part_sum_def)
next
  case (Suc k)
  from partition_step_inv [OF this] show ?case by simp
qed

text \<open>
  The ranges ascend from \<open>0\<close> to the number of vertices.  A range stays within the target
  or has one vertex, and with the next vertex it would exceed the target.
\<close>

lemma sequential_partition_result:
  fixes g target
  defines "offs \<equiv> gr_partition_offset (sequential_partition target g)"
  shows "sorted offs \<and> hd offs = 0 \<and> last offs = gr_num_vertices g \<and> 2 \<le> length offs \<and>
    (\<forall>i. Suc i < length offs \<longrightarrow> part_sum (gr_degree g) (offs ! i) (offs ! Suc i) \<le> target \<or> offs ! Suc i \<le> offs ! i + 1) \<and>
    (\<forall>i. Suc (Suc i) < length offs \<longrightarrow> target < part_sum (gr_degree g) (offs ! i) (offs ! Suc i + 1))"
proof -
  let ?n = "gr_num_vertices g"
  obtain xs s where f: "fold (partition_step target (gr_degree g)) [0..<?n] ([0], 0) = (xs, s)"
    by (cases "fold (partition_step target (gr_degree g)) [0..<?n] ([0], 0)")
  have o: "offs = xs @ [?n]" unfolding offs_def sequential_partition_def f by simp
  have i: "xs \<noteq> []" "hd xs = 0" "sorted xs" "last xs \<le> ?n" "s = part_sum (gr_degree g) (last xs) ?n"
    "s \<le> target \<or> ?n \<le> last xs + 1"
    "\<And>i. Suc i < length xs \<Longrightarrow>
       (part_sum (gr_degree g) (xs ! i) (xs ! Suc i) \<le> target \<or> xs ! Suc i \<le> xs ! i + 1) \<and>
       target < part_sum (gr_degree g) (xs ! i) (xs ! Suc i + 1)"
    using partition_fold_inv [of target "gr_degree g" ?n] unfolding f partition_inv_def Let_def fst_conv snd_conv by blast+
  have "sorted offs" unfolding o using i(1,3,4) by (simp add: sorted_snoc)
  moreover have "part_sum (gr_degree g) (offs ! j) (offs ! Suc j) \<le> target \<or> offs ! Suc j \<le> offs ! j + 1"
    if "Suc j < length offs" for j
  proof (cases "Suc j < length xs")
    case True
    then show ?thesis using i(7) [OF True] by (simp add: o nth_append)
  next
    case F: False
    with that have j: "Suc j = length xs" by (simp add: o)
    then have "offs ! j = last xs" "offs ! Suc j = ?n" using i(1) by (simp_all add: o nth_append last_conv_nth flip: j)
    then show ?thesis using i(5,6) by auto
  qed
  moreover have "target < part_sum (gr_degree g) (offs ! j) (offs ! Suc j + 1)" if "Suc (Suc j) < length offs" for j
    using i(7) [of j] that by (simp add: o nth_append)
  moreover have "2 \<le> length offs" using i(1) by (cases xs) (simp_all add: o)
  ultimately show ?thesis using i(1,2) by (simp add: o)
qed

text \<open>Every vertex is a member of the range that \<open>get_pid\<close> names.\<close>

lemma get_pid_member:
  assumes "sorted (gr_partition_offset g)" "gr_partition_offset g \<noteq> []" "hd (gr_partition_offset g) \<le> u"
    "u < last (gr_partition_offset g)"
  shows "is_member g u (get_pid g u) = Some True"
proof -
  let ?offs = "gr_partition_offset g" and ?m = "num_partitions g"
  have m: "length ?offs = Suc ?m" using assms(2) by (cases ?offs) (simp_all add: num_partitions_def)
  have "0 < ?m"
  proof (rule ccontr)
    assume "\<not> 0 < ?m"
    then obtain x where "?offs = [x]" using m by (cases ?offs) auto
    with assms(3,4) show False by simp
  qed
  let ?t = "takeWhile (\<lambda>x. x \<le> u) (take ?m ?offs)"
  have "take ?m ?offs = hd ?offs # tl (take ?m ?offs)" using \<open>0 < ?m\<close> assms(2) by (cases ?offs; cases ?m) simp_all
  then have t0: "0 < length ?t" using assms(3) by (metis takeWhile.simps(2) length_greater_0_conv list.simps(3))
  have tm: "length ?t \<le> ?m" using length_takeWhile_le [of "\<lambda>x. x \<le> u" "take ?m ?offs"] by simp
  have "?t ! (length ?t - 1) \<in> set ?t" using t0 by simp
  then have "?t ! (length ?t - 1) \<le> u" by (blast dest: set_takeWhileD)
  then have lo: "?offs ! (length ?t - 1) \<le> u" using t0 tm m by (simp add: takeWhile_nth)
  have hi: "u < ?offs ! length ?t"
  proof (cases "length ?t = ?m")
    case True
    then show ?thesis using assms(2,4) m by (simp add: last_conv_nth)
  next
    case False
    then have "length ?t < length (take ?m ?offs)" using tm m by simp
    from nth_length_takeWhile [OF this] False tm m show ?thesis by simp
  qed
  have n: "nat (int (length ?t) - 1) = length ?t - 1" "nat (int (length ?t) - 1) + 1 = length ?t" using t0 by arith+
  show ?thesis
    unfolding is_member_def get_pid_def n using t0 tm lo hi by simp
qed

lemma sequential_partition_pid:
  assumes "u < gr_num_vertices g"
  shows "is_member (sequential_partition target g) u (get_pid (sequential_partition target g) u) = Some True"
proof -
  note r = sequential_partition_result [of target g]
  then have "gr_partition_offset (sequential_partition target g) \<noteq> []" by force
  with r assms show ?thesis by (intro get_pid_member) simp_all
qed

end
