(* ===== verification/Graph_Relabel.thy ===== *)
theory Graph_Relabel
  imports Graph_Search
begin

text \<open>
  New numbers for the vertices (\<open>relabel\<close> of \<open>host/xgraph/graph.cpp\<close>): \<open>new_to_old\<close> gives for
  each new vertex the old one; the degrees, the adjacency lists, and the labels and weights
  follow it.
\<close>

definition invert_order :: "nat list \<Rightarrow> nat \<Rightarrow> nat list" where
  "invert_order new_to_old n = fold (\<lambda>new_id o2n. o2n[new_to_old ! new_id := new_id]) [0..<n] (replicate n 0)"

text \<open>
  The lists of the new vertices one behind the other, each element \<open>old[i]\<close> converted by
  \<open>conv\<close>; they overwrite the front of the array.
\<close>

definition gather_slices :: "nat list \<Rightarrow> nat list \<Rightarrow> nat list \<Rightarrow> ('a \<Rightarrow> 'a) \<Rightarrow> 'a list \<Rightarrow> 'a list" where
  "gather_slices offset degree new_to_old conv old =
     (let new = concat (map (\<lambda>new_id. map (\<lambda>i. conv (old ! i))
            [offset ! (new_to_old ! new_id)..<offset ! (new_to_old ! new_id) + degree ! new_id]) [0..<length degree])
      in new @ drop (length new) old)"

text \<open>A loop over the vertices that replaces the part of the array that belongs to each.\<close>

definition slice_loop :: "(nat \<Rightarrow> 'a list \<Rightarrow> 'a list) \<Rightarrow> nat list \<Rightarrow> nat list \<Rightarrow> 'a list \<Rightarrow> 'a list" where
  "slice_loop f offset degree a =
     fold (\<lambda>u a. copy_at (f u (take (degree ! u) (drop (offset ! u) a))) (offset ! u) a) [0..<length degree] a"

text \<open>The positions \<open>0, 1, ...\<close> in the order of the neighbours there; then the values are taken in that order.\<close>

definition sort_index :: "nat list \<Rightarrow> nat list" where
  "sort_index nbrs = sort_key (\<lambda>i. nbrs ! i) [0..<length nbrs]"

definition sort_values :: "nat list \<Rightarrow> nat list \<Rightarrow> nat list \<Rightarrow> 'a list \<Rightarrow> 'a list" where
  "sort_values offset degree adj =
     slice_loop (\<lambda>u old. map (\<lambda>i. old ! i) (sort_index (take (degree ! u) (drop (offset ! u) adj)))) offset degree"

definition relabel :: "nat list \<Rightarrow> graph \<Rightarrow> graph_error + graph" where
  "relabel new_to_old g =
     (let n = gr_num_vertices g;
          degree = map (\<lambda>new_id. gr_degree g ! (new_to_old ! new_id)) [0..<n];
          fl = gr_flags g;
          edge_props = is_edge_labeled fl \<or> is_edge_weighted fl
      in if length new_to_old < n \<or> (\<exists>v \<in> set (take n new_to_old). n \<le> v) \<or> gr_num_edges g < sum_list degree \<or>
           edge_props \<and> (\<exists>d \<in> set degree. gr_max_degree g < d) then Inl Out_Of_Bounds
         else
           (let old_to_new = invert_order new_to_old n;
                offset = offset_loop degree;
                adj = gather_slices (gr_offset g) degree new_to_old (\<lambda>v. old_to_new ! v) (gr_adj g);
                lab = gather_slices (gr_offset g) degree new_to_old id (gr_edge_label g);
                wgt = gather_slices (gr_offset g) degree new_to_old id (gr_edge_weight g)
            in Inr (g\<lparr>gr_degree := degree,
                 gr_vertex_label := (if is_vertex_labeled fl then map (\<lambda>new_id. gr_vertex_label g ! (new_to_old ! new_id)) [0..<n]
                                     else gr_vertex_label g),
                 gr_vertex_weight := (if is_vertex_weighted fl then map (\<lambda>new_id. gr_vertex_weight g ! (new_to_old ! new_id)) [0..<n]
                                      else gr_vertex_weight g),
                 gr_edge_label := (if is_edge_labeled fl then sort_values offset degree adj lab else gr_edge_label g),
                 gr_edge_weight := (if is_edge_weighted fl then sort_values offset degree adj wgt else gr_edge_weight g),
                 gr_offset := offset,
                 gr_adj := slice_loop (\<lambda>_. sort) offset degree adj\<rparr>)))"

section \<open>The loops\<close>

lemma copy_at_middle: "length y = length x \<Longrightarrow> copy_at y (length A) (A @ x @ B) = A @ y @ B"
  by (simp add: copy_at_def)

text \<open>On a concatenation of lists the loop replaces each list.\<close>

lemma slice_loop_concat:
  assumes "\<And>u. u < length xss \<Longrightarrow> length (f u (xss ! u)) = length (xss ! u)"
  shows "slice_loop f (offsets_of (map length xss)) (map length xss) (concat xss) =
    concat (map (\<lambda>u. f u (xss ! u)) [0..<length xss])"
proof -
  let ?o = "offsets_of (map length xss)"
  let ?step = "\<lambda>u a. copy_at (f u (take (map length xss ! u) (drop (?o ! u) a))) (?o ! u) a"
  have "k \<le> length xss \<Longrightarrow>
      fold ?step [0..<k] (concat xss) = concat (map (\<lambda>u. f u (xss ! u)) [0..<k]) @ concat (drop k xss)" for k
  proof (induction k)
    case (Suc k)
    let ?A = "concat (map (\<lambda>u. f u (xss ! u)) [0..<k])"
    have k: "k < length xss" using Suc.prems by simp
    have "map length (map (\<lambda>u. f u (xss ! u)) [0..<k]) = take k (map length xss)"
      using k assms by (intro nth_equalityI) simp_all
    then have o: "?o ! k = length ?A" using k by (simp add: offsets_of_nth length_concat)
    have d: "concat (drop k xss) = xss ! k @ concat (drop (Suc k) xss)" using k by (simp flip: Cons_nth_drop_Suc)
    have IH: "fold ?step [0..<k] (concat xss) = ?A @ xss ! k @ concat (drop (Suc k) xss)" using Suc d by simp
    have t: "take (map length xss ! k) (drop (?o ! k) (?A @ xss ! k @ concat (drop (Suc k) xss))) = xss ! k"
      unfolding o using k by simp
    have "fold ?step [0..<Suc k] (concat xss) = ?step k (?A @ xss ! k @ concat (drop (Suc k) xss))" by (simp add: IH)
    also have "\<dots> = copy_at (f k (xss ! k)) (length ?A) (?A @ xss ! k @ concat (drop (Suc k) xss))" unfolding t unfolding o ..
    also have "\<dots> = ?A @ f k (xss ! k) @ concat (drop (Suc k) xss)" using assms [OF k] by (rule copy_at_middle)
    finally show ?case by simp
  qed simp
  from this [of "length xss"] show ?thesis by (simp add: slice_loop_def)
qed

lemma map_nth_slice: "a + d \<le> length xs \<Longrightarrow> map (\<lambda>i. h (xs ! i)) [a..<a + d] = map h (take d (drop a xs))"
  by (intro nth_equalityI) simp_all

lemma invert_order_nth:
  assumes "distinct p" "length p = n" "\<forall>v \<in> set p. v < n" "i < n"
  shows "invert_order p n ! (p ! i) = i"
proof -
  let ?f = "\<lambda>k. fold (\<lambda>new_id o2n. o2n[p ! new_id := new_id]) [0..<k] (replicate n 0)"
  have l: "length (?f k) = n" for k by (induction k) simp_all
  have "k \<le> n \<Longrightarrow> \<forall>j < k. ?f k ! (p ! j) = j" for k
  proof (induction k)
    case (Suc k)
    show ?case
    proof (intro allI impI)
      fix j assume j: "j < Suc k"
      have pk: "p ! k < length (?f k)" using assms(2,3) Suc.prems l by simp
      show "?f (Suc k) ! (p ! j) = j"
      proof (cases "j = k")
        case True
        then show ?thesis using pk by simp
      next
        case False
        then have "p ! k \<noteq> p ! j" using j Suc.prems assms(1,2) by (simp add: nth_eq_iff_index_eq)
        with False j Suc show ?thesis by simp
      qed
    qed
  qed simp
  from this [of n] show ?thesis using assms(4) by (simp add: invert_order_def)
qed

lemma sort_by_index: "sort nbrs = map (\<lambda>i. nbrs ! i) (sort_index nbrs)"
proof (rule properties_for_sort)
  have "mset (map ((!) nbrs) (sort_index nbrs)) = mset (map ((!) nbrs) [0..<length nbrs])" by (simp add: sort_index_def)
  also have "\<dots> = mset nbrs" by (simp only: map_nth)
  finally show "mset (map (\<lambda>i. nbrs ! i) (sort_index nbrs)) = mset nbrs" .
  show "sorted (map (\<lambda>i. nbrs ! i) (sort_index nbrs))" by (simp add: sort_index_def)
qed

lemma length_sort_index [simp]: "length (sort_index nbrs) = length nbrs"
  by (simp add: sort_index_def)

lemma set_sort_index: "set (sort_index nbrs) = {..<length nbrs}"
  by (simp add: sort_index_def atLeast0LessThan)

lemma zip_map_both: "zip (map f xs) (map h xs) = map (\<lambda>x. (f x, h x)) xs"
  by (induction xs) simp_all

text \<open>Pairs keep their partner when the neighbours and their values are reordered alike.\<close>

lemma zip_sorted_mset:
  assumes "length ls = length xs" "\<forall>x \<in> set xs. back_to (conv x) = x"
  shows "mset (zip (map back_to (sort (map conv xs))) (map (\<lambda>i. ls ! i) (sort_index (map conv xs)))) = mset (zip xs ls)"
proof -
  let ?i = "sort_index (map conv xs)"
  have e: "map back_to (sort (map conv xs)) = map (\<lambda>i. xs ! i) ?i"
    unfolding sort_by_index map_map using assms(2) set_sort_index [of "map conv xs"] by (intro map_cong refl) simp
  have "mset (zip (map (\<lambda>i. xs ! i) ?i) (map (\<lambda>i. ls ! i) ?i)) = image_mset (\<lambda>i. (xs ! i, ls ! i)) (mset ?i)"
    by (simp add: zip_map_both)
  also have "mset ?i = mset [0..<length xs]" by (simp add: sort_index_def)
  also have "image_mset (\<lambda>i. (xs ! i, ls ! i)) (mset [0..<length xs]) = mset (map (\<lambda>i. (xs ! i, ls ! i)) [0..<length xs])"
    by (simp only: mset_map)
  also have "map (\<lambda>i. (xs ! i, ls ! i)) [0..<length xs] = zip xs ls"
    using assms(1) by (intro nth_equalityI) simp_all
  finally show ?thesis by (simp only: e)
qed

section \<open>The relabelled graph\<close>

text \<open>What a caller of \<open>relabel\<close> provides.\<close>

definition relabel_ok :: "nat list \<Rightarrow> graph \<Rightarrow> bool" where
  "relabel_ok p g \<longleftrightarrow> mset p = mset [0..<gr_num_vertices g] \<and> (\<forall>d \<in> set (gr_degree g). d \<le> gr_max_degree g) \<and>
     (is_edge_labeled (gr_flags g) \<longrightarrow> length (gr_edge_label g) = gr_num_edges g) \<and>
     (is_edge_weighted (gr_flags g) \<longrightarrow> length (gr_edge_weight g) = gr_num_edges g)"

text \<open>The lists of an array of edge values.\<close>

definition slice_of :: "graph \<Rightarrow> 'a list \<Rightarrow> nat \<Rightarrow> 'a list" where
  "slice_of g xs u = take (gr_degree g ! u) (drop (gr_offset g ! u) xs)"

lemma slice_folds: "slice_of g (gr_adj g) u = neighbors g u" "slice_of g (gr_edge_label g) u = edge_labels g u"
  "slice_of g (gr_edge_weight g) u = edge_weights g u"
  by (simp_all add: slice_of_def neighbors_def edge_labels_def edge_weights_def)

lemma length_slices:
  "csr_ok g \<Longrightarrow> u < gr_num_vertices g \<Longrightarrow> length xs = gr_num_edges g \<Longrightarrow> length (slice_of g xs u) = gr_degree g ! u"
  unfolding slice_of_def by (rule length_slice(1))

lemma permutation_facts:
  assumes "mset p = mset [0..<n]"
  shows "length p = n" "set p = {..<n}" "distinct p" "i < n \<Longrightarrow> p ! i < n"
proof -
  show l: "length p = n" using mset_eq_length [OF assms] by simp
  show s: "set p = {..<n}" using mset_eq_setD [OF assms] by (simp add: atLeast0LessThan)
  show "distinct p" using mset_eq_imp_distinct_iff [OF assms] by simp
  show "i < n \<Longrightarrow> p ! i < n" using s l nth_mem [of i p] by simp
qed

text \<open>The gathered array is the concatenation of the old lists in the new order.\<close>

lemma gather_slices_concat:
  assumes "csr_ok g" "mset p = mset [0..<gr_num_vertices g]" "length xs = gr_num_edges g"
  shows "gather_slices (gr_offset g) (map (\<lambda>u. gr_degree g ! (p ! u)) [0..<gr_num_vertices g]) p conv xs =
    concat (map (\<lambda>u. map conv (slice_of g xs (p ! u))) [0..<gr_num_vertices g])"
proof -
  let ?n = "gr_num_vertices g"
  let ?d = "map (\<lambda>u. gr_degree g ! (p ! u)) [0..<?n]"
  note pf = permutation_facts [OF assms(2)]
  have part: "map (\<lambda>i. conv (xs ! i)) [gr_offset g ! (p ! u)..<gr_offset g ! (p ! u) + ?d ! u] = map conv (slice_of g xs (p ! u))"
    if "u < ?n" for u
    using length_slice(2) [OF assms(1) pf(4) [OF that] assms(3)] that assms(3) by (simp add: slice_of_def map_nth_slice)
  have c: "concat (map (\<lambda>u. map (\<lambda>i. conv (xs ! i)) [gr_offset g ! (p ! u)..<gr_offset g ! (p ! u) + ?d ! u]) [0..<length ?d]) =
      concat (map (\<lambda>u. map conv (slice_of g xs (p ! u))) [0..<?n])"
    using part by (intro arg_cong [where f = concat] map_cong) simp_all
  have "sum_list ?d = sum_list (gr_degree g)"
  proof -
    have "?d = map (\<lambda>v. gr_degree g ! v) p" using pf(1) by (intro nth_equalityI) simp_all
    also have "mset \<dots> = mset (map (\<lambda>v. gr_degree g ! v) [0..<?n])" using assms(2) by simp
    also have "map (\<lambda>v. gr_degree g ! v) [0..<?n] = gr_degree g" using assms(1) by (intro nth_equalityI) (simp_all add: csr_ok_def)
    finally have "mset ?d = mset (gr_degree g)" .
    then show ?thesis by (metis sum_mset_sum_list)
  qed
  moreover have "length (concat (map (\<lambda>u. map conv (slice_of g xs (p ! u))) [0..<?n])) = sum_list ?d"
    unfolding length_concat map_map comp_def length_map
    using length_slices [OF assms(1) pf(4) assms(3)] by (intro arg_cong [where f = sum_list] map_cong) simp_all
  ultimately have "length xs \<le> length (concat (map (\<lambda>u. map conv (slice_of g xs (p ! u))) [0..<?n]))"
    using assms(1,3) by (simp add: csr_ok_def)
  then show ?thesis unfolding gather_slices_def c Let_def by simp
qed

lemma sort_values_concat:
  assumes "map length yss = map length xss"
  shows "sort_values (offsets_of (map length xss)) (map length xss) (concat xss) (concat yss) =
    concat (map (\<lambda>u. map (\<lambda>i. yss ! u ! i) (sort_index (xss ! u))) [0..<length xss])"
proof -
  have l: "length yss = length xss" using map_eq_imp_length_eq [OF assms] .
  have e: "length (xss ! u) = length (yss ! u)" if "u < length xss" for u
    using arg_cong [OF assms, of "\<lambda>zs. zs ! u"] that l by simp
  let ?f = "\<lambda>u (old :: 'a list). map (\<lambda>i. old ! i)
      (sort_index (take (map length xss ! u) (drop (offsets_of (map length xss) ! u) (concat xss))))"
  have f: "?f u (yss ! u) = map (\<lambda>i. yss ! u ! i) (sort_index (xss ! u))" if "u < length xss" for u
    by (simp only: concat_slice [OF that])
  have "sort_values (offsets_of (map length xss)) (map length xss) (concat xss) (concat yss) =
      slice_loop ?f (offsets_of (map length yss)) (map length yss) (concat yss)"
    by (simp only: sort_values_def assms)
  also have "\<dots> = concat (map (\<lambda>u. ?f u (yss ! u)) [0..<length yss])"
    by (rule slice_loop_concat) (simp only: l f length_map length_sort_index e)
  also have "\<dots> = concat (map (\<lambda>u. map (\<lambda>i. yss ! u ! i) (sort_index (xss ! u))) [0..<length xss])"
    unfolding l by (intro arg_cong [where f = concat] map_cong refl f) simp
  finally show ?thesis .
qed

lemma sorted_distinct_strict: "distinct xs \<Longrightarrow> sorted_wrt (<) (sort (xs :: nat list))"
  by (simp add: strict_sorted_iff)

definition relabelled_lists :: "nat list \<Rightarrow> graph \<Rightarrow> nat list list" where
  "relabelled_lists p g =
     map (\<lambda>u. map (\<lambda>v. invert_order p (gr_num_vertices g) ! v) (neighbors g (p ! u))) [0..<gr_num_vertices g]"

lemma neighbors_less: "csr_ok g \<Longrightarrow> v \<in> set (neighbors g u) \<Longrightarrow> v < gr_num_vertices g"
  by (auto simp: csr_ok_def neighbors_def dest: in_set_takeD in_set_dropD)

lemma invert_order_inverse:
  assumes "mset p = mset [0..<n]" "i < n"
  shows "invert_order p n ! (p ! i) = i" "p ! (invert_order p n ! i) = i" "invert_order p n ! i < n"
proof -
  note pf = permutation_facts [OF assms(1)]
  have o2n: "invert_order p n ! (p ! j) = j" if "j < n" for j
    using invert_order_nth [OF pf(3,1)] pf(2) that by auto
  then show "invert_order p n ! (p ! i) = i" using assms(2) .
  from assms(2) pf(2) have "i \<in> set p" by simp
  then obtain j where "j < n" "i = p ! j" using pf(1) by (auto simp: in_set_conv_nth)
  with o2n show "p ! (invert_order p n ! i) = i" "invert_order p n ! i < n" by simp_all
qed

lemma relabelled_degrees:
  assumes "csr_ok g" "mset p = mset [0..<gr_num_vertices g]"
  shows "map (\<lambda>u. gr_degree g ! (p ! u)) [0..<gr_num_vertices g] = map length (relabelled_lists p g)"
  using length_neighbors [OF assms(1) permutation_facts(4) [OF assms(2)]]
  by (intro nth_equalityI) (simp_all add: relabelled_lists_def)

lemma relabelled_adj:
  assumes "csr_ok g" "mset p = mset [0..<gr_num_vertices g]"
  shows "gather_slices (gr_offset g) (map length (relabelled_lists p g)) p (\<lambda>v. invert_order p (gr_num_vertices g) ! v) (gr_adj g) =
    concat (relabelled_lists p g)"
  using gather_slices_concat [OF assms, of "gr_adj g"] assms(1)
  unfolding relabelled_degrees [OF assms] by (simp add: relabelled_lists_def csr_ok_def slice_folds)

text \<open>The values of the edges of a new vertex, beside its sorted neighbours.\<close>

lemma relabelled_values:
  assumes "csr_ok g" "mset p = mset [0..<gr_num_vertices g]" "length vals = gr_num_edges g" "u < gr_num_vertices g"
  defines "ds \<equiv> map length (relabelled_lists p g)"
  shows "mset (zip (map (\<lambda>v. p ! v) (sort (relabelled_lists p g ! u)))
      (take (ds ! u) (drop (offsets_of ds ! u)
        (sort_values (offsets_of ds) ds (concat (relabelled_lists p g)) (gather_slices (gr_offset g) ds p id vals))))) =
    mset (zip (neighbors g (p ! u)) (slice_of g vals (p ! u)))"
proof -
  let ?n = "gr_num_vertices g" and ?xss = "relabelled_lists p g"
  let ?yss = "map (\<lambda>u. slice_of g vals (p ! u)) [0..<?n]"
  let ?zss = "map (\<lambda>u. map (\<lambda>i. ?yss ! u ! i) (sort_index (?xss ! u))) [0..<length ?xss]"
  note pf = permutation_facts [OF assms(2)]
  have n: "length ?xss = ?n" by (simp add: relabelled_lists_def)
  have y: "map length ?yss = ds"
    using length_slices [OF assms(1) pf(4) assms(3)] length_neighbors [OF assms(1) pf(4)]
    by (intro nth_equalityI) (simp_all add: relabelled_lists_def ds_def)
  have g: "gather_slices (gr_offset g) ds p id vals = concat ?yss"
    using gather_slices_concat [OF assms(1-3), of id] by (simp add: relabelled_degrees [OF assms(1,2)] ds_def)
  have z: "map length ?zss = ds" by (intro nth_equalityI) (simp_all add: ds_def)
  have "sort_values (offsets_of ds) ds (concat ?xss) (gather_slices (gr_offset g) ds p id vals) = concat ?zss"
    unfolding g by (rule sort_values_concat [OF y [unfolded ds_def], folded ds_def])
  then have "take (ds ! u) (drop (offsets_of ds ! u)
        (sort_values (offsets_of ds) ds (concat ?xss) (gather_slices (gr_offset g) ds p id vals))) = ?zss ! u"
    using concat_slice [of u ?zss] assms(4) n unfolding z by simp
  also have "?zss ! u = map (\<lambda>i. slice_of g vals (p ! u) ! i) (sort_index (?xss ! u))" using assms(4) n by simp
  also have "?xss ! u = map (\<lambda>v. invert_order p ?n ! v) (neighbors g (p ! u))" using assms(4) by (simp add: relabelled_lists_def)
  finally show ?thesis
  proof (rule ssubst)
    have "mset (zip (map (\<lambda>v. p ! v) (sort (map (\<lambda>v. invert_order p ?n ! v) (neighbors g (p ! u)))))
        (map (\<lambda>i. slice_of g vals (p ! u) ! i) (sort_index (map (\<lambda>v. invert_order p ?n ! v) (neighbors g (p ! u)))))) =
      mset (zip (neighbors g (p ! u)) (slice_of g vals (p ! u)))"
    proof (rule zip_sorted_mset)
      show "length (slice_of g vals (p ! u)) = length (neighbors g (p ! u))"
        using length_slices [OF assms(1) pf(4) assms(3)] length_neighbors [OF assms(1) pf(4)] assms(4) by simp
      show "\<forall>x \<in> set (neighbors g (p ! u)). p ! (invert_order p ?n ! x) = x"
        using invert_order_inverse(2) [OF assms(2)] neighbors_less [OF assms(1)] by blast
    qed
    then show "mset (zip (map (\<lambda>v. p ! v) (sort (?xss ! u)))
        (map (\<lambda>i. slice_of g vals (p ! u) ! i) (sort_index (map (\<lambda>v. invert_order p ?n ! v) (neighbors g (p ! u)))))) =
      mset (zip (neighbors g (p ! u)) (slice_of g vals (p ! u)))"
      using assms(4) by (simp add: relabelled_lists_def)
  qed
qed

text \<open>
  Relabelling by a permutation keeps a simple graph simple; each new vertex has the degree,
  the label and the weight of its old one, and its neighbours, read as old vertices, are
  the old neighbours with the labels and weights they had.
\<close>

lemma relabel_result:
  assumes "simple_graph g" "relabel_ok p g"
  shows "\<exists>g'. relabel p g = Inr g' \<and> simple_graph g' \<and> gr_num_vertices g' = gr_num_vertices g \<and> gr_flags g' = gr_flags g \<and>
    (\<forall>u < gr_num_vertices g. gr_degree g' ! u = gr_degree g ! (p ! u) \<and>
       mset (map (\<lambda>v. p ! v) (neighbors g' u)) = mset (neighbors g (p ! u)) \<and>
       (is_vertex_labeled (gr_flags g) \<longrightarrow> gr_vertex_label g' ! u = gr_vertex_label g ! (p ! u)) \<and>
       (is_vertex_weighted (gr_flags g) \<longrightarrow> gr_vertex_weight g' ! u = gr_vertex_weight g ! (p ! u)) \<and>
       (is_edge_labeled (gr_flags g) \<longrightarrow>
          mset (zip (map (\<lambda>v. p ! v) (neighbors g' u)) (edge_labels g' u)) = mset (zip (neighbors g (p ! u)) (edge_labels g (p ! u)))) \<and>
       (is_edge_weighted (gr_flags g) \<longrightarrow>
          mset (zip (map (\<lambda>v. p ! v) (neighbors g' u)) (edge_weights g' u)) = mset (zip (neighbors g (p ! u)) (edge_weights g (p ! u)))))"
proof -
  let ?n = "gr_num_vertices g" and ?fl = "gr_flags g" and ?xss = "relabelled_lists p g"
  let ?ds = "map length ?xss"
  have c: "csr_ok g" using assms(1) by (simp add: simple_graph_def)
  have perm: "mset p = mset [0..<?n]" using assms(2) by (simp add: relabel_ok_def)
  note pf = permutation_facts [OF perm] and inv = invert_order_inverse [OF perm]
  have n: "length ?xss = ?n" by (simp add: relabelled_lists_def)
  have gd: "length (gr_degree g) = ?n" "sum_list (gr_degree g) = gr_num_edges g" using c by (simp_all add: csr_ok_def)
  have x: "?xss ! u = map (\<lambda>v. invert_order p ?n ! v) (neighbors g (p ! u))" if "u < ?n" for u
    using that by (simp add: relabelled_lists_def)
  let ?adj = "concat (map sort ?xss)"
  have adj: "slice_loop (\<lambda>_. sort) (offsets_of ?ds) ?ds (concat ?xss) = ?adj"
    unfolding slice_loop_concat [of ?xss "\<lambda>_. sort", OF length_sort]
    by (intro arg_cong [where f = concat] nth_equalityI) simp_all
  have ds: "?ds ! u = gr_degree g ! (p ! u)" if "u < ?n" for u
    using relabelled_degrees [OF c perm] that by (metis (no_types, lifting) diff_zero length_upt nth_map_upt add_0)
  let ?lab = "gather_slices (gr_offset g) ?ds p id (gr_edge_label g)"
  let ?wgt = "gather_slices (gr_offset g) ?ds p id (gr_edge_weight g)"
  define g' where "g' = g\<lparr>gr_degree := ?ds,
      gr_vertex_label := (if is_vertex_labeled ?fl then map (\<lambda>u. gr_vertex_label g ! (p ! u)) [0..<?n] else gr_vertex_label g),
      gr_vertex_weight := (if is_vertex_weighted ?fl then map (\<lambda>u. gr_vertex_weight g ! (p ! u)) [0..<?n] else gr_vertex_weight g),
      gr_edge_label := (if is_edge_labeled ?fl then sort_values (offsets_of ?ds) ?ds (concat ?xss) ?lab else gr_edge_label g),
      gr_edge_weight := (if is_edge_weighted ?fl then sort_values (offsets_of ?ds) ?ds (concat ?xss) ?wgt else gr_edge_weight g),
      gr_offset := offsets_of ?ds, gr_adj := ?adj\<rparr>"
  have f: "gr_degree g' = ?ds" "gr_offset g' = offsets_of ?ds" "gr_adj g' = ?adj" "gr_num_vertices g' = ?n"
    "gr_num_edges g' = gr_num_edges g" "gr_flags g' = ?fl"
    by (simp_all add: g'_def)
  have sd: "sum_list ?ds = gr_num_edges g"
  proof -
    have "?ds = map (\<lambda>v. gr_degree g ! v) p" using ds pf(1) n by (intro nth_equalityI) simp_all
    moreover have "map (\<lambda>v. gr_degree g ! v) [0..<?n] = gr_degree g" using gd(1) by (intro nth_equalityI) simp_all
    ultimately have "mset ?ds = mset (gr_degree g)" using perm by (metis mset_map)
    then show ?thesis using gd(2) by (metis sum_mset_sum_list)
  qed
  have md: "\<not> (\<exists>d \<in> set ?ds. gr_max_degree g < d)"
  proof
    assume "\<exists>d \<in> set ?ds. gr_max_degree g < d"
    then obtain u where "u < ?n" "gr_max_degree g < ?ds ! u" using n by (auto simp: in_set_conv_nth)
    then have "p ! u < length (gr_degree g)" "gr_max_degree g < gr_degree g ! (p ! u)" using ds [of u] pf(4) gd(1) by simp_all
    then show False using assms(2) nth_mem [of "p ! u" "gr_degree g"] unfolding relabel_ok_def by (meson not_le)
  qed
  have ok: "\<not> (length p < ?n \<or> (\<exists>v \<in> set (take ?n p). ?n \<le> v) \<or> gr_num_edges g < sum_list ?ds \<or>
      (is_edge_labeled ?fl \<or> is_edge_weighted ?fl) \<and> (\<exists>d \<in> set ?ds. gr_max_degree g < d))"
    unfolding sd using md pf(1,2) by (simp add: not_le)
  have r: "relabel p g = Inr g'"
    unfolding relabel_def Let_def offset_loop_eq relabelled_degrees [OF c perm] relabelled_adj [OF c perm] adj g'_def
    by (rule if_not_P [OF ok])
  have nb: "neighbors g' u = sort (?xss ! u)" if "u < ?n" for u
  proof -
    have l: "?ds = map length (map sort ?xss)" by (simp add: comp_def)
    have "neighbors g' u = map sort ?xss ! u"
      by (rule neighbors_concat) (use f l that n in simp_all)
    then show ?thesis using that n by simp
  qed
  have backs: "map (\<lambda>v. p ! v) (?xss ! u) = neighbors g (p ! u)" if "u < ?n" for u
    unfolding x [OF that] map_map using inv(2) neighbors_less [OF c] by (intro map_idI) simp
  have mem: "v \<in> set (neighbors g' u) \<longleftrightarrow> v < ?n \<and> p ! v \<in> set (neighbors g (p ! u))" if u: "u < ?n" for u v
  proof
    assume "v \<in> set (neighbors g' u)"
    then obtain w where w: "w \<in> set (neighbors g (p ! u))" "v = invert_order p ?n ! w"
      unfolding nb [OF u] x [OF u] by auto
    with inv(2,3) [OF neighbors_less [OF c w(1)]] show "v < ?n \<and> p ! v \<in> set (neighbors g (p ! u))" by simp
  next
    assume v: "v < ?n \<and> p ! v \<in> set (neighbors g (p ! u))"
    with inv(1) [of v] have "v \<in> (\<lambda>w. invert_order p ?n ! w) ` set (neighbors g (p ! u))" by (metis imageI)
    then show "v \<in> set (neighbors g' u)" unfolding nb [OF u] x [OF u] by simp
  qed
  have dist: "distinct (?xss ! u)" if "u < ?n" for u
  proof -
    have "distinct (map (\<lambda>v. p ! v) (?xss ! u))"
      unfolding backs [OF that] using assms(1) pf(4) [OF that] by (simp add: simple_graph_def strict_sorted_iff)
    then show ?thesis by (simp add: distinct_map)
  qed
  have "csr_ok g'"
  proof -
    have "v < ?n" if m: "v \<in> set (concat ?xss)" for v
    proof -
      from m obtain xs where "xs \<in> set ?xss" "v \<in> set xs" by auto
      then obtain u where "u < ?n" "v \<in> set (?xss ! u)" using n by (auto simp: in_set_conv_nth)
      then obtain w where "w \<in> set (neighbors g (p ! u))" "v = invert_order p ?n ! w" using x [of u] by auto
      with inv(3) neighbors_less [OF c] show ?thesis by blast
    qed
    then show ?thesis unfolding csr_ok_def f using n sd by (simp add: length_concat comp_def)
  qed
  then have "simple_graph g'"
    unfolding simple_graph_def f using nb mem dist assms(1) pf(4)
    by (auto simp: sorted_distinct_strict simple_graph_def)
  moreover have "mset (map (\<lambda>v. p ! v) (neighbors g' u)) = mset (neighbors g (p ! u))" if "u < ?n" for u
    using nb [OF that] backs [OF that] by (metis mset_map mset_sort)
  moreover have "mset (zip (map (\<lambda>v. p ! v) (neighbors g' u)) (edge_labels g' u)) = mset (zip (neighbors g (p ! u)) (edge_labels g (p ! u)))"
    if "u < ?n" "is_edge_labeled ?fl" for u
    using relabelled_values [OF c perm _ that(1), of "gr_edge_label g"] that(2) assms(2) nb [OF that(1)]
    by (simp add: relabel_ok_def g'_def edge_labels_def slice_of_def)
  moreover have "mset (zip (map (\<lambda>v. p ! v) (neighbors g' u)) (edge_weights g' u)) = mset (zip (neighbors g (p ! u)) (edge_weights g (p ! u)))"
    if "u < ?n" "is_edge_weighted ?fl" for u
    using relabelled_values [OF c perm _ that(1), of "gr_edge_weight g"] that(2) assms(2) nb [OF that(1)]
    by (simp add: relabel_ok_def g'_def edge_weights_def slice_of_def)
  moreover have "is_vertex_labeled ?fl \<Longrightarrow> u < ?n \<Longrightarrow> gr_vertex_label g' ! u = gr_vertex_label g ! (p ! u)" for u by (simp add: g'_def)
  moreover have "is_vertex_weighted ?fl \<Longrightarrow> u < ?n \<Longrightarrow> gr_vertex_weight g' ! u = gr_vertex_weight g ! (p ! u)" for u by (simp add: g'_def)
  moreover have "gr_degree g' ! u = gr_degree g ! (p ! u)" if "u < ?n" for u unfolding f by (rule ds [OF that])
  ultimately show ?thesis using r f(4,6) by blast
qed

end
