(* ===== verification/Graph_Files.thy ===== *)
theory Graph_Files
  imports Graph_Partition Graph_Relabel
begin

text \<open>
  The files of a graph (\<open>store_csr\<close>, \<open>load_csr\<close>, \<open>store_partition_csr\<close>,
  \<open>load_partition_csr\<close>, \<open>store_edge_list\<close> and \<open>store_edge_list_directed\<close> of
  \<open>host/xgraph/graph.cpp\<close>).  A binary file is the list of its 32-bit words in little endian
  order, a directory a map from file names to files.  \<open>Out_Of_Bounds\<close> is a missing or short
  file, or a negative size or vertex in it.
\<close>

type_synonym directory = "string \<Rightarrow> u32 list option"

definition degree_file_name :: string where "degree_file_name = ''b_degree.bin''"
definition partition_file_name :: string where "partition_file_name = ''b_partition.bin''"
definition adj_file_name :: string where "adj_file_name = ''b_adj.bin''"
definition vertex_label_file_name :: string where "vertex_label_file_name = ''b_vertex_label.bin''"
definition vertex_weight_file_name :: string where "vertex_weight_file_name = ''b_vertex_weight.bin''"
definition edge_label_file_name :: string where "edge_label_file_name = ''b_edge_label.bin''"
definition edge_weight_file_name :: string where "edge_weight_file_name = ''b_edge_weight.bin''"
definition edge_weight_prefix_sum_file_name :: string where
  "edge_weight_prefix_sum_file_name = ''b_edge_weight_prefix_sum.bin''"
definition edge_weight_alias_table_file_name :: string where
  "edge_weight_alias_table_file_name = ''b_edge_weight_alias_table.bin''"
definition edge_weight_max_file_name :: string where "edge_weight_max_file_name = ''b_edge_weight_max.bin''"

lemmas csr_file_names = degree_file_name_def partition_file_name_def adj_file_name_def vertex_label_file_name_def
  vertex_weight_file_name_def edge_label_file_name_def edge_weight_file_name_def edge_weight_prefix_sum_file_name_def
  edge_weight_alias_table_file_name_def edge_weight_max_file_name_def

section \<open>Values in files\<close>

definition word_parts :: "'a::len word \<Rightarrow> u32 list" where
  "word_parts x = map (\<lambda>i. lane i x) [0..<LENGTH('a) div 32]"

definition bin_of :: "'a::len word list \<Rightarrow> u32 list" where
  "bin_of xs = concat (map word_parts xs)"

text \<open>The first \<open>n\<close> values of a file.\<close>

definition values_of :: "nat \<Rightarrow> u32 list \<Rightarrow> 'a::len word list" where
  "values_of n ws =
     map (\<lambda>i. set_lanes [0..<LENGTH('a) div 32] (\<lambda>j. ws ! (LENGTH('a) div 32 * i + j)) 0) [0..<n]"

section \<open>Storing\<close>

text \<open>The files are written one after the other, those of the properties the graph has.\<close>

definition store_file :: "bool \<times> string \<times> u32 list \<Rightarrow> directory \<Rightarrow> directory" where
  "store_file f dir = (case f of (flag, name, ws) \<Rightarrow> if flag then dir(name \<mapsto> ws) else dir)"

definition csr_files :: "graph \<Rightarrow> (bool \<times> string \<times> u32 list) list" where
  "csr_files g =
     (let n = gr_num_vertices g; m = gr_num_edges g; fl = gr_flags g
      in [(True, degree_file_name,
            [4, word_of_nat n] @ word_parts (word_of_nat m :: u64) @ map word_of_nat (take n (gr_degree g))),
          (True, adj_file_name, map word_of_nat (take m (gr_adj g))),
          (is_vertex_labeled fl, vertex_label_file_name, bin_of (take n (gr_vertex_label g))),
          (is_vertex_weighted fl, vertex_weight_file_name, bin_of (take n (gr_vertex_weight g))),
          (is_edge_labeled fl, edge_label_file_name, bin_of (take m (gr_edge_label g))),
          (is_edge_weighted fl, edge_weight_file_name, bin_of (take m (gr_edge_weight g))),
          (is_edge_weight_prefix_summed fl, edge_weight_prefix_sum_file_name, bin_of (take m (gr_edge_weight_prefix_sum g))),
          (is_edge_weight_alias_generated fl, edge_weight_alias_table_file_name, bin_of (take m (gr_edge_weight_alias_table g))),
          (is_edge_weight_rejection_generated fl, edge_weight_max_file_name, bin_of (take n (gr_edge_weight_rejection_max g)))])"

definition store_csr :: "graph \<Rightarrow> directory \<Rightarrow> directory" where
  "store_csr g dir = fold store_file (csr_files g) dir"

definition store_partition_csr :: "graph \<Rightarrow> directory \<Rightarrow> graph_error + directory" where
  "store_partition_csr g dir =
     (if gr_partition_offset g = [] then Inl Out_Of_Bounds
      else Inr ((store_csr g dir)(partition_file_name \<mapsto>
        [4, word_of_nat (num_partitions g)] @ map word_of_nat (take (num_partitions g + 1) (gr_partition_offset g)))))"

section \<open>Loading\<close>

definition and_then :: "'e + 'a \<Rightarrow> ('a \<Rightarrow> 'e + 'b) \<Rightarrow> 'e + 'b" where
  "and_then r f = (case r of Inl e \<Rightarrow> Inl e | Inr x \<Rightarrow> f x)"

lemma and_then_simps [simp]: "and_then (Inl e) f = Inl e" "and_then (Inr x) f = f x"
  by (simp_all add: and_then_def)

definition open_file :: "directory \<Rightarrow> string \<Rightarrow> u32 list" where
  "open_file dir name = (case dir name of None \<Rightarrow> [] | Some ws \<Rightarrow> ws)"

definition load_csr_partition_file :: "directory \<Rightarrow> graph \<Rightarrow> graph_error + graph" where
  "load_csr_partition_file dir g =
     (case open_file dir partition_file_name of
        element_size # np # ws \<Rightarrow>
          (if element_size \<noteq> 4 then Inl Bad_Element_Size
           else if sint np < 0 \<or> length ws < nat (sint np) + 1 \<or> (\<exists>w \<in> set (take (nat (sint np) + 1) ws). sint w < 0)
             then Inl Out_Of_Bounds
           else Inr (g\<lparr>gr_partition_offset := map unat (take (nat (sint np) + 1) ws)\<rparr>))
      | _ \<Rightarrow> Inl Out_Of_Bounds)"

definition load_csr_degree_file :: "directory \<Rightarrow> graph \<Rightarrow> graph_error + graph" where
  "load_csr_degree_file dir g =
     (case open_file dir degree_file_name of
        element_size # n # m0 # m1 # ws \<Rightarrow>
          (let m = hd (values_of 1 [m0, m1]) :: u64
           in if element_size \<noteq> 4 then Inl Bad_Element_Size
              else if sint n < 0 \<or> sint m < 0 \<or> length ws < nat (sint n) \<or> (\<exists>w \<in> set (take (nat (sint n)) ws). sint w < 0)
                then Inl Out_Of_Bounds
              else Inr (g\<lparr>gr_num_vertices := nat (sint n), gr_num_edges := nat (sint m),
                          gr_degree := map unat (take (nat (sint n)) ws)\<rparr>))
      | _ \<Rightarrow> Inl Out_Of_Bounds)"

text \<open>The parallel loop: for the vertices in the order in which the threads take them, the words of the vertex are copied.\<close>

definition copy_rows :: "nat list \<Rightarrow> nat list \<Rightarrow> 'a list \<Rightarrow> 'a list \<Rightarrow> 'a list" where
  "copy_rows order offset buffer a =
     fold (\<lambda>i a. fold (\<lambda>j a. a[j := buffer ! j]) [offset ! i..<offset ! (i + 1)] a) order a"

definition load_csr_adj_file :: "nat list \<Rightarrow> (nat \<Rightarrow> u32) \<Rightarrow> directory \<Rightarrow> graph \<Rightarrow> graph_error + graph" where
  "load_csr_adj_file order junk dir g =
     (let offset = offset_loop (gr_degree g); m = gr_num_edges g; buffer = open_file dir adj_file_name
      in if length buffer < m \<or> m < sum_list (gr_degree g) \<or> (\<exists>w \<in> set (take m buffer). sint w < 0) then Inl Out_Of_Bounds
         else Inr (g\<lparr>gr_offset := offset, gr_adj := map unat (copy_rows order offset buffer (map junk [0..<m]))\<rparr>))"

text \<open>A value for each vertex, and a value for each edge.\<close>

definition load_vertex_values :: "string \<Rightarrow> directory \<Rightarrow> graph \<Rightarrow> graph_error + 'a::len word list" where
  "load_vertex_values name dir g =
     (let ws = open_file dir name; n = gr_num_vertices g
      in if length ws < LENGTH('a) div 32 * n then Inl Out_Of_Bounds else Inr (values_of n ws))"

definition load_edge_values :: "nat list \<Rightarrow> (nat \<Rightarrow> u32) \<Rightarrow> string \<Rightarrow> directory \<Rightarrow> graph \<Rightarrow> graph_error + 'a::len word list" where
  "load_edge_values order junk name dir g =
     (let ws = open_file dir name; m = gr_num_edges g
      in if length ws < LENGTH('a) div 32 * m \<or> m < sum_list (gr_degree g) then Inl Out_Of_Bounds
         else Inr (copy_rows order (gr_offset g) (values_of m ws) (values_of m (map junk [0..<LENGTH('a) div 32 * m]))))"

definition load_opt :: "bool \<Rightarrow> (graph \<Rightarrow> graph_error + 'a list) \<Rightarrow> ('a list \<Rightarrow> graph \<Rightarrow> graph) \<Rightarrow> graph \<Rightarrow> graph_error + graph" where
  "load_opt flag ld put g = (if flag then and_then (ld g) (\<lambda>xs. Inr (put xs g)) else Inr g)"

definition load_csr :: "(string \<Rightarrow> nat list) \<Rightarrow> (nat \<Rightarrow> u32) \<Rightarrow> directory \<Rightarrow> graph \<Rightarrow> graph_error + graph" where
  "load_csr order junk dir g =
     (let fl = gr_flags g
      in and_then (load_csr_degree_file dir g) (\<lambda>g.
         and_then (load_csr_adj_file (order adj_file_name) junk dir g) (\<lambda>g.
         and_then (load_opt (is_vertex_labeled fl) (load_vertex_values vertex_label_file_name dir)
           (\<lambda>xs. gr_vertex_label_update (\<lambda>_. xs)) g) (\<lambda>g.
         and_then (load_opt (is_vertex_weighted fl) (load_vertex_values vertex_weight_file_name dir)
           (\<lambda>xs. gr_vertex_weight_update (\<lambda>_. xs)) g) (\<lambda>g.
         and_then (load_opt (is_edge_labeled fl)
           (load_edge_values (order edge_label_file_name) junk edge_label_file_name dir)
           (\<lambda>xs. gr_edge_label_update (\<lambda>_. xs)) g) (\<lambda>g.
         and_then (load_opt (is_edge_weighted fl)
           (load_edge_values (order edge_weight_file_name) junk edge_weight_file_name dir)
           (\<lambda>xs. gr_edge_weight_update (\<lambda>_. xs)) g) (\<lambda>g.
         and_then (load_opt (is_edge_weight_prefix_summed fl)
           (load_edge_values (order edge_weight_prefix_sum_file_name) junk edge_weight_prefix_sum_file_name dir)
           (\<lambda>xs. gr_edge_weight_prefix_sum_update (\<lambda>_. xs)) g) (\<lambda>g.
         and_then (load_opt (is_edge_weight_alias_generated fl)
           (load_edge_values (order edge_weight_alias_table_file_name) junk edge_weight_alias_table_file_name dir)
           (\<lambda>xs. gr_edge_weight_alias_table_update (\<lambda>_. xs)) g) (\<lambda>g.
         and_then (load_opt (is_offset_pair fl) (\<lambda>g. Inr (map (edges_of g) [0..<gr_num_vertices g]))
           (\<lambda>xs. gr_offset_pair_update (\<lambda>_. xs)) g) (\<lambda>g.
         and_then (load_opt (is_edge_weight_rejection_generated fl) (load_vertex_values edge_weight_max_file_name dir)
           (\<lambda>xs. gr_edge_weight_rejection_max_update (\<lambda>_. xs)) g) collect_metadata))))))))))"

definition load_partition_csr :: "(string \<Rightarrow> nat list) \<Rightarrow> (nat \<Rightarrow> u32) \<Rightarrow> directory \<Rightarrow> graph \<Rightarrow> graph_error + graph" where
  "load_partition_csr order junk dir g = and_then (load_csr_partition_file dir g) (load_csr order junk dir)"

section \<open>What is stored is loaded\<close>

lemma lane_ext:
  fixes x y :: "'a::len word"
  assumes "32 dvd LENGTH('a)" "\<And>i. i < LENGTH('a) div 32 \<Longrightarrow> lane i x = lane i y"
  shows "x = y"
proof (rule bit_word_eqI)
  fix n assume n: "n < LENGTH('a)"
  have b: "bit z n = bit (lane (n div 32) z) (n mod 32)" for z :: "'a word"
    by (simp add: lane_def bit_rng)
  have "n div 32 < LENGTH('a) div 32" using n assms(1) by (simp add: div_less_iff_less_mult dvd_div_mult_self)
  then show "bit x n = bit y n" unfolding b by (simp only: assms(2))
qed

lemma length_word_parts [simp]: "length (word_parts (x :: 'a::len word)) = LENGTH('a) div 32"
  by (simp add: word_parts_def)

lemma length_bin_of: "length (bin_of (xs :: 'a::len word list)) = LENGTH('a) div 32 * length xs"
  by (induction xs) (simp_all add: bin_of_def)

lemma bin_of_nth:
  fixes xs :: "'a::len word list"
  shows "i < length xs \<Longrightarrow> j < LENGTH('a) div 32 \<Longrightarrow> bin_of xs ! (LENGTH('a) div 32 * i + j) = lane j (xs ! i)"
proof (induction xs arbitrary: i)
  case (Cons x xs)
  then show ?case by (cases i) (simp_all add: bin_of_def nth_append word_parts_def)
qed simp

lemma values_of_bin:
  fixes xs :: "'a::len word list"
  assumes "32 dvd LENGTH('a)"
  shows "(values_of (length xs) (bin_of xs) :: 'a word list) = xs"
proof (rule nth_equalityI)
  fix i assume "i < length (values_of (length xs) (bin_of xs) :: 'a word list)"
  then have i: "i < length xs" by (simp add: values_of_def)
  show "(values_of (length xs) (bin_of xs) :: 'a word list) ! i = xs ! i"
  proof (rule lane_ext [OF assms])
    fix j assume j: "j < LENGTH('a) div 32"
    then have "32 * j' + 32 \<le> LENGTH('a)" if "j' < LENGTH('a) div 32" for j' using that by linarith
    then show "lane j ((values_of (length xs) (bin_of xs) :: 'a word list) ! i) = lane j (xs ! i)"
      using i j bin_of_nth [OF i j] by (simp add: values_of_def lane_set_lanes)
  qed
qed (simp add: values_of_def)

lemma length_copy_rows [simp]: "length (copy_rows order offs b a) = length a"
proof -
  have i: "length (fold (\<lambda>j a. a[j := b ! j]) js a) = length a" for js and a :: "'a list"
    by (induction js arbitrary: a) simp_all
  show ?thesis unfolding copy_rows_def by (induction order arbitrary: a) (simp_all add: i)
qed

lemma copy_rows_nth:
  "j < length a \<Longrightarrow> copy_rows order offs b a ! j =
    (if \<exists>i \<in> set order. offs ! i \<le> j \<and> j < offs ! (i + 1) then b ! j else a ! j)"
proof (induction order arbitrary: a)
  case Nil
  then show ?case by (simp add: copy_rows_def)
next
  case (Cons i order)
  have l: "length (fold (\<lambda>j a. a[j := b ! j]) js a) = length a" for js and a :: "'a list"
    by (induction js arbitrary: a) simp_all
  have n: "fold (\<lambda>j a. a[j := b ! j]) js a ! j = (if j \<in> set js then b ! j else a ! j)" if "j < length a" for js and a :: "'a list"
    using that by (induction js arbitrary: a) (auto simp: nth_list_update)
  have "copy_rows (i # order) offs b a = copy_rows order offs b (fold (\<lambda>j a. a[j := b ! j]) [offs ! i..<offs ! (i + 1)] a)"
    by (simp add: copy_rows_def)
  then show ?case using Cons l n [OF Cons.prems] by auto
qed

lemma copy_rows_all:
  assumes "mset order = mset [0..<length ds]" "length a = sum_list ds" "length b = sum_list ds"
  shows "copy_rows order (offsets_of ds) b a = b"
proof (rule nth_equalityI)
  fix j assume "j < length (copy_rows order (offsets_of ds) b a)"
  then have j: "j < sum_list ds" using assms(2) by simp
  from offsets_range_ex [OF this] have "\<exists>i \<in> set order. offsets_of ds ! i \<le> j \<and> j < offsets_of ds ! (i + 1)"
    using mset_eq_setD [OF assms(1)] by auto
  then show "copy_rows order (offsets_of ds) b a ! j = b ! j" using copy_rows_nth [of j a] j assms(2) by simp
qed (simp add: assms)

lemma store_files_lookup:
  assumes "distinct (map (\<lambda>f. fst (snd f)) fs)" "(True, name, ws) \<in> set fs"
  shows "fold store_file fs dir name = Some ws"
proof -
  have other: "name \<notin> (\<lambda>f. fst (snd f)) ` set fs \<Longrightarrow> fold store_file fs dir name = dir name" for fs dir
    by (induction fs arbitrary: dir) (auto simp: store_file_def)
  show ?thesis using assms
  proof (induction fs arbitrary: dir)
    case (Cons f fs)
    show ?case
    proof (cases "f = (True, name, ws)")
      case True
      then have "name \<notin> (\<lambda>f. fst (snd f)) ` set fs" using Cons.prems(1) by simp
      from other [OF this] True show ?thesis by (simp add: store_file_def [of "(_, _)"])
    next
      case False
      then show ?thesis using Cons by simp
    qed
  qed simp
qed

lemma csr_files_distinct: "distinct (map (\<lambda>f. fst (snd f)) (csr_files g))"
  by (simp add: csr_files_def Let_def csr_file_names)

lemma stored_file: "(True, name, ws) \<in> set (csr_files g) \<Longrightarrow> open_file (store_csr g dir) name = ws"
  unfolding open_file_def store_csr_def by (simp add: store_files_lookup [OF csr_files_distinct])

text \<open>What the formats can hold, and the arrays the flags ask for.\<close>

definition storable :: "graph \<Rightarrow> bool" where
  "storable g \<longleftrightarrow> csr_ok g \<and> 0 < gr_num_vertices g \<and> gr_num_vertices g < 2 ^ 31 \<and> gr_num_edges g < 2 ^ 63 \<and>
     (\<forall>d \<in> set (gr_degree g). d < 2 ^ 31) \<and>
     (is_vertex_labeled (gr_flags g) \<longrightarrow> length (gr_vertex_label g) = gr_num_vertices g) \<and>
     (is_vertex_weighted (gr_flags g) \<longrightarrow> length (gr_vertex_weight g) = gr_num_vertices g) \<and>
     (is_edge_labeled (gr_flags g) \<longrightarrow> length (gr_edge_label g) = gr_num_edges g) \<and>
     (is_edge_weighted (gr_flags g) \<longrightarrow> length (gr_edge_weight g) = gr_num_edges g) \<and>
     (is_edge_weight_prefix_summed (gr_flags g) \<longrightarrow> length (gr_edge_weight_prefix_sum g) = gr_num_edges g) \<and>
     (is_edge_weight_alias_generated (gr_flags g) \<longrightarrow> length (gr_edge_weight_alias_table g) = gr_num_edges g) \<and>
     (is_edge_weight_rejection_generated (gr_flags g) \<longrightarrow> length (gr_edge_weight_rejection_max g) = gr_num_vertices g)"

definition reloaded :: "graph \<Rightarrow> graph" where
  "reloaded g =
     (let fl = gr_flags g
      in g\<lparr>gr_node_with_max_degree := first_max (gr_degree g), gr_max_degree := gr_degree g ! first_max (gr_degree g),
           gr_vertex_label := (if is_vertex_labeled fl then gr_vertex_label g else []),
           gr_vertex_weight := (if is_vertex_weighted fl then gr_vertex_weight g else []),
           gr_edge_label := (if is_edge_labeled fl then gr_edge_label g else []),
           gr_edge_weight := (if is_edge_weighted fl then gr_edge_weight g else []),
           gr_edge_weight_prefix_sum := (if is_edge_weight_prefix_summed fl then gr_edge_weight_prefix_sum g else []),
           gr_edge_weight_alias_table := (if is_edge_weight_alias_generated fl then gr_edge_weight_alias_table g else []),
           gr_offset_pair := (if is_offset_pair fl then map (edges_of g) [0..<gr_num_vertices g] else []),
           gr_edge_weight_rejection_max :=
             (if is_edge_weight_rejection_generated fl then gr_edge_weight_rejection_max g else [])\<rparr>)"

lemma sint_small:
  assumes "n < 2 ^ 31"
  shows "sint (word_of_nat n :: u32) = int n" "unat (word_of_nat n :: u32) = n"
proof -
  have "signed_take_bit 31 (int n) = int n" using assms by (simp add: signed_take_bit_int_eq_self)
  then show "sint (word_of_nat n :: u32) = int n" by (simp add: signed_of_nat)
  show "unat (word_of_nat n :: u32) = n" using assms by (simp add: unsigned_of_nat take_bit_nat_eq_self)
qed

lemma sint_small64: "n < 2 ^ 63 \<Longrightarrow> sint (word_of_nat n :: u64) = int n"
proof -
  assume "n < 2 ^ 63"
  then have "signed_take_bit 63 (int n) = int n" by (simp add: signed_take_bit_int_eq_self)
  then show "sint (word_of_nat n :: u64) = int n" by (simp add: signed_of_nat)
qed

lemma small_words:
  assumes "\<forall>x \<in> set xs. x < 2 ^ 31"
  shows "map unat (map word_of_nat xs :: u32 list) = xs" "\<not> (\<exists>w \<in> set (map word_of_nat xs :: u32 list). sint w < 0)"
proof -
  show "map unat (map word_of_nat xs :: u32 list) = xs"
    unfolding map_map comp_def using assms sint_small(2) by (intro map_idI) blast
  show "\<not> (\<exists>w \<in> set (map word_of_nat xs :: u32 list). sint w < 0)"
    using assms by (auto simp: sint_small(1))
qed

definition holds_files :: "graph \<Rightarrow> directory \<Rightarrow> bool" where
  "holds_files g dir \<longleftrightarrow> (\<forall>(flag, name, ws) \<in> set (csr_files g). flag \<longrightarrow> open_file dir name = ws)"

lemma store_csr_holds: "holds_files g (store_csr g dir)"
  by (auto simp: holds_files_def stored_file)

lemma holds_file: "holds_files g dir \<Longrightarrow> (True, name, ws) \<in> set (csr_files g) \<Longrightarrow> open_file dir name = ws"
  by (auto simp: holds_files_def)

lemma storable_facts:
  assumes "storable g"
  shows "csr_ok g" "length (gr_degree g) = gr_num_vertices g" "length (gr_adj g) = gr_num_edges g"
    "gr_num_edges g = sum_list (gr_degree g)" "gr_offset g = offsets_of (gr_degree g)"
    "gr_num_vertices g < 2 ^ 31" "gr_num_edges g < 2 ^ 63" "0 < gr_num_vertices g"
    "\<forall>d \<in> set (gr_degree g). d < 2 ^ 31" "\<forall>v \<in> set (gr_adj g). v < 2 ^ 31"
  using assms by (auto simp: storable_def csr_ok_def)

lemma load_degree_stored:
  assumes "storable g" "holds_files g dir"
  shows "load_csr_degree_file dir g0 =
    Inr (g0\<lparr>gr_num_vertices := gr_num_vertices g, gr_num_edges := gr_num_edges g, gr_degree := gr_degree g\<rparr>)"
proof -
  let ?n = "gr_num_vertices g" and ?m = "word_of_nat (gr_num_edges g) :: u64"
  note f = storable_facts [OF assms(1)]
  have o: "open_file dir degree_file_name = [4, word_of_nat ?n] @ word_parts ?m @ map word_of_nat (gr_degree g)"
    by (rule holds_file [OF assms(2)]) (simp add: csr_files_def Let_def f(2))
  have p: "word_parts ?m = [lane 0 ?m, lane 1 ?m]" by (simp add: word_parts_def upt_rec)
  have v: "hd (values_of 1 [lane 0 ?m, lane 1 ?m]) = ?m"
    using values_of_bin [of "[?m]"] by (simp add: bin_of_def p)
  have t: "take ?n (map word_of_nat (gr_degree g) :: u32 list) = map word_of_nat (gr_degree g)" using f(2) by simp
  show ?thesis
    unfolding load_csr_degree_file_def o p append_Cons append_Nil list.case v Let_def sint_small(1) [OF f(6)]
      sint_small64 [OF f(7)] nat_int t small_words(1) [OF f(9)]
    using small_words(2) [OF f(9)] f(2) by simp
qed

lemma load_adj_stored:
  assumes "storable g" "holds_files g dir" "mset order = mset [0..<gr_num_vertices g]"
    and "gr_degree g0 = gr_degree g" "gr_num_edges g0 = gr_num_edges g"
  shows "load_csr_adj_file order junk dir g0 = Inr (g0\<lparr>gr_offset := gr_offset g, gr_adj := gr_adj g\<rparr>)"
proof -
  note f = storable_facts [OF assms(1)]
  let ?b = "map word_of_nat (gr_adj g) :: u32 list"
  have o: "open_file dir adj_file_name = ?b"
    by (rule holds_file [OF assms(2)]) (simp add: csr_files_def Let_def f(3))
  have c: "copy_rows order (offsets_of (gr_degree g)) ?b (map junk [0..<gr_num_edges g]) = ?b"
    by (rule copy_rows_all) (simp_all add: assms(3) f(2,3,4))
  have t: "take (gr_num_edges g) ?b = ?b" using f(3) by simp
  have ok: "\<not> (length ?b < gr_num_edges g \<or> gr_num_edges g < sum_list (gr_degree g) \<or> (\<exists>w \<in> set (take (gr_num_edges g) ?b). sint w < 0))"
    unfolding t using small_words(2) [OF f(10)] f(3,4) by simp
  show ?thesis
    unfolding load_csr_adj_file_def Let_def o assms(4,5) offset_loop_eq if_not_P [OF ok] c small_words(1) [OF f(10)]
    by (simp only: f(5))
qed

lemma load_vertex_values_stored:
  fixes xs :: "'a::len word list"
  assumes "32 dvd LENGTH('a)" "open_file dir name = bin_of xs" "length xs = gr_num_vertices g"
  shows "load_vertex_values name dir g = Inr xs"
  using values_of_bin [OF assms(1), of xs] by (simp add: load_vertex_values_def Let_def assms(2,3) length_bin_of)

lemma load_edge_values_stored:
  fixes xs :: "'a::len word list"
  assumes "32 dvd LENGTH('a)" "open_file dir name = bin_of xs" "length xs = gr_num_edges g" "csr_ok g"
    "mset order = mset [0..<gr_num_vertices g]"
  shows "load_edge_values order junk name dir g = Inr xs"
proof -
  have c: "length (gr_degree g) = gr_num_vertices g" "gr_offset g = offsets_of (gr_degree g)" "gr_num_edges g = sum_list (gr_degree g)"
    using assms(4) by (simp_all add: csr_ok_def)
  have v: "values_of (gr_num_edges g) (bin_of xs) = xs" using values_of_bin [OF assms(1), of xs] by (simp only: assms(3))
  have "copy_rows order (gr_offset g) xs (values_of (gr_num_edges g) (map junk [0..<LENGTH('a) div 32 * gr_num_edges g])) = xs"
    unfolding c(2) by (rule copy_rows_all) (simp_all add: assms(3,5) c values_of_def)
  then show ?thesis
    unfolding load_edge_values_def Let_def assms(2) v using assms(3) c(3) by (simp add: length_bin_of)
qed

lemma load_opt_stored: "(flag \<Longrightarrow> ld g = Inr xs) \<Longrightarrow> load_opt flag ld put g = Inr (if flag then put xs g else g)"
  by (simp add: load_opt_def)

text \<open>
  A directory that holds the files of \<open>g\<close> is loaded as \<open>g\<close>, in whatever order the threads
  copy; the metadata and the pairs of offsets are computed again, and properties that the
  flags do not name are empty.
\<close>

lemma load_csr_result:
  assumes "storable g" "holds_files g dir" "\<And>name. mset (order name) = mset [0..<gr_num_vertices g]"
  shows "load_csr order junk dir ((new_graph (gr_flags g))\<lparr>gr_partition_offset := po\<rparr>) = Inr ((reloaded g)\<lparr>gr_partition_offset := po\<rparr>)"
proof -
  note f = storable_facts [OF assms(1)]
  let ?fl = "gr_flags g" and ?n = "gr_num_vertices g" and ?m = "gr_num_edges g"
  have len: "is_vertex_labeled ?fl \<Longrightarrow> length (gr_vertex_label g) = ?n" "is_vertex_weighted ?fl \<Longrightarrow> length (gr_vertex_weight g) = ?n"
    "is_edge_labeled ?fl \<Longrightarrow> length (gr_edge_label g) = ?m" "is_edge_weighted ?fl \<Longrightarrow> length (gr_edge_weight g) = ?m"
    "is_edge_weight_prefix_summed ?fl \<Longrightarrow> length (gr_edge_weight_prefix_sum g) = ?m"
    "is_edge_weight_alias_generated ?fl \<Longrightarrow> length (gr_edge_weight_alias_table g) = ?m"
    "is_edge_weight_rejection_generated ?fl \<Longrightarrow> length (gr_edge_weight_rejection_max g) = ?n"
    using assms(1) by (simp_all add: storable_def)
  have fl: "is_vertex_labeled ?fl \<Longrightarrow> open_file dir vertex_label_file_name = bin_of (gr_vertex_label g)"
    "is_vertex_weighted ?fl \<Longrightarrow> open_file dir vertex_weight_file_name = bin_of (gr_vertex_weight g)"
    "is_edge_labeled ?fl \<Longrightarrow> open_file dir edge_label_file_name = bin_of (gr_edge_label g)"
    "is_edge_weighted ?fl \<Longrightarrow> open_file dir edge_weight_file_name = bin_of (gr_edge_weight g)"
    "is_edge_weight_prefix_summed ?fl \<Longrightarrow> open_file dir edge_weight_prefix_sum_file_name = bin_of (gr_edge_weight_prefix_sum g)"
    "is_edge_weight_alias_generated ?fl \<Longrightarrow> open_file dir edge_weight_alias_table_file_name = bin_of (gr_edge_weight_alias_table g)"
    "is_edge_weight_rejection_generated ?fl \<Longrightarrow> open_file dir edge_weight_max_file_name = bin_of (gr_edge_weight_rejection_max g)"
    by (rule holds_file [OF assms(2)], simp add: csr_files_def Let_def len)+
  note vv = load_vertex_values_stored and ev = load_edge_values_stored
  define like where "like = (\<lambda>h. gr_num_vertices h = ?n \<and> gr_num_edges h = ?m \<and> csr_ok h)"
  have opt: "load_opt (is_vertex_labeled ?fl) (load_vertex_values vertex_label_file_name dir) (\<lambda>xs. gr_vertex_label_update (\<lambda>_. xs)) h =
      Inr (h\<lparr>gr_vertex_label := if is_vertex_labeled ?fl then gr_vertex_label g else gr_vertex_label h\<rparr>)"
    "load_opt (is_vertex_weighted ?fl) (load_vertex_values vertex_weight_file_name dir) (\<lambda>xs. gr_vertex_weight_update (\<lambda>_. xs)) h =
      Inr (h\<lparr>gr_vertex_weight := if is_vertex_weighted ?fl then gr_vertex_weight g else gr_vertex_weight h\<rparr>)"
    "load_opt (is_edge_labeled ?fl) (load_edge_values (order edge_label_file_name) junk edge_label_file_name dir)
        (\<lambda>xs. gr_edge_label_update (\<lambda>_. xs)) h =
      Inr (h\<lparr>gr_edge_label := if is_edge_labeled ?fl then gr_edge_label g else gr_edge_label h\<rparr>)"
    "load_opt (is_edge_weighted ?fl) (load_edge_values (order edge_weight_file_name) junk edge_weight_file_name dir)
        (\<lambda>xs. gr_edge_weight_update (\<lambda>_. xs)) h =
      Inr (h\<lparr>gr_edge_weight := if is_edge_weighted ?fl then gr_edge_weight g else gr_edge_weight h\<rparr>)"
    "load_opt (is_edge_weight_prefix_summed ?fl)
        (load_edge_values (order edge_weight_prefix_sum_file_name) junk edge_weight_prefix_sum_file_name dir)
        (\<lambda>xs. gr_edge_weight_prefix_sum_update (\<lambda>_. xs)) h =
      Inr (h\<lparr>gr_edge_weight_prefix_sum :=
        if is_edge_weight_prefix_summed ?fl then gr_edge_weight_prefix_sum g else gr_edge_weight_prefix_sum h\<rparr>)"
    "load_opt (is_edge_weight_alias_generated ?fl)
        (load_edge_values (order edge_weight_alias_table_file_name) junk edge_weight_alias_table_file_name dir)
        (\<lambda>xs. gr_edge_weight_alias_table_update (\<lambda>_. xs)) h =
      Inr (h\<lparr>gr_edge_weight_alias_table :=
        if is_edge_weight_alias_generated ?fl then gr_edge_weight_alias_table g else gr_edge_weight_alias_table h\<rparr>)"
    "load_opt (is_offset_pair ?fl) (\<lambda>g. Inr (map (edges_of g) [0..<gr_num_vertices g])) (\<lambda>xs. gr_offset_pair_update (\<lambda>_. xs)) h =
      Inr (h\<lparr>gr_offset_pair := if is_offset_pair ?fl then map (edges_of h) [0..<gr_num_vertices h] else gr_offset_pair h\<rparr>)"
    "load_opt (is_edge_weight_rejection_generated ?fl) (load_vertex_values edge_weight_max_file_name dir)
        (\<lambda>xs. gr_edge_weight_rejection_max_update (\<lambda>_. xs)) h =
      Inr (h\<lparr>gr_edge_weight_rejection_max :=
        if is_edge_weight_rejection_generated ?fl then gr_edge_weight_rejection_max g else gr_edge_weight_rejection_max h\<rparr>)"
    if "like h" for h
    using that assms(3) len unfolding like_def
    by (simp_all add: load_opt_def vv [OF _ fl(1)] vv [OF _ fl(2)] vv [OF _ fl(7)] ev [OF _ fl(3)] ev [OF _ fl(4)]
        ev [OF _ fl(5)] ev [OF _ fl(6)])
  let ?g0 = "(new_graph ?fl)\<lparr>gr_partition_offset := po\<rparr>"
  let ?g1 = "?g0\<lparr>gr_num_vertices := ?n, gr_num_edges := ?m, gr_degree := gr_degree g\<rparr>"
  let ?g2 = "?g1\<lparr>gr_offset := gr_offset g, gr_adj := gr_adj g\<rparr>"
  have ad: "load_csr_adj_file (order adj_file_name) junk dir ?g1 = Inr ?g2"
    by (rule load_adj_stored [OF assms(1,2,3)]) simp_all
  have l2: "like ?g2" using f(1) by (simp add: like_def csr_ok_def)
  have upd: "like (h\<lparr>gr_vertex_label := xs\<rparr>) = like h" "like (h\<lparr>gr_vertex_weight := ws\<rparr>) = like h"
    "like (h\<lparr>gr_edge_label := xs\<rparr>) = like h" "like (h\<lparr>gr_edge_weight := ws\<rparr>) = like h"
    "like (h\<lparr>gr_edge_weight_prefix_sum := ws\<rparr>) = like h" "like (h\<lparr>gr_edge_weight_alias_table := as\<rparr>) = like h"
    "like (h\<lparr>gr_offset_pair := ps\<rparr>) = like h" "like (h\<lparr>gr_edge_weight_rejection_max := ws\<rparr>) = like h" for h xs ws as ps
    by (simp_all add: like_def csr_ok_def)
  have e: "edges_of (h\<lparr>gr_vertex_label := xs\<rparr>) = edges_of h" "edges_of (h\<lparr>gr_vertex_weight := ws\<rparr>) = edges_of h"
    "edges_of (h\<lparr>gr_edge_label := xs\<rparr>) = edges_of h" "edges_of (h\<lparr>gr_edge_weight := ws\<rparr>) = edges_of h"
    "edges_of (h\<lparr>gr_edge_weight_prefix_sum := ws\<rparr>) = edges_of h" "edges_of (h\<lparr>gr_edge_weight_alias_table := as\<rparr>) = edges_of h" for h xs ws as
    by (simp_all add: edges_of_def fun_eq_iff)
  have e2: "edges_of ?g2 = edges_of g" by (simp add: edges_of_def fun_eq_iff)
  have "gr_flags ?g0 = ?fl" by (simp add: new_graph_def)
  then show ?thesis
    unfolding load_csr_def Let_def load_degree_stored [OF assms(1,2)] and_then_simps ad
    using l2 by (simp only: opt upd e e2 and_then_simps) (use f(8) in \<open>simp add: collect_metadata_def reloaded_def Let_def new_graph_def\<close>)
qed

text \<open>The round trips.\<close>

lemma store_load_csr:
  assumes "storable g" "\<And>name. mset (order name) = mset [0..<gr_num_vertices g]"
  shows "load_csr order junk (store_csr g dir) (new_graph (gr_flags g)) = Inr ((reloaded g)\<lparr>gr_partition_offset := []\<rparr>)"
proof -
  have "(new_graph (gr_flags g))\<lparr>gr_partition_offset := []\<rparr> = new_graph (gr_flags g)" by (simp add: new_graph_def)
  with load_csr_result [OF assms(1) store_csr_holds assms(2), where po = "[]"] show ?thesis by simp
qed

lemma holds_files_partition: "holds_files g dir \<Longrightarrow> holds_files g (dir(partition_file_name \<mapsto> ws))"
  by (auto simp: holds_files_def csr_files_def Let_def csr_file_names open_file_def)

lemma store_load_partition_csr:
  assumes "storable g" "\<And>name. mset (order name) = mset [0..<gr_num_vertices g]"
    and "gr_partition_offset g \<noteq> []" "length (gr_partition_offset g) < 2 ^ 31" "\<forall>x \<in> set (gr_partition_offset g). x \<le> gr_num_vertices g"
  shows "\<exists>dir'. store_partition_csr g dir = Inr dir' \<and> load_partition_csr order junk dir' (new_graph (gr_flags g)) = Inr (reloaded g)"
proof -
  let ?po = "gr_partition_offset g"
  let ?dir = "(store_csr g dir)(partition_file_name \<mapsto> [4, word_of_nat (num_partitions g)] @ map word_of_nat ?po)"
  have l: "num_partitions g + 1 = length ?po" using assms(3) by (cases ?po) (simp_all add: num_partitions_def)
  then have st: "store_partition_csr g dir = Inr ?dir" using assms(3) by (simp add: store_partition_csr_def)
  have b: "\<forall>x \<in> set ?po. x < 2 ^ 31" using assms(1,5) by (auto simp: storable_def)
  have np: "sint (word_of_nat (num_partitions g) :: u32) = int (num_partitions g)"
    by (rule sint_small(1)) (use l assms(4) in simp)
  have o: "open_file ?dir partition_file_name = 4 # word_of_nat (num_partitions g) # map word_of_nat ?po"
    by (simp add: open_file_def)
  have t: "take (num_partitions g + 1) (map word_of_nat ?po :: u32 list) = map word_of_nat ?po" using l by simp
  have "load_csr_partition_file ?dir h = Inr (h\<lparr>gr_partition_offset := ?po\<rparr>)" for h
    unfolding load_csr_partition_file_def o list.case np nat_int t small_words(1) [OF b]
    using small_words(2) [OF b] l by simp
  then have "load_partition_csr order junk ?dir (new_graph (gr_flags g)) = Inr ((reloaded g)\<lparr>gr_partition_offset := ?po\<rparr>)"
    unfolding load_partition_csr_def
    by (simp add: load_csr_result [OF assms(1) holds_files_partition [OF store_csr_holds] assms(2)])
  moreover have "(reloaded g)\<lparr>gr_partition_offset := ?po\<rparr> = reloaded g" by (simp add: reloaded_def Let_def)
  ultimately show ?thesis using st by auto
qed

section \<open>Edge lists\<close>

definition row_lines :: "(nat \<Rightarrow> nat \<Rightarrow> bool) \<Rightarrow> graph \<Rightarrow> nat \<Rightarrow> string list" where
  "row_lines keep g src =
     concat (map (\<lambda>i. let dst = gr_adj g ! i in if keep src dst then [show_nat src @ '' '' @ show_nat dst] else [])
       [gr_offset g ! src..<gr_offset g ! (src + 1)])"

definition store_edge_list :: "graph \<Rightarrow> string list" where
  "store_edge_list g =
     (''#t'' @ show_nat (gr_num_vertices g) @ '' '' @ show_nat (gr_num_edges g div 2)) #
     concat (map (row_lines (<) g) [0..<gr_num_vertices g])"

definition store_edge_list_directed :: "graph \<Rightarrow> string list" where
  "store_edge_list_directed g =
     (''#t'' @ show_nat (gr_num_vertices g) @ '' '' @ show_nat (gr_num_edges g)) #
     concat (map (row_lines (\<lambda>_ _. True) g) [0..<gr_num_vertices g])"

lemma neighbors_nth: 
  assumes "csr_ok g" "u < gr_num_vertices g"
  shows "neighbors g u = map (\<lambda>i. gr_adj g ! i) [gr_offset g ! u..<gr_offset g ! (u + 1)]"
proof -
  have g: "length (gr_degree g) = gr_num_vertices g" "gr_offset g = offsets_of (gr_degree g)" "length (gr_adj g) = gr_num_edges g"
    using assms(1) by (simp_all add: csr_ok_def)
  have o: "gr_offset g ! (u + 1) = gr_offset g ! u + gr_degree g ! u"
    using offsets_of_Suc [of u "gr_degree g"] assms(2) g by simp
  show ?thesis
    unfolding o neighbors_def using map_nth_slice [of _ _ "gr_adj g" id] length_slice(2) [OF assms g(3)] g(3) by simp
qed

lemma concat_if: "concat (map (\<lambda>x. if P x then [f x] else []) xs) = map f (filter P xs)"
  by (induction xs) simp_all

lemma row_lines_neighbors:
  assumes "csr_ok g" "u < gr_num_vertices g"
  shows "row_lines keep g u = map (\<lambda>v. show_nat u @ '' '' @ show_nat v) (filter (keep u) (neighbors g u))"
  unfolding neighbors_nth [OF assms] row_lines_def Let_def concat_if filter_map map_map by (simp add: comp_def)

text \<open>A stored edge list is read again: each line is an edge, the header is a comment.\<close>

lemma edge_line:
  assumes "u < 2 ^ 31" "v < 2 ^ 31"
  shows "parse_line (show_nat u @ '' '' @ show_nat v) = Some (int u, int v)" "\<not> is_comment CHR ''#'' (show_nat u @ '' '' @ show_nat v)"
proof -
  have "read_int ([] @ show_int (int u) @ '' '' @ show_nat v) = Some (int u, '' '' @ show_nat v)"
    by (rule read_int_show) (use assms in \<open>simp_all add: is_digit_def\<close>)
  moreover have "read_int ('' '' @ show_int (int v) @ []) = Some (int v, [])"
    by (rule read_int_show) (use assms in \<open>simp_all add: is_space_def\<close>)
  ultimately show "parse_line (show_nat u @ '' '' @ show_nat v) = Some (int u, int v)"
    by (simp add: parse_line_def show_int_def)
  have "is_digit (hd (show_nat u))" using show_nat_digits [of u] show_nat_nonempty [of u] by (cases "show_nat u") simp_all
  then show "\<not> is_comment CHR ''#'' (show_nat u @ '' '' @ show_nat v)"
    using show_nat_nonempty [of u] by (cases "show_nat u") (auto simp: is_comment_def is_digit_def)
qed

definition stored_edges :: "graph \<Rightarrow> (int \<times> int) list" where
  "stored_edges g = concat (map (\<lambda>u. map (\<lambda>v. (int u, int v)) (filter ((<) u) (neighbors g u))) [0..<gr_num_vertices g])"

lemma store_edge_list_lines:
  assumes "csr_ok g" "gr_num_vertices g < 2 ^ 31"
  shows "\<forall>l \<in> set (store_edge_list g). good_line CHR ''#'' l" "file_edge_list CHR ''#'' (store_edge_list g) = stored_edges g"
proof -
  let ?rows = "concat (map (\<lambda>u. map (\<lambda>v. show_nat u @ '' '' @ show_nat v) (filter ((<) u) (neighbors g u))) [0..<gr_num_vertices g])"
  let ?head = "''#t'' @ show_nat (gr_num_vertices g) @ '' '' @ show_nat (gr_num_edges g div 2)"
  have s: "store_edge_list g = ?head # ?rows"
    unfolding store_edge_list_def using row_lines_neighbors [OF assms(1), of _ "(<)"]
    by (intro arg_cong2 [where f = "(#)"] refl arg_cong [where f = concat] map_cong) simp_all
  have h: "is_comment CHR ''#'' ?head" by (simp add: is_comment_def)
  have b: "u < 2 ^ 31 \<and> v < 2 ^ 31" if "u < gr_num_vertices g" "v \<in> set (neighbors g u)" for u v
    using that neighbors_less [OF assms(1) that(2)] assms(2) by linarith
  have "good_line CHR ''#'' l" if "l \<in> set ?rows" for l
    using that b edge_line(1) by (auto simp: good_line_def)
  then show "\<forall>l \<in> set (store_edge_list g). good_line CHR ''#'' l" using h by (simp add: s good_line_def)
  have e: "line_edges CHR ''#'' (show_nat u @ '' '' @ show_nat v) = [(int u, int v)]"
    if "u < gr_num_vertices g" "v \<in> set (filter ((<) u) (neighbors g u))" for u v
  proof -
    have "u < 2 ^ 31 \<and> v < 2 ^ 31" "u < v" using b [of u v] that by simp_all
    then show ?thesis using edge_line [of u v] by (simp add: line_edges_def)
  qed
  have "concat (map (line_edges CHR ''#'') (map (\<lambda>v. show_nat u @ '' '' @ show_nat v) (filter ((<) u) (neighbors g u)))) =
      map (\<lambda>v. (int u, int v)) (filter ((<) u) (neighbors g u))" if "u < gr_num_vertices g" for u
  proof -
    have "concat (map (line_edges CHR ''#'') (map (\<lambda>v. show_nat u @ '' '' @ show_nat v) vs)) = map (\<lambda>v. (int u, int v)) vs"
      if "set vs \<subseteq> set (filter ((<) u) (neighbors g u))" for vs
      using that e [OF \<open>u < gr_num_vertices g\<close>] by (induction vs) (simp_all del: append_Cons)
    then show ?thesis by blast
  qed
  note row = this
  have "concat (map (line_edges CHR ''#'') (concat (map (\<lambda>u. map (\<lambda>v. show_nat u @ '' '' @ show_nat v) (filter ((<) u) (neighbors g u))) us))) =
      concat (map (\<lambda>u. map (\<lambda>v. (int u, int v)) (filter ((<) u) (neighbors g u))) us)"
    if "set us \<subseteq> {..<gr_num_vertices g}" for us
    using that row by (induction us) (simp_all del: append_Cons map_map)
  then have "file_edge_list CHR ''#'' ?rows = stored_edges g"
    unfolding file_edge_list_def stored_edges_def by (simp add: atLeast0LessThan)
  then show "file_edge_list CHR ''#'' (store_edge_list g) = stored_edges g"
    using h by (simp add: s file_edge_list_def line_edges_def)
qed

lemma stored_edges_iff:
  assumes "simple_graph g"
  shows "(int u, int v) \<in> set (stored_edges g) \<longleftrightarrow> u < gr_num_vertices g \<and> u < v \<and> v \<in> set (neighbors g u)"
    "e \<in> set (stored_edges g) \<Longrightarrow> 0 \<le> fst e \<and> fst e < int (gr_num_vertices g) \<and> 0 \<le> snd e \<and> snd e < int (gr_num_vertices g)"
proof -
  show "(int u, int v) \<in> set (stored_edges g) \<longleftrightarrow> u < gr_num_vertices g \<and> u < v \<and> v \<in> set (neighbors g u)"
    by (auto simp: stored_edges_def)
  have c: "csr_ok g" using assms by (simp add: simple_graph_def)
  assume "e \<in> set (stored_edges g)"
  then obtain x y where "e = (int x, int y)" "x < gr_num_vertices g" "y \<in> set (neighbors g x)" by (auto simp: stored_edges_def)
  with neighbors_less [OF c] show "0 \<le> fst e \<and> fst e < int (gr_num_vertices g) \<and> 0 \<le> snd e \<and> snd e < int (gr_num_vertices g)"
    by simp
qed

lemma joined_stored:
  assumes "simple_graph g" "u < gr_num_vertices g"
  shows "joined (stored_edges g) u v \<longleftrightarrow> v \<in> set (neighbors g u)"
proof
  assume "joined (stored_edges g) u v"
  then consider "v \<in> set (neighbors g u)" | "v < gr_num_vertices g" "u \<in> set (neighbors g v)"
    unfolding joined_def stored_edges_iff(1) [OF assms(1)] by blast
  then show "v \<in> set (neighbors g u)" using simple_graph_symmetric [OF assms] by cases blast+
next
  assume v: "v \<in> set (neighbors g u)"
  have "csr_ok g" "u \<notin> set (neighbors g u)" using assms by (simp_all add: simple_graph_def)
  with v have vn: "v < gr_num_vertices g" "u \<noteq> v" using neighbors_less by blast+
  moreover have "u \<in> set (neighbors g v)" using v vn simple_graph_symmetric [OF assms] by blast
  ultimately show "joined (stored_edges g) u v"
    using v assms(2) by (auto simp: joined_def stored_edges_iff(1) [OF assms(1)])
qed

text \<open>
  The text format does not keep the number of vertices: vertices without edges at the end
  are lost, all others come back with their neighbours.
\<close>

lemma store_load_edge_list:
  fixes g
  defines "n \<equiv> nat (max_id (stored_edges g) 0 + 1)"
  assumes "simple_graph g" "0 < gr_num_vertices g" "gr_num_vertices g < 2 ^ 31" "mset order = mset [0..<n]"
  shows "\<exists>g'. load_edge_list order junk CHR ''#'' (store_edge_list g) h = Inr g' \<and> simple_graph g' \<and>
    gr_num_vertices g' = n \<and> n \<le> gr_num_vertices g \<and> (\<forall>u < n. neighbors g' u = neighbors g u) \<and>
    (\<forall>u. n \<le> u \<and> u < gr_num_vertices g \<longrightarrow> neighbors g u = [])"
proof -
  have c: "csr_ok g" using assms(2) by (simp add: simple_graph_def)
  note sl = store_edge_list_lines [OF c assms(4)] and iff = stored_edges_iff [OF assms(2)]
  have m: "max_id (stored_edges g) 0 < int (gr_num_vertices g)"
    using max_id_mem [of "stored_edges g" 0] iff(2) assms(3) by fastforce
  have "0 \<le> max_id (stored_edges g) 0" by (rule max_id_bounds(1))
  with m have n: "n \<le> gr_num_vertices g" unfolding n_def by linarith
  have "\<exists>g'. load_edge_list order junk CHR ''#'' (store_edge_list g) h = Inr g' \<and> simple_graph g' \<and>
      gr_num_vertices g' = n \<and> gr_flags g' = gr_flags h \<and>
      (\<forall>u < gr_num_vertices g'. set (neighbors g' u) = {v. joined (stored_edges g) u v}) \<and>
      gr_max_degree g' = gr_degree g' ! gr_node_with_max_degree g' \<and>
      (\<forall>u < gr_num_vertices g'. gr_degree g' ! u \<le> gr_max_degree g')"
    unfolding n_def sl(2) [symmetric]
  proof (rule load_edge_list_result [OF sl(1)])
    show "\<forall>e \<in> set (file_edge_list CHR ''#'' (store_edge_list g)). 0 \<le> fst e" unfolding sl(2) using iff(2) by blast
    show "max_id (file_edge_list CHR ''#'' (store_edge_list g)) 0 + 1 < 2 ^ 31" unfolding sl(2) using m assms(4) by simp
    show "mset order = mset [0..<nat (max_id (file_edge_list CHR ''#'' (store_edge_list g)) 0 + 1)]"
      unfolding sl(2) using assms(5) by (simp only: n_def)
  qed
  then obtain g' where g': "load_edge_list order junk CHR ''#'' (store_edge_list g) h = Inr g'" "simple_graph g'"
    "gr_num_vertices g' = n" "\<forall>u < n. set (neighbors g' u) = {v. joined (stored_edges g) u v}" by auto
  have "neighbors g' u = neighbors g u" if "u < n" for u
  proof (rule strict_sorted_equal)
    show "sorted_wrt (<) (neighbors g' u)" "sorted_wrt (<) (neighbors g u)"
      using g'(2,3) assms(2) n that by (auto simp: simple_graph_def)
    show "set (neighbors g' u) = set (neighbors g u)" using g'(4) joined_stored [OF assms(2)] n that by auto
  qed
  moreover have "neighbors g u = []" if u: "n \<le> u" "u < gr_num_vertices g" for u
  proof (rule ccontr)
    assume "neighbors g u \<noteq> []"
    then obtain v where "v \<in> set (neighbors g u)" by (meson list.set_sel(1))
    then have "joined (stored_edges g) u v" using joined_stored [OF assms(2) u(2)] by simp
    then have "int u \<le> max_id (stored_edges g) 0" using max_id_bounds(2) [of "stored_edges g" 0] by (fastforce simp: joined_def)
    with u(1) show False unfolding n_def by linarith
  qed
  ultimately show ?thesis using g' n by blast
qed

end
