(* ===== verification/Graph_Tools.thy ===== *)
theory Graph_Tools
  imports Graph_Relabel "HOL-Library.Sublist"
begin

text \<open>
  The stand-alone graph tools: reading an edge list and building the compressed rows
  (\<open>host/graph/graph.cpp\<close>), the same after the vertices are renumbered by descending degree
  (\<open>host/graph_sort/graph.cpp\<close>), and with the renumbering done while the rows are built
  (\<open>host/graph_reorder/graph.cpp\<close>).  A file is the list of its lines, \<open>None\<close> when it cannot
  be opened.  \<open>None\<close> as a result is \<open>exit\<close> or undefined behaviour (an access outside a vector, an
  overflow).  A file has fewer than \<open>2 ^ 30\<close> lines, so counts of edges fit the types used for them.
\<close>

section \<open>Reading\<close>

text \<open>\<open>operator>>\<close> of an \<open>id_t\<close> (\<open>uint32_t\<close>): a minus sign negates modulo \<open>2 ^ 32\<close>.\<close>

definition read_uint :: "string \<Rightarrow> (int \<times> string) option" where
  "read_uint s =
     (let s1 = dropWhile is_space s;
          neg = (s1 \<noteq> [] \<and> hd s1 = CHR ''-'');
          s2 = (if s1 \<noteq> [] \<and> hd s1 \<in> {CHR ''-'', CHR ''+''} then tl s1 else s1);
          ds = takeWhile is_digit s2;
          v = int (digits_value 0 ds)
      in if ds = [] \<or> 2 ^ 32 \<le> v then None else Some (if neg then (- v) mod 2 ^ 32 else v, dropWhile is_digit s2))"

lemma read_uint_shorter: "read_uint s = Some (v, rest) \<Longrightarrow> length rest < length s"
proof -
  assume r: "read_uint s = Some (v, rest)"
  let ?s1 = "dropWhile is_space s"
  let ?s2 = "if ?s1 \<noteq> [] \<and> hd ?s1 \<in> {CHR ''-'', CHR ''+''} then tl ?s1 else ?s1"
  have "rest = dropWhile is_digit ?s2" "takeWhile is_digit ?s2 \<noteq> []"
    using r by (auto simp: read_uint_def Let_def split: if_splits)
  moreover have "length ?s2 = length (takeWhile is_digit ?s2) + length (dropWhile is_digit ?s2)"
    by (metis length_append takeWhile_dropWhile_id)
  moreover have "length ?s2 \<le> length ?s1" by simp
  moreover have "length ?s1 \<le> length s" by (simp add: length_dropWhile_le)
  ultimately show ?thesis by (cases "takeWhile is_digit ?s2") auto
qed

function read_uints :: "string \<Rightarrow> int list" where
  "read_uints s = (case read_uint s of None \<Rightarrow> [] | Some (v, rest) \<Rightarrow> v # read_uints rest)"
  by auto
termination by (relation "measure length") (auto simp: read_uint_shorter)

declare read_uints.simps [simp del]

text \<open>\<open>loadFile\<close>, with the iterator over the numbers of a line as argument.\<close>

definition loadFile :: "(string \<Rightarrow> int list) \<Rightarrow> string list option \<Rightarrow> int list list option" where
  "loadFile iter fhandle = map_option (map iter) fhandle"

definition getMaxIdx :: "int list list \<Rightarrow> int option" where
  "getMaxIdx data =
     (case data of (d # _) # _ \<Rightarrow> Some (fold (\<lambda>x m. if m \<le> x then x else m) (concat data) d) | _ \<Rightarrow> None)"

section \<open>The vertices\<close>

record gvertex =
  vx_idx :: nat
  vx_inDeg :: nat       \<comment> \<open>not initialised by the constructor, set before it is read\<close>
  vx_outDeg :: nat
  vx_inVid :: "nat list"
  vx_outVid :: "nat list"

definition new_vertex :: "nat \<Rightarrow> gvertex" where
  "new_vertex i = \<lparr>vx_idx = i, vx_inDeg = 0, vx_outDeg = 0, vx_inVid = [], vx_outVid = []\<rparr>"

definition push_out :: "nat \<Rightarrow> nat \<Rightarrow> gvertex list \<Rightarrow> gvertex list" where
  "push_out u v vs = vs[u := (vs ! u)\<lparr>vx_outVid := vx_outVid (vs ! u) @ [v]\<rparr>]"

definition push_in :: "nat \<Rightarrow> nat \<Rightarrow> gvertex list \<Rightarrow> gvertex list" where
  "push_in u v vs = vs[u := (vs ! u)\<lparr>vx_inVid := vx_inVid (vs ! u) @ [v]\<rparr>]"

definition push_edge :: "bool \<Rightarrow> nat \<Rightarrow> nat \<Rightarrow> gvertex list \<Rightarrow> gvertex list" where
  "push_edge isUgraph srcIdx dstIdx vs =
     (let vs = push_in dstIdx srcIdx (push_out srcIdx dstIdx vs)
      in if isUgraph \<and> srcIdx \<noteq> dstIdx then push_in srcIdx dstIdx (push_out dstIdx srcIdx vs) else vs)"

text \<open>The loop over the lines; \<open>idx\<close> is the identity or \<open>remap\<close>.\<close>

fun add_edges :: "bool \<Rightarrow> (nat \<Rightarrow> nat) \<Rightarrow> int list list \<Rightarrow> gvertex list \<Rightarrow> gvertex list option" where
  "add_edges isUgraph idx [] vs = Some vs"
| "add_edges isUgraph idx (row # rows) vs =
     (case row of
        a # b # _ \<Rightarrow>
          (if 0 \<le> a \<and> nat a < length vs \<and> 0 \<le> b \<and> nat b < length vs
           then add_edges isUgraph idx rows (push_edge isUgraph (idx (nat a)) (idx (nat b)) vs) else None)
      | _ \<Rightarrow> None)"

definition set_degrees :: "gvertex list \<Rightarrow> gvertex list" where
  "set_degrees vs = map (\<lambda>v. v\<lparr>vx_inDeg := length (vx_inVid v), vx_outDeg := length (vx_outVid v)\<rparr>) vs"

text \<open>\<open>std::stable_sort\<close> of the positions by descending value.\<close>

definition sort_indexes :: "nat list \<Rightarrow> nat list" where
  "sort_indexes v = sort_key (\<lambda>i. - int (v ! i)) [0..<length v]"

section \<open>The three programs\<close>

record tool_graph =
  tg_vertexNum :: nat
  tg_edgeNum :: nat
  tg_vertices :: "gvertex list"
  tg_outDeg :: "nat list"
  tg_map :: "nat list"      \<comment> \<open>new index to old index\<close>
  tg_remap :: "nat list"    \<comment> \<open>old index to new index\<close>

text \<open>\<open>host/graph_reorder/graph.cpp\<close>: the graph is always undirected.\<close>

definition reorder_graph :: "string list option \<Rightarrow> tool_graph option" where
  "reorder_graph fhandle =
     (case loadFile read_ints fhandle of
        None \<Rightarrow> None
      | Some data \<Rightarrow>
          (case getMaxIdx data of
             None \<Rightarrow> None
           | Some maxIdx \<Rightarrow>
               (if maxIdx = 2 ^ 31 - 1 then None
                else (let vertexNum = nat (maxIdx + 1)
                      in case add_edges True (\<lambda>i. i) data (map new_vertex [0..<vertexNum]) of
                           None \<Rightarrow> None
                         | Some vs \<Rightarrow>
                             (let vertices = set_degrees vs; outDeg = map vx_outDeg vertices; mp = sort_indexes outDeg
                              in Some \<lparr>tg_vertexNum = vertexNum, tg_edgeNum = length data, tg_vertices = vertices,
                                       tg_outDeg = outDeg, tg_map = mp, tg_remap = invert_order mp (length mp)\<rparr>)))))"

text \<open>\<open>host/graph/graph.cpp\<close>: \<open>vertexNum\<close> is the largest vertex.\<close>

definition is_ugraph :: "string \<Rightarrow> bool \<Rightarrow> bool" where
  "is_ugraph gName undirected \<longleftrightarrow> sublist ''ungraph'' gName \<or> undirected"

definition plain_graph :: "string \<Rightarrow> bool \<Rightarrow> string list option \<Rightarrow> tool_graph option" where
  "plain_graph gName undirected fhandle =
     (case loadFile read_uints fhandle of
        None \<Rightarrow> None
      | Some data \<Rightarrow>
          (case getMaxIdx data of
             None \<Rightarrow> None
           | Some maxIdx \<Rightarrow>
               (case add_edges (is_ugraph gName undirected) (\<lambda>i. i) data (map new_vertex [0..<nat ((maxIdx + 1) mod 2 ^ 32)]) of
                  None \<Rightarrow> None
                | Some vs \<Rightarrow> Some \<lparr>tg_vertexNum = nat maxIdx, tg_edgeNum = length data, tg_vertices = set_degrees vs,
                                   tg_outDeg = [], tg_map = [], tg_remap = []\<rparr>)))"

text \<open>\<open>host/graph_sort/graph.cpp\<close>: the edges are added again with the new numbers.\<close>

definition sort_graph :: "string \<Rightarrow> bool \<Rightarrow> string list option \<Rightarrow> tool_graph option" where
  "sort_graph gName undirected fhandle =
     (case loadFile read_uints fhandle of
        None \<Rightarrow> None
      | Some data \<Rightarrow>
          (case getMaxIdx data of
             None \<Rightarrow> None
           | Some maxIdx \<Rightarrow>
               (let isUgraph = is_ugraph gName undirected; localVertexNum = nat ((maxIdx + 1) mod 2 ^ 32)
                in case add_edges isUgraph (\<lambda>i. i) data (map new_vertex [0..<localVertexNum]) of
                     None \<Rightarrow> None
                   | Some vs \<Rightarrow>
                       (let outDeg = map vx_outDeg (set_degrees vs); mp = sort_indexes outDeg; remap = invert_order mp (length mp)
                        in case add_edges isUgraph (\<lambda>i. remap ! i) data (map new_vertex [0..<localVertexNum]) of
                             None \<Rightarrow> None
                           | Some vs' \<Rightarrow> Some \<lparr>tg_vertexNum = nat maxIdx, tg_edgeNum = length data,
                               tg_vertices = set_degrees vs', tg_outDeg = outDeg, tg_map = mp, tg_remap = remap\<rparr>))))"

section \<open>Compressed rows\<close>

record csr =
  cs_vertexNum :: nat
  cs_edgeNum :: nat
  cs_rpao :: "nat list"
  cs_ciao :: "nat list"
  cs_rpai :: "nat list"
  cs_ciai :: "nat list"

text \<open>\<open>host/graph_reorder/graph.cpp\<close>: the lists of a vertex are sorted and \<open>std::unique\<close> in place.\<close>

definition sort_unique :: "nat list \<Rightarrow> nat list" where
  "sort_unique xs = remdups_adj (sort xs)"

definition reorder_step :: "tool_graph \<Rightarrow> nat \<Rightarrow> gvertex list \<times> csr \<Rightarrow> gvertex list \<times> csr" where
  "reorder_step g i st =
     (case st of (vs, c) \<Rightarrow>
        let index = tg_map g ! i; outs = sort_unique (vx_outVid (vs ! index)); ins = sort_unique (vx_inVid (vs ! index))
        in (vs[index := (vs ! index)\<lparr>vx_outVid := outs, vx_inVid := ins\<rparr>],
            c\<lparr>cs_rpao := (cs_rpao c)[i + 1 := cs_rpao c ! i + length outs],
              cs_rpai := (cs_rpai c)[i + 1 := cs_rpai c ! i + length ins],
              cs_ciao := cs_ciao c @ map (\<lambda>id. tg_remap g ! id) outs,
              cs_ciai := cs_ciai c @ map (\<lambda>id. tg_remap g ! id) ins\<rparr>))"

definition reorder_csr :: "tool_graph \<Rightarrow> csr" where
  "reorder_csr g =
     (let n = tg_vertexNum g;
          c = snd (fold (reorder_step g) [0..<n] (tg_vertices g, \<lparr>cs_vertexNum = n, cs_edgeNum = tg_edgeNum g,
            cs_rpao = replicate (n + 1) 0, cs_ciao = [], cs_rpai = replicate (n + 1) 0, cs_ciai = []\<rparr>))
      in c\<lparr>cs_edgeNum := length (cs_ciao c) + length (cs_ciai c)\<rparr>)"

text \<open>
  \<open>host/graph/graph.cpp\<close>, \<open>host/graph_sort/graph.cpp\<close>: the loop that fills a row pointer array
  resized to \<open>words\<close>, for the vertices 0 to \<open>vertexNum\<close>.
\<close>

definition pointer_step :: "(gvertex \<Rightarrow> nat) \<Rightarrow> gvertex list \<Rightarrow> nat \<Rightarrow> nat list option \<Rightarrow> nat list option" where
  "pointer_step deg vs i r =
     (case r of
        None \<Rightarrow> None
      | Some rp \<Rightarrow> if i + 1 < length rp \<and> i < length vs then Some (rp[i + 1 := rp ! i + deg (vs ! i)]) else None)"

definition row_pointers :: "nat \<Rightarrow> (gvertex \<Rightarrow> nat) \<Rightarrow> gvertex list \<Rightarrow> nat \<Rightarrow> nat list option" where
  "row_pointers words deg vs vertexNum =
     fold (pointer_step deg vs) [0..<vertexNum + 1] (Some (replicate words 0))"

definition plain_csr :: "tool_graph \<Rightarrow> csr option" where
  "plain_csr g =
     (let n = tg_vertexNum g; words = n + 1
      in case (row_pointers words vx_outDeg (tg_vertices g) n, row_pointers words vx_inDeg (tg_vertices g) n) of
           (Some rpao, Some rpai) \<Rightarrow>
             Some \<lparr>cs_vertexNum = n, cs_edgeNum = tg_edgeNum g,
                   cs_rpao = rpao, cs_ciao = concat (map (\<lambda>i. sort (vx_outVid (tg_vertices g ! i))) [0..<n + 1]),
                   cs_rpai = rpai, cs_ciai = concat (map (\<lambda>i. sort (vx_inVid (tg_vertices g ! i))) [0..<n + 1])\<rparr>
         | _ \<Rightarrow> None)"

text \<open>\<open>ischild\<close>: the loop over the row of \<open>p\<close>.\<close>

definition ischild :: "csr \<Rightarrow> nat \<Rightarrow> nat \<Rightarrow> bool" where
  "ischild cs p c =
     (let offest = cs_rpao cs ! p; degree = cs_rpao cs ! (p + 1) - cs_rpao cs ! p
      in list_ex (\<lambda>i. cs_ciao cs ! (i + offest) = c) [0..<degree])"

text \<open>\<open>save2File\<close>: the lines of \<open>csr_offsets.txt\<close> and of \<open>csr_columns.txt\<close>.\<close>

definition save2File :: "csr \<Rightarrow> string list \<times> string list" where
  "save2File cs = (show_nat (length (cs_rpao cs) - 1) # map show_nat (cs_rpao cs),
                   show_nat (length (cs_ciao cs)) # map show_nat (cs_ciao cs))"

section \<open>The lists of a vertex\<close>

text \<open>What the edges \<open>es\<close> add to the lists of vertex \<open>v\<close>.\<close>

definition out_list :: "bool \<Rightarrow> (nat \<times> nat) list \<Rightarrow> nat \<Rightarrow> nat list" where
  "out_list u es v =
     concat (map (\<lambda>(s, d). (if s = v then [d] else []) @ (if u \<and> s \<noteq> d \<and> d = v then [s] else [])) es)"

definition in_list :: "bool \<Rightarrow> (nat \<times> nat) list \<Rightarrow> nat \<Rightarrow> nat list" where
  "in_list u es v =
     concat (map (\<lambda>(s, d). (if d = v then [s] else []) @ (if u \<and> s \<noteq> d \<and> s = v then [d] else [])) es)"

definition edge_pair :: "int list \<Rightarrow> nat \<times> nat" where
  "edge_pair row = (nat (row ! 0), nat (row ! 1))"

text \<open>The edges of a file under the numbers \<open>idx\<close>.\<close>

definition row_edges :: "(nat \<Rightarrow> nat) \<Rightarrow> int list list \<Rightarrow> (nat \<times> nat) list" where
  "row_edges idx rows = map (\<lambda>row. map_prod idx idx (edge_pair row)) rows"

definition rows_ok :: "nat \<Rightarrow> int list list \<Rightarrow> bool" where
  "rows_ok n rows \<longleftrightarrow> (\<forall>row \<in> set rows. 2 \<le> length row \<and> 0 \<le> row ! 0 \<and> row ! 0 < int n \<and> 0 \<le> row ! 1 \<and> row ! 1 < int n)"

lemma in_list_undirected: "in_list True es v = out_list True es v"
  by (induction es) (auto simp: in_list_def out_list_def)

lemma set_out_list: "set (out_list True es v) = {w. (v, w) \<in> set es \<or> (w, v) \<in> set es}"
  by (induction es) (auto simp: out_list_def split: if_splits)

lemma out_list_rename:
  assumes "inj_on f A" "\<forall>(s, d) \<in> set es. s \<in> A \<and> d \<in> A" "v \<in> A"
  shows "out_list u (map (map_prod f f) es) (f v) = map f (out_list u es v)"
    and "in_list u (map (map_prod f f) es) (f v) = map f (in_list u es v)"
  using assms(2,3) by (induction es) (auto simp: out_list_def in_list_def inj_on_eq_iff [OF assms(1)])

lemma push_edge_length [simp]: "length (push_edge u s d vs) = length vs"
  by (simp add: push_edge_def push_in_def push_out_def Let_def)

lemma push_edge_lists:
  assumes "s < length vs" "d < length vs" "v < length vs"
  shows "vx_outVid (push_edge u s d vs ! v) = vx_outVid (vs ! v) @ out_list u [(s, d)] v"
    and "vx_inVid (push_edge u s d vs ! v) = vx_inVid (vs ! v) @ in_list u [(s, d)] v"
    and "vx_idx (push_edge u s d vs ! v) = vx_idx (vs ! v)"
  using assms by (auto simp: push_edge_def push_in_def push_out_def out_list_def in_list_def Let_def nth_list_update)

lemma out_list_Cons:
  "out_list u (e # es) v = out_list u [e] v @ out_list u es v" "in_list u (e # es) v = in_list u [e] v @ in_list u es v"
  by (simp_all add: out_list_def in_list_def)

lemma add_edges_lists:
  assumes "rows_ok (length vs) rows" "\<forall>i < length vs. idx i < length vs"
  shows "\<exists>vs'. add_edges u idx rows vs = Some vs' \<and> length vs' = length vs \<and>
    (\<forall>v < length vs. vx_idx (vs' ! v) = vx_idx (vs ! v) \<and>
      vx_outVid (vs' ! v) = vx_outVid (vs ! v) @ out_list u (row_edges idx rows) v \<and>
      vx_inVid (vs' ! v) = vx_inVid (vs ! v) @ in_list u (row_edges idx rows) v)"
  using assms
proof (induction rows arbitrary: vs)
  case Nil
  then show ?case by (simp add: out_list_def in_list_def row_edges_def)
next
  case (Cons row rows)
  obtain a b r where row: "row = a # b # r"
    using Cons.prems(1) by (cases row; cases "tl row") (auto simp: rows_ok_def)
  have ab: "0 \<le> a" "nat a < length vs" "0 \<le> b" "nat b < length vs"
    using Cons.prems(1) by (auto simp: rows_ok_def row)
  let ?vs = "push_edge u (idx (nat a)) (idx (nat b)) vs"
  obtain vs' where r: "add_edges u idx rows ?vs = Some vs'" "length vs' = length vs" and
    v: "\<And>v. v < length vs \<Longrightarrow> vx_idx (vs' ! v) = vx_idx (?vs ! v) \<and>
      vx_outVid (vs' ! v) = vx_outVid (?vs ! v) @ out_list u (row_edges idx rows) v \<and>
      vx_inVid (vs' ! v) = vx_inVid (?vs ! v) @ in_list u (row_edges idx rows) v"
    using Cons.IH [of ?vs] Cons.prems by (auto simp: rows_ok_def)
  have e: "edge_pair row = (nat a, nat b)" by (simp add: edge_pair_def row)
  note p = push_edge_lists [OF Cons.prems(2) [rule_format, OF ab(2)] Cons.prems(2) [rule_format, OF ab(4)]]
  show ?case
    using r v ab p out_list_Cons [of u _ "row_edges idx rows"]
    by (auto simp: row row_edges_def [of idx "_ # _"] row_edges_def [of idx rows, symmetric] e [unfolded row])
qed

lemma add_edges_only: "add_edges u idx rows vs = Some vs' \<Longrightarrow> rows_ok (length vs) rows"
proof (induction rows arbitrary: vs)
  case (Cons row rows)
  then show ?case
    by (fastforce simp: rows_ok_def split: list.splits if_splits)
qed (simp add: rows_ok_def)

section \<open>The constructors\<close>

lemma getMaxIdx_Some:
  assumes "getMaxIdx data = Some m"
  shows "x \<in> set (concat data) \<Longrightarrow> x \<le> m" "m \<in> set (concat data)"
proof -
  have f: "(\<lambda>x m. if m \<le> x then x else m) = (max :: int \<Rightarrow> int \<Rightarrow> int)" by (intro ext) auto
  obtain d r rs where data: "data = (d # r) # rs" and m: "m = fold max (concat data) d"
    using assms by (auto simp: getMaxIdx_def f split: list.splits)
  have m': "m = Max (set (concat data))"
    using m by (simp only: Max.set_eq_fold [symmetric]) (simp add: data)
  have ne: "set (concat data) \<noteq> {}" by (simp add: data)
  show "m \<in> set (concat data)" unfolding m' by (rule Max_in [OF finite_set ne])
  show "x \<in> set (concat data) \<Longrightarrow> x \<le> m" unfolding m' by (rule Max_ge [OF finite_set])
qed

lemma getMaxIdx_defined: "(\<exists>m. getMaxIdx data = Some m) \<longleftrightarrow> data \<noteq> [] \<and> hd data \<noteq> []"
  by (auto simp: getMaxIdx_def split: list.splits)

text \<open>Files without an error: every line begins with two vertices, and no number reaches \<open>M\<close>.\<close>

definition tool_rows :: "int \<Rightarrow> int list list \<Rightarrow> bool" where
  "tool_rows M data \<longleftrightarrow> data \<noteq> [] \<and>
     (\<forall>row \<in> set data. 2 \<le> length row \<and> 0 \<le> row ! 0 \<and> 0 \<le> row ! 1 \<and> (\<forall>x \<in> set row. x < M))"

lemma read_ints_range: "x \<in> set (read_ints s) \<Longrightarrow> x < 2 ^ 31"
proof (induction s rule: read_ints.induct)
  case (1 s)
  then show ?case
    by (subst (asm) (2) read_ints.simps) (auto simp: read_int_def Let_def split: option.splits if_splits)
qed

lemma read_uint_range: "read_uint s = Some (v, r) \<Longrightarrow> 0 \<le> v \<and> v < 2 ^ 32"
  by (auto simp: read_uint_def Let_def split: if_splits)

lemma read_uints_range: "x \<in> set (read_uints s) \<Longrightarrow> 0 \<le> x \<and> x < 2 ^ 32"
proof (induction s rule: read_uints.induct)
  case (1 s)
  then show ?case
    by (cases "read_uint s") (force simp: read_uints.simps [of s] dest: read_uint_range)+
qed

lemma tool_rows_ok:
  assumes "tool_rows M data"
  shows "\<exists>m. getMaxIdx data = Some m \<and> 0 \<le> m \<and> m < M \<and> rows_ok (nat (m + 1)) data"
proof -
  have r: "2 \<le> length row" "0 \<le> row ! 0" "0 \<le> row ! 1" "\<And>x. x \<in> set row \<Longrightarrow> x < M" if "row \<in> set data" for row
    using assms that by (auto simp: tool_rows_def)
  have ne: "data \<noteq> []" using assms by (simp add: tool_rows_def)
  then have "hd data \<noteq> []" using r(1) [OF hd_in_set [OF ne]] by auto
  with ne obtain m where m: "getMaxIdx data = Some m" using getMaxIdx_defined by blast
  note mx = getMaxIdx_Some [OF m]
  have in_row: "row ! 0 \<le> m" "row ! 1 \<le> m" if "row \<in> set data" for row
    using r(1) [OF that] that by (auto intro!: mx(1) bexI [of _ row] nth_mem)
  have "0 \<le> m" using in_row(1) r(2) hd_in_set [OF ne] by force
  moreover have "m < M" using mx(2) r(4) by auto
  moreover have "rows_ok (nat (m + 1)) data"
    using in_row r \<open>0 \<le> m\<close> by (force simp: rows_ok_def)
  ultimately show ?thesis using m by blast
qed

lemma tool_rows_of:
  assumes "getMaxIdx data = Some m" "rows_ok (nat (m + 1)) data" "m < M"
  shows "tool_rows M data" "0 \<le> m"
proof -
  note mx = getMaxIdx_Some [OF assms(1)]
  have "data \<noteq> []" using assms(1) by (auto simp: getMaxIdx_def)
  then show "tool_rows M data" using assms(2,3) mx(1) by (fastforce simp: tool_rows_def rows_ok_def)
  from hd_in_set [OF \<open>data \<noteq> []\<close>] assms(2) have "(hd data) ! 0 < int (nat (m + 1))" "0 \<le> (hd data) ! 0" by (auto simp: rows_ok_def)
  then show "0 \<le> m" by (simp split: if_splits)
qed

lemma row_edges_less: "rows_ok n rows \<Longrightarrow> (s, d) \<in> set (row_edges (\<lambda>i. i) rows) \<Longrightarrow> s < n \<and> d < n"
  by (auto simp: rows_ok_def row_edges_def edge_pair_def map_prod_def)

text \<open>Adding the edges of a file to new vertices.\<close>

lemma add_edges_new:
  assumes "add_edges u idx rows (map new_vertex [0..<n]) = Some vs" "\<forall>i < n. idx i < n"
  shows "rows_ok n rows" "length vs = n"
    "v < n \<Longrightarrow> vx_idx (vs ! v) = v \<and> vx_outVid (vs ! v) = out_list u (row_edges idx rows) v \<and>
      vx_inVid (vs ! v) = in_list u (row_edges idx rows) v"
proof -
  show ok: "rows_ok n rows" using add_edges_only [OF assms(1)] by simp
  from add_edges_lists [of "map new_vertex [0..<n]" rows idx u] ok assms
  show "length vs = n" "v < n \<Longrightarrow> vx_idx (vs ! v) = v \<and> vx_outVid (vs ! v) = out_list u (row_edges idx rows) v \<and>
      vx_inVid (vs ! v) = in_list u (row_edges idx rows) v"
    by (auto simp: new_vertex_def)
qed

lemma add_edges_defined:
  "rows_ok n rows \<Longrightarrow> \<forall>i < n. idx i < n \<Longrightarrow> \<exists>vs. add_edges u idx rows (map new_vertex [0..<n]) = Some vs"
  using add_edges_lists [of "map new_vertex [0..<n]" rows idx u] by auto

lemma sort_indexes_permutes: "mset (sort_indexes v) = mset [0..<length v]"
  by (simp add: sort_indexes_def)

lemma sort_indexes_descending:
  assumes "i < j" "j < length v"
  shows "v ! (sort_indexes v ! j) \<le> v ! (sort_indexes v ! i)"
proof -
  have "sorted (map (\<lambda>i. - int (v ! i)) (sort_indexes v))" by (simp add: sort_indexes_def)
  from sorted_nth_mono [OF this, of i j] assms show ?thesis by (simp add: sort_indexes_def)
qed

text \<open>The stable sort: vertices of equal degree stay in the order of their numbers.\<close>

lemma sort_indexes_stable:
  assumes "i < j" "j < length v" "v ! (sort_indexes v ! i) = v ! (sort_indexes v ! j)"
  shows "sort_indexes v ! i < sort_indexes v ! j"
proof -
  let ?xs = "sort_indexes v" and ?k = "v ! (sort_indexes v ! j)"
  have "filter (\<lambda>x. - int (v ! x) = - int ?k) ?xs = filter (\<lambda>x. - int (v ! x) = - int ?k) [0..<length v]"
    unfolding sort_indexes_def by (rule sort_key_stable)
  then have f: "filter (\<lambda>x. v ! x = ?k) ?xs = filter (\<lambda>x. v ! x = ?k) [0..<length v]" by simp
  have s: "sorted_wrt (<) (filter (\<lambda>x. v ! x = ?k) ?xs)"
    unfolding f by (rule sorted_wrt_filter) (rule sorted_wrt_upt)
  have l: "length ?xs = length v" by (simp add: sort_indexes_def)
  have x: "?xs = take i ?xs @ ?xs ! i # drop (Suc i) ?xs" using assms l by (intro id_take_nth_drop) simp
  have "sorted_wrt (<) (filter (\<lambda>x. v ! x = ?k) (?xs ! i # drop (Suc i) ?xs))"
    using s by (subst (asm) x) (simp add: sorted_wrt_append)
  moreover have "?xs ! j \<in> set (drop (Suc i) ?xs)"
    using assms l by (auto simp: in_set_conv_nth intro!: exI [of _ "j - Suc i"])
  ultimately show ?thesis using assms(3) by simp
qed

section \<open>Rows built from the reordered vertices\<close>

definition csr_row :: "nat list \<Rightarrow> nat list \<Rightarrow> nat \<Rightarrow> nat list" where
  "csr_row rp ci i = take (rp ! (i + 1) - rp ! i) (drop (rp ! i) ci)"

lemma csr_row_concat:
  "i < length xss \<Longrightarrow> csr_row (offsets_of (map length xss)) (concat xss) i = xss ! i"
  using concat_slice [of i xss] by (simp add: csr_row_def offsets_of_nth take_Suc_conv_app_nth)

text \<open>The rows of the new vertices.\<close>

definition reorder_row :: "(gvertex \<Rightarrow> nat list) \<Rightarrow> tool_graph \<Rightarrow> nat \<Rightarrow> nat list" where
  "reorder_row f g i = map (\<lambda>id. tg_remap g ! id) (sort_unique (f (tg_vertices g ! (tg_map g ! i))))"

definition reorder_rows :: "(gvertex \<Rightarrow> nat list) \<Rightarrow> tool_graph \<Rightarrow> nat list list" where
  "reorder_rows f g = map (reorder_row f g) [0..<tg_vertexNum g]"

text \<open>Row pointers that are right up to position \<open>k\<close>.\<close>

definition pointers_upto :: "nat \<Rightarrow> nat list \<Rightarrow> nat list \<Rightarrow> bool" where
  "pointers_upto k ds rp \<longleftrightarrow> k < length rp \<and> (\<forall>j \<le> k. rp ! j = sum_list (take j ds))"

lemma pointers_upto_Suc:
  assumes "pointers_upto k ds rp" "k < length ds" "k + 1 < length rp" "d = ds ! k"
  shows "pointers_upto (Suc k) ds (rp[k + 1 := rp ! k + d])"
  using assms by (auto simp: pointers_upto_def nth_list_update take_Suc_conv_app_nth le_Suc_eq)

lemma pointers_upto_all:
  assumes "pointers_upto n ds rp" "length ds = n" "length rp = n + 1"
  shows "rp = offsets_of ds"
  using assms by (intro nth_equalityI) (simp_all add: pointers_upto_def offsets_of_nth)

lemma reorder_fold:
  assumes "mset (tg_map g) = mset [0..<tg_vertexNum g]" "length (tg_vertices g) = tg_vertexNum g"
    and "k \<le> tg_vertexNum g" "c = \<lparr>cs_vertexNum = tg_vertexNum g, cs_edgeNum = m, cs_rpao = replicate (tg_vertexNum g + 1) 0, cs_ciao = [],
      cs_rpai = replicate (tg_vertexNum g + 1) 0, cs_ciai = []\<rparr>"
    and "fold (reorder_step g) [0..<k] (tg_vertices g, c) = (vs, c')"
  shows "length vs = tg_vertexNum g \<and> (\<forall>i < tg_vertexNum g. k \<le> i \<longrightarrow> vs ! (tg_map g ! i) = tg_vertices g ! (tg_map g ! i)) \<and>
    cs_vertexNum c' = tg_vertexNum g \<and> length (cs_rpao c') = tg_vertexNum g + 1 \<and> length (cs_rpai c') = tg_vertexNum g + 1 \<and>
    pointers_upto k (map length (reorder_rows vx_outVid g)) (cs_rpao c') \<and>
    pointers_upto k (map length (reorder_rows vx_inVid g)) (cs_rpai c') \<and>
    cs_ciao c' = concat (take k (reorder_rows vx_outVid g)) \<and> cs_ciai c' = concat (take k (reorder_rows vx_inVid g))"
  using assms(3,5)
proof (induction k arbitrary: vs c')
  case 0
  then show ?case by (auto simp: assms(2,4) pointers_upto_def)
next
  case (Suc k)
  obtain vs1 c1 where f: "fold (reorder_step g) [0..<k] (tg_vertices g, c) = (vs1, c1)" by fastforce
  note IH = Suc.IH [OF Suc_leD [OF Suc.prems(1)] f]
  have k: "k < tg_vertexNum g" using Suc.prems(1) by simp
  note pf = permutation_facts [OF assms(1)]
  have row: "reorder_rows f g ! k = reorder_row f g k" "length (reorder_rows f g) = tg_vertexNum g" for f
    using k by (simp_all add: reorder_rows_def)
  have cur: "vs1 ! (tg_map g ! k) = tg_vertices g ! (tg_map g ! k)" using IH k by simp
  have st: "(vs, c') = reorder_step g k (vs1, c1)" using Suc.prems(2) f by simp
  have other: "tg_map g ! k \<noteq> tg_map g ! i" if "i < tg_vertexNum g" "Suc k \<le> i" for i
    using that k pf(1,3) by (simp add: nth_eq_iff_index_eq)
  have ptr: "pointers_upto (Suc k) (map length (reorder_rows f g)) (rp[k + 1 := rp ! k + length (sort_unique (f (tg_vertices g ! (tg_map g ! k))))])"
    if "pointers_upto k (map length (reorder_rows f g)) rp" "length rp = tg_vertexNum g + 1" for f rp
    using that k by (intro pointers_upto_Suc) (simp_all add: row reorder_row_def)
  show ?case
    using st IH other ptr [of vx_outVid] ptr [of vx_inVid] k
    by (simp add: reorder_step_def Let_def cur take_Suc_conv_app_nth row reorder_row_def)
qed

lemma reorder_csr_result:
  assumes "mset (tg_map g) = mset [0..<tg_vertexNum g]" "length (tg_vertices g) = tg_vertexNum g"
  shows "cs_vertexNum (reorder_csr g) = tg_vertexNum g"
    "cs_rpao (reorder_csr g) = offsets_of (map length (reorder_rows vx_outVid g))"
    "cs_ciao (reorder_csr g) = concat (reorder_rows vx_outVid g)"
    "cs_rpai (reorder_csr g) = offsets_of (map length (reorder_rows vx_inVid g))"
    "cs_ciai (reorder_csr g) = concat (reorder_rows vx_inVid g)"
    "cs_edgeNum (reorder_csr g) = length (cs_ciao (reorder_csr g)) + length (cs_ciai (reorder_csr g))"
proof -
  let ?n = "tg_vertexNum g"
  let ?c = "\<lparr>cs_vertexNum = ?n, cs_edgeNum = tg_edgeNum g, cs_rpao = replicate (?n + 1) 0, cs_ciao = [],
    cs_rpai = replicate (?n + 1) 0, cs_ciai = []\<rparr>"
  obtain vs c where f: "fold (reorder_step g) [0..<?n] (tg_vertices g, ?c) = (vs, c)" by fastforce
  note r = reorder_fold [OF assms order_refl refl f]
  have e: "reorder_csr g = c\<lparr>cs_edgeNum := length (cs_ciao c) + length (cs_ciai c)\<rparr>"
    unfolding reorder_csr_def Let_def f by simp
  have l: "length (reorder_rows f g) = ?n" for f by (simp add: reorder_rows_def)
  show "cs_vertexNum (reorder_csr g) = ?n"
    "cs_ciao (reorder_csr g) = concat (reorder_rows vx_outVid g)" "cs_ciai (reorder_csr g) = concat (reorder_rows vx_inVid g)"
    "cs_edgeNum (reorder_csr g) = length (cs_ciao (reorder_csr g)) + length (cs_ciai (reorder_csr g))"
    using r by (simp_all add: e l)
  show "cs_rpao (reorder_csr g) = offsets_of (map length (reorder_rows vx_outVid g))"
    "cs_rpai (reorder_csr g) = offsets_of (map length (reorder_rows vx_inVid g))"
    using r by (auto simp: e l intro!: pointers_upto_all)
qed

section \<open>The tools\<close>

definition linked :: "(nat \<times> nat) list \<Rightarrow> nat \<Rightarrow> nat \<Rightarrow> bool" where
  "linked es u v \<longleftrightarrow> (u, v) \<in> set es \<or> (v, u) \<in> set es"

lemma out_list_linked: "w \<in> set (out_list True es v) \<longleftrightarrow> linked es v w"
  by (simp add: set_out_list linked_def)

lemma set_degrees_nth [simp]:
  "length (set_degrees vs) = length vs"
  "v < length vs \<Longrightarrow> vx_outVid (set_degrees vs ! v) = vx_outVid (vs ! v)"
  "v < length vs \<Longrightarrow> vx_inVid (set_degrees vs ! v) = vx_inVid (vs ! v)"
  "v < length vs \<Longrightarrow> vx_outDeg (set_degrees vs ! v) = length (vx_outVid (vs ! v))"
  "v < length vs \<Longrightarrow> vx_inDeg (set_degrees vs ! v) = length (vx_inVid (vs ! v))"
  "v < length vs \<Longrightarrow> vx_idx (set_degrees vs ! v) = vx_idx (vs ! v)"
  by (simp_all add: set_degrees_def)

lemma reorder_graph_defined:
  "(\<exists>g. reorder_graph (Some ls) = Some g) \<longleftrightarrow> tool_rows (2 ^ 31 - 1) (map read_ints ls)"
proof
  let ?data = "map read_ints ls"
  assume "\<exists>g. reorder_graph (Some ls) = Some g"
  then obtain m vs where m: "getMaxIdx ?data = Some m" "m \<noteq> 2 ^ 31 - 1"
    "add_edges True (\<lambda>i. i) ?data (map new_vertex [0..<nat (m + 1)]) = Some vs"
    by (auto simp: reorder_graph_def loadFile_def Let_def split: option.splits if_splits)
  have "rows_ok (nat (m + 1)) ?data" using add_edges_only [OF m(3)] by simp
  moreover have "m < 2 ^ 31 - 1"
    using getMaxIdx_Some(2) [OF m(1)] m(2) by (force dest: read_ints_range)
  ultimately show "tool_rows (2 ^ 31 - 1) ?data" by (rule tool_rows_of(1) [OF m(1)])
next
  let ?data = "map read_ints ls"
  assume "tool_rows (2 ^ 31 - 1) ?data"
  from tool_rows_ok [OF this] obtain m where m: "getMaxIdx ?data = Some m" "0 \<le> m" "m < 2 ^ 31 - 1" "rows_ok (nat (m + 1)) ?data" by blast
  with add_edges_defined [OF m(4), of "\<lambda>i. i" True] show "\<exists>g. reorder_graph (Some ls) = Some g"
    by (auto simp: reorder_graph_def loadFile_def Let_def)
qed

lemma reorder_graph_fields:
  assumes "reorder_graph (Some ls) = Some g"
  shows "length (tg_vertices g) = tg_vertexNum g" "tg_edgeNum g = length ls"
    "v < tg_vertexNum g \<Longrightarrow> vx_outVid (tg_vertices g ! v) = out_list True (row_edges (\<lambda>i. i) (map read_ints ls)) v \<and>
      vx_inVid (tg_vertices g ! v) = out_list True (row_edges (\<lambda>i. i) (map read_ints ls)) v"
    "tg_outDeg g = map (\<lambda>v. length (out_list True (row_edges (\<lambda>i. i) (map read_ints ls)) v)) [0..<tg_vertexNum g]"
    "tg_map g = sort_indexes (tg_outDeg g)" "tg_remap g = invert_order (tg_map g) (tg_vertexNum g)"
    "mset (tg_map g) = mset [0..<tg_vertexNum g]" "rows_ok (tg_vertexNum g) (map read_ints ls)"
proof -
  let ?data = "map read_ints ls"
  obtain m vs where m: "getMaxIdx ?data = Some m"
    and a: "add_edges True (\<lambda>i. i) ?data (map new_vertex [0..<nat (m + 1)]) = Some vs"
    and g: "g = \<lparr>tg_vertexNum = nat (m + 1), tg_edgeNum = length ?data, tg_vertices = set_degrees vs,
      tg_outDeg = map vx_outDeg (set_degrees vs), tg_map = sort_indexes (map vx_outDeg (set_degrees vs)),
      tg_remap = invert_order (sort_indexes (map vx_outDeg (set_degrees vs))) (length (sort_indexes (map vx_outDeg (set_degrees vs))))\<rparr>"
    using assms by (auto simp: reorder_graph_def loadFile_def Let_def split: option.splits if_splits)
  note v = add_edges_new [OF a]
  then have ok: "rows_ok (nat (m + 1)) ?data" and l: "length vs = nat (m + 1)" by simp_all
  show "length (tg_vertices g) = tg_vertexNum g" "tg_edgeNum g = length ls" "tg_map g = sort_indexes (tg_outDeg g)"
    "rows_ok (tg_vertexNum g) ?data"
    using l ok by (simp_all add: g)
  show deg: "tg_outDeg g = map (\<lambda>v. length (out_list True (row_edges (\<lambda>i. i) ?data) v)) [0..<tg_vertexNum g]"
    using l v(3) by (intro nth_equalityI) (simp_all add: g)
  show "mset (tg_map g) = mset [0..<tg_vertexNum g]"
    using sort_indexes_permutes [of "map vx_outDeg (set_degrees vs)"] l by (simp add: g)
  show "tg_remap g = invert_order (tg_map g) (tg_vertexNum g)"
    using mset_eq_length [OF sort_indexes_permutes [of "map vx_outDeg (set_degrees vs)"]] l by (simp add: g)
  show "v < tg_vertexNum g \<Longrightarrow> vx_outVid (tg_vertices g ! v) = out_list True (row_edges (\<lambda>i. i) ?data) v \<and>
      vx_inVid (tg_vertices g ! v) = out_list True (row_edges (\<lambda>i. i) ?data) v" for v
    using v(3) [of v] l by (simp add: g in_list_undirected)
qed

lemma distinct_remdups_adj: "sorted xs \<Longrightarrow> distinct (remdups_adj xs)"
  by (induction xs rule: remdups_adj.induct) auto

lemma sort_unique_facts: "distinct (sort_unique xs)" "set (sort_unique xs) = set xs"
  unfolding sort_unique_def by (simp_all add: distinct_remdups_adj)

text \<open>
  The rows of \<open>graph_reorder\<close>: row \<open>i\<close> holds the new numbers of the neighbours of the old
  vertex \<open>map[i]\<close>, each once; incoming and outgoing rows are the same.
\<close>

lemma reorder_rows_result:
  assumes "reorder_graph (Some ls) = Some g"
  shows "cs_rpai (reorder_csr g) = cs_rpao (reorder_csr g)" "cs_ciai (reorder_csr g) = cs_ciao (reorder_csr g)"
    "i < tg_vertexNum g \<Longrightarrow> csr_row (cs_rpao (reorder_csr g)) (cs_ciao (reorder_csr g)) i = reorder_row vx_outVid g i"
    "i < tg_vertexNum g \<Longrightarrow> distinct (reorder_row vx_outVid g i)"
    "i < tg_vertexNum g \<Longrightarrow> j < tg_vertexNum g \<Longrightarrow> j \<in> set (reorder_row vx_outVid g i) \<longleftrightarrow>
      linked (row_edges (\<lambda>i. i) (map read_ints ls)) (tg_map g ! i) (tg_map g ! j)"
    "i < tg_vertexNum g \<Longrightarrow> set (reorder_row vx_outVid g i) \<subseteq> {..<tg_vertexNum g}"
proof -
  let ?es = "row_edges (\<lambda>i. i) (map read_ints ls)" and ?n = "tg_vertexNum g"
  note f = reorder_graph_fields [OF assms]
  note pf = permutation_facts [OF f(7)]
  note c = reorder_csr_result [OF f(7,1)]
  have io: "reorder_rows vx_inVid g = reorder_rows vx_outVid g"
    using f(3) pf(4) by (simp add: reorder_rows_def reorder_row_def)
  show "cs_rpai (reorder_csr g) = cs_rpao (reorder_csr g)" "cs_ciai (reorder_csr g) = cs_ciao (reorder_csr g)"
    by (simp_all add: c io)
  have l: "length (reorder_rows vx_outVid g) = ?n" by (simp add: reorder_rows_def)
  show "i < ?n \<Longrightarrow> csr_row (cs_rpao (reorder_csr g)) (cs_ciao (reorder_csr g)) i = reorder_row vx_outVid g i" for i
    unfolding c(2,3) using csr_row_concat [of i "reorder_rows vx_outVid g"] l by (simp add: reorder_rows_def)
  have r: "reorder_row vx_outVid g i = map (\<lambda>id. tg_remap g ! id) (sort_unique (out_list True ?es (tg_map g ! i)))" if "i < ?n" for i
    using f(3) pf(4) [OF that] by (simp add: reorder_row_def)
  have lt: "w < ?n" if "linked ?es v w" for v w
    using that row_edges_less [OF f(8)] by (auto simp: linked_def)
  note inv = invert_order_inverse [OF f(7), folded f(6)]
  have inj: "inj_on (\<lambda>id. tg_remap g ! id) {..<?n}" by (rule inj_on_inverseI [of _ "\<lambda>j. tg_map g ! j"]) (simp add: inv(2))
  show "distinct (reorder_row vx_outVid g i)" if "i < ?n" for i
    unfolding r [OF that] distinct_map sort_unique_facts
    using lt inj by (auto simp: out_list_linked sort_unique_facts intro: inj_on_subset)
  have s: "set (reorder_row vx_outVid g i) = {tg_remap g ! w |w. linked ?es (tg_map g ! i) w}" if "i < ?n" for i
    unfolding r [OF that] by (auto simp: sort_unique_facts out_list_linked)
  show "j \<in> set (reorder_row vx_outVid g i) \<longleftrightarrow> linked ?es (tg_map g ! i) (tg_map g ! j)" if "i < ?n" "j < ?n" for i j
  proof -
    have "w = tg_map g ! j" if "linked ?es (tg_map g ! i) w" "j = tg_remap g ! w" for w
      using inv(2) [OF lt [OF that(1)]] that(2) by simp
    then show ?thesis
      unfolding s [OF that(1)] using inv(1) [OF that(2)] by (auto intro!: exI [of _ "tg_map g ! j"])
  qed
  show "set (reorder_row vx_outVid g i) \<subseteq> {..<?n}" if "i < ?n" for i
    unfolding s [OF that] using inv(3) lt by auto
qed

text \<open>Vertices are numbered by descending degree, equal degrees in the old order.\<close>

lemma reorder_degrees:
  assumes "reorder_graph (Some ls) = Some g" "i < j" "j < tg_vertexNum g"
  shows "tg_outDeg g ! (tg_map g ! j) < tg_outDeg g ! (tg_map g ! i) \<or>
    tg_outDeg g ! (tg_map g ! j) = tg_outDeg g ! (tg_map g ! i) \<and> tg_map g ! i < tg_map g ! j"
proof -
  note f = reorder_graph_fields [OF assms(1)]
  have "j < length (tg_outDeg g)" using assms(3) by (simp add: f(4))
  from sort_indexes_descending [OF assms(2) this] sort_indexes_stable [OF assms(2) this] show ?thesis
    unfolding f(5) [symmetric] by (metis le_neq_implies_less)
qed

section \<open>Renumbering before the rows are built\<close>

lemma local_vertices:
  assumes "getMaxIdx (map read_uints ls) = Some m" "rows_ok (nat ((m + 1) mod 2 ^ 32)) (map read_uints ls)"
  shows "0 \<le> m" "m < 2 ^ 32 - 1" "nat ((m + 1) mod 2 ^ 32) = nat m + 1"
proof -
  note mx = getMaxIdx_Some [OF assms(1)]
  show m: "0 \<le> m" using mx(2) by (auto dest: read_uints_range)
  have "m < 2 ^ 32" using mx(2) by (auto dest: read_uints_range)
  moreover have "m \<noteq> 2 ^ 32 - 1"
  proof
    assume "m = 2 ^ 32 - 1"
    then have "rows_ok 0 (map read_uints ls)" using assms(2) by simp
    moreover have "ls \<noteq> []" using assms(1) by (auto simp: getMaxIdx_def)
    ultimately show False by (cases ls) (auto simp: rows_ok_def)
  qed
  ultimately show "m < 2 ^ 32 - 1" by simp
  with m show "nat ((m + 1) mod 2 ^ 32) = nat m + 1" by (simp add: nat_add_distrib)
qed

lemma sort_graph_defined:
  "(\<exists>g. sort_graph nm u (Some ls) = Some g) \<longleftrightarrow> tool_rows (2 ^ 32 - 1) (map read_uints ls)"
proof
  let ?data = "map read_uints ls"
  assume "\<exists>g. sort_graph nm u (Some ls) = Some g"
  then obtain m vs where m: "getMaxIdx ?data = Some m"
    and a: "add_edges (is_ugraph nm u) (\<lambda>i. i) ?data (map new_vertex [0..<nat ((m + 1) mod 2 ^ 32)]) = Some vs"
    by (auto simp: sort_graph_def loadFile_def Let_def split: option.splits if_splits)
  have ok: "rows_ok (nat ((m + 1) mod 2 ^ 32)) ?data" using add_edges_only [OF a] by simp
  note l = local_vertices [OF m ok]
  have "rows_ok (nat (m + 1)) ?data" using ok l by (simp add: nat_add_distrib)
  from tool_rows_of(1) [OF m this l(2)] show "tool_rows (2 ^ 32 - 1) ?data" .
next
  let ?data = "map read_uints ls"
  assume "tool_rows (2 ^ 32 - 1) ?data"
  from tool_rows_ok [OF this] obtain m where m: "getMaxIdx ?data = Some m" "0 \<le> m" "m < 2 ^ 32 - 1" "rows_ok (nat (m + 1)) ?data" by blast
  let ?n = "nat (m + 1)"
  have n: "nat ((m + 1) mod 2 ^ 32) = ?n" using m(2,3) by simp
  obtain vs where vs: "add_edges (is_ugraph nm u) (\<lambda>i. i) ?data (map new_vertex [0..<?n]) = Some vs"
    using add_edges_defined [OF m(4), of "\<lambda>i. i"] by blast
  let ?d = "map vx_outDeg (set_degrees vs)"
  have p: "mset (sort_indexes ?d) = mset [0..<?n]"
    using sort_indexes_permutes [of ?d] add_edges_new(2) [OF vs] by simp
  have "\<forall>i < ?n. invert_order (sort_indexes ?d) ?n ! i < ?n" using invert_order_inverse(3) [OF p] by blast
  from add_edges_defined [OF m(4) this] obtain vs' where
    "add_edges (is_ugraph nm u) (\<lambda>i. invert_order (sort_indexes ?d) ?n ! i) ?data (map new_vertex [0..<?n]) = Some vs'" by blast
  with vs m(1) permutation_facts(1) [OF p] show "\<exists>g. sort_graph nm u (Some ls) = Some g"
    unfolding sort_graph_def loadFile_def Let_def by (simp add: n [simplified])
qed

lemma sort_graph_fields:
  assumes "sort_graph nm u (Some ls) = Some g"
  shows "length (tg_vertices g) = tg_vertexNum g + 1" "rows_ok (tg_vertexNum g + 1) (map read_uints ls)"
    "tg_outDeg g = map (\<lambda>v. length (out_list (is_ugraph nm u) (row_edges (\<lambda>i. i) (map read_uints ls)) v)) [0..<tg_vertexNum g + 1]"
    "tg_map g = sort_indexes (tg_outDeg g)" "tg_remap g = invert_order (tg_map g) (tg_vertexNum g + 1)"
    "mset (tg_map g) = mset [0..<tg_vertexNum g + 1]"
    "v \<le> tg_vertexNum g \<Longrightarrow>
      vx_outVid (tg_vertices g ! (tg_remap g ! v)) =
        map (\<lambda>w. tg_remap g ! w) (out_list (is_ugraph nm u) (row_edges (\<lambda>i. i) (map read_uints ls)) v) \<and>
      vx_inVid (tg_vertices g ! (tg_remap g ! v)) =
        map (\<lambda>w. tg_remap g ! w) (in_list (is_ugraph nm u) (row_edges (\<lambda>i. i) (map read_uints ls)) v) \<and>
      vx_outDeg (tg_vertices g ! (tg_remap g ! v)) = tg_outDeg g ! v"
proof -
  let ?data = "map read_uints ls" and ?u = "is_ugraph nm u"
  let ?es = "row_edges (\<lambda>i. i) ?data"
  obtain m vs vs' where m: "getMaxIdx ?data = Some m"
    and a: "add_edges ?u (\<lambda>i. i) ?data (map new_vertex [0..<nat ((m + 1) mod 2 ^ 32)]) = Some vs"
    and b: "add_edges ?u (\<lambda>i. tg_remap g ! i) ?data (map new_vertex [0..<nat ((m + 1) mod 2 ^ 32)]) = Some vs'"
    and g: "tg_vertexNum g = nat m" "tg_vertices g = set_degrees vs'" "tg_outDeg g = map vx_outDeg (set_degrees vs)"
      "tg_map g = sort_indexes (tg_outDeg g)" "tg_remap g = invert_order (tg_map g) (length (tg_map g))"
    using assms by (auto simp: sort_graph_def loadFile_def Let_def split: option.splits if_splits)
  have ok: "rows_ok (nat ((m + 1) mod 2 ^ 32)) ?data" using add_edges_only [OF a] by simp
  have n: "nat ((m + 1) mod 2 ^ 32) = tg_vertexNum g + 1" using local_vertices(3) [OF m ok] by (simp add: g)
  note a' = add_edges_new [OF a [unfolded n]]
  have l: "length vs = tg_vertexNum g + 1" using a'(2) by simp
  show deg: "tg_outDeg g = map (\<lambda>v. length (out_list ?u ?es v)) [0..<tg_vertexNum g + 1]"
    using l a'(3) by (intro nth_equalityI) (simp_all add: g(3) del: upt_Suc)
  show p: "mset (tg_map g) = mset [0..<tg_vertexNum g + 1]"
    using sort_indexes_permutes [of "tg_outDeg g"] by (simp add: g(4) deg del: upt_Suc)
  note pf = permutation_facts [OF p]
  show "tg_map g = sort_indexes (tg_outDeg g)" and re: "tg_remap g = invert_order (tg_map g) (tg_vertexNum g + 1)"
    by (simp_all add: g pf(1) [unfolded g])
  note inv = invert_order_inverse [OF p, folded re]
  have lt: "\<forall>i < tg_vertexNum g + 1. tg_remap g ! i < tg_vertexNum g + 1" using inv(3) by blast
  note b' = add_edges_new [OF b [unfolded n] lt]
  show rows: "rows_ok (tg_vertexNum g + 1) ?data" and lv: "length (tg_vertices g) = tg_vertexNum g + 1" using b'(1,2) by (simp_all add: g(2))
  have inj: "inj_on (\<lambda>i. tg_remap g ! i) {..<tg_vertexNum g + 1}"
    by (rule inj_on_inverseI [of _ "\<lambda>j. tg_map g ! j"]) (simp add: inv(2))
  have es: "row_edges (\<lambda>i. tg_remap g ! i) ?data = map (map_prod (\<lambda>i. tg_remap g ! i) (\<lambda>i. tg_remap g ! i)) ?es"
    by (simp add: row_edges_def map_prod_def)
  have els: "\<forall>(s, d) \<in> set ?es. s \<in> {..<tg_vertexNum g + 1} \<and> d \<in> {..<tg_vertexNum g + 1}"
    using row_edges_less [OF rows] by auto
  show "vx_outVid (tg_vertices g ! (tg_remap g ! v)) = map (\<lambda>w. tg_remap g ! w) (out_list ?u ?es v) \<and>
      vx_inVid (tg_vertices g ! (tg_remap g ! v)) = map (\<lambda>w. tg_remap g ! w) (in_list ?u ?es v) \<and>
      vx_outDeg (tg_vertices g ! (tg_remap g ! v)) = tg_outDeg g ! v" if "v \<le> tg_vertexNum g"
  proof -
    have v: "v < tg_vertexNum g + 1" using that by simp
    have rv: "tg_remap g ! v < length vs'" using inv(3) [OF v] b'(2) by simp
    note s = set_degrees_nth(2-4) [OF rv]
    note o = out_list_rename [OF inj els, of v ?u] 
    show ?thesis
      using b'(3) [OF inv(3) [OF v]] o v by (simp add: g(2) s es deg del: upt_Suc)
  qed
qed

section \<open>The row pointers of the other two tools\<close>

lemma row_pointers_upto:
  assumes "k \<le> n + 1" "k < words" "length vs = n + 1"
  shows "\<exists>rp. fold (pointer_step deg vs) [0..<k] (Some (replicate words 0)) = Some rp \<and> length rp = words \<and> pointers_upto k (map deg vs) rp"
  using assms(1,2)
proof (induction k)
  case 0
  then show ?case by (simp add: pointers_upto_def)
next
  case (Suc k)
  then obtain rp where rp: "fold (pointer_step deg vs) [0..<k] (Some (replicate words 0)) = Some rp" "length rp = words" "pointers_upto k (map deg vs) rp" by auto
  have "pointers_upto (Suc k) (map deg vs) (rp[k + 1 := rp ! k + deg (vs ! k)])"
    using Suc.prems assms(3) rp(2) by (intro pointers_upto_Suc rp(3)) simp_all
  then show ?case using rp Suc.prems assms(3) by (simp add: pointer_step_def [of deg vs k])
qed

text \<open>The array is one word too short for the last vertex; one more word would do.\<close>

lemma row_pointers_result:
  assumes "length vs = n + 1"
  shows "row_pointers (n + 1) deg vs n = None" "row_pointers (n + 2) deg vs n = Some (offsets_of (map deg vs))"
proof -
  obtain rp where "fold (pointer_step deg vs) [0..<n] (Some (replicate (n + 1) 0)) = Some rp" "length rp = n + 1"
    using row_pointers_upto [of n n "n + 1" vs deg] assms by (auto simp del: replicate_Suc)
  then show "row_pointers (n + 1) deg vs n = None" by (simp add: row_pointers_def pointer_step_def [of deg vs n] del: replicate_Suc)
  obtain rp where rp: "row_pointers (n + 2) deg vs n = Some rp" "length rp = n + 2" "pointers_upto (n + 1) (map deg vs) rp"
    using row_pointers_upto [of "n + 1" n "n + 2" vs deg] assms unfolding row_pointers_def by auto
  have "rp = offsets_of (map deg vs)" using pointers_upto_all [OF rp(3)] assms rp(2) by simp
  with rp(1) show "row_pointers (n + 2) deg vs n = Some (offsets_of (map deg vs))" by simp
qed

text \<open>\<open>ischild\<close> on rows that are right.\<close>

lemma ischild_row:
  assumes "cs_rpao cs = offsets_of (map length xss)" "cs_ciao cs = concat xss" "p < length xss"
  shows "ischild cs p c \<longleftrightarrow> c \<in> set (xss ! p)"
proof -
  let ?o = "offsets_of (map length xss)"
  have d: "?o ! (p + 1) - ?o ! p = length (xss ! p)" and le: "?o ! p + length (xss ! p) = ?o ! (p + 1)"
    using assms(3) by (simp_all add: offsets_of_nth take_Suc_conv_app_nth)
  have "concat xss ! (i + ?o ! p) = xss ! p ! i" if "i < length (xss ! p)" for i
    using concat_nth_range [OF assms(3), of "i + ?o ! p"] that le by simp
  then show ?thesis
    unfolding ischild_def Let_def assms(1,2) d by (auto simp: list_ex_iff in_set_conv_nth)
qed

text \<open>Both tools make \<open>vertexNum + 1\<close> vertices, so the constructor of their \<open>CSR\<close> always writes outside.\<close>

lemma plain_csr_outside:
  assumes "length (tg_vertices g) = tg_vertexNum g + 1"
  shows "plain_csr g = None"
    "row_pointers (tg_vertexNum g + 2) vx_outDeg (tg_vertices g) (tg_vertexNum g) = Some (offsets_of (map vx_outDeg (tg_vertices g)))"
  using row_pointers_result [OF assms] by (simp_all add: plain_csr_def Let_def del: add_2_eq_Suc')

lemma plain_graph_csr:
  assumes "plain_graph nm u (Some ls) = Some g"
  shows "plain_csr g = None" "length (tg_vertices g) = tg_vertexNum g + 1"
    "v \<le> tg_vertexNum g \<Longrightarrow> vx_outVid (tg_vertices g ! v) = out_list (is_ugraph nm u) (row_edges (\<lambda>i. i) (map read_uints ls)) v"
proof -
  let ?data = "map read_uints ls"
  obtain m vs where m: "getMaxIdx ?data = Some m"
    and a: "add_edges (is_ugraph nm u) (\<lambda>i. i) ?data (map new_vertex [0..<nat ((m + 1) mod 2 ^ 32)]) = Some vs"
    and g: "tg_vertexNum g = nat m" "tg_vertices g = set_degrees vs"
    using assms by (auto simp: plain_graph_def loadFile_def split: option.splits)
  have ok: "rows_ok (nat ((m + 1) mod 2 ^ 32)) ?data" using add_edges_only [OF a] by simp
  have n: "nat ((m + 1) mod 2 ^ 32) = tg_vertexNum g + 1" using local_vertices(3) [OF m ok] by (simp add: g)
  note v = add_edges_new [OF a [unfolded n]]
  show l: "length (tg_vertices g) = tg_vertexNum g + 1" using v(2) by (simp add: g(2))
  show "plain_csr g = None" by (rule plain_csr_outside(1) [OF l])
  show "v \<le> tg_vertexNum g \<Longrightarrow> vx_outVid (tg_vertices g ! v) = out_list (is_ugraph nm u) (row_edges (\<lambda>i. i) ?data) v"
    using v(2,3) by (simp add: g(2))
qed

text \<open>After renumbering the degrees descend.\<close>

lemma sort_graph_degrees:
  assumes "sort_graph nm u (Some ls) = Some g" "i < j" "j \<le> tg_vertexNum g"
  shows "vx_outDeg (tg_vertices g ! j) \<le> vx_outDeg (tg_vertices g ! i)"
proof -
  note f = sort_graph_fields [OF assms(1)]
  note inv = invert_order_inverse [OF f(6), folded f(5)]
  have d: "vx_outDeg (tg_vertices g ! k) = tg_outDeg g ! (tg_map g ! k)" if "k \<le> tg_vertexNum g" for k
  proof -
    have "tg_map g ! k < tg_vertexNum g + 1" using permutation_facts(4) [OF f(6), of k] that by simp
    then show ?thesis using f(7) [of "tg_map g ! k"] inv(1) [of k] that by simp
  qed
  have "j < length (tg_outDeg g)" using assms(3) by (simp add: f(3) del: upt_Suc)
  from sort_indexes_descending [OF assms(2) this] show ?thesis
    using d [of i] d [of j] assms(2,3) by (simp add: f(4))
qed

section \<open>The files of the rows\<close>

lemma read_ints_show_nat: "n < 2 ^ 31 \<Longrightarrow> read_ints (show_nat n) = [int n]"
  using read_int_show [of "int n" "[]" "[]"]
  by (subst read_ints.simps) (simp add: show_int_def read_ints.simps [of "[]"] read_int_def [of "[]"])

lemma read_ints_lines: "\<forall>n \<in> set ns. n < 2 ^ 31 \<Longrightarrow> concat (map read_ints (map show_nat ns)) = map int ns"
  by (induction ns) (simp_all add: read_ints_show_nat)

lemma save2File_read:
  assumes "\<forall>n \<in> set (cs_rpao cs) \<union> set (cs_ciao cs). n < 2 ^ 31" "length (cs_rpao cs) < 2 ^ 31" "length (cs_ciao cs) < 2 ^ 31"
  shows "concat (map read_ints (fst (save2File cs))) = map int ((length (cs_rpao cs) - 1) # cs_rpao cs)"
    "concat (map read_ints (snd (save2File cs))) = map int (length (cs_ciao cs) # cs_ciao cs)"
proof -
  show "concat (map read_ints (fst (save2File cs))) = map int ((length (cs_rpao cs) - 1) # cs_rpao cs)"
    using assms read_ints_lines [of "(length (cs_rpao cs) - 1) # cs_rpao cs"] by (simp add: save2File_def)
  show "concat (map read_ints (snd (save2File cs))) = map int (length (cs_ciao cs) # cs_ciao cs)"
    using assms read_ints_lines [of "length (cs_ciao cs) # cs_ciao cs"] by (simp add: save2File_def)
qed

end
