(* ===== verification/Example_Graph.thy ===== *)
theory Example_Graph
  imports Graph_Files Graph_Tools
begin

text \<open>A path of three vertices and a vertex without edges, with labels and weights at the edges.\<close>

definition demo_flags :: graph_flags where
  "demo_flags = \<lparr>is_vertex_labeled = True, is_vertex_weighted = False, is_edge_labeled = True, is_edge_weighted = True,
     is_edge_weight_prefix_summed = False, is_edge_weight_alias_generated = True, is_edge_weight_rejection_generated = False,
     is_offset_pair = True\<rparr>"

definition demo_csr :: graph where
  "demo_csr = (new_graph demo_flags)\<lparr>gr_num_vertices := 4, gr_num_edges := 4, gr_node_with_max_degree := 1, gr_max_degree := 2,
     gr_degree := [1, 2, 1, 0], gr_offset := [0, 1, 3, 4, 4], gr_adj := [1, 0, 2, 1], gr_vertex_label := [5, 6, 7, 8],
     gr_edge_label := [10, 10, 20, 20], gr_edge_weight := [100, 100, 200, 200], gr_edge_weight_alias_table := [1, 2, 3, 4],
     gr_partition_offset := [0, 1, 4]\<rparr>"

lemma demo_csr_fields:
  "gr_num_vertices demo_csr = 4" "gr_num_edges demo_csr = 4" "gr_degree demo_csr = [1, 2, 1, 0]" "gr_max_degree demo_csr = 2"
  "gr_offset demo_csr = [0, 1, 3, 4, 4]" "gr_adj demo_csr = [1, 0, 2, 1]" "gr_flags demo_csr = demo_flags"
  "gr_edge_label demo_csr = [10, 10, 20, 20]" "gr_edge_weight demo_csr = [100, 100, 200, 200]"
  "gr_vertex_label demo_csr = [5, 6, 7, 8]" "gr_partition_offset demo_csr = [0, 1, 4]"
  "gr_edge_weight_alias_table demo_csr = [1, 2, 3, 4]"
  by (simp_all add: demo_csr_def new_graph_def)

lemma demo_csr_neighbors:
  "neighbors demo_csr 0 = [1]" "neighbors demo_csr 1 = [0, 2]" "neighbors demo_csr 2 = [1]" "neighbors demo_csr 3 = []"
  "neighbors demo_csr (Suc 0) = [0, 2]" "neighbors demo_csr (Suc (Suc 0)) = [1]" "neighbors demo_csr (Suc (Suc (Suc 0))) = []"
  by (simp_all add: neighbors_def demo_csr_fields numeral_eq_Suc)

lemma less_four: "(\<forall>u < 4. P u) \<longleftrightarrow> P 0 \<and> P 1 \<and> P 2 \<and> P (3 :: nat)"
  by (auto simp: numeral_eq_Suc less_Suc_eq)

lemma demo_csr_ok: "csr_ok demo_csr"
  by (simp add: csr_ok_def demo_csr_fields offsets_of_def upt_rec)

lemma demo_csr_simple: "simple_graph demo_csr"
  unfolding simple_graph_def demo_csr_fields less_four by (simp add: demo_csr_ok demo_csr_neighbors)

lemma demo_csr_relabel: "relabel_ok [1, 3, 0, 2] demo_csr"
  by (simp add: relabel_ok_def demo_csr_fields upt_rec numeral_eq_Suc add_mset_commute)

lemma demo_csr_symmetric: "symmetric_values demo_csr (gr_edge_label demo_csr)"
  unfolding symmetric_values_def demo_csr_fields less_four
  by (simp add: demo_csr_neighbors less_Suc_eq numeral_eq_Suc)

lemma demo_csr_storable: "storable demo_csr"
  by (simp add: storable_def demo_csr_ok demo_csr_fields demo_flags_def)

lemma demo_csr_edges: "nat (max_id (stored_edges demo_csr) 0 + 1) = 3"
  by (simp add: stored_edges_def demo_csr_fields demo_csr_neighbors upt_rec max_id_def)

text \<open>The lines of an edge list, with a comment, both directions of an edge, a loop and a repeated edge.\<close>

definition demo_lines :: "string list" where
  "demo_lines = [''# a path'', ''0 1'', ''1 0'', ''2 2'', ''2 1'', ''0 1'']"

lemma demo_lines_read:
  "\<forall>l \<in> set demo_lines. good_line CHR ''#'' l" "file_edge_list CHR ''#'' demo_lines = [(0, 1), (0, 1), (2, 2), (1, 2), (0, 1)]"
  by (code_simp, code_simp)

section \<open>A file for the tools\<close>

text \<open>The third number of a line is no vertex, but the tools count it as one.\<close>

definition demo_tool_lines :: "string list" where
  "demo_tool_lines = [''0 1'', ''3 1 5'', ''1 2'', ''1 0'']"

lemma demo_tool_rows:
  "map read_ints demo_tool_lines = [[0, 1], [3, 1, 5], [1, 2], [1, 0]]" "map read_uints demo_tool_lines = [[0, 1], [3, 1, 5], [1, 2], [1, 0]]"
  by (code_simp, code_simp)

lemma demo_tool_ok: "M > 5 \<Longrightarrow> tool_rows M (map read_ints demo_tool_lines)" "M > 5 \<Longrightarrow> tool_rows M (map read_uints demo_tool_lines)"
  unfolding demo_tool_rows by (simp_all add: tool_rows_def)

end
