(* ===== verification/Cmd_Line.thy ===== *)
theory Cmd_Line
  imports Gas_Load
begin

text \<open>
  The command line of the host programs (\<open>host/cmdparser/cmdlineparser.cpp\<close>) and what their
  \<open>main\<close> takes from it.  A switch is an object behind a pointer: the vector \<open>m_vSwitches\<close>
  holds the objects, \<open>m_mapKeySwitch\<close> the position of one in it, or \<open>None\<close> for a null pointer.  \<open>None\<close>
  as a result is undefined behaviour or an exception.  \<open>parse\<close> gives its return value and the
  parser it leaves; the help text and the messages are left out.
\<close>

section \<open>The parser\<close>

record cmd_switch =
  sw_key :: string
  sw_shortcut :: string
  sw_default_value :: string
  sw_value :: string
  sw_desc :: string
  sw_istoggle :: bool
  sw_isvalid :: bool

record cmd_parser =
  m_vSwitches :: "cmd_switch list"
  m_mapKeySwitch :: "string \<Rightarrow> nat option option"
  m_mapShortcutKeys :: "string \<Rightarrow> string option"
  m_strDefaultKey :: string
  m_appname :: string

definition starts_with :: "string \<Rightarrow> string \<Rightarrow> bool" where
  "starts_with src sub \<longleftrightarrow> take (length sub) src = sub"

text \<open>
  \<open>"-" + c\<close> adds a character to a pointer to the two bytes of the literal; only 0 and 1 leave
  a string behind the pointer.
\<close>

definition dash_plus :: "char \<Rightarrow> string option" where
  "dash_plus c = (if of_char c = (0 :: nat) then Some ''-'' else if of_char c = (1 :: nat) then Some [] else None)"

fun auto_shortcut :: "(string \<Rightarrow> string option) \<Rightarrow> string \<Rightarrow> string \<Rightarrow> string option" where
  "auto_shortcut shortcuts temp [] = Some temp"
| "auto_shortcut shortcuts temp (c # cs) =
     (if shortcuts temp = None then Some temp
      else (case dash_plus c of None \<Rightarrow> None | Some temp' \<Rightarrow> auto_shortcut shortcuts temp' cs))"

definition switch_shortcut :: "cmd_switch \<Rightarrow> cmd_parser \<Rightarrow> string option" where
  "switch_shortcut s p =
     (if sw_shortcut s = []
      then (case dash_plus (sw_key s ! 2) of None \<Rightarrow> None
            | Some temp \<Rightarrow> auto_shortcut (m_mapShortcutKeys p) temp (drop 3 (sw_key s)))
      else Some (sw_shortcut s))"

definition addSwitch :: "cmd_switch \<Rightarrow> cmd_parser \<Rightarrow> (bool \<times> cmd_parser) option" where
  "addSwitch s p =
     (if sw_desc s = [] \<or> \<not> starts_with (sw_key s) ''--'' \<or> length (sw_key s) < 3 \<or> m_mapKeySwitch p (sw_key s) \<noteq> None
      then Some (False, p)
      else
        (case switch_shortcut s p of
           None \<Rightarrow> None
         | Some shortcut \<Rightarrow>
             (let default_value = (if sw_istoggle s then ''false'' else sw_default_value s);
                  cmd = s\<lparr>sw_shortcut := shortcut, sw_default_value := default_value, sw_value := default_value,
                          sw_isvalid := sw_istoggle s\<rparr>
              in Some (True, p\<lparr>m_vSwitches := m_vSwitches p @ [cmd],
                               m_mapShortcutKeys := (m_mapShortcutKeys p)(sw_shortcut s \<mapsto> sw_key cmd),
                               m_mapKeySwitch := (m_mapKeySwitch p)(sw_key s \<mapsto> Some (length (m_vSwitches p)))\<rparr>))))"

definition cmd_line_switch :: "string \<Rightarrow> string \<Rightarrow> string \<Rightarrow> string \<Rightarrow> bool \<Rightarrow> cmd_switch" where
  "cmd_line_switch name shortcut desc default_value istoggle =
     \<lparr>sw_key = name, sw_shortcut = shortcut, sw_default_value = default_value, sw_value = [], sw_desc = desc,
      sw_istoggle = istoggle, sw_isvalid = False\<rparr>"

text \<open>The constructor; \<open>--help\<close> has a shortcut of its own.\<close>

definition new_parser :: cmd_parser where
  "new_parser =
     (case addSwitch (cmd_line_switch ''--help'' ''-h'' ''prints this help list'' [] True)
        \<lparr>m_vSwitches = [], m_mapKeySwitch = Map.empty, m_mapShortcutKeys = Map.empty, m_strDefaultKey = [],
         m_appname = ''application.exe''\<rparr> of
        Some (_, p) \<Rightarrow> p)"

definition full_key :: "string \<Rightarrow> string" where
  "full_key key = (if starts_with key ''--'' then key else ''--'' @ key)"

text \<open>\<open>m_mapKeySwitch[m_strDefaultKey]\<close> inserts a null pointer when the key is new.\<close>

definition setDefaultKey :: "string \<Rightarrow> cmd_parser \<Rightarrow> bool \<times> cmd_parser" where
  "setDefaultKey key p =
     (let strKey = full_key key
      in if m_mapKeySwitch p strKey = None then (False, p)
         else (let p' = (if m_mapKeySwitch p (m_strDefaultKey p) = None
                         then p\<lparr>m_mapKeySwitch := (m_mapKeySwitch p)(m_strDefaultKey p \<mapsto> None)\<rparr> else p)
               in (case m_mapKeySwitch p' (m_strDefaultKey p') of
                     Some (Some i) \<Rightarrow> if sw_istoggle (m_vSwitches p' ! i) then (False, p')
                                      else (True, p'\<lparr>m_strDefaultKey := strKey\<rparr>)
                   | _ \<Rightarrow> (True, p'\<lparr>m_strDefaultKey := strKey\<rparr>))))"

section \<open>\<open>parse\<close>\<close>

definition token_to_fullkeyname :: "cmd_parser \<Rightarrow> string \<Rightarrow> bool \<times> string" where
  "token_to_fullkeyname p token =
     (if starts_with token ''--''
      then (if m_mapKeySwitch p token = None then (False, []) else (token \<noteq> [], token))
      else if starts_with token ''-''
      then (case m_mapShortcutKeys p token of None \<Rightarrow> (False, []) | Some fullkey \<Rightarrow> (fullkey \<noteq> [], fullkey))
      else (False, []))"

text \<open>The key a token stands for: \<open>None\<close> is the return value \<open>- 1\<close>, \<open>Some None\<close> a token that is no key.\<close>

definition token_key :: "cmd_parser \<Rightarrow> string \<Rightarrow> string list \<Rightarrow> string option option" where
  "token_key p token rest =
     (let isNextTokenKey = (case rest of [] \<Rightarrow> False
        | peeknext # _ \<Rightarrow> (starts_with peeknext ''-'' \<or> starts_with peeknext ''--'') \<and> fst (token_to_fullkeyname p peeknext))
      in if starts_with token ''--'' then (if m_mapKeySwitch p token = None then None else Some (Some token))
         else if starts_with token ''-''
         then (case m_mapShortcutKeys p token of None \<Rightarrow> None | Some key \<Rightarrow> Some (Some key))
         else if \<not> isNextTokenKey \<and> m_strDefaultKey p \<noteq> [] \<and> length rest = 1
         then (if m_mapKeySwitch p (m_strDefaultKey p) = None then None else Some (Some (m_strDefaultKey p)))
         else Some None)"

definition set_value :: "nat \<Rightarrow> string \<Rightarrow> cmd_parser \<Rightarrow> cmd_parser" where
  "set_value i v p = p\<lparr>m_vSwitches := (m_vSwitches p)[i := (m_vSwitches p ! i)\<lparr>sw_value := v, sw_isvalid := True\<rparr>]\<rparr>"

text \<open>
  The loop from the token at \<open>i\<close> on.  The value of a switch at the end of the line is
  \<open>argv[argc]\<close>, a null pointer.  The flag says whether the loop came to its end.
\<close>

fun parse_loop :: "string list \<Rightarrow> int \<Rightarrow> cmd_parser \<Rightarrow> (int \<times> cmd_parser \<times> bool) option" where
  "parse_loop [] ctOptions p = Some (ctOptions, p, True)"
| "parse_loop (token # rest) ctOptions p =
     (case token_key p token rest of
        None \<Rightarrow> Some (- 1, p, False)
      | Some None \<Rightarrow> parse_loop rest ctOptions p
      | Some (Some key) \<Rightarrow>
          (if key = ''--help'' then Some (1, p, False)
           else
             (case m_mapKeySwitch p key of
                Some (Some i) \<Rightarrow>
                  (if i < length (m_vSwitches p)
                   then (if sw_istoggle (m_vSwitches p ! i) then parse_loop rest (ctOptions + 1) (set_value i ''true'' p)
                         else (case rest of [] \<Rightarrow> None
                               | v # rest' \<Rightarrow> parse_loop rest' (ctOptions + 1) (set_value i v p)))
                   else None)
              | _ \<Rightarrow> None)))"

definition parse :: "string list \<Rightarrow> cmd_parser \<Rightarrow> (int \<times> cmd_parser) option" where
  "parse argv p =
     (case parse_loop argv 0 p of
        None \<Rightarrow> None
      | Some (r, p', finished) \<Rightarrow> Some (r, if finished \<and> argv \<noteq> [] then p'\<lparr>m_appname := hd argv\<rparr> else p'))"

definition parser_value :: "cmd_parser \<Rightarrow> string \<Rightarrow> string" where
  "parser_value p key =
     (case m_mapKeySwitch p (full_key key) of Some (Some i) \<Rightarrow> sw_value (m_vSwitches p ! i) | _ \<Rightarrow> [])"

definition is_number :: "string \<Rightarrow> bool" where
  "is_number s \<longleftrightarrow> s \<noteq> [] \<and> list_all is_digit s"

text \<open>\<open>atoi\<close> of a number that does not fit is undefined.\<close>

definition value_to_int :: "cmd_parser \<Rightarrow> string \<Rightarrow> int option" where
  "value_to_int p key =
     (let strVal = parser_value p key in if strVal = [] \<or> \<not> is_number strVal then Some (- 1) else stoi strVal)"

definition parser_isValid :: "cmd_parser \<Rightarrow> string \<Rightarrow> bool" where
  "parser_isValid p key =
     (case m_mapKeySwitch p (full_key key) of Some (Some i) \<Rightarrow> sw_isvalid (m_vSwitches p ! i) | _ \<Rightarrow> False)"

section \<open>The arguments of \<open>main\<close>\<close>

definition main_parser :: cmd_parser where
  "main_parser =
     (case addSwitch (cmd_line_switch ''--dataset'' ''-d'' ''dataset name'' ''HW'' False) new_parser of
        Some (_, p) \<Rightarrow>
          (case addSwitch (cmd_line_switch ''--super_step'' ''-s'' ''super step number'' ''5'' False) p of Some (_, p') \<Rightarrow> p'))"

text \<open>\<open>main\<close> does not look at what \<open>parse\<close> returns.\<close>

definition main_arguments :: "string list \<Rightarrow> (string \<times> int) option" where
  "main_arguments argv =
     (case parse argv main_parser of
        None \<Rightarrow> None
      | Some (_, p) \<Rightarrow> map_option (\<lambda>n. (parser_value p ''dataset'', n)) (stoi (parser_value p ''super_step'')))"

section \<open>Lemmas\<close>

text \<open>Every key stands for a switch of that name, every shortcut for a key.\<close>

definition parser_ok :: "cmd_parser \<Rightarrow> bool" where
  "parser_ok p \<longleftrightarrow>
     (\<forall>k q. m_mapKeySwitch p k = Some q \<longrightarrow> (\<exists>i < length (m_vSwitches p). q = Some i \<and> sw_key (m_vSwitches p ! i) = k)) \<and>
     (\<forall>s k. m_mapShortcutKeys p s = Some k \<longrightarrow> m_mapKeySwitch p k \<noteq> None)"

lemma addSwitch_cases:
  assumes "addSwitch s p = Some (b, p')"
  obtains "\<not> b" "p' = p"
  | cmd where "b" "sw_key cmd = sw_key s" "sw_value cmd = (if sw_istoggle s then ''false'' else sw_default_value s)"
    "m_mapKeySwitch p (sw_key s) = None"
    "p' = p\<lparr>m_vSwitches := m_vSwitches p @ [cmd], m_mapShortcutKeys := (m_mapShortcutKeys p)(sw_shortcut s \<mapsto> sw_key s),
      m_mapKeySwitch := (m_mapKeySwitch p)(sw_key s \<mapsto> Some (length (m_vSwitches p)))\<rparr>"
proof (cases "sw_desc s = [] \<or> \<not> starts_with (sw_key s) ''--'' \<or> length (sw_key s) < 3 \<or> m_mapKeySwitch p (sw_key s) \<noteq> None")
  case True
  then have "addSwitch s p = Some (False, p)" unfolding addSwitch_def by (simp only: if_True)
  with assms that(1) show ?thesis by simp
next
  case False
  then obtain sc where sc: "switch_shortcut s p = Some sc"
    using assms unfolding addSwitch_def by (cases "switch_shortcut s p") simp_all
  let ?d = "if sw_istoggle s then ''false'' else sw_default_value s"
  let ?cmd = "s\<lparr>sw_shortcut := sc, sw_default_value := ?d, sw_value := ?d, sw_isvalid := sw_istoggle s\<rparr>"
  have "(b, p') = (True, p\<lparr>m_vSwitches := m_vSwitches p @ [?cmd], m_mapShortcutKeys := (m_mapShortcutKeys p)(sw_shortcut s \<mapsto> sw_key s),
      m_mapKeySwitch := (m_mapKeySwitch p)(sw_key s \<mapsto> Some (length (m_vSwitches p)))\<rparr>)"
    using assms False sc unfolding addSwitch_def by (simp only: if_False option.case Let_def) simp
  with False show ?thesis by (intro that(2) [of ?cmd]) simp_all
qed

lemma addSwitch_ok:
  assumes "addSwitch s p = Some (b, p')" "parser_ok p"
  shows "parser_ok p'"
  using assms(1)
proof (cases rule: addSwitch_cases)
  case 1
  then show ?thesis using assms(2) by simp
next
  case (2 cmd)
  have old: "\<exists>i < length (m_vSwitches p') . q = Some i \<and> sw_key (m_vSwitches p' ! i) = k" if "m_mapKeySwitch p' k = Some q" for k q
  proof (cases "k = sw_key s")
    case True
    then show ?thesis using that 2 by (intro exI [of _ "length (m_vSwitches p)"]) simp
  next
    case False
    with that 2 obtain i where "i < length (m_vSwitches p)" "q = Some i" "sw_key (m_vSwitches p ! i) = k"
      using assms(2) unfolding parser_ok_def by auto
    then show ?thesis using 2 by (auto simp: nth_append)
  qed
  with 2 assms(2) show ?thesis unfolding parser_ok_def by auto
qed

lemma addSwitch_value:
  assumes "addSwitch s p = Some (True, p')" "parser_ok p"
  shows "parser_value p' k = (if full_key k = sw_key s then (if sw_istoggle s then ''false'' else sw_default_value s) else parser_value p k)"
  using assms(1)
proof (cases rule: addSwitch_cases)
  case (2 cmd)
  have "i < length (m_vSwitches p)" if "m_mapKeySwitch p (full_key k) = Some (Some i)" for i
    using assms(2) that unfolding parser_ok_def by fastforce
  with 2 show ?thesis by (auto simp: parser_value_def nth_append split: option.splits)
qed simp

lemma update_nth: "xs[i := v] ! j = (if i = j \<and> j < length xs then v else xs ! j)"
proof (induction xs arbitrary: i j)
  case (Cons x xs)
  then show ?case by (cases i; cases j) auto
qed simp

text \<open>A command line of settings: tokens that name a switch, each with a value.\<close>

definition key_of :: "cmd_parser \<Rightarrow> string \<Rightarrow> string option" where
  "key_of p token =
     (if starts_with token ''--'' then (if m_mapKeySwitch p token = None then None else Some token)
      else if starts_with token ''-'' then m_mapShortcutKeys p token else None)"

lemma token_key_dash: "starts_with token ''-'' \<Longrightarrow> token_key p token rest = map_option Some (key_of p token)"
  by (simp add: token_key_def key_of_def Let_def split: option.splits)

lemma starts_with_dashes: "starts_with token ''--'' \<Longrightarrow> starts_with token ''-''"
  by (cases token) (simp_all add: starts_with_def)

lemma key_of_dash: "key_of p token = Some k \<Longrightarrow> starts_with token ''-''"
  using starts_with_dashes by (auto simp: key_of_def split: if_splits)

lemma token_key_word: "\<not> starts_with token ''-'' \<Longrightarrow> m_strDefaultKey p = [] \<Longrightarrow> token_key p token rest = Some None"
  using starts_with_dashes by (auto simp: token_key_def Let_def)

definition settings_text :: "(string \<times> string) list \<Rightarrow> string list" where
  "settings_text as = concat (map (\<lambda>(t, v). [t, v]) as)"

definition settable :: "cmd_parser \<Rightarrow> string \<Rightarrow> bool" where
  "settable p t \<longleftrightarrow> (\<exists>k i. key_of p t = Some k \<and> k \<noteq> ''--help'' \<and> m_mapKeySwitch p k = Some (Some i) \<and>
     i < length (m_vSwitches p) \<and> \<not> sw_istoggle (m_vSwitches p ! i))"

definition set_key :: "string \<times> string \<Rightarrow> cmd_parser \<Rightarrow> cmd_parser" where
  "set_key a p = (case m_mapKeySwitch p (the (key_of p (fst a))) of Some (Some i) \<Rightarrow> set_value i (snd a) p | _ \<Rightarrow> p)"

lemma set_key_maps [simp]:
  "m_mapKeySwitch (set_key a p) = m_mapKeySwitch p" "m_mapShortcutKeys (set_key a p) = m_mapShortcutKeys p"
  "m_strDefaultKey (set_key a p) = m_strDefaultKey p" "length (m_vSwitches (set_key a p)) = length (m_vSwitches p)"
  "key_of (set_key a p) = key_of p"
  by (auto simp: set_key_def set_value_def key_of_def split: option.splits)

lemma set_key_switch:
  "sw_istoggle (m_vSwitches (set_key a p) ! i) = sw_istoggle (m_vSwitches p ! i)"
  "sw_key (m_vSwitches (set_key a p) ! i) = sw_key (m_vSwitches p ! i)"
  by (auto simp: set_key_def set_value_def update_nth split: option.splits)

lemma set_key_settable [simp]: "settable (set_key a p) t \<longleftrightarrow> settable p t"
  by (simp add: settable_def set_key_switch)

lemma set_key_value:
  assumes "parser_ok p" "settable p (fst a)"
  shows "parser_value (set_key a p) key = (if key_of p (fst a) = Some (full_key key) then snd a else parser_value p key)"
proof -
  obtain k i where k: "key_of p (fst a) = Some k" "m_mapKeySwitch p k = Some (Some i)" "i < length (m_vSwitches p)"
    using assms(2) by (auto simp: settable_def)
  have i: "j = i \<longleftrightarrow> full_key key = k" if "m_mapKeySwitch p (full_key key) = Some (Some j)" for j
    using assms(1) k that unfolding parser_ok_def by (metis option.inject)
  show ?thesis
    using k i by (auto simp: set_key_def set_value_def parser_value_def update_nth split: option.splits)
qed

lemma set_key_ok [simp]: "parser_ok (set_key a p) \<longleftrightarrow> parser_ok p"
  by (simp add: parser_ok_def set_key_switch)

lemma parse_loop_setting:
  "settable p t \<Longrightarrow> parse_loop (t # v # rest) ct p = parse_loop rest (ct + 1) (set_key (t, v) p)"
  using key_of_dash by (auto simp: settable_def token_key_dash set_key_def)

lemma parse_loop_settings:
  assumes "\<forall>(t, v) \<in> set as. settable p t"
  shows "parse_loop (settings_text as @ rest) ct p = parse_loop rest (ct + int (length as)) (fold set_key as p)"
  using assms
proof (induction as arbitrary: p ct)
  case (Cons a as)
  then show ?case
    by (cases a) (simp add: settings_text_def parse_loop_setting add.assoc del: parse_loop.simps)
qed (simp add: settings_text_def)

text \<open>The value of a switch is the last one given, or the old one.\<close>

definition last_value :: "(string \<Rightarrow> bool) \<Rightarrow> string \<Rightarrow> (string \<times> string) list \<Rightarrow> string" where
  "last_value names dflt as = fold (\<lambda>(t, v) old. if names t then v else old) as dflt"

lemma fold_set_key:
  assumes "parser_ok p" "\<forall>(t, v) \<in> set as. settable p t"
  shows "parser_ok (fold set_key as p)" "key_of (fold set_key as p) = key_of p"
    "m_strDefaultKey (fold set_key as p) = m_strDefaultKey p"
    "parser_value (fold set_key as p) key = last_value (\<lambda>t. key_of p t = Some (full_key key)) (parser_value p key) as"
  using assms
proof (induction as arbitrary: p)
  case (Cons a as)
  {
    case 1 then show ?case using Cons.IH(1) [of "set_key a p"] by auto
  next
    case 2 then show ?case using Cons.IH(2) [of "set_key a p"] by auto
  next
    case 3 then show ?case using Cons.IH(3) [of "set_key a p"] by auto
  next
    case 4
    then have "settable p (fst a)" by auto
    from set_key_value [OF 4(1) this, of key] show ?case
      using 4 Cons.IH(4) [of "set_key a p"] by (cases a) (simp add: last_value_def)
  }
qed (simp_all add: last_value_def)

text \<open>The whole line, up to its end, to a token that stops the loop, or to a switch without its value.\<close>

lemma parse_settings:
  assumes "parser_ok p" "m_strDefaultKey p = []" "\<not> starts_with app ''-''" "\<forall>(t, v) \<in> set as. settable p t"
  shows "parse (app # settings_text as) p = Some (int (length as), (fold set_key as p)\<lparr>m_appname := app\<rparr>)"
    "starts_with t ''-'' \<Longrightarrow> key_of p t = None \<Longrightarrow> parse (app # settings_text as @ t # rest) p = Some (- 1, fold set_key as p)"
    "key_of p t = Some ''--help'' \<Longrightarrow> parse (app # settings_text as @ t # rest) p = Some (1, fold set_key as p)"
    "settable p t \<Longrightarrow> parse (app # settings_text as @ [t]) p = None"
proof -
  note f = fold_set_key [OF assms(1,4)]
  have l: "parse_loop (app # settings_text as @ xs) 0 p = parse_loop xs (int (length as)) (fold set_key as p)" for xs
    using token_key_word [OF assms(3,2)] parse_loop_settings [OF assms(4), of xs 0] by simp
  show "parse (app # settings_text as) p = Some (int (length as), (fold set_key as p)\<lparr>m_appname := app\<rparr>)"
    using l [of "[]"] by (simp add: parse_def)
  show "starts_with t ''-'' \<Longrightarrow> key_of p t = None \<Longrightarrow> parse (app # settings_text as @ t # rest) p = Some (- 1, fold set_key as p)"
    using l [of "t # rest"] token_key_dash [of t "fold set_key as p" rest] by (simp add: parse_def f)
  show "key_of p t = Some ''--help'' \<Longrightarrow> parse (app # settings_text as @ t # rest) p = Some (1, fold set_key as p)"
    using l [of "t # rest"] token_key_dash [of t "fold set_key as p" rest] key_of_dash [of p t] by (simp add: parse_def f)
  have s: "settable (fold set_key as p) t \<longleftrightarrow> settable p t"
    by (induction as arbitrary: p) simp_all
  show "settable p t \<Longrightarrow> parse (app # settings_text as @ [t]) p = None"
    using l [of "[t]"] token_key_dash [of t "fold set_key as p" "[]"] key_of_dash [of p t] s
    by (auto simp: parse_def settable_def f)
qed

section \<open>What \<open>main\<close> gets\<close>

lemma main_parser_maps:
  "m_vSwitches main_parser =
    [\<lparr>sw_key = ''--help'', sw_shortcut = ''-h'', sw_default_value = ''false'', sw_value = ''false'', sw_desc = ''prints this help list'',
       sw_istoggle = True, sw_isvalid = True\<rparr>,
     \<lparr>sw_key = ''--dataset'', sw_shortcut = ''-d'', sw_default_value = ''HW'', sw_value = ''HW'', sw_desc = ''dataset name'',
       sw_istoggle = False, sw_isvalid = False\<rparr>,
     \<lparr>sw_key = ''--super_step'', sw_shortcut = ''-s'', sw_default_value = ''5'', sw_value = ''5'', sw_desc = ''super step number'',
       sw_istoggle = False, sw_isvalid = False\<rparr>]"
  "m_mapKeySwitch main_parser = [''--help'' \<mapsto> Some 0, ''--dataset'' \<mapsto> Some 1, ''--super_step'' \<mapsto> Some 2]"
  "m_mapShortcutKeys main_parser = [''-h'' \<mapsto> ''--help'', ''-d'' \<mapsto> ''--dataset'', ''-s'' \<mapsto> ''--super_step'']"
  "m_strDefaultKey main_parser = []"
  by (simp_all add: main_parser_def new_parser_def addSwitch_def switch_shortcut_def cmd_line_switch_def starts_with_def Let_def numeral_2_eq_2)

lemma main_parser_ok: "parser_ok main_parser"
  unfolding parser_ok_def main_parser_maps by (auto split: if_splits)

definition main_key :: "string \<Rightarrow> string option" where
  "main_key t = (if t \<in> {''--help'', ''-h''} then Some ''--help'' else if t \<in> {''--dataset'', ''-d''} then Some ''--dataset''
     else if t \<in> {''--super_step'', ''-s''} then Some ''--super_step'' else None)"

lemma main_key_of: "key_of main_parser t = main_key t"
  by (auto simp: key_of_def main_key_def main_parser_maps starts_with_def)

definition main_setting :: "string \<Rightarrow> bool" where
  "main_setting t \<longleftrightarrow> t \<in> {''--dataset'', ''-d'', ''--super_step'', ''-s''}"

lemma main_settable: "settable main_parser t \<longleftrightarrow> main_setting t"
  unfolding settable_def main_key_of main_parser_maps by (auto simp: main_key_def main_setting_def numeral_eq_Suc)

lemma main_values: "parser_value main_parser ''dataset'' = ''HW''" "parser_value main_parser ''super_step'' = ''5''"
  by (simp_all add: parser_value_def full_key_def starts_with_def main_parser_maps)

definition given_dataset :: "(string \<times> string) list \<Rightarrow> string" where
  "given_dataset as = last_value (\<lambda>t. t \<in> {''--dataset'', ''-d''}) ''HW'' as"

definition given_super_step :: "(string \<times> string) list \<Rightarrow> string" where
  "given_super_step as = last_value (\<lambda>t. t \<in> {''--super_step'', ''-s''}) ''5'' as"

lemma main_arguments_parsed:
  assumes "\<forall>(t, v) \<in> set as. main_setting t" "parse argv main_parser = Some (r, p)"
    and "p = fold set_key as main_parser \<or> p = (fold set_key as main_parser)\<lparr>m_appname := app\<rparr>"
  shows "main_arguments argv = map_option (\<lambda>n. (given_dataset as, n)) (stoi (given_super_step as))"
proof -
  have s: "\<forall>(t, v) \<in> set as. settable main_parser t" using assms(1) by (simp add: main_settable)
  note v = fold_set_key(4) [OF main_parser_ok s]
  have k: "key_of main_parser t = Some (full_key ''dataset'') \<longleftrightarrow> t \<in> {''--dataset'', ''-d''}"
    "key_of main_parser t = Some (full_key ''super_step'') \<longleftrightarrow> t \<in> {''--super_step'', ''-s''}" for t
    unfolding main_key_of main_key_def full_key_def starts_with_def by auto
  have "parser_value p key = parser_value (fold set_key as main_parser) key" for key
    using assms(3) by (auto simp: parser_value_def split: option.splits)
  then show ?thesis
    using assms(2) v [of "''dataset''"] v [of "''super_step''"] unfolding k main_values
    by (simp add: main_arguments_def given_dataset_def given_super_step_def)
qed

text \<open>
  The settings give the arguments, in any order and in both spellings, the last one counts.  A
  token that is no switch ends the parsing, and so does \<open>--help\<close>; \<open>main\<close> goes on with what it
  has.  A switch without a value at the end of the line is a null pointer.
\<close>

lemma main_arguments_result:
  assumes "\<not> starts_with app ''-''" "\<forall>(t, v) \<in> set as. main_setting t"
  shows "main_arguments (app # settings_text as) = map_option (\<lambda>n. (given_dataset as, n)) (stoi (given_super_step as))"
    "starts_with t ''-'' \<Longrightarrow> \<not> main_setting t \<Longrightarrow> main_arguments (app # settings_text as @ t # rest) = main_arguments (app # settings_text as)"
    "main_setting t \<Longrightarrow> main_arguments (app # settings_text as @ [t]) = None"
proof -
  have s: "\<forall>(t, v) \<in> set as. settable main_parser t" using assms(2) by (simp add: main_settable)
  note ps = parse_settings [OF main_parser_ok main_parser_maps(4) assms(1) s]
  note m = main_arguments_parsed [OF assms(2)]
  show r: "main_arguments (app # settings_text as) = map_option (\<lambda>n. (given_dataset as, n)) (stoi (given_super_step as))"
    by (rule m [OF ps(1), of app]) simp
  show "main_arguments (app # settings_text as @ t # rest) = main_arguments (app # settings_text as)"
    if t: "starts_with t ''-''" "\<not> main_setting t"
  proof (cases "key_of main_parser t")
    case None
    show ?thesis unfolding r by (rule m [OF ps(2) [OF t(1) None], of app]) simp
  next
    case (Some k)
    then have "k = ''--help''" using t(2) by (auto simp: main_key_of main_key_def main_setting_def split: if_splits)
    with Some have hk: "key_of main_parser t = Some ''--help''" by simp
    show ?thesis unfolding r by (rule m [OF ps(3) [OF hk], of app]) simp
  qed
  show "main_setting t \<Longrightarrow> main_arguments (app # settings_text as @ [t]) = None"
    using ps(4) by (simp add: main_settable main_arguments_def)
qed

end
