(* ===== verification/Partition_Limits.thy ===== *)
theory Partition_Limits
  imports Text_Numbers
begin

text \<open>
  The rest of \<open>partition_schedule/input_aware.cpp\<close>: the text files, which the program itself
  can read again, the file of all intervals (\<open>saveMergedResults\<close>), and an input on which the
  search for a balanced allocation does not end.
\<close>

section \<open>The text files\<close>

definition edge_line :: "vedge \<Rightarrow> string" where
  "edge_line e = show_int (fst e) @ '' '' @ show_int (snd e)"

definition txt_file :: "vedge list \<Rightarrow> string list" where
  "txt_file f = map edge_line f"

text \<open>\<open>saveMergedResults\<close>: a headline for every interval, numbered from 1.\<close>

definition saveMergedResults :: "vedge list list \<Rightarrow> string list" where
  "saveMergedResults mergedResults =
     concat (map (\<lambda>g. (''Interval '' @ show_nat (g + 1) @ '':'') # txt_file (mergedResults ! g)) [0..<length mergedResults])"

definition int_edge :: "vedge \<Rightarrow> bool" where
  "int_edge e \<longleftrightarrow> - (2 ^ 31) \<le> fst e \<and> fst e < 2 ^ 31 \<and> - (2 ^ 31) \<le> snd e \<and> snd e < 2 ^ 31"

lemma parse_edge_line: "int_edge e \<Longrightarrow> parse_line (edge_line e) = Some e"
proof -
  assume e: "int_edge e"
  have "read_int ([] @ show_int (fst e) @ '' '' @ show_int (snd e)) = Some (fst e, '' '' @ show_int (snd e))"
    by (rule read_int_show) (use e in \<open>simp_all add: int_edge_def is_digit_def\<close>)
  moreover have "read_int ('' '' @ show_int (snd e) @ []) = Some (snd e, [])"
    by (rule read_int_show) (use e in \<open>simp_all add: int_edge_def is_space_def\<close>)
  ultimately show ?thesis by (simp add: parse_line_def edge_line_def)
qed

lemma parse_txt_file: "\<forall>e \<in> set f. int_edge e \<Longrightarrow> parseEdgeList (txt_file f) = f"
  by (induction f) (simp_all add: parseEdgeList_def txt_file_def parse_edge_line)

text \<open>The headlines are no edges.\<close>

lemma parse_headline: "parse_line (''Interval '' @ s) = None"
  by (simp add: parse_line_def read_int_def is_space_def is_digit_def Let_def)

lemma parse_saveMergedResults:
  assumes "\<forall>es \<in> set iv. \<forall>e \<in> set es. int_edge e"
  shows "parseEdgeList (saveMergedResults iv) = concat iv"
proof -
  have app: "parseEdgeList (xs @ ys) = parseEdgeList xs @ parseEdgeList ys" for xs ys by (simp add: parseEdgeList_def)
  have "parseEdgeList (concat (map (\<lambda>g. (''Interval '' @ show_nat (g + 1) @ '':'') # txt_file (iv ! g)) [0..<n])) = concat (take n iv)"
    if "n \<le> length iv" for n
    using that
  proof (induction n)
    case 0
    then show ?case by (simp add: parseEdgeList_def)
  next
    case (Suc n)
    have ok: "\<forall>e \<in> set (iv ! n). int_edge e" using assms nth_mem [of n iv] Suc.prems by auto
    have "parseEdgeList ((''Interval '' @ show_nat (n + 1) @ '':'') # txt_file (iv ! n)) = iv ! n"
      using parse_txt_file [OF ok] parse_headline [of "show_nat (n + 1) @ '':''"]
      by (simp add: parseEdgeList_def)
    with Suc show ?case by (simp add: app take_Suc_conv_app_nth)
  qed
  from this [of "length iv"] show ?thesis by (simp add: saveMergedResults_def)
qed

section \<open>An interval without edges\<close>

lemma perfmodel_empty: "flt 0 = 0 \<Longrightarrow> \<not> perfmodel flt (replicate numSLRs [])"
  by (simp add: perfmodel_def perf_cost_def load_def numSLRs_def numeral_eq_Suc Let_def)

lemma processBlocks_empty: "f 0 = 0 \<Longrightarrow> processBlocks f [] = Some []"
  by (simp add: processBlocks_def block_sizes_def)

context block_allocator
begin

lemma empty_round:
  assumes "processBlocks f [] = Some bs"
  shows "bs = []" "allocateBlocksToLists blockSort batchSort bs = replicate numSLRs []"
proof -
  show bs: "bs = []"
    using assms by (auto simp: processBlocks_def block_sizes_def Let_def split: if_splits)
  have "blockSort [] = []" using blocks.srt_mset [of "[]"] by simp
  then show "allocateBlocksToLists blockSort batchSort bs = replicate numSLRs []"
    by (simp add: bs allocateBlocksToLists_def place_batches.simps)
qed

text \<open>All costs are 0, and 0 is not less than the twentieth part of the average: the search goes on for ever.\<close>

lemma empty_interval_loop:
  assumes "flt 0 = 0"
  shows "interval_loop splits blockSort batchSort flt [] k = None"
proof (rule ccontr)
  assume "interval_loop splits blockSort batchSort flt [] k \<noteq> None"
  then obtain ls where l: "interval_loop splits blockSort batchSort flt [] k = Some ls" by blast
  let ?P = "\<lambda>(sp :: nat \<Rightarrow> nat \<Rightarrow> nat) bs bt fl (xs :: vedge list) (i :: nat) (r :: block_lists). bs = blockSort \<longrightarrow> bt = batchSort \<longrightarrow> fl = flt \<longrightarrow> xs \<noteq> []"
  have "?P splits blockSort batchSort flt [] k ls"
    by (rule interval_loop.raw_induct [of ?P, OF _ l])
      (auto simp: Let_def empty_round perfmodel_empty [of flt, OF assms] split: option.splits if_splits)
  then show False by simp
qed

end

context partitioner
begin

lemma empty_interval_hangs:
  assumes "flt 0 = 0"
  shows "partition_interval edgeSort splits blockSort batchSort flt [] = None"
proof -
  have "edgeSort [] = []" using edges.srt_mset [of "[]"] by simp
  then show ?thesis by (simp add: partition_interval_def empty_interval_loop [of flt, OF assms])
qed

text \<open>So a graph without an edge into some interval is never partitioned.\<close>

lemma partition_main_hangs:
  assumes "flt 0 = 0" "in_range es" "i < intervalNum es" "\<forall>e \<in> set es. snd e div TARGET_RANGE \<noteq> int i"
  shows "partition_main edgeSort splits blockSort batchSort flt es = None"
proof (rule ccontr)
  assume "partition_main edgeSort splits blockSort batchSort flt es \<noteq> None"
  then obtain fss where "partition_main edgeSort splits blockSort batchSort flt es = Some fss" by blast
  then have "partition_interval edgeSort splits blockSort batchSort flt (filter (\<lambda>e. snd e div TARGET_RANGE = int i) es) = Some (fss ! i)"
    using assms(2,3) by (simp add: partition_main_def divide_all_spec in_range_def those_map del: map_map)
  moreover have "filter (\<lambda>e. snd e div TARGET_RANGE = int i) es = []" using assms(4) by (simp add: filter_empty_conv)
  ultimately show False using empty_interval_hangs [of flt, OF assms(1)] by simp
qed

end

end
