(* ===== verification/Spec2Isabelle.thy ===== *)
theory Spec2Isabelle
  imports Example_Program Example_Apps Example_Gas Raw_Solver Example_Graph Cmd_Line Partition_Limits
begin

text \<open>
  Clementi is a graph processor on a cluster of FPGA cards.  A partitioner cuts the edge list
  into intervals of destinations and every interval into four channel files.  A node works
  through the intervals the schedule gives it: four gather-scatter kernels read edges, ask
  four source caches for the properties of the sources, scatter, shuffle the updates to
  sixteen processing elements and accumulate; three kernels merge the four results, the apply
  kernel makes the new properties, which go to memory, and from there as packets around a
  ring of nodes into the property buffers of everybody.  A super step repeats this with the
  two property buffers exchanged.  A second design does the same on one card: the kernels form
  a ring that \<open>streamSync\<close> feeds and drains, and the host works through all intervals in order.

  Theories and files (all under \<open>src/\<close>, \<open>host/\<close>, \<open>partition_schedule/\<close>, \<open>app/\<close>):

  \<^item> Prelude, Kernel_Types: words, \<open>ap_uint\<close> ranges, lanes of a burst; constants, tokens and
    packed structs of \<open>graph_fpga.h\<close>, \<open>stream_type.h\<close>, \<open>data_struct/gp_data_struct.h\<close>; blocking
    reads (\<open>read_loop\<close>) and polls (\<open>poll_loop\<close>).
  \<^item> Apps: the functions of PageRank, WCC and BFS (\<open>pr/l2.h\<close>, \<open>wcc/l2.h\<close>, \<open>bfs/l2.h\<close>), and the
    locale \<open>gather_algebra\<close>, the laws that make the order of updates irrelevant.
  \<^item> Streams: kernels that move tokens (\<open>stream_operation.h\<close>, \<open>header/fpga_slice.h\<close>).
  \<^item> Edge_Reader, Decoder, Shuffle, Dst_Process, Gs_Kernel: the stages of \<open>clementi/gs.cpp\<close> in
    \<open>header/*.h\<close> and their composition.
  \<^item> Apply_Merge: merge, apply, forward and write kernels.
  \<^item> Coalesce, Read_Engine, Src_Cache, Cache_Packet, Cache_Access: the source cache
    (\<open>coalesce/\<close>, \<open>src_cache/\<close>): coalescing of requests, reading of blocks, the chain of
    processing elements; Cached_Node: a gather-scatter kernel with its cache
    (\<open>app/clementi/kernel.cfg\<close>).
  \<^item> Net_Aggregate, Ring: cutting properties into packets, storing packets, the state machine
    \<open>globalTrans\<close>; Ring_Network, Exchange: \<open>n\<close> of them in a ring, with any interleaving.
  \<^item> Raw_Solver: the two conflict solvers of \<open>header/fpga_raw_solver.h\<close>.
  \<^item> Input_Partition: \<open>partition_schedule/input_aware.cpp\<close>, with the locale \<open>std_sort\<close> for the
    library's sort, Partition_Limits its text files and an input without end; Edge_File: its files and how \<open>host/clementi/mpi_graph_partition.cpp\<close> reads
    them; Node, Host_Dataflow: one partition, one super step and the loop of super steps of
    \<open>host/clementi\<close>.
  \<^item> Text_Numbers, Host_Load: numbers in text; \<open>main\<close> up to the super steps: the schedule, the
    maps and degrees, the partition files, the first properties, the buffers
    (\<open>host/clementi/mpi_graph_partition.cpp\<close>, \<open>mpi_preprocess.cpp\<close>, \<open>mpi_host.cpp\<close>);
    Whole_Graph: the partitioner, the files, the loading and the super steps in one theorem.
  \<^item> Graph_Csr, Graph_Search, Graph_Partition, Graph_Relabel, Graph_Files: the graph container
    \<open>host/xgraph\<close> (\<open>graph.h\<close>, \<open>graph.cpp\<close>, \<open>util/utility.h\<close>): building the arrays from an
    edge list, queries and searches, ranges of vertices, new numbers, the files.
  \<^item> App_Results: what the super steps compute for BFS and WCC, in terms of walks.
  \<^item> Cmd_Line: the command line of the hosts (\<open>host/cmdparser\<close>).
  \<^item> Graph_Tools: the stand-alone tools \<open>host/graph\<close>, \<open>host/graph_sort\<close> and
    \<open>host/graph_reorder\<close>: renumbering by degree, compressed rows.
  \<^item> Gas_Ring: the kernels of the single-FPGA design (\<open>src/single_gas\<close>) as processes over the
    FIFOs of \<open>app/single_gas/kernel.cfg\<close>, whose depths are parameters; Gas_Host, Gas_Load,
    Gas_Program: its host (\<open>host/single_gas\<close>), from the files to the super steps.
  \<^item> Example_Cluster, Example_Program, Example_Apps, Example_Gas, Example_Graph: two nodes and two partitions, a program
    with its files, BFS and WCC, the same on one card, and a small graph, on which the theorems are applied.

  What corresponds to what.  A stream is the list of its tokens.  A kernel that reads blocking
  is a function from the tokens of its inputs to the tokens of its outputs, what it leaves,
  and a status: \<open>Returned\<close>, or \<open>Blocked\<close> on an empty FIFO.  A kernel that polls is a function
  of the polls (\<open>None\<close> for an empty FIFO), or, where two FIFOs race (merge stages of the
  coalescing kernel, cache elements, ring stations), a step relation in which tokens arrive at
  any time.  The ring of one card has a step relation in which a kernel fires only when its
  inputs have a beat and its outputs have room.  Global memory is a function from word addresses to 512-bit words.  Static
  variables and arrays are arguments and results.  Registers without an initialiser are
  arguments, and no theorem restricts them.  A C \<open>int\<close> that can overflow is a word; one that
  cannot is a \<open>nat\<close> or \<open>int\<close>, with the reason in the theory.  An access outside a vector
  is \<open>None\<close>.

  What is shown.  The properties at the top of this theory are about the whole program: what a
  run of the cluster computes (\<open>clementi_computes\<close>, against the specification \<open>buffers_after\<close>,
  which knows neither caches nor files nor packets, and, from the edge list on,
  \<open>program_computes\<close> against \<open>vertex_step\<close>, one property of one vertex), that it goes on
  (\<open>clementi_never_stuck\<close>), what the ring delivers and that it comes to rest.  Then one
  partition with its caches, the cache alone, the gather-scatter kernel, its stages, the
  exchange, the partitioner and the graph container.  Of the design for one card: its calls
  never lock up and move at most \<open>19 * n\<close> beats whatever the depths of the FIFOs and the
  window of \<open>streamSync\<close> (\<open>gas_ring_returns\<close>), what they leave is the composition of the kernels
  as functions (\<open>gas_ring_composes\<close>), and the program computes what the specification and
  the cluster compute (\<open>single_gas_computes\<close>, \<open>single_gas_equals_cluster\<close>).  Of the applications:
  BFS gives the lengths of shortest walks (\<open>cluster_computes_bfs\<close>), and WCC only moves labels along walks
  (\<open>cluster_moves_labels\<close>), so on two vertices that point at
  each other they change places for ever (\<open>wcc_two_cycle\<close>).  Lemma groups: invariants of the state machines
  (\<open>pe_inv\<close> of a cache element, \<open>merge_inv\<close> of a merge stage, \<open>gt_inv\<close> of a station, \<open>net_inv\<close>
  of the ring, \<open>gas_inv\<close> of the ring on one card, \<open>loop_inv\<close>, \<open>cluster_inv\<close> and \<open>single_inv\<close> of the hosts, each kept by
  every step), equivalences (forwarding registers with immediate update, decoder tables with bit positions, coalescing with removal of equal neighbours), round trips (packets, edge files,
  the schedule, graphs in both formats), the well-formed graph (\<open>simple_graph\<close>) that loading
  gives and relabelling keeps,
  termination (a measure for the ring, an iteration bound for a cache element).

  Bounds.  A partition has \<open>N = 2 ^ n\<close> vertices with \<open>n\<close> at least 10, and fewer than \<open>2 ^ 27\<close>
  edges (the 32-bit byte counters of the edge reader); vertex numbers are below \<open>2 ^ 31\<close>; the
  properties of all partitions take fewer than \<open>2 ^ 28\<close> words (\<open>cluster_ok\<close>).  The loops that have fuel
  (\<open>pe_loop\<close>, \<open>merge_iters\<close>) come with a theorem that two iterations for every token and one
  more are enough.  The cache answers rightly when a line stored ahead cannot take the place
  of a line still needed (\<open>no_alias\<close>), which \<open>cache_line_lost\<close> shows to be necessary.

  Not modelled.
  \<^item> The capacity of FIFOs outside the ring of Gas_Ring: they are unbounded, so stalls by back
    pressure inside a gather-scatter kernel, its cache and the exchange of the cluster are not
    visible.  \<open>HLS\<close> pragmas have no meaning here.
  \<^item> Hardware below the kernels: \<open>NetLayers\<close>, \<open>Ethernet\<close> (third party); a link is an
    unbounded FIFO that loses nothing.
  \<^item> Set-up of devices and of MPI in \<open>host/\<close>: calls of XRT and MPI, timing, logging.  Floats: the performance model of the partitioner and the first rank of PageRank are
    parameters; weights of edges are 64-bit patterns.
  \<^item> The host of the design over several cards without exchange (\<open>host/netgp\<close>, the kernels are
    those of Gas_Ring with a network between them), the \<open>main\<close> of the graph tools, the vendored
    \<open>sparsepp\<close>, \<open>coalesce/coalesce_ood.h\<close> (no kernel includes it), and the tests.  Of the graph container: printing of doubles and of metadata, and \<open>shuffle\<close>, which nothing calls.
\<close>

section \<open>The whole program\<close>



text \<open>C2: Every node sets itself up from the files: the schedule, the degrees, the numbers of the vertices
  and the edges of its partitions are what the files say, and all nodes and all kernels start
  from the same properties.\<close>

theorem host_setup_loads:
  assumes "partitioner blockSort batchSort edgeSort" "dataset_ok fs dir cl da" "cluster_ok cl E" "i < cl_nodes cl"
    and "\<forall>k < total_p_num cl. partition_interval edgeSort splits blockSort batchSort flt (E k) = Some (cl_files cl k)"
  shows "\<exists>info. host_setup fs dir (int (cl_psize cl)) score (cl_nodes cl) i = Some info \<and> loaded cl da i info \<and>
    (\<forall>sp<4. propBuffer (partitionTransfer vprop info) sp = fst (start_buffers score cl da) \<and>
            propBufferNew (partitionTransfer vprop info) sp = snd (start_buffers score cl da))"
  by (rule partitioner.host_setup_result [OF assms])

theorem host_setup_loads_witness:
  "\<exists>info. host_setup demo_fs ''d'' (int (cl_psize demo_program)) (\<lambda>_. 256) (cl_nodes demo_program) 1 = Some info \<and>
    gi_scheduleItem info = [0]"
proof -
  have "1 < cl_nodes demo_program" by (simp add: demo_program_sizes)
  from host_setup_loads [OF std_partitioner.partitioner_axioms demo_dataset demo_program_ok this demo_program_files,
      of "\<lambda>_. 256" "\<lambda>_ _ _. 0"]
  show ?thesis by (auto simp: loaded_def) (simp add: demo_program_def)
qed

text \<open>The schedule file, a line \<open>PartitionList\<close> for every node, is read back as the lists of
  partitions it was written from.\<close>

theorem schedule_round_trip:
  assumes "\<forall>is \<in> set sched. \<forall>i \<in> set is. - (2 ^ 31) \<le> i \<and> i < 2 ^ 31"
  shows "intArrays (map schedule_text sched) = sched"
  by (rule intArrays_text [OF assms])

theorem schedule_round_trip_witness: "intArrays (map schedule_text [[0, 12], [], [- 7]]) = [[0, 12], [], [- 7]]"
  by (rule schedule_round_trip) simp

section \<open>The command line\<close>

text \<open>C3: The data set and the number of super steps are what the command line says, in any order and
  spelling, the last setting counts, with \<open>HW\<close> and 5 when there is none.  An unknown option or
  \<open>--help\<close> ends the parsing but not the program, which runs with what came before; a switch
  at the end without its value is a null pointer.\<close>

theorem command_line_arguments:
  assumes "\<not> starts_with app ''-''" "\<forall>(t, v) \<in> set as. main_setting t"
    and "given_super_step as = show_int n" "- (2 ^ 31) \<le> n" "n < 2 ^ 31"
  shows "main_arguments (app # settings_text as) = Some (given_dataset as, n) \<and>
    (\<forall>t rest. starts_with t ''-'' \<and> \<not> main_setting t \<longrightarrow>
      main_arguments (app # settings_text as @ t # rest) = Some (given_dataset as, n)) \<and>
    (\<forall>t. main_setting t \<longrightarrow> main_arguments (app # settings_text as @ [t]) = None)"
  using main_arguments_result [OF assms(1,2)] stoi_show [of n] assms(3-5) by (simp add: is_int32_def)

theorem command_line_arguments_witness:
  "main_arguments [''./host'', ''-s'', ''3'', ''--dataset'', ''R24'', ''-s'', ''12''] = Some (''R24'', 12) \<and>
   main_arguments [''./host'', ''-s'', ''3'', ''--dataset'', ''R24'', ''-s'', ''12'', ''--help''] = Some (''R24'', 12)"
proof -
  let ?as = "[(''-s'', ''3''), (''--dataset'', ''R24''), (''-s'', ''12'')]"
  have "given_super_step ?as = show_int 12"
    by (simp add: given_super_step_def last_value_def) code_simp
  moreover have "\<not> starts_with ''./host'' ''-''" "\<forall>(t, v) \<in> set ?as. main_setting t"
    by (simp_all add: starts_with_def main_setting_def)
  ultimately have r: "main_arguments (''./host'' # settings_text ?as) = Some (given_dataset ?as, 12)"
    "main_arguments (''./host'' # settings_text ?as @ ''--help'' # []) = Some (given_dataset ?as, 12)"
    using command_line_arguments [of "''./host''" ?as 12] by (simp_all add: starts_with_def main_setting_def)
  then show ?thesis by (simp add: settings_text_def given_dataset_def last_value_def)
qed

section \<open>The cluster\<close>

text \<open>C4: Every run of \<open>k\<close> super steps on any number of nodes leaves in all property buffers
  of all nodes what \<open>k\<close> steps of the specification give: each step applies \<open>applyFunc\<close> to
  the updates gathered over all the edges that point to a vertex.  Which node works on which
  partition, how the partitioner spread the edges, what the registers hold, which words
  \<open>readProp\<close> reads before they are rewritten and how the ring interleaves packets do not matter.\<close>

theorem clementi_computes:
  assumes "partitioner blockSort batchSort edgeSort"
    and "\<forall>k < total_p_num cl. partition_interval edgeSort splits blockSort batchSort flt (E k) = Some (cl_files cl k)"
    and "cluster_ok cl E" "cluster_inv cl M c0" "gather_algebra (gatherFunc (cl_app cl)) okv" "extra_free (cl_app cl)"
    and "\<forall>j<k. updates_ok cl E okv (current_buffer j (buffers_after cl E M j))"
    and "clementi_run cl c0 k c net" "i < cl_nodes cl" "sp < 4"
  shows "propBuffer (c i) sp = fst (buffers_after cl E M k) \<and> propBufferNew (c i) sp = snd (buffers_after cl E M k)"
  using partitioner.clementi_run_result [OF assms(1,8,2-7)] assms(9,10) by (simp add: cluster_inv_def)

theorem clementi_computes_witness:
  "\<exists>c net. clementi_run demo_cluster demo_start 1 c net \<and> lane 5 (propBufferNew (c 1) 2 0) = 648"
proof -
  note f = demo_cluster_files
  have u: "\<forall>j<n. updates_ok demo_cluster demo_edges (\<lambda>_. True) (current_buffer j (buffers_after demo_cluster demo_edges demo_buffers j))" for n
    using demo_updates by blast
  obtain c net where r: "clementi_run demo_cluster demo_start 1 c net"
    using std_partitioner.clementi_run_exists [OF f demo_ok demo_inv demo_app u] by blast
  have "propBufferNew (c 1) 2 = snd (buffers_after demo_cluster demo_edges demo_buffers 1)"
    using clementi_computes [OF std_partitioner.partitioner_axioms f demo_ok demo_inv demo_app u r, of 1 2]
    by (simp add: demo_partitions)
  with r demo_result show ?thesis by metis
qed



text \<open>A node to which the schedule gives no partition reads \<open>scheduleItem[0]\<close> outside the
  vector, in every super step.\<close>

theorem idle_node_fails:
  assumes "cl_schedule cl rank = []"
  shows "acceleratorExecute cl rank env super_step s = None"
  by (simp add: acceleratorExecute_def assms execute_p_def)

theorem idle_node_fails_witness:
  "\<forall>env. acceleratorExecute (demo_cluster\<lparr>cl_schedule := (\<lambda>i. if i = 0 then [0, 1] else [])\<rparr>) 1 env 0 (demo_start 1) = None"
  by (intro allI idle_node_fails) simp

section \<open>The single-FPGA design\<close>



text \<open>C7: One card and a cluster of any size and schedule compute the same: after the same number of
  super steps on the same graph their property buffers agree.\<close>

theorem single_gas_equals_cluster:
  assumes "partitioner blockSort batchSort edgeSort"
    and "single_gas_run cl fd (total_p_num cl) s0 k s" "clementi_run cl c0 k c net"
    and "\<forall>q < total_p_num cl. partition_interval edgeSort splits blockSort batchSort flt (E q) = Some (cl_files cl q)"
    and "graph_ok cl E" "depths_ok fd" "cluster_ok cl E" "single_inv cl M s0" "cluster_inv cl M c0"
    and "gather_algebra (gatherFunc (cl_app cl)) okv" "extra_free (cl_app cl)"
    and "\<forall>j<k. updates_ok cl E okv (current_buffer j (buffers_after cl E M j))"
    and "i < cl_nodes cl" "sp < 4" "sp' < 4"
  shows "gd_prop s sp = propBuffer (c i) sp' \<and> gd_propNew s sp = propBufferNew (c i) sp'"
  by (rule partitioner.single_gas_cluster [OF assms])

theorem single_gas_equals_cluster_witness:
  "\<exists>s c net. single_gas_run demo_cluster demo_depths 2 demo_device 3 s \<and> clementi_run demo_cluster demo_start 3 c net \<and>
    gd_propNew s 1 = propBufferNew (c 1) 2"
proof -
  have u: "\<forall>j<n. updates_ok demo_cluster demo_edges (\<lambda>_. True) (current_buffer j (buffers_after demo_cluster demo_edges demo_buffers j))" for n
    using demo_updates by blast
  obtain s where s: "single_gas_run demo_cluster demo_depths 2 demo_device 3 s" using demo_single_run by blast
  obtain c net where r: "clementi_run demo_cluster demo_start 3 c net"
    using std_partitioner.clementi_run_exists [OF demo_cluster_files demo_ok demo_inv demo_app u] by blast
  have "gd_propNew s 1 = propBufferNew (c 1) 2"
    using single_gas_equals_cluster [OF std_partitioner.partitioner_axioms s [folded demo_partitions(1)] r demo_cluster_files demo_graph_ok
        demo_depths_ok demo_ok demo_device_inv demo_inv demo_app u, of 1 1 2] by (simp add: demo_partitions)
  with s r show ?thesis by blast
qed

text \<open>C8: Breadth-first search: when the buffers start with the root active and everything else
  at \<open>MAX_PROP\<close>, they hold after \<open>k\<close> super steps, for every vertex, the number of edges of
  a shortest walk from the root with at most \<open>k\<close> edges (with the active bit when it has exactly
  \<open>k\<close>), or \<open>MAX_PROP\<close> when there is none (\<open>bfs_prop\<close>).\<close>

theorem cluster_computes_bfs:
  assumes "partitioner blockSort batchSort edgeSort"
    and "\<forall>k < total_p_num cl. partition_interval edgeSort splits blockSort batchSort flt (interval_edges (cl_psize cl) es k) = Some (cl_files cl k)"
    and "cluster_ok cl (interval_edges (cl_psize cl) es)"
    and "\<forall>e \<in> set es. 0 \<le> fst e \<and> fst e < int (total_p_num cl * cl_psize cl)"
    and "cluster_inv cl M c0" "cl_app cl = bfs_app"
    and "\<forall>u < total_p_num cl * cl_psize cl. prop_of (fst M) u = (if u = r then VERTEX_ACTIVE_BIT_MASK else MAX_PROP)"
    and "k < 2 ^ 31 - 1" "clementi_run cl c0 k c net" "i < cl_nodes cl" "sp < 4" "v < total_p_num cl * cl_psize cl"
  shows "prop_of (read_buffer k (c i) sp) v = bfs_prop es r k v"
  by (rule partitioner.cluster_bfs [OF assms])

theorem cluster_computes_bfs_witness:
  "\<exists>c net. clementi_run (app_cluster bfs_app) (start_with search_mem) 2 c net \<and> prop_of (read_buffer 2 (c 1) 3) 5 = 1"
proof -
  have alg: "gather_algebra (gatherFunc (cl_app (app_cluster bfs_app))) bfs_ok" "extra_free (cl_app (app_cluster bfs_app))"
    using bfs_alg.gather_algebra_axioms bfs_free by (simp_all add: app_cluster_sizes) (simp add: bfs_app_def)
  obtain c net where run: "clementi_run (app_cluster bfs_app) (start_with search_mem) 2 c net"
    using std_partitioner.clementi_run_exists [OF app_files app_ok app_inv alg] bfs_updates_ok by blast
  have "prop_of (read_buffer 2 (c 1) 3) 5 = bfs_prop app_graph 0 2 5"
    by (rule cluster_computes_bfs [OF std_partitioner.partitioner_axioms app_files app_ok app_sources app_inv app_cluster_sizes(4)
          search_start _ run]) (simp_all add: app_cluster_sizes)
  with run app_level show ?thesis by auto
qed

text \<open>C9: Connected components: a super step moves the labels along the edges and keeps nothing,
  so after \<open>k\<close> super steps a vertex holds the largest label at the start of a walk of exactly
  \<open>k\<close> edges to it, and 0 when there is no such walk, whatever it held before.\<close>

theorem cluster_moves_labels:
  assumes "partitioner blockSort batchSort edgeSort"
    and "\<forall>k < total_p_num cl. partition_interval edgeSort splits blockSort batchSort flt (interval_edges (cl_psize cl) es k) = Some (cl_files cl k)"
    and "cluster_ok cl (interval_edges (cl_psize cl) es)"
    and "\<forall>e \<in> set es. 0 \<le> fst e \<and> fst e < int (total_p_num cl * cl_psize cl)"
    and "cluster_inv cl M c0" "cl_app cl = wcc_app"
    and "\<forall>u < total_p_num cl * cl_psize cl. prop_of (fst M) u = label u" "\<forall>u. wcc_ok (label u)"
    and "clementi_run cl c0 k c net" "i < cl_nodes cl" "sp < 4" "v < total_p_num cl * cl_psize cl"
  shows "sint (prop_of (read_buffer k (c i) sp) v) = Max (insert 0 ((\<lambda>u. sint (label u)) ` {u. walk es k u v}))"
  by (rule partitioner.cluster_wcc [OF assms])

theorem cluster_moves_labels_witness:
  "\<exists>c net. clementi_run (app_cluster wcc_app) (start_with label_mem) 2 c net \<and> sint (prop_of (read_buffer 2 (c 1) 3) 5) = 0"
proof -
  have alg: "gather_algebra (gatherFunc (cl_app (app_cluster wcc_app))) wcc_ok" "extra_free (cl_app (app_cluster wcc_app))"
    using wcc_alg.gather_algebra_axioms wcc_free by (simp_all add: app_cluster_sizes) (simp add: wcc_app_def)
  obtain c net where run: "clementi_run (app_cluster wcc_app) (start_with label_mem) 2 c net"
    using std_partitioner.clementi_run_exists [OF app_files app_ok app_inv alg] wcc_updates_ok by blast
  have "sint (prop_of (read_buffer 2 (c 1) 3) 5) = Max (insert 0 ((\<lambda>u. sint (number_label u)) ` {u. walk app_graph 2 u 5}))"
    by (rule cluster_moves_labels [OF std_partitioner.partitioner_axioms app_files app_ok app_sources app_inv app_cluster_sizes(4)
          label_start number_label_ok run]) (simp_all add: app_cluster_sizes)
  with run app_walk_2 show ?thesis by auto
qed

text \<open>C10: The kernels of a call never lock each other up, however shallow the FIFOs and whatever
  the window of \<open>streamSync\<close>: from every state that can be reached the call can come to its
  end, and no run moves more than \<open>19 * n\<close> beats (\<open>n\<close> for each of the nine stages, both sides
  of \<open>streamSync\<close>, four readers and four writers).\<close>

theorem gas_ring_returns:
  assumes "gas_call_ok c n" "gas_run c m s"
  shows "m \<le> 19 * n \<and> (\<exists>s'. gas_reach c s s' \<and> gas_run c (19 * n) s' \<and> gas_returned c s')"
  using gas_run_finishes [OF assms] gas_run_inv [OF assms(2,1)] gas_inv_bound(1) [OF assms(1)] by blast

theorem gas_ring_returns_witness:
  "\<forall>env. \<exists>s. gas_run (demo_call env) 1216 s \<and> gas_returned (demo_call env) s"
proof
  fix env
  show "\<exists>s. gas_run (demo_call env) 1216 s \<and> gas_returned (demo_call env) s"
    using gas_ring_returns [OF demo_call_ok run_init, of env] by auto
qed

text \<open>C11: When the host sees that a call has returned, the memories hold what the kernels
  compute as functions composed one after the other, in whatever order they fired; the
  report is the sum over all lanes, and no beat or position is left for the next call.\<close>

theorem gas_ring_composes:
  assumes "gas_call_ok c n" "gas_run c m s" "gas_returned c s" "sp < 4" "k < 10"
  shows "wr_mem s sp = gas_memory c sp \<and> ap_info s = apply_sums c n \<and> fifo s k = [] \<and>
    gs_fifo s sp = [] \<and> gs_rest s sp = [] \<and> wr_fifo s sp = [] \<and> pos s (4 - sp) = 0 \<and> pos s (6 + sp) = 0 \<and>
    ap_props s = drop n (read_props c)"
  using gas_returned_result [OF assms(1-3)] assms(4,5) by simp_all

theorem gas_ring_composes_witness:
  "\<forall>env. \<exists>s. gas_run (demo_call env) 1216 s \<and> wr_mem s 3 = gas_memory (demo_call env) 3 \<and> fifo s 9 = []"
proof
  fix env
  obtain s where s: "gas_run (demo_call env) 1216 s" "gas_returned (demo_call env) s"
    using gas_run_finishes [OF demo_call_ok run_init, of env] by auto
  have "(3::nat) < 4" "(9::nat) < 10" by simp_all
  note r = gas_ring_composes [OF demo_call_ok s this]
  show "\<exists>s. gas_run (demo_call env) 1216 s \<and> wr_mem s 3 = gas_memory (demo_call env) 3 \<and> fifo s 9 = []"
    using s(1) r by blast
qed

text \<open>C12: A host that counts fewer partitions than there are (\<open>gas_getPartitionNum\<close> looks at 100)
  does not notice: a super step leaves the vertices of the others as they were.\<close>

theorem single_gas_misses_partitions:
  assumes "partitioner blockSort batchSort edgeSort"
    and "\<forall>q < total_p_num cl. partition_interval edgeSort splits blockSort batchSort flt (E q) = Some (cl_files cl q)"
    and "graph_ok cl E" "depths_ok fd" "single_inv cl M s0"
    and "gather_algebra (gatherFunc (cl_app cl)) okv" "extra_free (cl_app cl)" "updates_ok cl E okv (fst M)"
    and "\<And>p sp. p < 100 \<Longrightarrow> sp < 100 \<Longrightarrow> find_file fs dir p sp \<longleftrightarrow> p < total_p_num cl \<and> sp < 4" "100 < total_p_num cl"
    and "single_gas_run cl fd (gas_getPartitionNum fs dir) s0 1 s" "sp < 4"
  shows "gd_propNew s sp t = (if t < 100 * cl_words cl then graph_word cl E (fst M) t else snd M t)"
proof -
  have "gas_getPartitionNum fs dir = 100"
    using gas_getPartitionNum_result [OF assms(9)] assms(10) by simp
  with partitioner.single_gas_misses [OF assms(1-8) _ _ assms(12)] assms(10,11) show ?thesis by simp
qed

theorem single_gas_misses_partitions_witness:
  "\<exists>s. single_gas_run many_cluster demo_depths (gas_getPartitionNum many_fs ''d'') demo_device 1 s \<and> gd_propNew s 2 6400 = 0"
proof -
  have n: "gas_getPartitionNum many_fs ''d'' = 100"
    using gas_getPartitionNum_result [of many_fs "''d''" 101 4] many_found by simp
  obtain s where s: "single_gas_run many_cluster demo_depths (gas_getPartitionNum many_fs ''d'') demo_device 1 s"
    using many_run unfolding n by blast
  have u: "updates_ok many_cluster demo_edges (\<lambda>_. True) (fst demo_buffers)" by (simp add: updates_ok_def)
  have f: "find_file many_fs ''d'' p sp \<longleftrightarrow> p < total_p_num many_cluster \<and> sp < 4" for p sp
    by (simp add: many_found many_partitions)
  have "gd_propNew s 2 6400 = 0"
    using single_gas_misses_partitions [OF std_partitioner.partitioner_axioms many_files many_graph_ok demo_depths_ok many_inv many_app u f _ s,
        of 2 6400] by (simp add: many_partitions) (simp add: demo_buffers_def)
  with s show ?thesis by blast
qed

section \<open>The ring of nodes\<close>

text \<open>C13: Whatever the order of events, when the ring of \<open>n\<close> stations is at rest every node has got
  every packet that any node sent (its own included) exactly once, with data and framing
  unchanged.\<close>

theorem ring_delivers_once:
  assumes "net_reach n net" "sources_ok n ids net" "\<forall>i<n. ids i \<noteq> - 1" "inj_on ids {..<n}" "at_rest n net" "i < n"
  shows "as_sent (got_packets (net i)) = (\<Sum>j<n. as_sent (node_packets (net j)))"
  by (rule ring_delivers [OF assms])

theorem ring_delivers_once_witness:
  "\<exists>net. net_reach 2 net \<and> as_sent (got_packets (net 1)) = {#packet 1 0 [5]#}"
proof -
  let ?Q = "\<lambda>i :: nat. if i = 0 then [(1, 0, [5])] else [] :: net_packet list"
  have Q: "\<forall>i<2. packets_ok (word_of_nat i) (?Q i)" by (simp add: packets_ok_def)
  have r: "ring_ready 2 word_of_nat (\<lambda>_. station_init)" by (rule ring_ready_init)
  have n: "(2 :: nat) < 2 ^ 32" by simp
  from ring_round_exists [OF r Q rank_words [OF n]] obtain net where
    net: "ring_round 2 (\<lambda>i. beats_of (?Q i)) (\<lambda>_. station_init) net" by blast
  from ring_round_ready [OF r net Q] have i: "net_reach 2 net" "sources_ok 2 word_of_nat net" "at_rest 2 net"
    by (simp_all add: ring_ready_def)
  have "st_trans_all (net j) = beats_of (?Q j)" if "j < 2" for j
    using net that by (simp add: ring_round_def station_init_def)
  then have "node_packets (net j) = map beats_of1 (?Q j)" if "j < 2" for j
    using cut_beats_of [of "word_of_nat j" "?Q j"] Q that by (simp add: node_packets_def)
  then have "(\<Sum>j<2. as_sent (node_packets (net j))) = {#packet 1 0 [5]#}"
    by (simp add: numeral_2_eq_2 as_sent_def beats_of1_def packet_def forward_beat_def)
  with ring_delivers_once [OF i(1,2) rank_words [OF n] i(3), of 1] i(1) show ?thesis by auto
qed

text \<open>C14: However the stations take turns, the number of iterations that do anything is bounded by
  the beats sent, a ring in which no station can go on is at rest, and rest can be reached
  from every state, once every node has sent whole packets: no packet stays on its way and no
  window stays closed.\<close>

theorem ring_comes_to_rest_bounded:
  assumes "net_reach n net" "sources_ok n ids net" "\<forall>i<n. ids i \<noteq> - 1" "inj_on ids {..<n}" "sources_end n net"
    and "(net_iterates n ^^ k) net net'"
  shows "k \<le> (n + 1) * ring_load n net \<and> (stuck n net' \<longrightarrow> at_rest n net') \<and>
    (\<exists>m net''. (net_iterates n ^^ m) net' net'' \<and> at_rest n net'')"
proof (intro conjI impI)
  show "k \<le> (n + 1) * ring_load n net" by (rule ring_comes_to_rest(2) [OF assms])
  show "stuck n net' \<Longrightarrow> at_rest n net'" by (rule ring_comes_to_rest(3) [OF assms])
  show "\<exists>m net''. (net_iterates n ^^ m) net' net'' \<and> at_rest n net''"
    using ring_iterations_bounded [OF assms(6) net_inv_reach [OF assms(1-4)] assms(2-4)] assms(3-5)
    by (intro ring_runs_to_rest) simp_all
qed

theorem ring_comes_to_rest_bounded_witness:
  "\<exists>m net. (net_iterates 1 ^^ m) (feed (\<lambda>_. packet 1 0 [5]) 1 (\<lambda>_. station_init)) net \<and> at_rest 1 net"
proof -
  let ?net = "feed (\<lambda>_. packet 1 0 [5]) 1 (\<lambda>_. station_init)"
  have Q: "\<forall>i<1. packets_ok (word_of_nat i) ((\<lambda>_. [(1, 0, [5])]) i)" by (simp add: packets_ok_def)
  have b: "packet 1 0 [5] = beats_of [(1, 0, [5])]" by (simp add: beats_of1_def)
  have t: "\<forall>i<1. st_trans_all (?net i) = st_trans_all station_init @ beats_of [(1, 0, [5])]" by (simp add: feed_def fed_def b)
  have i: "sources_ok 1 word_of_nat (\<lambda>_. station_init)" "sources_end 1 (\<lambda>_. station_init)"
    using ring_ready_init [of 1 word_of_nat] by (simp_all add: ring_ready_def)
  have n: "(1 :: nat) < 2 ^ 32" by simp
  have "net_reach 1 ?net" unfolding net_reach_def by (rule feed_steps) simp
  then show ?thesis
    using ring_comes_to_rest_bounded [OF _ sources_round(1) [OF i Q t] rank_words [OF n] sources_round(2) [OF i Q t], of 0 ?net]
    by simp
qed

section \<open>A partition and its source caches\<close>

text \<open>C15: The work of a node on one partition with its four source caches: the gather-scatter
  kernels, whose requests the caches answer from the property buffer, the merges, apply and
  write give every vertex of the partition \<open>applyFunc\<close> of the updates gathered over all the
  edges of the interval that point to it, and change no other word.\<close>

theorem cached_partition_computes:
  assumes "partitioner blockSort batchSort edgeSort"
    and "partition_interval edgeSort splits blockSort batchSort flt es = Some fs"
    and "length es + 32 < 2 ^ 27" "\<forall>e \<in> set es. 0 \<le> fst e \<and> fst e < 2 ^ 31" "\<forall>e \<in> set es. 0 \<le> snd e \<and> snd e < 2 ^ 31"
    and "N = 2 ^ n" "10 \<le> n" "n < 32" "off + N div 16 + 64 < 2 ^ 28"
    and "\<forall>j<4. \<forall>i<16. \<forall>t < N div 32. bufs j i t = 0"
    and "B < 27" "\<forall>f \<in> set fs. cache_safe B f" "\<forall>j<4. propBuf j = vertexProp"
    and "gather_algebra (gatherFunc a) ok" "\<forall>v. \<forall>x \<in> set (edge_updates a N (prop_of vertexProp) es v). ok x"
  shows "fst (node_cached a N B u cs tok0 bufs junk fs propBuf outDegree propTemp
      (word_of_nat (16 * off)) (word_of_nat N) arg) =
    (\<lambda>t. if off \<le> t \<and> t < off + N div 16
         then partition_words a N (prop_of vertexProp) es vertexProp outDegree junk arg off (t - off) else propTemp t)"
  by (rule partitioner.node_cached_computes [OF assms])

theorem cached_partition_computes_witness:
  "\<forall>u cs tok0 junk. lane 5 (fst (node_cached pr_app 1024 0 u cs tok0 (\<lambda>_ _ _. 0) junk (cl_files demo_cluster 0) (\<lambda>_. fst demo_buffers)
      (cl_outDeg demo_cluster) (\<lambda>_. 0) (word_of_nat (16 * 0)) (word_of_nat 1024) 0) 0) = 648"
proof (intro allI)
  fix u cs tok0 and junk :: "nat \<Rightarrow> nat \<Rightarrow> u32"
  have f: "\<forall>f \<in> set (cl_files demo_cluster 0). cache_safe 0 f"
    by (simp add: demo_cluster_def demo_edges_def demo_cache_safe)
  have alg: "gather_algebra (gatherFunc pr_app) (\<lambda>_. True)" using demo_app(1) by (simp add: demo_cluster_def)
  have z: "(0::nat) < 2" by simp
  have v: "edge_updates pr_app 1024 (prop_of (fst demo_buffers)) (demo_edges 0) 5 = [256, 256, 256]"
    by (simp add: edge_updates_def demo_edges_def pr_app_def prop_of_def demo_buffers_def lane_burst_of)
  have w: "fst (pr_apply 768 256 1 (junk 0 5) 0) = 648"
    using demo_app(2) unfolding extra_free_def by (simp add: demo_cluster_def pr_app_def) (metis pr_apply_648)
  let ?N = "1024 :: nat" and ?vp = "fst demo_buffers"
  have "fst (node_cached pr_app ?N 0 u cs tok0 (\<lambda>_ _ _. 0) junk (cl_files demo_cluster 0) (\<lambda>_. ?vp)
      (cl_outDeg demo_cluster) (\<lambda>_. 0) (word_of_nat (16 * 0)) (word_of_nat ?N) 0) =
    (\<lambda>t. if 0 \<le> t \<and> t < 0 + ?N div 16
         then partition_words pr_app ?N (prop_of ?vp) (demo_edges 0) ?vp (cl_outDeg demo_cluster) junk 0 0 (t - 0) else 0)"
    by (rule cached_partition_computes [OF std_partitioner.partitioner_axioms demo_files _ _ _ _ _ _ _ _ _ f _ alg, where n = 10])
      (simp_all add: demo_edges_def)
  then show "lane 5 (fst (node_cached pr_app 1024 0 u cs tok0 (\<lambda>_ _ _. 0) junk (cl_files demo_cluster 0) (\<lambda>_. fst demo_buffers)
      (cl_outDeg demo_cluster) (\<lambda>_. 0) (word_of_nat (16 * 0)) (word_of_nat 1024) 0) 0) = 648"
    by (simp add: partition_words_def lane_burst_of new_property_def v)
      (simp add: demo_cluster_def pr_app_def gather_all_def pr_gather_def demo_buffers_def lane_burst_of w)
qed

text \<open>C16: A source cache (coalescing, read engine, the chain of eight processing elements) answers
  a packet of sorted vertices with their properties, lane by lane, and returns.\<close>

theorem source_cache_answers:
  assumes "ds \<noteq> []" "sorted (lanes_of ds)" "\<forall>v \<in> set (lanes_of ds). v < 2 ^ 31" "B < 27"
    and "\<And>l. l < 16 \<Longrightarrow> lane l e = 0xFFFFFFFF"
    and "no_alias (map fst (packet_lines B input (blocks_of B (lanes_of ds))))"
    and "\<And>i. i < 8 \<Longrightarrow> \<exists>p t v q. st i = pe_start p t v q"
  shows "source_cache B ini u fresh st input (packet_beats ds e) =
    (map (\<lambda>k. \<lparr>ax_data = burst_of (\<lambda>l. lane (unat (lane l (ds ! k)) mod 16) (input (unat (lane l (ds ! k)) div 16))),
       ax_last = (Suc k = length ds)\<rparr>) [0..<length ds], Returned)"
  by (rule source_cache_packet [OF assms])

theorem source_cache_answers_witness:
  "\<forall>ini u fresh. source_cache 0 ini u fresh (\<lambda>_. pe_start (\<lambda>_ _. 0) (\<lambda>_. 0) 0 0) (\<lambda>l. burst_of (\<lambda>i. word_of_nat (100 * l + i)))
      (packet_beats [burst_of (\<lambda>l. 3)] (burst_of (\<lambda>l. 0xFFFFFFFF))) =
    ([\<lparr>ax_data = burst_of (\<lambda>l. 3), ax_last = True\<rparr>], Returned)"
proof -
  have l: "lanes_of [burst_of (\<lambda>l. 3)] = replicate 16 3"
    by (rule nth_equalityI) (simp_all add: lanes_of_def lane_burst_of)
  have "blocks_of 0 (replicate 16 3) = [0]" by (simp add: blocks_of_def remdups_adj_replicate)
  moreover have "no_alias [0, Suc 0, Suc (Suc 0)]" by (rule no_alias_span) simp_all
  ultimately have a: "no_alias (map fst (packet_lines 0 m (blocks_of 0 (lanes_of [burst_of (\<lambda>l. 3)]))))" for m
    by (simp add: l packet_lines_def block_lines_def Let_def)
  show ?thesis
    by (intro allI, subst source_cache_answers [OF _ _ _ _ _ a]) (auto simp: l lane_burst_of burst_of_eq_iff)
qed

text \<open>C17: A processing element of the source cache, with requests and lines arriving at any time
  between its iterations: what it has sent is always the beginning of the right answers, it
  leaves the loop only with all answers sent and all lines passed on, and it can always go on
  to that point.\<close>

theorem cache_element_any_schedule:
  assumes "packet_ok vs ls"
    and "pe_step\<^sup>*\<^sup>* (pe_config_start (pe_start p t v q) (req_tokens vs) (line_tokens ls)) c"
  shows "(\<exists>later. answers vs ls = pc_out c @ later) \<and> (pc_left c \<longrightarrow> pc_out c = answers vs ls \<and> pc_fwd c = line_tokens ls) \<and>
    (\<exists>c'. pe_step\<^sup>*\<^sup>* c c' \<and> pc_left c')"
  using pe_run [OF assms] by blast

theorem cache_element_any_schedule_witness:
  "\<exists>c. pe_step\<^sup>*\<^sup>* (pe_config_start (pe_start (\<lambda>_ _. 0) (\<lambda>_. 0) 0 0) (req_tokens [3, 3, 17])
      (line_tokens [(0, 5), (1, 6), (2, 7)])) c \<and> pc_left c"
proof -
  have "no_alias [0, 1, 2]" by (rule no_alias_span) simp_all
  then have "packet_ok [3, 3, 17] [(0, 5), (1, 6), (2, 7)]" by (simp add: packet_ok_def)
  from cache_element_any_schedule [OF this rtranclp.rtrancl_refl] show ?thesis by blast
qed

text \<open>C18: With all its tokens there, the loop of a processing element ends within two iterations for
  each token and one more, having answered every request.\<close>

theorem cache_element_returns:
  assumes "packet_ok vs ls" "pe_fuel (req_tokens vs) (line_tokens ls) \<le> k"
  shows "\<exists>st'. pe_loop k (pe_start p t v q) (req_tokens vs) (line_tokens ls) =
    (answers vs ls, line_tokens ls, st', [], [], Returned)"
  by (rule pe_packet [OF assms])

theorem cache_element_returns_witness:
  "fst (pe_loop 13 (pe_start (\<lambda>_ _. 0) (\<lambda>_. 0) 0 0) (req_tokens [3, 3, 17]) (line_tokens [(0, 5), (1, 6), (2, 7)])) =
    answers [3, 3, 17] [(0, 5), (1, 6), (2, 7)]"
proof -
  have "no_alias [0, 1, 2]" by (rule no_alias_span) simp_all
  then have p: "packet_ok [3, 3, 17] [(0, 5), (1, 6), (2, 7)]" by (simp add: packet_ok_def)
  have "pe_fuel (req_tokens [3, 3, 17]) (line_tokens [(0, 5), (1, 6), (2, 7)]) \<le> 13"
    by (simp add: pe_fuel_def req_tokens_def line_tokens_def)
  from cache_element_returns [OF p this, of "\<lambda>_ _. 0" "\<lambda>_. 0" 0 0] show ?thesis by (elim exE) simp
qed

text \<open>C19: When the lines of a packet have a gap, a processing element can answer a request from the
  wrong line: it stores line 4096, which takes the place of line 0, while line 0 is still
  needed, and sends its word instead of that of line 0 for the second request.\<close>

theorem cache_line_lost:
  "(\<exists>c. pe_step\<^sup>*\<^sup>* (pe_config_start (pe_start p t v q) (req_tokens [0, 0, 65536])
        (line_tokens [(0, d0), (4096, d1), (4097, 0), (4098, 0)])) c \<and>
     map frp_data (pc_out c) = [lane 0 d0, lane 0 d1]) \<and>
   map frp_data (answers [0, 0, 65536] [(0, d0), (4096, d1), (4097, 0), (4098, 0)]) = [lane 0 d0, lane 0 d0, lane 0 d1]"
proof (rule conjI)
  obtain c where "pe_step\<^sup>*\<^sup>* (pe_config_start (pe_start p t v q) (req_tokens [0, 0, 65536])
        (line_tokens [(0, d0), (4096, d1), (4097, 0), (4098, 0)])) c"
    "pc_out c = [\<lparr>frp_data = lane 0 d0, frp_last = False\<rparr>, \<lparr>frp_data = lane 0 d1, frp_last = False\<rparr>]"
    using cache_line_overwritten by blast
  then show "\<exists>c. pe_step\<^sup>*\<^sup>* (pe_config_start (pe_start p t v q) (req_tokens [0, 0, 65536])
        (line_tokens [(0, d0), (4096, d1), (4097, 0), (4098, 0)])) c \<and>
     map frp_data (pc_out c) = [lane 0 d0, lane 0 d1]" by auto
qed (simp add: answers_def line_lookup_def upt_rec)




text \<open>The read engine turns a packet of block numbers into all the lines of the blocks in order,
  each with its address and data, followed by two lines behind the last one that end the
  packet, and leaves the commands of the next packet alone.\<close>

theorem read_engine_lines:
  assumes "\<forall>b \<in> set bs. b < 2 ^ (27 - B)" "B < 27"
    and "map ax_data cs = map (\<lambda>b. \<lparr>cc_idx = word_of_nat b, cc_size = 1\<rparr>) bs"
    and "cc_idx (ax_data e) = end_block B"
  shows "\<exists>os. src_cache_read_engine B input (map Some (cs @ e # rest)) = (os, map Some rest, Returned) \<and>
    map ax_data os = lines_of input (block_lines B bs) @ tail_lines B bs \<and>
    map ax_last os = replicate (length os - 1) False @ [True]"
  by (rule src_cache_read_engine_packet [OF assms])

theorem read_engine_lines_witness:
  "\<exists>os. (src_cache_read_engine 1 (\<lambda>l. word_of_nat l) (map Some ([\<lparr>ax_data = \<lparr>cc_idx = word_of_nat 5, cc_size = 1\<rparr>, ax_last = False\<rparr>] @
      \<lparr>ax_data = \<lparr>cc_idx = end_block 1, cc_size = 1\<rparr>, ax_last = True\<rparr> # [])) = (os, map Some [], Returned) \<and>
    map cl_data (map ax_data os) = [10, 11, 0, 0])"
  (is "\<exists>os. ?P os")
proof -
  have 1: "\<forall>b \<in> set [5 :: nat]. b < 2 ^ (27 - 1)" by simp
  have 2: "map ax_data [\<lparr>ax_data = \<lparr>cc_idx = word_of_nat 5, cc_size = 1\<rparr>, ax_last = False\<rparr>] =
      map (\<lambda>b. \<lparr>cc_idx = word_of_nat b, cc_size = 1\<rparr>) [5]" by simp
  have 3: "cc_idx (ax_data \<lparr>ax_data = \<lparr>cc_idx = end_block 1, cc_size = 1\<rparr>, ax_last = True\<rparr>) = end_block 1" by simp
  have 4: "(1 :: nat) < 27" by simp
  obtain os where os: "src_cache_read_engine 1 (\<lambda>l. word_of_nat l) (map Some ([\<lparr>ax_data = \<lparr>cc_idx = word_of_nat 5, cc_size = 1\<rparr>, ax_last = False\<rparr>] @
      \<lparr>ax_data = \<lparr>cc_idx = end_block 1, cc_size = 1\<rparr>, ax_last = True\<rparr> # [])) = (os, map Some [], Returned)"
    "map ax_data os = lines_of (\<lambda>l. word_of_nat l) (block_lines 1 [5]) @ tail_lines 1 [5]"
    using read_engine_lines [OF 1 4 2 3, of "\<lambda>l. word_of_nat l" "[]"] by blast
  have "map cl_data (map ax_data os) = [10, 11, 0, 0]"
  proof -
    have b: "block_lines 1 [5] = [10, 11]" by (simp add: block_lines_def upt_conv_Cons)
    show ?thesis unfolding os(2) b tail_lines_def Let_def by (simp add: lines_of_def del: of_nat_mult)
  qed
  with os(1) have "?P os" by (rule conjI)
  then show ?thesis by (rule exI [of ?P])
qed

section \<open>The gather-scatter kernel\<close>

text \<open>C22: A call of the kernel \<open>gs\<close> on \<open>16 * m\<close> edges, with one property beat for every
  sixteen edges, writes for each vertex of the partition the gathered updates of the edges
  of the first \<open>m - 1\<close> groups that point to it: lane \<open>i\<close> of burst \<open>b\<close> belongs to vertex
  \<open>16 * b + i\<close>, edges with a padding destination or an inactive update do not count, and
  the last group of sixteen edges (which the host fills with padding) is dropped.\<close>

theorem gs_computes_gather:
  assumes "N = 2 ^ n" "10 \<le> n" "n < 32" "0 < m" "32 * m < 2 ^ 32" "length props = m"
    and "\<forall>i<16. \<forall>t < N div 32. bufs i t = 0"
  shows "gs_out (gs a N tok0 out0 bufs edges (word_of_nat (32 * m)) (props @ qs)) =
      map (\<lambda>b. out0\<lparr>bd_data := burst_of (\<lambda>i. vertex_result a N edges props (16 * (m - 1)) (16 * b + i))\<rparr>)
        [0..<N div 16]"
  by (rule gs_call(1)) (fact assms)+

theorem gs_computes_gather_witness:
  "lane 3 (bd_data (gs_out (gs pr_app 1024 (0, 0) \<lparr>bd_data = 0, bd_keep = 0, bd_last = False, bd_dest = 0\<rparr>
      (\<lambda>_ _. 0) (\<lambda>w. burst_of (\<lambda>l. if even l then 7 else 3)) (word_of_nat (32 * 2))
      ([\<lparr>ax_data = burst_of (\<lambda>_. 5), ax_last = False\<rparr>, \<lparr>ax_data = 0, ax_last = False\<rparr>] @ [])) ! 0)) = 80"
proof -
  have e: "edge_dst (\<lambda>w. burst_of (\<lambda>l. if even l then 7 else 3)) k = 3" for k
    by (simp add: edge_dst_def lane_burst_of)
  have u: "[0..<16] = [0, 1, 2, 3, 4, 5, 6, 7, 8, 9, 10, 11, 12, 13, 14, 15::nat]" by (simp add: upt_rec)
  show ?thesis
    by (subst gs_computes_gather [of 1024 10 2])
      (simp_all add: lane_burst_of vertex_result_def vertex_updates_def update_of_def e edge_prop_in_def
        pr_app_def pr_gather_def gather_all_def u)
qed

text \<open>In the same call the kernel asks the cache for the sources of all \<open>m\<close> groups, in
  edge order, sixteen in a beat, and ends the request with one beat of invalid vertices
  that carries \<open>last\<close>.\<close>

theorem gs_requests_sources:
  assumes "N = 2 ^ n" "10 \<le> n" "n < 32" "0 < m" "32 * m < 2 ^ 32" "length props = m"
    and "\<forall>i<16. \<forall>t < N div 32. bufs i t = 0"
  shows "gs_src (gs a N tok0 out0 bufs edges (word_of_nat (32 * m)) (props @ qs)) =
      map (\<lambda>k. \<lparr>ax_data = group_of (edge_src edges) k, ax_last = False\<rparr>) [0..<m] @
        [\<lparr>ax_data = burst_of (\<lambda>i. 0xFFFFFFFF), ax_last = True\<rparr>]"
  by (rule gs_call(2)) (fact assms)+

theorem gs_requests_sources_witness:
  "gs_src (gs wcc_app 2048 (0, 0) \<lparr>bd_data = 0, bd_keep = 0, bd_last = False, bd_dest = 0\<rparr>
      (\<lambda>_ _. 0) (\<lambda>w. burst_of (\<lambda>l. if even l then 7 else 3)) (word_of_nat (32 * 1))
      ([\<lparr>ax_data = 0, ax_last = False\<rparr>] @ [\<lparr>ax_data = 1, ax_last = False\<rparr>])) =
    [\<lparr>ax_data = burst_of (\<lambda>_. 7), ax_last = False\<rparr>, \<lparr>ax_data = burst_of (\<lambda>i. 0xFFFFFFFF), ax_last = True\<rparr>]"
proof -
  have e: "edge_src (\<lambda>w. burst_of (\<lambda>l. if even l then 7 else 3)) k = 7" for k
    by (simp add: edge_src_def lane_burst_of)
  show ?thesis
    by (subst gs_requests_sources [of 2048 11 1]) (simp_all add: group_of_def e)
qed

text \<open>C23: The call returns, and the buffers of all processing elements are zero again, so
  that the next call starts from the state this one started from.\<close>

theorem gs_returns_and_resets:
  assumes "N = 2 ^ n" "10 \<le> n" "n < 32" "0 < m" "32 * m < 2 ^ 32" "length props = m"
    and "\<forall>i<16. \<forall>t < N div 32. bufs i t = 0"
  shows "gs_status (gs a N tok0 out0 bufs edges (word_of_nat (32 * m)) (props @ qs)) = Returned \<and>
    (\<forall>i<16. \<forall>t < N div 32. gs_bufs (gs a N tok0 out0 bufs edges (word_of_nat (32 * m)) (props @ qs)) i t = 0)"
  using gs_call(3,4) [OF assms] by blast

theorem gs_returns_and_resets_witness:
  "gs_status (gs bfs_app 1024 (0, 0) \<lparr>bd_data = 0, bd_keep = 0, bd_last = False, bd_dest = 0\<rparr>
      (\<lambda>_ _. 0) (\<lambda>w. 0) (word_of_nat (32 * 3)) (replicate 3 \<lparr>ax_data = 1, ax_last = False\<rparr> @ [])) = Returned"
  using gs_returns_and_resets [of 1024 10 3 "replicate 3 \<lparr>ax_data = 1, ax_last = False\<rparr>" "\<lambda>_ _. 0"
      bfs_app "(0, 0)" "\<lparr>bd_data = 0, bd_keep = 0, bd_last = False, bd_dest = 0\<rparr>" "\<lambda>_. 0" "[]"]
  by simp

section \<open>Parts of the kernel\<close>

text \<open>C24: The forwarding registers hide the latency of the buffer memory: after any
  sequence of updates, an update that reads a memory which lacks up to the last four writes
  has the same effect as one that reads the buffer itself.\<close>

theorem forwarding_hides_latency:
  assumes "buf 0 = 0" and "st = fold (\<lambda>d s. dst_update a N s d) ds (dst_init buf)" and "stale st old"
  shows "dst_update_read a N (old (unat (drop_bit 1 (dst_idx N (ix d)) :: u32))) st d = dst_update a N st d"
  using assms by (intro dst_update_stale) (simp_all add: fwd_inv_fold fwd_inv_init)

theorem forwarding_hides_latency_witness:
  "dst_update_read pr_app 1024 ((\<lambda>_. 0) (unat (drop_bit 1 (dst_idx 1024 5) :: u32)))
     (fold (\<lambda>d s. dst_update pr_app 1024 s d) [\<lparr>ix = 5, iy = 9\<rparr>] (dst_init (\<lambda>_. 0))) \<lparr>ix = 5, iy = 2\<rparr> =
   dst_update pr_app 1024 (fold (\<lambda>d s. dst_update pr_app 1024 s d) [\<lparr>ix = 5, iy = 9\<rparr>] (dst_init (\<lambda>_. 0)))
     \<lparr>ix = 5, iy = 2\<rparr>"
proof -
  have z: "addr = 0" if "unat addr = 0" for addr :: u32 using that by (simp add: word_unat_eq_iff)
  have "stale (fold (\<lambda>d s. dst_update pr_app 1024 s d) [\<lparr>ix = 5, iy = 9\<rparr>] (dst_init (\<lambda>_. 0))) (\<lambda>_. 0)"
    by (auto simp: stale_def dst_update_def dst_update_read_def dst_init_def dst_idx_def shift_in_def
        Let_def LOG2_PE_NUM_def L_def bit_simps dest!: z)
  from forwarding_hides_latency [OF _ refl this, of "\<lparr>ix = 5, iy = 2\<rparr>"] show ?thesis by simp
qed

text \<open>The destination process on a packet of updates streams out one word for every two
  vertices, in which each vertex's half is the fold of \<open>gatherFunc\<close> over its updates in
  arrival order, leaves the buffer zero and returns after the end token.\<close>

theorem dstPropertyProcess_accumulates:
  assumes "N = 2 ^ n" "5 \<le> n" "n < 32" "\<forall>t < N div 32. buf t = 0"
  shows "\<exists>buf' os. dstPropertyProcess a N buf (map (\<lambda>d. \<lparr>it_data = d, it_flag = False\<rparr>) ds @
            \<lparr>it_data = e, it_flag = True\<rparr> # rest) = (buf', os, rest, Returned) \<and>
     (\<forall>t < N div 32. buf' t = 0) \<and> length os = N div 32 \<and>
     (\<forall>k < N div 16. cell ((!) os) k = gather_all (gatherFunc a) (updates_for N k ds))"
  by (rule dstPropertyProcess_packet) (fact assms)+

theorem dstPropertyProcess_accumulates_witness:
  "\<exists>buf' os. dstPropertyProcess wcc_app 64 (\<lambda>_. 0)
      (map (\<lambda>d. \<lparr>it_data = d, it_flag = False\<rparr>) [\<lparr>ix = 17, iy = 4\<rparr>, \<lparr>ix = 17, iy = 9\<rparr>, \<lparr>ix = 17, iy = 6\<rparr>] @
       \<lparr>it_data = \<lparr>ix = 0, iy = 0\<rparr>, it_flag = True\<rparr> # []) = (buf', os, [], Returned) \<and> cell ((!) os) 1 = 9"
proof -
  have "updates_for 64 1 [\<lparr>ix = 17, iy = 4\<rparr>, \<lparr>ix = 17, iy = 9\<rparr>, \<lparr>ix = 17, iy = 6\<rparr>] = [4, 9, 6]"
    by (simp add: updates_for_def local_idx_def bit_iff_odd)
  then show ?thesis
    using dstPropertyProcess_accumulates [of 64 6 "\<lambda>_. 0" wcc_app
      "[\<lparr>ix = 17, iy = 4\<rparr>, \<lparr>ix = 17, iy = 9\<rparr>, \<lparr>ix = 17, iy = 6\<rparr>]" "\<lparr>ix = 0, iy = 0\<rparr>" "[]"]
    by (auto simp: gather_all_def wcc_app_def wcc_gather_def)
qed

text \<open>C25: The shuffle and the filter of processing element \<open>i\<close> turn a packet of edge tuples
  into exactly the active edges whose destination is \<open>i\<close> modulo 16, in their order,
  followed by one token that ends the packet.\<close>

theorem shuffle_delivers_by_hash:
  assumes "\<forall>t \<in> set ts. \<not> et_flag t \<and> length (et_data t) = 8" "et_flag e" "i < 16"
  shows "\<exists>d. tupleFilter (shuffle a (ts @ e # rest) ! i) =
    (map (\<lambda>d. \<lparr>it_data = d, it_flag = False\<rparr>) (filter (valid a i) (concat (map et_data ts))) @
       [\<lparr>it_data = d, it_flag = True\<rparr>], [], Returned)"
  by (rule shuffle_filter_stream) (fact assms)+

theorem shuffle_delivers_by_hash_witness:
  "\<exists>d. tupleFilter (shuffle pr_app ([\<lparr>et_data = map (\<lambda>k. \<lparr>ix = word_of_nat (16 * k + k mod 2), iy = word_of_nat k\<rparr>) [0..<8],
       et_flag = False\<rparr>] @ \<lparr>et_data = [], et_flag = True\<rparr> # []) ! 1) =
    (map (\<lambda>d. \<lparr>it_data = d, it_flag = False\<rparr>) [\<lparr>ix = 17, iy = 1\<rparr>, \<lparr>ix = 49, iy = 3\<rparr>, \<lparr>ix = 81, iy = 5\<rparr>, \<lparr>ix = 113, iy = 7\<rparr>] @
      [\<lparr>it_data = d, it_flag = True\<rparr>], [], Returned)"
proof -
  have "filter (valid pr_app 1) (concat (map et_data
      [\<lparr>et_data = map (\<lambda>k. \<lparr>ix = word_of_nat (16 * k + k mod 2), iy = word_of_nat k\<rparr>) [0..<8], et_flag = False\<rparr>])) =
    [\<lparr>ix = 17, iy = 1\<rparr>, \<lparr>ix = 49, iy = 3\<rparr>, \<lparr>ix = 81, iy = 5\<rparr>, \<lparr>ix = 113, iy = 7\<rparr>]"
    by (simp add: upt8 valid_def HASH_MASK_def PE_NUM_def pr_app_def)
  with shuffle_delivers_by_hash [of "[\<lparr>et_data = map (\<lambda>k. \<lparr>ix = word_of_nat (16 * k + k mod 2), iy = word_of_nat k\<rparr>) [0..<8],
       et_flag = False\<rparr>]" "\<lparr>et_data = [], et_flag = True\<rparr>" 1 pr_app "[]"]
  show ?thesis by simp
qed

text \<open>The decoder tables: for every opcode, the number is the count of set bits and the
  three-bit fields are their positions in increasing order.\<close>

theorem shuffleDecoder_positions:
  "unat (sh_num (shuffleDecoder opc)) = card {k. k < 8 \<and> bit opc k} \<and>
   map (\<lambda>j. unat (rng (3 * j) (sh_idx (shuffleDecoder opc)) :: 3 word)) [0..<unat (sh_num (shuffleDecoder opc))] =
     sorted_list_of_set {k. k < 8 \<and> bit opc k}"
proof -
  have b: "odd (unat opc div 2 ^ j) \<longleftrightarrow> bit opc j" for j
    by (simp add: bit_iff_odd [symmetric] bit_unsigned_iff)
  have s: "set (positions (unat opc)) = {k. k < 8 \<and> bit opc k}"
    by (auto simp: positions_def b)
  have d: "distinct (positions (unat opc))" "sorted (positions (unat opc))"
    by (simp_all add: positions_def sorted_wrt_filter)
  have "map (\<lambda>j. unat (rng (3 * j) (sh_idx (shuffleDecoder opc)) :: 3 word)) [0..<length (positions (unat opc))] =
      positions (unat opc)"
    by (rule nth_equalityI) (simp_all add: shuffleDecoder_idx)
  moreover have "positions (unat opc) = sorted_list_of_set {k. k < 8 \<and> bit opc k}"
    using d s by (metis sorted_list_of_set_sort_remdups distinct_remdups_id sort_key_id_if_sorted sorted_sort_id)
  ultimately show ?thesis
    using d s by (simp add: shuffleDecoder_num flip: distinct_card)
qed

section \<open>The applications\<close>

text \<open>For each of the three applications the gathered value of a vertex does not depend
  on the order in which its updates arrive: for PageRank always, for WCC when the labels
  are not negative, for BFS when the updates are 0 or active.\<close>

theorem gather_order_irrelevant:
  assumes "mset us = mset vs"
  shows "gather_all pr_gather us = gather_all pr_gather vs \<and>
    ((\<forall>u \<in> set us. wcc_ok u) \<longrightarrow> gather_all wcc_gather us = gather_all wcc_gather vs) \<and>
    ((\<forall>u \<in> set us. bfs_ok u) \<longrightarrow> gather_all bfs_gather us = gather_all bfs_gather vs)"
  using pr_alg.gather_perm [OF assms] wcc_alg.gather_perm [OF assms] bfs_alg.gather_perm [OF assms] by blast

theorem gather_order_irrelevant_witness:
  "gather_all bfs_gather [0x80000007, 0x80000003] = gather_all bfs_gather [0x80000003, 0x80000007]"
proof -
  have "mset [0x80000007, 0x80000003 :: u32] = mset [0x80000003, 0x80000007]" by simp
  from gather_order_irrelevant [OF this] show ?thesis by (simp add: bfs_ok_def bit_simps)
qed

text \<open>What the applications gather: PageRank the sum of the updates modulo \<open>2 ^ 32\<close>,
  WCC the largest label (0 without updates), BFS an update with the least level.\<close>

theorem gather_meaning:
  "gather_all pr_gather us = sum_list us \<and>
   ((\<forall>u \<in> set us. wcc_ok u) \<longrightarrow> sint (gather_all wcc_gather us) = Max (insert 0 (sint ` set us))) \<and>
   (us \<noteq> [] \<and> (\<forall>u \<in> set us. bfs_is_active u) \<longrightarrow>
      gather_all bfs_gather us \<in> set us \<and>
      (\<forall>u \<in> set us. gather_all bfs_gather us AND mask 31 \<le> u AND mask 31))"
  using pr_gather_all wcc_gather_all bfs_gather_all by blast

theorem gather_meaning_witness:
  "gather_all bfs_gather [0x80000007, 0x80000003, 0x80000005] = 0x80000003"
proof -
  have "\<forall>u \<in> set [0x80000007, 0x80000003, 0x80000005 :: u32]. bfs_is_active u"
    by (simp add: bfs_is_active_def VERTEX_ACTIVE_BIT_MASK_def)
  with gather_meaning [of "[0x80000007, 0x80000003, 0x80000005]"] show ?thesis
    by (auto simp: mask_eq_exp_minus_1)
qed

text \<open>With neither \<open>TYPE\<close> nor an application name defined as a macro with a value, as
  in the makefiles, the selection of \<open>fpga_application.h\<close> takes BFS whatever name \<open>TYPE\<close>
  is defined as.\<close>

theorem application_is_bfs:
  assumes "defs ''bfs'' = None" "defs ''TYPE'' = None \<or> (\<exists>t. defs ''TYPE'' = Some (Ident t) \<and> defs t = None)"
  shows "fpga_application defs = bfs_app"
  using assms by (auto simp: fpga_application_def pp_eval_def)

theorem application_is_bfs_witness:
  "fpga_application ((\<lambda>_. None)(''TYPE'' := Some (Ident ''pr''))) = bfs_app"
  by (rule application_is_bfs) auto

section \<open>Merge, apply, write\<close>

text \<open>The chain of three merge kernels turns the results of four gather-scatter kernels
  on four lists of updates into the result on all the updates.\<close>

theorem merge_of_shards:
  assumes "gather_algebra (gatherFunc a) ok" "\<And>j v. j < 4 \<Longrightarrow> \<forall>x \<in> set (U j v). ok x"
    and "\<And>j. j < 4 \<Longrightarrow> tmp j = gathered a u n (U j)"
  shows "merge_chain a u tmp = gathered a u n (\<lambda>v. U 0 v @ U 1 v @ U 2 v @ U 3 v)"
  by (rule merge_chain_gathered [OF assms])

theorem merge_of_shards_witness:
  "lane 2 (bd_data (merge_chain pr_app \<lparr>bd_data = 0, bd_keep = 0, bd_last = False, bd_dest = 0\<rparr>
     (\<lambda>j. gathered pr_app \<lparr>bd_data = 0, bd_keep = 0, bd_last = False, bd_dest = 0\<rparr> 3 (\<lambda>v. [word_of_nat (v + j)])) ! 1)) = 78"
  by (subst merge_of_shards [where ok = "\<lambda>_. True" and U = "\<lambda>j v. [word_of_nat (v + j)]"])
    (auto simp: pr_app_def gathered_def lane_burst_of gather_all_def pr_gather_def
      intro: pr_alg.gather_algebra_axioms)

text \<open>C26: A call of \<open>streamApply\<close> on a whole number of 1024-vertex rows, with empty static
  streams: every lane of every burst is \<open>applyFunc\<close> of the merged value, the old property
  and the out-degree; the report is the sum over all lanes and bursts; nothing stays in the
  static streams.\<close>

theorem streamApply_whole_rows:
  assumes "0 < k" "off + 64 * k + 64 < 2 ^ 28" "64 * k \<le> length tmps"
  shows "streamApply a uninit junk vertexProp outDegree [] [] tmps
      (word_of_nat (16 * off)) (word_of_nat (16 * (64 * k))) arg =
    (map (\<lambda>t. uninit\<lparr>bd_data := burst_of (\<lambda>i. fst (apply_lane a arg (junk t) (vertexProp (off + t)) (bd_data (tmps ! t))
        (map_option (\<lambda>d. d (off + t)) outDegree) i))\<rparr>) [0..<64 * k],
     Some (\<Sum>i\<leftarrow>[0..<16]. \<Sum>t\<leftarrow>[0..<64 * k]. snd (apply_lane a arg (junk t) (vertexProp (off + t)) (bd_data (tmps ! t))
        (map_option (\<lambda>d. d (off + t)) outDegree) i)),
     map_option (\<lambda>_. []) outDegree, [], drop (64 * k) tmps, Returned)"
  by (rule streamApply_rows [OF assms])

theorem streamApply_whole_rows_witness:
  "bd_data (fst (streamApply wcc_app \<lparr>bd_data = 0, bd_keep = 0, bd_last = False, bd_dest = 0\<rparr> (\<lambda>_ _. 0) (\<lambda>_. 0) None [] []
     (replicate 64 \<lparr>bd_data = burst_of (\<lambda>i. 9), bd_keep = 0, bd_last = False, bd_dest = 0\<rparr>)
     (word_of_nat (16 * 128)) (word_of_nat (16 * (64 * 1))) 0) ! 5) = burst_of (\<lambda>i. 9)"
  by (subst streamApply_whole_rows) (simp_all add: apply_lane_def wcc_app_def wcc_apply_def burst_of_eq_iff lane_burst_of)

text \<open>C27: When the number of vertices is a multiple of 16 but not of 1024, the reader of the
  old properties fills the row: the words beyond the last vertex stay in the static stream,
  where the next call takes them for its own.\<close>

theorem streamApply_leaves_words:
  assumes "0 < n" "off + n + 64 < 2 ^ 28" "n \<le> length tmps"
  shows "fst (snd (snd (snd (streamApply a uninit junk vertexProp None [] [] tmps
      (word_of_nat (16 * off)) (word_of_nat (16 * n)) arg)))) =
    map (\<lambda>t. vertexProp (off + t)) [n..<((n - 1) div 64 + 1) * 64]"
  by (rule streamApply_left_over [OF assms])

theorem streamApply_leaves_words_witness:
  "length (fst (snd (snd (snd (streamApply pr_app \<lparr>bd_data = 0, bd_keep = 0, bd_last = False, bd_dest = 0\<rparr> (\<lambda>_ _. 0) (\<lambda>_. 0) None [] []
     [\<lparr>bd_data = 0, bd_keep = 0, bd_last = False, bd_dest = 0\<rparr>] (word_of_nat (16 * 0)) (word_of_nat (16 * 1)) 0))))) = 63"
  by (subst streamApply_leaves_words) simp_all

text \<open>\<open>streamWrite\<close> on a multiple of 1024 vertices stores exactly the bursts of the call
  at the offset and leaves the rest of the memory and of the stream alone.\<close>

theorem streamWrite_stores:
  assumes "64 * k \<le> length xs" "off + 64 * k < 2 ^ 28"
  shows "streamWrite m xs (word_of_nat (16 * off)) (word_of_nat (1024 * k)) =
    (\<lambda>t. if off \<le> t \<and> t < off + 64 * k then bd_data (xs ! (t - off)) else m t, drop (64 * k) xs, Returned)"
  by (rule streamWrite_rows [OF assms])

theorem streamWrite_stores_witness:
  "fst (streamWrite (\<lambda>_. 0) (replicate 64 \<lparr>bd_data = 7, bd_keep = 0, bd_last = False, bd_dest = 0\<rparr>)
     (word_of_nat (16 * 64)) (word_of_nat (1024 * 1))) 100 = 7"
  by (subst streamWrite_stores) simp_all

section \<open>Exchange between the nodes\<close>

text \<open>\<open>readProp\<close> sends a slice of memory as packets of at most 21 words, each behind a
  header beat with the node and the index of the first word, and marks the final beat of
  every packet.\<close>

theorem readProp_sends_packets:
  assumes "0 < n" "n < 2 ^ 28" "s < 2 ^ 28"
  shows "readProp u m nd ds (word_of_nat (16 * s)) (word_of_nat (16 * n)) = beats_of (slice_packets u m nd ds s n) \<and>
    (\<forall>p < packet_num n. unat (lane 1 (header_word u m nd s p)) = s + 21 * p \<and> lane 0 (header_word u m nd s p) = nd)"
proof -
  have "s + 21 * p < 2 ^ 32" if "p < packet_num n" for p
    using packet_num_bounds(2) [OF that] assms by simp
  then show ?thesis using readProp_slice [OF assms] header_word_lanes by blast
qed

theorem readProp_sends_packets_witness:
  "map bd_last (readProp 0 (\<lambda>_. 1) 3 4 (word_of_nat (16 * 5)) (word_of_nat (16 * 2))) = [False, False, True]"
proof -
  have "readProp 0 (\<lambda>_. 1) 3 4 (word_of_nat (16 * 5)) (word_of_nat (16 * 2)) = beats_of (slice_packets 0 (\<lambda>_. 1) 3 4 5 2)"
    using readProp_sends_packets [of 2 5 0 "\<lambda>_. 1" 3 4] by simp
  then show ?thesis by (simp add: beats_of_def slice_packets_def packet_num_def packet_def slice_words_def upt_rec)
qed

text \<open>\<open>writeProp\<close>, told the number of packets, stores each of them at the address in its
  header, whichever nodes sent them and in whatever order they came, and then returns.\<close>

theorem writeProp_stores_packets:
  assumes "\<forall>(d, h, ws) \<in> set ps. ws \<noteq> []" "ps \<noteq> []" "length ps < 2 ^ 32"
  shows "writeProp m (beats_of ps @ xs) (word_of_nat (length ps)) = (store_packets ps m, xs, Returned)"
  by (rule writeProp_packets [OF assms])

theorem writeProp_stores_packets_witness:
  "fst (writeProp (\<lambda>_. 0) (beats_of [(1, burst_of (\<lambda>i. if i = 1 then 40 else 2), [5, 6]), (1, burst_of (\<lambda>i. if i = 1 then 8 else 3), [7])] @ [])
     (word_of_nat (length [(1 :: u16, burst_of (\<lambda>i. if i = 1 then 40 else 2), [5, 6 :: burst]), (1, burst_of (\<lambda>i. if i = 1 then 8 else 3), [7])]))) 41 = 6"
  by (subst writeProp_stores_packets) (simp_all add: store_packets_def store_words_def lane_burst_of)

text \<open>C28: Sending a slice with \<open>readProp\<close> and storing it with \<open>writeProp\<close> copies the slice
  and nothing else.\<close>

theorem writeProp_inverts_readProp:
  assumes "0 < n" "n < 2 ^ 28" "s + n < 2 ^ 28"
  shows "writeProp m2 (readProp u m nd ds (word_of_nat (16 * s)) (word_of_nat (16 * n)) @ xs) (word_of_nat (packet_num n)) =
    (\<lambda>t. if s \<le> t \<and> t < s + n then m t else m2 t, xs, Returned)"
  by (rule writeProp_readProp [OF assms])

theorem writeProp_inverts_readProp_witness:
  "fst (writeProp (\<lambda>_. 0) (readProp 0 (\<lambda>t. word_of_nat t) 1 2 (word_of_nat (16 * 100)) (word_of_nat (16 * 50)) @ [])
     (word_of_nat (packet_num 50))) 120 = 120"
  by (subst writeProp_inverts_readProp) simp_all

text \<open>In every reachable state of a ring station, all that came from the network has gone
  to \<open>vertexUpdate\<close>, unchanged and in order, but for what still waits in the input FIFO.\<close>

theorem globalTrans_delivers_all:
  assumes "gt_reach s"
  shows "st_net_all s = st_update s @ st_net_in s"
  by (rule gt_updates_all [OF assms])

theorem globalTrans_delivers_all_witness:
  "st_update (iterate_station (station_init\<lparr>st_net_in := [\<lparr>bd_data = 3, bd_keep = 0, bd_last = False, bd_dest = 1\<rparr>],
      st_net_all := [\<lparr>bd_data = 3, bd_keep = 0, bd_last = False, bd_dest = 1\<rparr>]\<rparr>)) \<noteq> []"
proof -
  let ?p = "\<lparr>bd_data = 3, bd_keep = 0, bd_last = False, bd_dest = 1\<rparr> :: burst_dest"
  have "gt_reach (iterate_station (station_init\<lparr>st_net_in := st_net_in station_init @ [?p], st_net_all := st_net_all station_init @ [?p]\<rparr>))"
    by (intro reach_iterate reach_net reach_init)
  from globalTrans_delivers_all [OF this] show ?thesis
    by (auto simp: iterate_station_def station_init_def globalTrans_step_def gt_init_def split: prod.splits if_splits)
qed



text \<open>A ring station never has more than 32 packets of its own out on the ring.\<close>

theorem globalTrans_window:
  assumes "gt_reach s"
  shows "write_read_num (st_gt s) \<le> 32"
  using gt_window [OF assms] by (simp add: FIFO_len_def)

theorem globalTrans_window_witness: "write_read_num (st_gt (iterate_station station_init)) \<le> 32"
  by (rule globalTrans_window [OF reach_iterate [OF reach_init]])

text \<open>\<open>streamSync\<close> is never more than its window ahead of what came back, sends its
  beats in order and, when it returns, has sent and received every beat of the partition.\<close>

theorem streamSync_window:
  assumes "0 \<le> FIFO_length" "0 \<le> loopNum"
  shows "case streamSync_loop dest FIFO_length loopNum 0 0 vs of (os, w, r, st) \<Rightarrow>
    w - r \<le> FIFO_length \<and> w \<le> loopNum \<and> r \<le> loopNum \<and> (st = Returned \<longrightarrow> w = loopNum \<and> r = loopNum) \<and>
    os = map (\<lambda>i. sync_beat dest loopNum (int i)) [0..<nat w]"
  using streamSync_loop_window [of 0 0 FIFO_length loopNum dest vs] assms by (auto split: prod.splits)

theorem streamSync_window_witness:
  "length (fst (streamSync_loop 1 2 5 0 0 [False, False, False, True])) = 2"
  using streamSync_window [of 2 5 1 "[False, False, False, True]"] by (simp add: Let_def)

text \<open>\<open>streamSync\<close> returns once twice as many iterations as beats have seen input,
  whenever its window is open at all.\<close>

theorem streamSync_returns:
  assumes "0 < FIFO_length" "0 \<le> loopNum" "2 * nat loopNum \<le> length vs" "\<forall>v \<in> set vs. v"
  shows "snd (snd (snd (streamSync_loop dest FIFO_length loopNum 0 0 vs))) = Returned"
  by (rule streamSync_loop_returns) (use assms in simp_all)

theorem streamSync_returns_witness:
  "snd (snd (snd (streamSync_loop 1 3 40 0 0 (replicate 80 True)))) = Returned"
  by (rule streamSync_returns) simp_all

section \<open>Combining updates before the buffer\<close>

text \<open>\<open>processEdgesReorderStreamScheme1\<close> keeps what is gathered at every vertex: the
  stream it sends, up to the end marker, gathers to the same value as the stream it read,
  for every application whose gather function satisfies the algebra.\<close>

theorem reorder_keeps_gathered:
  assumes "gather_algebra (gatherFunc a) ok" "\<forall>x \<in> set xs. ok (iy x) \<and> \<not> bit (ix x) 31"
    and "ends_stream (ix e)"
  shows "\<exists>os. processEdgesReorderStreamScheme1 a (xs @ e # rest) = (os @ [\<lparr>ix = ENDFLAG, iy = ENDFLAG\<rparr>], Returned) \<and>
    (\<forall>v. gather_all (gatherFunc a) (at_vertex v os) = gather_all (gatherFunc a) (at_vertex v xs))"
  by (rule processEdgesReorder_gather [OF assms])

theorem reorder_keeps_gathered_witness:
  "\<exists>os. processEdgesReorderStreamScheme1 pr_app ([\<lparr>ix = 5, iy = 1\<rparr>, \<lparr>ix = 5, iy = 2\<rparr>] @ \<lparr>ix = 0xffffffff, iy = 0\<rparr> # []) =
      (os @ [\<lparr>ix = ENDFLAG, iy = ENDFLAG\<rparr>], Returned) \<and>
    gather_all (gatherFunc pr_app) (at_vertex 5 os) = 3"
proof -
  have "gather_algebra (gatherFunc pr_app) (\<lambda>_. True)"
    by (simp add: pr_app_def pr_alg.gather_algebra_axioms)
  from reorder_keeps_gathered [OF this, of "[\<lparr>ix = 5, iy = 1\<rparr>, \<lparr>ix = 5, iy = 2\<rparr>]" "\<lparr>ix = 0xffffffff, iy = 0\<rparr>" "[]"]
  show ?thesis
    by (auto simp: ends_stream_def ENDFLAG_def bit_iff_odd at_vertex_def gather_all_def pr_app_def pr_gather_def)
qed

text \<open>C30: \<open>rawSolver\<close> loses updates: with its four slots in use by vertices within 32 of the
  one sent last, an update to a fifth vertex changes nothing and sends nothing.\<close>

theorem rawSolver_loses_update:
  assumes "vaild_flag st = replicate 4 True" "length (slots st) = 4"
    and "\<forall>i<4. distance st i < DST_INTERVEL" "\<forall>i<4. \<not> same_vertex (ix (slots st ! i)) (ix d)"
    and "\<not> ends_stream (ix d)"
  shows "rawSolver_body a st \<lparr>it_data = d, it_flag = False\<rparr> = (st, [], False)"
  by (rule rawSolver_full_drops [OF assms])

theorem rawSolver_loses_update_witness:
  "\<exists>st. st = fold (\<lambda>v st. fst (rawSolver_body pr_app st \<lparr>it_data = \<lparr>ix = v, iy = 1\<rparr>, it_flag = False\<rparr>)) [1, 2, 3, 4] solver_init \<and>
     rawSolver_body pr_app st \<lparr>it_data = \<lparr>ix = 5, iy = 1\<rparr>, it_flag = False\<rparr> = (st, [], False)"
proof -
  let ?S = "\<lambda>xs fs. \<lparr>slots = map (\<lambda>(v, y). \<lparr>ix = v, iy = y\<rparr>) xs, vaild_flag = fs, lastSendBuffered = [0, 0, 0, 0]\<rparr>"
  note ev = all_less_4 four_slots
    distance_def DST_INTERVEL_def same_vertex_def ends_stream_def ENDFLAG_def first_of_def
  have 1: "solver_init = ?S [(0, 0), (0, 0), (0, 0), (0, 0)] [False, False, False, False]"
    by (simp add: solver_init_def four_slots)
  have 2: "rawSolver_body pr_app (?S [(0, 0), (0, 0), (0, 0), (0, 0)] [False, False, False, False]) \<lparr>it_data = \<lparr>ix = 1, iy = 1\<rparr>, it_flag = False\<rparr> =
      (?S [(1, 1), (0, 0), (0, 0), (0, 0)] [True, False, False, False], [], False)"
    by (rule rawSolver_takes_slot [of _ _ 0]) (simp_all add: ev)
  have 3: "rawSolver_body pr_app (?S [(1, 1), (0, 0), (0, 0), (0, 0)] [True, False, False, False]) \<lparr>it_data = \<lparr>ix = 2, iy = 1\<rparr>, it_flag = False\<rparr> =
      (?S [(1, 1), (2, 1), (0, 0), (0, 0)] [True, True, False, False], [], False)"
    by (rule rawSolver_takes_slot [of _ _ 1]) (simp_all add: ev)
  have 4: "rawSolver_body pr_app (?S [(1, 1), (2, 1), (0, 0), (0, 0)] [True, True, False, False]) \<lparr>it_data = \<lparr>ix = 3, iy = 1\<rparr>, it_flag = False\<rparr> =
      (?S [(1, 1), (2, 1), (3, 1), (0, 0)] [True, True, True, False], [], False)"
    by (rule rawSolver_takes_slot [of _ _ 2]) (simp_all add: ev)
  have 5: "rawSolver_body pr_app (?S [(1, 1), (2, 1), (3, 1), (0, 0)] [True, True, True, False]) \<lparr>it_data = \<lparr>ix = 4, iy = 1\<rparr>, it_flag = False\<rparr> =
      (?S [(1, 1), (2, 1), (3, 1), (4, 1)] [True, True, True, True], [], False)"
    by (rule rawSolver_takes_slot [of _ _ 3]) (simp_all add: ev)
  have "rawSolver_body pr_app (?S [(1, 1), (2, 1), (3, 1), (4, 1)] [True, True, True, True]) \<lparr>it_data = \<lparr>ix = 5, iy = 1\<rparr>, it_flag = False\<rparr> =
      (?S [(1, 1), (2, 1), (3, 1), (4, 1)] [True, True, True, True], [], False)"
    by (rule rawSolver_loses_update) (simp_all add: ev)
  moreover have "fold (\<lambda>v st. fst (rawSolver_body pr_app st \<lparr>it_data = \<lparr>ix = v, iy = 1\<rparr>, it_flag = False\<rparr>)) [1, 2, 3, 4] solver_init =
      ?S [(1, 1), (2, 1), (3, 1), (4, 1)] [True, True, True, True]"
    unfolding 1 by (simp only: fold.simps comp_apply id_apply 2 3 4 5 fst_conv)
  ultimately show ?thesis by (simp only:) blast
qed

section \<open>The partitioner\<close>

text \<open>C31: Whatever sort the library has, when the partitioner ends, the edges in all the files
  are the edges of the input, each once; there are four files for every interval, each
  sorted by source, whose edges point into the interval.\<close>

theorem partition_keeps_edges:
  assumes "partitioner blockSort batchSort edgeSort" "in_range es"
    and "partition_main edgeSort splits blockSort batchSort flt es = Some fss"
  shows "mset (concat (map file_edges (concat fss))) = mset es \<and> length fss = intervalNum es \<and>
    (\<forall>i < length fss. length (fss ! i) = numSLRs \<and>
      (\<forall>f \<in> set (fss ! i). sorted (map fst (file_edges f)) \<and> (\<forall>e \<in> set (file_edges f). snd e div TARGET_RANGE = int i)))"
  by (rule partitioner.partition_main_edges [OF assms(1,3,2)])

theorem partition_keeps_edges_witness:
  "\<exists>fss. partition_main (sort_key fst) (\<lambda>k n. n) (sort_key (\<lambda>b. - int (length b))) (sort_key (\<lambda>p. - int (snd p))) (\<lambda>x. x)
      [(2, 5), (0, 5), (3, 7), (1, 5)] = Some fss \<and>
    mset (concat (map file_edges (concat fss))) = mset [(2, 5), (0, 5), (3, 7), (1, 5)]"
proof -
  let ?es = "[(2, 5), (0, 5), (3, 7), (1, 5)] :: vedge list"
  have n: "intervalNum ?es = 1"
    by (simp add: intervalNum_def maxVertexId_def sdiv_range TARGET_RANGE_def)
  have r: "in_range ?es" by (simp add: in_range_def n TARGET_RANGE_def)
  then have "divide_all ?es = Some [?es]"
    using divide_all_spec [of ?es] by (simp add: in_range_def n TARGET_RANGE_def)
  moreover have "\<exists>fs. partition_interval (sort_key fst) (\<lambda>k n. n) (sort_key (\<lambda>b. - int (length b)))
      (sort_key (\<lambda>p. - int (snd p))) (\<lambda>x. x) ?es = Some fs"
    unfolding not_None_eq [symmetric] by code_simp
  ultimately obtain fss where f: "partition_main (sort_key fst) (\<lambda>k n. n) (sort_key (\<lambda>b. - int (length b)))
      (sort_key (\<lambda>p. - int (snd p))) (\<lambda>x. x) ?es = Some fss"
    by (auto simp: partition_main_def)
  from partition_keeps_edges [OF std_partitioner.partitioner_axioms r f] f show ?thesis by blast
qed

text \<open>With vertex numbers in range, the division by threads gives every interval exactly
  the edges whose destination is in it, in input order, whichever thread took which piece.\<close>

theorem divide_by_destination:
  assumes "in_range es"
  shows "divide_all es = Some (map (\<lambda>i. filter (\<lambda>e. snd e div TARGET_RANGE = int i) es) [0..<intervalNum es])"
  using assms by (intro divide_all_spec) (simp add: in_range_def)

theorem divide_by_destination_witness:
  "divide_all [(0, 1048577), (3, 7), (1, 5)] = Some [[(3, 7), (1, 5)], [(0, 1048577)]]"
proof -
  have n: "intervalNum [(0, 1048577), (3, 7), (1, 5)] = 2"
    by (simp add: intervalNum_def maxVertexId_def sdiv_range TARGET_RANGE_def)
  have "in_range [(0, 1048577), (3, 7), (1, 5)]" by (simp add: in_range_def n TARGET_RANGE_def)
  from divide_by_destination [OF this] show ?thesis by (simp add: n TARGET_RANGE_def upt_rec)
qed

text \<open>The number of intervals is one too small when the largest vertex number is a
  positive multiple of \<open>TARGET_RANGE\<close>: an edge that points to this vertex is stored outside
  the vector of intervals.\<close>

theorem intervalNum_misses_last:
  assumes "maxVertexId es = int k * TARGET_RANGE" "0 < k" "e \<in> set es" "snd e = maxVertexId es" "\<forall>d \<in> set es. 0 \<le> snd d"
  shows "intervalNum es = k \<and> divideSublist es (intervalNum es) = None"
proof -
  have n: "intervalNum es = k" by (rule intervalNum_exact [OF assms(1,2)])
  have "divide_loop ds iv = None" if "e \<in> set ds" "\<forall>d \<in> set ds. 0 \<le> snd d" "length iv = k" for ds iv
    using that
  proof (induction ds arbitrary: iv)
    case (Cons d ds)
    show ?case
    proof (cases "d = e")
      case True
      have "intervalIndex e = int k"
      proof -
        have s: "snd e = int k * TARGET_RANGE" using assms(1,4) by simp
        then have "0 \<le> snd e" by (simp add: TARGET_RANGE_def)
        then show ?thesis unfolding intervalIndex_def by (simp add: sdiv_range) (simp add: s TARGET_RANGE_def)
      qed
      with True Cons.prems(3) show ?thesis by simp
    qed (use Cons in \<open>simp add: push_at_def\<close>)
  qed simp
  from this [OF assms(3,5), of "replicate k []"] n show ?thesis by (simp add: divideSublist_def)
qed

theorem intervalNum_misses_last_witness:
  "divideSublist [(0, 1), (5, 1048576)] (intervalNum [(0, 1), (5, 1048576)]) = None"
proof -
  have "maxVertexId [(0, 1), (5, 1048576)] = int 1 * TARGET_RANGE" by (simp add: maxVertexId_def TARGET_RANGE_def)
  then show ?thesis
    by (rule intervalNum_misses_last [where e = "(5, 1048576)", THEN conjunct2]) (simp_all add: maxVertexId_def)
qed

text \<open>C32: A graph without an edge into some interval is never partitioned: all costs of that interval
  are 0, which is not less than the twentieth part of the average, so each round of the
  search for a balanced allocation ends well and asks for another one.\<close>

theorem empty_interval_never_ends:
  assumes "partitioner blockSort batchSort edgeSort" "flt 0 = 0" "in_range es" "i < intervalNum es"
    and "\<forall>e \<in> set es. snd e div TARGET_RANGE \<noteq> int i" "splits k 0 = 0"
  shows "partition_main edgeSort splits blockSort batchSort flt es = None \<and>
    processBlocks (splits k) [] = Some [] \<and> \<not> perfmodel flt (allocateBlocksToLists blockSort batchSort [])"
proof -
  note p = assms(1) [unfolded partitioner_def]
  have b: "processBlocks (splits k) [] = Some []" by (rule processBlocks_empty) (rule assms(6))
  show ?thesis
    using partitioner.partition_main_hangs [OF assms(1), of flt, OF assms(2-5)] b
      block_allocator.empty_round(2) [OF p [THEN conjunct1] b] perfmodel_empty [of flt, OF assms(2)] by simp
qed

theorem empty_interval_never_ends_witness:
  "partition_main (sort_key fst) (\<lambda>k n. n) (sort_key (\<lambda>b. - int (length b))) (sort_key (\<lambda>p. - int (snd p))) (\<lambda>x. x)
     [(0, 1), (5, 2097153)] = None"
proof -
  have n: "intervalNum [(0, 1), (5, 2097153)] = 3" by (simp add: intervalNum_def maxVertexId_def TARGET_RANGE_def sdiv_range)
  show ?thesis
    by (rule empty_interval_never_ends [OF std_partitioner.partitioner_axioms, of "\<lambda>x. x" _ 1 "\<lambda>k n. n" 0, THEN conjunct1])
      (simp_all add: n in_range_def TARGET_RANGE_def)
qed

text \<open>Cutting a block into four pieces keeps the edges and their order, and the pieces
  differ by at most one edge.\<close>

theorem split_block_even:
  "concat (split_block block) = block \<and> length (split_block block) = numSLRs \<and>
   (\<forall>b \<in> set (split_block block). length block div numSLRs \<le> length b \<and> length b \<le> length block div numSLRs + 1)"
proof -
  have "length (split_block block) = numSLRs" by (simp add: split_block_def)
  then show ?thesis using concat_split_block split_block_sizes by blast
qed

theorem split_block_even_witness:
  "length (hd (split_block [1 :: nat, 2, 3, 4, 5, 6])) \<le> 2"
proof -
  have "split_block [1 :: nat, 2, 3, 4, 5, 6] \<noteq> []" by (simp add: split_block_def numSLRs_def)
  then show ?thesis
    using split_block_even [of "[1 :: nat, 2, 3, 4, 5, 6]"] hd_in_set by (fastforce simp: numSLRs_def)
qed

text \<open>With no negative source and at most as many splits as blocks, \<open>processBlocks\<close>
  stays inside its vectors and keeps every edge.\<close>

theorem processBlocks_keeps_edges:
  assumes "\<forall>e \<in> set es. 0 \<le> fst e" "\<forall>n. numSplit n \<le> n"
  shows "\<exists>bs. processBlocks numSplit es = Some bs \<and> mset (concat bs) = mset es"
  using processBlocks_total [OF assms] processBlocks_mset by blast

theorem processBlocks_keeps_edges_witness:
  "\<exists>bs. processBlocks (\<lambda>n. n div 2) [(1, 4), (2, 4), (600, 3)] = Some bs \<and>
     mset (concat bs) = mset [(1, 4), (2, 4), (600, 3)]"
  by (rule processBlocks_keeps_edges) auto

text \<open>The greedy allocation puts every block into exactly one of the four lists, and no
  list has more edges than another by more than the largest block.\<close>

theorem allocation_balanced:
  assumes "block_allocator blockSort batchSort" "\<forall>b \<in> set sb. length b \<le> M"
  shows "length (allocateBlocksToLists blockSort batchSort sb) = numSLRs \<and>
    mset (concat (allocateBlocksToLists blockSort batchSort sb)) = mset sb \<and>
    (\<forall>x \<in> set (allocateBlocksToLists blockSort batchSort sb). \<forall>y \<in> set (allocateBlocksToLists blockSort batchSort sb).
      load x \<le> load y + M)"
  using block_allocator.allocate_spec [OF assms] by blast

theorem allocation_balanced_witness:
  "length (allocateBlocksToLists (sort_key (\<lambda>b. - int (length b))) (sort_key (\<lambda>p. - int (snd p)))
     [[(1, 2)], [(3, 4), (5, 6)]]) = 4"
proof -
  have "block_allocator (sort_key (\<lambda>b. - int (length b))) (sort_key (\<lambda>p. - int (snd p)))"
    by unfold_locales simp_all
  from allocation_balanced [OF this, of "[[(1, 2)], [(3, 4), (5, 6)]]" 2] show ?thesis by (simp add: numSLRs_def numeral_2_eq_2)
qed

section \<open>From the files to the kernel\<close>

text \<open>A file holds the edges sorted by source behind their number, with 17 to 32 padding
  edges that make the number a multiple of 16; the host reads the number and the edges, and
  the kernel's readers see source and destination of edge \<open>e\<close> as the words of pair \<open>e\<close>.\<close>

theorem file_round_trip:
  assumes "mset (edgeSort (concat bs)) = mset (concat bs)" "length (concat bs) + 32 < 2 ^ 31"
  shows "\<exists>es. save_edges edgeSort bs = (int (length es), int (length es)) # es \<and>
    length es mod 16 = 0 \<and> length (concat bs) + 17 \<le> length es \<and> length es \<le> length (concat bs) + 32 \<and>
    take (length (concat bs)) es = edgeSort (concat bs) \<and>
    edgeNumChunk (file_words (save_edges edgeSort bs)) = int (length es) \<and>
    (\<forall>e < length es.
      edge_src (buffer_mem (chunkEdgeData (file_words (save_edges edgeSort bs)))) e = word_of_int (fst (es ! e)) \<and>
      edge_dst (buffer_mem (chunkEdgeData (file_words (save_edges edgeSort bs)))) e = word_of_int (snd (es ! e)))"
proof -
  have l: "length (edgeSort (concat bs)) = length (concat bs)" using assms(1) by (rule mset_eq_length)
  obtain k m x where f: "save_edges edgeSort bs = (int (16 * m), int (16 * m)) # edgeSort (concat bs) @ replicate k (x, padding_dst)"
    "length (edgeSort (concat bs)) + k = 16 * m" "17 \<le> k" "k \<le> 32"
    using save_edges_parts [of edgeSort bs, OF assms] that by metis
  let ?es = "edgeSort (concat bs) @ replicate k (x, padding_dst)"
  have c: "length ?es = 16 * m" using f(2) by simp
  have s: "save_edges edgeSort bs = (int (length ?es), int (length ?es)) # ?es" by (simp only: f(1) c)
  have "length ?es < 2 ^ 31" using assms(2) f(2,4) l c by simp
  note ld = file_loads [OF this]
  have "length ?es mod 16 = 0" unfolding c by simp
  moreover have "length (concat bs) + 17 \<le> length ?es" "length ?es \<le> length (concat bs) + 32"
    "take (length (concat bs)) ?es = edgeSort (concat bs)"
    using f(3,4) l by simp_all
  ultimately show ?thesis
    unfolding s ld using buffer_mem_edges [of _ ?es] by (intro exI [of _ ?es]) simp
qed

theorem file_round_trip_witness:
  "edgeNumChunk (file_words (save_edges (sort_key fst) [[(3, 4)], [(1, 2)]])) = 32"
proof -
  let ?bs = "[[(3, 4)], [(1, 2)]] :: vedge list list"
  have "mset (sort_key fst (concat ?bs)) = mset (concat ?bs)" by simp
  from file_round_trip [of "sort_key fst" ?bs, OF this] show ?thesis by (auto simp: save_edges_def padding_dst_def)
qed

text \<open>The work of a node on one partition: four gather-scatter kernels on the files of an
  interval, merge, apply and write give every vertex of the partition \<open>applyFunc\<close> of the
  updates gathered over all the edges of the interval that point to it, however the
  partitioner spread and ordered them, and change no other word, provided that the source
  caches answer each edge with the property of its source.\<close>

theorem partition_step_computes:
  assumes "partitioner blockSort batchSort edgeSort"
    and "partition_interval edgeSort splits blockSort batchSort flt es = Some fs"
    and "length es + 32 < 2 ^ 27" "\<forall>e \<in> set es. 0 \<le> snd e \<and> snd e < 2 ^ 31"
    and "N = 2 ^ n" "10 \<le> n" "n < 32" "off + N div 16 + 64 < 2 ^ 28"
    and "\<forall>j<4. \<forall>i<16. \<forall>t < N div 32. bufs j i t = 0"
    and "\<forall>j<4. int (16 * length (props j)) = edgeNumChunk (file_words (fs ! j)) \<and>
      cache_answers vprop (file_edges (fs ! j)) (props j)"
    and "gather_algebra (gatherFunc a) ok" "\<forall>v. \<forall>x \<in> set (edge_updates a N vprop es v). ok x"
  shows "fst (node_partition a N u tok0 bufs junk fs (\<lambda>j. props j @ qs j) vertexProp outDegree propTemp
      (word_of_nat (16 * off)) (word_of_nat N) arg) =
    (\<lambda>t. if off \<le> t \<and> t < off + N div 16 then partition_words a N vprop es vertexProp outDegree junk arg off (t - off)
         else propTemp t)"
  by (rule partitioner.node_partition_computes [OF assms])

theorem partition_step_computes_witness:
  "\<exists>fs. partition_interval (sort_key fst) (\<lambda>k n. n) (sort_key (\<lambda>b. - int (length b))) (sort_key (\<lambda>p. - int (snd p)))
      (\<lambda>x. x) [(0, 5), (1, 5), (2, 5), (3, 7)] = Some fs \<and>
    lane 5 (fst (node_partition wcc_app 1024 \<lparr>bd_data = 0, bd_keep = 0, bd_last = False, bd_dest = 0\<rparr> (\<lambda>_. (0, 0))
      (\<lambda>_ _ _. 0) (\<lambda>_ _. 0) fs (\<lambda>j. replicate 2 \<lparr>ax_data = burst_of (\<lambda>_. 7), ax_last = False\<rparr> @ [])
      (\<lambda>_. 0) None (\<lambda>_. 0) (word_of_nat (16 * 0)) (word_of_nat 1024) 0) 0) = 7"
proof -
  let ?es = "[(0, 5), (1, 5), (2, 5), (3, 7)] :: vedge list"
  let ?fs = "map (\<lambda>e. save_edges (sort_key fst) [[e]]) ?es"
  let ?props = "\<lambda>_ :: nat. replicate 2 \<lparr>ax_data = burst_of (\<lambda>_. 7), ax_last = False\<rparr>"
  have fs: "partition_interval (sort_key fst) (\<lambda>k n. n) (sort_key (\<lambda>b. - int (length b))) (sort_key (\<lambda>p. - int (snd p)))
      (\<lambda>x. x) ?es = Some ?fs" by code_simp
  have f: "edgeNumChunk (file_words (save_edges (sort_key fst) [[e]])) = 32" "length (file_edges (save_edges (sort_key fst) [[e]])) \<le> 1" for e
    by (simp_all add: save_edges_def file_edges_def edgeNumChunk_def file_words_def)
  have c: "cache_answers (\<lambda>_. 7) (file_edges (save_edges (sort_key fst) [[e]])) (replicate 2 \<lparr>ax_data = burst_of (\<lambda>_. 7), ax_last = False\<rparr>)" for e
    using f(2) [of e] unfolding cache_answers_def
    by (intro allI impI) (simp add: edge_prop_in_def lane_burst_of)
  have p: "\<forall>j<4. int (16 * length (?props j)) = edgeNumChunk (file_words (?fs ! j)) \<and>
      cache_answers (\<lambda>_. 7) (file_edges (?fs ! j)) (?props j)"
    using c by (simp add: all_less_4 f(1))
  have u: "edge_updates wcc_app 1024 (\<lambda>_. 7) ?es v = (if v = 5 then [7, 7, 7] else if v = 7 then [7] else [])" for v
    by (simp add: edge_updates_def wcc_app_def)
  have "fst (node_partition wcc_app 1024 \<lparr>bd_data = 0, bd_keep = 0, bd_last = False, bd_dest = 0\<rparr> (\<lambda>_. (0, 0))
      (\<lambda>_ _ _. 0) (\<lambda>_ _. 0) ?fs (\<lambda>j. ?props j @ []) (\<lambda>_. 0) None (\<lambda>_. 0) (word_of_nat (16 * 0)) (word_of_nat 1024) 0) =
    (\<lambda>t. if 0 \<le> t \<and> t < 0 + 1024 div 16 then partition_words wcc_app 1024 (\<lambda>_. 7) ?es (\<lambda>_. 0) None (\<lambda>_ _. 0) 0 0 (t - 0) else 0)"
    by (rule partition_step_computes [OF std_partitioner.partitioner_axioms fs _ _ _ _ _ _ _ p, where n = 10 and ok = wcc_ok])
      (simp_all add: u wcc_ok_def, simp add: wcc_app_def wcc_alg.gather_algebra_axioms)
  moreover have "lane 5 (partition_words wcc_app 1024 (\<lambda>_. 7) ?es (\<lambda>_. 0) None (\<lambda>_ _. 0) 0 0 0) = 7"
    by (simp add: partition_words_def lane_burst_of new_property_def u)
      (simp add: wcc_app_def wcc_apply_def gather_all_def wcc_gather_def)
  ultimately show ?thesis using fs by (intro exI [of _ ?fs]) simp
qed

section \<open>The graph container\<close>



text \<open>The first line that is neither a comment nor an edge stops the loading, with its number.\<close>

theorem edge_list_bad_line:
  assumes "\<forall>l \<in> set pre. good_line skip l" "\<not> good_line skip l"
  shows "load_edge_list order junk skip (pre @ l # post) g = Inl (Cannot_Convert (length pre + 1))"
  using load_lines_bad [OF assms, of 0] by (simp add: load_edge_list_def load_edge_list_file_def)

theorem edge_list_bad_line_witness:
  "\<forall>order junk g. load_edge_list order junk CHR ''#'' [''# edges'', ''0 1'', ''1 x'', ''2 3''] g = Inl (Cannot_Convert 3)"
proof (intro allI)
  fix order g and junk :: "nat \<Rightarrow> nat"
  have "\<forall>l \<in> set [''# edges'', ''0 1'']. good_line CHR ''#'' l" "\<not> good_line CHR ''#'' ''1 x''" by (code_simp, code_simp)
  from edge_list_bad_line [OF this, of order junk "[''2 3'']" g]
  show "load_edge_list order junk CHR ''#'' [''# edges'', ''0 1'', ''1 x'', ''2 3''] g = Inl (Cannot_Convert 3)" by simp
qed

text \<open>C34: \<open>is_neighbor\<close> answers whether there is an edge, from whichever of the two vertices it searches.\<close>

theorem is_neighbor_correct:
  assumes "simple_graph g" "u < gr_num_vertices g" "v < gr_num_vertices g"
  shows "is_neighbor g u v \<longleftrightarrow> v \<in> set (neighbors g u)"
  by (rule is_neighbor_result [OF assms])

theorem is_neighbor_correct_witness: "is_neighbor demo_csr 2 1 \<and> \<not> is_neighbor demo_csr 0 2"
  using is_neighbor_correct [OF demo_csr_simple, of 2 1] is_neighbor_correct [OF demo_csr_simple, of 0 2]
  by (simp add: demo_csr_fields demo_csr_neighbors)



text \<open>The label of an edge, read from the end of smaller degree, is the label stored with it at
  either end.\<close>

theorem edge_label_correct:
  assumes "simple_graph g" "symmetric_values g (gr_edge_label g)" "length (gr_edge_label g) = gr_num_edges g"
    "u < gr_num_vertices g" "i < gr_degree g ! u"
  shows "edge_label g u (neighbors g u ! i) = edge_labels g u ! i"
  by (rule edge_label_result [OF assms])

theorem edge_label_correct_witness: "edge_label demo_csr 1 2 = 20"
  using edge_label_correct [OF demo_csr_simple demo_csr_symmetric, of 1 1]
  by (simp add: demo_csr_fields demo_csr_neighbors edge_labels_def)

text \<open>\<open>sequential_partition\<close> cuts the vertices into ascending ranges from the first to the last.
  A range stays within the target unless it has a single vertex; with the next vertex it would
  exceed the target; and \<open>get_pid\<close> names the range of every vertex.\<close>

theorem sequential_partition_ranges:
  assumes "offs = gr_partition_offset (sequential_partition target g)"
  shows "sorted offs \<and> hd offs = 0 \<and> last offs = gr_num_vertices g \<and> 2 \<le> length offs \<and>
    (\<forall>i. Suc i < length offs \<longrightarrow> part_sum (gr_degree g) (offs ! i) (offs ! Suc i) \<le> target \<or> offs ! Suc i \<le> offs ! i + 1) \<and>
    (\<forall>i. Suc (Suc i) < length offs \<longrightarrow> target < part_sum (gr_degree g) (offs ! i) (offs ! Suc i + 1)) \<and>
    (\<forall>u < gr_num_vertices g. is_member (sequential_partition target g) u (get_pid (sequential_partition target g) u) = Some True)"
  unfolding assms using sequential_partition_result [of target g] sequential_partition_pid [of _ g target] by blast

theorem sequential_partition_ranges_witness:
  "gr_partition_offset (sequential_partition 2 demo_csr) = [0, 1, 2, 4] \<and>
    is_member (sequential_partition 2 demo_csr) 3 (get_pid (sequential_partition 2 demo_csr) 3) = Some True"
proof -
  have "gr_partition_offset (sequential_partition 2 demo_csr) = [0, 1, 2, 4]"
    by (simp add: sequential_partition_def demo_csr_fields partition_step_def upt_rec)
  moreover have "3 < gr_num_vertices demo_csr" by (simp add: demo_csr_fields)
  ultimately show ?thesis using sequential_partition_ranges [OF refl, of 2 demo_csr] by blast
qed

text \<open>C36: Relabelling by a permutation keeps the graph well formed.  The neighbours of a new vertex, read
  as old vertices, are those of its old vertex, with the labels and weights they had, and
  degree, label and weight of the vertex follow it.\<close>

theorem relabel_isomorphic:
  assumes "simple_graph g" "relabel_ok p g"
  shows "\<exists>g'. relabel p g = Inr g' \<and> simple_graph g' \<and> gr_num_vertices g' = gr_num_vertices g \<and> gr_flags g' = gr_flags g \<and>
    (\<forall>u < gr_num_vertices g. gr_degree g' ! u = gr_degree g ! (p ! u) \<and>
       mset (map (\<lambda>v. p ! v) (neighbors g' u)) = mset (neighbors g (p ! u)) \<and>
       (is_vertex_labeled (gr_flags g) \<longrightarrow> gr_vertex_label g' ! u = gr_vertex_label g ! (p ! u)) \<and>
       (is_vertex_weighted (gr_flags g) \<longrightarrow> gr_vertex_weight g' ! u = gr_vertex_weight g ! (p ! u)) \<and>
       (is_edge_labeled (gr_flags g) \<longrightarrow>
          mset (zip (map (\<lambda>v. p ! v) (neighbors g' u)) (edge_labels g' u)) = mset (zip (neighbors g (p ! u)) (edge_labels g (p ! u)))) \<and>
       (is_edge_weighted (gr_flags g) \<longrightarrow>
          mset (zip (map (\<lambda>v. p ! v) (neighbors g' u)) (edge_weights g' u)) = mset (zip (neighbors g (p ! u)) (edge_weights g (p ! u)))))"
  by (rule relabel_result [OF assms])

theorem relabel_isomorphic_witness:
  "\<exists>g'. relabel [1, 3, 0, 2] demo_csr = Inr g' \<and> simple_graph g' \<and> gr_degree g' ! 0 = 2 \<and> gr_vertex_label g' ! 1 = 8"
proof -
  obtain g' where g': "relabel [1, 3, 0, 2] demo_csr = Inr g'" "simple_graph g'"
    "\<forall>u < 4. gr_degree g' ! u = gr_degree demo_csr ! ([1, 3, 0, 2] ! u) \<and> gr_vertex_label g' ! u = gr_vertex_label demo_csr ! ([1, 3, 0, 2] ! u)"
    using relabel_isomorphic [OF demo_csr_simple demo_csr_relabel] by (auto simp: demo_csr_fields demo_flags_def)
  then have "gr_degree g' ! 0 = 2" "gr_vertex_label g' ! 1 = 8" unfolding less_four by (simp_all add: demo_csr_fields)
  with g' show ?thesis by blast
qed





section \<open>The graph tools\<close>



text \<open>C40: The sorting tool renumbers the vertices rightly: the lists of a vertex are the old ones under the
  new numbers and the degrees descend.  But it counts one vertex too few, and the loop that
  fills the row pointers writes behind their last word for every graph; one more word
  would make them right.\<close>

theorem sort_tool_overflows:
  assumes "sort_graph nm u (Some ls) = Some g" "v \<le> tg_vertexNum g" "i < j" "j \<le> tg_vertexNum g"
  shows "vx_outVid (tg_vertices g ! (tg_remap g ! v)) =
      map (\<lambda>w. tg_remap g ! w) (out_list (is_ugraph nm u) (row_edges (\<lambda>i. i) (map read_uints ls)) v) \<and>
    tg_map g ! (tg_remap g ! v) = v \<and> vx_outDeg (tg_vertices g ! j) \<le> vx_outDeg (tg_vertices g ! i) \<and> plain_csr g = None \<and>
    row_pointers (tg_vertexNum g + 2) vx_outDeg (tg_vertices g) (tg_vertexNum g) = Some (offsets_of (map vx_outDeg (tg_vertices g)))"
proof -
  note f = sort_graph_fields [OF assms(1)]
  have "v < tg_vertexNum g + 1" using assms(2) by simp
  from invert_order_inverse(2) [OF f(6) this, folded f(5)] f(7) [OF assms(2)] sort_graph_degrees [OF assms(1,3,4)] plain_csr_outside [OF f(1)]
  show ?thesis by blast
qed

theorem sort_tool_overflows_witness:
  "\<exists>g. sort_graph ''ungraph.txt'' False (Some demo_tool_lines) = Some g \<and> plain_csr g = None"
proof -
  have "tool_rows (2 ^ 32 - 1) (map read_uints demo_tool_lines)" by (rule demo_tool_ok(2)) simp
  then obtain g where g: "sort_graph ''ungraph.txt'' False (Some demo_tool_lines) = Some g"
    unfolding sort_graph_defined [of "''ungraph.txt''" False, symmetric] by blast
  have "0 < tg_vertexNum g"
    using sort_graph_fields(2) [OF g] unfolding demo_tool_rows by (simp add: rows_ok_def)
  from sort_tool_overflows [OF g _ this, of 0] g show ?thesis by auto
qed

end
